(* ===== verification/Prelude.thy ===== *)
theory Prelude
  imports Main "HOL-Library.Word"
begin

text \<open>
  Shared vocabulary of the RunixOS development: the machine integer types, the outcome type of
  code that can panic, the array idioms of the kernel sources (first match in an array,
  \<open>copy_from_slice\<close>, the last entries of a history) and the generic facts about them that the
  component theories rely on.
\<close>

unbundle bit_operations_syntax

named_theorems kdefs \<open>unfolding rules of the small kernel accessors\<close>
named_theorems kframe \<open>which parts of the kernel state an operation leaves alone\<close>

type_synonym u8 = "8 word"
type_synonym u16 = "16 word"
type_synonym u32 = "32 word"
type_synonym u64 = "64 word"

text \<open>
  \<open>usize\<close> values that index or count are natural numbers; values that travel through registers
  or wrap (atomic counters, addresses, identities, checksums) are words.
\<close>

type_synonym usize = nat
type_synonym task_id = nat
type_synonym bytes = "u8 list"

text \<open>The largest \<open>usize\<close>, used by the sources as a sentinel.\<close>

definition usize_MAX :: nat where
  "usize_MAX = 2 ^ 64 - 1"

text \<open>The bytes of an ASCII string literal.\<close>

definition ascii :: "string \<Rightarrow> bytes" where
  "ascii s = map of_char s"

text \<open>Code that may panic: an index out of range, an \<open>unwrap\<close> of \<open>None\<close>, an underflow.\<close>

datatype 'a run = Panic | Ret 'a

fun run_bind :: "'a run \<Rightarrow> ('a \<Rightarrow> 'b run) \<Rightarrow> 'b run" where
  "run_bind Panic f = Panic"
| "run_bind (Ret x) f = f x"

lemma run_bind_Ret_iff: "run_bind m f = Ret y \<longleftrightarrow> (\<exists>x. m = Ret x \<and> f x = Ret y)"
  by (cases m) auto

subsection \<open>The first match in an array\<close>

text \<open>\<open>for (i, x) in xs.iter().enumerate() { if p(x) { found = Some(i); break; } }\<close>\<close>

fun first_index :: "('a \<Rightarrow> bool) \<Rightarrow> 'a list \<Rightarrow> nat option" where
  "first_index p [] = None"
| "first_index p (x # xs) = (if p x then Some 0 else map_option Suc (first_index p xs))"

lemma first_index_None: "first_index p xs = None \<longleftrightarrow> (\<forall>x\<in>set xs. \<not> p x)"
  by (induction xs) auto

lemma first_index_Some:
  "first_index p xs = Some i \<longleftrightarrow> i < length xs \<and> p (xs ! i) \<and> (\<forall>j<i. \<not> p (xs ! j))"
proof (induction xs arbitrary: i)
  case Nil
  then show ?case by simp
next
  case (Cons x xs)
  show ?case
  proof (cases i)
    case 0
    then show ?thesis by auto
  next
    case (Suc k)
    have "first_index p (x # xs) = Some (Suc k) \<longleftrightarrow> \<not> p x \<and> first_index p xs = Some k"
      by auto
    then show ?thesis
      using Suc Cons.IH [of k] by (auto simp: less_Suc_eq_0_disj)
  qed
qed

lemma first_index_bound: "first_index p xs = Some i \<Longrightarrow> i < length xs"
  by (simp add: first_index_Some)

subsection \<open>Slices\<close>

text \<open>\<open>dst[off..off + src.len()].copy_from_slice(src)\<close>, for a range inside \<open>dst\<close>.\<close>

definition copy_into :: "'a list \<Rightarrow> nat \<Rightarrow> 'a list \<Rightarrow> 'a list" where
  "copy_into dst off src = take off dst @ src @ drop (off + length src) dst"

lemma length_copy_into [simp]:
  "off + length src \<le> length dst \<Longrightarrow> length (copy_into dst off src) = length dst"
  by (simp add: copy_into_def)

lemma take_copy_into_0 [simp]: "take (length src) (copy_into dst 0 src) = src"
  by (simp add: copy_into_def)

lemma nth_copy_into:
  assumes "off + length src \<le> length dst" and "i < length dst"
  shows "copy_into dst off src ! i =
    (if off \<le> i \<and> i < off + length src then src ! (i - off) else dst ! i)"
  using assms by (auto simp: copy_into_def nth_append min_def)

lemma slice_copy_into [simp]:
  "off \<le> length dst \<Longrightarrow> take (length src) (drop off (copy_into dst off src)) = src"
  by (simp add: copy_into_def)

text \<open>The range \<open>xs[a..b]\<close>.\<close>

definition slice :: "nat \<Rightarrow> nat \<Rightarrow> 'a list \<Rightarrow> 'a list" where
  "slice a b xs = take (b - a) (drop a xs)"

lemma length_slice [simp]: "a \<le> b \<Longrightarrow> b \<le> length xs \<Longrightarrow> length (slice a b xs) = b - a"
  by (simp add: slice_def)

lemma slice_of_copy_into:
  "off \<le> length dst \<Longrightarrow> slice off (off + length src) (copy_into dst off src) = src"
  by (simp add: slice_def)

text \<open>Storing one more element behind the first \<open>n\<close>.\<close>

lemma take_update_snoc: "n < length buf \<Longrightarrow> take (Suc n) (buf[n := b]) = take n buf @ [b]"
  by (simp add: take_Suc_conv_app_nth)

subsection \<open>The most recent entries of a history\<close>

definition last_n :: "nat \<Rightarrow> 'a list \<Rightarrow> 'a list" where
  "last_n n xs = drop (length xs - n) xs"

lemma length_last_n [simp]: "length (last_n n xs) = min n (length xs)"
  by (simp add: last_n_def)

lemma last_n_all: "length xs \<le> n \<Longrightarrow> last_n n xs = xs"
  by (simp add: last_n_def)

lemma last_n_nth: "i < min n (length xs) \<Longrightarrow> last_n n xs ! i = xs ! (length xs - n + i)"
  by (simp add: last_n_def)

lemma last_n_snoc:
  assumes "0 < n"
  shows "last_n n (last_n n xs @ [x]) = last_n n (xs @ [x])"
proof (cases "length xs < n")
  case True
  then show ?thesis by (simp add: last_n_def)
next
  case False
  then have "Suc (length xs) - n = Suc (length xs - n)" and "length xs - (length xs - n) = n"
    by simp_all
  with assms False show ?thesis by (simp add: last_n_def)
qed

lemma last_n_append_absorb:
  assumes "0 < n"
  shows "last_n n (last_n n xs @ ys) = last_n n (xs @ ys)"
proof (induction ys rule: rev_induct)
  case Nil
  then show ?case by (simp add: last_n_def)
next
  case (snoc y ys)
  have "last_n n ((last_n n xs @ ys) @ [y]) = last_n n (last_n n (last_n n xs @ ys) @ [y])"
    by (rule last_n_snoc [OF assms, symmetric])
  also have "\<dots> = last_n n (last_n n (xs @ ys) @ [y])"
    by (simp only: snoc.IH)
  also have "\<dots> = last_n n ((xs @ ys) @ [y])"
    by (rule last_n_snoc [OF assms])
  finally show ?case by simp
qed

subsection \<open>Arrays of options\<close>

text \<open>\<open>slots.iter().flatten()\<close>\<close>

definition somes :: "'a option list \<Rightarrow> 'a list" where
  "somes xs = map the (filter (\<lambda>x. x \<noteq> None) xs)"

lemma somes_simps [simp]:
  "somes [] = []" "somes (None # xs) = somes xs" "somes (Some x # xs) = x # somes xs"
  by (simp_all add: somes_def)

lemma set_somes: "set (somes xs) = {x. Some x \<in> set xs}"
proof (induction xs)
  case Nil
  then show ?case by simp
next
  case (Cons a xs)
  then show ?case by (cases a) auto
qed

lemma somes_replicate_None [simp]: "somes (replicate n None) = []"
  by (induction n) auto

lemma map_Some_somes: "None \<notin> set xs \<Longrightarrow> map Some (somes xs) = xs"
proof (induction xs)
  case (Cons a xs)
  then show ?case by (cases a) auto
qed simp

lemma somes_map_Some [simp]: "somes (map Some xs) = xs"
  by (induction xs) auto

lemma somes_append [simp]: "somes (xs @ ys) = somes xs @ somes ys"
  by (simp add: somes_def)

lemma length_somes: "None \<notin> set xs \<Longrightarrow> length (somes xs) = length xs"
  by (metis length_map map_Some_somes)

subsection \<open>UTF-8\<close>

text \<open>\<open>core::str::from_utf8(bytes).is_ok()\<close>\<close>

definition utf8_cont :: "u8 \<Rightarrow> bool" where
  "utf8_cont b \<longleftrightarrow> 0x80 \<le> b \<and> b \<le> 0xBF"

fun valid_utf8 :: "bytes \<Rightarrow> bool" where
  "valid_utf8 [] = True"
| "valid_utf8 (a # as) =
     (if a < 0x80 then valid_utf8 as
      else if 0xC2 \<le> a \<and> a \<le> 0xDF then
        (case as of b # bs \<Rightarrow> utf8_cont b \<and> valid_utf8 bs | _ \<Rightarrow> False)
      else if 0xE0 \<le> a \<and> a \<le> 0xEF then
        (case as of
           b # c # cs \<Rightarrow>
             (if a = 0xE0 then 0xA0 \<le> b \<and> b \<le> 0xBF
              else if a = 0xED then 0x80 \<le> b \<and> b \<le> 0x9F
              else utf8_cont b) \<and> utf8_cont c \<and> valid_utf8 cs
         | _ \<Rightarrow> False)
      else if 0xF0 \<le> a \<and> a \<le> 0xF4 then
        (case as of
           b # c # d # ds \<Rightarrow>
             (if a = 0xF0 then 0x90 \<le> b \<and> b \<le> 0xBF
              else if a = 0xF4 then 0x80 \<le> b \<and> b \<le> 0x8F
              else utf8_cont b) \<and> utf8_cont c \<and> utf8_cont d \<and> valid_utf8 ds
         | _ \<Rightarrow> False)
      else False)"

lemma valid_utf8_ascii: "\<forall>b\<in>set bs. b < 0x80 \<Longrightarrow> valid_utf8 bs"
  by (induction bs) auto

subsection \<open>Words\<close>

lemma unat_of_nat_u64: "n < 2 ^ 64 \<Longrightarrow> unat (of_nat n :: u64) = n"
  by (simp add: unat_of_nat take_bit_nat_eq_self)

lemma unat_u64_lt: "unat (a :: u64) < 2 ^ 64"
  using unsigned_less [of a] by simp

lemma of_nat_unat_u64: "of_nat (unat (a :: u64)) = a"
  by simp

lemma word_succ_unat: "unat (w :: u64) < 2 ^ 64 - 1 \<Longrightarrow> unat (w + 1) = Suc (unat w)"
  by (simp add: unat_word_ariths)

unbundle bit_operations_syntax

subsection \<open>Native-endian integers\<close>

text \<open>\<open>to_ne_bytes\<close> on the little-endian target: the \<open>n\<close> low bytes of a word, lowest first.\<close>

fun le_bytes :: "nat \<Rightarrow> u64 \<Rightarrow> bytes" where
  "le_bytes 0 w = []"
| "le_bytes (Suc n) w = ucast w # le_bytes n (drop_bit 8 w)"

fun of_le_bytes :: "bytes \<Rightarrow> u64" where
  "of_le_bytes [] = 0"
| "of_le_bytes (b # bs) = ucast b OR push_bit 8 (of_le_bytes bs)"

lemma length_le_bytes [simp]: "length (le_bytes n w) = n"
  by (induction n w rule: le_bytes.induct) auto

lemma of_le_bytes_le_bytes: "of_le_bytes (le_bytes n w) = take_bit (8 * n) w"
proof (induction n w rule: le_bytes.induct)
  case (1 w)
  then show ?case by simp
next
  case (2 n w)
  have "of_le_bytes (le_bytes (Suc n) w) = ucast (ucast w :: u8) OR push_bit 8 (take_bit (8 * n) (drop_bit 8 w))"
    using 2 by simp
  also have "\<dots> = take_bit (8 * Suc n) w"
    by (rule bit_word_eqI) (auto simp: bit_simps)
  finally show ?case .
qed

lemma of_le_bytes_8 [simp]: "of_le_bytes (le_bytes 8 w) = w"
  by (simp add: of_le_bytes_le_bytes take_bit_word_eq_self)

end
