(* ===== verification/Ring_Buffers.thy ===== *)
theory Ring_Buffers
  imports Prelude
begin

text \<open>
  The kernel keeps two kinds of fixed-size rings: bounded queues that refuse when full (message
  queues, keyboard buffer, waiter queues) and logs that overwrite their oldest entry (audit trail,
  trace buffer, event log, command history). This theory states each kind as a locale over a list
  abstraction, proves the client facts once, and holds the index arithmetic that every
  interpretation needs.
\<close>

subsection \<open>Reading a ring from its head\<close>

definition ring_list :: "nat \<Rightarrow> 'a list \<Rightarrow> nat \<Rightarrow> nat \<Rightarrow> 'a list" where
  "ring_list n buf h cnt = map (\<lambda>i. buf ! ((h + i) mod n)) [0..<cnt]"

lemma length_ring_list [simp]: "length (ring_list n buf h c) = c"
  by (simp add: ring_list_def)

lemma ring_list_0 [simp]: "ring_list n buf h 0 = []"
  by (simp add: ring_list_def)

lemma ring_list_eq_Nil [simp]: "ring_list n buf h c = [] \<longleftrightarrow> c = 0"
  by (metis length_0_conv length_ring_list)

lemma ring_index_inj:
  fixes n h i j :: nat
  assumes "i < n" and "j < n" and "(h + i) mod n = (h + j) mod n"
  shows "i = j"
proof -
  have "i mod n = j mod n"
    using assms(3) by (simp add: nat_mod_eq_iff)
  with assms(1,2) show ?thesis by simp
qed

lemma ring_list_enq:
  assumes "c < n" and "length buf = n"
  shows "ring_list n (buf[(h + c) mod n := x]) h (Suc c) = ring_list n buf h c @ [x]"
proof -
  have other: "buf[(h + c) mod n := x] ! ((h + i) mod n) = buf ! ((h + i) mod n)" if "i < c" for i
  proof -
    have "(h + c) mod n \<noteq> (h + i) mod n"
      using ring_index_inj [of i n c h] that assms(1) by auto
    then show ?thesis by simp
  qed
  have "buf[(h + c) mod n := x] ! ((h + c) mod n) = x"
    using assms by simp
  with other show ?thesis
    by (simp add: ring_list_def)
qed

lemma ring_list_deq:
  assumes "0 < c"
  shows "ring_list n buf h c = buf ! (h mod n) # ring_list n buf ((h + 1) mod n) (c - 1)"
proof -
  obtain k where k: "c = Suc k"
    using assms gr0_conv_Suc by auto
  have "[0..<Suc k] = 0 # map Suc [0..<k]"
    by (simp add: map_Suc_upt upt_conv_Cons del: upt_Suc)
  then show ?thesis
    by (simp add: ring_list_def k mod_simps del: upt_Suc)
qed

lemma ring_tail_deq:
  fixes h c n :: nat
  assumes "0 < c"
  shows "((h + 1) mod n + (c - 1)) mod n = (h + c) mod n"
proof -
  obtain k where "c = Suc k" using assms gr0_conv_Suc by auto
  then show ?thesis by (simp add: mod_simps)
qed

lemma ring_list_update_head:
  assumes "c < n" and "length buf = n"
  shows "ring_list n (buf[h mod n := x]) ((h + 1) mod n) c = ring_list n buf ((h + 1) mod n) c"
proof -
  have "buf[h mod n := x] ! ((h + 1 + i) mod n) = buf ! ((h + 1 + i) mod n)" if "i < c" for i
  proof -
    have "h mod n \<noteq> (h + Suc i) mod n"
      using ring_index_inj [of 0 n "Suc i" h] that assms(1) by auto
    then show ?thesis by simp
  qed
  then show ?thesis
    by (simp add: ring_list_def mod_simps)
qed

subsection \<open>Bounded queues\<close>

text \<open>
  A client sends a list of operations; \<open>fifo_run\<close> returns the queue, the elements accepted and
  the elements handed out, in order.
\<close>

datatype 'a fifo_op = Enq 'a | Deq

fun fifo_run :: "('a \<Rightarrow> 'q \<Rightarrow> 'q option) \<Rightarrow> ('q \<Rightarrow> ('a \<times> 'q) option) \<Rightarrow>
    'a fifo_op list \<Rightarrow> 'q \<Rightarrow> 'q \<times> 'a list \<times> 'a list" where
  "fifo_run enq deq [] q = (q, [], [])"
| "fifo_run enq deq (Enq x # ops) q =
     (case enq x q of
        None \<Rightarrow> fifo_run enq deq ops q
      | Some q1 \<Rightarrow> (case fifo_run enq deq ops q1 of (q2, ins, outs) \<Rightarrow> (q2, x # ins, outs)))"
| "fifo_run enq deq (Deq # ops) q =
     (case deq q of
        None \<Rightarrow> fifo_run enq deq ops q
      | Some (x, q1) \<Rightarrow> (case fifo_run enq deq ops q1 of (q2, ins, outs) \<Rightarrow> (q2, ins, x # outs)))"

locale bounded_fifo =
  fixes capacity :: nat
    and empty :: 'q
    and enq :: "'a \<Rightarrow> 'q \<Rightarrow> 'q option"
    and deq :: "'q \<Rightarrow> ('a \<times> 'q) option"
    and contents :: "'q \<Rightarrow> 'a list"
    and inv :: "'q \<Rightarrow> bool"
  assumes inv_empty: "inv empty"
    and contents_empty: "contents empty = []"
    and within_capacity: "inv q \<Longrightarrow> length (contents q) \<le> capacity"
    and enq_None: "inv q \<Longrightarrow> enq x q = None \<longleftrightarrow> length (contents q) = capacity"
    and enq_Some: "inv q \<Longrightarrow> enq x q = Some q' \<Longrightarrow> inv q' \<and> contents q' = contents q @ [x]"
    and deq_None: "inv q \<Longrightarrow> deq q = None \<longleftrightarrow> contents q = []"
    and deq_Some: "inv q \<Longrightarrow> deq q = Some (x, q') \<Longrightarrow> inv q' \<and> contents q = x # contents q'"
begin

lemma enq_total: "inv q \<Longrightarrow> length (contents q) < capacity \<Longrightarrow> \<exists>q'. enq x q = Some q'"
  using enq_None [of q x] by (cases "enq x q") auto

lemma deq_total: "inv q \<Longrightarrow> contents q \<noteq> [] \<Longrightarrow>
  \<exists>q'. deq q = Some (hd (contents q), q') \<and> contents q' = tl (contents q)"
  using deq_None [of q] deq_Some [of q] by (cases "deq q") fastforce+

lemma enq_then_deq_empty: "enq x empty = Some q \<Longrightarrow> \<exists>q'. deq q = Some (x, q') \<and> contents q' = []"
  using enq_Some [OF inv_empty] deq_total [of q] contents_empty by fastforce

lemma run_step_Enq: "fifo_run enq deq (Enq x # ops) q = (q', ins, outs) \<Longrightarrow> inv q \<Longrightarrow>
    (enq x q = None \<and> fifo_run enq deq ops q = (q', ins, outs)) \<or>
    (\<exists>q1 ins'. inv q1 \<and> contents q1 = contents q @ [x] \<and> ins = x # ins' \<and>
       fifo_run enq deq ops q1 = (q', ins', outs))"
  by (auto split: option.splits prod.splits dest: enq_Some)

lemma run_step_Deq: "fifo_run enq deq (Deq # ops) q = (q', ins, outs) \<Longrightarrow> inv q \<Longrightarrow>
    (deq q = None \<and> fifo_run enq deq ops q = (q', ins, outs)) \<or>
    (\<exists>x q1 outs'. inv q1 \<and> contents q = x # contents q1 \<and> outs = x # outs' \<and>
       fifo_run enq deq ops q1 = (q', ins, outs'))"
  by (auto split: option.splits prod.splits dest: deq_Some)

text \<open>
  No element is lost, duplicated or reordered: what was in the queue followed by what was accepted
  is what was handed out followed by what is still there.
\<close>

lemma fifo_order:
  "inv q \<Longrightarrow> fifo_run enq deq ops q = (q', ins, outs) \<Longrightarrow>
   inv q' \<and> contents q @ ins = outs @ contents q'"
proof (induction ops arbitrary: q ins outs)
  case Nil
  then show ?case by simp
next
  case (Cons op ops)
  show ?case
  proof (cases op)
    case (Enq x)
    from run_step_Enq [OF Cons.prems(2) [unfolded Enq] Cons.prems(1)] show ?thesis
      using Cons.IH Cons.prems(1) by fastforce
  next
    case Deq
    from run_step_Deq [OF Cons.prems(2) [unfolded Deq] Cons.prems(1)] show ?thesis
      using Cons.IH Cons.prems(1) by fastforce
  qed
qed

lemma fifo_order_from_empty:
  "fifo_run enq deq ops empty = (q', ins, outs) \<Longrightarrow> ins = outs @ contents q' \<and> length (contents q') \<le> capacity"
  using fifo_order [OF inv_empty] within_capacity contents_empty by fastforce

end

subsection \<open>Logs that overwrite their oldest entry\<close>

text \<open>
  \<open>room\<close> says that the running total of the log can still be incremented; a log whose total is
  unbounded has room always.
\<close>

locale overwriting_log =
  fixes capacity :: nat
    and push :: "'e \<Rightarrow> 's \<Rightarrow> 's"
    and contents :: "'s \<Rightarrow> 'e list"
    and inv :: "'s \<Rightarrow> bool"
    and room :: "nat \<Rightarrow> 's \<Rightarrow> bool"
  assumes capacity_pos: "0 < capacity"
    and within_capacity: "inv s \<Longrightarrow> length (contents s) \<le> capacity"
    and push_inv: "inv s \<Longrightarrow> room (Suc k) s \<Longrightarrow> inv (push e s) \<and> room k (push e s)"
    and push_contents: "inv s \<Longrightarrow> room (Suc k) s \<Longrightarrow>
       contents (push e s) = last_n capacity (contents s @ [e])"
begin

lemma pushes_inv: "inv s \<Longrightarrow> room (length es + k) s \<Longrightarrow>
    inv (fold push es s) \<and> room k (fold push es s)"
proof (induction es arbitrary: s)
  case Nil
  then show ?case by simp
next
  case (Cons e es)
  then have "inv (push e s) \<and> room (length es + k) (push e s)"
    using push_inv by simp
  with Cons.IH show ?case by simp
qed

lemma pushes_contents: "inv s \<Longrightarrow> room (length es) s \<Longrightarrow>
    contents (fold push es s) = last_n capacity (contents s @ es)"
proof (induction es arbitrary: s)
  case Nil
  then show ?case by (simp add: last_n_all within_capacity)
next
  case (Cons e es)
  then have "inv (push e s) \<and> room (length es) (push e s)"
    using push_inv by simp
  with Cons.IH have "contents (fold push es (push e s)) = last_n capacity (contents (push e s) @ es)"
    by blast
  also have "\<dots> = last_n capacity (last_n capacity (contents s @ [e]) @ es)"
    using Cons.prems push_contents by simp
  also have "\<dots> = last_n capacity ((contents s @ [e]) @ es)"
    by (rule last_n_append_absorb [OF capacity_pos])
  finally show ?case by simp
qed

lemma newest_kept: "inv s \<Longrightarrow> room (Suc k) s \<Longrightarrow> contents (push e s) \<noteq> [] \<and> last (contents (push e s)) = e"
  using push_contents [of s k e] capacity_pos by (simp add: last_n_def)

end

subsection \<open>Index arithmetic of an overwriting ring\<close>

text \<open>
  The ring stores entry number \<open>k\<close> at index \<open>k mod n\<close>; \<open>wrapped_list\<close> reads the live entries from
  the oldest to the newest.
\<close>

definition wrapped_list :: "nat \<Rightarrow> 'a list \<Rightarrow> nat \<Rightarrow> 'a list" where
  "wrapped_list n buf tot = map (\<lambda>k. buf ! (k mod n)) [tot - n..<tot]"

lemma length_wrapped_list [simp]: "length (wrapped_list n buf tot) = min n tot"
  by (simp add: wrapped_list_def min_def)

lemma wrapped_list_push:
  assumes "0 < n" and "length buf = n"
  shows "wrapped_list n (buf[tot mod n := e]) (Suc tot) = last_n n (wrapped_list n buf tot @ [e])"
proof -
  have old: "buf[tot mod n := e] ! (k mod n) = buf ! (k mod n)" if "Suc tot - n \<le> k" "k < tot" for k
  proof -
    have "tot mod n \<noteq> k mod n"
    proof
      assume eq: "tot mod n = k mod n"
      have "0 < tot - k" and "tot - k < n"
        using that by auto
      moreover have "(tot - k) mod n = 0"
        using eq that(2) by (metis less_imp_le_nat mod_eq_dvd_iff_nat mod_0_imp_dvd dvd_imp_mod_0)
      ultimately show False by simp
    qed
    then show ?thesis by simp
  qed
  have new: "buf[tot mod n := e] ! (tot mod n) = e"
    using assms by simp
  have "wrapped_list n (buf[tot mod n := e]) (Suc tot)
      = map (\<lambda>k. buf[tot mod n := e] ! (k mod n)) [Suc tot - n..<tot] @ [e]"
    using new assms(1) by (simp add: wrapped_list_def)
  also have "map (\<lambda>k. buf[tot mod n := e] ! (k mod n)) [Suc tot - n..<tot]
      = map (\<lambda>k. buf ! (k mod n)) [Suc tot - n..<tot]"
    using old by simp
  also have "map (\<lambda>k. buf ! (k mod n)) [Suc tot - n..<tot] = drop (Suc (min n tot) - n) (wrapped_list n buf tot)"
  proof -
    have "tot - n + (Suc (min n tot) - n) = Suc tot - n" by arith
    then show ?thesis by (simp only: wrapped_list_def drop_map drop_upt)
  qed
  also have "\<dots> @ [e] = last_n n (wrapped_list n buf tot @ [e])"
    using assms(1) by (simp add: last_n_def)
  finally show ?thesis .
qed

end
