(* ===== verification/Globals.thy ===== *)
theory Globals
  imports Ring_Buffers
begin

text \<open>
  The kernel's global counters and flags that the lower components touch: the trace ring of
  \<open>shell/mod.rs\<close> with \<open>log_trace\<close>, the atomics of \<open>preempt/mod.rs\<close>, the capability identity counter
  of \<open>process/capability.rs\<close> and the telemetry counters. The record \<open>globals\<close> is extended by the
  kernel state proper, so the capability operations below work on the kernel state unchanged.
\<close>

subsection \<open>The trace ring\<close>

record trace_event =
  te_tick :: u64
  te_msg :: string
  te_param1 :: u64
  te_param2 :: u64

record trace_state =
  trace_buffer :: "trace_event list"
  next_idx :: u64
  tracing_active :: bool
  trace_overflow :: bool

definition TRACE_BUFFER_SIZE :: nat where
  "TRACE_BUFFER_SIZE = 128"

definition trace_event_zero :: trace_event where
  "trace_event_zero = \<lparr>te_tick = 0, te_msg = [], te_param1 = 0, te_param2 = 0\<rparr>"

definition trace_init :: trace_state where
  "trace_init = \<lparr>trace_buffer = replicate TRACE_BUFFER_SIZE trace_event_zero, next_idx = 0,
     tracing_active = False, trace_overflow = False\<rparr>"

text \<open>The two statements of \<open>log_trace\<close> under its guard: reserve an index, store the event there.\<close>

definition trace_push :: "trace_event \<Rightarrow> trace_state \<Rightarrow> trace_state" where
  "trace_push ev ts =
     ts\<lparr>next_idx := next_idx ts + 1,
        trace_buffer := (trace_buffer ts)[unat (next_idx ts) mod TRACE_BUFFER_SIZE := ev]\<rparr>"

text \<open>
  \<open>print_trace_summary\<close>, \<open>get_sim_addresses\<close> and \<open>get_sim_instrs\<close> read the ring from
  \<open>start\<close> for \<open>count\<close> entries.
\<close>

definition trace_window :: "trace_state \<Rightarrow> trace_event list" where
  "trace_window ts =
     (let tot = unat (next_idx ts);
          cnt = min tot TRACE_BUFFER_SIZE;
          start = (if tot > TRACE_BUFFER_SIZE then tot mod TRACE_BUFFER_SIZE else 0)
      in map (\<lambda>i. trace_buffer ts ! ((start + i) mod TRACE_BUFFER_SIZE)) [0..<cnt])"

definition trace_inv :: "trace_state \<Rightarrow> bool" where
  "trace_inv ts \<longleftrightarrow> length (trace_buffer ts) = TRACE_BUFFER_SIZE"

definition trace_room :: "nat \<Rightarrow> trace_state \<Rightarrow> bool" where
  "trace_room k ts \<longleftrightarrow> unat (next_idx ts) + k < 2 ^ 64"

text \<open>Reading from \<open>start\<close> is reading the last entries in order of arrival.\<close>

lemma window_eq_wrapped:
  assumes "0 < n"
  shows "map (\<lambda>i. buf ! (((if tot > n then tot mod n else 0) + i) mod n)) [0..<min tot n]
       = wrapped_list n buf tot"
proof (cases "tot > n")
  case True
  have "(tot mod n + i) mod n = (tot - n + i) mod n" for i
    using True by (simp add: mod_simps le_mod_geq [of n tot])
  moreover have "[tot - n..<tot] = map (\<lambda>i. tot - n + i) [0..<n]"
    using map_add_upt [of "tot - n" n] True by (simp add: add.commute)
  ultimately show ?thesis
    using True by (simp add: wrapped_list_def)
next
  case False
  then show ?thesis by (simp add: wrapped_list_def min_def)
qed

lemma trace_window_wrapped:
  "trace_window ts = wrapped_list TRACE_BUFFER_SIZE (trace_buffer ts) (unat (next_idx ts))"
  using window_eq_wrapped [of TRACE_BUFFER_SIZE "trace_buffer ts" "unat (next_idx ts)"]
  by (simp add: trace_window_def Let_def TRACE_BUFFER_SIZE_def)

interpretation trace_ring: overwriting_log TRACE_BUFFER_SIZE trace_push trace_window trace_inv trace_room
proof (unfold_locales, goal_cases)
  case 1
  then show ?case by (simp add: TRACE_BUFFER_SIZE_def)
next
  case (2 s)
  then show ?case by (simp add: trace_window_wrapped)
next
  case (3 s k e)
  then show ?case
    by (simp add: trace_inv_def trace_room_def trace_push_def word_succ_unat)
next
  case (4 s k e)
  then show ?case
    using wrapped_list_push [of TRACE_BUFFER_SIZE "trace_buffer s" "unat (next_idx s)" e]
    by (simp add: trace_window_wrapped trace_inv_def trace_room_def trace_push_def word_succ_unat
        TRACE_BUFFER_SIZE_def)
qed

subsection \<open>Preemption counters\<close>

record preempt_state =
  ticks :: u64
  preemptions :: u64
  deferred :: u64
  preempt_count :: u64
  armed :: bool
  in_ipc_window :: bool
  window_ticks :: u64
  pending_revoke :: nat
  pending_revoke_task :: nat
  revoke_fired_in_window :: bool

definition NO_REVOKE :: nat where
  "NO_REVOKE = usize_MAX"

definition preempt_init :: preempt_state where
  "preempt_init = \<lparr>ticks = 0, preemptions = 0, deferred = 0, preempt_count = 0, armed = False,
     in_ipc_window = False, window_ticks = 0, pending_revoke = NO_REVOKE, pending_revoke_task = 0,
     revoke_fired_in_window = False\<rparr>"

subsection \<open>The globals\<close>

record globals =
  next_cap_id_ctr :: u64
  trace :: trace_state
  preempt :: preempt_state
  ipc_deliveries :: u64
  tasks_spawned :: u64
  tasks_terminated :: u64
  faults_caught :: u64

text \<open>\<open>log_trace\<close>: records an event stamped with the current tick while tracing is on.\<close>

definition log_trace :: "string \<Rightarrow> u64 \<Rightarrow> u64 \<Rightarrow> 'z globals_scheme \<Rightarrow> 'z globals_scheme" where
  "log_trace msg p1 p2 g =
     (if tracing_active (trace g)
      then g\<lparr>trace := trace_push
               \<lparr>te_tick = ticks (preempt g), te_msg = msg, te_param1 = p1, te_param2 = p2\<rparr> (trace g)\<rparr>
      else g)"

lemma log_trace_frame [simp]:
  "next_cap_id_ctr (log_trace m a b g) = next_cap_id_ctr g"
  "preempt (log_trace m a b g) = preempt g"
  "ipc_deliveries (log_trace m a b g) = ipc_deliveries g"
  "tasks_spawned (log_trace m a b g) = tasks_spawned g"
  "tasks_terminated (log_trace m a b g) = tasks_terminated g"
  "faults_caught (log_trace m a b g) = faults_caught g"
  "globals.more (log_trace m a b g) = globals.more g"
  by (simp_all add: log_trace_def)

text \<open>
  Everything a component does to the globals through \<open>log_trace\<close> is a change of the trace ring:
  two states that agree but for the trace are related by \<open>same_but_trace\<close>.
\<close>

definition same_but_trace :: "'z globals_scheme \<Rightarrow> 'z globals_scheme \<Rightarrow> bool" where
  "same_but_trace g g' \<longleftrightarrow> g' = g\<lparr>trace := trace g'\<rparr>"

lemma same_but_trace_refl [simp, intro]: "same_but_trace g g"
  by (simp add: same_but_trace_def)

lemma same_but_trace_trans: "same_but_trace a b \<Longrightarrow> same_but_trace b c \<Longrightarrow> same_but_trace a c"
  unfolding same_but_trace_def by (metis globals.surjective globals.update_convs(2))

lemma log_trace_same [simp, intro]: "same_but_trace g (log_trace m a b g)"
  by (simp add: same_but_trace_def log_trace_def)

end
