(* ===== verification/Capability.thy ===== *)
theory Capability
  imports Globals
begin

text \<open>
  The capability system of \<open>process/capability.rs\<close>: resources, capabilities, rights attenuation
  and the fixed-size capability table of a task. A \<open>Result<T, ()>\<close> of the source is a \<open>T option\<close>
  (\<open>None\<close> is \<open>Err(())\<close>). The lookups write to the trace ring, so the table operations take and
  return the globals.
\<close>

subsection \<open>Data\<close>

datatype resource =
    Serial
  | IpcChannel (target_task: task_id)
  | MemoryMapping (start_vaddr: u64) (map_size: u64) (map_writeable: bool)
  | Service (service_ident: nat)
  | KVEntry (kv_slot: nat) (kv_readable: bool) (kv_writable: bool)
  | LogChannel (log_kind: u8) (log_readable: bool) (log_writable: bool)
  | FsNode (fs_mount: u8) (fs_readable: bool) (fs_writable: bool)
  | Device (dev_id: u8) (dev_readable: bool) (dev_writable: bool)
  | SyncObj (sync_id: u8)

record capability =
  cap_resource :: resource
  cap_read :: bool
  cap_write :: bool
  cap_grant :: bool
  cap_sealed :: bool
  cap_id :: u64
  cap_origin :: "u64 option"

datatype rights_mask = RightsMask (rm_read: bool) (rm_write: bool) (rm_grant: bool)

text \<open>
  Rights masks are ordered by inclusion. Their meet is the clamping that \<open>attenuate\<close> performs.
\<close>

instantiation rights_mask :: "{semilattice_inf, order_bot, order_top}"
begin

definition less_eq_rights_mask :: "rights_mask \<Rightarrow> rights_mask \<Rightarrow> bool" where
  "a \<le> b \<longleftrightarrow> (rm_read a \<longrightarrow> rm_read b) \<and> (rm_write a \<longrightarrow> rm_write b) \<and> (rm_grant a \<longrightarrow> rm_grant b)"

definition less_rights_mask :: "rights_mask \<Rightarrow> rights_mask \<Rightarrow> bool" where
  "(a :: rights_mask) < b \<longleftrightarrow> a \<le> b \<and> \<not> b \<le> a"

definition inf_rights_mask :: "rights_mask \<Rightarrow> rights_mask \<Rightarrow> rights_mask" where
  "inf a b = RightsMask (rm_read a \<and> rm_read b) (rm_write a \<and> rm_write b) (rm_grant a \<and> rm_grant b)"

definition bot_rights_mask :: rights_mask where
  "bot = RightsMask False False False"

definition top_rights_mask :: rights_mask where
  "top = RightsMask True True True"

instance
  by standard
    (auto simp: less_eq_rights_mask_def less_rights_mask_def inf_rights_mask_def
      bot_rights_mask_def top_rights_mask_def intro: rights_mask.expand)

end

definition rights_of :: "capability \<Rightarrow> rights_mask" where
  "rights_of c = RightsMask (cap_read c) (cap_write c) (cap_grant c)"

subsection \<open>Attenuation\<close>

definition attenuate :: "capability \<Rightarrow> rights_mask \<Rightarrow> capability option" where
  "attenuate c requested =
     (if \<not> cap_grant c then None
      else Some \<lparr>cap_resource = cap_resource c,
                 cap_read = (cap_read c \<and> rm_read requested),
                 cap_write = (cap_write c \<and> rm_write requested),
                 cap_grant = (cap_grant c \<and> rm_grant requested),
                 cap_sealed = False, cap_id = 0, cap_origin = None\<rparr>)"

lemma attenuate_None [simp]: "attenuate c r = None \<longleftrightarrow> \<not> cap_grant c"
  by (simp add: attenuate_def)

lemma attenuate_Some:
  "attenuate c r = Some d \<Longrightarrow>
   cap_grant c \<and> rights_of d = inf (rights_of c) r \<and> cap_resource d = cap_resource c \<and>
   \<not> cap_sealed d \<and> cap_id d = 0 \<and> cap_origin d = None"
  by (auto simp: attenuate_def rights_of_def inf_rights_mask_def split: if_splits)

text \<open>A chain of delegations, each from the capability the previous one produced.\<close>

fun delegate_chain :: "capability \<Rightarrow> rights_mask list \<Rightarrow> capability option" where
  "delegate_chain c [] = Some c"
| "delegate_chain c (r # rs) =
     (case attenuate c r of None \<Rightarrow> None | Some d \<Rightarrow> delegate_chain d rs)"

lemma delegate_chain_rights:
  "delegate_chain c rs = Some d \<Longrightarrow>
   rights_of d = fold (\<lambda>r acc. inf acc r) rs (rights_of c) \<and> cap_resource d = cap_resource c"
  by (induction rs arbitrary: c) (auto split: option.splits dest!: attenuate_Some)

lemma fold_inf_le: "fold (\<lambda>r acc. inf acc r) rs (a :: rights_mask) \<le> a"
proof (induction rs arbitrary: a)
  case Nil
  then show ?case by simp
next
  case (Cons r rs)
  have "fold (\<lambda>r acc. inf acc r) rs (inf a r) \<le> inf a r" by (rule Cons.IH)
  then show ?case by (simp add: le_inf_iff)
qed

lemma fold_inf_le_each:
  "r \<in> set rs \<Longrightarrow> fold (\<lambda>r acc. inf acc r) rs (a :: rights_mask) \<le> r"
proof (induction rs arbitrary: a)
  case Nil
  then show ?case by simp
next
  case (Cons x rs)
  show ?case
  proof (cases "r = x")
    case True
    have "fold (\<lambda>r acc. inf acc r) rs (inf a x) \<le> inf a x" by (rule fold_inf_le)
    with True show ?thesis by (simp add: le_inf_iff)
  next
    case False
    with Cons show ?thesis by simp
  qed
qed

subsection \<open>Capability identities\<close>

definition next_cap_id :: "'z globals_scheme \<Rightarrow> u64 \<times> 'z globals_scheme" where
  "next_cap_id g = (next_cap_id_ctr g, g\<lparr>next_cap_id_ctr := next_cap_id_ctr g + 1\<rparr>)"

subsection \<open>The capability table\<close>

definition MAX_CAPS :: nat where
  "MAX_CAPS = 32"

record cap_table =
  slots :: "capability option list"

definition CapTable_new :: cap_table where
  "CapTable_new = \<lparr>slots = replicate MAX_CAPS None\<rparr>"

definition CapTable_insert ::
  "capability \<Rightarrow> cap_table \<Rightarrow> 'z globals_scheme \<Rightarrow> nat option \<times> cap_table \<times> 'z globals_scheme" where
  "CapTable_insert cap t g =
     (let (fresh, g) = next_cap_id g;
          cap = cap\<lparr>cap_id := fresh\<rparr>
      in case first_index (\<lambda>s. s = None) (slots t) of
           Some idx \<Rightarrow> (Some idx, t\<lparr>slots := (slots t)[idx := Some cap]\<rparr>,
                        log_trace ''cap_insert'' (cap_id cap) (of_nat idx) g)
         | None \<Rightarrow> (None, t, g))"

definition CapTable_insert_sealed ::
  "capability \<Rightarrow> cap_table \<Rightarrow> 'z globals_scheme \<Rightarrow> nat option \<times> cap_table \<times> 'z globals_scheme" where
  "CapTable_insert_sealed cap t g = CapTable_insert (cap\<lparr>cap_sealed := True\<rparr>) t g"

definition CapTable_get ::
  "cap_table \<Rightarrow> nat \<Rightarrow> 'z globals_scheme \<Rightarrow> capability option \<times> 'z globals_scheme" where
  "CapTable_get t idx g =
     (if idx < MAX_CAPS
      then (slots t ! idx,
            (case slots t ! idx of
               Some cap \<Rightarrow> log_trace ''cap_lookup'' (of_nat idx) (cap_id cap) g
             | None \<Rightarrow> g))
      else (None, g))"

text \<open>The result \<open>None\<close> is \<open>Err(())\<close>, \<open>Some c\<close> is \<open>Ok(c)\<close>.\<close>

definition CapTable_remove ::
  "nat \<Rightarrow> cap_table \<Rightarrow> 'z globals_scheme \<Rightarrow> capability option option \<times> cap_table \<times> 'z globals_scheme" where
  "CapTable_remove idx t g =
     (if idx \<ge> MAX_CAPS then (Some None, t, g)
      else case slots t ! idx of
             Some cap \<Rightarrow>
               if cap_sealed cap then (None, t, g)
               else (Some (Some cap), t\<lparr>slots := (slots t)[idx := None]\<rparr>,
                     log_trace ''cap_revoke'' (of_nat idx) (cap_id cap) g)
           | None \<Rightarrow> (Some None, t\<lparr>slots := (slots t)[idx := None]\<rparr>, g))"

definition CapTable_kernel_revoke ::
  "nat \<Rightarrow> cap_table \<Rightarrow> 'z globals_scheme \<Rightarrow> capability option \<times> cap_table \<times> 'z globals_scheme" where
  "CapTable_kernel_revoke idx t g =
     (if idx < MAX_CAPS
      then (slots t ! idx, t\<lparr>slots := (slots t)[idx := None]\<rparr>,
            (case slots t ! idx of
               Some cap \<Rightarrow> log_trace ''cap_revoke'' (of_nat idx) (cap_id cap) g
             | None \<Rightarrow> g))
      else (None, t, g))"

subsection \<open>The table invariant\<close>

definition cap_table_wf :: "cap_table \<Rightarrow> bool" where
  "cap_table_wf t \<longleftrightarrow> length (slots t) = MAX_CAPS"

text \<open>The slot a lookup sees, without the trace record of the lookup.\<close>

definition cap_at :: "cap_table \<Rightarrow> nat \<Rightarrow> capability option" where
  "cap_at t i = (if i < MAX_CAPS then slots t ! i else None)"

definition caps_of :: "cap_table \<Rightarrow> capability set" where
  "caps_of t = {c. Some c \<in> set (slots t)}"

lemma caps_of_cap_at: "cap_table_wf t \<Longrightarrow> c \<in> caps_of t \<longleftrightarrow> (\<exists>i. cap_at t i = Some c)"
  by (auto simp: caps_of_def cap_at_def cap_table_wf_def in_set_conv_nth)

lemma CapTable_get_fst [simp]: "fst (CapTable_get t i g) = cap_at t i"
  by (simp add: CapTable_get_def cap_at_def)

lemma CapTable_get_same [simp, intro]: "same_but_trace g (snd (CapTable_get t i g))"
  by (auto simp: CapTable_get_def split: option.splits)

lemma cap_at_new [simp]: "cap_at CapTable_new i = None"
  by (simp add: cap_at_def CapTable_new_def)

lemma cap_table_wf_new [simp]: "cap_table_wf CapTable_new"
  by (simp add: cap_table_wf_def CapTable_new_def)

lemma CapTable_insert_wf:
  "cap_table_wf t \<Longrightarrow> CapTable_insert c t g = (r, t', g') \<Longrightarrow> cap_table_wf t'"
  by (auto simp: CapTable_insert_def next_cap_id_def cap_table_wf_def Let_def split: option.splits)

lemma CapTable_remove_wf:
  "cap_table_wf t \<Longrightarrow> CapTable_remove i t g = (r, t', g') \<Longrightarrow> cap_table_wf t'"
  by (auto simp: CapTable_remove_def cap_table_wf_def split: option.splits if_splits)

lemma CapTable_kernel_revoke_wf:
  "cap_table_wf t \<Longrightarrow> CapTable_kernel_revoke i t g = (r, t', g') \<Longrightarrow> cap_table_wf t'"
  by (auto simp: CapTable_kernel_revoke_def cap_table_wf_def split: if_splits)

lemmas cap_table_wf_preserved = CapTable_insert_wf CapTable_remove_wf CapTable_kernel_revoke_wf

text \<open>Insertion fills the first free slot and nothing else; a full table is left alone.\<close>

lemma CapTable_insert_Some:
  assumes "cap_table_wf t" and "CapTable_insert c t g = (Some i, t', g')"
  shows "i < MAX_CAPS \<and> cap_at t i = None \<and> (\<forall>j<i. cap_at t j \<noteq> None) \<and>
    cap_at t' = (cap_at t)(i := Some (c\<lparr>cap_id := next_cap_id_ctr g\<rparr>))"
  using assms
  by (auto simp: CapTable_insert_def next_cap_id_def cap_table_wf_def cap_at_def Let_def
      first_index_Some fun_eq_iff split: option.splits)

lemma CapTable_insert_None:
  assumes "cap_table_wf t" and "CapTable_insert c t g = (None, t', g')"
  shows "t' = t \<and> (\<forall>j<MAX_CAPS. cap_at t j \<noteq> None)"
  using assms
  by (auto simp: CapTable_insert_def next_cap_id_def cap_table_wf_def cap_at_def Let_def
      first_index_None split: option.splits)

lemma CapTable_insert_globals:
  assumes "CapTable_insert c t g = (r, t', g')"
  shows "same_but_trace (g\<lparr>next_cap_id_ctr := next_cap_id_ctr g + 1\<rparr>) g'"
  using assms by (auto simp: CapTable_insert_def next_cap_id_def Let_def split: option.splits)

lemma CapTable_remove_sealed:
  "cap_at t i = Some c \<Longrightarrow> cap_sealed c \<Longrightarrow> CapTable_remove i t g = (None, t, g)"
  by (simp add: CapTable_remove_def cap_at_def split: if_splits)

lemma CapTable_remove_Some:
  assumes "cap_table_wf t" and "CapTable_remove i t g = (Some r, t', g')"
  shows "r = cap_at t i \<and> cap_at t' = (cap_at t)(i := None) \<and> (\<forall>c. r = Some c \<longrightarrow> \<not> cap_sealed c)"
  using assms
  by (auto simp: CapTable_remove_def cap_table_wf_def cap_at_def fun_eq_iff
      split: option.splits if_splits)

lemma CapTable_kernel_revoke_spec:
  assumes "cap_table_wf t" and "CapTable_kernel_revoke i t g = (r, t', g')"
  shows "r = cap_at t i \<and> cap_at t' = (cap_at t)(i := None)"
  using assms
  by (auto simp: CapTable_kernel_revoke_def cap_table_wf_def cap_at_def fun_eq_iff
      split: if_splits)

lemma CapTable_remove_same: "CapTable_remove i t g = (r, t', g') \<Longrightarrow> same_but_trace g g'"
  by (auto simp: CapTable_remove_def split: option.splits if_splits)

lemma CapTable_kernel_revoke_same:
  "CapTable_kernel_revoke i t g = (r, t', g') \<Longrightarrow> same_but_trace g g'"
  by (auto simp: CapTable_kernel_revoke_def split: option.splits if_splits)

end
