(* ===== verification/Messages.thy ===== *)
theory Messages
  imports Capability
begin

text \<open>
  The typed message envelope, the error codes and the bounded message queue of
  \<open>process/ipc.rs\<close>. The queue is an instance of \<open>bounded_fifo\<close>.
\<close>

subsection \<open>Tags, messages, errors\<close>

datatype ipc_tag =
    Raw | Log | Sensor | Ping | KVGet | KVSet | LogPublish | LogRead | LogAck
  | FsOp | FsReply | DevOp | DevReply | SyncOp | SyncReply

text \<open>The discriminants of the \<open>repr(u16)\<close> enumeration.\<close>

fun tag_to_u16 :: "ipc_tag \<Rightarrow> u16" where
  "tag_to_u16 Raw = 0"
| "tag_to_u16 Log = 1"
| "tag_to_u16 Sensor = 2"
| "tag_to_u16 Ping = 3"
| "tag_to_u16 KVGet = 4"
| "tag_to_u16 KVSet = 5"
| "tag_to_u16 LogPublish = 6"
| "tag_to_u16 LogRead = 7"
| "tag_to_u16 LogAck = 8"
| "tag_to_u16 FsOp = 9"
| "tag_to_u16 FsReply = 10"
| "tag_to_u16 DevOp = 11"
| "tag_to_u16 DevReply = 12"
| "tag_to_u16 SyncOp = 13"
| "tag_to_u16 SyncReply = 14"

definition IpcTag_from_u16 :: "u16 \<Rightarrow> ipc_tag option" where
  "IpcTag_from_u16 v =
     (if v = 0 then Some Raw else if v = 1 then Some Log else if v = 2 then Some Sensor
      else if v = 3 then Some Ping else if v = 4 then Some KVGet else if v = 5 then Some KVSet
      else if v = 6 then Some LogPublish else if v = 7 then Some LogRead
      else if v = 8 then Some LogAck else if v = 9 then Some FsOp else if v = 10 then Some FsReply
      else if v = 11 then Some DevOp else if v = 12 then Some DevReply
      else if v = 13 then Some SyncOp else if v = 14 then Some SyncReply else None)"

lemma from_u16_to_u16 [simp]: "IpcTag_from_u16 (tag_to_u16 t) = Some t"
  by (cases t) (simp_all add: IpcTag_from_u16_def)

lemma from_u16_Some: "IpcTag_from_u16 v = Some t \<longleftrightarrow> v = tag_to_u16 t"
proof
  show "v = tag_to_u16 t" if "IpcTag_from_u16 v = Some t"
    using that unfolding IpcTag_from_u16_def by (simp split: if_splits)
qed simp

record message =
  msg_sender :: task_id
  msg_tag :: ipc_tag
  msg_version :: u16
  msg_payload :: bytes
  msg_len :: nat

definition PAYLOAD_MAX :: nat where
  "PAYLOAD_MAX = 128"

text \<open>
  How both send paths build the envelope: the payload is copied to the front of a zeroed
  128-byte array and its length is kept.
\<close>

definition make_message :: "task_id \<Rightarrow> ipc_tag \<Rightarrow> u16 \<Rightarrow> bytes \<Rightarrow> message" where
  "make_message sender tag version payload =
     \<lparr>msg_sender = sender, msg_tag = tag, msg_version = version,
      msg_payload = copy_into (replicate PAYLOAD_MAX 0) 0 payload, msg_len = length payload\<rparr>"

text \<open>The bytes a receiver reads: \<open>&msg.payload[..msg.len]\<close>.\<close>

definition msg_body :: "message \<Rightarrow> bytes" where
  "msg_body m = take (msg_len m) (msg_payload m)"

definition message_wf :: "message \<Rightarrow> bool" where
  "message_wf m \<longleftrightarrow> length (msg_payload m) = PAYLOAD_MAX \<and> msg_len m \<le> PAYLOAD_MAX"

lemma make_message_wf [simp]: "length p \<le> PAYLOAD_MAX \<Longrightarrow> message_wf (make_message s t v p)"
  by (simp add: message_wf_def make_message_def)

lemma msg_body_make_message [simp]: "msg_body (make_message s t v p) = p"
  by (simp add: msg_body_def make_message_def)

lemma make_message_sender [simp]: "msg_sender (make_message s t v p) = s"
  by (simp add: make_message_def)

datatype ipc_error =
    NoCapability | TargetGone | PayloadTooLarge | InvalidTag | BadVersion | NoContext
  | QueueFull | NoMessage

subsection \<open>The message queue\<close>

definition MSG_QUEUE_CAPACITY :: nat where
  "MSG_QUEUE_CAPACITY = 8"

record message_queue =
  mq_buffer :: "message option list"
  mq_head :: nat
  mq_tail :: nat
  mq_count :: nat

definition MessageQueue_new :: message_queue where
  "MessageQueue_new =
     \<lparr>mq_buffer = replicate MSG_QUEUE_CAPACITY None, mq_head = 0, mq_tail = 0, mq_count = 0\<rparr>"

definition MessageQueue_is_empty :: "message_queue \<Rightarrow> bool" where
  "MessageQueue_is_empty q \<longleftrightarrow> mq_count q = 0"

definition MessageQueue_is_full :: "message_queue \<Rightarrow> bool" where
  "MessageQueue_is_full q \<longleftrightarrow> mq_count q = MSG_QUEUE_CAPACITY"

text \<open>\<open>None\<close> is \<open>Err(())\<close>, and the queue is then unchanged.\<close>

definition MessageQueue_enqueue :: "message \<Rightarrow> message_queue \<Rightarrow> message_queue option" where
  "MessageQueue_enqueue msg q =
     (if MessageQueue_is_full q then None
      else Some (q\<lparr>mq_buffer := (mq_buffer q)[mq_tail q := Some msg],
                   mq_tail := (mq_tail q + 1) mod MSG_QUEUE_CAPACITY,
                   mq_count := mq_count q + 1\<rparr>))"

definition MessageQueue_dequeue :: "message_queue \<Rightarrow> message option \<times> message_queue" where
  "MessageQueue_dequeue q =
     (if MessageQueue_is_empty q then (None, q)
      else (mq_buffer q ! mq_head q,
            q\<lparr>mq_buffer := (mq_buffer q)[mq_head q := None],
              mq_head := (mq_head q + 1) mod MSG_QUEUE_CAPACITY,
              mq_count := mq_count q - 1\<rparr>))"

definition queue_slots :: "message_queue \<Rightarrow> message option list" where
  "queue_slots q = ring_list MSG_QUEUE_CAPACITY (mq_buffer q) (mq_head q) (mq_count q)"

text \<open>The messages waiting, oldest first.\<close>

definition queue_contents :: "message_queue \<Rightarrow> message list" where
  "queue_contents q = somes (queue_slots q)"

definition queue_inv :: "message_queue \<Rightarrow> bool" where
  "queue_inv q \<longleftrightarrow> length (mq_buffer q) = MSG_QUEUE_CAPACITY \<and> mq_head q < MSG_QUEUE_CAPACITY \<and>
     mq_count q \<le> MSG_QUEUE_CAPACITY \<and> mq_tail q = (mq_head q + mq_count q) mod MSG_QUEUE_CAPACITY \<and>
     None \<notin> set (queue_slots q)"

text \<open>The receive paths match on the option alone: \<open>if let Some(msg) = queue.dequeue()\<close>.\<close>

definition queue_take :: "message_queue \<Rightarrow> (message \<times> message_queue) option" where
  "queue_take q = (case MessageQueue_dequeue q of (Some m, q') \<Rightarrow> Some (m, q') | (None, _) \<Rightarrow> None)"

lemma queue_inv_new [simp]: "queue_inv MessageQueue_new"
  by (simp add: queue_inv_def MessageQueue_new_def queue_slots_def MSG_QUEUE_CAPACITY_def)

lemma queue_contents_new [simp]: "queue_contents MessageQueue_new = []"
  by (simp add: queue_contents_def queue_slots_def MessageQueue_new_def)

lemma length_queue_contents: "queue_inv q \<Longrightarrow> length (queue_contents q) = mq_count q"
  by (simp add: queue_inv_def queue_contents_def length_somes) (simp add: queue_slots_def)

lemma enqueue_slots:
  assumes "queue_inv q" and "MessageQueue_enqueue m q = Some q'"
  shows "queue_slots q' = queue_slots q @ [Some m]"
  using assms ring_list_enq [of "mq_count q" MSG_QUEUE_CAPACITY "mq_buffer q" "mq_head q" "Some m"]
  by (auto simp: queue_inv_def MessageQueue_enqueue_def MessageQueue_is_full_def queue_slots_def
      split: if_splits)

lemma dequeue_slots:
  assumes "queue_inv q" and "mq_count q \<noteq> 0" and "MessageQueue_dequeue q = (r, q')"
  shows "queue_slots q = r # queue_slots q'"
  using assms ring_list_deq [of "mq_count q" MSG_QUEUE_CAPACITY "mq_buffer q" "mq_head q"]
    ring_list_update_head [of "mq_count q - 1" MSG_QUEUE_CAPACITY "mq_buffer q" "mq_head q" None]
  by (auto simp: queue_inv_def MessageQueue_dequeue_def MessageQueue_is_empty_def queue_slots_def)

lemma enqueue_inv:
  assumes "queue_inv q" and "MessageQueue_enqueue m q = Some q'"
  shows "queue_inv q'"
  using assms enqueue_slots [OF assms]
  by (auto simp: queue_inv_def MessageQueue_enqueue_def MessageQueue_is_full_def mod_Suc_eq
      split: if_splits)

lemma dequeue_inv:
  assumes "queue_inv q" and "MessageQueue_dequeue q = (r, q')"
  shows "queue_inv q'"
proof (cases "mq_count q = 0")
  case True
  with assms show ?thesis by (simp add: MessageQueue_dequeue_def MessageQueue_is_empty_def)
next
  case False
  with assms dequeue_slots [OF assms(1) False assms(2)]
    ring_tail_deq [of "mq_count q" "mq_head q" MSG_QUEUE_CAPACITY] show ?thesis
    by (auto simp: queue_inv_def MessageQueue_dequeue_def MessageQueue_is_empty_def
        MSG_QUEUE_CAPACITY_def)
qed

lemma dequeue_result:
  assumes "queue_inv q" and "MessageQueue_dequeue q = (r, q')"
  shows "(case queue_contents q of [] \<Rightarrow> r = None \<and> q' = q
          | m # ms \<Rightarrow> r = Some m \<and> queue_contents q' = ms)"
proof (cases "mq_count q = 0")
  case True
  then have "queue_contents q = []"
    using length_queue_contents [OF assms(1)] by simp
  with True assms show ?thesis by (simp add: MessageQueue_dequeue_def MessageQueue_is_empty_def)
next
  case False
  have sl: "queue_slots q = r # queue_slots q'" by (rule dequeue_slots [OF assms(1) False assms(2)])
  then obtain m where "r = Some m" using assms(1) by (cases r) (auto simp: queue_inv_def)
  with sl show ?thesis by (simp add: queue_contents_def)
qed

lemma queue_take_cases:
  "queue_inv q \<Longrightarrow> queue_take q = None \<longleftrightarrow> queue_contents q = []"
  "queue_inv q \<Longrightarrow> queue_take q = Some (m, q') \<Longrightarrow> queue_inv q' \<and> queue_contents q = m # queue_contents q'"
  using dequeue_result [of q "fst (MessageQueue_dequeue q)" "snd (MessageQueue_dequeue q)"]
    dequeue_inv [of q "fst (MessageQueue_dequeue q)" "snd (MessageQueue_dequeue q)"]
  by (auto simp: queue_take_def split: option.splits prod.splits list.splits)

interpretation mq: bounded_fifo MSG_QUEUE_CAPACITY MessageQueue_new MessageQueue_enqueue queue_take
  queue_contents queue_inv
proof (unfold_locales, goal_cases)
  case (3 q)
  then show ?case by (simp add: length_queue_contents queue_inv_def)
next
  case (4 q x)
  then show ?case
    by (simp add: length_queue_contents MessageQueue_enqueue_def MessageQueue_is_full_def)
next
  case (5 q x q')
  then show ?case
    using enqueue_slots enqueue_inv by (auto simp: queue_contents_def)
qed (simp_all add: queue_take_cases)

subsection \<open>Properties\<close>

text \<open>
  The message queue is a first-in first-out queue of bounded capacity. For every sequence of
  enqueues and dequeues, the messages that were queued at the start followed by those accepted are
  the messages handed out followed by those still queued; none is lost, duplicated or reordered, an
  enqueue is refused exactly when eight messages wait, and the representation stays sound.
\<close>

theorem message_queue_is_fifo:
  assumes "queue_inv q" "fifo_run MessageQueue_enqueue queue_take ops q = (q', ins, outs)"
  shows "queue_inv q' \<and> queue_contents q @ ins = outs @ queue_contents q' \<and>
    length (queue_contents q') \<le> MSG_QUEUE_CAPACITY \<and>
    (\<forall>m. MessageQueue_enqueue m q' = None \<longleftrightarrow> length (queue_contents q') = MSG_QUEUE_CAPACITY)"
proof -
  have "queue_inv q'" "queue_contents q @ ins = outs @ queue_contents q'" using mq.fifo_order [OF assms] by auto
  then show ?thesis using mq.within_capacity [of q'] mq.enq_None [of q'] by blast
qed

theorem message_queue_is_fifo_witness:
  "\<exists>q'. fifo_run MessageQueue_enqueue queue_take [Enq (make_message 3 Raw 1 [5]), Enq (make_message 2 Raw 1 [6]), Deq] MessageQueue_new
      = (q', [make_message 3 Raw 1 [5], make_message 2 Raw 1 [6]], [make_message 3 Raw 1 [5]]) \<and>
    queue_contents q' = [make_message 2 Raw 1 [6]]"
proof -
  let ?a = "make_message 3 Raw 1 [5]" and ?b = "make_message 2 Raw 1 [6]"
  obtain q1 where q1: "MessageQueue_enqueue ?a MessageQueue_new = Some q1"
    using mq.enq_total [OF mq.inv_empty, of ?a] mq.contents_empty by (auto simp: MSG_QUEUE_CAPACITY_def)
  note i1 = mq.enq_Some [OF mq.inv_empty q1]
  obtain q2 where q2: "MessageQueue_enqueue ?b q1 = Some q2"
    using mq.enq_total [of q1 ?b] i1 mq.contents_empty by (auto simp: MSG_QUEUE_CAPACITY_def)
  note i2 = mq.enq_Some [OF conjunct1 [OF i1] q2]
  obtain q3 where q3: "queue_take q2 = Some (?a, q3)"
    using mq.deq_total [of q2] i1 i2 mq.contents_empty by auto
  have run: "fifo_run MessageQueue_enqueue queue_take [Enq ?a, Enq ?b, Deq] MessageQueue_new = (q3, [?a, ?b], [?a])"
    by (simp add: q1 q2 q3)
  from message_queue_is_fifo [OF mq.inv_empty run] show ?thesis using run mq.contents_empty by auto
qed

end
