(* ===== verification/Audit_Log.thy ===== *)
theory Audit_Log
  imports Capability
begin

text \<open>
  The kernel-only capability audit log of \<open>process/audit.rs\<close>: a ring of 64 events with the counts
  of recorded and overwritten events. The model of \<open>dump\<close> returns the events in the order in which
  they are printed.
\<close>

datatype audit_kind = Grant | Revoke | RevokePropagated

record audit_event =
  ev_kind :: audit_kind
  ev_actor :: task_id
  ev_target :: task_id
  ev_resource :: resource
  ev_slot :: nat

definition AUDIT_CAPACITY :: nat where
  "AUDIT_CAPACITY = 64"

record audit_log =
  al_buffer :: "audit_event option list"
  al_next :: nat
  al_total :: nat
  al_dropped :: nat

definition AuditLog_new :: audit_log where
  "AuditLog_new = \<lparr>al_buffer = replicate AUDIT_CAPACITY None, al_next = 0, al_total = 0, al_dropped = 0\<rparr>"

definition AuditLog_push :: "audit_event \<Rightarrow> audit_log \<Rightarrow> audit_log" where
  "AuditLog_push ev l =
     (let l = (if al_buffer l ! al_next l \<noteq> None then l\<lparr>al_dropped := al_dropped l + 1\<rparr> else l)
      in l\<lparr>al_buffer := (al_buffer l)[al_next l := Some ev],
           al_next := (al_next l + 1) mod AUDIT_CAPACITY,
           al_total := al_total l + 1\<rparr>)"

definition KERNEL_ACTOR :: task_id where
  "KERNEL_ACTOR = usize_MAX"

definition audit_record ::
  "audit_kind \<Rightarrow> task_id \<Rightarrow> task_id \<Rightarrow> resource \<Rightarrow> nat \<Rightarrow> audit_log \<Rightarrow> audit_log" where
  "audit_record knd actor target res slot l =
     AuditLog_push \<lparr>ev_kind = knd, ev_actor = actor, ev_target = target,
                    ev_resource = res, ev_slot = slot\<rparr> l"

definition dump_slots :: "audit_log \<Rightarrow> audit_event option list" where
  "dump_slots l =
     (let wrapped = al_total l > AUDIT_CAPACITY;
          cnt = (if wrapped then AUDIT_CAPACITY else al_total l);
          start = (if wrapped then al_next l else 0)
      in map (\<lambda>i. al_buffer l ! ((start + i) mod AUDIT_CAPACITY)) [0..<cnt])"

definition dump :: "audit_log \<Rightarrow> audit_event list" where
  "dump l = somes (dump_slots l)"

text \<open>
  The log invariant ties the three counters together: the write index is the total modulo the
  capacity, the slots written so far are exactly the occupied ones, and every event beyond the
  capacity is counted as dropped.
\<close>

definition audit_inv :: "audit_log \<Rightarrow> bool" where
  "audit_inv l \<longleftrightarrow> length (al_buffer l) = AUDIT_CAPACITY \<and> al_next l = al_total l mod AUDIT_CAPACITY \<and>
     (\<forall>i<AUDIT_CAPACITY. al_buffer l ! i \<noteq> None \<longleftrightarrow> i < al_total l) \<and>
     al_dropped l = al_total l - AUDIT_CAPACITY"

lemma audit_inv_new [simp]: "audit_inv AuditLog_new"
  by (simp add: audit_inv_def AuditLog_new_def AUDIT_CAPACITY_def)

lemma AuditLog_push_inv:
  assumes "audit_inv l"
  shows "audit_inv (AuditLog_push ev l)"
proof -
  define n where "n = al_total l"
  have len: "length (al_buffer l) = AUDIT_CAPACITY" and nxt: "al_next l = n mod AUDIT_CAPACITY"
    and occ: "\<And>i. i < AUDIT_CAPACITY \<Longrightarrow> al_buffer l ! i \<noteq> None \<longleftrightarrow> i < n"
    and drp: "al_dropped l = n - AUDIT_CAPACITY"
    using assms by (auto simp: audit_inv_def n_def)
  have pos: "n mod AUDIT_CAPACITY < AUDIT_CAPACITY" by (simp add: AUDIT_CAPACITY_def)
  have full: "al_buffer l ! (n mod AUDIT_CAPACITY) \<noteq> None \<longleftrightarrow> AUDIT_CAPACITY \<le> n"
    using occ [OF pos] pos by (metis linorder_not_le mod_less mod_less_eq_dividend order_less_le nat_less_le)
  have "i < Suc n \<longleftrightarrow> i = n mod AUDIT_CAPACITY \<or> i < n" if "i < AUDIT_CAPACITY" for i
    using that by (metis less_Suc_eq mod_less mod_less_eq_dividend le_imp_less_Suc)
  then have "(al_buffer l)[n mod AUDIT_CAPACITY := Some ev] ! i \<noteq> None \<longleftrightarrow> i < Suc n"
    if "i < AUDIT_CAPACITY" for i
    using that occ [OF that] len by (auto simp: nth_list_update)
  moreover have "Suc n - AUDIT_CAPACITY = (if AUDIT_CAPACITY \<le> n then Suc (n - AUDIT_CAPACITY) else 0)"
    by auto
  moreover have "AuditLog_push ev l =
      l\<lparr>al_buffer := (al_buffer l)[n mod AUDIT_CAPACITY := Some ev],
        al_next := Suc n mod AUDIT_CAPACITY, al_total := Suc n,
        al_dropped := (if AUDIT_CAPACITY \<le> n then Suc (n - AUDIT_CAPACITY) else 0)\<rparr>"
    using nxt full drp by (auto simp: AuditLog_push_def Let_def n_def [symmetric] mod_Suc_eq)
  ultimately show ?thesis
    using len by (simp add: audit_inv_def)
qed

lemma dump_slots_wrapped:
  "audit_inv l \<Longrightarrow> dump_slots l = wrapped_list AUDIT_CAPACITY (al_buffer l) (al_total l)"
  using window_eq_wrapped [of AUDIT_CAPACITY "al_buffer l" "al_total l"]
  by (auto simp: dump_slots_def audit_inv_def Let_def AUDIT_CAPACITY_def min_def split: if_splits)

lemma wrapped_list_all_Some:
  assumes "audit_inv l"
  shows "None \<notin> set (wrapped_list AUDIT_CAPACITY (al_buffer l) (al_total l))"
proof -
  have "al_buffer l ! (k mod AUDIT_CAPACITY) \<noteq> None" if "k < al_total l" for k
  proof -
    have "k mod AUDIT_CAPACITY < AUDIT_CAPACITY" by (simp add: AUDIT_CAPACITY_def)
    moreover have "k mod AUDIT_CAPACITY < al_total l"
      using that by (metis mod_less_eq_dividend order_le_less_trans)
    ultimately show ?thesis using assms by (simp add: audit_inv_def)
  qed
  then show ?thesis by (fastforce simp: wrapped_list_def)
qed

lemma dump_wrapped:
  "audit_inv l \<Longrightarrow> map Some (dump l) = wrapped_list AUDIT_CAPACITY (al_buffer l) (al_total l)"
  by (simp add: dump_def dump_slots_wrapped map_Some_somes wrapped_list_all_Some)

interpretation audit_ring: overwriting_log AUDIT_CAPACITY AuditLog_push dump audit_inv "\<lambda>_ _. True"
proof (unfold_locales, goal_cases)
  case 1
  then show ?case by (simp add: AUDIT_CAPACITY_def)
next
  case (2 s)
  then show ?case
    using arg_cong [OF dump_wrapped, of s length] by simp
next
  case (3 s k e)
  then show ?case by (simp add: AuditLog_push_inv)
next
  case (4 s k e)
  have "al_buffer (AuditLog_push e s) = (al_buffer s)[al_total s mod AUDIT_CAPACITY := Some e]"
    and "al_total (AuditLog_push e s) = Suc (al_total s)"
    using 4 by (auto simp: AuditLog_push_def audit_inv_def Let_def)
  then have "map Some (dump (AuditLog_push e s)) = last_n AUDIT_CAPACITY (map Some (dump s) @ [Some e])"
    using 4 dump_wrapped [of s] dump_wrapped [OF AuditLog_push_inv, of s e]
      wrapped_list_push [of AUDIT_CAPACITY "al_buffer s" "al_total s" "Some e"]
    by (simp add: audit_inv_def AUDIT_CAPACITY_def)
  also have "\<dots> = map Some (last_n AUDIT_CAPACITY (dump s @ [e]))"
    by (simp add: last_n_def drop_map [symmetric] del: drop_append)
  finally show ?case by (simp only: inj_map_eq_map [OF inj_Some])
qed

lemma audit_record_inv [simp]: "audit_inv l \<Longrightarrow> audit_inv (audit_record k a t r s l)"
  by (simp add: audit_record_def AuditLog_push_inv)

lemma audit_record_total [simp]: "al_total (audit_record k a t r s l) = Suc (al_total l)"
  by (simp add: audit_record_def AuditLog_push_def Let_def)

lemma dump_audit_record:
  "audit_inv l \<Longrightarrow> dump (audit_record k a t r s l) =
   last_n AUDIT_CAPACITY (dump l @ [\<lparr>ev_kind = k, ev_actor = a, ev_target = t, ev_resource = r, ev_slot = s\<rparr>])"
  unfolding audit_record_def by (rule audit_ring.push_contents) simp_all

subsection \<open>Properties\<close>

text \<open>
  C23. The audit log keeps the most recent events and counts the rest. After any sequence of events
  the dump lists, oldest first, exactly the last sixty-four of them, the total is their number, and
  the dropped counter is the number of events that are no longer there.
\<close>

theorem audit_log_keeps_recent:
  "dump (fold AuditLog_push es AuditLog_new) = last_n AUDIT_CAPACITY es \<and>
   al_total (fold AuditLog_push es AuditLog_new) = length es \<and>
   al_dropped (fold AuditLog_push es AuditLog_new) = length es - AUDIT_CAPACITY"
proof -
  have d: "dump AuditLog_new = []" using dump_wrapped [OF audit_inv_new] by (simp add: AuditLog_new_def wrapped_list_def)
  have total: "al_total (fold AuditLog_push es l) = al_total l + length es" for l
    by (induction es arbitrary: l) (auto simp: AuditLog_push_def Let_def)
  have inv: "audit_inv (fold AuditLog_push es AuditLog_new)"
    using audit_ring.pushes_inv [OF audit_inv_new, of es] by simp
  have "al_total AuditLog_new = 0" by (simp add: AuditLog_new_def)
  then show ?thesis
    using audit_ring.pushes_contents [OF audit_inv_new, of es] d total [of AuditLog_new] inv by (simp add: audit_inv_def)
qed

end
