(* ===== verification/Memory.thy ===== *)
theory Memory
  imports Prelude
begin

text \<open>
  Memory management, \<open>memory/mod.rs\<close>: the frame allocator, the page-table editing routines, the
  address spaces and the validation of user ranges. Physical memory is seen through the kernel's
  virtual addresses, as the code does it: \<open>mem a\<close> is the eight-byte cell at the kernel virtual
  address \<open>a\<close>, and the table at physical address \<open>p\<close> is read at \<open>p + hhdm\<close>. What Limine
  supplies (the direct-map offset and the memory map) is data of the model. The record also holds
  the machine registers that the scheduler and the trap paths load.
\<close>

record cpu_regs =
  reg_rsp :: u64
  reg_rbp :: u64
  reg_rbx :: u64
  reg_r12 :: u64
  reg_r13 :: u64
  reg_r14 :: u64
  reg_r15 :: u64
  reg_rflags :: u64
  reg_rip :: u64

record machine =
  mem :: "u64 \<Rightarrow> u64"
  reg_cr3 :: u64
  tss_rsp0 :: u64
  cpu :: cpu_regs
  next_free_paddr :: u64
  usable_end :: u64
  hhdm_response :: "u64 option"

subsection \<open>The frame allocator\<close>

record memmap_entry =
  me_base :: u64
  me_length :: u64
  me_usable :: bool

text \<open>
  One iteration of \<open>FrameAllocator::init\<close>. The addition and the two subtractions are checked
  arithmetic, which panics on overflow.
\<close>

definition FrameAllocator_init_entry :: "memmap_entry \<Rightarrow> u64 \<times> u64 \<Rightarrow> (u64 \<times> u64) run" where
  "FrameAllocator_init_entry entry fa =
     (let (next_free, usable) = fa in
      if me_usable entry then
        if unat (me_base entry) + unat (me_length entry) \<ge> 2 ^ 64 then Panic
        else let start = me_base entry; finish = me_base entry + me_length entry in
          if usable < next_free then Panic
          else if finish - start > usable - next_free then
            (if unat start + 0xfff \<ge> 2 ^ 64 then Panic
             else Ret ((start + 0xfff) AND NOT 0xfff, finish AND NOT 0xfff))
          else Ret fa
      else Ret fa)"

fun FrameAllocator_init_loop :: "memmap_entry list \<Rightarrow> u64 \<times> u64 \<Rightarrow> (u64 \<times> u64) run" where
  "FrameAllocator_init_loop [] fa = Ret fa"
| "FrameAllocator_init_loop (e # es) fa =
     run_bind (FrameAllocator_init_entry e fa) (FrameAllocator_init_loop es)"

text \<open>\<open>None\<close> stands for a memory-map request without a response.\<close>

definition FrameAllocator_init :: "memmap_entry list option \<Rightarrow> machine \<Rightarrow> machine run" where
  "FrameAllocator_init response m =
     (case response of
        None \<Rightarrow> Ret m
      | Some entries \<Rightarrow>
          run_bind (FrameAllocator_init_loop entries (next_free_paddr m, usable_end m))
            (\<lambda>(nf, ue). Ret (m\<lparr>next_free_paddr := nf, usable_end := ue\<rparr>)))"

definition allocate_frame :: "machine \<Rightarrow> u64 option \<times> machine" where
  "allocate_frame m =
     (if next_free_paddr m + 4096 \<le> usable_end m
      then (Some (next_free_paddr m), m\<lparr>next_free_paddr := next_free_paddr m + 4096\<rparr>)
      else (None, m))"

subsection \<open>Address spaces\<close>

definition PADDR_MASK :: u64 where
  "PADDR_MASK = 0x000ffffffffff000"

definition hhdm_offset :: "machine \<Rightarrow> u64" where
  "hhdm_offset m = (case hhdm_response m of Some off \<Rightarrow> off | None \<Rightarrow> 0)"

definition current_pml4_paddr :: "machine \<Rightarrow> u64" where
  "current_pml4_paddr m = reg_cr3 m AND PADDR_MASK"

text \<open>\<open>*table.add(idx)\<close>, as a read and as a write, and \<open>write_bytes(page, 0, 4096)\<close>.\<close>

definition entry_addr :: "u64 \<Rightarrow> u64 \<Rightarrow> u64" where
  "entry_addr table idx = table + 8 * idx"

definition read_entry :: "machine \<Rightarrow> u64 \<Rightarrow> u64 \<Rightarrow> u64" where
  "read_entry m table idx = mem m (entry_addr table idx)"

definition write_entry :: "u64 \<Rightarrow> u64 \<Rightarrow> u64 \<Rightarrow> machine \<Rightarrow> machine" where
  "write_entry table idx v m = m\<lparr>mem := (mem m)(entry_addr table idx := v)\<rparr>"

definition zero_page :: "u64 \<Rightarrow> machine \<Rightarrow> machine" where
  "zero_page base m = m\<lparr>mem := (\<lambda>a. if a - base < 4096 then 0 else mem m a)\<rparr>"

definition new_address_space :: "machine \<Rightarrow> u64 option \<times> machine" where
  "new_address_space m =
     (let hhdm = hhdm_offset m in
      case allocate_frame m of
        (None, m) \<Rightarrow> (None, m)
      | (Some new_pml4_paddr, m) \<Rightarrow>
          let new_pml4 = new_pml4_paddr + hhdm;
              cur_pml4 = current_pml4_paddr m + hhdm;
              m = zero_page new_pml4 m;
              m = fold (\<lambda>i m. write_entry new_pml4 (of_nat i) (read_entry m cur_pml4 (of_nat i)) m)
                    [256..<512] m
          in (Some new_pml4_paddr, m))"

definition switch_address_space :: "u64 \<Rightarrow> machine \<Rightarrow> machine" where
  "switch_address_space pml4_paddr m =
     (if pml4_paddr = current_pml4_paddr m then m else m\<lparr>reg_cr3 := pml4_paddr\<rparr>)"

subsection \<open>Page tables\<close>

definition pml4_idx :: "u64 \<Rightarrow> u64" where
  "pml4_idx vaddr = drop_bit 39 vaddr AND 0x1ff"

definition pdpt_idx :: "u64 \<Rightarrow> u64" where
  "pdpt_idx vaddr = drop_bit 30 vaddr AND 0x1ff"

definition pd_idx :: "u64 \<Rightarrow> u64" where
  "pd_idx vaddr = drop_bit 21 vaddr AND 0x1ff"

definition pt_idx :: "u64 \<Rightarrow> u64" where
  "pt_idx vaddr = drop_bit 12 vaddr AND 0x1ff"

definition get_or_create_table_user :: "u64 \<Rightarrow> u64 \<Rightarrow> u64 \<Rightarrow> machine \<Rightarrow> u64 option \<times> machine" where
  "get_or_create_table_user table idx hhdm m =
     (let entry = read_entry m table idx in
      if entry AND 0x1 = 0 then
        (case allocate_frame m of
           (None, m) \<Rightarrow> (None, m)
         | (Some new_table_paddr, m) \<Rightarrow>
             let m = zero_page (new_table_paddr + hhdm) m;
                 m = write_entry table idx (new_table_paddr OR 0x7) m
             in (Some new_table_paddr, m))
      else (Some (entry AND PADDR_MASK), write_entry table idx (entry OR 0x4) m))"

definition get_or_create_table :: "u64 \<Rightarrow> u64 \<Rightarrow> u64 \<Rightarrow> machine \<Rightarrow> u64 option \<times> machine" where
  "get_or_create_table table idx hhdm m =
     (let entry = read_entry m table idx in
      if entry AND 0x1 = 0 then
        (case allocate_frame m of
           (None, m) \<Rightarrow> (None, m)
         | (Some new_table_paddr, m) \<Rightarrow>
             let m = zero_page (new_table_paddr + hhdm) m;
                 m = write_entry table idx (new_table_paddr OR 0x3) m
             in (Some new_table_paddr, m))
      else (Some (entry AND PADDR_MASK), m))"

text \<open>
  \<open>map_page\<close> and \<open>map_page_user_into\<close>; \<open>None\<close> is \<open>Err(())\<close>. The table edits made before a failing
  allocation stay in memory, as in the code. The TLB is not modelled: a walk always reads the
  tables.
\<close>

definition map_page :: "u64 \<Rightarrow> u64 \<Rightarrow> bool \<Rightarrow> machine \<Rightarrow> unit option \<times> machine" where
  "map_page vaddr paddr writeable m =
     (case hhdm_response m of
        None \<Rightarrow> (None, m)
      | Some hhdm \<Rightarrow>
          let pml4 = current_pml4_paddr m + hhdm in
          (case get_or_create_table pml4 (pml4_idx vaddr) hhdm m of
            (None, m) \<Rightarrow> (None, m)
          | (Some pdpt_paddr, m) \<Rightarrow>
          (case get_or_create_table (pdpt_paddr + hhdm) (pdpt_idx vaddr) hhdm m of
            (None, m) \<Rightarrow> (None, m)
          | (Some pd_paddr, m) \<Rightarrow>
          (case get_or_create_table (pd_paddr + hhdm) (pd_idx vaddr) hhdm m of
            (None, m) \<Rightarrow> (None, m)
          | (Some pt_paddr, m) \<Rightarrow>
              let page_flags = 0x1 OR (if writeable then 0x2 else 0x0)
              in (Some (), write_entry (pt_paddr + hhdm) (pt_idx vaddr)
                             ((paddr AND PADDR_MASK) OR page_flags) m)))))"

definition map_page_user_into ::
  "u64 \<Rightarrow> u64 \<Rightarrow> u64 \<Rightarrow> bool \<Rightarrow> machine \<Rightarrow> unit option \<times> machine" where
  "map_page_user_into pml4_paddr vaddr paddr writeable m =
     (case hhdm_response m of
        None \<Rightarrow> (None, m)
      | Some hhdm \<Rightarrow>
          let pml4 = pml4_paddr + hhdm in
          (case get_or_create_table_user pml4 (pml4_idx vaddr) hhdm m of
            (None, m) \<Rightarrow> (None, m)
          | (Some pdpt_paddr, m) \<Rightarrow>
          (case get_or_create_table_user (pdpt_paddr + hhdm) (pdpt_idx vaddr) hhdm m of
            (None, m) \<Rightarrow> (None, m)
          | (Some pd_paddr, m) \<Rightarrow>
          (case get_or_create_table_user (pd_paddr + hhdm) (pd_idx vaddr) hhdm m of
            (None, m) \<Rightarrow> (None, m)
          | (Some pt_paddr, m) \<Rightarrow>
              let flags = 0x1 OR 0x4 OR (if writeable then 0x2 else 0x0)
              in (Some (), write_entry (pt_paddr + hhdm) (pt_idx vaddr)
                             ((paddr AND PADDR_MASK) OR flags) m)))))"

definition map_page_user :: "u64 \<Rightarrow> u64 \<Rightarrow> bool \<Rightarrow> machine \<Rightarrow> unit option \<times> machine" where
  "map_page_user vaddr paddr writeable m =
     map_page_user_into (current_pml4_paddr m) vaddr paddr writeable m"

subsection \<open>Validation of user ranges\<close>

definition USER_SPACE_UPPER_BOUND :: u64 where
  "USER_SPACE_UPPER_BOUND = 0x00007FFFFFFFFFFF"

text \<open>The test on one entry: present, user, and writable when the access writes.\<close>

definition entry_ok :: "bool \<Rightarrow> u64 \<Rightarrow> bool" where
  "entry_ok writeable entry \<longleftrightarrow>
     \<not> (entry AND 0x1 = 0 \<or> entry AND 0x4 = 0) \<and> \<not> (writeable \<and> entry AND 0x2 = 0)"

text \<open>The body of the loop: the four levels for the page of \<open>vaddr\<close>.\<close>

definition page_ok :: "machine \<Rightarrow> bool \<Rightarrow> u64 \<Rightarrow> bool" where
  "page_ok m writeable vaddr =
     (let hhdm = hhdm_offset m;
          pml4_entry = read_entry m (current_pml4_paddr m + hhdm) (pml4_idx vaddr)
      in if \<not> entry_ok writeable pml4_entry then False
      else let pdpt_entry = read_entry m ((pml4_entry AND PADDR_MASK) + hhdm) (pdpt_idx vaddr)
      in if \<not> entry_ok writeable pdpt_entry then False
      else let pd_entry = read_entry m ((pdpt_entry AND PADDR_MASK) + hhdm) (pd_idx vaddr)
      in if \<not> entry_ok writeable pd_entry then False
      else let pt_entry = read_entry m ((pd_entry AND PADDR_MASK) + hhdm) (pt_idx vaddr)
      in entry_ok writeable pt_entry)"

partial_function (option) validate_loop :: "machine \<Rightarrow> bool \<Rightarrow> u64 \<Rightarrow> u64 \<Rightarrow> bool option" where
  "validate_loop m writeable end_page vaddr =
     (if \<not> page_ok m writeable vaddr then Some False
      else if vaddr = end_page then Some True
      else validate_loop m writeable end_page (vaddr + 4096))"

text \<open>\<open>Some True\<close> is \<open>Ok(())\<close>, \<open>Some False\<close> is \<open>Err(())\<close>, \<open>None\<close> would be a loop that does not end.\<close>

definition validate_user_range :: "machine \<Rightarrow> u64 \<Rightarrow> u64 \<Rightarrow> bool \<Rightarrow> bool option" where
  "validate_user_range m ptr len writeable =
     (if len = 0 then Some True
      else if unat ptr + unat len \<ge> 2 ^ 64 then Some False
      else let finish = ptr + len in
        if finish > USER_SPACE_UPPER_BOUND + 1 then Some False
        else validate_loop m writeable ((finish - 1) AND NOT 0xfff) (ptr AND NOT 0xfff))"

subsection \<open>Access through the tables\<close>

text \<open>
  Where a load or store at a user address goes once the range was validated: the frame the four
  levels lead to, reached through the direct map. A byte lives in its eight-byte cell, lowest
  byte first.
\<close>

definition user_paddr :: "machine \<Rightarrow> u64 \<Rightarrow> u64" where
  "user_paddr m vaddr =
     (let hhdm = hhdm_offset m;
          pml4_entry = read_entry m (current_pml4_paddr m + hhdm) (pml4_idx vaddr);
          pdpt_entry = read_entry m ((pml4_entry AND PADDR_MASK) + hhdm) (pdpt_idx vaddr);
          pd_entry = read_entry m ((pdpt_entry AND PADDR_MASK) + hhdm) (pd_idx vaddr);
          pt_entry = read_entry m ((pd_entry AND PADDR_MASK) + hhdm) (pt_idx vaddr)
      in (pt_entry AND PADDR_MASK) + (vaddr AND 0xfff))"

definition load_byte :: "machine \<Rightarrow> u64 \<Rightarrow> u8" where
  "load_byte m vaddr =
     (let a = user_paddr m vaddr + hhdm_offset m
      in ucast (drop_bit (8 * unat (a AND 7)) (mem m (a AND NOT 7))))"

definition store_at :: "u64 \<Rightarrow> u8 \<Rightarrow> machine \<Rightarrow> machine" where
  "store_at a b m =
     (let sh = 8 * unat (a AND 7);
          cell = a AND NOT 7
      in m\<lparr>mem := (mem m)(cell :=
            (mem m cell AND NOT (push_bit sh 0xff)) OR push_bit sh (ucast b))\<rparr>)"

definition store_byte :: "u64 \<Rightarrow> u8 \<Rightarrow> machine \<Rightarrow> machine" where
  "store_byte vaddr b m = store_at (user_paddr m vaddr + hhdm_offset m) b m"

text \<open>\<open>from_raw_parts(ptr, len)\<close> and \<open>copy_nonoverlapping(src, buf, n)\<close>.\<close>

definition load_bytes :: "machine \<Rightarrow> u64 \<Rightarrow> nat \<Rightarrow> bytes" where
  "load_bytes m ptr len = map (\<lambda>i. load_byte m (ptr + of_nat i)) [0..<len]"

definition store_bytes :: "u64 \<Rightarrow> bytes \<Rightarrow> machine \<Rightarrow> machine" where
  "store_bytes buf bs m = fold (\<lambda>(i, b) m. store_byte (buf + of_nat i) b m) (enumerate 0 bs) m"

lemma length_load_bytes [simp]: "length (load_bytes m p n) = n"
  by (simp add: load_bytes_def)

subsection \<open>Validation decides the range\<close>

lemma fff_mask: "(0xfff :: u64) = mask 12"
  by (simp add: mask_eq_exp_minus_1)

lemma page_div: "(a :: u64) AND NOT 0xfff = a div 4096 * 4096"
proof -
  have "a AND NOT 0xfff = push_bit 12 (drop_bit 12 a)"
    unfolding fff_mask by (rule bit_word_eqI) (auto simp: bit_simps)
  then show ?thesis
    by (simp add: push_bit_eq_mult drop_bit_eq_div)
qed

lemma unat_page: "unat ((a :: u64) AND NOT 0xfff) = unat a div 4096 * 4096"
proof -
  have "unat a < 2 ^ 64"
    by (rule unat_u64_lt)
  then have "unat a div 4096 * 4096 < 2 ^ 64"
    using div_times_less_eq_dividend [of "unat a" 4096] by linarith
  then show ?thesis
    unfolding page_div by (simp add: unat_word_ariths unat_div)
qed

lemma page_eq: "unat (a :: u64) div 4096 = k \<Longrightarrow> a AND NOT 0xfff = of_nat (k * 4096)"
  by (metis unat_page of_nat_unat_u64)

lemma drop_bit_page: "12 \<le> k \<Longrightarrow> drop_bit k ((a :: u64) AND NOT 0xfff) = drop_bit k a"
  unfolding fff_mask by (rule bit_word_eqI) (auto simp: bit_simps dest: bit_imp_le_length)

lemma idx_page [simp]:
  "pml4_idx (a AND NOT 0xfff) = pml4_idx a" "pdpt_idx (a AND NOT 0xfff) = pdpt_idx a"
  "pd_idx (a AND NOT 0xfff) = pd_idx a" "pt_idx (a AND NOT 0xfff) = pt_idx a"
  by (simp_all only: pml4_idx_def pdpt_idx_def pd_idx_def pt_idx_def drop_bit_page)

lemma page_ok_page [simp]: "page_ok m w (a AND NOT 0xfff) = page_ok m w a"
  by (simp only: page_ok_def idx_page)

lemma validate_loop_pages:
  assumes "v + 4096 * of_nat n = e" and "n < 2 ^ 52"
  shows "validate_loop m w e v = Some (\<forall>k\<le>n. page_ok m w (v + 4096 * of_nat k))"
  using assms
proof (induction n arbitrary: v)
  case 0
  then show ?case by (simp add: validate_loop.simps [of m w e])
next
  case (Suc n)
  have ne: "v \<noteq> e"
  proof
    assume "v = e"
    then have "4096 * (of_nat (Suc n) :: u64) = 0" using Suc.prems(1) by simp
    then have "unat (4096 * (of_nat (Suc n) :: u64)) = 0" by simp
    moreover have "unat (4096 * (of_nat (Suc n) :: u64)) = 4096 * Suc n"
      using Suc.prems(2) by (simp add: unat_word_ariths unat_of_nat take_bit_nat_eq_self del: of_nat_Suc)
    ultimately show False by simp
  qed
  have "validate_loop m w e (v + 4096) = Some (\<forall>k\<le>n. page_ok m w (v + 4096 + 4096 * of_nat k))"
    using Suc.prems by (intro Suc.IH) (simp_all add: algebra_simps)
  moreover have "(\<forall>k\<le>Suc n. page_ok m w (v + 4096 * of_nat k)) \<longleftrightarrow>
      page_ok m w v \<and> (\<forall>k\<le>n. page_ok m w (v + 4096 + 4096 * of_nat k))"
    by (simp add: All_less_Suc2 [of "Suc n", unfolded less_Suc_eq_le] algebra_simps)
  ultimately show ?case
    using ne by (simp add: validate_loop.simps [of m w e v])
qed

lemma validate_user_range_range:
  assumes "len \<noteq> 0" and "unat ptr + unat len \<le> 2 ^ 47"
  shows "validate_user_range m ptr len w =
    Some (\<forall>a. unat ptr \<le> unat a \<and> unat a < unat ptr + unat len \<longrightarrow> page_ok m w a)"
proof -
  define s where "s = unat ptr div 4096"
  define n where "n = (unat ptr + unat len - 1) div 4096 - s"
  have len: "0 < unat len" using assms(1) by (simp add: unat_gt_0)
  have fin: "unat (ptr + len) = unat ptr + unat len"
    using assms(2) by (simp add: unat_word_ariths)
  then have fin1: "unat (ptr + len - 1) = unat ptr + unat len - 1"
    using len unat_minus_one [of "ptr + len"] by (metis add_gr_0 unat_gt_0)
  have "s \<le> (unat ptr + unat len - 1) div 4096"
    unfolding s_def using len by (intro div_le_mono) simp
  then have sn: "s + n = (unat ptr + unat len - 1) div 4096" by (simp add: n_def)
  have n52: "n < 2 ^ 52" and s52: "s + n < 2 ^ 52" using assms(2) sn by (simp_all add: n_def)
  have base: "ptr AND NOT 0xfff = of_nat (s * 4096)"
    by (rule page_eq) (simp add: s_def)
  have pg: "(ptr AND NOT 0xfff) + 4096 * of_nat k = of_nat ((s + k) * 4096)" for k
    unfolding base by (simp add: algebra_simps)
  have "(ptr + len - 1) AND NOT 0xfff = of_nat ((s + n) * 4096)"
    by (rule page_eq) (simp add: fin1 sn)
  then have "validate_loop m w ((ptr + len - 1) AND NOT 0xfff) (ptr AND NOT 0xfff) =
      Some (\<forall>k\<le>n. page_ok m w (of_nat ((s + k) * 4096)))"
    using validate_loop_pages [of "ptr AND NOT 0xfff" n "(ptr + len - 1) AND NOT 0xfff" m w] n52
    by (simp only: pg)
  moreover have "(\<forall>k\<le>n. page_ok m w (of_nat ((s + k) * 4096))) \<longleftrightarrow>
      (\<forall>a. unat ptr \<le> unat a \<and> unat a < unat ptr + unat len \<longrightarrow> page_ok m w a)"
    (is "?P \<longleftrightarrow> ?A")
  proof
    assume P: ?P
    show ?A
    proof (intro allI impI)
      fix a :: u64
      assume "unat ptr \<le> unat a \<and> unat a < unat ptr + unat len"
      then have "s \<le> unat a div 4096" and "unat a div 4096 \<le> s + n"
        unfolding sn unfolding s_def by (auto intro: div_le_mono)
      then obtain k where k: "k \<le> n" "unat a div 4096 = s + k"
        by (metis le_iff_add nat_add_left_cancel_le)
      have "a AND NOT 0xfff = of_nat ((s + k) * 4096)"
        by (rule page_eq) (rule k(2))
      then show "page_ok m w a" using P k(1) page_ok_page [of m w a] by simp
    qed
  next
    assume A: ?A
    show ?P
    proof (intro allI impI)
      fix k
      assume k: "k \<le> n"
      define x where "x = max (unat ptr) ((s + k) * 4096)"
      have bound: "(s + k) * 4096 \<le> unat ptr + unat len - 1"
      proof -
        have "(s + k) * 4096 \<le> (s + n) * 4096" using k by simp
        also have "\<dots> \<le> unat ptr + unat len - 1" unfolding sn by (rule div_times_less_eq_dividend)
        finally show ?thesis .
      qed
      have xd: "x div 4096 = s + k"
      proof (cases "unat ptr \<le> (s + k) * 4096")
        case False
        then have "s + k \<le> s"
          unfolding s_def by (metis div_le_mono div_mult_self_is_m nat_le_linear zero_less_numeral)
        with False show ?thesis by (simp add: x_def s_def max_def)
      qed (simp add: x_def max_def)
      have xr: "unat ptr \<le> x" "x < unat ptr + unat len"
        using bound len by (auto simp: x_def)
      have ux: "unat (of_nat x :: u64) = x"
        using xr(2) assms(2) by (intro unat_of_nat_u64) simp
      then have "page_ok m w (of_nat x)" using A xr by simp
      moreover have "(of_nat x :: u64) AND NOT 0xfff = of_nat ((s + k) * 4096)"
        by (rule page_eq) (simp only: ux xd)
      ultimately show "page_ok m w (of_nat ((s + k) * 4096))"
        by (metis page_ok_page)
    qed
  qed
  moreover have "\<not> ptr + len > USER_SPACE_UPPER_BOUND + 1"
    using assms(2) fin by (simp add: word_less_nat_alt USER_SPACE_UPPER_BOUND_def)
  ultimately show ?thesis
    using assms by (simp add: validate_user_range_def Let_def)
qed

lemma validate_user_range_outside:
  assumes "len \<noteq> 0" and "2 ^ 47 < unat ptr + unat len"
  shows "validate_user_range m ptr len w = Some False"
proof (cases "unat ptr + unat len < 2 ^ 64")
  case True
  then have "unat (ptr + len) = unat ptr + unat len" by (simp add: unat_word_ariths)
  then have "ptr + len > USER_SPACE_UPPER_BOUND + 1"
    using assms(2) by (simp add: word_less_nat_alt USER_SPACE_UPPER_BOUND_def)
  with assms(1) True show ?thesis by (simp add: validate_user_range_def Let_def)
qed (use assms in \<open>simp add: validate_user_range_def\<close>)

subsection \<open>Frames are disjoint and usable\<close>

definition frames_inv :: "machine \<Rightarrow> bool" where
  "frames_inv m \<longleftrightarrow> next_free_paddr m \<le> usable_end m \<and> 4096 dvd unat (next_free_paddr m) \<and>
     4096 dvd unat (usable_end m) \<and> unat (usable_end m) \<le> 2 ^ 52"

fun allocate_frames :: "nat \<Rightarrow> machine \<Rightarrow> u64 option list \<times> machine" where
  "allocate_frames 0 m = ([], m)"
| "allocate_frames (Suc n) m =
     (let (f, m) = allocate_frame m; (fs, m) = allocate_frames n m in (f # fs, m))"

lemma allocate_frame_Some:
  assumes "frames_inv m" and "allocate_frame m = (Some p, m')"
  shows "p = next_free_paddr m" and "frames_inv m'" and "unat (next_free_paddr m') = unat p + 4096"
    and "unat p + 4096 \<le> unat (usable_end m)" and "m' = m\<lparr>next_free_paddr := p + 4096\<rparr>"
proof -
  have lt: "unat (next_free_paddr m) \<le> 2 ^ 52"
    using assms(1) by (simp add: frames_inv_def word_le_nat_alt)
  then have add: "unat (next_free_paddr m + 4096) = unat (next_free_paddr m) + 4096"
    by (simp add: unat_word_ariths)
  show p: "p = next_free_paddr m" and m': "m' = m\<lparr>next_free_paddr := p + 4096\<rparr>"
    using assms(2) by (auto simp: allocate_frame_def split: if_splits)
  show le: "unat p + 4096 \<le> unat (usable_end m)"
    using assms(2) add by (auto simp: allocate_frame_def word_le_nat_alt split: if_splits)
  show "unat (next_free_paddr m') = unat p + 4096"
    using add p m' by simp
  show "frames_inv m'"
    using assms(1) p m' add le by (simp add: frames_inv_def word_le_nat_alt)
qed

lemma allocate_frame_None:
  assumes "frames_inv m" and "allocate_frame m = (None, m')"
  shows "m' = m \<and> next_free_paddr m = usable_end m"
proof -
  have lt: "unat (next_free_paddr m) \<le> 2 ^ 52"
    using assms(1) by (simp add: frames_inv_def word_le_nat_alt)
  then have add: "unat (next_free_paddr m + 4096) = unat (next_free_paddr m) + 4096"
    by (simp add: unat_word_ariths)
  have m': "m' = m" and gt: "unat (usable_end m) < unat (next_free_paddr m) + 4096"
    using assms(2) add by (auto simp: allocate_frame_def word_le_nat_alt split: if_splits)
  obtain a b where ab: "unat (next_free_paddr m) = 4096 * a" "unat (usable_end m) = 4096 * b"
    using assms(1) by (auto simp: frames_inv_def elim!: dvdE)
  moreover have "unat (next_free_paddr m) \<le> unat (usable_end m)"
    using assms(1) by (simp add: frames_inv_def word_le_nat_alt)
  ultimately have "a = b" using gt by simp
  then show ?thesis using m' ab by (metis word_unat_eq_iff)
qed

lemma frames_distinct_helper:
  assumes "frames_inv m"
  shows "allocate_frames n m = (fs, m') \<Longrightarrow>
    frames_inv m' \<and> usable_end m' = usable_end m \<and> next_free_paddr m \<le> next_free_paddr m' \<and>
    (\<forall>p\<in>set (somes fs). 4096 dvd unat p \<and> next_free_paddr m \<le> p \<and> unat p + 4096 \<le> unat (usable_end m)) \<and>
    distinct (somes fs)"
  using assms
proof (induction n arbitrary: m fs)
  case 0
  then show ?case by simp
next
  case (Suc n)
  obtain f m1 where f: "allocate_frame m = (f, m1)" by fastforce
  obtain gs where gs: "allocate_frames n m1 = (gs, m')" and fs: "fs = f # gs"
    using Suc.prems(1) f by (auto split: prod.splits)
  show ?case
  proof (cases f)
    case None
    then have "m1 = m" using allocate_frame_None [OF Suc.prems(2)] f by simp
    then show ?thesis using Suc.IH [OF gs] Suc.prems(2) fs None by simp
  next
    case (Some p)
    note a = allocate_frame_Some [OF Suc.prems(2) f [unfolded Some]]
    have up: "usable_end m1 = usable_end m" using a(5) by simp
    have lt: "next_free_paddr m < q" if "next_free_paddr m + 4096 \<le> q" for q
      using a(1,3,5) that by (simp add: word_le_nat_alt word_less_nat_alt)
    show ?thesis
      using Suc.IH [OF gs a(2)] fs Some a Suc.prems(2) up
      by (auto simp: frames_inv_def intro: less_imp_le [OF lt] dest: lt)
  qed
qed

text \<open>What the boot protocol guarantees of usable entries: page alignment, physical addresses.\<close>

definition entry_aligned :: "memmap_entry \<Rightarrow> bool" where
  "entry_aligned e \<longleftrightarrow> (me_usable e \<longrightarrow>
     4096 dvd unat (me_base e) \<and> 4096 dvd unat (me_length e) \<and>
     unat (me_base e) + unat (me_length e) \<le> 2 ^ 52)"

definition region_of :: "u64 \<times> u64 \<Rightarrow> memmap_entry \<Rightarrow> bool" where
  "region_of fa e \<longleftrightarrow> me_usable e \<and> fst fa = me_base e \<and> snd fa = me_base e + me_length e"

lemma page_aligned: "4096 dvd unat (a :: u64) \<Longrightarrow> a AND NOT 0xfff = a"
  by (metis dvd_div_mult_self of_nat_unat_u64 unat_page)

lemma page_round_up:
  assumes "4096 dvd unat (a :: u64)" and "unat a \<le> 2 ^ 52"
  shows "(a + 0xfff) AND NOT 0xfff = a"
proof -
  obtain k where k: "unat a = 4096 * k" using assms(1) by (auto elim: dvdE)
  have "unat (a + 0xfff) = unat a + 0xfff" using assms(2) by (simp add: unat_word_ariths)
  then have "unat (a + 0xfff) div 4096 = k" using k by simp
  then show ?thesis using page_eq k by (metis mult.commute of_nat_unat_u64)
qed

lemma init_entry_aligned:
  assumes e: "entry_aligned e" and fa: "nf \<le> ue"
  obtains nf' ue' where "FrameAllocator_init_entry e (nf, ue) = Ret (nf', ue')" and "nf' \<le> ue'"
    and "ue - nf \<le> ue' - nf'" and "me_usable e \<Longrightarrow> me_length e \<le> ue' - nf'"
    and "(nf', ue') = (nf, ue) \<or> region_of (nf', ue') e"
proof (cases "me_usable e \<and> me_length e > ue - nf")
  case True
  let ?s = "me_base e" and ?l = "me_length e"
  have al: "4096 dvd unat ?s" "4096 dvd unat ?l" "unat ?s + unat ?l \<le> 2 ^ 52"
    using e True by (auto simp: entry_aligned_def)
  have fin: "unat (?s + ?l) = unat ?s + unat ?l" using al(3) by (simp add: unat_word_ariths)
  have "(?s + 0xfff) AND NOT 0xfff = ?s" by (rule page_round_up) (use al in simp_all)
  moreover have "(?s + ?l) AND NOT 0xfff = ?s + ?l"
    by (rule page_aligned) (use al fin in \<open>simp add: dvd_add\<close>)
  moreover have "?s + ?l - ?s > ue - nf" using True by simp
  ultimately have "FrameAllocator_init_entry e (nf, ue) = Ret (?s, ?s + ?l)"
    unfolding FrameAllocator_init_entry_def Let_def
    using True al(3) fa by (simp only: prod.case if_True if_False not_le not_less) auto
  then show ?thesis
    by (rule that) (use True fin in \<open>auto simp: region_of_def word_le_nat_alt word_less_nat_alt\<close>)
next
  case False
  then have "FrameAllocator_init_entry e (nf, ue) = Ret (nf, ue)"
    using e fa by (auto simp: FrameAllocator_init_entry_def entry_aligned_def Let_def)
  then show ?thesis
    by (rule that) (use False fa in auto)
qed

lemma init_loop_aligned:
  assumes "\<forall>e\<in>set es. entry_aligned e" and "nf \<le> ue"
  shows "\<exists>nf' ue'. FrameAllocator_init_loop es (nf, ue) = Ret (nf', ue') \<and> nf' \<le> ue' \<and>
    ue - nf \<le> ue' - nf' \<and> (\<forall>e\<in>set es. me_usable e \<longrightarrow> me_length e \<le> ue' - nf') \<and>
    ((nf', ue') = (nf, ue) \<or> (\<exists>e\<in>set es. region_of (nf', ue') e))"
  using assms
proof (induction es arbitrary: nf ue)
  case Nil
  then show ?case by simp
next
  case (Cons e es)
  obtain nf1 ue1 where 1: "FrameAllocator_init_entry e (nf, ue) = Ret (nf1, ue1)" "nf1 \<le> ue1"
    "ue - nf \<le> ue1 - nf1" "me_usable e \<Longrightarrow> me_length e \<le> ue1 - nf1"
    "(nf1, ue1) = (nf, ue) \<or> region_of (nf1, ue1) e"
    using init_entry_aligned [of e nf ue] Cons.prems by (metis list.set_intros(1))
  obtain nf2 ue2 where 2: "FrameAllocator_init_loop es (nf1, ue1) = Ret (nf2, ue2)" "nf2 \<le> ue2"
    "ue1 - nf1 \<le> ue2 - nf2" "\<forall>e\<in>set es. me_usable e \<longrightarrow> me_length e \<le> ue2 - nf2"
    "(nf2, ue2) = (nf1, ue1) \<or> (\<exists>e\<in>set es. region_of (nf2, ue2) e)"
    using Cons.IH [of nf1 ue1] Cons.prems 1(2) by auto
  have "me_usable e \<longrightarrow> me_length e \<le> ue2 - nf2" using 1(4) 2(3) by (auto intro: order_trans)
  moreover have "ue - nf \<le> ue2 - nf2" using 1(3) 2(3) by (rule order_trans)
  ultimately show ?case using 1 2 by auto
qed

subsection \<open>Properties\<close>

text \<open>
  What the processor does with a user access, as specified for four-level paging: the tables are
  walked from the root, nine bits of the address select the entry of each level, an absent entry
  faults, and the access has a right only if every level gives it (bit 1 allows writing, bit 2 user
  mode).
\<close>

fun page_walk :: "machine \<Rightarrow> u64 \<Rightarrow> nat list \<Rightarrow> u64 \<Rightarrow> (u64 \<times> bool \<times> bool) option" where
  "page_walk m table [] a = Some (table, True, True)"
| "page_walk m table (sh # shs) a =
     (let e = mem m (table + hhdm_offset m + 8 * (drop_bit sh a AND 0x1ff))
      in if bit e 0
         then (case page_walk m (e AND PADDR_MASK) shs a of
                 Some (p, user, write) \<Rightarrow> Some (p, bit e 2 \<and> user, bit e 1 \<and> write)
               | None \<Rightarrow> None)
         else None)"

definition user_access :: "machine \<Rightarrow> bool \<Rightarrow> u64 \<Rightarrow> bool" where
  "user_access m writes a =
     (case page_walk m (current_pml4_paddr m) [39, 30, 21, 12] a of
        Some (_, user, write) \<Rightarrow> user \<and> (\<not> writes \<or> write)
      | None \<Rightarrow> False)"

lemma flag_bits: "((e :: u64) AND 0x1 = 0) = (\<not> bit e 0)" "(e AND 0x2 = 0) = (\<not> bit e 1)" "(e AND 0x4 = 0) = (\<not> bit e 2)"
  using and_exp_eq_0_iff_not_bit [of e 0] and_exp_eq_0_iff_not_bit [of e 1] and_exp_eq_0_iff_not_bit [of e 2] by simp_all

lemma entry_ok_bits: "entry_ok w e \<longleftrightarrow> bit e 0 \<and> bit e 2 \<and> (w \<longrightarrow> bit e 1)"
  by (auto simp: entry_ok_def flag_bits)

lemma page_ok_walk: "page_ok m w a = user_access m w a"
  by (auto simp: page_ok_def user_access_def Let_def entry_ok_bits read_entry_def entry_addr_def
      pml4_idx_def pdpt_idx_def pd_idx_def pt_idx_def)

text \<open>Quantification over the addresses of a range that does not wrap, as a computation.\<close>

lemma range_list_all:
  assumes "unat ptr + unat len \<le> 2 ^ 47"
  shows "(\<forall>a :: u64. unat ptr \<le> unat a \<and> unat a < unat ptr + unat len \<longrightarrow> Q a) \<longleftrightarrow>
    list_all (\<lambda>a. Q (of_nat a)) [unat (ptr :: u64)..<unat ptr + unat (len :: u64)]"
proof
  assume h: "\<forall>a :: u64. unat ptr \<le> unat a \<and> unat a < unat ptr + unat len \<longrightarrow> Q a"
  have "Q (of_nat a)" if "unat ptr \<le> a" "a < unat ptr + unat len" for a
    using h that unat_of_nat_u64 [of a] assms by simp
  then show "list_all (\<lambda>a. Q (of_nat a)) [unat ptr..<unat ptr + unat len]" by (simp add: list_all_iff)
next
  assume h: "list_all (\<lambda>a. Q (of_nat a)) [unat ptr..<unat ptr + unat len]"
  show "\<forall>a :: u64. unat ptr \<le> unat a \<and> unat a < unat ptr + unat len \<longrightarrow> Q a"
  proof (intro allI impI)
    fix a :: u64
    assume "unat ptr \<le> unat a \<and> unat a < unat ptr + unat len"
    then have "unat a \<in> set [unat ptr..<unat ptr + unat len]" by simp
    then have "Q (of_nat (unat a))" using h unfolding list_all_iff by (elim bspec)
    then show "Q a" by simp
  qed
qed

text \<open>
  C10. The kernel accepts a user buffer exactly when the processor would let the user access all of
  it. The check of a range always ends; it succeeds for the empty range, and for any other range
  exactly when the range does not reach past the user half of the address space (in particular does
  not wrap around) and for every address in it the page walk finds present entries at all four
  levels, each open to user mode and, for writing, writable.
\<close>

theorem user_range_check_is_exact:
  "validate_user_range m ptr len w =
     Some (len = 0 \<or> unat ptr + unat len \<le> 2 ^ 47 \<and>
       list_all (\<lambda>a. user_access m w (of_nat a)) [unat ptr..<unat ptr + unat len])"
proof (cases "len = 0")
  case True
  then show ?thesis by (simp add: validate_user_range_def)
next
  case False
  show ?thesis
  proof (cases "unat ptr + unat len \<le> 2 ^ 47")
    case True
    then show ?thesis
      using validate_user_range_range [OF False True] range_list_all [OF True, of "page_ok m w"] False
      by (simp add: page_ok_walk)
  next
    case outside: False
    then show ?thesis using validate_user_range_outside [OF False] False by simp
  qed
qed

text \<open>
  C11. Frames are handed out once. After the allocator was set up from an aligned memory map, however
  many frames are requested, the frames handed out are pairwise different, aligned, and lie in the
  usable region the allocator chose, which is a usable entry of the map at least as long as any
  other.
\<close>

theorem frames_are_disjoint:
  assumes "\<forall>e \<in> set entries. entry_aligned e" "\<exists>e \<in> set entries. me_usable e \<and> me_length e \<noteq> 0"
    and "next_free_paddr m = 0" "usable_end m = 0"
  shows "\<exists>m'. FrameAllocator_init (Some entries) m = Ret m' \<and>
    (\<exists>e \<in> set entries. me_usable e \<and> next_free_paddr m' = me_base e \<and> usable_end m' = me_base e + me_length e \<and>
       (\<forall>e' \<in> set entries. me_usable e' \<longrightarrow> me_length e' \<le> me_length e) \<and>
       (\<forall>n fs m''. allocate_frames n m' = (fs, m'') \<longrightarrow> distinct (somes fs) \<and>
          (\<forall>p \<in> set (somes fs). 4096 dvd unat p \<and> unat (me_base e) \<le> unat p \<and>
             unat p + 4096 \<le> unat (me_base e) + unat (me_length e))))"
proof -
  obtain nf ue where l: "FrameAllocator_init_loop entries (0, 0) = Ret (nf, ue)" "nf \<le> ue"
    "\<forall>e\<in>set entries. me_usable e \<longrightarrow> me_length e \<le> ue - nf" "(nf, ue) = (0, 0) \<or> (\<exists>e\<in>set entries. region_of (nf, ue) e)"
    using init_loop_aligned [OF assms(1), of 0 0] by auto
  let ?m = "m\<lparr>next_free_paddr := nf, usable_end := ue\<rparr>"
  have init: "FrameAllocator_init (Some entries) m = Ret ?m" using l(1) assms(3,4) by (simp add: FrameAllocator_init_def)
  have "(nf, ue) \<noteq> (0, 0)" using l(3) assms(2) by auto
  then obtain e where e: "e \<in> set entries" "region_of (nf, ue) e" using l(4) by auto
  then have r: "me_usable e" "nf = me_base e" "ue = me_base e + me_length e" by (auto simp: region_of_def)
  have al: "4096 dvd unat (me_base e)" "4096 dvd unat (me_length e)" "unat (me_base e) + unat (me_length e) \<le> 2 ^ 52"
    using assms(1) e(1) r(1) by (auto simp: entry_aligned_def)
  have end_eq: "unat ue = unat (me_base e) + unat (me_length e)" using al(3) r(3) by (simp add: unat_word_ariths)
  have inv: "frames_inv ?m" using l(2) al end_eq r(2) by (simp add: frames_inv_def dvd_add)
  have "distinct (somes fs) \<and> (\<forall>p \<in> set (somes fs). 4096 dvd unat p \<and> unat (me_base e) \<le> unat p \<and>
      unat p + 4096 \<le> unat (me_base e) + unat (me_length e))" if "allocate_frames n ?m = (fs, m'')" for n fs m''
    using frames_distinct_helper [OF inv that] r(2) end_eq by (simp add: word_le_nat_alt)
  moreover have "\<forall>e' \<in> set entries. me_usable e' \<longrightarrow> me_length e' \<le> me_length e" using l(3) r by simp
  ultimately show ?thesis using init e(1) r by auto
qed

definition boot_map :: "memmap_entry list" where
  "boot_map = [\<lparr>me_base = 0x1000, me_length = 0x9000, me_usable = True\<rparr>,
     \<lparr>me_base = 0xA000, me_length = 0xF6000, me_usable = False\<rparr>,
     \<lparr>me_base = 0x100000, me_length = 0x700000, me_usable = True\<rparr>]"

definition blank_machine :: machine where
  "blank_machine = \<lparr>mem = (\<lambda>_. 0), reg_cr3 = 0, tss_rsp0 = 0,
     cpu = \<lparr>reg_rsp = 0, reg_rbp = 0, reg_rbx = 0, reg_r12 = 0, reg_r13 = 0, reg_r14 = 0, reg_r15 = 0, reg_rflags = 0x2, reg_rip = 0\<rparr>,
     next_free_paddr = 0, usable_end = 0, hhdm_response = Some 0xffff800000000000\<rparr>"

theorem frames_are_disjoint_witness:
  "\<exists>m'. FrameAllocator_init (Some boot_map) blank_machine = Ret m' \<and>
     (\<forall>n fs m''. allocate_frames n m' = (fs, m'') \<longrightarrow> distinct (somes fs))"
proof -
  have "\<forall>e \<in> set boot_map. entry_aligned e" "\<exists>e \<in> set boot_map. me_usable e \<and> me_length e \<noteq> 0"
    by (simp_all add: boot_map_def entry_aligned_def)
  from frames_are_disjoint [OF this, of blank_machine] show ?thesis by (auto simp: blank_machine_def)
qed

end
