(* ===== verification/Process.thy ===== *)
theory Process
  imports Messages Audit_Log Memory
begin

text \<open>
  Tasks and the kernel state: \<open>process/mod.rs\<close> (task records, the context switch, the initial
  stacks of kernel and user tasks) and the task table of \<open>scheduler/mod.rs\<close>. The addresses the
  linker chooses (\<open>TASK_STACKS\<close>, the two trampolines, the return points of the three calls of
  \<open>switch_context\<close>) and the machine code the assembler makes of the user programs are the fields of
  \<open>layout\<close>.
\<close>

subsection \<open>Register frames\<close>

text \<open>
  \<open>gp_frame\<close> is the block of fifteen registers that the trap stubs push; it is all of
  \<open>SyscallFrame\<close> and the first part of \<open>ExceptionFrame\<close>.
\<close>

record gp_frame =
  f_rax :: u64
  f_rbx :: u64
  f_rcx :: u64
  f_rdx :: u64
  f_rsi :: u64
  f_rdi :: u64
  f_rbp :: u64
  f_r8 :: u64
  f_r9 :: u64
  f_r10 :: u64
  f_r11 :: u64
  f_r12 :: u64
  f_r13 :: u64
  f_r14 :: u64
  f_r15 :: u64

record exception_frame = gp_frame +
  f_vector :: u64
  f_error_code :: u64
  f_rip :: u64
  f_cs :: u64
  f_rflags :: u64
  f_rsp :: u64
  f_ss :: u64

subsection \<open>Tasks and the kernel state\<close>

datatype task_state = Ready | Running | BlockedOnReceive | BlockedOnSend task_id | Terminated

record task =
  t_id :: task_id
  t_state :: task_state
  t_rsp :: u64
  t_kstack_top :: u64
  t_cr3 :: u64
  t_caps :: cap_table
  t_ipc_buffer :: "message option"
  t_msg_queue :: message_queue
  t_fault_registers :: "exception_frame option"

definition MAX_TASKS :: nat where
  "MAX_TASKS = 132"

definition STACK_SIZE :: nat where
  "STACK_SIZE = 32768"

record layout =
  task_stacks :: u64
  kernel_task_trampoline :: u64
  iret_to_user :: u64
  ret_yield :: u64
  ret_preempt :: u64
  ret_terminate :: u64
  user_blob :: bytes
  logger_blob :: bytes
  faulty_user_blob :: bytes
  async_sender_blob :: bytes
  async_receiver_blob :: bytes
  ramfs_blob :: bytes
  init_blob :: bytes
  preempt_user_blob :: bytes

record kernel = globals +
  tasks :: "task option list"
  current_task_id :: "task_id option"
  audit :: audit_log
  mach :: machine
  boot_rsp :: u64
  serial_out :: "bytes list"
  k_layout :: layout

subsection \<open>The task table\<close>

text \<open>
  \<open>get_task\<close>, and \<open>get_task_mut\<close> followed by a modification of the task it returns. Both check
  that the task stored at the index carries that identity.
\<close>

definition get_task :: "kernel \<Rightarrow> task_id \<Rightarrow> task option" where
  "get_task k i =
     (if i < length (tasks k)
      then case tasks k ! i of
             Some t \<Rightarrow> if t_id t = i then Some t else None
           | None \<Rightarrow> None
      else None)"

definition set_slot :: "nat \<Rightarrow> task option \<Rightarrow> kernel \<Rightarrow> kernel" where
  "set_slot i v k = k\<lparr>tasks := (tasks k)[i := v]\<rparr>"

definition update_task :: "task_id \<Rightarrow> (task \<Rightarrow> task) \<Rightarrow> kernel \<Rightarrow> kernel" where
  "update_task i f k =
     (case get_task k i of Some t \<Rightarrow> set_slot i (Some (f t)) k | None \<Rightarrow> k)"

lemma get_task_log_trace [simp]: "get_task (log_trace m a b k) i = get_task k i"
  by (simp add: get_task_def log_trace_def)

lemma get_task_in_range: "get_task k i = Some t \<Longrightarrow> i < length (tasks k) \<and> tasks k ! i = Some t \<and> t_id t = i"
  by (auto simp: get_task_def split: if_splits option.splits)

lemma get_task_set_slot:
  "get_task (set_slot i v k) j =
     (if j = i \<and> i < length (tasks k)
      then (case v of Some t \<Rightarrow> if t_id t = i then Some t else None | None \<Rightarrow> None)
      else get_task k j)"
  by (auto simp: get_task_def set_slot_def nth_list_update split: option.splits)

lemma get_task_update_task:
  assumes "\<And>t. t_id (f t) = t_id t"
  shows "get_task (update_task i f k) j = (if j = i then map_option f (get_task k i) else get_task k j)"
  using assms get_task_in_range [of k i]
  by (cases "get_task k i") (auto simp: update_task_def get_task_set_slot)

lemma set_slot_frame [simp]:
  "current_task_id (set_slot i v k) = current_task_id k"
  "audit (set_slot i v k) = audit k"
  "mach (set_slot i v k) = mach k"
  "trace (set_slot i v k) = trace k"
  "preempt (set_slot i v k) = preempt k"
  "next_cap_id_ctr (set_slot i v k) = next_cap_id_ctr k"
  "length (tasks (set_slot i v k)) = length (tasks k)"
  by (simp_all add: set_slot_def)

lemma update_task_frame [simp]:
  "current_task_id (update_task i f k) = current_task_id k"
  "audit (update_task i f k) = audit k"
  "mach (update_task i f k) = mach k"
  "trace (update_task i f k) = trace k"
  "preempt (update_task i f k) = preempt k"
  "next_cap_id_ctr (update_task i f k) = next_cap_id_ctr k"
  "length (tasks (update_task i f k)) = length (tasks k)"
  by (simp_all add: update_task_def split: option.splits)

subsection \<open>Well-formed kernels\<close>

text \<open>
  The invariant of the task table: it has its fixed size, a task sits at the index of its
  identity, and every task carries a well-formed capability table and message queue.
\<close>

definition task_wf :: "nat \<Rightarrow> task \<Rightarrow> bool" where
  "task_wf i t \<longleftrightarrow> t_id t = i \<and> cap_table_wf (t_caps t) \<and> queue_inv (t_msg_queue t)"

definition kernel_wf :: "kernel \<Rightarrow> bool" where
  "kernel_wf k \<longleftrightarrow> length (tasks k) = MAX_TASKS \<and>
     (\<forall>i<MAX_TASKS. \<forall>t. tasks k ! i = Some t \<longrightarrow> task_wf i t) \<and> audit_inv (audit k)"

lemma kernel_wf_get_task:
  "kernel_wf k \<Longrightarrow> i < MAX_TASKS \<Longrightarrow> get_task k i = tasks k ! i"
  by (auto simp: kernel_wf_def get_task_def task_wf_def split: option.splits)

lemma kernel_wf_task: "kernel_wf k \<Longrightarrow> get_task k i = Some t \<Longrightarrow> i < MAX_TASKS \<and> task_wf i t"
  using get_task_in_range [of k i t] by (auto simp: kernel_wf_def)

lemma kernel_wf_set_slot:
  "kernel_wf k \<Longrightarrow> (\<And>t. v = Some t \<Longrightarrow> i < MAX_TASKS \<Longrightarrow> task_wf i t) \<Longrightarrow> kernel_wf (set_slot i v k)"
  by (auto simp: kernel_wf_def set_slot_def) (metis nth_list_update_eq nth_list_update_neq)

lemma kernel_wf_update_task:
  "kernel_wf k \<Longrightarrow> (\<And>t. get_task k i = Some t \<Longrightarrow> task_wf i t \<Longrightarrow> task_wf i (f t)) \<Longrightarrow>
   kernel_wf (update_task i f k)"
  by (auto simp: update_task_def kernel_wf_task split: option.splits intro!: kernel_wf_set_slot)

lemma kernel_wf_frame:
  "tasks k' = tasks k \<Longrightarrow> audit k' = audit k \<Longrightarrow> kernel_wf k' = kernel_wf k"
  by (simp add: kernel_wf_def)

lemma kernel_wf_log_trace [simp]: "kernel_wf (log_trace m a b k) = kernel_wf k"
  by (rule kernel_wf_frame) (simp_all add: log_trace_def)

text \<open>The initial values of the kernel's statics, on a given machine and image.\<close>

definition initial_kernel :: "layout \<Rightarrow> machine \<Rightarrow> kernel" where
  "initial_kernel l m =
     \<lparr>next_cap_id_ctr = 1, trace = trace_init, preempt = preempt_init, ipc_deliveries = 0,
      tasks_spawned = 0, tasks_terminated = 0, faults_caught = 0,
      tasks = replicate MAX_TASKS None, current_task_id = None, audit = AuditLog_new, mach = m,
      boot_rsp = 0, serial_out = [], k_layout = l\<rparr>"

lemma kernel_wf_initial [simp]: "kernel_wf (initial_kernel l m)"
  by (simp add: initial_kernel_def kernel_wf_def)

lemma get_task_initial [simp]: "get_task (initial_kernel l m) i = None"
  by (simp add: initial_kernel_def get_task_def)

lemma same_but_trace_kernel:
  assumes "same_but_trace k k'"
  shows "tasks k' = tasks k" "audit k' = audit k" "current_task_id k' = current_task_id k"
    "mach k' = mach k" "preempt k' = preempt k" "get_task k' i = get_task k i"
    "kernel_wf k' = kernel_wf k" "next_cap_id_ctr k' = next_cap_id_ctr k"
    "k_layout k' = k_layout k" "serial_out k' = serial_out k" "ipc_deliveries k' = ipc_deliveries k"
proof -
  have k': "k' = k\<lparr>trace := trace k'\<rparr>" using assms by (simp add: same_but_trace_def)
  show "tasks k' = tasks k" by (subst k') simp
  show "audit k' = audit k" by (subst k') simp
  show "current_task_id k' = current_task_id k" by (subst k') simp
  show "mach k' = mach k" by (subst k') simp
  show "preempt k' = preempt k" by (subst k') simp
  show "get_task k' i = get_task k i" by (subst k') (simp add: get_task_def)
  show "kernel_wf k' = kernel_wf k" by (subst k') (simp add: kernel_wf_def)
  show "next_cap_id_ctr k' = next_cap_id_ctr k" by (subst k') simp
  show "k_layout k' = k_layout k" by (subst k') simp
  show "serial_out k' = serial_out k" by (subst k') simp
  show "ipc_deliveries k' = ipc_deliveries k" by (subst k') simp
qed

subsection \<open>The context switch\<close>

definition push_val :: "u64 \<Rightarrow> machine \<Rightarrow> machine" where
  "push_val v m =
     (let sp = reg_rsp (cpu m) - 8
      in m\<lparr>cpu := (cpu m)\<lparr>reg_rsp := sp\<rparr>, mem := (mem m)(sp := v)\<rparr>)"

definition pop_val :: "machine \<Rightarrow> u64 \<times> machine" where
  "pop_val m =
     (let sp = reg_rsp (cpu m)
      in (mem m sp, m\<lparr>cpu := (cpu m)\<lparr>reg_rsp := sp + 8\<rparr>\<rparr>))"

text \<open>
  The first half of \<open>switch_context\<close>: the call pushes its return address, the stub pushes the
  flags and the callee-saved registers, and the stack pointer is what \<open>*old_rsp\<close> receives.
\<close>

definition switch_save :: "u64 \<Rightarrow> machine \<Rightarrow> u64 \<times> machine" where
  "switch_save ret_addr m =
     (let m = push_val ret_addr m;
          m = push_val (reg_rflags (cpu m)) m;
          m = push_val (reg_rbp (cpu m)) m;
          m = push_val (reg_rbx (cpu m)) m;
          m = push_val (reg_r12 (cpu m)) m;
          m = push_val (reg_r13 (cpu m)) m;
          m = push_val (reg_r14 (cpu m)) m;
          m = push_val (reg_r15 (cpu m)) m
      in (reg_rsp (cpu m), m))"

text \<open>The second half: load the new stack pointer, pop the registers and the flags, return.\<close>

definition switch_load :: "u64 \<Rightarrow> machine \<Rightarrow> machine" where
  "switch_load new_rsp m =
     (let m = m\<lparr>cpu := (cpu m)\<lparr>reg_rsp := new_rsp\<rparr>\<rparr>;
          (v, m) = pop_val m; m = m\<lparr>cpu := (cpu m)\<lparr>reg_r15 := v\<rparr>\<rparr>;
          (v, m) = pop_val m; m = m\<lparr>cpu := (cpu m)\<lparr>reg_r14 := v\<rparr>\<rparr>;
          (v, m) = pop_val m; m = m\<lparr>cpu := (cpu m)\<lparr>reg_r13 := v\<rparr>\<rparr>;
          (v, m) = pop_val m; m = m\<lparr>cpu := (cpu m)\<lparr>reg_r12 := v\<rparr>\<rparr>;
          (v, m) = pop_val m; m = m\<lparr>cpu := (cpu m)\<lparr>reg_rbx := v\<rparr>\<rparr>;
          (v, m) = pop_val m; m = m\<lparr>cpu := (cpu m)\<lparr>reg_rbp := v\<rparr>\<rparr>;
          (v, m) = pop_val m; m = m\<lparr>cpu := (cpu m)\<lparr>reg_rflags := v\<rparr>\<rparr>;
          (v, m) = pop_val m
      in m\<lparr>cpu := (cpu m)\<lparr>reg_rip := v\<rparr>\<rparr>)"

lemma switch_back:
  assumes "switch_save ret m = (sp, m1)" and "\<forall>i<8. mem m2 (sp + 8 * of_nat i) = mem m1 (sp + 8 * of_nat i)"
  shows "cpu (switch_load sp m2) = (cpu m)\<lparr>reg_rip := ret\<rparr>"
proof -
  have "mem m2 sp = mem m1 sp" "mem m2 (sp + 8) = mem m1 (sp + 8)" "mem m2 (sp + 16) = mem m1 (sp + 16)"
    "mem m2 (sp + 24) = mem m1 (sp + 24)" "mem m2 (sp + 32) = mem m1 (sp + 32)"
    "mem m2 (sp + 40) = mem m1 (sp + 40)" "mem m2 (sp + 48) = mem m1 (sp + 48)"
    "mem m2 (sp + 56) = mem m1 (sp + 56)"
    using assms(2) [rule_format, of 0] assms(2) [rule_format, of 1] assms(2) [rule_format, of 2]
      assms(2) [rule_format, of 3] assms(2) [rule_format, of 4] assms(2) [rule_format, of 5]
      assms(2) [rule_format, of 6] assms(2) [rule_format, of 7]
    by simp_all
  then show ?thesis
    using assms(1)
    by (auto simp: switch_save_def switch_load_def push_val_def pop_val_def Let_def)
qed

text \<open>
  The switch pops the flags too, so that a resumed context has its own. The comment on
  \<open>kernel_task_trampoline\<close> says that \<open>switch_context\<close> does not touch them.
\<close>

lemma switch_back_flags:
  assumes "switch_save ret m = (sp, m1)" and "\<forall>i<8. mem m2 (sp + 8 * of_nat i) = mem m1 (sp + 8 * of_nat i)"
  shows "reg_rflags (cpu (switch_load sp m2)) = reg_rflags (cpu m)"
  by (simp add: switch_back [OF assms])

lemma switch_save_frame:
  assumes "switch_save ret m = (sp, m1)"
  shows "sp = reg_rsp (cpu m) - 64" and "(\<And>i. i < 8 \<Longrightarrow> a \<noteq> sp + 8 * of_nat i) \<Longrightarrow> mem m1 a = mem m a"
proof -
  show sp: "sp = reg_rsp (cpu m) - 64"
    using assms by (auto simp: switch_save_def push_val_def Let_def)
  assume "\<And>i. i < 8 \<Longrightarrow> a \<noteq> sp + 8 * of_nat i"
  from this [of 0] this [of 1] this [of 2] this [of 3] this [of 4] this [of 5] this [of 6] this [of 7]
  show "mem m1 a = mem m a"
    using assms by (auto simp: sp switch_save_def push_val_def Let_def)
qed



subsection \<open>Fresh tasks\<close>

definition KERNEL_CODE :: u16 where
  "KERNEL_CODE = 0x08"

definition USER_CODE :: u16 where
  "USER_CODE = 0x18 OR 3"

definition USER_DATA :: u16 where
  "USER_DATA = 0x20 OR 3"

text \<open>\<open>rsp -= 8; *(rsp as *mut usize) = v\<close>\<close>

definition stack_push :: "u64 \<Rightarrow> u64 \<times> machine \<Rightarrow> u64 \<times> machine" where
  "stack_push v s = (case s of (sp, m) \<Rightarrow> (sp - 8, m\<lparr>mem := (mem m)(sp - 8 := v)\<rparr>))"

definition stack_top_of :: "layout \<Rightarrow> task_id \<Rightarrow> u64" where
  "stack_top_of l idx = task_stacks l + of_nat (idx * STACK_SIZE) + of_nat STACK_SIZE"

text \<open>
  \<open>Task::new\<close> and \<open>Task::new_user\<close>. An identity outside the task table fails the assertion and
  panics; the kernel returned has the spawn counted and the frame of the first run written to
  the task's stack.
\<close>

definition Task_new :: "task_id \<Rightarrow> u64 \<Rightarrow> cap_table \<Rightarrow> kernel \<Rightarrow> (task \<times> kernel) run" where
  "Task_new i entry caps k =
     (let k = k\<lparr>tasks_spawned := tasks_spawned k + 1\<rparr> in
      if \<not> i < MAX_TASKS then Panic
      else
        let stack_top = stack_top_of (k_layout k) i;
            (sp, m) = fold stack_push
              ([0, kernel_task_trampoline (k_layout k), 0x202] @ replicate 5 0 @ [entry])
              (stack_top, mach k)
        in Ret (\<lparr>t_id = i, t_state = Ready, t_rsp = sp, t_kstack_top = stack_top,
                 t_cr3 = current_pml4_paddr (mach k), t_caps = caps, t_ipc_buffer = None,
                 t_msg_queue = MessageQueue_new, t_fault_registers = None\<rparr>, k\<lparr>mach := m\<rparr>))"

definition Task_new_user ::
  "task_id \<Rightarrow> u64 \<Rightarrow> u64 \<Rightarrow> u64 \<Rightarrow> cap_table \<Rightarrow> kernel \<Rightarrow> (task \<times> kernel) run" where
  "Task_new_user i entry_vaddr user_stack_top pml4 caps k =
     (let k = k\<lparr>tasks_spawned := tasks_spawned k + 1\<rparr> in
      if \<not> i < MAX_TASKS then Panic
      else
        let kstack_top = stack_top_of (k_layout k) i;
            (sp, m) = fold stack_push
              ([ucast USER_DATA, user_stack_top, 0x202, ucast USER_CODE, entry_vaddr,
                iret_to_user (k_layout k), 0x202] @ replicate 6 0)
              (kstack_top, mach k)
        in Ret (\<lparr>t_id = i, t_state = Ready, t_rsp = sp, t_kstack_top = kstack_top,
                 t_cr3 = pml4, t_caps = caps, t_ipc_buffer = None,
                 t_msg_queue = MessageQueue_new, t_fault_registers = None\<rparr>, k\<lparr>mach := m\<rparr>))"

lemma Task_new_Panic [simp]: "Task_new i e c k = Panic \<longleftrightarrow> \<not> i < MAX_TASKS"
  by (simp add: Task_new_def Let_def split: prod.splits)

lemma Task_new_user_Panic [simp]: "Task_new_user i e s p c k = Panic \<longleftrightarrow> \<not> i < MAX_TASKS"
  by (simp add: Task_new_user_def Let_def split: prod.splits)

lemma Task_new_wf:
  "Task_new i e c k = Ret (t, k') \<Longrightarrow> cap_table_wf c \<Longrightarrow> task_wf i t \<and> t_state t = Ready \<and> t_caps t = c"
  by (auto simp: Task_new_def task_wf_def Let_def split: if_splits prod.splits)

lemma Task_new_user_wf:
  "Task_new_user i e s p c k = Ret (t, k') \<Longrightarrow> cap_table_wf c \<Longrightarrow>
   task_wf i t \<and> t_state t = Ready \<and> t_caps t = c \<and> t_cr3 t = p"
  by (auto simp: Task_new_user_def task_wf_def Let_def split: if_splits prod.splits)

lemma Task_new_kernel:
  "Task_new i e c k = Ret (t, k') \<Longrightarrow> k' = k\<lparr>tasks_spawned := tasks_spawned k + 1, mach := mach k'\<rparr>"
  by (auto simp: Task_new_def Let_def split: if_splits prod.splits)

lemma Task_new_user_kernel:
  "Task_new_user i e s p c k = Ret (t, k') \<Longrightarrow>
   k' = k\<lparr>tasks_spawned := tasks_spawned k + 1, mach := mach k'\<rparr>"
  by (auto simp: Task_new_user_def Let_def split: if_splits prod.splits)

text \<open>The frame a fresh task starts from is the one \<open>switch_context\<close> consumes.\<close>

lemma replicate_frame:
  "replicate 5 x = [x, x, x, x, x]" "replicate 6 x = [x, x, x, x, x, x]"
  by (simp_all add: numeral_eq_Suc)

lemma upt_frame: "[0..<5] = [0, 1, 2, 3, 4]"
  by (simp add: upt_rec)

lemma Task_new_first_run:
  assumes "Task_new i entry c k = Ret (t, k')"
  shows "reg_r15 (cpu (switch_load (t_rsp t) (mach k'))) = entry"
    and "reg_rip (cpu (switch_load (t_rsp t) (mach k'))) = kernel_task_trampoline (k_layout k)"
    and "reg_rflags (cpu (switch_load (t_rsp t) (mach k'))) = 0x202"
    and "reg_rsp (cpu (switch_load (t_rsp t) (mach k'))) = t_kstack_top t - 8"
  using assms
  by (auto simp: Task_new_def Let_def stack_push_def switch_load_def pop_val_def
      replicate_frame upt_frame split: if_splits)

lemma Task_new_user_first_run:
  assumes "Task_new_user i entry ustack pml4 c k = Ret (t, k')"
  defines "m \<equiv> switch_load (t_rsp t) (mach k')"
  shows "reg_rip (cpu m) = iret_to_user (k_layout k)"
    and "map (\<lambda>j. mem m (reg_rsp (cpu m) + 8 * of_nat j)) [0..<5]
       = [entry, ucast USER_CODE, 0x202, ustack, ucast USER_DATA]"
  using assms
  by (auto simp: Task_new_user_def Let_def stack_push_def switch_load_def pop_val_def
      replicate_frame upt_frame split: if_splits)

end
