(* ===== verification/Samples.thy ===== *)
theory Samples
  imports Process
begin

text \<open>
  A small concrete system, used to show that the hypotheses of the properties can be met: an empty
  machine, an image at fixed addresses, and a kernel with a client (task 1) and a server (task 2).
\<close>

definition sample_regs :: cpu_regs where
  "sample_regs = \<lparr>reg_rsp = 0x9000, reg_rbp = 0, reg_rbx = 0, reg_r12 = 0, reg_r13 = 0, reg_r14 = 0,
     reg_r15 = 0, reg_rflags = 0x202, reg_rip = 0\<rparr>"

definition sample_machine :: machine where
  "sample_machine = \<lparr>mem = (\<lambda>_. 0), reg_cr3 = 0x1000, tss_rsp0 = 0, cpu = sample_regs,
     next_free_paddr = 0x10000, usable_end = 0x40000, hhdm_response = Some 0xffff800000000000\<rparr>"

definition sample_layout :: layout where
  "sample_layout = \<lparr>task_stacks = 0xffffffff80200000, kernel_task_trampoline = 0xffffffff80001000,
     iret_to_user = 0xffffffff80001010, ret_yield = 0xffffffff80002000,
     ret_preempt = 0xffffffff80002100, ret_terminate = 0xffffffff80002200,
     user_blob = [], logger_blob = [0x90], faulty_user_blob = [], async_sender_blob = [],
     async_receiver_blob = [], ramfs_blob = [], init_blob = [], preempt_user_blob = []\<rparr>"

definition channel_cap :: "task_id \<Rightarrow> u64 \<Rightarrow> u64 option \<Rightarrow> capability" where
  "channel_cap target i parent =
     \<lparr>cap_resource = IpcChannel target, cap_read = True, cap_write = True, cap_grant = True,
      cap_sealed = False, cap_id = i, cap_origin = parent\<rparr>"

definition table_with :: "capability list \<Rightarrow> cap_table" where
  "table_with cs = \<lparr>slots = map Some cs @ replicate (MAX_CAPS - length cs) None\<rparr>"

lemma table_with_wf [simp]: "length cs \<le> MAX_CAPS \<Longrightarrow> cap_table_wf (table_with cs)"
  by (simp add: table_with_def cap_table_wf_def)

lemma cap_at_table_with:
  "length cs \<le> MAX_CAPS \<Longrightarrow> cap_at (table_with cs) i = (if i < length cs then Some (cs ! i) else None)"
  by (auto simp: table_with_def cap_at_def nth_append)

definition sample_task :: "task_id \<Rightarrow> task_state \<Rightarrow> cap_table \<Rightarrow> task" where
  "sample_task i st caps =
     \<lparr>t_id = i, t_state = st, t_rsp = 0x8000, t_kstack_top = 0x9000, t_cr3 = 0x1000, t_caps = caps,
      t_ipc_buffer = None, t_msg_queue = MessageQueue_new, t_fault_registers = None\<rparr>"

lemma sample_task_simps [simp]:
  "t_id (sample_task i st c) = i" "t_state (sample_task i st c) = st" "t_caps (sample_task i st c) = c"
  "t_ipc_buffer (sample_task i st c) = None" "t_msg_queue (sample_task i st c) = MessageQueue_new"
  "t_rsp (sample_task i st c) = 0x8000"
  by (simp_all add: sample_task_def)

lemma sample_task_wf [simp]: "cap_table_wf c \<Longrightarrow> task_wf i (sample_task i st c)"
  by (simp add: task_wf_def)

text \<open>
  The client runs and holds a channel to the server in slot 0; the server is in state \<open>st\<close> and
  holds a capability derived from it in its own slot 0.
\<close>

definition sample_kernel :: "task_state \<Rightarrow> kernel" where
  "sample_kernel st =
     (set_slot 2 (Some (sample_task 2 st (table_with [channel_cap 1 8 (Some 7)])))
       (set_slot 1 (Some (sample_task 1 Running (table_with [channel_cap 2 7 None])))
         (initial_kernel sample_layout sample_machine)))
     \<lparr>current_task_id := Some 1, next_cap_id_ctr := 9\<rparr>"

lemma sample_len [simp]: "Suc 0 \<le> MAX_CAPS" "1 \<le> MAX_CAPS" "0 < MAX_CAPS"
  by (simp_all add: MAX_CAPS_def)

lemma initial_length [simp]: "length (tasks (initial_kernel l m)) = MAX_TASKS"
  by (simp add: initial_kernel_def)

lemma kernel_wf_sample [simp]: "kernel_wf (sample_kernel st)"
proof -
  have "kernel_wf (set_slot 2 (Some (sample_task 2 st (table_with [channel_cap 1 8 (Some 7)])))
       (set_slot 1 (Some (sample_task 1 Running (table_with [channel_cap 2 7 None])))
         (initial_kernel sample_layout sample_machine)))"
    by (intro kernel_wf_set_slot) (auto intro!: sample_task_wf table_with_wf)
  then show ?thesis by (simp add: sample_kernel_def kernel_wf_def)
qed

lemma sample_tasks:
  "tasks (sample_kernel st) ! i =
     (if i = 1 then Some (sample_task 1 Running (table_with [channel_cap 2 7 None]))
      else if i = 2 then Some (sample_task 2 st (table_with [channel_cap 1 8 (Some 7)]))
      else None)"
  if "i < MAX_TASKS"
  using that by (auto simp: sample_kernel_def set_slot_def initial_kernel_def nth_list_update MAX_TASKS_def)

lemma slots_table_with [simp]: "i < length cs \<Longrightarrow> slots (table_with cs) ! i = Some (cs ! i)"
  by (simp add: table_with_def nth_append)

lemma first_free_table_with:
  "length cs < MAX_CAPS \<Longrightarrow> first_index (\<lambda>s. s = None) (slots (table_with cs)) = Some (length cs)"
  by (auto simp: table_with_def first_index_Some nth_append)

lemma sample_get_task:
  "get_task (sample_kernel st) 1 = Some (sample_task 1 Running (table_with [channel_cap 2 7 None]))"
  "get_task (sample_kernel st) 2 = Some (sample_task 2 st (table_with [channel_cap 1 8 (Some 7)]))"
  using kernel_wf_get_task [OF kernel_wf_sample, of 1 st] kernel_wf_get_task [OF kernel_wf_sample, of 2 st]
  by (simp_all add: sample_tasks MAX_TASKS_def)

lemmas sample_get_task_simps [simp] = sample_get_task sample_get_task [unfolded One_nat_def]

lemma sample_globals [simp]:
  "tracing_active (trace (sample_kernel st)) = False" "next_cap_id_ctr (sample_kernel st) = 9"
  "audit (sample_kernel st) = AuditLog_new" "mach (sample_kernel st) = sample_machine"
  "preempt (sample_kernel st) = preempt_init" "k_layout (sample_kernel st) = sample_layout"
  by (simp_all add: sample_kernel_def set_slot_def initial_kernel_def trace_init_def)

lemma sample_current [simp]: "current_task_id (sample_kernel st) = Some 1"
  by (simp add: sample_kernel_def)

end
