(* ===== verification/Scheduler.thy ===== *)
theory Scheduler
  imports Samples
begin

text \<open>
  The scheduler, \<open>scheduler/mod.rs\<close>: voluntary yield, involuntary reschedule from the timer, and
  termination. The kernel returned by a switching operation is the state at the moment control
  reaches the next task: its registers are those popped from the next task's stack. The scheduler
  lock is taken and released inside each operation; the interrupt path receives as an argument
  whether the interrupted code held it.
\<close>

subsection \<open>Selection\<close>

definition is_ready :: "task option \<Rightarrow> bool" where
  "is_ready s = (case s of Some t \<Rightarrow> t_state t = Ready | None \<Rightarrow> False)"

text \<open>The search loop of all three operations: the first ready task from \<open>start\<close>, cyclically.\<close>

definition next_ready :: "task option list \<Rightarrow> nat \<Rightarrow> nat option" where
  "next_ready ts start =
     map_option (\<lambda>off. (start + off) mod MAX_TASKS)
       (first_index (\<lambda>off. is_ready (ts ! ((start + off) mod MAX_TASKS))) [0..<MAX_TASKS])"

definition modify_slot :: "nat \<Rightarrow> (task \<Rightarrow> task) \<Rightarrow> kernel \<Rightarrow> kernel" where
  "modify_slot i f k = (case tasks k ! i of Some t \<Rightarrow> set_slot i (Some (f t)) k | None \<Rightarrow> k)"

definition set_state :: "task_state \<Rightarrow> task \<Rightarrow> task" where
  "set_state s t = t\<lparr>t_state := s\<rparr>"

definition slot_state :: "kernel \<Rightarrow> nat \<Rightarrow> task_state option" where
  "slot_state k i = map_option t_state (tasks k ! i)"

subsection \<open>Entering a task\<close>

definition set_kernel_stack :: "u64 \<Rightarrow> machine \<Rightarrow> machine" where
  "set_kernel_stack rsp0 m = m\<lparr>tss_rsp0 := rsp0\<rparr>"

definition enter_task :: "u64 \<Rightarrow> u64 \<Rightarrow> machine \<Rightarrow> machine" where
  "enter_task kstack pml4 m =
     (let m = (if kstack \<noteq> 0 then set_kernel_stack kstack m else m)
      in if pml4 \<noteq> 0 then switch_address_space pml4 m else m)"

text \<open>
  \<open>switch_context(old_rsp_ptr, new_rsp)\<close>. The pointer is the \<open>rsp\<close> field of the outgoing task, or
  the static save area of the boot context.
\<close>

definition switch_context :: "u64 \<Rightarrow> nat option \<Rightarrow> u64 \<Rightarrow> kernel \<Rightarrow> kernel" where
  "switch_context ret_addr old new_rsp k =
     (let (sp, m) = switch_save ret_addr (mach k);
          k = (case old of
                 Some cur \<Rightarrow> modify_slot cur (\<lambda>t. t\<lparr>t_rsp := sp\<rparr>) k
               | None \<Rightarrow> k\<lparr>boot_rsp := sp\<rparr>)
      in k\<lparr>mach := switch_load new_rsp m\<rparr>)"

definition cli :: "machine \<Rightarrow> machine" where
  "cli m = m\<lparr>cpu := (cpu m)\<lparr>reg_rflags := reg_rflags (cpu m) AND NOT 0x200\<rparr>\<rparr>"

definition sti :: "machine \<Rightarrow> machine" where
  "sti m = m\<lparr>cpu := (cpu m)\<lparr>reg_rflags := reg_rflags (cpu m) OR 0x200\<rparr>\<rparr>"

definition interrupts_on :: "machine \<Rightarrow> bool" where
  "interrupts_on m \<longleftrightarrow> reg_rflags (cpu m) AND 0x200 \<noteq> 0"

subsection \<open>Voluntary yield\<close>

definition current_index :: "kernel \<Rightarrow> nat option" where
  "current_index k =
     (case current_task_id k of
        Some i \<Rightarrow> if i < MAX_TASKS \<and> tasks k ! i \<noteq> None then Some i else None
      | None \<Rightarrow> None)"

definition yield_next :: "kernel \<Rightarrow> nat option" where
  "yield_next k =
     (case current_index k of
        Some cur \<Rightarrow> next_ready (tasks k) ((cur + 1) mod MAX_TASKS)
      | None \<Rightarrow> next_ready (tasks k) 0)"

text \<open>The state changes under the lock for a switch from \<open>cur\<close> to \<open>nxt\<close>.\<close>

definition hand_over :: "nat \<Rightarrow> nat \<Rightarrow> kernel \<Rightarrow> kernel" where
  "hand_over cur nxt k =
     (let k = (if slot_state k cur = Some Running then modify_slot cur (set_state Ready) k else k);
          k = modify_slot nxt (set_state Running) k
      in k\<lparr>current_task_id := map_option t_id (tasks k ! nxt)\<rparr>)"

text \<open>
  The tail of \<open>yield_cpu\<close> that turns interrupts back on runs in the resumed context; when no
  switch takes place it runs at once.
\<close>

definition yield_cpu :: "kernel \<Rightarrow> kernel" where
  "yield_cpu k =
     (let interrupts_enabled = interrupts_on (mach k);
          k = k\<lparr>mach := cli (mach k)\<rparr>;
          stay = (\<lambda>k. if interrupts_enabled then k\<lparr>mach := sti (mach k)\<rparr> else k)
      in case (yield_next k, current_index k) of
           (Some nxt, Some cur) \<Rightarrow>
             if cur \<noteq> nxt then
               let k = hand_over cur nxt k;
                   k = log_trace ''sched_switch_yield'' (of_nat cur) (of_nat nxt) k
               in case tasks k ! nxt of
                    Some t \<Rightarrow>
                      if t_rsp t \<noteq> 0
                      then switch_context (ret_yield (k_layout k)) (Some cur) (t_rsp t)
                             (k\<lparr>mach := enter_task (t_kstack_top t) (t_cr3 t) (mach k)\<rparr>)
                      else stay k
                  | None \<Rightarrow> stay k
             else stay k
         | (Some nxt, None) \<Rightarrow>
             (let k = modify_slot nxt (set_state Running) k;
                  k = k\<lparr>current_task_id := map_option t_id (tasks k ! nxt)\<rparr>
              in case tasks k ! nxt of
                   Some t \<Rightarrow>
                     if t_rsp t \<noteq> 0
                     then switch_context (ret_yield (k_layout k)) None (t_rsp t)
                            (k\<lparr>mach := enter_task (t_kstack_top t) (t_cr3 t) (mach k)\<rparr>)
                     else stay k
                 | None \<Rightarrow> stay k)
         | (None, _) \<Rightarrow> stay k)"

subsection \<open>Involuntary reschedule\<close>

definition note_deferred_locked :: "kernel \<Rightarrow> kernel" where
  "note_deferred_locked k = k\<lparr>preempt := (preempt k)\<lparr>deferred := deferred (preempt k) + 1\<rparr>\<rparr>"

definition note_preemption :: "kernel \<Rightarrow> kernel" where
  "note_preemption k = k\<lparr>preempt := (preempt k)\<lparr>preemptions := preemptions (preempt k) + 1\<rparr>\<rparr>"

definition preempt_reschedule :: "bool \<Rightarrow> kernel \<Rightarrow> kernel" where
  "preempt_reschedule lock_held k =
     (if lock_held then note_deferred_locked k
      else case current_index k of
             None \<Rightarrow> k
           | Some cur \<Rightarrow>
               (case next_ready (tasks k) ((cur + 1) mod MAX_TASKS) of
                  None \<Rightarrow> k
                | Some nxt \<Rightarrow>
                    if nxt = cur then k
                    else
                      let k = hand_over cur nxt k;
                          k = log_trace ''sched_switch_preempt'' (of_nat cur) (of_nat nxt) k
                      in (case tasks k ! nxt of
                           Some t \<Rightarrow>
                             if t_rsp t \<noteq> 0
                             then switch_context (ret_preempt (k_layout k)) (Some cur) (t_rsp t)
                                    (note_preemption
                                      (k\<lparr>mach := enter_task (t_kstack_top t) (t_cr3 t) (mach k)\<rparr>))
                             else k
                         | None \<Rightarrow> k)))"

subsection \<open>Termination\<close>

text \<open>\<open>terminate_current_task\<close> never returns: it enters another task or halts the processor.\<close>

datatype term_outcome = Entered kernel | Halted kernel

fun term_kernel :: "term_outcome \<Rightarrow> kernel" where
  "term_kernel (Entered k) = k"
| "term_kernel (Halted k) = k"

definition mark_terminated :: "kernel \<Rightarrow> kernel" where
  "mark_terminated k =
     (case current_task_id k of
        Some i \<Rightarrow>
          if i < MAX_TASKS \<and> tasks k ! i \<noteq> None
          then (modify_slot i (set_state Terminated) k)\<lparr>tasks_terminated := tasks_terminated k + 1\<rparr>
          else k
      | None \<Rightarrow> k)"

definition wake_sender :: "task_id \<Rightarrow> task \<Rightarrow> task" where
  "wake_sender dead t = (if t_state t = BlockedOnSend dead then set_state Ready t else t)"

definition wake_senders :: "kernel \<Rightarrow> kernel" where
  "wake_senders k =
     (case current_task_id k of
        Some dead \<Rightarrow> k\<lparr>tasks := map (map_option (wake_sender dead)) (tasks k)\<rparr>
      | None \<Rightarrow> k)"

definition terminate_current_task :: "kernel \<Rightarrow> term_outcome" where
  "terminate_current_task k =
     (let k = k\<lparr>mach := cli (mach k)\<rparr>;
          cur = current_task_id k;
          k = wake_senders (mark_terminated k);
          start = (case cur of Some i \<Rightarrow> (i + 1) mod MAX_TASKS | None \<Rightarrow> 0)
      in case next_ready (tasks k) start of
           None \<Rightarrow> Halted k
         | Some nxt \<Rightarrow>
             (let k = modify_slot nxt (set_state Running) k;
                  k = k\<lparr>current_task_id := map_option t_id (tasks k ! nxt)\<rparr>;
                  k = log_trace ''sched_switch_term''
                        (of_nat (case cur of Some i \<Rightarrow> i | None \<Rightarrow> 0)) (of_nat nxt) k
              in case tasks k ! nxt of
                   Some t \<Rightarrow>
                     if t_rsp t \<noteq> 0
                     then let m = enter_task (t_kstack_top t) (t_cr3 t) (mach k);
                              (_, m) = switch_save (ret_terminate (k_layout k)) m
                          in Entered (k\<lparr>mach := switch_load (t_rsp t) m\<rparr>)
                     else Halted k
                 | None \<Rightarrow> Halted k))"

subsection \<open>The cyclic search\<close>

text \<open>How far \<open>j\<close> lies after \<open>s\<close> in the cyclic order of the table.\<close>

definition cyc_dist :: "nat \<Rightarrow> nat \<Rightarrow> nat" where
  "cyc_dist s j = (j + MAX_TASKS - s) mod MAX_TASKS"

lemma cyc_dist_less [simp]: "cyc_dist s j < MAX_TASKS"
  by (simp add: cyc_dist_def MAX_TASKS_def)

lemma cyc_dist_add:
  assumes "s < MAX_TASKS" and "off < MAX_TASKS"
  shows "cyc_dist s ((s + off) mod MAX_TASKS) = off"
proof (cases "s + off < MAX_TASKS")
  case True
  then show ?thesis using assms by (simp add: cyc_dist_def)
next
  case False
  then have "(s + off) mod MAX_TASKS = s + off - MAX_TASKS"
    using assms by (simp add: mod_if [of "s + off"])
  with False assms show ?thesis by (simp add: cyc_dist_def)
qed

lemma add_cyc_dist:
  assumes "s < MAX_TASKS" and "j < MAX_TASKS"
  shows "(s + cyc_dist s j) mod MAX_TASKS = j"
proof -
  have "(s + cyc_dist s j) mod MAX_TASKS = (s + (j + MAX_TASKS - s)) mod MAX_TASKS"
    by (simp add: cyc_dist_def mod_simps)
  then show ?thesis using assms by simp
qed

lemma next_ready_Some:
  assumes "next_ready ts s = Some n" and "s < MAX_TASKS"
  shows "n < MAX_TASKS" and "is_ready (ts ! n)"
    and "\<And>j. j < MAX_TASKS \<Longrightarrow> is_ready (ts ! j) \<Longrightarrow> cyc_dist s n \<le> cyc_dist s j"
proof -
  obtain off where off: "off < MAX_TASKS" "is_ready (ts ! ((s + off) mod MAX_TASKS))"
    "\<And>i. i < off \<Longrightarrow> \<not> is_ready (ts ! ((s + i) mod MAX_TASKS))" and n: "n = (s + off) mod MAX_TASKS"
    using assms(1) by (auto simp: next_ready_def first_index_Some)
  show "n < MAX_TASKS" by (simp add: n MAX_TASKS_def)
  show "is_ready (ts ! n)" using off(2) n by simp
  show "cyc_dist s n \<le> cyc_dist s j" if j: "j < MAX_TASKS" "is_ready (ts ! j)" for j
    using off(3) [of "cyc_dist s j"] add_cyc_dist [OF assms(2) j(1)] j(2)
      cyc_dist_add [OF assms(2) off(1)] n
    by (metis linorder_not_le)
qed

lemma next_ready_None:
  assumes "s < MAX_TASKS"
  shows "next_ready ts s = None \<longleftrightarrow> (\<forall>j<MAX_TASKS. \<not> is_ready (ts ! j))"
proof
  assume none: "next_ready ts s = None"
  show "\<forall>j<MAX_TASKS. \<not> is_ready (ts ! j)"
  proof (intro allI impI)
    fix j assume "j < MAX_TASKS"
    then show "\<not> is_ready (ts ! j)"
      using none add_cyc_dist [OF assms, of j]
      by (auto simp: next_ready_def first_index_None dest: bspec [where x = "cyc_dist s j"])
  qed
next
  assume "\<forall>j<MAX_TASKS. \<not> is_ready (ts ! j)"
  then show "next_ready ts s = None"
    by (auto simp: next_ready_def first_index_None MAX_TASKS_def)
qed

text \<open>Choosing the nearest ready task brings the turn of every other ready task closer.\<close>

lemma next_ready_progress:
  assumes c: "c < MAX_TASKS" and n: "next_ready ts ((c + 1) mod MAX_TASKS) = Some n"
    and j: "j < MAX_TASKS" "is_ready (ts ! j)" "j \<noteq> n"
  shows "cyc_dist ((n + 1) mod MAX_TASKS) j < cyc_dist ((c + 1) mod MAX_TASKS) j"
proof -
  define s where "s = (c + 1) mod MAX_TASKS"
  have s: "s < MAX_TASKS" by (simp add: s_def MAX_TASKS_def)
  note nr = next_ready_Some [OF n [folded s_def] s]
  define a b where "a = cyc_dist s n" and "b = cyc_dist s j"
  have ab: "a < b"
    using nr(3) [OF j(1,2)] j(3) add_cyc_dist [OF s nr(1)] add_cyc_dist [OF s j(1)]
    by (metis a_def b_def order_le_less)
  have b: "b < MAX_TASKS" by (simp add: b_def)
  have n': "n = (s + a) mod MAX_TASKS" and j': "j = (s + b) mod MAX_TASKS"
    using add_cyc_dist [OF s] nr(1) j(1) by (simp_all add: a_def b_def)
  have s': "(n + 1) mod MAX_TASKS < MAX_TASKS" by (simp add: MAX_TASKS_def)
  have "((n + 1) mod MAX_TASKS + (b - a - 1)) mod MAX_TASKS = (n + 1 + (b - a - 1)) mod MAX_TASKS"
    by (simp only: mod_simps)
  also have "n + 1 + (b - a - 1) = n + (b - a)" using ab by simp
  also have "(n + (b - a)) mod MAX_TASKS = (s + a + (b - a)) mod MAX_TASKS"
    by (simp only: n' mod_simps)
  also have "\<dots> = j" using ab j' by simp
  finally have "cyc_dist ((n + 1) mod MAX_TASKS) j = b - a - 1"
    using cyc_dist_add [OF s', of "b - a - 1"] b ab by auto
  then show ?thesis using ab by (simp add: b_def s_def)
qed

subsection \<open>What a switch changes\<close>

text \<open>
  A scheduling operation touches the state and the saved stack pointer of tasks, the current
  task, the machine and the trace and preemption counters, and nothing else.
\<close>

definition same_task :: "task \<Rightarrow> task \<Rightarrow> bool" where
  "same_task t t' \<longleftrightarrow> t' = t\<lparr>t_state := t_state t', t_rsp := t_rsp t'\<rparr>"

definition sched_rel :: "kernel \<Rightarrow> kernel \<Rightarrow> bool" where
  "sched_rel k k' \<longleftrightarrow> list_all2 (rel_option same_task) (tasks k) (tasks k') \<and> audit k' = audit k \<and>
     next_cap_id_ctr k' = next_cap_id_ctr k \<and> serial_out k' = serial_out k \<and> k_layout k' = k_layout k"

lemma same_task_refl [simp]: "same_task t t"
  by (simp add: same_task_def)

lemma same_task_trans: "same_task a b \<Longrightarrow> same_task b c \<Longrightarrow> same_task a c"
  by (cases a; cases b; cases c) (simp add: same_task_def)

lemma same_task_update [simp]:
  "same_task t (set_state s t)" "same_task t (t\<lparr>t_rsp := r\<rparr>)" "same_task t (wake_sender d t)"
  by (simp_all add: same_task_def set_state_def wake_sender_def)

lemma same_task_fields:
  "same_task t t' \<Longrightarrow> t_id t' = t_id t \<and> t_caps t' = t_caps t \<and> t_ipc_buffer t' = t_ipc_buffer t \<and>
     t_msg_queue t' = t_msg_queue t \<and> t_cr3 t' = t_cr3 t \<and> t_kstack_top t' = t_kstack_top t \<and>
     t_fault_registers t' = t_fault_registers t"
  by (cases t; cases t') (simp add: same_task_def)

lemma sched_rel_refl [simp, intro]: "sched_rel k k"
  by (simp add: sched_rel_def list.rel_refl option.rel_refl)

lemma sched_rel_trans: "sched_rel a b \<Longrightarrow> sched_rel b c \<Longrightarrow> sched_rel a c"
proof -
  have "rel_option same_task x z" if "rel_option same_task x y" "rel_option same_task y z" for x y z
    using that by (cases x; cases y; cases z) (auto intro: same_task_trans)
  then show "sched_rel a b \<Longrightarrow> sched_rel b c \<Longrightarrow> sched_rel a c"
    by (auto simp: sched_rel_def intro: list_all2_trans)
qed

lemma sched_rel_modify_slot:
  assumes "\<And>t. same_task t (f t)"
  shows "sched_rel k (modify_slot i f k)"
proof (cases "i < length (tasks k)")
  case True
  then show ?thesis using assms
    by (auto simp: sched_rel_def modify_slot_def set_slot_def list_all2_conv_all_nth nth_list_update
        option.rel_refl split: option.splits)
next
  case False
  then show ?thesis
    by (simp add: sched_rel_def modify_slot_def set_slot_def list.rel_refl option.rel_refl
        list_update_beyond split: option.splits)
qed

lemma sched_rel_modify:
  "sched_rel a b \<Longrightarrow> (\<And>t. same_task t (f t)) \<Longrightarrow> sched_rel a (modify_slot i f b)"
  by (rule sched_rel_trans [OF _ sched_rel_modify_slot])

lemma sched_rel_simps [simp]:
  "sched_rel k (k'\<lparr>mach := m\<rparr>) = sched_rel k k'"
  "sched_rel k (k'\<lparr>current_task_id := c\<rparr>) = sched_rel k k'"
  "sched_rel k (k'\<lparr>boot_rsp := b\<rparr>) = sched_rel k k'"
  "sched_rel k (k'\<lparr>preempt := p\<rparr>) = sched_rel k k'"
  "sched_rel k (k'\<lparr>tasks_terminated := tt\<rparr>) = sched_rel k k'"
  "sched_rel k (log_trace s x y k') = sched_rel k k'"
  by (simp_all add: sched_rel_def log_trace_def)

lemma sched_rel_hand_over: "sched_rel k k' \<Longrightarrow> sched_rel k (hand_over c n k')"
  by (auto simp: hand_over_def Let_def intro!: sched_rel_modify)

lemma sched_rel_switch_context: "sched_rel k k' \<Longrightarrow> sched_rel k (switch_context r old new k')"
  by (auto simp: switch_context_def split: prod.splits option.splits
      intro!: sched_rel_modify)

lemma sched_rel_yield: "sched_rel k (yield_cpu k)"
  by (auto simp: yield_cpu_def Let_def split: option.splits
      intro!: sched_rel_switch_context sched_rel_hand_over sched_rel_modify)

lemma sched_rel_preempt: "sched_rel k (preempt_reschedule held k)"
  by (auto simp: preempt_reschedule_def note_deferred_locked_def note_preemption_def Let_def
      split: option.splits intro!: sched_rel_switch_context sched_rel_hand_over)

lemma sched_rel_wake: "sched_rel k k' \<Longrightarrow> sched_rel k (wake_senders k')"
  by (rule sched_rel_trans)
    (auto simp: wake_senders_def sched_rel_def list.rel_refl list_all2_conv_all_nth option.rel_map
      option.rel_refl split: option.splits)

lemma sched_rel_mark: "sched_rel k k' \<Longrightarrow> sched_rel k (mark_terminated k')"
  by (auto simp: mark_terminated_def split: option.splits
      intro!: sched_rel_modify)

lemma sched_rel_terminate: "sched_rel k (term_kernel (terminate_current_task k))"
  by (auto simp: terminate_current_task_def Let_def split: option.splits prod.splits
      intro!: sched_rel_modify sched_rel_wake sched_rel_mark)

lemma sched_rel_nth:
  "sched_rel k k' \<Longrightarrow> i < length (tasks k) \<Longrightarrow> rel_option same_task (tasks k ! i) (tasks k' ! i)"
  by (simp add: sched_rel_def list_all2_conv_all_nth)

lemma sched_rel_length: "sched_rel k k' \<Longrightarrow> length (tasks k') = length (tasks k)"
  by (simp add: sched_rel_def list_all2_conv_all_nth)

lemma sched_rel_get_task:
  assumes "sched_rel k k'"
  shows "rel_option same_task (get_task k i) (get_task k' i)"
proof (cases "i < length (tasks k)")
  case True
  then show ?thesis
    using sched_rel_nth [OF assms True] sched_rel_length [OF assms] same_task_fields
    by (cases "tasks k ! i"; cases "tasks k' ! i") (auto simp: get_task_def)
next
  case False
  then show ?thesis using sched_rel_length [OF assms] by (simp add: get_task_def)
qed

lemma kernel_wf_sched_rel:
  assumes "kernel_wf k" and "sched_rel k k'"
  shows "kernel_wf k'"
proof -
  have "task_wf i t'" if "i < MAX_TASKS" "tasks k' ! i = Some t'" for i t'
  proof -
    have "rel_option same_task (tasks k ! i) (Some t')"
      using sched_rel_nth [OF assms(2), of i] that assms(1) by (simp add: kernel_wf_def)
    then obtain t where t: "tasks k ! i = Some t" "same_task t t'"
      by (cases "tasks k ! i") auto
    then have "task_wf i t" using assms(1) that(1) by (simp add: kernel_wf_def)
    then show ?thesis using same_task_fields [OF t(2)] by (simp add: task_wf_def)
  qed
  then show ?thesis
    using assms sched_rel_length [OF assms(2)] by (simp add: kernel_wf_def sched_rel_def)
qed

lemmas sched_ops_rel = sched_rel_yield sched_rel_preempt sched_rel_terminate

subsection \<open>States after a switch\<close>

lemma slot_state_simps [simp]:
  "slot_state (k\<lparr>mach := m\<rparr>) i = slot_state k i"
  "slot_state (k\<lparr>current_task_id := c\<rparr>) i = slot_state k i"
  "slot_state (k\<lparr>boot_rsp := b\<rparr>) i = slot_state k i"
  "slot_state (k\<lparr>preempt := p\<rparr>) i = slot_state k i"
  "slot_state (k\<lparr>tasks_terminated := tt\<rparr>) i = slot_state k i"
  "slot_state (log_trace s x y k) i = slot_state k i"
  by (simp_all add: slot_state_def log_trace_def)

lemma slot_state_modify:
  assumes "j < length (tasks k)"
  shows "slot_state (modify_slot i f k) j =
    (if i = j then map_option (\<lambda>t. t_state (f t)) (tasks k ! i) else slot_state k j)"
  using assms by (auto simp: slot_state_def modify_slot_def set_slot_def nth_list_update split: option.splits)

lemma modify_slot_frame [simp]:
  "current_task_id (modify_slot i f k) = current_task_id k"
  "length (tasks (modify_slot i f k)) = length (tasks k)"
  "preempt (modify_slot i f k) = preempt k"
  "mach (modify_slot i f k) = mach k"
  "k_layout (modify_slot i f k) = k_layout k"
  by (simp_all add: modify_slot_def set_slot_def split: option.splits)

lemma slot_state_rsp:
  "slot_state (modify_slot i (\<lambda>t. t\<lparr>t_rsp := v\<rparr>) k) j = slot_state k j"
proof (cases "j < length (tasks k)")
  case True
  then show ?thesis by (auto simp: slot_state_modify) (simp add: slot_state_def)
next
  case False
  then show ?thesis
    by (auto simp: slot_state_def modify_slot_def set_slot_def nth_list_update split: option.splits)
       (metis list_update_beyond nth_list_update_neq not_less)
qed

lemma switch_context_state [simp]:
  "slot_state (switch_context r old new k) i = slot_state k i"
  "current_task_id (switch_context r old new k) = current_task_id k"
  "length (tasks (switch_context r old new k)) = length (tasks k)"
  "preempt (switch_context r old new k) = preempt k"
  by (simp_all add: switch_context_def slot_state_rsp split: prod.splits option.splits)

lemma is_ready_slot: "is_ready (tasks k ! i) \<longleftrightarrow> slot_state k i = Some Ready"
  by (auto simp: is_ready_def slot_state_def split: option.splits)

lemma current_index_Some:
  "current_index k = Some c \<Longrightarrow> c < MAX_TASKS \<and> current_task_id k = Some c \<and> tasks k ! c \<noteq> None"
  by (auto simp: current_index_def split: option.splits if_splits)

lemma current_index_mach [simp]: "current_index (k\<lparr>mach := m\<rparr>) = current_index k"
  by (simp add: current_index_def split: option.split)

lemma yield_next_mach [simp]: "yield_next (k\<lparr>mach := m\<rparr>) = yield_next k"
  by (simp add: yield_next_def split: option.split)

text \<open>Handing the processor from \<open>c\<close> to \<open>n\<close>, on a well-formed table.\<close>

definition handed_state :: "kernel \<Rightarrow> nat \<Rightarrow> nat \<Rightarrow> nat \<Rightarrow> task_state option" where
  "handed_state k c n i =
     (if i = n then Some Running
      else if i = c \<and> slot_state k c = Some Running then Some Ready
      else slot_state k i)"

lemma hand_over_spec:
  assumes wf: "kernel_wf k" and n: "n < MAX_TASKS" "tasks k ! n \<noteq> None" and cn: "c \<noteq> n"
  shows "current_task_id (hand_over c n k) = Some n"
    and "i < MAX_TASKS \<Longrightarrow> slot_state (hand_over c n k) i = handed_state k c n i"
proof -
  let ?k = "if slot_state k c = Some Running then modify_slot c (set_state Ready) k else k"
  have len: "length (tasks k) = MAX_TASKS" using wf by (simp add: kernel_wf_def)
  have nth: "tasks ?k ! n = tasks k ! n"
    using cn by (auto simp: modify_slot_def set_slot_def split: option.splits)
  obtain t where t: "tasks k ! n = Some t" "t_id t = n"
    using wf n by (auto simp: kernel_wf_def task_wf_def)
  have "tasks (modify_slot n (set_state Running) ?k) ! n = Some (set_state Running t)"
    using nth t n(1) len unfolding modify_slot_def [of n] by (simp add: set_slot_def)
  then show "current_task_id (hand_over c n k) = Some n"
    using t by (simp add: hand_over_def Let_def set_state_def)
  show "slot_state (hand_over c n k) i = handed_state k c n i" if "i < MAX_TASKS"
    using that nth t len
    by (auto simp: hand_over_def handed_state_def Let_def slot_state_modify set_state_def)
      (auto simp: slot_state_def)
qed

lemma hand_over_task:
  assumes "kernel_wf k" and "n < MAX_TASKS" and "tasks k ! n \<noteq> None" and "c \<noteq> n"
  shows "\<exists>t. tasks (hand_over c n k) ! n = Some t"
  using hand_over_spec(2) [OF assms assms(2)] by (auto simp: slot_state_def handed_state_def)

lemma handed_state_mach [simp]: "handed_state (k\<lparr>mach := m\<rparr>) c n i = handed_state k c n i"
  by (simp add: handed_state_def)

lemma kernel_wf_mach [simp]: "kernel_wf (k\<lparr>mach := m\<rparr>) = kernel_wf k"
  by (simp add: kernel_wf_def)

lemma yield_cpu_switch:
  assumes wf: "kernel_wf k" and c: "current_index k = Some c" and n: "yield_next k = Some n" and cn: "c \<noteq> n"
  shows "current_task_id (yield_cpu k) = Some n"
    and "i < MAX_TASKS \<Longrightarrow> slot_state (yield_cpu k) i = handed_state k c n i"
proof -
  have s: "(c + 1) mod MAX_TASKS < MAX_TASKS" by (simp add: MAX_TASKS_def)
  have nr: "n < MAX_TASKS" "is_ready (tasks k ! n)"
    using next_ready_Some [OF _ s, of "tasks k" n] n c by (simp_all add: yield_next_def)
  then have n': "tasks k ! n \<noteq> None" by (auto simp: is_ready_def split: option.splits)
  let ?k = "k\<lparr>mach := cli (mach k)\<rparr>"
  note ho = hand_over_spec [of ?k n c, simplified, OF wf nr(1) n' [simplified] cn]
  obtain t where t: "tasks (hand_over c n ?k) ! n = Some t"
    using hand_over_task [of ?k n c] wf nr(1) n' cn by auto
  then have t': "tasks (log_trace s x y (hand_over c n ?k)) ! n = Some t" for s x y
    by (simp add: log_trace_def)
  have cur: "current_task_id (log_trace s x y (hand_over c n ?k)) = Some n" for s x y
    using ho(1) by (simp add: log_trace_def)
  show "current_task_id (yield_cpu k) = Some n"
    using c n cn t' cur by (simp add: yield_cpu_def Let_def)
  show "slot_state (yield_cpu k) i = handed_state k c n i" if "i < MAX_TASKS"
    using c n cn t' ho(2) [OF that] by (simp add: yield_cpu_def Let_def)
qed

lemma yield_cpu_stay:
  assumes "current_index k = Some c" and "yield_next k \<in> {None, Some c}"
  shows "yield_cpu k = k\<lparr>mach := mach (yield_cpu k)\<rparr>"
  using assms by (auto simp: yield_cpu_def Let_def)

lemma preempt_switch:
  assumes wf: "kernel_wf k" and c: "current_index k = Some c"
    and n: "next_ready (tasks k) ((c + 1) mod MAX_TASKS) = Some n" and cn: "c \<noteq> n"
  shows "current_task_id (preempt_reschedule False k) = Some n"
    and "i < MAX_TASKS \<Longrightarrow> slot_state (preempt_reschedule False k) i = handed_state k c n i"
proof -
  have s: "(c + 1) mod MAX_TASKS < MAX_TASKS" by (simp add: MAX_TASKS_def)
  note nr = next_ready_Some [OF n s]
  then have n': "tasks k ! n \<noteq> None" by (auto simp: is_ready_def split: option.splits)
  note ho = hand_over_spec [OF wf nr(1) n' cn]
  obtain t where "tasks (hand_over c n k) ! n = Some t"
    using hand_over_task [OF wf nr(1) n' cn] by auto
  then have t': "tasks (log_trace s x y (hand_over c n k)) ! n = Some t" for s x y
    by (simp add: log_trace_def)
  have cur: "current_task_id (log_trace s x y (hand_over c n k)) = Some n" for s x y
    using ho(1) by (simp add: log_trace_def)
  show "current_task_id (preempt_reschedule False k) = Some n"
    using c n cn t' cur by (simp add: preempt_reschedule_def note_preemption_def Let_def)
  show "slot_state (preempt_reschedule False k) i = handed_state k c n i" if "i < MAX_TASKS"
    using c n cn t' ho(2) [OF that] by (simp add: preempt_reschedule_def note_preemption_def Let_def)
qed

lemma preempt_stay:
  assumes "current_index k = None \<or> (\<exists>c. current_index k = Some c \<and>
      next_ready (tasks k) ((c + 1) mod MAX_TASKS) \<in> {None, Some c})"
  shows "preempt_reschedule False k = k"
  using assms by (auto simp: preempt_reschedule_def)

lemma yield_cpu_first:
  assumes wf: "kernel_wf k" and c: "current_index k = None" and n: "yield_next k = Some n"
  shows "current_task_id (yield_cpu k) = Some n"
    and "i < MAX_TASKS \<Longrightarrow> slot_state (yield_cpu k) i = (if i = n then Some Running else slot_state k i)"
proof -
  have "next_ready (tasks k) 0 = Some n" using n c by (simp add: yield_next_def)
  then have nr: "n < MAX_TASKS" "is_ready (tasks k ! n)"
    using next_ready_Some [of "tasks k" 0 n] by (simp_all add: MAX_TASKS_def)
  obtain t where t: "tasks k ! n = Some t" "t_id t = n"
    using wf nr by (auto simp: is_ready_def kernel_wf_def task_wf_def split: option.splits)
  have len: "length (tasks k) = MAX_TASKS" using wf by (simp add: kernel_wf_def)
  let ?k = "modify_slot n (set_state Running) (k\<lparr>mach := cli (mach k)\<rparr>)"
  have t': "tasks ?k ! n = Some (set_state Running t)"
    using t nr(1) len by (simp add: modify_slot_def set_slot_def)
  show "current_task_id (yield_cpu k) = Some n"
    using c n t' t by (simp add: yield_cpu_def Let_def set_state_def)
  show "slot_state (yield_cpu k) i = (if i = n then Some Running else slot_state k i)" if "i < MAX_TASKS"
    using c n t' t that len
    by (simp add: yield_cpu_def Let_def slot_state_modify) (simp add: set_state_def)
qed

lemma yield_cpu_idle:
  assumes "yield_next k = None"
  shows "yield_cpu k = k\<lparr>mach := mach (yield_cpu k)\<rparr>"
  using assms by (auto simp: yield_cpu_def Let_def)

subsection \<open>At most one task runs\<close>

definition running_inv :: "kernel \<Rightarrow> bool" where
  "running_inv k \<longleftrightarrow> (\<forall>i<MAX_TASKS. slot_state k i = Some Running \<longrightarrow> current_task_id k = Some i)"

lemma running_inv_hand:
  assumes "running_inv k" and "current_index k = Some c"
    and "current_task_id k' = Some n" and "\<And>i. i < MAX_TASKS \<Longrightarrow> slot_state k' i = handed_state k c n i"
  shows "running_inv k'"
  using assms current_index_Some [OF assms(2)]
  by (auto simp: running_inv_def handed_state_def split: if_splits)

lemma running_inv_same:
  assumes "running_inv k" and "k' = k\<lparr>mach := mach k'\<rparr>"
  shows "running_inv k'"
  using assms(1) by (subst assms(2)) (simp add: running_inv_def)

lemma running_inv_yield:
  assumes "kernel_wf k" and "running_inv k"
  shows "running_inv (yield_cpu k)"
proof (cases "current_index k")
  case (Some c)
  show ?thesis
  proof (cases "yield_next k \<in> {None, Some c}")
    case True
    then show ?thesis using running_inv_same [OF assms(2)] yield_cpu_stay [OF Some True] by blast
  next
    case False
    then obtain n where n: "yield_next k = Some n" "c \<noteq> n" by auto
    show ?thesis
      by (rule running_inv_hand [OF assms(2) Some])
        (use yield_cpu_switch [OF assms(1) Some n] in auto)
  qed
next
  case None
  show ?thesis
  proof (cases "yield_next k")
    case None
    then show ?thesis using running_inv_same [OF assms(2)] yield_cpu_idle by blast
  next
    case (Some n)
    have idle: "slot_state k i \<noteq> Some Running" if "i < MAX_TASKS" for i
    proof
      assume "slot_state k i = Some Running"
      moreover from this have "current_task_id k = Some i" using assms(2) that by (simp add: running_inv_def)
      ultimately show False using None that by (auto simp: current_index_def slot_state_def)
    qed
    then show ?thesis
      using yield_cpu_first [OF assms(1) None Some] by (auto simp: running_inv_def)
  qed
qed

lemma running_inv_preempt:
  assumes "kernel_wf k" and "running_inv k"
  shows "running_inv (preempt_reschedule held k)"
proof (cases held)
  case True
  then show ?thesis using assms(2) by (simp add: preempt_reschedule_def note_deferred_locked_def running_inv_def)
next
  case False
  show ?thesis
  proof (cases "current_index k")
    case None
    then show ?thesis using assms(2) preempt_stay [of k] False by simp
  next
    case (Some c)
    show ?thesis
    proof (cases "next_ready (tasks k) ((c + 1) mod MAX_TASKS) \<in> {None, Some c}")
      case True
      then show ?thesis using assms(2) preempt_stay [of k] False Some by simp
    next
      case switch: False
      then obtain n where n: "next_ready (tasks k) ((c + 1) mod MAX_TASKS) = Some n" "c \<noteq> n" by auto
      show ?thesis
        by (rule running_inv_hand [OF assms(2) Some])
          (use False preempt_switch [OF assms(1) Some n] in auto)
    qed
  qed
qed

subsection \<open>Round robin\<close>

text \<open>The search comes back to where it started only when nothing else is ready.\<close>

lemma next_ready_last:
  assumes c: "c < MAX_TASKS" and n: "next_ready ts ((c + 1) mod MAX_TASKS) = Some c"
    and j: "j < MAX_TASKS" "is_ready (ts ! j)"
  shows "j = c"
proof -
  let ?s = "(c + 1) mod MAX_TASKS"
  have s: "?s < MAX_TASKS" by (simp add: MAX_TASKS_def)
  have far: "cyc_dist ?s c = MAX_TASKS - 1"
    using c by (auto simp: cyc_dist_def MAX_TASKS_def mod_if)
  have "cyc_dist ?s c \<le> cyc_dist ?s j" by (rule next_ready_Some(3) [OF n s j])
  then have "cyc_dist ?s j = cyc_dist ?s c"
    using far cyc_dist_less [of ?s j] by linarith
  then show ?thesis using add_cyc_dist [OF s j(1)] add_cyc_dist [OF s c] by simp
qed

text \<open>
  A ready task is entered after at most as many yields as its cyclic distance from the running
  task.
\<close>

lemma yield_reaches:
  assumes "kernel_wf k" and "current_index k = Some c" and "j < MAX_TASKS"
    and "slot_state k j = Some Ready" and "cyc_dist ((c + 1) mod MAX_TASKS) j = d" and "c \<noteq> j"
  shows "\<exists>n. n \<le> d + 1 \<and> current_task_id ((yield_cpu ^^ n) k) = Some j"
  using assms
proof (induction d arbitrary: k c rule: less_induct)
  case (less d)
  have s: "(c + 1) mod MAX_TASKS < MAX_TASKS" by (simp add: MAX_TASKS_def)
  have rj: "is_ready (tasks k ! j)" using less.prems(4) by (simp add: is_ready_slot)
  then obtain n where nr: "next_ready (tasks k) ((c + 1) mod MAX_TASKS) = Some n"
    using next_ready_None [OF s, of "tasks k"] less.prems(3) by auto
  then have n: "yield_next k = Some n" using less.prems(2) by (simp add: yield_next_def)
  note near = next_ready_Some [OF nr s]
  show ?case
  proof (cases "n = j")
    case True
    then have "current_task_id ((yield_cpu ^^ 1) k) = Some j"
      using yield_cpu_switch(1) [OF less.prems(1,2) n] less.prems(6) by simp
    then show ?thesis by (intro exI [of _ 1]) simp
  next
    case nj: False
    show ?thesis
    proof (cases "c = n")
      case False
      let ?k = "yield_cpu k"
      note sw = yield_cpu_switch [OF less.prems(1,2) n False]
      have wf: "kernel_wf ?k" by (rule kernel_wf_sched_rel [OF less.prems(1) sched_rel_yield])
      have "slot_state ?k n = Some Running" using sw(2) [OF near(1)] by (simp add: handed_state_def)
      then have ci: "current_index ?k = Some n"
        using sw(1) near(1) by (auto simp: current_index_def slot_state_def)
      have st: "slot_state ?k j = Some Ready"
        using sw(2) [OF less.prems(3)] less.prems(4,6) nj by (simp add: handed_state_def)
      have "cyc_dist ((n + 1) mod MAX_TASKS) j < d"
        using next_ready_progress [OF _ nr less.prems(3) rj] nj less.prems(5) current_index_Some [OF less.prems(2)]
        by auto
      from less.IH [OF this wf ci less.prems(3) st refl] nj
      obtain m where m: "m \<le> cyc_dist ((n + 1) mod MAX_TASKS) j + 1"
        "current_task_id ((yield_cpu ^^ m) ?k) = Some j" by auto
      have "current_task_id ((yield_cpu ^^ Suc m) k) = Some j"
        using m(2) by (simp add: funpow_swap1)
      then show ?thesis
        using m(1) \<open>cyc_dist ((n + 1) mod MAX_TASKS) j < d\<close> by (intro exI [of _ "Suc m"]) simp
    next
      case True
      then have "j = c"
        using next_ready_last [of c "tasks k" j] nr less.prems(3) rj current_index_Some [OF less.prems(2)]
        by simp
      then show ?thesis using less.prems(6) by simp
    qed
  qed
qed

subsection \<open>Termination\<close>

definition term_state :: "kernel \<Rightarrow> task_id \<Rightarrow> nat \<Rightarrow> task_state option" where
  "term_state k d i =
     (if i = d then Some Terminated
      else if slot_state k i = Some (BlockedOnSend d) then Some Ready
      else slot_state k i)"

lemma wake_mark_state:
  assumes "kernel_wf k" and "current_task_id k = Some d" and "d < MAX_TASKS" and "tasks k ! d \<noteq> None"
    and "i < MAX_TASKS"
  shows "slot_state (wake_senders (mark_terminated k)) i = term_state k d i"
proof -
  let ?m = "mark_terminated k"
  have len: "length (tasks k) = MAX_TASKS" using assms(1) by (simp add: kernel_wf_def)
  have cur: "current_task_id ?m = Some d" using assms(2) by (simp add: mark_terminated_def)
  have lm: "length (tasks ?m) = MAX_TASKS" using len by (simp add: mark_terminated_def split: option.split)
  have m: "slot_state ?m i = (if i = d then Some Terminated else slot_state k i)"
    using assms len by (auto simp: mark_terminated_def slot_state_modify set_state_def)
  have "slot_state (wake_senders ?m) i = map_option t_state (map_option (wake_sender d) (tasks ?m ! i))"
    using cur lm assms(5) by (simp add: wake_senders_def slot_state_def)
  also have "\<dots> = (if slot_state ?m i = Some (BlockedOnSend d) then Some Ready else slot_state ?m i)"
    by (cases "tasks ?m ! i") (simp_all add: wake_sender_def set_state_def slot_state_def)
  finally show ?thesis using m by (auto simp: term_state_def)
qed

lemma term_state_mach [simp]: "term_state (k\<lparr>mach := m\<rparr>) d i = term_state k d i"
  by (simp add: term_state_def)

lemma kernel_wf_wake_mark: "kernel_wf k \<Longrightarrow> kernel_wf (wake_senders (mark_terminated k))"
  by (erule kernel_wf_sched_rel) (intro sched_rel_wake sched_rel_mark sched_rel_refl)

text \<open>
  The states after termination: the dying task is terminated, its blocked senders are awake, and
  the nearest ready task (if any) runs.
\<close>

lemma terminate_states:
  assumes wf: "kernel_wf k" and d: "current_task_id k = Some d" "d < MAX_TASKS" "tasks k ! d \<noteq> None"
  defines "k' \<equiv> term_kernel (terminate_current_task k)"
  shows "(\<exists>n<MAX_TASKS. term_state k d n = Some Ready \<and> current_task_id k' = Some n \<and>
            (\<forall>j<MAX_TASKS. term_state k d j = Some Ready \<longrightarrow>
               cyc_dist ((d + 1) mod MAX_TASKS) n \<le> cyc_dist ((d + 1) mod MAX_TASKS) j) \<and>
            (\<forall>i<MAX_TASKS. slot_state k' i = (if i = n then Some Running else term_state k d i)))
       \<or> ((\<forall>i<MAX_TASKS. term_state k d i \<noteq> Some Ready \<and> slot_state k' i = term_state k d i) \<and>
          terminate_current_task k = Halted k' \<and> current_task_id k' = Some d)"
proof -
  let ?w = "wake_senders (mark_terminated (k\<lparr>mach := cli (mach k)\<rparr>))"
  let ?s = "(d + 1) mod MAX_TASKS"
  have s: "?s < MAX_TASKS" by (simp add: MAX_TASKS_def)
  have st: "slot_state ?w i = term_state k d i" if "i < MAX_TASKS" for i
    using wake_mark_state [of "k\<lparr>mach := cli (mach k)\<rparr>" d i] wf d that by simp
  have wfw: "kernel_wf ?w" using wf by (intro kernel_wf_wake_mark) simp
  then have len: "length (tasks ?w) = MAX_TASKS" by (simp add: kernel_wf_def)
  have cw: "current_task_id ?w = Some d" using d by (simp add: wake_senders_def mark_terminated_def)
  show ?thesis
  proof (cases "next_ready (tasks ?w) ?s")
    case None
    then have "terminate_current_task k = Halted ?w"
      using d by (simp add: terminate_current_task_def Let_def)
    moreover have "\<forall>i<MAX_TASKS. term_state k d i \<noteq> Some Ready"
      using None next_ready_None [OF s, of "tasks ?w"] st by (auto simp: is_ready_slot)
    ultimately show ?thesis using st cw by (simp add: k'_def)
  next
    case (Some n)
    note nr = next_ready_Some [OF Some s]
    obtain t where t: "tasks ?w ! n = Some t" "t_id t = n"
      using wfw nr(1,2) by (auto simp: is_ready_def kernel_wf_def task_wf_def split: option.splits)
    let ?m = "modify_slot n (set_state Running) ?w"
    have tm: "tasks ?m ! n = Some (set_state Running t)"
      using t nr(1) len by (simp add: modify_slot_def set_slot_def)
    have tl: "tasks (log_trace a x y (?m\<lparr>current_task_id := c\<rparr>)) ! n = Some (set_state Running t)" for a x y c
      using tm by (simp add: log_trace_def)
    have cur: "current_task_id k' = Some n"
      unfolding k'_def terminate_current_task_def Let_def
      using d Some tl tm t by (simp add: set_state_def log_trace_def split: prod.split)
    have ss: "slot_state k' i = slot_state ?m i" for i
      unfolding k'_def terminate_current_task_def Let_def
      using d Some tl tm t by (simp split: prod.split)
    have "slot_state ?m i = (if i = n then Some Running else term_state k d i)" if "i < MAX_TASKS" for i
      using that st len t by (simp add: slot_state_modify set_state_def)
    then have "\<forall>i<MAX_TASKS. slot_state k' i = (if i = n then Some Running else term_state k d i)"
      using ss by simp
    moreover have "term_state k d n = Some Ready"
      using nr(1,2) st by (simp add: is_ready_slot)
    moreover have "\<forall>j<MAX_TASKS. term_state k d j = Some Ready \<longrightarrow> cyc_dist ?s n \<le> cyc_dist ?s j"
      using nr(3) st by (simp add: is_ready_slot)
    ultimately show ?thesis using cur nr(1) by blast
  qed
qed

lemma running_inv_terminate:
  assumes "kernel_wf k" and "running_inv k" and "current_task_id k = Some d" and "d < MAX_TASKS"
    and "tasks k ! d \<noteq> None"
  shows "running_inv (term_kernel (terminate_current_task k))"
  using terminate_states [OF assms(1,3-5)]
proof (elim disjE exE conjE)
  fix n
  assume "current_task_id (term_kernel (terminate_current_task k)) = Some n"
    and "\<forall>i<MAX_TASKS. slot_state (term_kernel (terminate_current_task k)) i =
      (if i = n then Some Running else term_state k d i)"
  then show ?thesis
    using assms(2,3) by (simp add: running_inv_def term_state_def) blast
next
  assume "\<forall>i<MAX_TASKS. term_state k d i \<noteq> Some Ready \<and>
      slot_state (term_kernel (terminate_current_task k)) i = term_state k d i"
  then show ?thesis
    using assms(2,3) by (simp add: running_inv_def term_state_def) blast
qed

subsection \<open>Properties\<close>

text \<open>Any sequence of yields, preemptions (with the lock free or held) and terminations.\<close>

inductive sched_steps :: "kernel \<Rightarrow> kernel \<Rightarrow> bool" where
  sched_start: "sched_steps k k"
| sched_yield: "sched_steps k k1 \<Longrightarrow> sched_steps k (yield_cpu k1)"
| sched_preempt: "sched_steps k k1 \<Longrightarrow> sched_steps k (preempt_reschedule held k1)"
| sched_terminate: "sched_steps k k1 \<Longrightarrow> current_task_id k1 = Some d \<Longrightarrow> d < MAX_TASKS \<Longrightarrow> tasks k1 ! d \<noteq> None \<Longrightarrow>
    sched_steps k (term_kernel (terminate_current_task k1))"

text \<open>
  C8. At most one task runs. Whatever sequence of yields, timer preemptions and terminations the
  scheduler performs, the task table stays well formed, no two tasks are in the running state, and
  a task in the running state is the one the scheduler has recorded as current.
\<close>

theorem scheduler_runs_one_task:
  assumes "sched_steps k k'" "kernel_wf k" "running_inv k"
  shows "kernel_wf k' \<and>
    (\<forall>i<MAX_TASKS. slot_state k' i = Some Running \<longrightarrow> current_task_id k' = Some i \<and>
       (\<forall>j<MAX_TASKS. slot_state k' j = Some Running \<longrightarrow> j = i))"
proof -
  have "kernel_wf k' \<and> running_inv k'"
    using assms
  proof (induction rule: sched_steps.induct)
    case (sched_yield k k1)
    then show ?case using running_inv_yield kernel_wf_sched_rel [OF _ sched_rel_yield] by blast
  next
    case (sched_preempt k k1 held)
    then show ?case using running_inv_preempt kernel_wf_sched_rel [OF _ sched_rel_preempt] by blast
  next
    case (sched_terminate k k1 d)
    then show ?case using running_inv_terminate kernel_wf_sched_rel [OF _ sched_rel_terminate] by blast
  qed simp
  then have "kernel_wf k'" "running_inv k'" by auto
  then show ?thesis unfolding running_inv_def by (metis option.inject)
qed

lemma sample_slot_state:
  "i < MAX_TASKS \<Longrightarrow> slot_state (sample_kernel st) i = (if i = 1 then Some Running else if i = 2 then Some st else None)"
  by (simp add: slot_state_def sample_tasks)

lemma sample_running_inv: "running_inv (sample_kernel Ready)"
  by (auto simp: running_inv_def sample_slot_state split: if_splits)

theorem scheduler_runs_one_task_witness:
  "kernel_wf (yield_cpu (sample_kernel Ready)) \<and>
   {i. i < MAX_TASKS \<and> slot_state (yield_cpu (sample_kernel Ready)) i = Some Running} \<subseteq>
     {i. current_task_id (yield_cpu (sample_kernel Ready)) = Some i}"
  using scheduler_runs_one_task [OF sched_steps.sched_yield [OF sched_steps.sched_start] kernel_wf_sample sample_running_inv] by blast

text \<open>
  C9. No ready task starves. From any well-formed state in which some task is current, every ready
  task is running after at most as many yields as there are task slots.
\<close>

theorem round_robin_reaches_every_ready_task:
  assumes "kernel_wf k" "current_index k = Some c" "j < MAX_TASKS" "slot_state k j = Some Ready" "c \<noteq> j"
  shows "\<exists>n \<le> MAX_TASKS. current_task_id ((yield_cpu ^^ n) k) = Some j"
proof -
  obtain n where n: "n \<le> cyc_dist ((c + 1) mod MAX_TASKS) j + 1" "current_task_id ((yield_cpu ^^ n) k) = Some j"
    using yield_reaches [OF assms(1-4) refl assms(5)] by blast
  then show ?thesis using cyc_dist_less [of "(c + 1) mod MAX_TASKS" j] by (intro exI [of _ n]) linarith
qed

theorem round_robin_reaches_every_ready_task_witness:
  "\<exists>n \<le> MAX_TASKS. current_task_id ((yield_cpu ^^ n) (sample_kernel Ready)) = Some 2"
proof -
  have "current_index (sample_kernel Ready) = Some 1"
    by (simp add: current_index_def sample_tasks MAX_TASKS_def)
  then show ?thesis
    using round_robin_reaches_every_ready_task [OF kernel_wf_sample, of Ready 1 2] by (simp add: sample_slot_state MAX_TASKS_def)
qed

text \<open>
  Termination releases everybody who waits for the dying task. The current task becomes
  terminated; every task blocked in a send to it can run again; every other task keeps its state,
  except the one that is entered next, which is the nearest ready task in cyclic order. When
  somebody is ready somebody is entered.
\<close>

theorem termination_wakes_senders:
  assumes "kernel_wf k" "current_task_id k = Some d" "d < MAX_TASKS" "tasks k ! d \<noteq> None"
    and "k' = term_kernel (terminate_current_task k)"
  shows "slot_state k' d = Some Terminated \<and>
    (\<forall>i<MAX_TASKS. i \<noteq> d \<and> slot_state k i = Some (BlockedOnSend d) \<longrightarrow> slot_state k' i \<in> {Some Ready, Some Running}) \<and>
    (\<forall>i<MAX_TASKS. i \<noteq> d \<and> slot_state k i \<noteq> Some (BlockedOnSend d) \<and> slot_state k' i \<noteq> slot_state k i \<longrightarrow>
       current_task_id k' = Some i \<and> slot_state k i = Some Ready \<and> slot_state k' i = Some Running) \<and>
    ((\<exists>i<MAX_TASKS. term_state k d i = Some Ready) \<longrightarrow>
       (\<exists>n<MAX_TASKS. current_task_id k' = Some n \<and> term_state k d n = Some Ready \<and> slot_state k' n = Some Running \<and>
          (\<forall>j<MAX_TASKS. term_state k d j = Some Ready \<longrightarrow>
             cyc_dist ((d + 1) mod MAX_TASKS) n \<le> cyc_dist ((d + 1) mod MAX_TASKS) j)))"
  using terminate_states [OF assms(1-4)] unfolding assms(5) [symmetric]
proof (elim disjE exE conjE)
  fix n
  assume n: "n < MAX_TASKS" "term_state k d n = Some Ready" "current_task_id k' = Some n"
    and near: "\<forall>j<MAX_TASKS. term_state k d j = Some Ready \<longrightarrow>
       cyc_dist ((d + 1) mod MAX_TASKS) n \<le> cyc_dist ((d + 1) mod MAX_TASKS) j"
    and st: "\<forall>i<MAX_TASKS. slot_state k' i = (if i = n then Some Running else term_state k d i)"
  have "n \<noteq> d" using n(2) by (auto simp: term_state_def)
  then have "slot_state k' d = Some Terminated" using st assms(3) by (simp add: term_state_def)
  moreover have "slot_state k' i \<in> {Some Ready, Some Running}" if "i < MAX_TASKS" "i \<noteq> d" "slot_state k i = Some (BlockedOnSend d)" for i
    using st that by (simp add: term_state_def)
  moreover have "current_task_id k' = Some i \<and> slot_state k i = Some Ready \<and> slot_state k' i = Some Running"
    if "i < MAX_TASKS" "i \<noteq> d" "slot_state k i \<noteq> Some (BlockedOnSend d)" "slot_state k' i \<noteq> slot_state k i" for i
    using st that n by (auto simp: term_state_def split: if_splits)
  moreover have "slot_state k' n = Some Running" using st n(1) by simp
  ultimately show ?thesis using n near by blast
next
  assume st: "\<forall>i<MAX_TASKS. term_state k d i \<noteq> Some Ready \<and> slot_state k' i = term_state k d i"
  have "slot_state k i \<noteq> Some (BlockedOnSend d)" if "i < MAX_TASKS" "i \<noteq> d" for i
    using st that by (auto simp: term_state_def)
  then show ?thesis using st assms(3) by (auto simp: term_state_def)
qed

theorem termination_wakes_senders_witness:
  "slot_state (term_kernel (terminate_current_task (sample_kernel (BlockedOnSend 1)))) 1 = Some Terminated \<and>
   slot_state (term_kernel (terminate_current_task (sample_kernel (BlockedOnSend 1)))) 2 \<in> {Some Ready, Some Running}"
  using termination_wakes_senders [OF kernel_wf_sample [of "BlockedOnSend 1"] sample_current _ _ refl]
    sample_slot_state [of 2 "BlockedOnSend 1"]
  by (simp add: sample_tasks MAX_TASKS_def)

end
