(* ===== verification/Preempt.thy ===== *)
theory Preempt
  imports Scheduler
begin

text \<open>
  The preemption policy, \<open>preempt/mod.rs\<close>, and the timer interrupt of \<open>interrupts/mod.rs\<close> that
  consults it. \<open>lock_held\<close> says whether the interrupted code held the scheduler lock, which is
  what the two \<open>try_lock\<close> calls on this path observe.
\<close>

subsection \<open>Flags and regions\<close>

definition set_armed :: "bool \<Rightarrow> kernel \<Rightarrow> kernel" where
  "set_armed on k = k\<lparr>preempt := (preempt k)\<lparr>armed := on\<rparr>\<rparr>"

definition is_armed :: "kernel \<Rightarrow> bool" where
  "is_armed k = armed (preempt k)"

definition enter_critical :: "kernel \<Rightarrow> kernel" where
  "enter_critical k = k\<lparr>preempt := (preempt k)\<lparr>preempt_count := preempt_count (preempt k) + 1\<rparr>\<rparr>"

definition exit_critical :: "kernel \<Rightarrow> kernel" where
  "exit_critical k = k\<lparr>preempt := (preempt k)\<lparr>preempt_count := preempt_count (preempt k) - 1\<rparr>\<rparr>"

definition in_critical :: "kernel \<Rightarrow> bool" where
  "in_critical k \<longleftrightarrow> preempt_count (preempt k) \<noteq> 0"

definition enter_ipc_window :: "kernel \<Rightarrow> kernel" where
  "enter_ipc_window k = k\<lparr>preempt := (preempt k)\<lparr>in_ipc_window := True\<rparr>\<rparr>"

definition exit_ipc_window :: "kernel \<Rightarrow> kernel" where
  "exit_ipc_window k = k\<lparr>preempt := (preempt k)\<lparr>in_ipc_window := False\<rparr>\<rparr>"

text \<open>The scope guard: \<open>CriticalWindow::enter\<close> and its \<open>Drop\<close>.\<close>

definition CriticalWindow_enter :: "kernel \<Rightarrow> kernel" where
  "CriticalWindow_enter k = enter_ipc_window (enter_critical k)"

definition CriticalWindow_drop :: "kernel \<Rightarrow> kernel" where
  "CriticalWindow_drop k = exit_critical (exit_ipc_window k)"

subsection \<open>The deterministic adversary\<close>

definition arm_adversary :: "nat \<Rightarrow> nat \<Rightarrow> kernel \<Rightarrow> kernel" where
  "arm_adversary task slot k =
     k\<lparr>preempt := (preempt k)\<lparr>revoke_fired_in_window := False, pending_revoke_task := task,
                               pending_revoke := slot\<rparr>\<rparr>"

definition disarm_adversary :: "kernel \<Rightarrow> kernel" where
  "disarm_adversary k = k\<lparr>preempt := (preempt k)\<lparr>pending_revoke := NO_REVOKE\<rparr>\<rparr>"

definition adversary_fired_in_window :: "kernel \<Rightarrow> bool" where
  "adversary_fired_in_window k = revoke_fired_in_window (preempt k)"

definition maybe_fire_adversary :: "bool \<Rightarrow> kernel \<Rightarrow> kernel" where
  "maybe_fire_adversary lock_held k =
     (let slot = pending_revoke (preempt k) in
      if slot = NO_REVOKE then k
      else
        let task = pending_revoke_task (preempt k) in
        if lock_held then k
        else case get_task k task of
               None \<Rightarrow> k
             | Some t \<Rightarrow>
                 let (_, caps, k) = CapTable_kernel_revoke slot (t_caps t) k;
                     k = update_task task (\<lambda>t. t\<lparr>t_caps := caps\<rparr>) k
                 in k\<lparr>preempt := (preempt k)\<lparr>revoke_fired_in_window := True,
                                              pending_revoke := NO_REVOKE\<rparr>\<rparr>)"

subsection \<open>The tick\<close>

definition on_tick_should_switch :: "bool \<Rightarrow> kernel \<Rightarrow> bool \<times> kernel" where
  "on_tick_should_switch lock_held k =
     (let k = k\<lparr>preempt := (preempt k)\<lparr>ticks := ticks (preempt k) + 1\<rparr>\<rparr>;
          in_window = in_ipc_window (preempt k);
          k = (if in_window
               then k\<lparr>preempt := (preempt k)\<lparr>window_ticks := window_ticks (preempt k) + 1\<rparr>\<rparr>
               else k)
      in if \<not> armed (preempt k) then (False, k)
         else if preempt_count (preempt k) \<noteq> 0
         then (False, k\<lparr>preempt := (preempt k)\<lparr>deferred := deferred (preempt k) + 1\<rparr>\<rparr>)
         else (True, if in_window then maybe_fire_adversary lock_held k else k))"

definition reset_window_ticks :: "kernel \<Rightarrow> kernel" where
  "reset_window_ticks k = k\<lparr>preempt := (preempt k)\<lparr>window_ticks := 0\<rparr>\<rparr>"

text \<open>\<open>timer_isr\<close>; the acknowledgement to the interrupt controller is port output.\<close>

definition timer_isr :: "bool \<Rightarrow> kernel \<Rightarrow> kernel" where
  "timer_isr lock_held k =
     (let (switch, k) = on_tick_should_switch lock_held k
      in if switch then preempt_reschedule lock_held k else k)"

subsection \<open>Facts\<close>

lemma exit_enter_critical [simp]: "exit_critical (enter_critical k) = k"
  by (simp add: exit_critical_def enter_critical_def)

text \<open>What a window leaves behind: the count it found, and the flag cleared.\<close>

lemma CriticalWindow_balanced:
  "CriticalWindow_drop (CriticalWindow_enter k) = k\<lparr>preempt := (preempt k)\<lparr>in_ipc_window := False\<rparr>\<rparr>"
  by (simp add: CriticalWindow_drop_def CriticalWindow_enter_def exit_critical_def
      enter_critical_def exit_ipc_window_def enter_ipc_window_def)

lemma CriticalWindow_in_critical:
  "preempt_count (preempt k) \<noteq> -1 \<Longrightarrow> in_critical (CriticalWindow_enter k)"
  by (simp add: in_critical_def CriticalWindow_enter_def enter_critical_def enter_ipc_window_def
      eq_neg_iff_add_eq_0)

text \<open>
  Inside a non-preemptible region, and while preemption is not armed, a tick only counts.
\<close>

lemma timer_isr_deferred:
  assumes "in_critical k \<or> \<not> is_armed k"
  shows "timer_isr held k = k\<lparr>preempt := (preempt k)\<lparr>ticks := ticks (preempt k) + 1,
    window_ticks := window_ticks (preempt k) + (if in_ipc_window (preempt k) then 1 else 0),
    deferred := deferred (preempt k) + (if is_armed k then 1 else 0)\<rparr>\<rparr>"
  using assms
  by (cases "preempt k")
    (auto simp: timer_isr_def on_tick_should_switch_def in_critical_def is_armed_def Let_def)

lemma timer_isr_free:
  assumes "\<not> in_critical k" and "is_armed k" and "\<not> in_ipc_window (preempt k)"
  shows "timer_isr held k =
    preempt_reschedule held (k\<lparr>preempt := (preempt k)\<lparr>ticks := ticks (preempt k) + 1\<rparr>\<rparr>)"
  using assms by (simp add: timer_isr_def on_tick_should_switch_def in_critical_def is_armed_def Let_def)

lemma kernel_wf_preempt [simp]: "kernel_wf (k\<lparr>preempt := p\<rparr>) = kernel_wf k"
  by (simp add: kernel_wf_def)

subsection \<open>Properties\<close>

lemma ticks_reschedule: "ticks (preempt (preempt_reschedule held k)) = ticks (preempt k)"
proof -
  have "ticks (preempt (log_trace s x y k)) = ticks (preempt k)" for s x y k by (simp add: log_trace_def)
  moreover have "preempt (hand_over c n k) = preempt k" for c n k
    by (simp add: hand_over_def modify_slot_def set_slot_def Let_def split: option.split)
  moreover have "preempt (switch_context r x y k) = preempt k" for r x y k
    by (auto simp: switch_context_def modify_slot_def set_slot_def Let_def split: option.split prod.split)
  ultimately show ?thesis
    by (auto simp: preempt_reschedule_def note_deferred_locked_def note_preemption_def Let_def split: option.split)
qed

text \<open>
  A timer tick never takes the processor away inside a critical region. While the preemption
  count is not zero, while preemption is not armed, and while the interrupted code holds the
  scheduler lock, a tick leaves the task table and the current task as they are and only counts;
  otherwise, outside an IPC window, the nearest ready task is entered and the interrupted one stays
  ready.
\<close>

theorem tick_respects_critical_regions:
  assumes "kernel_wf k" "current_index k = Some c" "next_ready (tasks k) ((c + 1) mod MAX_TASKS) = Some n" "n \<noteq> c"
    and "\<not> in_ipc_window (preempt k)"
  shows "ticks (preempt (timer_isr held k)) = ticks (preempt k) + 1 \<and>
    (if in_critical k \<or> \<not> is_armed k \<or> held
     then tasks (timer_isr held k) = tasks k \<and> current_task_id (timer_isr held k) = current_task_id k
     else current_task_id (timer_isr held k) = Some n \<and>
       (\<forall>i<MAX_TASKS. slot_state (timer_isr held k) i = handed_state k c n i))"
proof (cases "in_critical k \<or> \<not> is_armed k")
  case True
  then have d: "in_critical k \<or> \<not> is_armed k \<or> held" by blast
  show ?thesis unfolding if_P [OF d] using timer_isr_deferred [OF True, of held] by simp
next
  case False
  let ?k = "k\<lparr>preempt := (preempt k)\<lparr>ticks := ticks (preempt k) + 1\<rparr>\<rparr>"
  have t: "timer_isr held k = preempt_reschedule held ?k" using False assms(5) by (intro timer_isr_free) auto
  have ticks: "ticks (preempt (timer_isr held k)) = ticks (preempt k) + 1" unfolding t ticks_reschedule by simp
  show ?thesis
  proof (cases held)
    case True
    then show ?thesis using ticks unfolding t by (simp add: preempt_reschedule_def note_deferred_locked_def)
  next
    case free: False
    have c: "current_index ?k = Some c" using current_index_Some [OF assms(2)] by (simp add: current_index_def)
    have "slot_state ?k = slot_state k" by (rule ext) (simp add: slot_state_def)
    then have h: "handed_state ?k c n i = handed_state k c n i" for i by (simp add: handed_state_def)
    have "current_task_id (preempt_reschedule False ?k) = Some n"
      by (rule preempt_switch(1) [OF _ c]) (use assms in simp_all)
    moreover have "slot_state (preempt_reschedule False ?k) i = handed_state k c n i" if "i < MAX_TASKS" for i
      using preempt_switch(2) [of ?k c n i] c assms that h by simp
    ultimately show ?thesis using ticks False free unfolding t by simp
  qed
qed

definition armed_kernel :: kernel where
  "armed_kernel = (sample_kernel Ready)\<lparr>preempt := preempt_init\<lparr>armed := True\<rparr>\<rparr>"

theorem tick_respects_critical_regions_witness:
  "current_task_id (timer_isr False armed_kernel) = Some 2 \<and>
   current_task_id (timer_isr False (enter_critical armed_kernel)) = Some 1"
proof -
  have wf: "kernel_wf armed_kernel" "kernel_wf (enter_critical armed_kernel)" by (simp_all add: armed_kernel_def enter_critical_def)
  have c: "current_index armed_kernel = Some 1" "current_index (enter_critical armed_kernel) = Some 1"
    by (simp_all add: armed_kernel_def enter_critical_def current_index_def sample_tasks MAX_TASKS_def)
  have s: "(1 + 1) mod MAX_TASKS < MAX_TASKS" by (simp add: MAX_TASKS_def)
  have ready: "is_ready (tasks (sample_kernel Ready) ! i) \<longleftrightarrow> i = 2" if "i < MAX_TASKS" for i
    using that by (simp add: is_ready_slot sample_slot_state)
  obtain n where n: "next_ready (tasks (sample_kernel Ready)) ((1 + 1) mod MAX_TASKS) = Some n"
    using next_ready_None [OF s, of "tasks (sample_kernel Ready)"] ready [of 2] by (force simp: MAX_TASKS_def)
  have "n = 2" using next_ready_Some(1,2) [OF n s] ready by simp
  then have nr: "next_ready (tasks armed_kernel) ((1 + 1) mod MAX_TASKS) = Some 2"
    "next_ready (tasks (enter_critical armed_kernel)) ((1 + 1) mod MAX_TASKS) = Some 2"
    using n by (simp_all add: armed_kernel_def enter_critical_def)
  show ?thesis
    using tick_respects_critical_regions [OF wf(1) c(1) nr(1), of False]
      tick_respects_critical_regions [OF wf(2) c(2) nr(2), of False]
    by (simp add: armed_kernel_def enter_critical_def preempt_init_def in_critical_def is_armed_def)
qed

lemma kernel_wf_maybe_fire: "kernel_wf k \<Longrightarrow> kernel_wf (maybe_fire_adversary held k)"
proof (cases "get_task k (pending_revoke_task (preempt k))")
  case None
  assume "kernel_wf k"
  then show ?thesis using None by (simp add: maybe_fire_adversary_def Let_def)
next
  case (Some t)
  assume wf: "kernel_wf k"
  let ?i = "pending_revoke_task (preempt k)" and ?s = "pending_revoke (preempt k)"
  obtain d caps k1 where r: "CapTable_kernel_revoke ?s (t_caps t) k = (d, caps, k1)" using prod_cases3 by blast
  have "cap_table_wf (t_caps t)" using kernel_wf_task [OF wf Some] by (simp add: task_wf_def)
  then have c: "cap_table_wf caps" using CapTable_kernel_revoke_wf r by blast
  have "kernel_wf k1" using same_but_trace_kernel(7) [OF CapTable_kernel_revoke_same [OF r]] wf by simp
  then have "kernel_wf (update_task ?i (\<lambda>t. t\<lparr>t_caps := caps\<rparr>) k1)"
    by (rule kernel_wf_update_task) (use c in \<open>auto simp: task_wf_def\<close>)
  then show ?thesis using wf Some r by (simp add: maybe_fire_adversary_def Let_def)
qed

lemma kernel_wf_timer_isr: "kernel_wf k \<Longrightarrow> kernel_wf (timer_isr held k)"
  using kernel_wf_maybe_fire kernel_wf_sched_rel [OF _ sched_rel_preempt]
  by (simp add: timer_isr_def on_tick_should_switch_def Let_def)

end
