(* ===== verification/IPC.thy ===== *)
theory IPC
  imports Preempt
begin

text \<open>
  Rendezvous and asynchronous message passing, \<open>process/ipc.rs\<close>. A blocking call is a loop whose
  body ends by returning or by yielding the processor, so each is given by the part before the
  loop, one iteration of the loop up to the return or the yield, and, for a send, the check made
  when the yield returns. \<open>Parked\<close> is an iteration that goes on to yield. Results are sums with
  the error on the left.
\<close>

subsection \<open>Validation\<close>

definition resolve_target_locked :: "kernel \<Rightarrow> task_id \<Rightarrow> nat \<Rightarrow> (ipc_error + task_id) \<times> kernel" where
  "resolve_target_locked k current cap_idx =
     (case get_task k current of
        None \<Rightarrow> (Inl NoContext, k)
      | Some task \<Rightarrow>
          (case CapTable_get (t_caps task) cap_idx k of
             (None, k) \<Rightarrow> (Inl NoCapability, k)
           | (Some cap, k) \<Rightarrow>
               (case cap_resource cap of
                  IpcChannel target \<Rightarrow> (Inr target, k)
                | _ \<Rightarrow> (Inl NoCapability, k))))"

text \<open>The checks both send calls make before they touch the task table.\<close>

definition check_send :: "u16 \<Rightarrow> u16 \<Rightarrow> bytes \<Rightarrow> ipc_error + ipc_tag" where
  "check_send tag version payload =
     (if length payload > PAYLOAD_MAX then Inl PayloadTooLarge
      else case IpcTag_from_u16 tag of
             None \<Rightarrow> Inl InvalidTag
           | Some tg \<Rightarrow> if version = 0xFFFF then Inl BadVersion else Inr tg)"

subsection \<open>Blocking send\<close>

datatype send_step = Delivered | Gone | Blocked

datatype 'a progress = Done "ipc_error + 'a" | Parked

definition send_begin ::
  "nat \<Rightarrow> u16 \<Rightarrow> u16 \<Rightarrow> bytes \<Rightarrow> kernel \<Rightarrow> (ipc_error + task_id \<times> message) \<times> kernel" where
  "send_begin cap_idx tag version payload k =
     (case check_send tag version payload of
        Inl e \<Rightarrow> (Inl e, k)
      | Inr tg \<Rightarrow>
          (case current_task_id k of
             None \<Rightarrow> (Inl NoContext, k)
           | Some cur \<Rightarrow>
               (Inr (cur, make_message cur tg version payload),
                log_trace ''ipc_send'' (of_nat cap_idx) (ucast (tag_to_u16 tg)) k)))"

text \<open>The validate-and-use region: everything between entering and leaving the window.\<close>

definition send_region ::
  "task_id \<Rightarrow> nat \<Rightarrow> message \<Rightarrow> kernel \<Rightarrow> (ipc_error + send_step) \<times> kernel" where
  "send_region cur cap_idx msg k =
     (let k = CriticalWindow_enter k;
          (r, k) = (case resolve_target_locked k cur cap_idx of
             (Inl e, k) \<Rightarrow> (Inl e, update_task cur (\<lambda>t. t\<lparr>t_ipc_buffer := None\<rparr>) k)
           | (Inr target, k) \<Rightarrow>
               (case map_option t_state (get_task k target) of
                  None \<Rightarrow> (Inr Gone, k)
                | Some Terminated \<Rightarrow> (Inr Gone, k)
                | Some BlockedOnReceive \<Rightarrow>
                    (let k = update_task target
                               (\<lambda>t. t\<lparr>t_ipc_buffer := Some msg, t_state := Ready\<rparr>) k
                     in (Inr Delivered, k\<lparr>ipc_deliveries := ipc_deliveries k + 1\<rparr>))
                | Some _ \<Rightarrow>
                    (Inr Blocked, update_task cur
                       (\<lambda>t. t\<lparr>t_state := BlockedOnSend target, t_ipc_buffer := Some msg\<rparr>) k)))
      in (r, CriticalWindow_drop k))"

definition send_iter :: "task_id \<Rightarrow> nat \<Rightarrow> message \<Rightarrow> kernel \<Rightarrow> unit progress \<times> kernel" where
  "send_iter cur cap_idx msg k =
     (case send_region cur cap_idx msg k of
        (Inl e, k) \<Rightarrow> (Done (Inl e), k)
      | (Inr Delivered, k) \<Rightarrow> (Done (Inr ()), k)
      | (Inr Gone, k) \<Rightarrow>
          (Done (Inl TargetGone), update_task cur (\<lambda>t. t\<lparr>t_ipc_buffer := None\<rparr>) k)
      | (Inr Blocked, k) \<Rightarrow> (Parked, k))"

text \<open>
  After the yield returns: a cleared buffer means the message was consumed, otherwise the loop
  goes round again (\<open>Parked\<close>).
\<close>

definition send_resume :: "task_id \<Rightarrow> kernel \<Rightarrow> unit progress" where
  "send_resume cur k =
     (case get_task k cur of
        None \<Rightarrow> Done (Inl TargetGone)
      | Some t \<Rightarrow> if t_ipc_buffer t = None then Done (Inr ()) else Parked)"

text \<open>The call up to its first return or yield.\<close>

definition sys_send_typed :: "nat \<Rightarrow> u16 \<Rightarrow> u16 \<Rightarrow> bytes \<Rightarrow> kernel \<Rightarrow> unit progress \<times> kernel" where
  "sys_send_typed cap_idx tag version payload k =
     (case send_begin cap_idx tag version payload k of
        (Inl e, k) \<Rightarrow> (Done (Inl e), k)
      | (Inr (cur, msg), k) \<Rightarrow> send_iter cur cap_idx msg k)"

subsection \<open>Receive\<close>

text \<open>Steps 1 and 2: the message queue, then the task's own buffer.\<close>

definition take_own :: "task \<Rightarrow> message option \<times> task" where
  "take_own t =
     (case MessageQueue_dequeue (t_msg_queue t) of
        (Some m, q) \<Rightarrow> (Some m, t\<lparr>t_msg_queue := q\<rparr>)
      | (None, q) \<Rightarrow> (t_ipc_buffer t, t\<lparr>t_msg_queue := q, t_ipc_buffer := None\<rparr>))"

text \<open>Step 3: the first task blocked sending to the receiver.\<close>

definition blocked_on :: "task_id \<Rightarrow> task option \<Rightarrow> bool" where
  "blocked_on cur s = (case s of Some t \<Rightarrow> t_state t = BlockedOnSend cur | None \<Rightarrow> False)"

definition find_sender :: "kernel \<Rightarrow> task_id \<Rightarrow> task_id option" where
  "find_sender k cur =
     (case first_index (blocked_on cur) (tasks k) of
        Some i \<Rightarrow> map_option t_id (tasks k ! i)
      | None \<Rightarrow> None)"

definition take_from_sender :: "task_id \<Rightarrow> task_id \<Rightarrow> kernel \<Rightarrow> (ipc_error + message) \<times> kernel" where
  "take_from_sender cur sender k =
     (let msg = (case get_task k sender of Some t \<Rightarrow> t_ipc_buffer t | None \<Rightarrow> None);
          k = update_task sender (\<lambda>t. t\<lparr>t_ipc_buffer := None, t_state := Ready\<rparr>) k;
          k = update_task cur (\<lambda>t. t\<lparr>t_state := Running\<rparr>) k;
          k = (if msg \<noteq> None then k\<lparr>ipc_deliveries := ipc_deliveries k + 1\<rparr> else k)
      in (case msg of Some m \<Rightarrow> Inr m | None \<Rightarrow> Inl TargetGone, k))"

text \<open>Steps 1 to 3, common to the blocking and the polling receive.\<close>

definition take_message :: "task_id \<Rightarrow> kernel \<Rightarrow> (ipc_error + message) option \<times> kernel" where
  "take_message cur k =
     (case map_option take_own (get_task k cur) of
        Some (Some m, t) \<Rightarrow> (Some (Inr m), update_task cur (\<lambda>_. t) k)
      | own \<Rightarrow>
          let k = (case own of Some (_, t) \<Rightarrow> update_task cur (\<lambda>_. t) k | None \<Rightarrow> k)
          in (case find_sender k cur of
                Some sender \<Rightarrow>
                  (case take_from_sender cur sender k of (r, k) \<Rightarrow> (Some r, k))
              | None \<Rightarrow> (None, k)))"

definition receive_begin :: "kernel \<Rightarrow> (ipc_error + task_id) \<times> kernel" where
  "receive_begin k =
     (case current_task_id k of
        None \<Rightarrow> (Inl NoContext, k)
      | Some cur \<Rightarrow> (Inr cur, log_trace ''ipc_receive'' (of_nat cur) 0 k))"

definition receive_iter :: "task_id \<Rightarrow> kernel \<Rightarrow> message progress \<times> kernel" where
  "receive_iter cur k =
     (case take_message cur k of
        (Some r, k) \<Rightarrow> (Done r, k)
      | (None, k) \<Rightarrow> (Parked, update_task cur (\<lambda>t. t\<lparr>t_state := BlockedOnReceive\<rparr>) k))"

definition sys_receive_typed :: "kernel \<Rightarrow> message progress \<times> kernel" where
  "sys_receive_typed k =
     (case receive_begin k of
        (Inl e, k) \<Rightarrow> (Done (Inl e), k)
      | (Inr cur, k) \<Rightarrow> receive_iter cur k)"

subsection \<open>Asynchronous send and polling receive\<close>

definition sys_send_async :: "nat \<Rightarrow> u16 \<Rightarrow> u16 \<Rightarrow> bytes \<Rightarrow> kernel \<Rightarrow> (ipc_error + unit) \<times> kernel" where
  "sys_send_async cap_idx tag version payload k =
     (case check_send tag version payload of
        Inl e \<Rightarrow> (Inl e, k)
      | Inr tg \<Rightarrow>
          (case current_task_id k of
             None \<Rightarrow> (Inl NoContext, k)
           | Some cur \<Rightarrow>
               let k = log_trace ''ipc_send_async'' (of_nat cap_idx) (ucast (tag_to_u16 tg)) k;
                   msg = make_message cur tg version payload;
                   k = enter_critical k;
                   (r, k) = (case resolve_target_locked k cur cap_idx of
                      (Inl e, k) \<Rightarrow> (Inl e, k)
                    | (Inr target, k) \<Rightarrow>
                        (case get_task k target of
                           None \<Rightarrow> (Inl TargetGone, k)
                         | Some t \<Rightarrow>
                             if t_state t = Terminated then (Inl TargetGone, k)
                             else
                               (case MessageQueue_enqueue msg (t_msg_queue t) of
                                  Some q \<Rightarrow>
                                    (Inr (), (update_task target
                                       (\<lambda>t. t\<lparr>t_msg_queue := q,
                                              t_state := (if t_state t = BlockedOnReceive then Ready
                                                          else t_state t)\<rparr>) k)
                                       \<lparr>ipc_deliveries := ipc_deliveries k + 1\<rparr>)
                                | None \<Rightarrow> (Inl QueueFull, k))))
               in (r, exit_critical k)))"

definition sys_receive_async :: "kernel \<Rightarrow> (ipc_error + message) \<times> kernel" where
  "sys_receive_async k =
     (case current_task_id k of
        None \<Rightarrow> (Inl NoContext, k)
      | Some cur \<Rightarrow>
          (case take_message cur (log_trace ''ipc_receive_async'' (of_nat cur) 0 k) of
             (Some r, k) \<Rightarrow> (r, k)
           | (None, k) \<Rightarrow> (Inl NoMessage, k)))"

subsection \<open>Compatibility shims\<close>

text \<open>The untyped calls erase the error.\<close>

definition untyped :: "'a progress \<Rightarrow> 'a option progress" where
  "untyped p = (case p of Done (Inr x) \<Rightarrow> Done (Inr (Some x)) | Done (Inl _) \<Rightarrow> Done (Inr None) | Parked \<Rightarrow> Parked)"

definition sys_send :: "nat \<Rightarrow> bytes \<Rightarrow> kernel \<Rightarrow> unit option progress \<times> kernel" where
  "sys_send cap_idx payload k =
     (case sys_send_typed cap_idx (tag_to_u16 Raw) 0 payload k of (p, k) \<Rightarrow> (untyped p, k))"

definition sys_receive :: "kernel \<Rightarrow> message option progress \<times> kernel" where
  "sys_receive k = (case sys_receive_typed k of (p, k) \<Rightarrow> (untyped p, k))"

subsection \<open>Authority\<close>

text \<open>The task that slot \<open>cap_idx\<close> of the table of \<open>cur\<close> lets it send to.\<close>

definition authorised :: "kernel \<Rightarrow> task_id \<Rightarrow> nat \<Rightarrow> task_id option" where
  "authorised k cur cap_idx =
     (case get_task k cur of
        Some t \<Rightarrow> (case cap_at (t_caps t) cap_idx of
                     Some c \<Rightarrow> (case cap_resource c of IpcChannel tg \<Rightarrow> Some tg | _ \<Rightarrow> None)
                   | None \<Rightarrow> None)
      | None \<Rightarrow> None)"

definition refusal :: "kernel \<Rightarrow> task_id \<Rightarrow> ipc_error" where
  "refusal k cur = (if get_task k cur = None then NoContext else NoCapability)"

lemma resolve_eq:
  "\<exists>tr. resolve_target_locked k cur idx =
     (case authorised k cur idx of Some tg \<Rightarrow> Inr tg | None \<Rightarrow> Inl (refusal k cur), k\<lparr>trace := tr\<rparr>)"
proof (cases "get_task k cur")
  case None
  then have "resolve_target_locked k cur idx =
     (case authorised k cur idx of Some tg \<Rightarrow> Inr tg | None \<Rightarrow> Inl (refusal k cur), k\<lparr>trace := trace k\<rparr>)"
    by (simp add: resolve_target_locked_def authorised_def refusal_def)
  then show ?thesis by blast
next
  case (Some t)
  obtain c k1 where g: "CapTable_get (t_caps t) idx k = (c, k1)" by fastforce
  have c: "c = cap_at (t_caps t) idx" using CapTable_get_fst [of "t_caps t" idx k] g by simp
  have k1: "k1 = k\<lparr>trace := trace k1\<rparr>"
    using CapTable_get_same [of k "t_caps t" idx] g by (simp add: same_but_trace_def)
  have "resolve_target_locked k cur idx =
     (case authorised k cur idx of Some tg \<Rightarrow> Inr tg | None \<Rightarrow> Inl (refusal k cur), k1)"
    using Some g c
    by (auto simp: resolve_target_locked_def authorised_def refusal_def split: option.splits resource.splits)
  then show ?thesis using k1 by metis
qed

lemma authorised_simps [simp]:
  "authorised (k\<lparr>preempt := p\<rparr>) c i = authorised k c i" "refusal (k\<lparr>preempt := p\<rparr>) c = refusal k c"
  by (simp_all add: authorised_def refusal_def get_task_def cong: option.case_cong)

lemma get_task_simps [simp]:
  "get_task (k\<lparr>preempt := p\<rparr>) i = get_task k i"
  "get_task (k\<lparr>trace := tr\<rparr>) i = get_task k i"
  "get_task (k\<lparr>ipc_deliveries := n\<rparr>) i = get_task k i"
  "get_task (k\<lparr>mach := m\<rparr>) i = get_task k i"
  "get_task (k\<lparr>current_task_id := c\<rparr>) i = get_task k i"
  "get_task (k\<lparr>audit := a\<rparr>) i = get_task k i"
  by (simp_all add: get_task_def cong: option.case_cong)

lemma update_task_commute [simp]:
  "update_task i f (k\<lparr>preempt := p\<rparr>) = (update_task i f k)\<lparr>preempt := p\<rparr>"
  "update_task i f (k\<lparr>trace := tr\<rparr>) = (update_task i f k)\<lparr>trace := tr\<rparr>"
  by (simp_all add: update_task_def set_slot_def split: option.split)

subsection \<open>The send region\<close>

text \<open>
  The state a region starts its single change from: the kernel it found, but for the trace and the
  closed window.
\<close>

definition windowed :: "trace_state \<Rightarrow> kernel \<Rightarrow> kernel" where
  "windowed tr k = k\<lparr>trace := tr, preempt := (preempt k)\<lparr>in_ipc_window := False\<rparr>\<rparr>"

lemma CriticalWindow_enter_eq:
  "CriticalWindow_enter k = k\<lparr>preempt := (preempt k)\<lparr>preempt_count := preempt_count (preempt k) + 1,
     in_ipc_window := True\<rparr>\<rparr>"
  by (simp add: CriticalWindow_enter_def enter_critical_def enter_ipc_window_def)

lemma CriticalWindow_drop_eq:
  "CriticalWindow_drop k = k\<lparr>preempt := (preempt k)\<lparr>preempt_count := preempt_count (preempt k) - 1,
     in_ipc_window := False\<rparr>\<rparr>"
  by (simp add: CriticalWindow_drop_def exit_critical_def exit_ipc_window_def)

definition region_result ::
  "trace_state \<Rightarrow> task_id \<Rightarrow> nat \<Rightarrow> message \<Rightarrow> kernel \<Rightarrow> (ipc_error + send_step) \<times> kernel" where
  "region_result tr cur idx msg k =
     (case authorised k cur idx of
        None \<Rightarrow> (Inl (refusal k cur), update_task cur (\<lambda>t. t\<lparr>t_ipc_buffer := None\<rparr>) (windowed tr k))
      | Some tg \<Rightarrow>
          (case map_option t_state (get_task k tg) of
             None \<Rightarrow> (Inr Gone, windowed tr k)
           | Some Terminated \<Rightarrow> (Inr Gone, windowed tr k)
           | Some BlockedOnReceive \<Rightarrow>
               (Inr Delivered, (update_task tg (\<lambda>t. t\<lparr>t_ipc_buffer := Some msg, t_state := Ready\<rparr>)
                  (windowed tr k))\<lparr>ipc_deliveries := ipc_deliveries k + 1\<rparr>)
           | Some _ \<Rightarrow>
               (Inr Blocked, update_task cur
                  (\<lambda>t. t\<lparr>t_state := BlockedOnSend tg, t_ipc_buffer := Some msg\<rparr>) (windowed tr k))))"

lemma send_region_eq: "\<exists>tr. send_region cur idx msg k = region_result tr cur idx msg k"
proof -
  let ?k = "CriticalWindow_enter k"
  have a: "authorised ?k cur idx = authorised k cur idx" "refusal ?k cur = refusal k cur"
    by (simp_all add: CriticalWindow_enter_eq)
  obtain tr where r: "resolve_target_locked ?k cur idx =
     (case authorised k cur idx of Some tg \<Rightarrow> Inr tg | None \<Rightarrow> Inl (refusal k cur), ?k\<lparr>trace := tr\<rparr>)"
    using resolve_eq [of ?k cur idx] unfolding a by blast
  have upd: "CriticalWindow_drop (update_task i f (?k\<lparr>trace := tr\<rparr>)) = update_task i f (windowed tr k)"
    for i f by (simp add: CriticalWindow_enter_eq CriticalWindow_drop_eq windowed_def)
  have nop: "CriticalWindow_drop (?k\<lparr>trace := tr\<rparr>) = windowed tr k"
    by (simp add: CriticalWindow_enter_eq CriticalWindow_drop_eq windowed_def)
  have del: "CriticalWindow_drop (k'\<lparr>ipc_deliveries := n\<rparr>) = (CriticalWindow_drop k')\<lparr>ipc_deliveries := n\<rparr>"
    for k' n by (simp add: CriticalWindow_drop_eq)
  have get: "get_task (?k\<lparr>trace := tr\<rparr>) i = get_task k i" for i
    by (simp add: CriticalWindow_enter_eq)
  have dl: "ipc_deliveries (update_task i f (?k\<lparr>trace := tr\<rparr>)) = ipc_deliveries k" for i f
    by (simp add: CriticalWindow_enter_eq update_task_def set_slot_def split: option.split)
  have "send_region cur idx msg k = region_result tr cur idx msg k"
    unfolding send_region_def region_result_def Let_def
    by (simp only: r prod.case get)
      (auto simp: upd nop del dl get simp del: update_task_commute split: option.split task_state.split)
  then show ?thesis by blast
qed

lemma windowed_frame [simp]:
  "get_task (windowed tr k) i = get_task k i" "tasks (windowed tr k) = tasks k"
  "ipc_deliveries (windowed tr k) = ipc_deliveries k" "audit (windowed tr k) = audit k"
  "current_task_id (windowed tr k) = current_task_id k" "mach (windowed tr k) = mach k"
  by (simp_all add: windowed_def)

lemma update_task_deliveries [simp]: "ipc_deliveries (update_task i f k) = ipc_deliveries k"
  by (simp add: update_task_def set_slot_def split: option.split)

text \<open>The four outcomes of one iteration of a send.\<close>

lemma send_iter_refused:
  assumes "authorised k cur idx = None" and "send_iter cur idx msg k = (r, k')"
  shows "r = Done (Inl (refusal k cur))"
    and "get_task k' j = (if j = cur then map_option (\<lambda>t. t\<lparr>t_ipc_buffer := None\<rparr>) (get_task k cur)
                          else get_task k j)"
  using send_region_eq [of cur idx msg k, unfolded region_result_def] assms
  by (auto simp: send_iter_def get_task_update_task)

lemma send_iter_gone:
  assumes "authorised k cur idx = Some tg" and "get_task k tg = None \<or> map_option t_state (get_task k tg) = Some Terminated"
    and "send_iter cur idx msg k = (r, k')"
  shows "r = Done (Inl TargetGone)"
    and "get_task k' j = (if j = cur then map_option (\<lambda>t. t\<lparr>t_ipc_buffer := None\<rparr>) (get_task k cur)
                          else get_task k j)"
  using send_region_eq [of cur idx msg k, unfolded region_result_def] assms
  by (auto simp: send_iter_def get_task_update_task)

lemma send_iter_delivers:
  assumes "authorised k cur idx = Some tg" and "get_task k tg = Some t" and "t_state t = BlockedOnReceive"
    and "send_iter cur idx msg k = (r, k')"
  shows "r = Done (Inr ())"
    and "get_task k' j = (if j = tg then Some (t\<lparr>t_ipc_buffer := Some msg, t_state := Ready\<rparr>)
                          else get_task k j)"
    and "ipc_deliveries k' = ipc_deliveries k + 1"
  using send_region_eq [of cur idx msg k, unfolded region_result_def] assms
  by (auto simp: send_iter_def get_task_update_task)

lemma send_iter_parks:
  assumes "authorised k cur idx = Some tg" and "get_task k tg = Some t"
    and "t_state t \<notin> {BlockedOnReceive, Terminated}" and "send_iter cur idx msg k = (r, k')"
  shows "r = Parked"
    and "get_task k' j = (if j = cur then
            map_option (\<lambda>t. t\<lparr>t_state := BlockedOnSend tg, t_ipc_buffer := Some msg\<rparr>) (get_task k cur)
          else get_task k j)"
  using send_region_eq [of cur idx msg k, unfolded region_result_def] assms
  by (cases "t_state t"; auto simp: send_iter_def get_task_update_task)+

text \<open>A send that succeeds at once delivered under a channel capability held at that moment.\<close>

lemma send_iter_Ok:
  "fst (send_iter cur idx msg k) = Done (Inr ()) \<longleftrightarrow>
   (\<exists>tg t. authorised k cur idx = Some tg \<and> get_task k tg = Some t \<and> t_state t = BlockedOnReceive)"
proof -
  obtain tr where eq: "send_region cur idx msg k = region_result tr cur idx msg k"
    using send_region_eq by blast
  show ?thesis
    unfolding send_iter_def eq region_result_def
    by (auto split: option.split task_state.split)
qed

subsection \<open>Receiving\<close>

lemma find_sender_Some:
  assumes "kernel_wf k" and "find_sender k cur = Some s"
  shows "s < MAX_TASKS" and "slot_state k s = Some (BlockedOnSend cur)"
    and "\<And>j. j < s \<Longrightarrow> slot_state k j \<noteq> Some (BlockedOnSend cur)"
proof -
  obtain i t where i: "first_index (blocked_on cur) (tasks k) = Some i" "tasks k ! i = Some t" "t_id t = s"
    using assms(2) by (auto simp: find_sender_def split: option.splits)
  have lt: "i < MAX_TASKS" using i(1) assms(1) by (auto simp: first_index_Some kernel_wf_def)
  then have eq: "i = s" using assms(1) i by (auto simp: kernel_wf_def task_wf_def)
  show "s < MAX_TASKS" using lt eq by simp
  show "slot_state k s = Some (BlockedOnSend cur)"
    using i eq by (simp add: first_index_Some blocked_on_def slot_state_def)
  show "slot_state k j \<noteq> Some (BlockedOnSend cur)" if "j < s" for j
    using i(1) eq that by (auto simp: first_index_Some blocked_on_def slot_state_def)
qed

lemma find_sender_None:
  "kernel_wf k \<Longrightarrow> find_sender k cur = None \<longleftrightarrow> (\<forall>j<MAX_TASKS. slot_state k j \<noteq> Some (BlockedOnSend cur))"
proof -
  assume wf: "kernel_wf k"
  have ex: "tasks k ! i \<noteq> None" if "first_index (blocked_on cur) (tasks k) = Some i" for i
    using that by (auto simp: first_index_Some blocked_on_def split: option.splits)
  have "find_sender k cur = None \<longleftrightarrow> first_index (blocked_on cur) (tasks k) = None"
    using ex by (auto simp: find_sender_def split: option.splits)
  also have "\<dots> \<longleftrightarrow> (\<forall>j<MAX_TASKS. slot_state k j \<noteq> Some (BlockedOnSend cur))"
    using wf by (auto simp: first_index_None all_set_conv_all_nth kernel_wf_def blocked_on_def
        slot_state_def split: option.splits)
  finally show ?thesis .
qed

lemma find_sender_least:
  assumes "kernel_wf k" and "s < MAX_TASKS" and "slot_state k s = Some (BlockedOnSend cur)"
    and "\<And>j. j < s \<Longrightarrow> slot_state k j \<noteq> Some (BlockedOnSend cur)"
  shows "find_sender k cur = Some s"
proof -
  obtain s' where s': "find_sender k cur = Some s'"
    using find_sender_None [OF assms(1)] assms(2,3) by fastforce
  then show ?thesis
    using find_sender_Some [OF assms(1) s'] assms(3,4) by (metis linorder_neqE_nat)
qed

lemma slot_state_get_task:
  "kernel_wf k \<Longrightarrow> i < MAX_TASKS \<Longrightarrow> slot_state k i = map_option t_state (get_task k i)"
  by (simp add: kernel_wf_get_task slot_state_def)

lemma take_own_queue:
  assumes "queue_inv (t_msg_queue t)" and "queue_contents (t_msg_queue t) = m # ms"
  shows "\<exists>q. take_own t = (Some m, t\<lparr>t_msg_queue := q\<rparr>) \<and> queue_inv q \<and> queue_contents q = ms"
proof -
  obtain r q where d: "MessageQueue_dequeue (t_msg_queue t) = (r, q)" by fastforce
  show ?thesis
    using dequeue_result [OF assms(1) d] dequeue_inv [OF assms(1) d] assms(2) d
    by (intro exI [of _ q]) (simp add: take_own_def)
qed

lemma take_own_buffer:
  assumes "queue_inv (t_msg_queue t)" and "queue_contents (t_msg_queue t) = []"
  shows "take_own t = (t_ipc_buffer t, t\<lparr>t_ipc_buffer := None\<rparr>)"
proof -
  obtain r q where d: "MessageQueue_dequeue (t_msg_queue t) = (r, q)" by fastforce
  show ?thesis
    using dequeue_result [OF assms(1) d] assms(2) d by (simp add: take_own_def)
qed

lemma take_message_queue:
  assumes "kernel_wf k" and "get_task k cur = Some t" and "queue_contents (t_msg_queue t) = m # ms"
    and "take_message cur k = (r, k')"
  shows "r = Some (Inr m)"
    and "\<exists>q. queue_contents q = ms \<and> queue_inv q \<and> k' = update_task cur (\<lambda>_. t\<lparr>t_msg_queue := q\<rparr>) k"
proof -
  have "queue_inv (t_msg_queue t)" using kernel_wf_task [OF assms(1,2)] by (simp add: task_wf_def)
  then obtain q where q: "take_own t = (Some m, t\<lparr>t_msg_queue := q\<rparr>)" "queue_inv q" "queue_contents q = ms"
    using take_own_queue assms(3) by blast
  then show "r = Some (Inr m)"
    and "\<exists>q. queue_contents q = ms \<and> queue_inv q \<and> k' = update_task cur (\<lambda>_. t\<lparr>t_msg_queue := q\<rparr>) k"
    using assms(2,4) by (auto simp: take_message_def)
qed

lemma take_message_buffer:
  assumes "kernel_wf k" and "get_task k cur = Some t" and "queue_contents (t_msg_queue t) = []"
    and "t_ipc_buffer t = Some m"
  shows "take_message cur k = (Some (Inr m), update_task cur (\<lambda>_. t\<lparr>t_ipc_buffer := None\<rparr>) k)"
proof -
  have "queue_inv (t_msg_queue t)" using kernel_wf_task [OF assms(1,2)] by (simp add: task_wf_def)
  then show ?thesis using take_own_buffer [of t] assms by (simp add: take_message_def)
qed

lemma update_task_id:
  assumes "get_task k i = Some t"
  shows "update_task i (\<lambda>_. t) k = k"
proof -
  have "tasks k ! i = Some t" "i < length (tasks k)" using get_task_in_range [OF assms] by simp_all
  then have "(tasks k)[i := Some t] = tasks k" by (metis list_update_id)
  then show ?thesis using assms by (simp add: update_task_def set_slot_def)
qed

lemma take_message_sender:
  assumes "kernel_wf k" and "get_task k cur = Some t" and "queue_contents (t_msg_queue t) = []"
    and "t_ipc_buffer t = None"
  shows "take_message cur k =
    (case find_sender k cur of
       Some s \<Rightarrow> (Some (fst (take_from_sender cur s k)), snd (take_from_sender cur s k))
     | None \<Rightarrow> (None, k))"
proof -
  have "queue_inv (t_msg_queue t)" using kernel_wf_task [OF assms(1,2)] by (simp add: task_wf_def)
  then have "take_own t = (None, t)" using take_own_buffer [of t] assms by (cases t) simp
  then show ?thesis
    using assms(2) update_task_id [OF assms(2)]
    by (simp add: take_message_def split: option.split prod.split)
qed

lemma take_from_sender_spec:
  assumes "get_task k s = Some t" and "t_ipc_buffer t = Some m" and "s \<noteq> cur"
    and "take_from_sender cur s k = (r, k')"
  shows "r = Inr m"
    and "get_task k' j =
      (if j = cur then map_option (\<lambda>t. t\<lparr>t_state := Running\<rparr>) (get_task k cur)
       else if j = s then Some (t\<lparr>t_ipc_buffer := None, t_state := Ready\<rparr>) else get_task k j)"
    and "ipc_deliveries k' = ipc_deliveries k + 1"
  using assms by (auto simp: take_from_sender_def Let_def get_task_update_task)

text \<open>
  The receiver side of a rendezvous: with nothing of its own to take, a receive takes the message
  parked by the first blocked sender, and that sender's pending call is finished.
\<close>

lemma receive_rendezvous:
  assumes wf: "kernel_wf k" and cur: "current_task_id k = Some r" and rt: "get_task k r = Some t"
    and own: "queue_contents (t_msg_queue t) = []" "t_ipc_buffer t = None"
    and st: "get_task k s = Some u" "t_state u = BlockedOnSend r" "t_ipc_buffer u = Some m" "s \<noteq> r"
    and least: "\<And>j. j < s \<Longrightarrow> slot_state k j \<noteq> Some (BlockedOnSend r)"
    and step: "sys_receive_typed k = (res, k')"
  shows "res = Done (Inr m)" and "send_resume s k' = Done (Inr ())"
    and "map_option t_state (get_task k' s) = Some Ready"
proof -
  let ?k = "log_trace ''ipc_receive'' (of_nat r) 0 k"
  have s: "s < MAX_TASKS" using kernel_wf_task [OF wf st(1)] by simp
  have "slot_state ?k s = Some (BlockedOnSend r)"
    using slot_state_get_task [OF wf s] st by simp
  then have f: "find_sender ?k r = Some s"
    using wf s least by (intro find_sender_least) simp_all
  obtain x k1 where x: "take_from_sender r s ?k = (x, k1)" by fastforce
  note tf = take_from_sender_spec [OF _ st(3,4) x]
  have "take_message r ?k = (Some x, k1)"
    using take_message_sender [of ?k r t] wf rt own f x by simp
  then have res: "sys_receive_typed k = (Done x, k1)"
    using cur by (simp add: sys_receive_typed_def receive_begin_def receive_iter_def)
  have x': "x = Inr m" using tf(1) st(1) by simp
  have k1: "get_task k1 s = Some (u\<lparr>t_ipc_buffer := None, t_state := Ready\<rparr>)"
    using tf(2) [of s] st(1,4) by simp
  show "res = Done (Inr m)" using res step x' by simp
  show "send_resume s k' = Done (Inr ())" using res step k1 by (simp add: send_resume_def)
  show "map_option t_state (get_task k' s) = Some Ready" using res step k1 by simp
qed

text \<open>What a parked send leaves in the table.\<close>

lemma sys_send_parked:
  assumes "sys_send_typed idx tag ver payload k = (Parked, k')" and "current_task_id k = Some s"
  shows "\<exists>tg r t u. IpcTag_from_u16 tag = Some tg \<and> authorised k s idx = Some r \<and>
    get_task k r = Some t \<and> t_state t \<notin> {BlockedOnReceive, Terminated} \<and> get_task k s = Some u \<and>
    get_task k' s = Some (u\<lparr>t_state := BlockedOnSend r,
      t_ipc_buffer := Some (make_message s tg ver payload)\<rparr>) \<and>
    (\<forall>j. j \<noteq> s \<longrightarrow> get_task k' j = get_task k j) \<and> length payload \<le> PAYLOAD_MAX"
proof -
  obtain tg where tg: "check_send tag ver payload = Inr tg"
    using assms by (auto simp: sys_send_typed_def send_begin_def split: sum.splits)
  then have tag: "IpcTag_from_u16 tag = Some tg" and len: "length payload \<le> PAYLOAD_MAX"
    by (auto simp: check_send_def split: if_splits option.splits)
  let ?m = "make_message s tg ver payload"
  let ?k = "log_trace ''ipc_send'' (of_nat idx) (ucast (tag_to_u16 tg)) k"
  have it: "send_iter s idx ?m ?k = (Parked, k')"
    using assms tg by (simp add: sys_send_typed_def send_begin_def)
  have auth: "authorised ?k s idx = authorised k s idx"
    by (simp add: authorised_def)
  obtain r where r: "authorised k s idx = Some r"
    using send_iter_refused(1) [OF _ it] auth by (cases "authorised k s idx") auto
  obtain t where t: "get_task k r = Some t" "t_state t \<noteq> Terminated"
    using send_iter_gone(1) [OF _ _ it] auth r by (cases "get_task k r") auto
  have bor: "t_state t \<noteq> BlockedOnReceive"
    using send_iter_delivers(1) [OF _ _ _ it] auth r t by auto
  obtain u where u: "get_task k s = Some u"
    using r by (auto simp: authorised_def split: option.splits)
  note park = send_iter_parks(2) [of ?k s idx r t, OF _ _ _ it]
  have "get_task k' j = (if j = s then Some (u\<lparr>t_state := BlockedOnSend r, t_ipc_buffer := Some ?m\<rparr>)
      else get_task k j)" for j
    using park [of j] auth r t bor u by simp
  then have "get_task k' s = Some (u\<lparr>t_state := BlockedOnSend r, t_ipc_buffer := Some ?m\<rparr>)"
    and "\<forall>j. j \<noteq> s \<longrightarrow> get_task k' j = get_task k j"
    by simp_all
  then show ?thesis using tag r t bor u len by blast
qed

subsection \<open>Well-formedness is kept\<close>

lemma kernel_wf_simps [simp]:
  "kernel_wf (k\<lparr>ipc_deliveries := n\<rparr>) = kernel_wf k" "kernel_wf (k\<lparr>trace := tr\<rparr>) = kernel_wf k"
  "kernel_wf (windowed tr k) = kernel_wf k" "kernel_wf (enter_critical k) = kernel_wf k"
  "kernel_wf (exit_critical k) = kernel_wf k"
  by (simp_all add: kernel_wf_def windowed_def enter_critical_def exit_critical_def)

lemma kernel_wf_send_iter: "kernel_wf k \<Longrightarrow> kernel_wf (snd (send_iter cur idx msg k))"
proof -
  assume wf: "kernel_wf k"
  obtain tr where eq: "send_region cur idx msg k = region_result tr cur idx msg k"
    using send_region_eq by blast
  show ?thesis
    unfolding send_iter_def eq region_result_def
    using wf by (auto split: option.split task_state.split intro!: kernel_wf_update_task simp: task_wf_def)
qed

lemma kernel_wf_take_from_sender:
  assumes "kernel_wf k" and "take_from_sender cur s k = (r, k')"
  shows "kernel_wf k'"
proof -
  have "kernel_wf (snd (take_from_sender cur s k))"
    using assms(1)
    by (auto simp: take_from_sender_def Let_def task_wf_def intro!: kernel_wf_update_task split: option.split)
  then show ?thesis using assms(2) by simp
qed

lemma take_own_wf: "task_wf i t \<Longrightarrow> take_own t = (r, t') \<Longrightarrow> task_wf i t'"
  by (auto simp: take_own_def task_wf_def split: prod.splits option.splits dest: dequeue_inv)

lemma kernel_wf_take_message:
  assumes "kernel_wf k" and "take_message cur k = (r, k')"
  shows "kernel_wf k'"
proof (cases "get_task k cur")
  case None
  then show ?thesis
    using assms by (auto simp: take_message_def split: option.splits prod.splits
        dest: kernel_wf_take_from_sender)
next
  case (Some t)
  obtain x t' where o: "take_own t = (x, t')" by fastforce
  have wf': "kernel_wf (update_task cur (\<lambda>_. t') k)"
    using assms(1) o by (intro kernel_wf_update_task) (auto intro: take_own_wf simp: Some)
  show ?thesis
    using assms(2) Some o wf'
    by (auto simp: take_message_def Let_def split: option.splits prod.splits
        dest: kernel_wf_take_from_sender)
qed

lemma kernel_wf_sys_send: "kernel_wf k \<Longrightarrow> kernel_wf (snd (sys_send_typed idx tag ver p k))"
  using kernel_wf_send_iter
  by (auto simp: sys_send_typed_def send_begin_def split: sum.split option.split)

lemma kernel_wf_receive_iter:
  assumes "kernel_wf k"
  shows "kernel_wf (snd (receive_iter cur k))"
proof -
  obtain r k' where t: "take_message cur k = (r, k')" by fastforce
  then have "kernel_wf k'" using assms kernel_wf_take_message by blast
  then show ?thesis
    using t by (auto simp: receive_iter_def task_wf_def split: option.split intro!: kernel_wf_update_task)
qed

lemma kernel_wf_sys_receive: "kernel_wf k \<Longrightarrow> kernel_wf (snd (sys_receive_typed k))"
  by (auto simp: sys_receive_typed_def receive_begin_def kernel_wf_receive_iter split: option.split)

lemma kernel_wf_sys_receive_async:
  assumes "kernel_wf k"
  shows "kernel_wf (snd (sys_receive_async k))"
proof (cases "current_task_id k")
  case None
  then show ?thesis using assms by (simp add: sys_receive_async_def)
next
  case (Some cur)
  let ?k = "log_trace ''ipc_receive_async'' (of_nat cur) 0 k"
  obtain r k' where t: "take_message cur ?k = (r, k')" by fastforce
  then have "kernel_wf k'" using assms kernel_wf_take_message [of ?k] by simp
  then show ?thesis using Some t by (simp add: sys_receive_async_def split: option.split)
qed

subsection \<open>Asynchronous delivery\<close>

definition async_wake :: "message_queue \<Rightarrow> task \<Rightarrow> task" where
  "async_wake q t =
     t\<lparr>t_msg_queue := q, t_state := (if t_state t = BlockedOnReceive then Ready else t_state t)\<rparr>"

lemma enter_critical_eq:
  "enter_critical k = k\<lparr>preempt := (preempt k)\<lparr>preempt_count := preempt_count (preempt k) + 1\<rparr>\<rparr>"
  by (simp add: enter_critical_def)

lemma exit_critical_eq:
  "exit_critical k = k\<lparr>preempt := (preempt k)\<lparr>preempt_count := preempt_count (preempt k) - 1\<rparr>\<rparr>"
  by (simp add: exit_critical_def)

text \<open>The asynchronous send in one equation: one queue changes, or nothing but the trace does.\<close>

definition async_result ::
  "trace_state \<Rightarrow> task_id \<Rightarrow> nat \<Rightarrow> message \<Rightarrow> kernel \<Rightarrow> (ipc_error + unit) \<times> kernel" where
  "async_result tr s idx msg k =
    (case authorised k s idx of
       None \<Rightarrow> (Inl (refusal k s), k\<lparr>trace := tr\<rparr>)
     | Some r \<Rightarrow>
         (case get_task k r of
            None \<Rightarrow> (Inl TargetGone, k\<lparr>trace := tr\<rparr>)
          | Some t \<Rightarrow>
              if t_state t = Terminated then (Inl TargetGone, k\<lparr>trace := tr\<rparr>)
              else (case MessageQueue_enqueue msg (t_msg_queue t) of
                      None \<Rightarrow> (Inl QueueFull, k\<lparr>trace := tr\<rparr>)
                    | Some q \<Rightarrow> (Inr (), (update_task r (async_wake q) k)
                        \<lparr>trace := tr, ipc_deliveries := ipc_deliveries k + 1\<rparr>))))"

lemma sys_send_async_eq:
  assumes "check_send tag ver p = Inr tg" and "current_task_id k = Some s"
  shows "\<exists>tr. sys_send_async idx tag ver p k = async_result tr s idx (make_message s tg ver p) k"
proof -
  let ?l = "log_trace ''ipc_send_async'' (of_nat idx) (ucast (tag_to_u16 tg)) k"
  let ?k = "enter_critical ?l"
  have l: "?l = k\<lparr>trace := trace ?l\<rparr>"
    using log_trace_same [of k] by (simp add: same_but_trace_def)
  have a: "authorised ?k s idx = authorised k s idx" "refusal ?k s = refusal k s"
    by (simp_all add: enter_critical_eq authorised_def refusal_def)
  obtain tr where r: "resolve_target_locked ?k s idx =
     (case authorised k s idx of Some tg \<Rightarrow> Inr tg | None \<Rightarrow> Inl (refusal k s), ?k\<lparr>trace := tr\<rparr>)"
    using resolve_eq [of ?k s idx] unfolding a by blast
  have ex: "exit_critical (?k\<lparr>trace := tr\<rparr>) = k\<lparr>trace := tr\<rparr>"
    by (subst l) (simp add: enter_critical_eq exit_critical_eq)
  have get: "get_task (?k\<lparr>trace := tr\<rparr>) i = get_task k i" for i
    by (simp add: enter_critical_eq)
  have up: "exit_critical ((update_task i f (?k\<lparr>trace := tr\<rparr>))\<lparr>ipc_deliveries := n\<rparr>)
      = (update_task i f k)\<lparr>trace := tr, ipc_deliveries := n\<rparr>" for i f n
    by (subst l) (simp add: enter_critical_eq exit_critical_eq)
  have dl: "ipc_deliveries (?k\<lparr>trace := tr\<rparr>) = ipc_deliveries k"
    by (simp add: enter_critical_eq)
  show ?thesis
    by (rule exI [of _ tr], unfold sys_send_async_def async_result_def Let_def assms sum.case option.case, simp only: r prod.case get)
      (auto simp: ex get up dl async_wake_def [abs_def] simp del: update_task_commute split: option.split)
qed

lemma kernel_wf_sys_send_async:
  assumes "kernel_wf k"
  shows "kernel_wf (snd (sys_send_async idx tag ver p k))"
proof (cases "check_send tag ver p")
  case (Inl e)
  then show ?thesis using assms by (simp add: sys_send_async_def)
next
  case (Inr tg)
  show ?thesis
  proof (cases "current_task_id k")
    case None
    then show ?thesis using Inr assms by (simp add: sys_send_async_def)
  next
    case (Some s)
    have upd: "kernel_wf (update_task r (async_wake q) k)"
      if "get_task k r = Some t" "MessageQueue_enqueue m (t_msg_queue t) = Some q" for r q t m
      using assms that enqueue_inv by (intro kernel_wf_update_task) (auto simp: task_wf_def async_wake_def)
    show ?thesis
      using sys_send_async_eq [OF Inr Some, of idx] assms upd
      by (auto simp: async_result_def split: option.split)
  qed
qed

text \<open>A message accepted by an asynchronous send joins the target's queue at the end.\<close>

lemma sys_send_async_Ok:
  assumes wf: "kernel_wf k" and s: "current_task_id k = Some s" and ok: "sys_send_async idx tag ver p k = (Inr (), k')"
  shows "\<exists>tg r t t'. IpcTag_from_u16 tag = Some tg \<and> authorised k s idx = Some r \<and> get_task k r = Some t \<and>
    t_state t \<noteq> Terminated \<and> get_task k' r = Some t' \<and> t_state t' \<noteq> BlockedOnReceive \<and>
    queue_contents (t_msg_queue t') = queue_contents (t_msg_queue t) @ [make_message s tg ver p] \<and>
    (\<forall>j. j \<noteq> r \<longrightarrow> get_task k' j = get_task k j)"
proof -
  obtain tg where tg: "check_send tag ver p = Inr tg"
    using ok by (auto simp: sys_send_async_def split: sum.splits)
  then have tag: "IpcTag_from_u16 tag = Some tg"
    by (auto simp: check_send_def split: if_splits option.splits)
  obtain tr where eq: "async_result tr s idx (make_message s tg ver p) k = (Inr (), k')"
    using sys_send_async_eq [OF tg s, of idx] ok by auto
  then obtain r t q where r: "authorised k s idx = Some r" "get_task k r = Some t" "t_state t \<noteq> Terminated"
      "MessageQueue_enqueue (make_message s tg ver p) (t_msg_queue t) = Some q"
      and k': "k' = (update_task r (async_wake q) k)\<lparr>trace := tr, ipc_deliveries := ipc_deliveries k + 1\<rparr>"
    unfolding async_result_def by (auto split: option.splits if_splits)
  have inv: "queue_inv (t_msg_queue t)" using kernel_wf_task [OF wf r(2)] by (simp add: task_wf_def)
  have g: "get_task k' j = (if j = r then Some (async_wake q t) else get_task k j)" for j
    using r(2) by (simp add: k' get_task_update_task async_wake_def)
  have "queue_contents q = queue_contents (t_msg_queue t) @ [make_message s tg ver p]"
    using mq.enq_Some [OF inv r(4)] by simp
  then have "t_state (async_wake q t) \<noteq> BlockedOnReceive" and
    "queue_contents (t_msg_queue (async_wake q t)) = queue_contents (t_msg_queue t) @ [make_message s tg ver p]"
    by (simp_all add: async_wake_def)
  then show ?thesis
    using tag r g [of r] g by (metis (no_types, lifting))
qed

lemma sys_send_async_full:
  assumes "kernel_wf k" and "check_send tag ver p = Inr tg" and "current_task_id k = Some s"
    and "authorised k s idx = Some r" and "get_task k r = Some t" and "t_state t \<noteq> Terminated"
    and "length (queue_contents (t_msg_queue t)) = MSG_QUEUE_CAPACITY"
  shows "fst (sys_send_async idx tag ver p k) = Inl QueueFull"
    and "get_task (snd (sys_send_async idx tag ver p k)) j = get_task k j"
proof -
  have inv: "queue_inv (t_msg_queue t)" using kernel_wf_task [OF assms(1,5)] by (simp add: task_wf_def)
  then have "MessageQueue_enqueue m (t_msg_queue t) = None" for m
    using mq.enq_None [OF inv] assms(7) by simp
  then show "fst (sys_send_async idx tag ver p k) = Inl QueueFull"
    and "get_task (snd (sys_send_async idx tag ver p k)) j = get_task k j"
    using sys_send_async_eq [OF assms(2,3), of idx] assms(4-6) by (auto simp: async_result_def)
qed

subsection \<open>Properties\<close>

text \<open>
  C5. A message arrives only under a capability and under the sender's true name. A synchronous send
  returns success at once exactly when the channel named in the call is in the caller's table at
  that moment and its target waits to receive; the target then holds a message with the caller's
  own identifier and the tag, version and bytes of the call, and is runnable, and no other task is
  touched.
\<close>

theorem send_is_authorised_and_authentic:
  assumes "current_task_id k = Some s" "check_send tag ver p = Inr tg" "sys_send_typed idx tag ver p k = (res, k')"
  shows "(res = Done (Inr ()) \<longleftrightarrow>
      (\<exists>r t. authorised k s idx = Some r \<and> get_task k r = Some t \<and> t_state t = BlockedOnReceive)) \<and>
    (\<forall>r t j. res = Done (Inr ()) \<and> authorised k s idx = Some r \<and> get_task k r = Some t \<longrightarrow>
      get_task k' j =
        (if j = r then Some (t\<lparr>t_ipc_buffer := Some (make_message s tg ver p), t_state := Ready\<rparr>) else get_task k j))"
proof -
  let ?k = "log_trace ''ipc_send'' (of_nat idx) (ucast (tag_to_u16 tg)) k" and ?m = "make_message s tg ver p"
  have it: "send_iter s idx ?m ?k = (res, k')"
    using assms by (simp add: sys_send_typed_def send_begin_def)
  have a: "authorised ?k s idx = authorised k s idx" by (simp add: authorised_def)
  have iff: "res = Done (Inr ()) \<longleftrightarrow>
      (\<exists>r t. authorised k s idx = Some r \<and> get_task k r = Some t \<and> t_state t = BlockedOnReceive)"
    using send_iter_Ok [of s idx ?m ?k] it a by simp
  have "get_task k' j = (if j = r then Some (t\<lparr>t_ipc_buffer := Some ?m, t_state := Ready\<rparr>) else get_task k j)"
    if "res = Done (Inr ())" "authorised k s idx = Some r" "get_task k r = Some t" for r t j
  proof -
    have "t_state t = BlockedOnReceive" using iff that by auto
    then show ?thesis using send_iter_delivers(2) [of ?k s idx r t ?m res k' j] it a that by simp
  qed
  then show ?thesis using iff by blast
qed

lemma sample_authorised: "authorised (sample_kernel st) 1 0 = Some 2"
  by (simp add: authorised_def cap_at_table_with channel_cap_def)

lemma sample_check_send: "check_send (tag_to_u16 Raw) 1 [1, 2, 3] = Inr Raw"
  by (simp add: check_send_def PAYLOAD_MAX_def del: tag_to_u16.simps)

theorem send_is_authorised_and_authentic_witness:
  "\<exists>k' t. sys_send_typed 0 (tag_to_u16 Raw) 1 [1, 2, 3] (sample_kernel BlockedOnReceive) = (Done (Inr ()), k') \<and>
     get_task k' 2 = Some t \<and> t_state t = Ready \<and> t_ipc_buffer t = Some (make_message 1 Raw 1 [1, 2, 3])"
proof -
  let ?k = "sample_kernel BlockedOnReceive"
  obtain res k' where s: "sys_send_typed 0 (tag_to_u16 Raw) 1 [1, 2, 3] ?k = (res, k')" by fastforce
  note th = send_is_authorised_and_authentic [OF sample_current sample_check_send s]
  have res: "res = Done (Inr ())" using th sample_authorised by simp
  have "get_task k' 2 = Some (sample_task 2 BlockedOnReceive (table_with [channel_cap 1 8 (Some 7)])
      \<lparr>t_ipc_buffer := Some (make_message 1 Raw 1 [1, 2, 3]), t_state := Ready\<rparr>)"
    using th [THEN conjunct2, rule_format, of 2 _ 2] res sample_authorised by simp
  then show ?thesis using s res by simp
qed

text \<open>
  C6. A rendezvous transfers the message and finishes both calls. When a send parks because its
  target is not receiving, the sender waits with the message in its buffer; when the target later
  receives, with nothing of its own to take and no other sender before this one, it gets exactly
  that message, the sender becomes runnable, and the sender's pending call returns success.
\<close>

theorem rendezvous_completes:
  assumes "kernel_wf k" "current_task_id k = Some s" "sys_send_typed idx tag ver p k = (Parked, k1)"
    and "authorised k s idx = Some r" "r \<noteq> s" "get_task k r = Some t" "queue_contents (t_msg_queue t) = []" "t_ipc_buffer t = None"
    and "\<forall>j < s. slot_state k j \<noteq> Some (BlockedOnSend r)"
    and "sys_receive_typed (k1\<lparr>current_task_id := Some r\<rparr>) = (res, k2)"
  shows "\<exists>tg. IpcTag_from_u16 tag = Some tg \<and> res = Done (Inr (make_message s tg ver p)) \<and>
    send_resume s k2 = Done (Inr ()) \<and> map_option t_state (get_task k2 s) = Some Ready"
proof -
  let ?k = "k1\<lparr>current_task_id := Some r\<rparr>"
  obtain tg u where p: "IpcTag_from_u16 tag = Some tg" "get_task k s = Some u"
    "get_task k1 s = Some (u\<lparr>t_state := BlockedOnSend r, t_ipc_buffer := Some (make_message s tg ver p)\<rparr>)"
    "\<forall>j. j \<noteq> s \<longrightarrow> get_task k1 j = get_task k j"
    using sys_send_parked [OF assms(3,2)] assms(4) by auto
  have wf1: "kernel_wf k1" using kernel_wf_sys_send [OF assms(1), of idx tag ver p] assms(3) by simp
  have wf: "kernel_wf ?k" using wf1 by (simp add: kernel_wf_def)
  have g: "get_task ?k j = get_task k1 j" for j by (simp add: get_task_def)
  have r: "get_task ?k r = Some t" using p(4) assms(5,6) g by simp
  have st: "get_task ?k s = Some (u\<lparr>t_state := BlockedOnSend r, t_ipc_buffer := Some (make_message s tg ver p)\<rparr>)" using p(3) g by simp
  have s: "s < MAX_TASKS" using kernel_wf_task [OF assms(1) p(2)] by simp
  have "slot_state ?k j \<noteq> Some (BlockedOnSend r)" if "j < s" for j
    using assms(9) that s slot_state_get_task [OF wf, of j] slot_state_get_task [OF assms(1), of j] p(4) g by auto
  from receive_rendezvous [OF wf _ r assms(7,8) st _ _ assms(5) [symmetric] this assms(10)]
  show ?thesis using p(1) by auto
qed

theorem rendezvous_completes_witness:
  "\<exists>k1 res k2. sys_send_typed 0 (tag_to_u16 Raw) 1 [1, 2, 3] (sample_kernel Ready) = (Parked, k1) \<and>
     sys_receive_typed (k1\<lparr>current_task_id := Some 2\<rparr>) = (res, k2) \<and> res = Done (Inr (make_message 1 Raw 1 [1, 2, 3])) \<and>
     send_resume 1 k2 = Done (Inr ())"
proof -
  let ?k = "sample_kernel Ready"
  let ?l = "log_trace ''ipc_send'' (of_nat 0) (ucast (tag_to_u16 Raw)) ?k"
  obtain pr k1 where it: "send_iter 1 0 (make_message 1 Raw 1 [1, 2, 3]) ?l = (pr, k1)" by fastforce
  have a: "authorised ?l 1 0 = Some 2" using sample_authorised [of Ready] by (simp add: authorised_def)
  have "pr = Parked" using send_iter_parks(1) [OF a _ _ it] by simp
  then have s: "sys_send_typed 0 (tag_to_u16 Raw) 1 [1, 2, 3] ?k = (Parked, k1)"
    using it sample_check_send by (simp add: sys_send_typed_def send_begin_def)
  obtain res k2 where rc: "sys_receive_typed (k1\<lparr>current_task_id := Some 2\<rparr>) = (res, k2)" by fastforce
  have least: "\<forall>j < 1. slot_state ?k j \<noteq> Some (BlockedOnSend 2)"
    by (simp add: slot_state_def sample_tasks MAX_TASKS_def)
  from rendezvous_completes [OF kernel_wf_sample sample_current s sample_authorised _ sample_get_task(2) _ _ least rc]
  show ?thesis using s rc by (auto simp del: tag_to_u16.simps)
qed

subsection \<open>Check and use are atomic\<close>

lemma ticks_in_critical:
  assumes "in_critical k"
  shows "\<exists>p. (timer_isr held ^^ n) k = k\<lparr>preempt := p\<rparr> \<and> preempt_count p = preempt_count (preempt k) \<and>
    revoke_fired_in_window p = revoke_fired_in_window (preempt k) \<and> pending_revoke p = pending_revoke (preempt k)"
proof (induction n)
  case 0
  then show ?case by (intro exI [of _ "preempt k"]) simp
next
  case (Suc n)
  then obtain p where p: "(timer_isr held ^^ n) k = k\<lparr>preempt := p\<rparr>" "preempt_count p = preempt_count (preempt k)"
    "revoke_fired_in_window p = revoke_fired_in_window (preempt k)" "pending_revoke p = pending_revoke (preempt k)" by blast
  have "in_critical (k\<lparr>preempt := p\<rparr>)" using assms p(2) by (simp add: in_critical_def)
  then have "\<exists>x y z. timer_isr held (k\<lparr>preempt := p\<rparr>) = k\<lparr>preempt := p\<lparr>ticks := x, window_ticks := y, deferred := z\<rparr>\<rparr>"
    using timer_isr_deferred [of "k\<lparr>preempt := p\<rparr>" held] by fastforce
  then obtain x y z where "timer_isr held (k\<lparr>preempt := p\<rparr>) = k\<lparr>preempt := p\<lparr>ticks := x, window_ticks := y, deferred := z\<rparr>\<rparr>" by blast
  then show ?case
    using p by (intro exI [of _ "p\<lparr>ticks := x, window_ticks := y, deferred := z\<rparr>"]) simp
qed

text \<open>
  C4. The capability check and the delivery are atomic against timer ticks. Inside the critical
  window that \<open>sys_send\<close> opens around its lookup and delivery, however many ticks arrive, with or
  without the scheduler lock held and whatever revocation an interrupting adversary has prepared,
  the adversary does not fire, no task is switched, and the capability looked up stands for exactly
  the authority it stood for when the window opened.
\<close>

theorem check_and_use_are_atomic:
  assumes "preempt_count (preempt k) \<noteq> -1" "k' = (timer_isr held ^^ n) (CriticalWindow_enter k)"
  shows "authorised k' s idx = authorised k s idx \<and> tasks k' = tasks k \<and> current_task_id k' = current_task_id k \<and>
    adversary_fired_in_window k' = adversary_fired_in_window k \<and> pending_revoke (preempt k') = pending_revoke (preempt k)"
proof -
  have c: "CriticalWindow_enter k = k\<lparr>preempt := preempt (CriticalWindow_enter k)\<rparr>"
    "revoke_fired_in_window (preempt (CriticalWindow_enter k)) = revoke_fired_in_window (preempt k)"
    "pending_revoke (preempt (CriticalWindow_enter k)) = pending_revoke (preempt k)"
    by (simp_all add: CriticalWindow_enter_def enter_critical_def enter_ipc_window_def)
  obtain p where p: "k' = (CriticalWindow_enter k)\<lparr>preempt := p\<rparr>"
    "revoke_fired_in_window p = revoke_fired_in_window (preempt k)" "pending_revoke p = pending_revoke (preempt k)"
    using ticks_in_critical [OF CriticalWindow_in_critical [OF assms(1)], of n held] assms(2) c by auto
  have "k' = k\<lparr>preempt := p\<rparr>" unfolding p(1) by (subst c(1)) simp
  then show ?thesis using p(2,3) by (simp add: authorised_def adversary_fired_in_window_def)
qed

text \<open>Without the critical region the prepared revocation lands: the capability is gone.\<close>

theorem unprotected_window_is_revoked:
  assumes "kernel_wf k" "armed (preempt k)" "preempt_count (preempt k) = 0" "in_ipc_window (preempt k)"
    and "pending_revoke (preempt k) = idx" "idx \<noteq> NO_REVOKE" "pending_revoke_task (preempt k) = s" "get_task k s \<noteq> None"
  shows "authorised (snd (on_tick_should_switch False k)) s idx = None"
proof -
  obtain t where t: "get_task k s = Some t" using assms(8) by auto
  let ?k = "k\<lparr>preempt := (preempt k)\<lparr>ticks := ticks (preempt k) + 1, window_ticks := window_ticks (preempt k) + 1\<rparr>\<rparr>"
  obtain d caps k1 where r: "CapTable_kernel_revoke idx (t_caps t) ?k = (d, caps, k1)" using prod_cases3 by blast
  have wf: "cap_table_wf (t_caps t)" using kernel_wf_task [OF assms(1) t] by (simp add: task_wf_def)
  have caps: "cap_at caps idx = None" using CapTable_kernel_revoke_spec [OF wf r] by simp
  have t': "get_task ?k s = Some t" using t by simp
  have t1: "get_task k1 s = Some t"
    using same_but_trace_kernel(6) [OF CapTable_kernel_revoke_same [OF r]] t' by simp
  have "snd (on_tick_should_switch False k) =
      (update_task s (\<lambda>t. t\<lparr>t_caps := caps\<rparr>) k1)\<lparr>preempt := (preempt (update_task s (\<lambda>t. t\<lparr>t_caps := caps\<rparr>) k1))
        \<lparr>revoke_fired_in_window := True, pending_revoke := NO_REVOKE\<rparr>\<rparr>"
    using assms r t' by (simp add: on_tick_should_switch_def maybe_fire_adversary_def Let_def)
  then show ?thesis using t1 caps by (simp add: authorised_def get_task_update_task)
qed

theorem check_and_use_are_atomic_witness:
  "authorised ((timer_isr False ^^ 5) (CriticalWindow_enter (arm_adversary 1 0 (sample_kernel Ready)))) 1 0 = Some 2"
proof -
  have "preempt_count (preempt (arm_adversary 1 0 (sample_kernel Ready))) \<noteq> -1"
    by (simp add: arm_adversary_def preempt_init_def)
  moreover have "authorised (arm_adversary 1 0 (sample_kernel Ready)) 1 0 = Some 2"
    using sample_authorised [of Ready] by (simp add: arm_adversary_def authorised_def)
  ultimately show ?thesis
    using check_and_use_are_atomic [OF _ refl, of "arm_adversary 1 0 (sample_kernel Ready)" 5 False 1 0] by simp
qed

end
