(* ===== verification/Revocation.thy ===== *)
theory Revocation
  imports IPC
begin

text \<open>
  Delegation and revocation of capabilities, \<open>syscall/mod.rs\<close>: the handlers of \<open>SYS_CAP_GRANT\<close> and
  \<open>SYS_CAP_REVOKE\<close>, the gate on the caller's authority, and the transitive revocation of everything
  derived from a revoked capability.
\<close>

definition u64_MAX :: u64 where
  "u64_MAX = - 1"

subsection \<open>Grant\<close>

definition dispatch_cap_grant ::
  "task_id \<Rightarrow> nat \<Rightarrow> task_id \<Rightarrow> rights_mask \<Rightarrow> kernel \<Rightarrow> u64 \<times> kernel" where
  "dispatch_cap_grant caller src_cap_idx target rights k =
     (case get_task k caller of
        None \<Rightarrow> (u64_MAX, k)
      | Some task \<Rightarrow>
          (case CapTable_get (t_caps task) src_cap_idx k of
             (None, k) \<Rightarrow> (u64_MAX, k)
           | (Some cap, k) \<Rightarrow>
               (case attenuate cap rights of
                  None \<Rightarrow> (u64_MAX, k)
                | Some derived \<Rightarrow>
                    let derived = derived\<lparr>cap_origin := Some (cap_id cap)\<rparr> in
                    (case get_task k target of
                       None \<Rightarrow> (u64_MAX, k)
                     | Some t \<Rightarrow>
                         (case CapTable_insert derived (t_caps t) k of
                            (Some slot, caps, k) \<Rightarrow>
                              let k = update_task target (\<lambda>t. t\<lparr>t_caps := caps\<rparr>) k
                              in (0, k\<lparr>audit := audit_record Grant caller target
                                                   (cap_resource derived) slot (audit k)\<rparr>)
                          | (None, caps, k) \<Rightarrow>
                              (u64_MAX, update_task target (\<lambda>t. t\<lparr>t_caps := caps\<rparr>) k))))))"

subsection \<open>Propagation\<close>

definition REVOKED_IDS_CAP :: nat where
  "REVOKED_IDS_CAP = MAX_TASKS * MAX_CAPS + 1"

text \<open>
  The state of the fixpoint: the kernel, the identities revoked so far (the filled part of the
  scratch array) and whether this pass changed anything. One step is the body of the inner loop.
\<close>

type_synonym prop_state = "kernel \<times> u64 list \<times> bool"

definition prop_slot :: "nat \<Rightarrow> nat \<Rightarrow> prop_state \<Rightarrow> prop_state" where
  "prop_slot t_idx s st =
     (case st of (k, revoked, changed) \<Rightarrow>
       (case tasks k ! t_idx of
          None \<Rightarrow> (k, revoked, changed)
        | Some task \<Rightarrow>
            (case CapTable_get (t_caps task) s k of
               (None, k) \<Rightarrow> (k, revoked, changed)
             | (Some cap, k) \<Rightarrow>
                 (case cap_origin cap of
                    None \<Rightarrow> (k, revoked, changed)
                  | Some parent_id \<Rightarrow>
                      if parent_id \<in> set revoked \<and> length revoked < REVOKED_IDS_CAP
                      then
                        let (_, caps, k) = CapTable_kernel_revoke s (t_caps task) k;
                            k = modify_slot t_idx (\<lambda>t. t\<lparr>t_caps := caps\<rparr>) k;
                            k = k\<lparr>audit := audit_record RevokePropagated KERNEL_ACTOR (t_id task)
                                             (cap_resource cap) s (audit k)\<rparr>
                        in (k, revoked @ [cap_id cap], True)
                      else (k, revoked, changed)))))"

definition prop_pass :: "kernel \<Rightarrow> u64 list \<Rightarrow> prop_state" where
  "prop_pass k revoked =
     fold (\<lambda>t_idx st. fold (prop_slot t_idx) [0..<MAX_CAPS] st) [0..<MAX_TASKS] (k, revoked, False)"

lemma prop_slot_grows:
  "prop_slot t s (k, r, c) = (k', r', c') \<Longrightarrow>
   (r' = r \<and> c' = c) \<or> (length r' = Suc (length r) \<and> length r < REVOKED_IDS_CAP \<and> c')"
  by (auto simp: prop_slot_def Let_def split: option.splits prod.splits if_splits)

definition prop_bounded :: "u64 list \<Rightarrow> prop_state \<Rightarrow> bool" where
  "prop_bounded r st \<longleftrightarrow>
     (case st of (_, r', c') \<Rightarrow> length r \<le> length r' \<and>
        (c' \<longrightarrow> length r < length r' \<and> length r < REVOKED_IDS_CAP))"

lemma prop_slot_bounded: "prop_bounded r st \<Longrightarrow> prop_bounded r (prop_slot t s st)"
  using prop_slot_grows [of t s "fst st" "fst (snd st)" "snd (snd st)"]
  by (cases st; cases "prop_slot t s st") (auto simp: prop_bounded_def)

lemma prop_pass_bounded: "prop_bounded r (prop_pass k r)"
proof -
  have "prop_bounded r (fold (prop_slot t) ss st)" if "prop_bounded r st" for t ss st
    using that by (induction ss arbitrary: st) (simp_all add: prop_slot_bounded)
  then have "prop_bounded r (fold (\<lambda>t st. fold (prop_slot t) [0..<MAX_CAPS] st) ts st)"
    if "prop_bounded r st" for ts st
    using that by (induction ts arbitrary: st) simp_all
  then show ?thesis by (simp add: prop_pass_def prop_bounded_def)
qed

text \<open>
  The outer loop. The scratch array is never overrun, so the room left in it bounds the number of
  passes that change anything.
\<close>

function prop_loop :: "kernel \<Rightarrow> u64 list \<Rightarrow> kernel \<times> u64 list" where
  "prop_loop k revoked =
     (case prop_pass k revoked of
        (k', revoked', changed) \<Rightarrow> if \<not> changed then (k', revoked') else prop_loop k' revoked')"
  by auto

termination
proof (relation "measure (\<lambda>(_, r). REVOKED_IDS_CAP - length r)", goal_cases)
  case 1
  then show ?case by simp
next
  case (2 k r k' y r' c)
  then have "prop_pass k r = (k', r', True)" by auto
  then have "prop_bounded r (k', r', True)" using prop_pass_bounded [of r k] by simp
  then show ?case by (auto simp: prop_bounded_def intro: diff_less_mono2)
qed

declare prop_loop.simps [simp del]

definition propagate_revocation :: "u64 \<Rightarrow> kernel \<Rightarrow> kernel" where
  "propagate_revocation root_id k = fst (prop_loop k [root_id])"

subsection \<open>Revoke\<close>

definition grants_to :: "task_id \<Rightarrow> capability option \<Rightarrow> bool" where
  "grants_to target s =
     (case s of
        Some cap \<Rightarrow> cap_grant cap \<and> cap_resource cap = IpcChannel target
      | None \<Rightarrow> False)"

definition current_has_grant_cap_to :: "kernel \<Rightarrow> task_id \<Rightarrow> bool" where
  "current_has_grant_cap_to k target =
     (case current_task_id k of
        Some i \<Rightarrow> (case get_task k i of
                     Some task \<Rightarrow> list_ex (grants_to target) (slots (t_caps task))
                   | None \<Rightarrow> False)
      | None \<Rightarrow> False)"

definition dispatch_cap_revoke :: "task_id \<Rightarrow> task_id \<Rightarrow> nat \<Rightarrow> kernel \<Rightarrow> u64 \<times> kernel" where
  "dispatch_cap_revoke caller target cap_idx k =
     (if \<not> current_has_grant_cap_to k target then (u64_MAX, k)
      else
        (case get_task k target of
           None \<Rightarrow> (u64_MAX, k)
         | Some t \<Rightarrow>
             (case CapTable_kernel_revoke cap_idx (t_caps t) k of
                (Some cap, caps, k) \<Rightarrow>
                  let k = update_task target (\<lambda>t. t\<lparr>t_caps := caps\<rparr>) k;
                      k = k\<lparr>audit := audit_record Revoke caller target (cap_resource cap) cap_idx (audit k)\<rparr>
                  in (0, propagate_revocation (cap_id cap) k)
              | (None, caps, k) \<Rightarrow>
                  (u64_MAX, update_task target (\<lambda>t. t\<lparr>t_caps := caps\<rparr>) k))))"

text \<open>The kernel-task entry point; \<open>None\<close> is \<open>Err(())\<close>.\<close>

definition sys_cap_revoke :: "task_id \<Rightarrow> nat \<Rightarrow> kernel \<Rightarrow> unit option \<times> kernel" where
  "sys_cap_revoke target cap_idx k =
     (case current_task_id k of
        None \<Rightarrow> (None, k)
      | Some caller \<Rightarrow>
          (case dispatch_cap_revoke caller target cap_idx k of
             (r, k) \<Rightarrow> (if r = 0 then Some () else None, k)))"

subsection \<open>The capabilities of the system\<close>

text \<open>Which capability sits in slot \<open>s\<close> of task \<open>t\<close>.\<close>

definition cap_view :: "kernel \<Rightarrow> nat \<times> nat \<Rightarrow> capability option" where
  "cap_view k p =
     (if fst p < MAX_TASKS
      then case tasks k ! fst p of Some t \<Rightarrow> cap_at (t_caps t) (snd p) | None \<Rightarrow> None
      else None)"

definition all_slots :: "(nat \<times> nat) set" where
  "all_slots = {0..<MAX_TASKS} \<times> {0..<MAX_CAPS}"

lemma finite_all_slots [simp]: "finite all_slots"
  by (simp add: all_slots_def)

lemma card_all_slots: "card all_slots = MAX_TASKS * MAX_CAPS"
  by (simp add: all_slots_def)

lemma cap_view_in: "cap_view k p \<noteq> None \<Longrightarrow> p \<in> all_slots"
  by (cases p) (auto simp: cap_view_def cap_at_def all_slots_def split: if_splits option.splits)

text \<open>
  The lineage of a revoked identity: the identities of all capabilities that were derived from it,
  directly or through other capabilities present in the system.
\<close>

inductive_set lineage :: "kernel \<Rightarrow> u64 \<Rightarrow> u64 set" for k root where
  root: "root \<in> lineage k root"
| derived: "cap_view k p = Some c \<Longrightarrow> cap_origin c = Some pid \<Longrightarrow> pid \<in> lineage k root \<Longrightarrow>
    cap_id c \<in> lineage k root"

definition in_lineage :: "kernel \<Rightarrow> u64 \<Rightarrow> capability \<Rightarrow> bool" where
  "in_lineage k root c \<longleftrightarrow> (\<exists>pid\<in>lineage k root. cap_origin c = Some pid)"

text \<open>Everything but the capability tables, the trace and the audit log.\<close>

definition same_but_caps :: "task \<Rightarrow> task \<Rightarrow> bool" where
  "same_but_caps t t' \<longleftrightarrow> t' = t\<lparr>t_caps := t_caps t'\<rparr>"

definition revocable :: "u64 list \<Rightarrow> capability option \<Rightarrow> bool" where
  "revocable revoked s =
     (case s of Some c \<Rightarrow> (case cap_origin c of Some pid \<Rightarrow> pid \<in> set revoked | None \<Rightarrow> False) | None \<Rightarrow> False)"

subsection \<open>One step\<close>

lemma cap_view_simps [simp]:
  "cap_view (k\<lparr>trace := tr\<rparr>) = cap_view k" "cap_view (k\<lparr>audit := a\<rparr>) = cap_view k"
  "cap_view (log_trace m x y k) = cap_view k"
  by (rule ext; simp add: cap_view_def log_trace_def)+

lemma cap_view_modify:
  assumes "kernel_wf k" and "t < MAX_TASKS" and "tasks k ! t = Some task"
    and "\<And>i. cap_at caps i = (if i = s then None else cap_at (t_caps task) i)"
  shows "cap_view (modify_slot t (\<lambda>x. x\<lparr>t_caps := caps\<rparr>) k) = (cap_view k)((t, s) := None)"
proof
  fix p
  show "cap_view (modify_slot t (\<lambda>x. x\<lparr>t_caps := caps\<rparr>) k) p = ((cap_view k)((t, s) := None)) p"
    using assms by (cases p) (auto simp: cap_view_def modify_slot_def set_slot_def kernel_wf_def nth_list_update)
qed

lemma prop_slot_skip:
  assumes "\<not> (revocable r (cap_view k (t, s)) \<and> length r < REVOKED_IDS_CAP)" and "t < MAX_TASKS"
  shows "\<exists>tr. prop_slot t s (k, r, c) = (k\<lparr>trace := tr\<rparr>, r, c)"
proof (cases "tasks k ! t")
  case None
  then have "prop_slot t s (k, r, c) = (k\<lparr>trace := trace k\<rparr>, r, c)" by (simp add: prop_slot_def)
  then show ?thesis by blast
next
  case (Some task)
  obtain g k1 where g: "CapTable_get (t_caps task) s k = (g, k1)" by fastforce
  have g': "g = cap_at (t_caps task) s" using CapTable_get_fst [of "t_caps task" s k] g by simp
  have k1: "k1 = k\<lparr>trace := trace k1\<rparr>"
    using CapTable_get_same [of k "t_caps task" s] g by (simp add: same_but_trace_def)
  have v: "cap_view k (t, s) = g" using Some assms(2) g' by (simp add: cap_view_def)
  have "prop_slot t s (k, r, c) = (k1, r, c)"
    using Some g assms(1) unfolding v
    by (auto simp: prop_slot_def revocable_def split: option.splits)
  then show ?thesis using k1 by metis
qed

lemma prop_slot_revoke:
  assumes wf: "kernel_wf k" and v: "cap_view k (t, s) = Some cp" and rv: "revocable r (Some cp)"
    and room: "length r < REVOKED_IDS_CAP" and step: "prop_slot t s (k, r, c) = (k', r', c')"
  shows "cap_view k' = (cap_view k)((t, s) := None)" and "r' = r @ [cap_id cp]" and "c'" and "kernel_wf k'"
    and "al_total (audit k') = Suc (al_total (audit k))"
    and "list_all2 (rel_option same_but_caps) (tasks k) (tasks k')" and "current_task_id k' = current_task_id k"
proof -
  have ts: "t < MAX_TASKS" "s < MAX_CAPS" using cap_view_in [of k "(t, s)"] v by (auto simp: all_slots_def)
  obtain task where task: "tasks k ! t = Some task" "cap_at (t_caps task) s = Some cp"
    using v ts by (auto simp: cap_view_def split: option.splits)
  have twf: "task_wf t task" using wf task ts by (simp add: kernel_wf_def)
  obtain g k1 where g: "CapTable_get (t_caps task) s k = (g, k1)" by fastforce
  have g': "g = Some cp" using CapTable_get_fst [of "t_caps task" s k] g task by simp
  have s1: "same_but_trace k k1" using CapTable_get_same [of k "t_caps task" s] g by simp
  obtain d caps k2 where kr: "CapTable_kernel_revoke s (t_caps task) k1 = (d, caps, k2)"
    using prod_cases3 by blast
  have s2: "same_but_trace k k2"
    using same_but_trace_trans [OF s1 CapTable_kernel_revoke_same [OF kr]] .
  note k2 = same_but_trace_kernel [OF s2]
  have caps: "cap_at caps = (cap_at (t_caps task))(s := None)" and cwf: "cap_table_wf caps"
    using CapTable_kernel_revoke_spec [OF _ kr] CapTable_kernel_revoke_wf [OF _ kr] twf
    by (auto simp: task_wf_def)
  obtain pid where pid: "cap_origin cp = Some pid" "pid \<in> set r"
    using rv by (auto simp: revocable_def split: option.splits)
  let ?k3 = "modify_slot t (\<lambda>t. t\<lparr>t_caps := caps\<rparr>) k2"
  have res: "prop_slot t s (k, r, c) = (?k3\<lparr>audit := audit_record RevokePropagated KERNEL_ACTOR
      (t_id task) (cap_resource cp) s (audit ?k3)\<rparr>, r @ [cap_id cp], True)"
    using task g g' kr pid room by (simp add: prop_slot_def Let_def)
  have eqs: "k' = ?k3\<lparr>audit := audit_record RevokePropagated KERNEL_ACTOR
      (t_id task) (cap_resource cp) s (audit ?k3)\<rparr>" "r' = r @ [cap_id cp]" "c' = True"
    using res step by simp_all
  have wf2: "kernel_wf k2" using k2(7) wf by simp
  have wf3: "kernel_wf ?k3"
    using wf2 k2(1) task(1) twf cwf
    by (auto simp: modify_slot_def task_wf_def intro!: kernel_wf_set_slot)
  have view2: "cap_view k2 = cap_view k" unfolding cap_view_def [abs_def] k2(1) by (rule refl)
  have au: "audit ?k3 = audit k" using k2(2) by (simp add: modify_slot_def split: option.split)
  show "r' = r @ [cap_id cp]" "c'" using eqs by simp_all
  show "cap_view k' = (cap_view k)((t, s) := None)"
    unfolding eqs(1) cap_view_simps
    using cap_view_modify [OF wf2 ts(1), of task caps s] k2(1) task(1) caps view2 by simp
  show "kernel_wf k'" using wf3 unfolding eqs(1) kernel_wf_def by simp
  show "al_total (audit k') = Suc (al_total (audit k))" unfolding eqs(1) by (simp add: au)
  show "current_task_id k' = current_task_id k" unfolding eqs(1) using k2(3) by simp
  show "list_all2 (rel_option same_but_caps) (tasks k) (tasks k')"
    unfolding eqs(1) using k2(1) task(1) ts wf
    by (auto simp: modify_slot_def set_slot_def list_all2_conv_all_nth nth_list_update same_but_caps_def
        option.rel_refl kernel_wf_def)
qed

subsection \<open>The fixpoint\<close>

text \<open>
  What holds after any number of steps from \<open>k0\<close>: only capabilities in the lineage are gone, each
  of them is on record with its identity, and the record has exactly one entry per capability
  removed, besides the root.
\<close>

definition held :: "kernel \<Rightarrow> (nat \<times> nat) set" where
  "held k = {p. cap_view k p \<noteq> None}"

lemma held_subset: "held k \<subseteq> all_slots"
  using cap_view_in by (auto simp: held_def)

lemma finite_held [simp]: "finite (held k)"
  by (rule finite_subset [OF held_subset]) simp

definition thinned :: "kernel \<Rightarrow> u64 \<Rightarrow> kernel \<Rightarrow> u64 list \<Rightarrow> nat \<times> nat \<Rightarrow> bool" where
  "thinned k0 root k r p \<longleftrightarrow> cap_view k p = cap_view k0 p \<or>
     cap_view k p = None \<and> (\<exists>c. cap_view k0 p = Some c \<and> in_lineage k0 root c \<and> cap_id c \<in> set r)"

definition prop_inv :: "kernel \<Rightarrow> u64 \<Rightarrow> kernel \<Rightarrow> u64 list \<Rightarrow> bool" where
  "prop_inv k0 root k r \<longleftrightarrow> kernel_wf k \<and> root \<in> set r \<and> set r \<subseteq> lineage k0 root \<and>
     (\<forall>p. thinned k0 root k r p) \<and>
     length r + card (held k) = Suc (card (held k0)) \<and>
     al_total (audit k) + 1 = al_total (audit k0) + length r \<and>
     list_all2 (rel_option same_but_caps) (tasks k0) (tasks k) \<and> current_task_id k = current_task_id k0"

lemma same_but_caps_refl [simp]: "same_but_caps t t"
  by (simp add: same_but_caps_def)

lemma same_but_caps_trans: "same_but_caps a b \<Longrightarrow> same_but_caps b c \<Longrightarrow> same_but_caps a c"
  by (cases a; cases b; cases c) (simp add: same_but_caps_def)

lemma rel_caps_trans:
  assumes "list_all2 (rel_option same_but_caps) as bs" and "list_all2 (rel_option same_but_caps) bs cs"
  shows "list_all2 (rel_option same_but_caps) as cs"
proof -
  have "rel_option same_but_caps x z" if "rel_option same_but_caps x y" "rel_option same_but_caps y z" for x y z
    using that by (cases x; cases y; cases z) (auto intro: same_but_caps_trans)
  then show ?thesis using assms by (rule list_all2_trans)
qed

lemma prop_inv_start:
  "kernel_wf k \<Longrightarrow> prop_inv k root k [root]"
  by (auto simp: prop_inv_def thinned_def list.rel_refl option.rel_refl intro: lineage.root)

lemma prop_inv_trace: "prop_inv k0 root k r \<Longrightarrow> prop_inv k0 root (k\<lparr>trace := tr\<rparr>) r"
  by (simp add: prop_inv_def held_def thinned_def)

lemma prop_inv_room:
  assumes "prop_inv k0 root k r" and "cap_view k p \<noteq> None"
  shows "length r < REVOKED_IDS_CAP"
proof -
  have "p \<in> held k" using assms(2) by (simp add: held_def)
  then have "0 < card (held k)" by (auto simp: card_gt_0_iff)
  moreover have "card (held k0) \<le> MAX_TASKS * MAX_CAPS"
    using card_mono [OF finite_all_slots held_subset] by (simp add: card_all_slots)
  ultimately show ?thesis using assms(1) by (simp add: prop_inv_def REVOKED_IDS_CAP_def)
qed

lemma prop_inv_revoke:
  assumes inv: "prop_inv k0 root k r" and v: "cap_view k (t, s) = Some cp" and rv: "revocable r (Some cp)"
    and step: "prop_slot t s (k, r, c) = (k', r', c')"
  shows "prop_inv k0 root k' r'"
proof -
  have wf: "kernel_wf k" using inv by (simp add: prop_inv_def)
  note st = prop_slot_revoke [OF wf v rv prop_inv_room [OF inv] step]
  have room: "cap_view k (t, s) \<noteq> None" using v by simp
  note st = st [OF room]
  have thin: "\<And>p. thinned k0 root k r p"
    using inv unfolding prop_inv_def by (elim conjE) (rule spec)
  have v0: "cap_view k0 (t, s) = Some cp" using thin [of "(t, s)"] v by (simp add: thinned_def)
  obtain pid where pid: "cap_origin cp = Some pid" "pid \<in> set r"
    using rv by (auto simp: revocable_def split: option.splits)
  have lin: "pid \<in> lineage k0 root" using inv pid by (auto simp: prop_inv_def)
  then have in_lin: "in_lineage k0 root cp" and idl: "cap_id cp \<in> lineage k0 root"
    using pid lineage.derived [OF v0 pid(1)] by (auto simp: in_lineage_def)
  have "held k' = held k - {(t, s)}" using st(1) by (auto simp: held_def)
  moreover have "(t, s) \<in> held k" using v by (simp add: held_def)
  ultimately have card: "Suc (card (held k')) = card (held k)"
    by (metis card_Suc_Diff1 finite_held)
  have view: "thinned k0 root k' r' p" for p
    using thin [of p] st(1,2) v0 in_lin by (cases "p = (t, s)") (auto simp: thinned_def)
  show ?thesis
    unfolding prop_inv_def
    using inv st idl card view rel_caps_trans [OF _ st(6)] by (simp add: prop_inv_def)
qed

lemma prop_inv_step:
  assumes "prop_inv k0 root k r" and "t < MAX_TASKS" and "prop_slot t s (k, r, c) = (k', r', c')"
  shows "prop_inv k0 root k' r'"
proof (cases "revocable r (cap_view k (t, s))")
  case True
  then obtain cp where "cap_view k (t, s) = Some cp" by (auto simp: revocable_def split: option.splits)
  then show ?thesis using prop_inv_revoke [OF assms(1) _ _ assms(3)] True by simp
next
  case False
  then obtain tr where "prop_slot t s (k, r, c) = (k\<lparr>trace := tr\<rparr>, r, c)"
    using prop_slot_skip [of r k t s c] assms(2) by blast
  then show ?thesis using assms prop_inv_trace by simp
qed

definition st_inv :: "kernel \<Rightarrow> u64 \<Rightarrow> prop_state \<Rightarrow> bool" where
  "st_inv k0 root st = (case st of (k, r, _) \<Rightarrow> prop_inv k0 root k r)"

lemma st_inv_slot: "st_inv k0 root st \<Longrightarrow> t < MAX_TASKS \<Longrightarrow> st_inv k0 root (prop_slot t s st)"
  using prop_inv_step [of k0 root "fst st" "fst (snd st)" t s "snd (snd st)"]
  by (cases st; cases "prop_slot t s st") (simp add: st_inv_def)

lemma st_inv_row: "st_inv k0 root st \<Longrightarrow> t < MAX_TASKS \<Longrightarrow> st_inv k0 root (fold (prop_slot t) ss st)"
  by (induction ss arbitrary: st) (simp_all add: st_inv_slot)

lemma st_inv_rows:
  "st_inv k0 root st \<Longrightarrow> \<forall>t\<in>set ts. t < MAX_TASKS \<Longrightarrow>
   st_inv k0 root (fold (\<lambda>t st. fold (prop_slot t) [0..<MAX_CAPS] st) ts st)"
  by (induction ts arbitrary: st) (simp_all add: st_inv_row)

lemma st_inv_pass: "prop_inv k0 root k r \<Longrightarrow> st_inv k0 root (prop_pass k r)"
  unfolding prop_pass_def by (rule st_inv_rows) (auto simp: st_inv_def)

text \<open>A pass that changed nothing has seen no revocable capability.\<close>

definition quiet :: "prop_state \<Rightarrow> bool" where
  "quiet st = (case st of (_, _, c) \<Rightarrow> \<not> c)"

lemma quiet_slot: "quiet (prop_slot t s st) \<Longrightarrow> quiet st"
  using prop_slot_grows [of t s "fst st" "fst (snd st)" "snd (snd st)"]
  by (cases st; cases "prop_slot t s st") (auto simp: quiet_def)

lemma quiet_row: "quiet (fold (prop_slot t) ss st) \<Longrightarrow> quiet st"
proof (induction ss arbitrary: st)
  case (Cons s ss)
  then have "quiet (prop_slot t s st)" by simp
  then show ?case by (rule quiet_slot)
qed simp

lemma quiet_rows: "quiet (fold (\<lambda>t st. fold (prop_slot t) [0..<MAX_CAPS] st) ts st) \<Longrightarrow> quiet st"
proof (induction ts arbitrary: st)
  case (Cons t ts)
  then have "quiet (fold (prop_slot t) [0..<MAX_CAPS] st)" by simp
  then show ?case by (rule quiet_row)
qed simp

definition same_caps :: "prop_state \<Rightarrow> prop_state \<Rightarrow> bool" where
  "same_caps st st' \<longleftrightarrow> cap_view (fst st') = cap_view (fst st) \<and> fst (snd st') = fst (snd st)"

definition unrevocable :: "prop_state \<Rightarrow> nat \<Rightarrow> nat \<Rightarrow> bool" where
  "unrevocable st t s \<longleftrightarrow> \<not> revocable (fst (snd st)) (cap_view (fst st) (t, s))"

lemma unrevocable_same: "same_caps st st' \<Longrightarrow> unrevocable st' t s = unrevocable st t s"
  by (simp add: same_caps_def unrevocable_def)

lemma same_caps_refl [simp]: "same_caps st st"
  by (simp add: same_caps_def)

lemma same_caps_trans: "same_caps a b \<Longrightarrow> same_caps b c \<Longrightarrow> same_caps a c"
  by (simp add: same_caps_def)

lemma quiet_slot_same:
  assumes "st_inv k0 root st" and "t < MAX_TASKS" and "quiet (prop_slot t s st)"
  shows "same_caps st (prop_slot t s st) \<and> unrevocable st t s"
proof -
  obtain k r c where st: "st = (k, r, c)" by (cases st)
  have inv: "prop_inv k0 root k r" using assms(1) st by (simp add: st_inv_def)
  show ?thesis
  proof (cases "revocable r (cap_view k (t, s))")
    case True
    then obtain cp where v: "cap_view k (t, s) = Some cp" by (auto simp: revocable_def split: option.splits)
    obtain k' r' c' where p: "prop_slot t s st = (k', r', c')" by (cases "prop_slot t s st")
    have "c'" using prop_slot_revoke(3) [of k t s cp r c k' r' c'] inv v True prop_inv_room [OF inv, of "(t, s)"] p st
      by (simp add: prop_inv_def)
    then show ?thesis using assms(3) p by (simp add: quiet_def)
  next
    case False
    then obtain tr where "prop_slot t s st = (k\<lparr>trace := tr\<rparr>, r, c)"
      using prop_slot_skip [of r k t s c] assms(2) st by blast
    then show ?thesis using False st by (simp add: same_caps_def unrevocable_def)
  qed
qed

lemma quiet_row_same:
  assumes "st_inv k0 root st" and "t < MAX_TASKS" and "quiet (fold (prop_slot t) ss st)"
  shows "same_caps st (fold (prop_slot t) ss st) \<and> (\<forall>s\<in>set ss. unrevocable st t s)"
  using assms
proof (induction ss arbitrary: st)
  case (Cons s ss)
  have q: "quiet (prop_slot t s st)" using Cons.prems(3) quiet_row by simp
  note one = quiet_slot_same [OF Cons.prems(1,2) q]
  have rest: "same_caps (prop_slot t s st) (fold (prop_slot t) ss (prop_slot t s st)) \<and>
      (\<forall>x\<in>set ss. unrevocable (prop_slot t s st) t x)"
    using Cons.prems st_inv_slot by (intro Cons.IH) simp_all
  have "same_caps st (fold (prop_slot t) ss (prop_slot t s st))"
    by (rule same_caps_trans [OF conjunct1 [OF one] conjunct1 [OF rest]])
  then show ?case
    using one rest unrevocable_same [of st "prop_slot t s st"] by simp
qed simp

lemma quiet_rows_same:
  assumes "st_inv k0 root st" and "\<forall>t\<in>set ts. t < MAX_TASKS"
    and "quiet (fold (\<lambda>t st. fold (prop_slot t) [0..<MAX_CAPS] st) ts st)"
  shows "same_caps st (fold (\<lambda>t st. fold (prop_slot t) [0..<MAX_CAPS] st) ts st) \<and>
    (\<forall>t\<in>set ts. \<forall>s<MAX_CAPS. unrevocable st t s)"
  using assms
proof (induction ts arbitrary: st)
  case (Cons t ts)
  let ?st = "fold (prop_slot t) [0..<MAX_CAPS] st"
  have t: "t < MAX_TASKS" using Cons.prems(2) by simp
  have q: "quiet ?st" using Cons.prems(3) quiet_rows by simp
  note one = quiet_row_same [OF Cons.prems(1) t q]
  have rest: "same_caps ?st (fold (\<lambda>t st. fold (prop_slot t) [0..<MAX_CAPS] st) ts ?st) \<and>
      (\<forall>t\<in>set ts. \<forall>s<MAX_CAPS. unrevocable ?st t s)"
    using Cons.prems st_inv_row [OF Cons.prems(1) t] by (intro Cons.IH) simp_all
  have "same_caps st (fold (\<lambda>t st. fold (prop_slot t) [0..<MAX_CAPS] st) ts ?st)"
    by (rule same_caps_trans [OF conjunct1 [OF one] conjunct1 [OF rest]])
  then show ?case
    using one rest unrevocable_same [of st ?st] by simp
qed simp

lemma prop_loop_spec:
  "prop_inv k0 root k r \<Longrightarrow> prop_loop k r = (k', r') \<Longrightarrow>
   prop_inv k0 root k' r' \<and> (\<forall>p\<in>all_slots. \<not> revocable r' (cap_view k' p))"
proof (induction k r rule: prop_loop.induct)
  case (1 k r)
  obtain k1 r1 c1 where p: "prop_pass k r = (k1, r1, c1)" by (cases "prop_pass k r")
  have inv1: "prop_inv k0 root k1 r1" using st_inv_pass [OF "1.prems"(1)] p by (simp add: st_inv_def)
  show ?case
  proof (cases c1)
    case True
    then have "prop_loop k1 r1 = (k', r')" using "1.prems"(2) p by (simp add: prop_loop.simps [of k r])
    then show ?thesis using "1.IH" [OF p [symmetric] refl] True inv1 by simp
  next
    case False
    then have eq: "k' = k1" "r' = r1" using "1.prems"(2) p by (simp_all add: prop_loop.simps [of k r])
    have st: "st_inv k0 root (k, r, False)" using "1.prems"(1) by (simp add: st_inv_def)
    have "quiet (prop_pass k r)" using p False by (simp add: quiet_def)
    then have "same_caps (k, r, False) (prop_pass k r) \<and>
        (\<forall>t\<in>set [0..<MAX_TASKS]. \<forall>s<MAX_CAPS. unrevocable (k, r, False) t s)"
      unfolding prop_pass_def by (intro quiet_rows_same [OF st]) simp_all
    then have "cap_view k1 = cap_view k" "r1 = r" "\<forall>p\<in>all_slots. \<not> revocable r (cap_view k p)"
      using p by (auto simp: same_caps_def unrevocable_def all_slots_def)
    then show ?thesis using inv1 eq by simp
  qed
qed

text \<open>The fixpoint has collected the whole lineage.\<close>

lemma lineage_collected:
  assumes "prop_inv k0 root k r" and "\<forall>p\<in>all_slots. \<not> revocable r (cap_view k p)"
  shows "lineage k0 root = set r"
proof
  show "set r \<subseteq> lineage k0 root" using assms(1) by (simp add: prop_inv_def)
  show "lineage k0 root \<subseteq> set r"
  proof
    fix x assume "x \<in> lineage k0 root"
    then show "x \<in> set r"
    proof induction
      case root
      then show ?case using assms(1) by (simp add: prop_inv_def)
    next
      case (derived p c pid)
      have thin: "thinned k0 root k r p"
        using assms(1) unfolding prop_inv_def by (elim conjE) (rule spec)
      show ?case
      proof (cases "cap_view k p = cap_view k0 p")
        case True
        have "p \<in> all_slots" using cap_view_in [of k0 p] derived(1) by simp
        moreover have "revocable r (cap_view k p)"
          using True derived by (simp add: revocable_def)
        ultimately show ?thesis using assms(2) by blast
      next
        case False
        then show ?thesis using thin derived(1) by (simp add: thinned_def)
      qed
    qed
  qed
qed

lemma propagate_revocation_inv:
  assumes "kernel_wf k"
  obtains r where "prop_inv k root (propagate_revocation root k) r" and "lineage k root = set r"
    and "\<forall>p\<in>all_slots. \<not> revocable r (cap_view (propagate_revocation root k) p)"
proof -
  obtain k' r where l: "prop_loop k [root] = (k', r)" by fastforce
  then have k': "propagate_revocation root k = k'" by (simp add: propagate_revocation_def)
  note spec = prop_loop_spec [OF prop_inv_start [OF assms] l]
  have "lineage k root = set r"
    by (rule lineage_collected [OF conjunct1 [OF spec] conjunct2 [OF spec]])
  then show ?thesis using that [of r] spec k' by simp
qed

lemma propagate_revocation_view:
  assumes "kernel_wf k"
  shows "cap_view (propagate_revocation root k) p =
    (case cap_view k p of Some c \<Rightarrow> if in_lineage k root c then None else Some c | None \<Rightarrow> None)"
proof -
  let ?k = "propagate_revocation root k"
  obtain r where inv: "prop_inv k root ?k r" and lin: "lineage k root = set r"
    and fix1: "\<forall>p\<in>all_slots. \<not> revocable r (cap_view ?k p)"
    using propagate_revocation_inv [OF assms] .
  have thin: "thinned k root ?k r p" using inv unfolding prop_inv_def by (elim conjE) (rule spec)
  show ?thesis
  proof (cases "cap_view k p")
    case None
    then show ?thesis using thin by (simp add: thinned_def)
  next
    case (Some c)
    have "p \<in> all_slots" using cap_view_in [of k p] Some by simp
    then have nr: "\<not> revocable r (cap_view ?k p)" using fix1 by blast
    show ?thesis
    proof (cases "in_lineage k root c")
      case True
      then have "revocable r (Some c)" using lin by (auto simp: in_lineage_def revocable_def)
      then have "cap_view ?k p \<noteq> Some c" using nr by auto
      then show ?thesis using thin Some True by (auto simp: thinned_def)
    next
      case False
      then show ?thesis using thin Some by (auto simp: thinned_def)
    qed
  qed
qed

lemma propagate_revocation_frame:
  assumes "kernel_wf k"
  shows "kernel_wf (propagate_revocation root k)"
    and "list_all2 (rel_option same_but_caps) (tasks k) (tasks (propagate_revocation root k))"
    and "current_task_id (propagate_revocation root k) = current_task_id k"
    and "al_total (audit (propagate_revocation root k)) =
      al_total (audit k) + card (held k - held (propagate_revocation root k))"
proof -
  let ?k = "propagate_revocation root k"
  obtain r where inv: "prop_inv k root ?k r"
    using propagate_revocation_inv [OF assms, of root] by blast
  show "kernel_wf ?k" "list_all2 (rel_option same_but_caps) (tasks k) (tasks ?k)"
    "current_task_id ?k = current_task_id k"
    using inv by (simp_all add: prop_inv_def)
  have "held ?k \<subseteq> held k"
    using propagate_revocation_view [OF assms, of root] by (auto simp: held_def split: option.splits if_splits)
  then have "card (held k - held ?k) = card (held k) - card (held ?k)" "card (held ?k) \<le> card (held k)"
    by (simp_all add: card_Diff_subset card_mono)
  then show "al_total (audit ?k) = al_total (audit k) + card (held k - held ?k)"
    using inv unfolding prop_inv_def by linarith
qed

subsection \<open>The handlers\<close>

lemma get_task_same_caps:
  assumes "list_all2 (rel_option same_but_caps) (tasks k) (tasks k')"
  shows "rel_option same_but_caps (get_task k i) (get_task k' i)"
proof (cases "i < length (tasks k)")
  case True
  have len: "length (tasks k') = length (tasks k)" using assms by (simp add: list_all2_conv_all_nth)
  have "rel_option same_but_caps (tasks k ! i) (tasks k' ! i)"
    using assms True by (simp add: list_all2_conv_all_nth)
  moreover have "t_id t' = t_id t" if "same_but_caps t t'" for t t'
    using that by (cases t; cases t') (simp add: same_but_caps_def)
  ultimately show ?thesis
    using True len by (cases "tasks k ! i"; cases "tasks k' ! i") (auto simp: get_task_def)
next
  case False
  then show ?thesis using assms by (simp add: get_task_def list_all2_conv_all_nth)
qed

lemma cap_view_get_task:
  "kernel_wf k \<Longrightarrow> cap_view k (t, s) = (case get_task k t of Some x \<Rightarrow> cap_at (t_caps x) s | None \<Rightarrow> None)"
  using kernel_wf_get_task [of k t] kernel_wf_task [of k t]
  by (cases "t < MAX_TASKS") (auto simp: cap_view_def split: option.split)

lemma cap_view_update_caps:
  assumes "kernel_wf k" and "get_task k t = Some x" and "cap_at caps = (cap_at (t_caps x))(s := v)"
    and "cap_table_wf caps"
  shows "cap_view (update_task t (\<lambda>x. x\<lparr>t_caps := caps\<rparr>) k) = (cap_view k)((t, s) := v)"
    and "kernel_wf (update_task t (\<lambda>x. x\<lparr>t_caps := caps\<rparr>) k)"
proof -
  let ?k = "update_task t (\<lambda>x. x\<lparr>t_caps := caps\<rparr>) k"
  show wf': "kernel_wf ?k"
    using assms(1,4) by (intro kernel_wf_update_task) (auto simp: task_wf_def)
  show "cap_view ?k = (cap_view k)((t, s) := v)"
  proof
    fix p :: "nat \<times> nat"
    obtain a b where p: "p = (a, b)" by (cases p)
    show "cap_view ?k p = ((cap_view k)((t, s) := v)) p"
      unfolding p cap_view_get_task [OF wf'] fun_upd_apply cap_view_get_task [OF assms(1)]
      using assms(2,3) by (auto simp: get_task_update_task)
  qed
qed

lemma next_cap_id_frame [simp]:
  "get_task (k\<lparr>next_cap_id_ctr := n\<rparr>) i = get_task k i" "kernel_wf (k\<lparr>next_cap_id_ctr := n\<rparr>) = kernel_wf k"
  by (simp_all add: get_task_def kernel_wf_def cong: option.case_cong)

lemma cap_view_next_cap_id [simp]: "cap_view (k\<lparr>next_cap_id_ctr := n\<rparr>) = cap_view k"
  by (rule ext) (simp add: cap_view_def)

lemma cap_view_same_but_trace: "same_but_trace k k' \<Longrightarrow> cap_view k' = cap_view k"
  unfolding cap_view_def [abs_def] by (simp only: same_but_trace_kernel(1))

text \<open>
  A grant that succeeds installs, in the first free slot of the target, the donor's capability
  clamped to the requested rights and stamped with the donor's identity; nothing else changes in
  any table, and the grant is on record.
\<close>

lemma dispatch_cap_grant_Ok:
  assumes wf: "kernel_wf k" and ok: "dispatch_cap_grant caller src target rights k = (0, k')"
  shows "\<exists>c s d. cap_view k (caller, src) = Some c \<and> cap_grant c \<and>
    cap_view k (target, s) = None \<and> (\<forall>j < s. cap_view k (target, j) \<noteq> None) \<and>
    cap_view k' = (cap_view k)((target, s) := Some d) \<and>
    rights_of d = inf (rights_of c) rights \<and> cap_resource d = cap_resource c \<and>
    cap_origin d = Some (cap_id c) \<and> cap_id d = next_cap_id_ctr k \<and> \<not> cap_sealed d \<and>
    next_cap_id_ctr k' = next_cap_id_ctr k + 1 \<and> kernel_wf k' \<and>
    audit k' = audit_record Grant caller target (cap_resource c) s (audit k)"
proof -
  have max: "u64_MAX \<noteq> 0" by (simp add: u64_MAX_def)
  obtain x where x: "get_task k caller = Some x"
    using ok max by (auto simp: dispatch_cap_grant_def split: option.splits)
  obtain g k1 where g: "CapTable_get (t_caps x) src k = (g, k1)" by fastforce
  have same: "same_but_trace k k1" using CapTable_get_same [of k "t_caps x" src] g by simp
  note k1 = same_but_trace_kernel [OF same]
  obtain c where c: "g = Some c" using ok max x g by (cases g) (auto simp: dispatch_cap_grant_def)
  have cv: "cap_view k (caller, src) = Some c"
    using cap_view_get_task [OF wf] x CapTable_get_fst [of "t_caps x" src k] g c by simp
  obtain d0 where d0: "attenuate c rights = Some d0"
    using ok max x g c by (cases "attenuate c rights") (auto simp: dispatch_cap_grant_def)
  let ?d = "d0\<lparr>cap_origin := Some (cap_id c)\<rparr>"
  obtain t where t: "get_task k target = Some t"
    using ok max x g c d0 k1(6) by (cases "get_task k target") (auto simp: dispatch_cap_grant_def)
  obtain r caps k2 where ins: "CapTable_insert ?d (t_caps t) k1 = (r, caps, k2)"
    using prod_cases3 by blast
  obtain s where s: "r = Some s"
    using ok max x g c d0 t k1(6) ins by (cases r) (auto simp: dispatch_cap_grant_def)
  have twf: "cap_table_wf (t_caps t)" using kernel_wf_task [OF wf t] by (simp add: task_wf_def)
  note ci = CapTable_insert_Some [OF twf ins [unfolded s]] CapTable_insert_wf [OF twf ins]
  let ?e = "?d\<lparr>cap_id := next_cap_id_ctr k\<rparr>"
  have same2: "same_but_trace (k1\<lparr>next_cap_id_ctr := next_cap_id_ctr k1 + 1\<rparr>) k2"
    by (rule CapTable_insert_globals [OF ins])
  note k2 = same_but_trace_kernel [OF same2]
  have gt2: "get_task k2 i = get_task k i" for i
    using k2(6) [of i] k1(6) [of i] by simp
  have wf2: "kernel_wf k2" using k2(7) k1(7) wf by simp
  have caps: "cap_at caps = (cap_at (t_caps t))(s := Some ?e)" using ci k1(8) by simp
  have view2: "cap_view k2 = cap_view k"
    using cap_view_same_but_trace [OF same2] cap_view_same_but_trace [OF same] by simp
  note up = cap_view_update_caps [OF wf2, of target t caps s "Some ?e", unfolded gt2, OF t caps ci(2)]
  let ?k3 = "update_task target (\<lambda>t. t\<lparr>t_caps := caps\<rparr>) k2"
  have k': "k' = ?k3\<lparr>audit := audit_record Grant caller target (cap_resource ?d) s (audit ?k3)\<rparr>"
    using ok x g c d0 t k1(6) ins s by (simp add: dispatch_cap_grant_def)
  have "audit ?k3 = audit k" using k2(2) k1(2) by simp
  moreover have "next_cap_id_ctr k' = next_cap_id_ctr k + 1"
    unfolding k' using k2(8) k1(8) by simp
  moreover have "kernel_wf k'"
    unfolding k' using up(2) by (simp add: kernel_wf_def)
  moreover have "cap_view k' = (cap_view k)((target, s) := Some ?e)"
    unfolding k' cap_view_simps up(1) view2 by (rule refl)
  moreover have "cap_view k (target, s) = None" "\<forall>j < s. cap_view k (target, j) \<noteq> None"
    using cap_view_get_task [OF wf] t ci(1) by auto
  ultimately show ?thesis
    using cv attenuate_Some [OF d0] k'
    by (intro exI [of _ c] exI [of _ s] exI [of _ ?e]) (auto simp: rights_of_def)
qed

text \<open>A refused grant leaves every table and the audit log alone.\<close>

lemma dispatch_cap_grant_refused:
  assumes wf: "kernel_wf k" and res: "dispatch_cap_grant caller src target rights k = (r, k')" and r: "r \<noteq> 0"
  shows "cap_view k' = cap_view k \<and> audit k' = audit k \<and> kernel_wf k'"
proof (cases "get_task k caller")
  case None
  then show ?thesis using res wf by (simp add: dispatch_cap_grant_def)
next
  case (Some x)
  obtain g k1 where g: "CapTable_get (t_caps x) src k = (g, k1)" by fastforce
  have same: "same_but_trace k k1" using CapTable_get_same [of k "t_caps x" src] g by simp
  note k1 = same_but_trace_kernel [OF same] cap_view_same_but_trace [OF same]
  show ?thesis
  proof (cases "k' = k1")
    case True
    then show ?thesis using k1 wf by simp
  next
    case False
    obtain c d t where c: "g = Some c" "attenuate c rights = Some d" "get_task k target = Some t"
      using False res Some g k1(6)
      by (cases g; cases "get_task k target") (auto simp: dispatch_cap_grant_def split: option.splits)
    let ?d = "d\<lparr>cap_origin := Some (cap_id c)\<rparr>"
    obtain s caps k2 where ins: "CapTable_insert ?d (t_caps t) k1 = (s, caps, k2)"
      using prod_cases3 by blast
    have s: "s = None" using res r Some g c k1(6) ins by (cases s) (auto simp: dispatch_cap_grant_def)
    have twf: "cap_table_wf (t_caps t)" using kernel_wf_task [OF wf c(3)] by (simp add: task_wf_def)
    have caps: "caps = t_caps t" using CapTable_insert_None [OF twf ins [unfolded s]] by simp
    have k': "k' = update_task target (\<lambda>t. t\<lparr>t_caps := caps\<rparr>) k2"
      using res Some g c k1(6) ins s by (simp add: dispatch_cap_grant_def)
    note same2 = CapTable_insert_globals [OF ins]
    note k2 = same_but_trace_kernel [OF same2] cap_view_same_but_trace [OF same2]
    have gt: "get_task k2 target = Some t" using k2(6) [of target] k1(6) [of target] c(3) by simp
    have "k' = update_task target (\<lambda>_. t) k2" using gt caps k' by (simp add: update_task_def)
    then have "k' = k2" using update_task_id [OF gt] by simp
    then show ?thesis using k2 k1 wf by simp
  qed
qed

text \<open>Removing the root from its slot does not change its lineage.\<close>

lemma lineage_remove_root:
  assumes "cap_view k p0 = Some c" and "cap_view k' = (cap_view k)(p0 := None)"
  shows "lineage k' (cap_id c) = lineage k (cap_id c)"
proof
  show "lineage k' (cap_id c) \<subseteq> lineage k (cap_id c)"
  proof
    fix x assume "x \<in> lineage k' (cap_id c)"
    then show "x \<in> lineage k (cap_id c)"
    proof induction
      case root
      then show ?case by (rule lineage.root)
    next
      case (derived p d pid)
      then have "cap_view k p = Some d" using assms(2) by (auto split: if_splits)
      then show ?case using derived(2,4) by (rule lineage.derived)
    qed
  qed
  show "lineage k (cap_id c) \<subseteq> lineage k' (cap_id c)"
  proof
    fix x assume "x \<in> lineage k (cap_id c)"
    then show "x \<in> lineage k' (cap_id c)"
    proof induction
      case root
      then show ?case by (rule lineage.root)
    next
      case (derived p d pid)
      show ?case
      proof (cases "p = p0")
        case True
        then show ?thesis using derived(1) assms(1) by (simp add: lineage.root)
      next
        case False
        then have "cap_view k' p = Some d" using assms(2) derived(1) by simp
        then show ?thesis using derived(2,4) by (rule lineage.derived)
      qed
    qed
  qed
qed

lemma dispatch_cap_revoke_Ok:
  assumes wf: "kernel_wf k" and gate: "current_has_grant_cap_to k target"
    and c: "cap_view k (target, idx) = Some c" and res: "dispatch_cap_revoke caller target idx k = (r, k')"
  shows "r = 0" and "kernel_wf k'"
    and "cap_view k' p = (if p = (target, idx) then None
      else case cap_view k p of Some d \<Rightarrow> if in_lineage k (cap_id c) d then None else Some d | None \<Rightarrow> None)"
    and "al_total (audit k') = al_total (audit k) + card (held k - held k')"
proof -
  obtain t where t: "get_task k target = Some t" "cap_at (t_caps t) idx = Some c"
    using c cap_view_get_task [OF wf] by (auto split: option.splits)
  have twf: "cap_table_wf (t_caps t)" using kernel_wf_task [OF wf t(1)] by (simp add: task_wf_def)
  obtain d caps k1 where kr: "CapTable_kernel_revoke idx (t_caps t) k = (d, caps, k1)"
    using prod_cases3 by blast
  have d: "d = Some c" and caps: "cap_at caps = (cap_at (t_caps t))(idx := None)" and cwf: "cap_table_wf caps"
    using CapTable_kernel_revoke_spec [OF twf kr] CapTable_kernel_revoke_wf [OF twf kr] t(2) by auto
  note same = CapTable_kernel_revoke_same [OF kr]
  note k1 = same_but_trace_kernel [OF same]
  have wf1: "kernel_wf k1" and t1: "get_task k1 target = Some t" using k1(6,7) wf t(1) by simp_all
  note up = cap_view_update_caps [OF wf1 t1 caps cwf]
  let ?k2 = "update_task target (\<lambda>t. t\<lparr>t_caps := caps\<rparr>) k1"
  let ?k3 = "?k2\<lparr>audit := audit_record Revoke caller target (cap_resource c) idx (audit ?k2)\<rparr>"
  have res': "r = 0" "k' = propagate_revocation (cap_id c) ?k3"
    using res gate t(1) kr d by (simp_all add: dispatch_cap_revoke_def)
  have wf3: "kernel_wf ?k3" using up(2) by (simp add: kernel_wf_def)
  have view3: "cap_view ?k3 = (cap_view k)((target, idx) := None)"
    using up(1) cap_view_same_but_trace [OF same] by simp
  have lin: "in_lineage ?k3 (cap_id c) = in_lineage k (cap_id c)"
    using lineage_remove_root [OF c view3] by (simp add: in_lineage_def fun_eq_iff)
  show "r = 0" by (rule res'(1))
  show "kernel_wf k'" unfolding res'(2) by (rule propagate_revocation_frame(1) [OF wf3])
  have view: "cap_view k' p = (if p = (target, idx) then None
      else case cap_view k p of Some d \<Rightarrow> if in_lineage k (cap_id c) d then None else Some d | None \<Rightarrow> None)" for p
    unfolding res'(2) propagate_revocation_view [OF wf3] view3 lin by simp
  show "cap_view k' p = (if p = (target, idx) then None
      else case cap_view k p of Some d \<Rightarrow> if in_lineage k (cap_id c) d then None else Some d | None \<Rightarrow> None)"
    by (rule view)
  have "held ?k3 = held k - {(target, idx)}" using view3 by (auto simp: held_def)
  moreover have "(target, idx) \<in> held k" "(target, idx) \<notin> held k'" using c view by (simp_all add: held_def)
  ultimately have "held k - held k' = insert (target, idx) (held ?k3 - held k')"
    and "(target, idx) \<notin> held ?k3 - held k'" by auto
  then have "card (held k - held k') = Suc (card (held ?k3 - held k'))" by simp
  then show "al_total (audit k') = al_total (audit k) + card (held k - held k')"
    unfolding res'(2) propagate_revocation_frame(4) [OF wf3] using k1(2) by simp
qed

lemma dispatch_cap_revoke_refused:
  assumes wf: "kernel_wf k" and no: "\<not> current_has_grant_cap_to k target \<or> cap_view k (target, idx) = None"
    and res: "dispatch_cap_revoke caller target idx k = (r, k')"
  shows "r = u64_MAX \<and> cap_view k' = cap_view k \<and> audit k' = audit k \<and> kernel_wf k'"
proof (cases "current_has_grant_cap_to k target \<and> get_task k target \<noteq> None")
  case False
  then show ?thesis using res wf by (auto simp: dispatch_cap_revoke_def split: option.splits)
next
  case True
  then obtain t where t: "get_task k target = Some t" by auto
  have none: "cap_at (t_caps t) idx = None" using no True t cap_view_get_task [OF wf] by simp
  have twf: "cap_table_wf (t_caps t)" using kernel_wf_task [OF wf t] by (simp add: task_wf_def)
  obtain d caps k1 where kr: "CapTable_kernel_revoke idx (t_caps t) k = (d, caps, k1)"
    using prod_cases3 by blast
  have d: "d = None" and caps: "cap_at caps = (cap_at (t_caps t))(idx := None)" and cwf: "cap_table_wf caps"
    using CapTable_kernel_revoke_spec [OF twf kr] CapTable_kernel_revoke_wf [OF twf kr] none by auto
  note same = CapTable_kernel_revoke_same [OF kr]
  note k1 = same_but_trace_kernel [OF same]
  have wf1: "kernel_wf k1" and t1: "get_task k1 target = Some t" using k1(6,7) wf t by simp_all
  note up = cap_view_update_caps [OF wf1 t1 caps cwf]
  have "r = u64_MAX" and k': "k' = update_task target (\<lambda>t. t\<lparr>t_caps := caps\<rparr>) k1"
    using res True t kr d by (simp_all add: dispatch_cap_revoke_def)
  moreover have "(cap_view k)((target, idx) := None) = cap_view k"
    using none cap_view_get_task [OF wf] t by (simp add: fun_upd_idem)
  ultimately show ?thesis
    using up cap_view_same_but_trace [OF same] k1(2) by simp
qed

lemma kernel_wf_dispatch_cap_grant: "kernel_wf k \<Longrightarrow> kernel_wf (snd (dispatch_cap_grant c s t r k))"
  using dispatch_cap_grant_Ok [of k c s t r "snd (dispatch_cap_grant c s t r k)"]
    dispatch_cap_grant_refused [of k c s t r "fst (dispatch_cap_grant c s t r k)" "snd (dispatch_cap_grant c s t r k)"]
  by (cases "fst (dispatch_cap_grant c s t r k) = 0") (auto simp: prod_eq_iff)

lemma kernel_wf_dispatch_cap_revoke: "kernel_wf k \<Longrightarrow> kernel_wf (snd (dispatch_cap_revoke c t i k))"
  using dispatch_cap_revoke_Ok(2) [of k t i _ c "fst (dispatch_cap_revoke c t i k)" "snd (dispatch_cap_revoke c t i k)"]
    dispatch_cap_revoke_refused [of k t i c "fst (dispatch_cap_revoke c t i k)" "snd (dispatch_cap_revoke c t i k)"]
  by (cases "current_has_grant_cap_to k t"; cases "cap_view k (t, i)") auto

subsection \<open>Properties\<close>

text \<open>
  C1. Revoking a capability removes it and, transitively, every capability derived from it, in
  whatever table it sits, and no other capability. The caller must hold a channel to the target
  with the grant right and the slot must be occupied; then the result is 0, and a slot is emptied
  exactly when it is the named slot or the lineage of its capability leads to the revoked one. The
  audit log gains one event per capability removed.
\<close>

theorem revocation_is_transitive_and_exact:
  assumes "kernel_wf k" and "current_has_grant_cap_to k target"
    and "cap_view k (target, idx) = Some c"
    and "dispatch_cap_revoke caller target idx k = (r, k')"
  shows "r = 0 \<and>
    (\<forall>p. cap_view k' p =
      (case cap_view k p of
         Some d \<Rightarrow> if p = (target, idx) \<or> in_lineage k (cap_id c) d then None else Some d
       | None \<Rightarrow> None)) \<and>
    al_total (audit k') = al_total (audit k) + card (held k - held k')"
proof -
  note ok = dispatch_cap_revoke_Ok [OF assms]
  have "cap_view k' p =
      (case cap_view k p of
         Some d \<Rightarrow> if p = (target, idx) \<or> in_lineage k (cap_id c) d then None else Some d
       | None \<Rightarrow> None)" for p
    unfolding ok(3) using assms(3) by (auto split: option.split)
  then show ?thesis using ok(1,4) by blast
qed

lemma sample_cap_view:
  "cap_view (sample_kernel st) (t, s) =
     (if s = 0 then (if t = 1 then Some (channel_cap 2 7 None)
                     else if t = 2 then Some (channel_cap 1 8 (Some 7)) else None) else None)"
  by (auto simp: cap_view_def sample_tasks cap_at_table_with MAX_TASKS_def)

lemma sample_grants [simp]: "current_has_grant_cap_to (sample_kernel st) 2"
  by (simp add: current_has_grant_cap_to_def table_with_def grants_to_def channel_cap_def)

theorem revocation_is_transitive_and_exact_witness:
  "\<exists>r k'. dispatch_cap_revoke 1 2 0 (sample_kernel Ready) = (r, k') \<and> r = 0 \<and>
     cap_view k' (2, 0) = None \<and> cap_view k' (1, 0) = Some (channel_cap 2 7 None)"
proof -
  obtain r k' where d: "dispatch_cap_revoke 1 2 0 (sample_kernel Ready) = (r, k')" by fastforce
  show ?thesis
    using revocation_is_transitive_and_exact [OF kernel_wf_sample sample_grants _ d, of "channel_cap 1 8 (Some 7)"] d
    by (simp add: sample_cap_view in_lineage_def channel_cap_def)
qed

text \<open>
  C3. A grant that succeeds puts one new capability into the first free slot of the target and
  changes no other slot. The new capability is for the donor's resource, carries the meet of the
  donor's rights and the requested rights, is unsealed, has a fresh identity and names the donor's
  identity as its origin. The donor slot held the grant right, and the grant is recorded.
\<close>

theorem grant_attenuates_and_records:
  assumes "kernel_wf k" and "dispatch_cap_grant caller src target rights k = (0, k')"
  shows "\<exists>c s d. cap_view k (caller, src) = Some c \<and> cap_grant c \<and>
    cap_view k (target, s) = None \<and> (\<forall>j < s. cap_view k (target, j) \<noteq> None) \<and>
    cap_view k' = (cap_view k)((target, s) := Some d) \<and>
    rights_of d = inf (rights_of c) rights \<and> cap_resource d = cap_resource c \<and>
    cap_origin d = Some (cap_id c) \<and> cap_id d = next_cap_id_ctr k \<and> \<not> cap_sealed d \<and>
    next_cap_id_ctr k' = next_cap_id_ctr k + 1 \<and>
    audit k' = audit_record Grant caller target (cap_resource c) s (audit k)"
  using dispatch_cap_grant_Ok [OF assms] by blast

theorem grant_attenuates_and_records_witness:
  "\<exists>k' d. dispatch_cap_grant 1 0 2 (RightsMask True False False) (sample_kernel Ready) = (0, k') \<and>
     cap_view k' (2, 1) = Some d \<and> rights_of d = RightsMask True False False \<and> cap_origin d = Some 7"
proof -
  let ?k = "sample_kernel Ready" and ?m = "RightsMask True False False"
  obtain r k' where d: "dispatch_cap_grant 1 0 2 ?m ?k = (r, k')" by fastforce
  then have r: "r = 0"
    by (simp add: dispatch_cap_grant_def CapTable_get_def channel_cap_def attenuate_def log_trace_def
        CapTable_insert_def next_cap_id_def first_free_table_with MAX_CAPS_def Let_def)
  from grant_attenuates_and_records [OF kernel_wf_sample d [unfolded r]]
  obtain c s e where e: "cap_view ?k (1, 0) = Some c" "cap_view ?k (2, s) = None"
    "\<forall>j < s. cap_view ?k (2, j) \<noteq> None" "cap_view k' = (cap_view ?k)((2, s) := Some e)"
    "rights_of e = inf (rights_of c) ?m" "cap_origin e = Some (cap_id c)" by blast
  have c: "c = channel_cap 2 7 None" using e(1) by (simp add: sample_cap_view)
  have "s = 1"
    using e(2) e(3) [rule_format, of 1] by (cases "1 < s") (auto simp: sample_cap_view split: if_splits)
  then show ?thesis
    using d r e(4-6) c by (auto simp: rights_of_def channel_cap_def inf_rights_mask_def)
qed

subsection \<open>Authority never grows\<close>

text \<open>Any sequence of grants and revocations, by any callers.\<close>

inductive cap_steps :: "kernel \<Rightarrow> kernel \<Rightarrow> bool" where
  cap_start: "cap_steps k k"
| cap_granted: "cap_steps k k1 \<Longrightarrow> dispatch_cap_grant caller src target rights k1 = (x, k2) \<Longrightarrow> cap_steps k k2"
| cap_revoked: "cap_steps k k1 \<Longrightarrow> dispatch_cap_revoke caller target idx k1 = (x, k2) \<Longrightarrow> cap_steps k k2"

definition covers :: "kernel \<Rightarrow> capability \<Rightarrow> bool" where
  "covers k d \<longleftrightarrow> (\<exists>p c. cap_view k p = Some c \<and> cap_resource d = cap_resource c \<and> rights_of d \<le> rights_of c)"

lemma covers_held: "cap_view k p = Some d \<Longrightarrow> covers k d"
  unfolding covers_def by blast

lemma dispatch_cap_revoke_view:
  assumes "kernel_wf k" "dispatch_cap_revoke caller target idx k = (x, k')" "cap_view k' p = Some d"
  shows "cap_view k p = Some d"
proof (cases "current_has_grant_cap_to k target \<and> cap_view k (target, idx) \<noteq> None")
  case True
  then obtain c where c: "cap_view k (target, idx) = Some c" by blast
  show ?thesis
    using dispatch_cap_revoke_Ok(3) [OF assms(1) conjunct1 [OF True] c assms(2), of p] assms(3)
    by (auto split: if_splits option.splits)
next
  case False
  then show ?thesis using dispatch_cap_revoke_refused [OF assms(1) _ assms(2)] assms(3) by auto
qed

lemma dispatch_cap_grant_covered:
  assumes "kernel_wf k" "dispatch_cap_grant caller src target rights k = (x, k')" "cap_view k' p = Some d"
  shows "covers k d"
proof (cases "x = 0")
  case True
  obtain c s e where g: "cap_view k (caller, src) = Some c" "cap_view k' = (cap_view k)((target, s) := Some e)"
    "rights_of e = inf (rights_of c) rights" "cap_resource e = cap_resource c"
    using dispatch_cap_grant_Ok [OF assms(1) assms(2) [unfolded True]] by blast
  show ?thesis
  proof (cases "p = (target, s)")
    case True
    then have "d = e" using assms(3) g(2) by simp
    then show ?thesis
      unfolding covers_def using g by (intro exI [of _ "(caller, src)"] exI [of _ c]) simp
  next
    case False
    then show ?thesis using assms(3) g(2) covers_held by simp
  qed
next
  case False
  then show ?thesis
    using dispatch_cap_grant_refused [OF assms(1,2)] assms(3) covers_held by simp
qed

lemma covers_trans: "covers k d \<Longrightarrow> (\<And>p c. cap_view k p = Some c \<Longrightarrow> covers k0 c) \<Longrightarrow> covers k0 d"
  unfolding covers_def by (metis order_trans)

text \<open>
  C2. Authority never grows. After any sequence of grants and revocations, by whatever callers, every
  capability in any table is for a resource that some capability named at the beginning, and has no
  right that one did not have; and the kernel is still well formed.
\<close>

theorem authority_never_grows:
  assumes "cap_steps k k'" "kernel_wf k" "cap_view k' q = Some d"
  shows "kernel_wf k' \<and> (\<exists>p c. cap_view k p = Some c \<and> cap_resource d = cap_resource c \<and> rights_of d \<le> rights_of c)"
proof -
  have "kernel_wf k' \<and> (\<forall>q d. cap_view k' q = Some d \<longrightarrow> covers k d)"
    using assms(1,2)
  proof (induction rule: cap_steps.induct)
    case (cap_start k)
    then show ?case using covers_held by blast
  next
    case (cap_granted k k1 caller src target rights x k2)
    then have ih: "kernel_wf k1" "\<And>q d. cap_view k1 q = Some d \<Longrightarrow> covers k d" by auto
    have "covers k d" if "cap_view k2 q = Some d" for q d
      by (rule covers_trans [OF dispatch_cap_grant_covered [OF ih(1) cap_granted.hyps(2) that] ih(2)])
    then show ?case
      using kernel_wf_dispatch_cap_grant [OF ih(1), of caller src target rights] cap_granted.hyps(2) by simp
  next
    case (cap_revoked k k1 caller target idx x k2)
    then have ih: "kernel_wf k1" "\<And>q d. cap_view k1 q = Some d \<Longrightarrow> covers k d" by auto
    have "covers k d" if "cap_view k2 q = Some d" for q d
      by (rule ih(2) [OF dispatch_cap_revoke_view [OF ih(1) cap_revoked.hyps(2) that]])
    then show ?case
      using kernel_wf_dispatch_cap_revoke [OF ih(1), of caller target idx] cap_revoked.hyps(2) by simp
  qed
  then have "kernel_wf k'" "covers k d" using assms(3) by blast+
  then show ?thesis unfolding covers_def by blast
qed

theorem authority_never_grows_witness:
  "\<exists>k' d. dispatch_cap_grant 1 0 2 (RightsMask True False False) (sample_kernel Ready) = (0, k') \<and>
     cap_view k' (2, 1) = Some d \<and>
     (\<exists>p c. cap_view (sample_kernel Ready) p = Some c \<and> cap_resource d = cap_resource c \<and> rights_of d \<le> rights_of c)"
proof -
  let ?k = "sample_kernel Ready" and ?m = "RightsMask True False False"
  obtain r k' where d: "dispatch_cap_grant 1 0 2 ?m ?k = (r, k')" by fastforce
  then have r: "r = 0"
    by (simp add: dispatch_cap_grant_def CapTable_get_def channel_cap_def attenuate_def log_trace_def
        CapTable_insert_def next_cap_id_def first_free_table_with MAX_CAPS_def Let_def)
  obtain c s e where g: "cap_view ?k (2, s) = None" "\<forall>j < s. cap_view ?k (2, j) \<noteq> None" "cap_view k' = (cap_view ?k)((2, s) := Some e)"
    using dispatch_cap_grant_Ok [OF kernel_wf_sample d [unfolded r]] by blast
  have "s = 1" using g(1,2) by (cases s) (auto simp: sample_cap_view dest!: spec [of _ 1])
  then have v: "cap_view k' (2, 1) = Some e" using g(3) by simp
  have "cap_steps ?k k'" by (rule cap_steps.cap_granted [OF cap_steps.cap_start d])
  from authority_never_grows [OF this kernel_wf_sample v] show ?thesis using d r v by blast
qed

end
