(* ===== verification/Userspace.thy ===== *)
theory Userspace
  imports Revocation
begin

text \<open>
  Loading the built-in user programs, \<open>userspace/mod.rs\<close>: a fresh address space with a code page
  and a stack page, the program copied into the code frame through the direct map, and a ring-3
  task bound to that space. The machine code of the programs comes from the assembler and is part
  of \<open>layout\<close>.
\<close>

definition USER_CODE_VADDR :: u64 where
  "USER_CODE_VADDR = 0x00400000"

definition USER_STACK_VADDR :: u64 where
  "USER_STACK_VADDR = 0x007ff000"

definition USER_STACK_TOP :: u64 where
  "USER_STACK_TOP = 0x00800000"

text \<open>\<open>copy_nonoverlapping(blob_start, dst, len)\<close> at a kernel address.\<close>

definition copy_blob :: "u64 \<Rightarrow> bytes \<Rightarrow> machine \<Rightarrow> machine" where
  "copy_blob dst blob m = fold (\<lambda>(i, b) m. store_at (dst + of_nat i) b m) (enumerate 0 blob) m"

text \<open>The four fallible steps are unwrapped with \<open>expect\<close>, which panics.\<close>

definition expect :: "'a option \<times> 'b \<Rightarrow> ('a \<times> 'b) run" where
  "expect r = (case r of (Some x, m) \<Rightarrow> Ret (x, m) | (None, _) \<Rightarrow> Panic)"

definition spawn_user :: "task_id \<Rightarrow> bytes \<Rightarrow> cap_table \<Rightarrow> kernel \<Rightarrow> (task \<times> kernel) run" where
  "spawn_user i blob caps k =
     run_bind (expect (new_address_space (mach k))) (\<lambda>(pml4, m).
     run_bind (expect (allocate_frame m)) (\<lambda>(code_frame, m).
     run_bind (expect (allocate_frame m)) (\<lambda>(stack_frame, m).
     run_bind (expect (map_page_user_into pml4 USER_CODE_VADDR code_frame True m)) (\<lambda>(_, m).
     run_bind (expect (map_page_user_into pml4 USER_STACK_VADDR stack_frame True m)) (\<lambda>(_, m).
       let m = copy_blob (code_frame + hhdm_offset m) blob m
       in Task_new_user i USER_CODE_VADDR USER_STACK_TOP pml4 caps (k\<lparr>mach := m\<rparr>))))))"

definition spawn_demo_user_task :: "task_id \<Rightarrow> cap_table \<Rightarrow> kernel \<Rightarrow> (task \<times> kernel) run" where
  "spawn_demo_user_task i caps k = spawn_user i (user_blob (k_layout k)) caps k"

definition spawn_logger_task :: "task_id \<Rightarrow> cap_table \<Rightarrow> kernel \<Rightarrow> (task \<times> kernel) run" where
  "spawn_logger_task i caps k = spawn_user i (logger_blob (k_layout k)) caps k"

definition spawn_faulty_user_task :: "task_id \<Rightarrow> cap_table \<Rightarrow> kernel \<Rightarrow> (task \<times> kernel) run" where
  "spawn_faulty_user_task i caps k = spawn_user i (faulty_user_blob (k_layout k)) caps k"

definition spawn_async_sender_task :: "task_id \<Rightarrow> cap_table \<Rightarrow> kernel \<Rightarrow> (task \<times> kernel) run" where
  "spawn_async_sender_task i caps k = spawn_user i (async_sender_blob (k_layout k)) caps k"

definition spawn_async_receiver_task :: "task_id \<Rightarrow> cap_table \<Rightarrow> kernel \<Rightarrow> (task \<times> kernel) run" where
  "spawn_async_receiver_task i caps k = spawn_user i (async_receiver_blob (k_layout k)) caps k"

definition spawn_ramfs_task :: "task_id \<Rightarrow> cap_table \<Rightarrow> kernel \<Rightarrow> (task \<times> kernel) run" where
  "spawn_ramfs_task i caps k = spawn_user i (ramfs_blob (k_layout k)) caps k"

definition spawn_init_task :: "task_id \<Rightarrow> cap_table \<Rightarrow> kernel \<Rightarrow> (task \<times> kernel) run" where
  "spawn_init_task i caps k = spawn_user i (init_blob (k_layout k)) caps k"

definition spawn_preempt_user_task :: "task_id \<Rightarrow> cap_table \<Rightarrow> kernel \<Rightarrow> (task \<times> kernel) run" where
  "spawn_preempt_user_task i caps k = spawn_user i (preempt_user_blob (k_layout k)) caps k"

text \<open>A spawned task is a well-formed ready task with the given authority; only the machine and
  the spawn count of the kernel change.\<close>

lemma spawn_user_Ret:
  assumes "spawn_user i blob caps k = Ret (t, k')" and "cap_table_wf caps"
  shows "task_wf i t \<and> t_state t = Ready \<and> t_caps t = caps \<and> i < MAX_TASKS"
    and "k' = k\<lparr>tasks_spawned := tasks_spawned k + 1, mach := mach k'\<rparr>"
proof -
  obtain pml4 m where new: "Task_new_user i USER_CODE_VADDR USER_STACK_TOP pml4 caps (k\<lparr>mach := m\<rparr>) = Ret (t, k')"
    using assms(1) by (auto simp: spawn_user_def run_bind_Ret_iff Let_def split: prod.splits)
  show "task_wf i t \<and> t_state t = Ready \<and> t_caps t = caps \<and> i < MAX_TASKS"
    using Task_new_user_wf [OF new assms(2)] Task_new_user_Panic [of i USER_CODE_VADDR USER_STACK_TOP pml4 caps "k\<lparr>mach := m\<rparr>"] new
    by auto
  show "k' = k\<lparr>tasks_spawned := tasks_spawned k + 1, mach := mach k'\<rparr>"
    using Task_new_user_kernel [OF new] by simp
qed

subsection \<open>Spawning succeeds while frames last\<close>

text \<open>At least \<open>n\<close> frames are left, and the direct map is known.\<close>

definition has_frames :: "nat \<Rightarrow> machine \<Rightarrow> bool" where
  "has_frames n m \<longleftrightarrow> frames_inv m \<and> unat (next_free_paddr m) + n * 4096 \<le> unat (usable_end m) \<and> hhdm_response m \<noteq> None"

lemma has_frames_mem [simp]:
  "has_frames n (m\<lparr>mem := f\<rparr>) = has_frames n m" "has_frames n (zero_page b m) = has_frames n m"
  "has_frames n (write_entry t i v m) = has_frames n m"
  by (simp_all add: has_frames_def frames_inv_def zero_page_def write_entry_def)

lemma has_frames_mono: "has_frames n m \<Longrightarrow> j \<le> n \<Longrightarrow> has_frames j m"
  unfolding has_frames_def by (auto intro: order_trans [rotated])

lemma allocate_frame_has:
  assumes "has_frames (Suc n) m"
  shows "\<exists>p m'. allocate_frame m = (Some p, m') \<and> has_frames n m'"
proof -
  obtain f m' where a: "allocate_frame m = (f, m')" by fastforce
  have inv: "frames_inv m" and room: "unat (next_free_paddr m) + (4096 + n * 4096) \<le> unat (usable_end m)"
    using assms by (simp_all add: has_frames_def)
  show ?thesis
  proof (cases f)
    case None
    then show ?thesis using allocate_frame_None [OF inv] a room by simp
  next
    case (Some p)
    note s = allocate_frame_Some [OF inv a [unfolded Some]]
    have "has_frames n m'" using s assms room by (simp add: has_frames_def)
    then show ?thesis using a Some by blast
  qed
qed

lemma has_frames_fold: "has_frames n (fold (\<lambda>i m. write_entry t (f i) (g i m) m) is m) = has_frames n m"
  by (induction "is" arbitrary: m) simp_all

lemma new_address_space_has:
  assumes "has_frames (Suc n) m"
  shows "\<exists>p m'. new_address_space m = (Some p, m') \<and> has_frames n m'"
proof -
  obtain p m' where a: "allocate_frame m = (Some p, m')" "has_frames n m'" using allocate_frame_has [OF assms] by blast
  show ?thesis
    unfolding new_address_space_def Let_def a(1) prod.case option.case
    by (intro exI conjI, rule refl) (simp only: has_frames_fold has_frames_mem a(2))
qed

lemma get_or_create_has:
  assumes "has_frames (Suc n) m"
  shows "\<exists>p m'. get_or_create_table_user table i hhdm m = (Some p, m') \<and> has_frames n m'"
proof -
  obtain p m' where a: "allocate_frame m = (Some p, m')" "has_frames n m'" using allocate_frame_has [OF assms] by blast
  have "has_frames n m" using has_frames_mono [OF assms] by simp
  then show ?thesis using a by (simp add: get_or_create_table_user_def Let_def)
qed

lemma map_page_user_has:
  assumes "has_frames (3 + n) m"
  shows "\<exists>m'. map_page_user_into pml4 v p w m = (Some (), m') \<and> has_frames n m'"
proof -
  obtain h where h: "hhdm_response m = Some h" using assms by (auto simp: has_frames_def)
  have f: "has_frames (Suc (Suc (Suc n))) m" using assms by (simp add: numeral_3_eq_3)
  obtain p1 m1 where 1: "get_or_create_table_user (pml4 + h) (pml4_idx v) h m = (Some p1, m1)" "has_frames (Suc (Suc n)) m1"
    using get_or_create_has [OF f] by blast
  obtain p2 m2 where 2: "get_or_create_table_user (p1 + h) (pdpt_idx v) h m1 = (Some p2, m2)" "has_frames (Suc n) m2"
    using get_or_create_has [OF 1(2)] by blast
  obtain p3 m3 where 3: "get_or_create_table_user (p2 + h) (pd_idx v) h m2 = (Some p3, m3)" "has_frames n m3"
    using get_or_create_has [OF 2(2)] by blast
  show ?thesis using h 1 2 3 by (simp add: map_page_user_into_def Let_def)
qed

lemma spawn_user_succeeds:
  assumes "has_frames 9 (mach k)" "i < MAX_TASKS"
  shows "\<exists>t k'. spawn_user i blob caps k = Ret (t, k')"
proof -
  have f: "has_frames (Suc (Suc (Suc (3 + (3 + 0))))) (mach k)" using assms(1) by (simp add: eval_nat_numeral)
  obtain pml4 m1 where 1: "new_address_space (mach k) = (Some pml4, m1)" "has_frames (Suc (Suc (3 + (3 + 0)))) m1"
    using new_address_space_has [OF f] by blast
  obtain c m2 where 2: "allocate_frame m1 = (Some c, m2)" "has_frames (Suc (3 + (3 + 0))) m2"
    using allocate_frame_has [OF 1(2)] by blast
  obtain s m3 where 3: "allocate_frame m2 = (Some s, m3)" "has_frames (3 + (3 + 0)) m3"
    using allocate_frame_has [OF 2(2)] by blast
  obtain m4 where 4: "map_page_user_into pml4 USER_CODE_VADDR c True m3 = (Some (), m4)" "has_frames (3 + 0) m4"
    using map_page_user_has [OF 3(2)] by blast
  obtain m5 where 5: "map_page_user_into pml4 USER_STACK_VADDR s True m4 = (Some (), m5)"
    using map_page_user_has [OF 4(2)] by blast
  let ?k = "k\<lparr>mach := copy_blob (c + hhdm_offset m5) blob m5\<rparr>"
  obtain r where r: "Task_new_user i USER_CODE_VADDR USER_STACK_TOP pml4 caps ?k = Ret r"
    using Task_new_user_Panic [of i USER_CODE_VADDR USER_STACK_TOP pml4 caps ?k] assms(2)
    by (cases "Task_new_user i USER_CODE_VADDR USER_STACK_TOP pml4 caps ?k") auto
  then show ?thesis using 1(1) 2(1) 3(1) 4(1) 5 by (cases r) (simp add: spawn_user_def expect_def)
qed

subsection \<open>Frames left after a spawn\<close>

lemma has_frames_store_at [simp]: "has_frames n (store_at a b m) = has_frames n m"
  unfolding store_at_def Let_def by (rule has_frames_mem)

lemma has_frames_copy_blob [simp]: "has_frames n (copy_blob d blob m) = has_frames n m"
proof -
  have "has_frames n (fold (\<lambda>(i, b) m. store_at (d + of_nat i) b m) xs m) = has_frames n m" for xs
  proof (induction xs arbitrary: m)
    case (Cons x xs)
    then show ?case by (cases x) (simp only: fold_simps prod.case o_def has_frames_store_at)
  qed simp
  then show ?thesis unfolding copy_blob_def .
qed

lemma has_frames_push: "has_frames n (snd (stack_push v s)) = has_frames n (snd s)"
  by (cases s) (simp add: stack_push_def Let_def)

lemma has_frames_pushes: "has_frames n (snd (fold stack_push vs s)) = has_frames n (snd s)"
  by (induction vs arbitrary: s) (simp_all only: fold_simps has_frames_push)

lemma Task_new_user_frames:
  assumes "Task_new_user i e st p caps k = Ret (t, k')"
  shows "has_frames n (mach k') = has_frames n (mach k)"
proof -
  let ?vs = "[ucast USER_DATA, st, 0x202, ucast USER_CODE, e, iret_to_user (k_layout k), 0x202] @ replicate 6 0"
  obtain sp m where f: "fold stack_push ?vs (stack_top_of (k_layout k) i, mach k) = (sp, m)" by (cases "fold stack_push ?vs (stack_top_of (k_layout k) i, mach k)")
  have "mach k' = m"
    using assms f unfolding Task_new_user_def Let_def by (simp only: kernel.simps split: if_splits) auto
  then show ?thesis using has_frames_pushes [of n ?vs "(stack_top_of (k_layout k) i, mach k)"] f by simp
qed

lemma spawn_user_leaves:
  assumes "has_frames (9 + n) (mach k)" "i < MAX_TASKS"
  shows "\<exists>t k'. spawn_user i blob caps k = Ret (t, k') \<and> has_frames n (mach k')"
proof -
  have f: "has_frames (Suc (Suc (Suc (3 + (3 + n))))) (mach k)" using assms(1) by (simp add: eval_nat_numeral)
  obtain pml4 m1 where 1: "new_address_space (mach k) = (Some pml4, m1)" "has_frames (Suc (Suc (3 + (3 + n)))) m1"
    using new_address_space_has [OF f] by blast
  obtain c m2 where 2: "allocate_frame m1 = (Some c, m2)" "has_frames (Suc (3 + (3 + n))) m2"
    using allocate_frame_has [OF 1(2)] by blast
  obtain s m3 where 3: "allocate_frame m2 = (Some s, m3)" "has_frames (3 + (3 + n)) m3"
    using allocate_frame_has [OF 2(2)] by blast
  obtain m4 where 4: "map_page_user_into pml4 USER_CODE_VADDR c True m3 = (Some (), m4)" "has_frames (3 + n) m4"
    using map_page_user_has [OF 3(2)] by blast
  obtain m5 where 5: "map_page_user_into pml4 USER_STACK_VADDR s True m4 = (Some (), m5)" "has_frames n m5"
    using map_page_user_has [OF 4(2)] by blast
  let ?k = "k\<lparr>mach := copy_blob (c + hhdm_offset m5) blob m5\<rparr>"
  obtain t k' where r: "Task_new_user i USER_CODE_VADDR USER_STACK_TOP pml4 caps ?k = Ret (t, k')"
    using Task_new_user_Panic [of i USER_CODE_VADDR USER_STACK_TOP pml4 caps ?k] assms(2)
    by (cases "Task_new_user i USER_CODE_VADDR USER_STACK_TOP pml4 caps ?k") auto
  have "has_frames n (mach k')" using Task_new_user_frames [OF r] 5(2) by simp
  then show ?thesis using 1(1) 2(1) 3(1) 4(1) 5(1) r by (simp add: spawn_user_def expect_def)
qed

lemma Task_new_frames:
  assumes "Task_new i e caps k = Ret (t, k')"
  shows "has_frames n (mach k') = has_frames n (mach k)"
proof -
  let ?vs = "[0, kernel_task_trampoline (k_layout k), 0x202] @ replicate 5 0 @ [e]"
  obtain sp m where f: "fold stack_push ?vs (stack_top_of (k_layout k) i, mach k) = (sp, m)"
    by (cases "fold stack_push ?vs (stack_top_of (k_layout k) i, mach k)")
  have "mach k' = m"
    using assms f unfolding Task_new_def Let_def by (simp only: kernel.simps split: if_splits) auto
  then show ?thesis using has_frames_pushes [of n ?vs "(stack_top_of (k_layout k) i, mach k)"] f by simp
qed

end
