(* ===== verification/Syscall.thy ===== *)
theory Syscall
  imports Userspace
begin

text \<open>
  The system call surface, \<open>syscall/mod.rs\<close>: decoding the register frame, the dispatcher and the
  remaining handlers. A call that blocks is left at the point where it yields (\<open>Waits\<close>), with
  what it needs to go on; \<open>syscall_resume\<close> is the rest of the call once the scheduler comes back.
\<close>

subsection \<open>Requests\<close>

definition SYS_DEBUG :: u64 where "SYS_DEBUG = 0"
definition SYS_YIELD :: u64 where "SYS_YIELD = 1"
definition SYS_SEND :: u64 where "SYS_SEND = 2"
definition SYS_RECEIVE :: u64 where "SYS_RECEIVE = 3"
definition SYS_SERIAL_WRITE :: u64 where "SYS_SERIAL_WRITE = 4"
definition SYS_CAP_GRANT :: u64 where "SYS_CAP_GRANT = 5"
definition SYS_SEND_TYPED :: u64 where "SYS_SEND_TYPED = 6"
definition SYS_CAP_REVOKE :: u64 where "SYS_CAP_REVOKE = 7"
definition SYS_SEND_ASYNC :: u64 where "SYS_SEND_ASYNC = 8"
definition SYS_RECEIVE_ASYNC :: u64 where "SYS_RECEIVE_ASYNC = 9"
definition SYS_SPAWN_TASK :: u64 where "SYS_SPAWN_TASK = 10"

lemmas SYS_defs = SYS_DEBUG_def SYS_YIELD_def SYS_SEND_def SYS_RECEIVE_def SYS_SERIAL_WRITE_def
  SYS_CAP_GRANT_def SYS_SEND_TYPED_def SYS_CAP_REVOKE_def SYS_SEND_ASYNC_def SYS_RECEIVE_ASYNC_def
  SYS_SPAWN_TASK_def

datatype kernel_request =
    ReqDebug
  | ReqYield
  | ReqSend (rq_cap: nat) (rq_payload: bytes)
  | ReqReceive (rq_buf: u64) (rq_len: nat)
  | ReqSerialWrite (rq_cap: nat) (rq_payload: bytes)
  | ReqCapGrant (rq_src: nat) (rq_target: nat) (rq_rights: rights_mask)
  | ReqSendTyped (rq_cap: nat) (rq_tag: u16) (rq_version: u16) (rq_payload: bytes)
  | ReqCapRevoke (rq_target: nat) (rq_cap: nat)
  | ReqSendAsync (rq_cap: nat) (rq_tag: u16) (rq_version: u16) (rq_payload: bytes)
  | ReqReceiveAsync (rq_buf: u64) (rq_len: nat)
  | ReqSpawnTask (rq_blob: nat)
  | ReqUnknown u64

definition user_range_ok :: "machine \<Rightarrow> u64 \<Rightarrow> u64 \<Rightarrow> bool \<Rightarrow> bool" where
  "user_range_ok m ptr len writeable \<longleftrightarrow> validate_user_range m ptr len writeable = Some True"

definition parse_request :: "machine \<Rightarrow> gp_frame \<Rightarrow> kernel_request" where
  "parse_request m f =
     (if f_rax f = SYS_DEBUG then ReqDebug
      else if f_rax f = SYS_YIELD then ReqYield
      else if f_rax f = SYS_SEND then
        (if f_rdx f \<le> 128 \<and> user_range_ok m (f_rsi f) (f_rdx f) False
         then ReqSend (unat (f_rdi f)) (load_bytes m (f_rsi f) (unat (f_rdx f)))
         else ReqUnknown (f_rax f))
      else if f_rax f = SYS_RECEIVE then
        (if user_range_ok m (f_rsi f) (min (f_rdx f) 128) True
         then ReqReceive (f_rsi f) (unat (f_rdx f))
         else ReqUnknown (f_rax f))
      else if f_rax f = SYS_SERIAL_WRITE then
        (if f_rdx f \<le> 4096 \<and> user_range_ok m (f_rsi f) (f_rdx f) False
         then ReqSerialWrite (unat (f_rdi f)) (load_bytes m (f_rsi f) (unat (f_rdx f)))
         else ReqUnknown (f_rax f))
      else if f_rax f = SYS_CAP_GRANT then
        (let bits = (ucast (f_rdx f) :: u8)
         in ReqCapGrant (unat (f_rdi f)) (unat (f_rsi f))
              (RightsMask (bits AND 0x1 \<noteq> 0) (bits AND 0x2 \<noteq> 0) (bits AND 0x4 \<noteq> 0)))
      else if f_rax f = SYS_SEND_TYPED then
        (if f_r8 f \<le> 128 \<and> user_range_ok m (f_rsi f) (f_r8 f) False
         then ReqSendTyped (unat (f_rdi f)) (ucast (f_rdx f AND 0xFFFF))
                (ucast (drop_bit 16 (f_rdx f) AND 0xFFFF)) (load_bytes m (f_rsi f) (unat (f_r8 f)))
         else ReqUnknown (f_rax f))
      else if f_rax f = SYS_CAP_REVOKE then ReqCapRevoke (unat (f_rdi f)) (unat (f_rsi f))
      else if f_rax f = SYS_SEND_ASYNC then
        (if f_r8 f \<le> 128 \<and> user_range_ok m (f_rsi f) (f_r8 f) False
         then ReqSendAsync (unat (f_rdi f)) (ucast (f_rdx f AND 0xFFFF))
                (ucast (drop_bit 16 (f_rdx f) AND 0xFFFF)) (load_bytes m (f_rsi f) (unat (f_r8 f)))
         else ReqUnknown (f_rax f))
      else if f_rax f = SYS_RECEIVE_ASYNC then
        (if user_range_ok m (f_rsi f) (min (f_rdx f) 128) True
         then ReqReceiveAsync (f_rsi f) (unat (f_rdx f))
         else ReqUnknown (f_rax f))
      else if f_rax f = SYS_SPAWN_TASK then ReqSpawnTask (unat (f_rdi f))
      else ReqUnknown (f_rax f))"

subsection \<open>Gated output\<close>

definition current_has_serial_cap :: "nat \<Rightarrow> kernel \<Rightarrow> bool \<times> kernel" where
  "current_has_serial_cap cap_idx k =
     (case current_task_id k of
        None \<Rightarrow> (False, k)
      | Some i \<Rightarrow>
          (case get_task k i of
             None \<Rightarrow> (False, k)
           | Some task \<Rightarrow>
               (case CapTable_get (t_caps task) cap_idx k of
                  (Some cap, k) \<Rightarrow> (cap_resource cap = Serial, k)
                | (None, k) \<Rightarrow> (False, k))))"

text \<open>\<open>print!\<close> of a user string: the text appears on the console.\<close>

definition print_user :: "bytes \<Rightarrow> kernel \<Rightarrow> kernel" where
  "print_user bs k = k\<lparr>serial_out := serial_out k @ [bs]\<rparr>"

definition dispatch_serial_write :: "nat \<Rightarrow> bytes \<Rightarrow> kernel \<Rightarrow> u64 \<times> kernel" where
  "dispatch_serial_write cap_idx bs k =
     (case current_has_serial_cap cap_idx k of
        (True, k) \<Rightarrow> (0, if valid_utf8 bs then print_user bs k else k)
      | (False, k) \<Rightarrow> (u64_MAX, k))"

text \<open>The kernel-task variant; \<open>None\<close> is \<open>Err(())\<close>.\<close>

definition sys_serial_write :: "nat \<Rightarrow> bytes \<Rightarrow> kernel \<Rightarrow> unit option \<times> kernel" where
  "sys_serial_write cap_idx msg k =
     (case current_task_id k of
        None \<Rightarrow> (None, k)
      | Some _ \<Rightarrow>
          (case current_has_serial_cap cap_idx k of
             (True, k) \<Rightarrow> (Some (), print_user msg k)
           | (False, k) \<Rightarrow> (None, k)))"

subsection \<open>Spawning\<close>

definition free_task_slot :: "kernel \<Rightarrow> task_id option" where
  "free_task_slot k =
     map_option (\<lambda>j. j + 2) (first_index (\<lambda>i. tasks k ! i = None) [2..<MAX_TASKS])"

definition spawn_blob :: "nat \<Rightarrow> task_id \<Rightarrow> kernel \<Rightarrow> (task \<times> kernel) run option" where
  "spawn_blob blob_type i k =
     (if blob_type = 1 then Some (spawn_logger_task i CapTable_new k)
      else if blob_type = 2 then Some (spawn_demo_user_task i CapTable_new k)
      else if blob_type = 3 then Some (spawn_ramfs_task i CapTable_new k)
      else None)"

definition init_channel :: "task_id \<Rightarrow> capability" where
  "init_channel i = \<lparr>cap_resource = IpcChannel i, cap_read = True, cap_write = True, cap_grant = True,
     cap_sealed = False, cap_id = 0, cap_origin = None\<rparr>"

definition dispatch_spawn_task :: "nat \<Rightarrow> kernel \<Rightarrow> (u64 \<times> kernel) run" where
  "dispatch_spawn_task blob_type k =
     (case free_task_slot k of
        None \<Rightarrow> Ret (u64_MAX, k)
      | Some i \<Rightarrow>
          (case spawn_blob blob_type i k of
             None \<Rightarrow> Ret (u64_MAX, k)
           | Some spawned \<Rightarrow>
               run_bind spawned (\<lambda>(new_task, k).
                 let k = set_slot i (Some new_task) k in
                 case get_task k 1 of
                   None \<Rightarrow> Ret (u64_MAX, set_slot i None k)
                 | Some init_task \<Rightarrow>
                     (case CapTable_insert (init_channel i) (t_caps init_task) k of
                        (Some slot, caps, k) \<Rightarrow>
                          Ret (of_nat i, update_task 1 (\<lambda>t. t\<lparr>t_caps := caps\<rparr>) k)
                      | (None, caps, k) \<Rightarrow>
                          Ret (u64_MAX, set_slot i None (update_task 1 (\<lambda>t. t\<lparr>t_caps := caps\<rparr>) k))))))"

subsection \<open>The dispatcher\<close>

datatype wait =
    WaitYield
  | WaitSend task_id nat message
  | WaitReceive task_id u64 nat

datatype sys_result = Returns gp_frame | Waits wait

definition rax :: "u64 \<Rightarrow> gp_frame \<Rightarrow> gp_frame" where
  "rax v f = f\<lparr>f_rax := v\<rparr>"

text \<open>What the three blocking calls write to \<open>rax\<close> when they finish.\<close>

definition finish_send :: "gp_frame \<Rightarrow> ipc_error + unit \<Rightarrow> sys_result" where
  "finish_send f r = Returns (rax (case r of Inr _ \<Rightarrow> 0 | Inl _ \<Rightarrow> u64_MAX) f)"

definition finish_receive ::
  "gp_frame \<Rightarrow> u64 \<Rightarrow> nat \<Rightarrow> ipc_error + message \<Rightarrow> kernel \<Rightarrow> sys_result \<times> kernel" where
  "finish_receive f buf cap r k =
     (case r of
        Inl _ \<Rightarrow> (Returns (rax u64_MAX f), k)
      | Inr msg \<Rightarrow>
          let n = min (msg_len msg) cap in
          if user_range_ok (mach k) buf (of_nat n) True
          then (Returns (rax (of_nat n) f),
                k\<lparr>mach := store_bytes buf (take n (msg_payload msg)) (mach k)\<rparr>)
          else (Returns (rax u64_MAX f), k))"

definition send_outcome ::
  "gp_frame \<Rightarrow> nat \<Rightarrow> message \<Rightarrow> task_id \<Rightarrow> unit progress \<times> kernel \<Rightarrow> sys_result \<times> kernel" where
  "send_outcome f cap_idx msg cur r =
     (case r of
        (Done x, k) \<Rightarrow> (finish_send f x, k)
      | (Parked, k) \<Rightarrow> (Waits (WaitSend cur cap_idx msg), k))"

definition receive_outcome ::
  "gp_frame \<Rightarrow> u64 \<Rightarrow> nat \<Rightarrow> task_id \<Rightarrow> message progress \<times> kernel \<Rightarrow> sys_result \<times> kernel" where
  "receive_outcome f buf cap cur r =
     (case r of
        (Done x, k) \<Rightarrow> finish_receive f buf cap x k
      | (Parked, k) \<Rightarrow> (Waits (WaitReceive cur buf cap), k))"

definition dispatch_send ::
  "gp_frame \<Rightarrow> nat \<Rightarrow> u16 \<Rightarrow> u16 \<Rightarrow> bytes \<Rightarrow> kernel \<Rightarrow> sys_result \<times> kernel" where
  "dispatch_send f cap_idx tag version payload k =
     (case send_begin cap_idx tag version payload k of
        (Inl e, k) \<Rightarrow> (finish_send f (Inl e), k)
      | (Inr (cur, msg), k) \<Rightarrow> send_outcome f cap_idx msg cur (send_iter cur cap_idx msg k))"

definition dispatch_receive :: "gp_frame \<Rightarrow> u64 \<Rightarrow> nat \<Rightarrow> kernel \<Rightarrow> sys_result \<times> kernel" where
  "dispatch_receive f buf cap k =
     (case receive_begin k of
        (Inl e, k) \<Rightarrow> finish_receive f buf cap (Inl e) k
      | (Inr cur, k) \<Rightarrow> receive_outcome f buf cap cur (receive_iter cur k))"

definition dispatch_send_async ::
  "gp_frame \<Rightarrow> nat \<Rightarrow> u16 \<Rightarrow> u16 \<Rightarrow> bytes \<Rightarrow> kernel \<Rightarrow> sys_result \<times> kernel" where
  "dispatch_send_async f cap_idx tag version payload k =
     (case sys_send_async cap_idx tag version payload k of
        (Inr _, k) \<Rightarrow> (Returns (rax 0 f), k)
      | (Inl QueueFull, k) \<Rightarrow> (Returns (rax (u64_MAX - 7) f), k)
      | (Inl _, k) \<Rightarrow> (Returns (rax u64_MAX f), k))"

definition dispatch_receive_async :: "gp_frame \<Rightarrow> u64 \<Rightarrow> nat \<Rightarrow> kernel \<Rightarrow> sys_result \<times> kernel" where
  "dispatch_receive_async f buf cap k =
     (case sys_receive_async k of
        (Inr msg, k) \<Rightarrow> finish_receive f buf cap (Inr msg) k
      | (Inl NoMessage, k) \<Rightarrow> (Returns (rax (u64_MAX - 8) f), k)
      | (Inl e, k) \<Rightarrow> finish_receive f buf cap (Inl e) k)"

definition with_rax :: "gp_frame \<Rightarrow> u64 \<times> kernel \<Rightarrow> sys_result \<times> kernel" where
  "with_rax f r = (case r of (v, k) \<Rightarrow> (Returns (rax v f), k))"

definition dispatch_request ::
  "task_id \<Rightarrow> gp_frame \<Rightarrow> kernel_request \<Rightarrow> kernel \<Rightarrow> (sys_result \<times> kernel) run" where
  "dispatch_request task_id f req k =
     (case req of
        ReqDebug \<Rightarrow> Ret (Returns (rax 0 f), k)
      | ReqYield \<Rightarrow> Ret (Waits WaitYield, k)
      | ReqSend cap_idx payload \<Rightarrow> Ret (dispatch_send f cap_idx (tag_to_u16 Raw) 0 payload k)
      | ReqReceive buf cap \<Rightarrow> Ret (dispatch_receive f buf cap k)
      | ReqSerialWrite cap_idx bs \<Rightarrow> Ret (with_rax f (dispatch_serial_write cap_idx bs k))
      | ReqCapGrant src target rights \<Rightarrow> Ret (with_rax f (dispatch_cap_grant task_id src target rights k))
      | ReqSendTyped cap_idx tag version payload \<Rightarrow> Ret (dispatch_send f cap_idx tag version payload k)
      | ReqSendAsync cap_idx tag version payload \<Rightarrow> Ret (dispatch_send_async f cap_idx tag version payload k)
      | ReqReceiveAsync buf cap \<Rightarrow> Ret (dispatch_receive_async f buf cap k)
      | ReqSpawnTask blob_type \<Rightarrow>
          (if task_id = 1
           then run_bind (dispatch_spawn_task blob_type k) (\<lambda>r. Ret (with_rax f r))
           else Ret (Returns (rax u64_MAX f), k))
      | ReqCapRevoke target cap_idx \<Rightarrow> Ret (with_rax f (dispatch_cap_revoke task_id target cap_idx k))
      | ReqUnknown _ \<Rightarrow> Ret (Returns (rax u64_MAX f), k))"

definition syscall_dispatch :: "gp_frame \<Rightarrow> kernel \<Rightarrow> (sys_result \<times> kernel) run" where
  "syscall_dispatch f k =
     (let task_id = (case current_task_id k of Some t \<Rightarrow> t | None \<Rightarrow> usize_MAX)
      in dispatch_request task_id f (parse_request (mach k) f) k)"

text \<open>The rest of a call, from the moment the yield it made returns.\<close>

definition syscall_resume :: "wait \<Rightarrow> gp_frame \<Rightarrow> kernel \<Rightarrow> sys_result \<times> kernel" where
  "syscall_resume w f k =
     (case w of
        WaitYield \<Rightarrow> (Returns (rax 0 f), k)
      | WaitSend cur cap_idx msg \<Rightarrow>
          (case send_resume cur k of
             Done x \<Rightarrow> (finish_send f x, k)
           | Parked \<Rightarrow> send_outcome f cap_idx msg cur (send_iter cur cap_idx msg k))
      | WaitReceive cur buf cap \<Rightarrow> receive_outcome f buf cap cur (receive_iter cur k))"

subsection \<open>Every call keeps the kernel well formed\<close>

lemma validate_total: "\<exists>b. validate_user_range m p l w = Some b"
proof (cases "l = 0")
  case True
  then show ?thesis by (intro exI [of _ True]) (simp add: validate_user_range_def)
next
  case False
  then show ?thesis
    using validate_user_range_range [OF False, of p m w] validate_user_range_outside [OF False, of p m w]
    by (cases "unat p + unat l \<le> 2 ^ 47") auto
qed

lemma kernel_wf_serial_out [simp]: "kernel_wf (k\<lparr>serial_out := s\<rparr>) = kernel_wf k"
  by (simp add: kernel_wf_def)

lemma current_has_serial_cap_eq:
  "\<exists>tr. current_has_serial_cap i k =
    (\<exists>c. (case current_task_id k of Some t \<Rightarrow> cap_view k (t, i) | None \<Rightarrow> None) = Some c \<and>
       cap_resource c = Serial, k\<lparr>trace := tr\<rparr>)"
  if wf: "kernel_wf k"
proof (cases "current_task_id k")
  case None
  then show ?thesis by (intro exI [of _ "trace k"]) (simp add: current_has_serial_cap_def)
next
  case cur: (Some t)
  show ?thesis
  proof (cases "get_task k t")
    case None
    then show ?thesis
      using cur by (intro exI [of _ "trace k"]) (simp add: current_has_serial_cap_def cap_view_get_task [OF wf])
  next
    case (Some x)
    obtain g k1 where g: "CapTable_get (t_caps x) i k = (g, k1)" by fastforce
    have g': "g = cap_at (t_caps x) i" using CapTable_get_fst [of "t_caps x" i k] g by simp
    have k1: "k1 = k\<lparr>trace := trace k1\<rparr>"
      using CapTable_get_same [of k "t_caps x" i] g by (simp add: same_but_trace_def)
    have "current_has_serial_cap i k = (\<exists>c. g = Some c \<and> cap_resource c = Serial, k1)"
      using cur Some g by (cases g) (simp_all add: current_has_serial_cap_def)
    then show ?thesis
      using cur Some g' k1 by (intro exI [of _ "trace k1"]) (simp add: cap_view_get_task [OF wf])
  qed
qed

lemma kernel_wf_serial:
  assumes "kernel_wf k"
  shows "kernel_wf (snd (dispatch_serial_write i bs k))"
  using current_has_serial_cap_eq [OF assms, of i] assms
  by (auto simp: dispatch_serial_write_def print_user_def split: bool.split)

lemma kernel_wf_finish_receive: "kernel_wf k \<Longrightarrow> kernel_wf (snd (finish_receive f b c r k))"
  by (auto simp: finish_receive_def Let_def split: sum.split)

lemma kernel_wf_send_outcome: "kernel_wf (snd r) \<Longrightarrow> kernel_wf (snd (send_outcome f i m c r))"
  by (cases r) (auto simp: send_outcome_def split: progress.split)

lemma kernel_wf_receive_outcome: "kernel_wf (snd r) \<Longrightarrow> kernel_wf (snd (receive_outcome f b n c r))"
  by (cases r) (auto simp: receive_outcome_def kernel_wf_finish_receive split: progress.split)

lemma kernel_wf_dispatch_send: "kernel_wf k \<Longrightarrow> kernel_wf (snd (dispatch_send f i t v p k))"
  by (auto simp: dispatch_send_def send_begin_def kernel_wf_send_iter kernel_wf_send_outcome
      split: sum.split option.split)

lemma kernel_wf_dispatch_receive: "kernel_wf k \<Longrightarrow> kernel_wf (snd (dispatch_receive f b n k))"
  by (auto simp: dispatch_receive_def receive_begin_def kernel_wf_receive_iter kernel_wf_receive_outcome
      kernel_wf_finish_receive split: option.split)

lemma kernel_wf_dispatch_send_async: "kernel_wf k \<Longrightarrow> kernel_wf (snd (dispatch_send_async f i t v p k))"
  using kernel_wf_sys_send_async [of k i t v p]
  by (auto simp: dispatch_send_async_def split: prod.split sum.split ipc_error.split)

lemma kernel_wf_dispatch_receive_async: "kernel_wf k \<Longrightarrow> kernel_wf (snd (dispatch_receive_async f b n k))"
  using kernel_wf_sys_receive_async [of k] kernel_wf_finish_receive
  by (auto simp: dispatch_receive_async_def split: prod.split sum.split ipc_error.split)

lemma kernel_wf_spawned [simp]: "kernel_wf (k\<lparr>tasks_spawned := n\<rparr>) = kernel_wf k"
  by (simp add: kernel_wf_def)

lemma kernel_wf_clear_slot: "kernel_wf k \<Longrightarrow> kernel_wf (set_slot i None k)"
  by (rule kernel_wf_set_slot) simp_all

lemma free_task_slot_Some:
  assumes "free_task_slot k = Some i"
  shows "2 \<le> i" and "i < MAX_TASKS" and "tasks k ! i = None" and "\<And>j. 2 \<le> j \<Longrightarrow> j < i \<Longrightarrow> tasks k ! j \<noteq> None"
proof -
  obtain n where n: "first_index (\<lambda>i. tasks k ! i = None) [2..<MAX_TASKS] = Some n" "i = n + 2"
    using assms by (auto simp: free_task_slot_def)
  then have b: "n + 2 < MAX_TASKS" "tasks k ! (n + 2) = None"
    by (auto simp: first_index_Some add.commute)
  have least: "tasks k ! (m + 2) \<noteq> None" if "m < n" for m
    using n(1) that b(1) by (auto simp: first_index_Some add.commute)
  show "2 \<le> i" "i < MAX_TASKS" "tasks k ! i = None" using n(2) b by simp_all
  show "tasks k ! j \<noteq> None" if "2 \<le> j" "j < i" for j
    using least [of "j - 2"] that n(2) by (simp del: add_2_eq_Suc')
qed

lemma spawn_blob_Ret:
  assumes "spawn_blob b i k = Some (Ret (t, k'))"
  shows "task_wf i t \<and> t_state t = Ready \<and> t_caps t = CapTable_new"
    and "k' = k\<lparr>tasks_spawned := tasks_spawned k + 1, mach := mach k'\<rparr>"
  using assms spawn_user_Ret [of i _ CapTable_new k t k']
  by (auto simp: spawn_blob_def spawn_logger_task_def spawn_demo_user_task_def spawn_ramfs_task_def
      split: if_splits)

text \<open>
  The state in which the channel is inserted: the fresh task is in its slot, the table is otherwise
  the old one.
\<close>

lemma dispatch_spawn_cases:
  assumes wf: "kernel_wf k" and res: "dispatch_spawn_task b k = Ret (r, k')"
  obtains (refused) "r = u64_MAX" "tasks k' = tasks k" "k' = k"
  | (rolled_back) i where "free_task_slot k = Some i" "r = u64_MAX" "tasks k' = tasks k" "kernel_wf k'"
  | (spawned) i t x s caps k2 where "free_task_slot k = Some i" "r = of_nat i" "task_wf i t" "t_state t = Ready"
      "t_caps t = CapTable_new" "get_task k 1 = Some x"
      "CapTable_insert (init_channel i) (t_caps x) (set_slot i (Some t) (k\<lparr>tasks_spawned := tasks_spawned k + 1, mach := mach k'\<rparr>))
         = (Some s, caps, k2)"
      "k' = update_task 1 (\<lambda>t. t\<lparr>t_caps := caps\<rparr>) k2" "kernel_wf k'"
proof (cases "free_task_slot k")
  case None
  then have "r = u64_MAX \<and> k' = k" using res by (simp add: dispatch_spawn_task_def)
  then show ?thesis by (intro refused) simp_all
next
  case (Some i)
  note fr = free_task_slot_Some [OF Some]
  have len: "length (tasks k) = MAX_TASKS" using wf by (simp add: kernel_wf_def)
  show ?thesis
  proof (cases "spawn_blob b i k")
    case None
    then have "r = u64_MAX \<and> k' = k" using res Some by (simp add: dispatch_spawn_task_def)
    then show ?thesis by (intro refused) simp_all
  next
    case (Some sp)
    then obtain t k0 where sp: "spawn_blob b i k = Some (Ret (t, k0))"
      using res \<open>free_task_slot k = Some i\<close> by (cases sp) (auto simp: dispatch_spawn_task_def)
    note t = spawn_blob_Ret [OF sp]
    let ?k1 = "set_slot i (Some t) k0"
    have t0: "tasks k0 = tasks k" by (subst t(2)) simp
    have wf0: "kernel_wf k0" using wf by (subst t(2)) simp
    have wf1: "kernel_wf ?k1" using wf0 t(1) by (intro kernel_wf_set_slot) simp_all
    have "get_task k0 1 = get_task k 1" by (simp only: get_task_def t0)
    then have g1: "get_task ?k1 1 = get_task k 1"
      using fr(1) by (simp add: get_task_set_slot)
    have undo: "(tasks k)[i := y, i := None] = tasks k" for y
      using fr(3) by (metis list_update_id list_update_overwrite)
    show ?thesis
    proof (cases "get_task k 1")
      case None
      then have "r = u64_MAX" "k' = set_slot i None ?k1"
        using res \<open>free_task_slot k = Some i\<close> sp g1 by (simp_all add: dispatch_spawn_task_def)
      moreover from this have "tasks k' = tasks k" using undo t0 by (simp add: set_slot_def)
      moreover have "kernel_wf k'" using calculation(2) wf1 by (simp add: kernel_wf_clear_slot)
      ultimately show ?thesis using rolled_back [OF \<open>free_task_slot k = Some i\<close>] by blast
    next
      case (Some x)
      obtain o' caps k2 where ins: "CapTable_insert (init_channel i) (t_caps x) ?k1 = (o', caps, k2)"
        using prod_cases3 by blast
      have twf: "cap_table_wf (t_caps x)" using kernel_wf_task [OF wf Some] by (simp add: task_wf_def)
      note g2 = same_but_trace_kernel [OF CapTable_insert_globals [OF ins]]
      have wf2: "kernel_wf k2" using g2(7) wf1 by simp
      have wf3: "kernel_wf (update_task 1 (\<lambda>t. t\<lparr>t_caps := caps\<rparr>) k2)"
        using wf2 CapTable_insert_wf [OF twf ins] by (intro kernel_wf_update_task) (auto simp: task_wf_def)
      have g21: "get_task k2 1 = Some x" using g2(6) [of 1] g1 Some by simp
      show ?thesis
      proof (cases o')
        case None
        have "caps = t_caps x" using CapTable_insert_None [OF twf ins [unfolded None]] by simp
        then have "update_task 1 (\<lambda>t. t\<lparr>t_caps := caps\<rparr>) k2 = k2"
          using update_task_id [OF g21] g21 by (simp add: update_task_def)
        then have "r = u64_MAX" "k' = set_slot i None k2"
          using res \<open>free_task_slot k = Some i\<close> sp g1 Some ins None
          by (simp_all add: dispatch_spawn_task_def)
        moreover from this have "tasks k' = tasks k" using undo t0 g2(1) by (simp add: set_slot_def)
        moreover have "kernel_wf k'" using calculation(2) wf2 by (simp add: kernel_wf_clear_slot)
        ultimately show ?thesis using rolled_back [OF \<open>free_task_slot k = Some i\<close>] by blast
      next
        case s: (Some s)
        have k': "r = of_nat i" "k' = update_task 1 (\<lambda>t. t\<lparr>t_caps := caps\<rparr>) k2"
          using res \<open>free_task_slot k = Some i\<close> sp g1 Some ins s
          by (simp_all add: dispatch_spawn_task_def)
        have "mach k' = mach k0" using k'(2) g2(4) by simp
        then have "?k1 = set_slot i (Some t) (k\<lparr>tasks_spawned := tasks_spawned k + 1, mach := mach k'\<rparr>)"
          using t(2) by simp
        then have "CapTable_insert (init_channel i) (t_caps x)
            (set_slot i (Some t) (k\<lparr>tasks_spawned := tasks_spawned k + 1, mach := mach k'\<rparr>)) = (Some s, caps, k2)"
          using ins s by simp
        then show ?thesis
          using spawned [OF \<open>free_task_slot k = Some i\<close> k'(1) _ _ _ Some _ k'(2)] t(1) wf3 k'(2) by blast
      qed
    qed
  qed
qed

lemma kernel_wf_dispatch_spawn:
  assumes "kernel_wf k" and "dispatch_spawn_task b k = Ret (r, k')"
  shows "kernel_wf k'"
  using assms by (rule dispatch_spawn_cases) (simp_all add: assms(1))

lemma kernel_wf_dispatch_request:
  assumes "kernel_wf k" and "dispatch_request i f req k = Ret (r, k')"
  shows "kernel_wf k'"
  using assms kernel_wf_dispatch_send [OF assms(1), of f] kernel_wf_dispatch_receive [OF assms(1), of f]
    kernel_wf_serial [OF assms(1)] kernel_wf_dispatch_cap_grant [OF assms(1)]
    kernel_wf_dispatch_send_async [OF assms(1), of f] kernel_wf_dispatch_receive_async [OF assms(1), of f]
    kernel_wf_dispatch_cap_revoke [OF assms(1)] kernel_wf_dispatch_spawn [OF assms(1)]
  by (cases req) (auto simp: dispatch_request_def with_rax_def run_bind_Ret_iff prod_eq_iff
      split: prod.splits if_splits)

lemma kernel_wf_syscall_dispatch: "kernel_wf k \<Longrightarrow> syscall_dispatch f k = Ret (r, k') \<Longrightarrow> kernel_wf k'"
  unfolding syscall_dispatch_def Let_def by (rule kernel_wf_dispatch_request)

lemma kernel_wf_syscall_resume:
  assumes "kernel_wf k"
  shows "kernel_wf (snd (syscall_resume w f k))"
  using assms kernel_wf_send_outcome [OF kernel_wf_send_iter [OF assms]]
    kernel_wf_receive_outcome [OF kernel_wf_receive_iter [OF assms]]
  by (auto simp: syscall_resume_def split: wait.split progress.split)

subsection \<open>Properties\<close>

lemma task_id_not_MAX:
  assumes "i < MAX_TASKS"
  shows "(of_nat i :: u64) \<noteq> u64_MAX"
proof
  assume "(of_nat i :: u64) = u64_MAX"
  then have "(of_nat (Suc i) :: u64) = 0" by (simp add: u64_MAX_def)
  then have "2 ^ 64 dvd Suc i" by (simp only: word_of_nat_eq_0_iff) simp
  then show False using assms dvd_imp_le [of "2 ^ 64" "Suc i"] by (simp add: MAX_TASKS_def)
qed

text \<open>
  C13. Console output needs the serial capability. A serial write prints exactly the given bytes when
  the slot named in the call holds a serial capability of the calling task and the bytes are valid
  UTF-8, prints nothing otherwise, fails exactly when the capability is missing, and touches no task.
\<close>

theorem serial_output_is_gated:
  assumes "kernel_wf k" "dispatch_serial_write idx bs k = (r, k')"
    and "allowed \<longleftrightarrow> (\<exists>t c. current_task_id k = Some t \<and> cap_view k (t, idx) = Some c \<and> cap_resource c = Serial)"
  shows "r = (if allowed then 0 else u64_MAX) \<and>
    serial_out k' = serial_out k @ (if allowed \<and> valid_utf8 bs then [bs] else []) \<and>
    (\<forall>i. get_task k' i = get_task k i)"
proof -
  obtain tr where h: "current_has_serial_cap idx k =
    (\<exists>c. (case current_task_id k of Some t \<Rightarrow> cap_view k (t, idx) | None \<Rightarrow> None) = Some c \<and> cap_resource c = Serial, k\<lparr>trace := tr\<rparr>)"
    using current_has_serial_cap_eq [OF assms(1)] by blast
  have "(\<exists>c. (case current_task_id k of Some t \<Rightarrow> cap_view k (t, idx) | None \<Rightarrow> None) = Some c \<and> cap_resource c = Serial) \<longleftrightarrow> allowed"
    unfolding assms(3) by (cases "current_task_id k") auto
  then have h': "current_has_serial_cap idx k = (allowed, k\<lparr>trace := tr\<rparr>)" using h by simp
  have g: "get_task (k\<lparr>trace := tr, serial_out := s\<rparr>) i = get_task k i" "get_task (k\<lparr>trace := tr\<rparr>) i = get_task k i" for s i
    by (simp_all add: get_task_def)
  show ?thesis
    using assms(2) h' g by (cases allowed) (auto simp: dispatch_serial_write_def print_user_def split: if_splits)
qed

definition serial_kernel :: kernel where
  "serial_kernel = update_task 1 (\<lambda>t. t\<lparr>t_caps := table_with [channel_cap 2 7 None, (channel_cap 2 9 None)\<lparr>cap_resource := Serial\<rparr>]\<rparr>) (sample_kernel Ready)"

lemma serial_kernel_wf: "kernel_wf serial_kernel"
  unfolding serial_kernel_def by (rule kernel_wf_update_task) (auto simp: task_wf_def MAX_CAPS_def)

theorem serial_output_is_gated_witness:
  "\<exists>k'. dispatch_serial_write 1 [0x68, 0x69] serial_kernel = (0, k') \<and> serial_out k' = serial_out serial_kernel @ [[0x68, 0x69]]"
proof -
  obtain r k' where d: "dispatch_serial_write 1 [0x68, 0x69] serial_kernel = (r, k')" by fastforce
  have "map_option t_caps (get_task serial_kernel 1) =
      Some (table_with [channel_cap 2 7 None, (channel_cap 2 9 None)\<lparr>cap_resource := Serial\<rparr>])"
    by (simp add: serial_kernel_def get_task_update_task)
  then have "cap_view serial_kernel (1, 1) = Some ((channel_cap 2 9 None)\<lparr>cap_resource := Serial\<rparr>)"
    by (auto simp: cap_view_get_task [OF serial_kernel_wf] cap_at_table_with MAX_CAPS_def)
  moreover have "current_task_id serial_kernel = Some 1" by (simp add: serial_kernel_def)
  ultimately have a: "True \<longleftrightarrow> (\<exists>t c. current_task_id serial_kernel = Some t \<and> cap_view serial_kernel (t, 1) = Some c \<and> cap_resource c = Serial)"
    by simp
  show ?thesis using serial_output_is_gated [OF serial_kernel_wf d a] d by (simp add: utf8_cont_def)
qed

lemma spawned_view:
  fixes k :: kernel
  defines "k0 m \<equiv> k\<lparr>tasks_spawned := tasks_spawned k + 1, mach := m\<rparr>"
  assumes wf: "kernel_wf k" and fr: "free_task_slot k = Some i" and t: "task_wf i t" "t_caps t = CapTable_new"
    and x: "get_task k 1 = Some x"
    and ins: "CapTable_insert (init_channel i) (t_caps x) (set_slot i (Some t) (k0 m)) = (Some s, caps, k2)"
    and k': "k' = update_task 1 (\<lambda>t. t\<lparr>t_caps := caps\<rparr>) k2"
  shows "get_task k i = None" "cap_view k (1, s) = None" "\<forall>j < s. cap_view k (1, j) \<noteq> None"
    "cap_view k' = (cap_view k)((1, s) := Some ((init_channel i)\<lparr>cap_id := next_cap_id_ctr k\<rparr>))"
    "get_task k' j = (if j = 1 then Some (x\<lparr>t_caps := caps\<rparr>) else if j = i then Some t else get_task k j)"
proof -
  let ?k1 = "set_slot i (Some t) (k0 m)"
  note f = free_task_slot_Some [OF fr]
  have len: "length (tasks k) = MAX_TASKS" using wf by (simp add: kernel_wf_def)
  have wf1: "kernel_wf ?k1"
    by (rule kernel_wf_set_slot) (use wf t(1) in \<open>auto simp: kernel_wf_def k0_def\<close>)
  have g0: "get_task (k0 m) j = get_task k j" for j by (simp add: get_task_def k0_def)
  have g1: "get_task ?k1 j = (if j = i then Some t else get_task k j)" for j
    using get_task_set_slot [of i "Some t" "k0 m" j] t(1) f(2) len g0 by (simp add: task_wf_def k0_def)
  note same = CapTable_insert_globals [OF ins]
  note s2 = same_but_trace_kernel [OF same]
  have xwf: "cap_table_wf (t_caps x)" using kernel_wf_task [OF wf x] by (simp add: task_wf_def)
  have next_id: "next_cap_id_ctr ?k1 = next_cap_id_ctr k" by (simp add: set_slot_def k0_def)
  note c = CapTable_insert_Some [OF xwf ins, unfolded next_id]
  show gi: "get_task k i = None" using f(2,3) kernel_wf_get_task [OF wf, of i] by simp
  show "cap_view k (1, s) = None" "\<forall>j < s. cap_view k (1, j) \<noteq> None"
    using c x by (simp_all add: cap_view_get_task [OF wf])
  have x2: "get_task k2 1 = Some x" using s2(6) g1 x f(1) by simp
  show "get_task k' j = (if j = 1 then Some (x\<lparr>t_caps := caps\<rparr>) else if j = i then Some t else get_task k j)"
    using s2(6) g1 x2 by (simp add: k' get_task_update_task)
  have v1: "cap_view ?k1 p = cap_view k p" for p
    using g1 t(2) gi by (cases p) (simp add: cap_view_get_task [OF wf1] cap_view_get_task [OF wf])
  have v2: "cap_view k2 = cap_view k" using cap_view_same_but_trace [OF same] v1 by (simp add: fun_eq_iff)
  show "cap_view k' = (cap_view k)((1, s) := Some ((init_channel i)\<lparr>cap_id := next_cap_id_ctr k\<rparr>))"
    using cap_view_update_caps(1) [OF _ x2 _ CapTable_insert_wf [OF xwf ins]] s2(7) wf1 c v2 k' by simp
qed

text \<open>
  C12. Spawning is all or nothing. The spawn call either fails with the task table as it was, so that
  a task built before the channel could be installed is gone again, or puts one new ready task
  without any authority into a free slot and one grantable channel to it, under a fresh identity,
  into the first free slot of the init task, and changes no other task.
\<close>

theorem spawn_is_all_or_nothing:
  assumes "kernel_wf k" "dispatch_spawn_task b k = Ret (r, k')"
  shows "kernel_wf k' \<and>
    (if r = u64_MAX then \<forall>i. get_task k' i = get_task k i
     else \<exists>i t s. r = of_nat i \<and> 2 \<le> i \<and> i < MAX_TASKS \<and> get_task k i = None \<and> get_task k' i = Some t \<and>
       t_state t = Ready \<and> t_caps t = CapTable_new \<and> cap_view k (1, s) = None \<and> (\<forall>j < s. cap_view k (1, j) \<noteq> None) \<and>
       cap_view k' = (cap_view k)((1, s) := Some ((init_channel i)\<lparr>cap_id := next_cap_id_ctr k\<rparr>)) \<and>
       (\<forall>j. j \<noteq> 1 \<and> j \<noteq> i \<longrightarrow> get_task k' j = get_task k j))"
  using assms
proof (rule dispatch_spawn_cases)
  assume "r = u64_MAX" "tasks k' = tasks k" "k' = k"
  then show ?thesis using assms(1) by simp
next
  fix i
  assume "r = u64_MAX" "tasks k' = tasks k" "kernel_wf k'"
  then show ?thesis by (simp add: get_task_def)
next
  fix i t x s caps k2
  assume fr: "free_task_slot k = Some i" and r: "r = of_nat i" and t: "task_wf i t" "t_state t = Ready" "t_caps t = CapTable_new"
    and x: "get_task k 1 = Some x"
    and ins: "CapTable_insert (init_channel i) (t_caps x)
        (set_slot i (Some t) (k\<lparr>tasks_spawned := tasks_spawned k + 1, mach := mach k'\<rparr>)) = (Some s, caps, k2)"
    and k': "k' = update_task 1 (\<lambda>t. t\<lparr>t_caps := caps\<rparr>) k2" and wf': "kernel_wf k'"
  note f = free_task_slot_Some [OF fr] and v = spawned_view [OF assms(1) fr t(1,3) x ins k']
  have r': "r \<noteq> u64_MAX" using r task_id_not_MAX [OF f(2)] by simp
  have "get_task k' i = Some t" "\<forall>j. j \<noteq> 1 \<and> j \<noteq> i \<longrightarrow> get_task k' j = get_task k j"
    using v(5) f(1) by simp_all
  then have "r = of_nat i \<and> 2 \<le> i \<and> i < MAX_TASKS \<and> get_task k i = None \<and> get_task k' i = Some t \<and>
       t_state t = Ready \<and> t_caps t = CapTable_new \<and> cap_view k (1, s) = None \<and> (\<forall>j < s. cap_view k (1, j) \<noteq> None) \<and>
       cap_view k' = (cap_view k)((1, s) := Some ((init_channel i)\<lparr>cap_id := next_cap_id_ctr k\<rparr>)) \<and>
       (\<forall>j. j \<noteq> 1 \<and> j \<noteq> i \<longrightarrow> get_task k' j = get_task k j)"
    using r f(1,2) t(2,3) v(1-4) by blast
  then show ?thesis unfolding if_not_P [OF r'] using wf' by blast
qed

text \<open>With nine frames left, a known program and a free slot in both tables, the call succeeds.\<close>

lemma spawn_succeeds:
  assumes wf: "kernel_wf k" and i: "free_task_slot k = Some i" and b: "b = 1 \<or> b = 2 \<or> b = 3" and fr: "has_frames 9 (mach k)"
    and x: "get_task k 1 = Some x" "first_index (\<lambda>s. s = None) (slots (t_caps x)) = Some s"
  shows "\<exists>k'. dispatch_spawn_task b k = Ret (of_nat i, k')"
proof -
  note f = free_task_slot_Some [OF i]
  obtain blob where "spawn_blob b i k = Some (spawn_user i blob CapTable_new k)"
    using b by (auto simp: spawn_blob_def spawn_logger_task_def spawn_demo_user_task_def spawn_ramfs_task_def)
  then obtain t k1 where sp: "spawn_blob b i k = Some (Ret (t, k1))"
    using spawn_user_succeeds [OF fr f(2), of blob CapTable_new] by auto
  note t = spawn_blob_Ret [OF sp]
  have k1: "tasks k1 = tasks k" by (subst t(2)) simp
  have len: "length (tasks k) = MAX_TASKS" using wf by (simp add: kernel_wf_def)
  let ?k = "set_slot i (Some t) k1"
  have g: "get_task ?k 1 = Some x"
  proof -
    have "get_task k1 1 = Some x" unfolding get_task_def k1 using x(1) unfolding get_task_def .
    then show ?thesis using get_task_set_slot [of i "Some t" k1 1] f(1,2) len k1 by simp
  qed
  obtain r caps k2 where ins: "CapTable_insert (init_channel i) (t_caps x) ?k = (r, caps, k2)" using prod_cases3 by blast
  have "r = Some s" using ins x(2) by (auto simp: CapTable_insert_def next_cap_id_def Let_def)
  then show ?thesis using i sp g ins by (simp add: dispatch_spawn_task_def)
qed

theorem spawn_is_all_or_nothing_witness:
  "\<exists>i t s k'. dispatch_spawn_task 1 (sample_kernel Ready) = Ret (of_nat i, k') \<and> get_task k' i = Some t \<and> t_state t = Ready \<and>
     cap_view k' (1, s) = Some ((init_channel i)\<lparr>cap_id := 9\<rparr>)"
proof -
  let ?k = "sample_kernel Ready"
  have ex: "\<exists>i. free_task_slot ?k = Some i"
  proof (rule ccontr)
    assume "\<nexists>i. free_task_slot ?k = Some i"
    then have "first_index (\<lambda>i. tasks ?k ! i = None) [2..<MAX_TASKS] = None" by (simp add: free_task_slot_def)
    then have "\<forall>i \<in> set [2..<MAX_TASKS]. tasks ?k ! i \<noteq> None" unfolding first_index_None .
    moreover have "3 \<in> set [2..<MAX_TASKS]" unfolding set_upt by (simp add: MAX_TASKS_def)
    ultimately have "tasks ?k ! 3 \<noteq> None" by (rule bspec)
    then show False by (simp add: sample_tasks MAX_TASKS_def)
  qed
  then obtain i where i: "free_task_slot ?k = Some i" by blast
  have fr: "has_frames 9 (mach ?k)"
    by (simp add: has_frames_def frames_inv_def sample_machine_def)
  have "first_index (\<lambda>s. s = None) (slots (table_with [channel_cap 2 7 None])) = Some 1"
    using first_free_table_with [of "[channel_cap 2 7 None]"] by (simp add: MAX_CAPS_def)
  then obtain k' where d: "dispatch_spawn_task 1 ?k = Ret (of_nat i, k')"
    using spawn_succeeds [OF kernel_wf_sample i _ fr sample_get_task(1) [of Ready], of 1 1] by auto
  have "(of_nat i :: u64) \<noteq> u64_MAX" by (rule task_id_not_MAX [OF free_task_slot_Some(2) [OF i]])
  then obtain j t s where "(of_nat i :: u64) = of_nat j" "get_task k' j = Some t" "t_state t = Ready"
      "cap_view k' = (cap_view ?k)((1, s) := Some ((init_channel j)\<lparr>cap_id := next_cap_id_ctr ?k\<rparr>))"
    using spawn_is_all_or_nothing [OF kernel_wf_sample d] by auto
  then show ?thesis using d by (intro exI [of _ j] exI [of _ t] exI [of _ s] exI [of _ k']) simp
qed

end
