(* ===== verification/Snapshot.thy ===== *)
theory Snapshot
  imports Syscall
begin

text \<open>
  Checkpoint and restore of the whole system, \<open>process/snapshot.rs\<close>. The static
  \<open>SYSTEM_SNAPSHOT\<close> is passed explicitly beside the kernel state. Reading a capability slot
  with \<open>get\<close> leaves a trace record, so the checksum takes and returns the kernel state.
\<close>

unbundle bit_operations_syntax

subsection \<open>Checkpoints\<close>

record task_checkpoint =
  cp_id :: task_id
  cp_state :: task_state
  cp_caps :: cap_table
  cp_ipc_buffer :: "message option"
  cp_msg_queue :: message_queue

record system_snapshot =
  snap_tasks :: "task_checkpoint option list"
  snap_current :: "task_id option"
  snap_checksum :: u64
  snap_valid :: bool

definition SystemSnapshot_new :: system_snapshot where
  "SystemSnapshot_new =
     \<lparr>snap_tasks = replicate MAX_TASKS None, snap_current = None, snap_checksum = 0, snap_valid = False\<rparr>"

definition checkpoint :: "task \<Rightarrow> task_checkpoint" where
  "checkpoint t = \<lparr>cp_id = t_id t, cp_state = t_state t, cp_caps = t_caps t,
                   cp_ipc_buffer = t_ipc_buffer t, cp_msg_queue = t_msg_queue t\<rparr>"

subsection \<open>The integrity checksum\<close>

fun resource_code :: "resource \<Rightarrow> u64" where
  "resource_code Serial = 1"
| "resource_code (IpcChannel t) = 0x1000 XOR of_nat t"
| "resource_code (MemoryMapping v s w) = 0x2000 XOR v XOR push_bit 1 s XOR of_bool w"
| "resource_code (Service i) = 0x3000 XOR of_nat i"
| "resource_code (KVEntry s r w) = 0x4000 XOR of_nat s XOR push_bit 8 (of_bool r) XOR push_bit 9 (of_bool w)"
| "resource_code (LogChannel c r w) = 0x5000 XOR ucast c XOR push_bit 8 (of_bool r) XOR push_bit 9 (of_bool w)"
| "resource_code (FsNode c r w) = 0x6000 XOR ucast c XOR push_bit 8 (of_bool r) XOR push_bit 9 (of_bool w)"
| "resource_code (Device c r w) = 0x7000 XOR ucast c XOR push_bit 8 (of_bool r) XOR push_bit 9 (of_bool w)"
| "resource_code (SyncObj c) = 0x8000 XOR ucast c"

fun state_code :: "task_state \<Rightarrow> u64" where
  "state_code Ready = 1"
| "state_code Running = 2"
| "state_code BlockedOnReceive = 3"
| "state_code (BlockedOnSend t) = 0x100 XOR of_nat t"
| "state_code Terminated = 5"

definition FNV_OFFSET :: u64 where
  "FNV_OFFSET = 0xcbf29ce484222325"

definition FNV_PRIME :: u64 where
  "FNV_PRIME = 0x100000001b3"

text \<open>The closure \<open>mix\<close> of \<open>checksum\<close>.\<close>

definition mix :: "u64 \<Rightarrow> u64 \<Rightarrow> u64" where
  "mix v h = (h XOR v) * FNV_PRIME"

definition rights_word :: "capability \<Rightarrow> u64" where
  "rights_word c = of_bool (cap_read c) OR push_bit 1 (of_bool (cap_write c)) OR
     push_bit 2 (of_bool (cap_grant c)) OR push_bit 3 (of_bool (cap_sealed c))"

text \<open>\<open>x.map(|v| v + 1).unwrap_or(0)\<close> on a 64-bit value.\<close>

definition succ_or_zero :: "u64 option \<Rightarrow> u64" where
  "succ_or_zero x = (case x of None \<Rightarrow> 0 | Some v \<Rightarrow> v + 1)"

definition checksum_cap :: "cap_table \<Rightarrow> nat \<Rightarrow> u64 \<times> kernel \<Rightarrow> u64 \<times> kernel" where
  "checksum_cap ct cs s =
     (case CapTable_get ct cs (snd s) of
        (None, k) \<Rightarrow> (mix 0 (fst s), k)
      | (Some cap, k) \<Rightarrow>
          (mix (succ_or_zero (cap_origin cap))
             (mix (cap_id cap) (mix (rights_word cap) (mix (resource_code (cap_resource cap)) (fst s)))), k))"

definition checksum_slot :: "task_checkpoint option \<Rightarrow> u64 \<times> kernel \<Rightarrow> u64 \<times> kernel" where
  "checksum_slot slot s =
     (case slot of
        None \<Rightarrow> (mix 0 (fst s), snd s)
      | Some cp \<Rightarrow>
          (let h = mix (state_code (cp_state cp)) (mix (of_nat (cp_id cp)) (mix 0xF00D (fst s)));
               (h, k) = fold (checksum_cap (cp_caps cp)) [0..<MAX_CAPS] (h, snd s);
               h = mix (succ_or_zero (map_option (\<lambda>m. of_nat (msg_len m)) (cp_ipc_buffer cp))) h
           in (mix (of_nat (mq_count (cp_msg_queue cp))) h, k)))"

text \<open>
  The additions \<open>t.0 + 1\<close>, \<open>o + 1\<close> and \<open>m.len + 1\<close> are checked: each panics on the largest
  64-bit value.
\<close>

definition succ_overflows :: "task_checkpoint \<Rightarrow> bool" where
  "succ_overflows cp \<longleftrightarrow>
     list_ex (\<lambda>s. case s of Some c \<Rightarrow> cap_origin c = Some (- 1) | None \<Rightarrow> False) (slots (cp_caps cp)) \<or>
     (case cp_ipc_buffer cp of Some m \<Rightarrow> msg_len m = usize_MAX | None \<Rightarrow> False)"

definition checksum_overflows :: "system_snapshot \<Rightarrow> bool" where
  "checksum_overflows snap \<longleftrightarrow>
     snap_current snap = Some usize_MAX \<or> list_ex succ_overflows (somes (snap_tasks snap))"

definition checksum :: "system_snapshot \<Rightarrow> kernel \<Rightarrow> (u64 \<times> kernel) run" where
  "checksum snap k =
     (if checksum_overflows snap then Panic
      else Ret (fold checksum_slot (snap_tasks snap)
                  (mix (succ_or_zero (map_option of_nat (snap_current snap))) FNV_OFFSET, k)))"

subsection \<open>Capture and restore\<close>

definition capture :: "system_snapshot \<Rightarrow> kernel \<Rightarrow> (system_snapshot \<times> kernel) run" where
  "capture snap k =
     (let snap = snap\<lparr>snap_current := current_task_id k,
                      snap_tasks := map (map_option checkpoint) (tasks k)\<rparr>
      in case checksum snap k of
           Panic \<Rightarrow> Panic
         | Ret (h, k) \<Rightarrow> Ret (snap\<lparr>snap_checksum := h, snap_valid := True\<rparr>, k))"

definition roll_back :: "task_checkpoint \<Rightarrow> task \<Rightarrow> task" where
  "roll_back cp t = t\<lparr>t_state := cp_state cp, t_caps := cp_caps cp,
                      t_ipc_buffer := cp_ipc_buffer cp, t_msg_queue := cp_msg_queue cp\<rparr>"

definition restore_slot :: "system_snapshot \<Rightarrow> nat \<Rightarrow> nat \<times> kernel \<Rightarrow> nat \<times> kernel" where
  "restore_slot snap i s =
     (case snap_tasks snap ! i of
        None \<Rightarrow> s
      | Some cp \<Rightarrow>
          (case get_task (snd s) (cp_id cp) of
             None \<Rightarrow> s
           | Some t \<Rightarrow> (fst s + 1, update_task (cp_id cp) (roll_back cp) (snd s))))"

text \<open>The result \<open>None\<close> is \<open>Err(())\<close>, \<open>Some n\<close> is \<open>Ok(n)\<close>.\<close>

definition restore :: "system_snapshot \<Rightarrow> kernel \<Rightarrow> (nat option \<times> kernel) run" where
  "restore snap k =
     (if \<not> snap_valid snap then Ret (None, k)
      else case checksum snap k of
             Panic \<Rightarrow> Panic
           | Ret (h, k) \<Rightarrow>
               if h \<noteq> snap_checksum snap then Ret (None, k)
               else Ret (case fold (restore_slot snap) [0..<MAX_TASKS] (0, k) of
                           (n, k) \<Rightarrow> (Some n, k)))"

definition info :: "system_snapshot \<Rightarrow> u64 option" where
  "info snap = (if snap_valid snap then Some (snap_checksum snap) else None)"

subsection \<open>The demonstration\<close>

definition fingerprint_step :: "cap_table \<Rightarrow> nat \<Rightarrow> (nat \<times> u64) \<times> kernel \<Rightarrow> (nat \<times> u64) \<times> kernel" where
  "fingerprint_step ct cs s =
     (case CapTable_get ct cs (snd s) of
        (None, k) \<Rightarrow> (fst s, k)
      | (Some cap, k) \<Rightarrow>
          ((fst (fst s) + 1,
            snd (fst s) * 31 + cap_id cap + (case cap_origin cap of Some v \<Rightarrow> v | None \<Rightarrow> 0) * 7
              + resource_code (cap_resource cap)), k))"

definition victim_fingerprint :: "task_id \<Rightarrow> kernel \<Rightarrow> (nat \<times> u64) \<times> kernel" where
  "victim_fingerprint victim k =
     (case get_task k victim of
        None \<Rightarrow> ((0, 0), k)
      | Some t \<Rightarrow> fold (fingerprint_step (t_caps t)) [0..<MAX_CAPS] ((0, 0), k))"

text \<open>
  \<open>demo\<close>: \<open>Some (equivalent, deterministic)\<close> when the verdict line is printed, \<open>None\<close> when the
  restore was rejected.
\<close>

definition snapshot_demo ::
  "task_id \<Rightarrow> system_snapshot \<Rightarrow> kernel \<Rightarrow> ((bool \<times> bool) option \<times> system_snapshot \<times> kernel) run" where
  "snapshot_demo victim snap k =
     run_bind (capture snap k) (\<lambda>(snap, k).
       let original = (case info snap of Some h \<Rightarrow> h | None \<Rightarrow> 0);
           (before, k) = victim_fingerprint victim k;
           k = update_task victim (\<lambda>t. t\<lparr>t_caps := CapTable_new\<rparr>) k;
           (after_wipe, k) = victim_fingerprint victim k
       in run_bind (restore snap k) (\<lambda>(r, k).
            case r of
              None \<Rightarrow> Ret (None, snap, k)
            | Some n \<Rightarrow>
                (let (after_restore, k) = victim_fingerprint victim k
                 in run_bind (capture snap k) (\<lambda>(snap, k).
                      let recomputed = (case info snap of Some h \<Rightarrow> h | None \<Rightarrow> 0)
                      in Ret (Some (after_restore = before, recomputed = original), snap, k)))))"

subsection \<open>What the checksum hashes\<close>

text \<open>The sequence of words mixed into the hash, free of the trace records.\<close>

definition cap_words :: "capability option \<Rightarrow> u64 list" where
  "cap_words s = (case s of None \<Rightarrow> [0]
     | Some c \<Rightarrow> [resource_code (cap_resource c), rights_word c, cap_id c, succ_or_zero (cap_origin c)])"

definition checkpoint_words :: "task_checkpoint option \<Rightarrow> u64 list" where
  "checkpoint_words slot = (case slot of None \<Rightarrow> [0]
     | Some cp \<Rightarrow> [0xF00D, of_nat (cp_id cp), state_code (cp_state cp)] @
         concat (map (\<lambda>i. cap_words (cap_at (cp_caps cp) i)) [0..<MAX_CAPS]) @
         [succ_or_zero (map_option (\<lambda>m. of_nat (msg_len m)) (cp_ipc_buffer cp)),
          of_nat (mq_count (cp_msg_queue cp))])"

definition snapshot_words :: "system_snapshot \<Rightarrow> u64 list" where
  "snapshot_words snap =
     succ_or_zero (map_option of_nat (snap_current snap)) # concat (map checkpoint_words (snap_tasks snap))"

lemma CapTable_get_eq:
  "CapTable_get t i g = (c, g') \<Longrightarrow> c = cap_at t i \<and> same_but_trace g g'"
  using CapTable_get_fst [of t i g] CapTable_get_same [of g t i] by (metis fst_conv snd_conv)

lemma checksum_cap_words:
  "fst (checksum_cap ct i s) = fold mix (cap_words (cap_at ct i)) (fst s) \<and>
   same_but_trace (snd s) (snd (checksum_cap ct i s))"
proof (cases "CapTable_get ct i (snd s)")
  case (Pair c k)
  with CapTable_get_eq [OF this] show ?thesis
    by (auto simp: checksum_cap_def cap_words_def split: option.split)
qed

text \<open>A loop whose body mixes words into the hash mixes in their concatenation.\<close>

lemma fold_hash_words:
  assumes "\<And>x s. fst (f x s) = fold mix (w x) (fst s) \<and> same_but_trace (snd s) (snd (f x s))"
  shows "fst (fold f xs s) = fold mix (concat (map w xs)) (fst s) \<and>
    same_but_trace (snd s) (snd (fold f xs s))"
proof (induction xs arbitrary: s)
  case Nil
  then show ?case by simp
next
  case (Cons x xs)
  show ?case
    using assms [of x s] Cons.IH [of "f x s"] by (auto intro: same_but_trace_trans)
qed

lemmas checksum_caps_words = fold_hash_words [where f = "checksum_cap ct" for ct, OF checksum_cap_words]

lemma checksum_slot_words:
  "fst (checksum_slot slot s) = fold mix (checkpoint_words slot) (fst s) \<and>
   same_but_trace (snd s) (snd (checksum_slot slot s))"
proof (cases slot)
  case None
  then show ?thesis by (simp add: checksum_slot_def checkpoint_words_def)
next
  case (Some cp)
  let ?h = "mix (state_code (cp_state cp)) (mix (of_nat (cp_id cp)) (mix 0xF00D (fst s)))"
  show ?thesis
    using checksum_caps_words [of "cp_caps cp" "[0..<MAX_CAPS]" "(?h, snd s)"] Some
    by (simp add: checksum_slot_def checkpoint_words_def Let_def split_def)
qed

lemmas checksum_slots_words = fold_hash_words [where f = checksum_slot, OF checksum_slot_words]

definition hash_of :: "system_snapshot \<Rightarrow> u64" where
  "hash_of snap = fold mix (snapshot_words snap) FNV_OFFSET"

lemma checksum_cases:
  "checksum snap k = (if checksum_overflows snap then Panic
     else Ret (hash_of snap, snd (fold checksum_slot (snap_tasks snap)
       (mix (succ_or_zero (map_option of_nat (snap_current snap))) FNV_OFFSET, k))))"
  using checksum_slots_words [of "snap_tasks snap"]
  by (simp add: checksum_def hash_of_def snapshot_words_def prod_eq_iff)

lemma checksum_Ret:
  assumes "checksum snap k = Ret (h, k')"
  shows "\<not> checksum_overflows snap" "h = hash_of snap" "same_but_trace k k'"
  using assms checksum_slots_words [of "snap_tasks snap" "(mix (succ_or_zero (map_option of_nat (snap_current snap))) FNV_OFFSET, k)"]
  by (auto simp: checksum_cases split: if_splits)

subsection \<open>Tampering with one word changes the checksum\<close>

text \<open>The FNV prime is odd, so multiplication with it is a bijection on 64-bit words.\<close>

lemma FNV_PRIME_cancel: "x * FNV_PRIME = y * FNV_PRIME \<Longrightarrow> x = y"
proof -
  assume eq: "x * FNV_PRIME = y * FNV_PRIME"
  have inv: "FNV_PRIME * 0xce965057aff6957b = 1" by (simp add: FNV_PRIME_def)
  have "x * FNV_PRIME * 0xce965057aff6957b = y * FNV_PRIME * 0xce965057aff6957b" by (simp only: eq)
  then have "x * (FNV_PRIME * 0xce965057aff6957b) = y * (FNV_PRIME * 0xce965057aff6957b)"
    by (simp only: mult.assoc)
  then show "x = y" by (simp only: inv mult_1_right)
qed

lemma xor_cancel_right_u64:
  assumes "(x :: u64) XOR v = y XOR v"
  shows "x = y"
proof -
  have "(x XOR v) XOR v = (y XOR v) XOR v" by (simp only: assms)
  then show ?thesis by (simp add: xor.assoc)
qed

lemma mix_inject_hash: "mix v h = mix v h' \<longleftrightarrow> h = h'"
  unfolding mix_def using FNV_PRIME_cancel xor_cancel_right_u64 by blast

lemma mix_inject_word: "mix v h = mix v' h \<longleftrightarrow> v = v'"
proof
  assume "mix v h = mix v' h"
  then have "v XOR h = v' XOR h" unfolding mix_def by (simp only: FNV_PRIME_cancel xor.commute)
  then show "v = v'" by (rule xor_cancel_right_u64)
qed simp

lemma fold_mix_inject: "fold mix vs h = fold mix vs h' \<longleftrightarrow> h = h'"
  by (induction vs arbitrary: h h') (simp_all add: mix_inject_hash)

lemma fold_mix_one_word:
  "fold mix (xs @ [v] @ ys) h = fold mix (xs @ [v'] @ ys) h \<longleftrightarrow> v = v'"
  by (simp add: fold_mix_inject mix_inject_word)

subsection \<open>Restoring\<close>

definition snapshot_wf :: "system_snapshot \<Rightarrow> bool" where
  "snapshot_wf snap \<longleftrightarrow>
     length (snap_tasks snap) = MAX_TASKS \<and>
     (\<forall>i<MAX_TASKS. \<forall>cp. snap_tasks snap ! i = Some cp \<longrightarrow>
        cp_id cp = i \<and> cap_table_wf (cp_caps cp) \<and> queue_inv (cp_msg_queue cp))"

lemma roll_back_id [simp]: "t_id (roll_back cp t) = t_id t"
  by (simp add: roll_back_def)

lemma restore_slots_conj:
  assumes "snapshot_wf snap" "n \<le> MAX_TASKS"
  shows "(\<forall>i. get_task (snd (fold (restore_slot snap) [0..<n] (m, k))) i =
      (if i < n then (case snap_tasks snap ! i of
          Some cp \<Rightarrow> map_option (roll_back cp) (get_task k i) | None \<Rightarrow> get_task k i)
       else get_task k i)) \<and>
    fst (fold (restore_slot snap) [0..<n] (m, k)) =
       m + length (filter (\<lambda>i. snap_tasks snap ! i \<noteq> None \<and> get_task k i \<noteq> None) [0..<n]) \<and>
    (kernel_wf k \<longrightarrow> kernel_wf (snd (fold (restore_slot snap) [0..<n] (m, k))))"
  using assms(2)
proof (induction n)
  case 0
  then show ?case by simp
next
  case (Suc n)
  let ?s = "fold (restore_slot snap) [0..<n] (m, k)"
  have step: "fold (restore_slot snap) [0..<Suc n] (m, k) = restore_slot snap n ?s" by simp
  have cp: "cp_id cp = n \<and> cap_table_wf (cp_caps cp) \<and> queue_inv (cp_msg_queue cp)"
    if "snap_tasks snap ! n = Some cp" for cp
    using that Suc.prems assms(1) by (auto simp: snapshot_wf_def Suc_le_eq)
  note IH = Suc.IH [OF Suc_leD [OF Suc.prems]]
  then have gn: "get_task (snd ?s) n = get_task k n" by simp
  have 1: "get_task (snd (restore_slot snap n ?s)) i =
      (if i < Suc n then (case snap_tasks snap ! i of
          Some cp \<Rightarrow> map_option (roll_back cp) (get_task k i) | None \<Rightarrow> get_task k i)
       else get_task k i)" for i
    using conjunct1 [OF IH, rule_format, of i] cp gn
    by (auto simp: restore_slot_def [of snap n] get_task_update_task less_Suc_eq split: option.splits)
  have 2: "fst (restore_slot snap n ?s) =
       m + length (filter (\<lambda>i. snap_tasks snap ! i \<noteq> None \<and> get_task k i \<noteq> None) [0..<Suc n])"
    using IH cp gn by (auto simp: restore_slot_def [of snap n] split: option.splits)
  have 3: "kernel_wf (snd (restore_slot snap n ?s))" if "kernel_wf k"
    using IH that cp
    by (auto simp: restore_slot_def [of snap n] task_wf_def roll_back_def split: option.splits
        intro!: kernel_wf_update_task)
  show ?case unfolding step using 1 2 3 by blast
qed

lemmas restore_slots = restore_slots_conj [THEN conjunct1, rule_format]
  restore_slots_conj [THEN conjunct2, THEN conjunct1]
  restore_slots_conj [THEN conjunct2, THEN conjunct2, rule_format]

lemma restore_slots_frame:
  "current_task_id (snd (fold (restore_slot snap) is s)) = current_task_id (snd s) \<and>
   mach (snd (fold (restore_slot snap) is s)) = mach (snd s) \<and>
   next_cap_id_ctr (snd (fold (restore_slot snap) is s)) = next_cap_id_ctr (snd s) \<and>
   length (tasks (snd (fold (restore_slot snap) is s))) = length (tasks (snd s))"
  by (induction "is" arbitrary: s) (simp_all add: restore_slot_def split: option.split)

lemma capture_Ret:
  assumes "capture snap k = Ret (snap', k')"
  shows "snap_tasks snap' = map (map_option checkpoint) (tasks k)" "snap_current snap' = current_task_id k"
    "snap_valid snap'" "snap_checksum snap' = hash_of snap'" "\<not> checksum_overflows snap'" "same_but_trace k k'"
proof -
  let ?s = "snap\<lparr>snap_current := current_task_id k, snap_tasks := map (map_option checkpoint) (tasks k)\<rparr>"
  obtain h where h: "checksum ?s k = Ret (h, k')" "snap' = ?s\<lparr>snap_checksum := h, snap_valid := True\<rparr>"
    using assms by (auto simp: capture_def Let_def split: run.splits)
  have same: "hash_of snap' = hash_of ?s" "checksum_overflows snap' = checksum_overflows ?s"
    by (simp_all add: h hash_of_def snapshot_words_def checksum_overflows_def)
  show "snap_tasks snap' = map (map_option checkpoint) (tasks k)" "snap_current snap' = current_task_id k"
    "snap_valid snap'" by (simp_all add: h)
  show "snap_checksum snap' = hash_of snap'" using checksum_Ret(2) [OF h(1)] same by (simp add: h)
  show "\<not> checksum_overflows snap'" using checksum_Ret(1) [OF h(1)] same by simp
  show "same_but_trace k k'" by (rule checksum_Ret(3) [OF h(1)])
qed

lemma capture_wf:
  assumes "capture snap k = Ret (snap', k')" "kernel_wf k"
  shows "snapshot_wf snap'"
  using assms(2) by (auto simp: capture_Ret(1) [OF assms(1)] snapshot_wf_def kernel_wf_def checkpoint_def task_wf_def)

text \<open>\<open>restore\<close> of a snapshot whose tag matches.\<close>

lemma restore_accepts:
  assumes "snap_valid snap" "snap_checksum snap = hash_of snap" "\<not> checksum_overflows snap" "snapshot_wf snap"
  obtains n k' where "restore snap k = Ret (Some n, k')"
    "n = length (filter (\<lambda>i. snap_tasks snap ! i \<noteq> None \<and> get_task k i \<noteq> None) [0..<MAX_TASKS])"
    "\<forall>i < MAX_TASKS. get_task k' i = (case snap_tasks snap ! i of
          Some cp \<Rightarrow> map_option (roll_back cp) (get_task k i) | None \<Rightarrow> get_task k i)"
    "kernel_wf k \<Longrightarrow> kernel_wf k'" "current_task_id k' = current_task_id k"
    "next_cap_id_ctr k' = next_cap_id_ctr k" "mach k' = mach k"
proof -
  obtain k1 where k1: "checksum snap k = Ret (hash_of snap, k1)"
    using assms(3) by (simp add: checksum_cases)
  note same = same_but_trace_kernel [OF checksum_Ret(3) [OF k1]]
  let ?r = "fold (restore_slot snap) [0..<MAX_TASKS] (0, k1)"
  have r: "restore snap k = Ret (Some (fst ?r), snd ?r)"
    using assms k1 by (simp add: restore_def split_def)
  show ?thesis
  proof (rule that [OF r])
    show "fst ?r = length (filter (\<lambda>i. snap_tasks snap ! i \<noteq> None \<and> get_task k i \<noteq> None) [0..<MAX_TASKS])"
      using restore_slots(2) [OF assms(4), of MAX_TASKS 0 k1] same by simp
    show "\<forall>i < MAX_TASKS. get_task (snd ?r) i = (case snap_tasks snap ! i of
          Some cp \<Rightarrow> map_option (roll_back cp) (get_task k i) | None \<Rightarrow> get_task k i)"
      using restore_slots(1) [OF assms(4), of MAX_TASKS 0 k1] same by (simp split: option.split)
    show "kernel_wf (snd ?r)" if "kernel_wf k"
      using restore_slots(3) [OF assms(4), of MAX_TASKS _ 0] same that by simp
  qed (use restore_slots_frame [of snap "[0..<MAX_TASKS]" "(0, k1)"] same in simp_all)
qed

text \<open>Restoring a captured snapshot rolls back every task that existed then and exists now.\<close>

lemma captured_restore:
  assumes "kernel_wf k" "capture s k = Ret (snap, k1)" "kernel_wf k2"
  shows "\<exists>n k3. restore snap k2 = Ret (Some n, k3) \<and> kernel_wf k3 \<and>
     n = length (filter (\<lambda>i. get_task k i \<noteq> None \<and> get_task k2 i \<noteq> None) [0..<MAX_TASKS]) \<and>
     current_task_id k3 = current_task_id k2 \<and> next_cap_id_ctr k3 = next_cap_id_ctr k2 \<and> mach k3 = mach k2 \<and>
     (\<forall>i < MAX_TASKS. get_task k3 i =
        (case get_task k i of
           Some t \<Rightarrow> map_option (roll_back (checkpoint t)) (get_task k2 i)
         | None \<Rightarrow> get_task k2 i))"
proof -
  note cap = capture_Ret [OF assms(2)]
  have len: "length (tasks k) = MAX_TASKS" using assms(1) by (simp add: kernel_wf_def)
  have sn: "snap_tasks snap ! i = map_option checkpoint (get_task k i)" if "i < MAX_TASKS" for i
    using that len kernel_wf_get_task [OF assms(1) that] by (simp add: cap(1))
  obtain n k3 where r: "restore snap k2 = Ret (Some n, k3)"
    "n = length (filter (\<lambda>i. snap_tasks snap ! i \<noteq> None \<and> get_task k2 i \<noteq> None) [0..<MAX_TASKS])"
    "\<forall>i < MAX_TASKS. get_task k3 i = (case snap_tasks snap ! i of
          Some cp \<Rightarrow> map_option (roll_back cp) (get_task k2 i) | None \<Rightarrow> get_task k2 i)"
    "kernel_wf k2 \<Longrightarrow> kernel_wf k3" "current_task_id k3 = current_task_id k2"
    "next_cap_id_ctr k3 = next_cap_id_ctr k2" "mach k3 = mach k2"
    by (rule restore_accepts [OF cap(3-5) capture_wf [OF assms(2,1)], of k2]) (rule that)
  have n: "n = length (filter (\<lambda>i. get_task k i \<noteq> None \<and> get_task k2 i \<noteq> None) [0..<MAX_TASKS])"
    unfolding r(2) by (intro arg_cong [where f = length] filter_cong) (auto simp: sn)
  have "\<forall>i < MAX_TASKS. get_task k3 i =
        (case get_task k i of
           Some t \<Rightarrow> map_option (roll_back (checkpoint t)) (get_task k2 i)
         | None \<Rightarrow> get_task k2 i)"
    using r(3) sn by (simp split: option.split)
  with r(1,4-7) n assms(3) show ?thesis by blast
qed

text \<open>A forgery: capability \<open>j\<close> of checkpoint \<open>i\<close> replaced in a stored snapshot.\<close>

definition forge_cap :: "nat \<Rightarrow> nat \<Rightarrow> capability \<Rightarrow> system_snapshot \<Rightarrow> system_snapshot" where
  "forge_cap i j c snap = snap\<lparr>snap_tasks := (snap_tasks snap)[i :=
     map_option (\<lambda>cp. cp\<lparr>cp_caps := \<lparr>slots = (slots (cp_caps cp))[j := Some c]\<rparr>\<rparr>) (snap_tasks snap ! i)]\<rparr>"

lemma rights_word_inject:
  "rights_word c = rights_word d \<Longrightarrow> cap_read c = cap_read d \<and> cap_write c = cap_write d \<and>
     cap_grant c = cap_grant d \<and> cap_sealed c = cap_sealed d"
  by (cases "cap_read c"; cases "cap_write c"; cases "cap_grant c"; cases "cap_sealed c";
      cases "cap_read d"; cases "cap_write d"; cases "cap_grant d"; cases "cap_sealed d")
    (simp_all add: rights_word_def)

lemma concat_map_split:
  "i < length xs \<Longrightarrow> concat (map f xs) = concat (map f (take i xs)) @ f (xs ! i) @ concat (map f (drop (Suc i) xs))"
  by (subst id_take_nth_drop [of i xs]) simp_all

lemma concat_map_update:
  "i < length xs \<Longrightarrow>
   concat (map f (xs[i := y])) = concat (map f (take i xs)) @ f y @ concat (map f (drop (Suc i) xs))"
  by (simp add: upd_conv_take_nth_drop)

lemma concat_upt_split:
  assumes "j < n"
  shows "concat (map f [0..<n]) = concat (map f [0..<j]) @ f j @ concat (map f [Suc j..<n])"
  using upt_add_eq_append [of 0 j "n - j"] assms by (simp add: upt_rec [of j n])

text \<open>Two hash inputs that differ in one place.\<close>

definition one_word_apart :: "u64 list \<Rightarrow> u64 list \<Rightarrow> bool" where
  "one_word_apart a b \<longleftrightarrow> (\<exists>xs ys v v'. a = xs @ [v] @ ys \<and> b = xs @ [v'] @ ys \<and> v \<noteq> v')"

lemma one_word_apart_context: "one_word_apart a b \<Longrightarrow> one_word_apart (xs @ a @ ys) (xs @ b @ ys)"
  unfolding one_word_apart_def by (metis append.assoc)

lemma one_word_apart_hash: "one_word_apart a b \<Longrightarrow> fold mix a h \<noteq> fold mix b h"
  using fold_mix_one_word unfolding one_word_apart_def by blast

lemma forge_cap_words:
  assumes "snapshot_wf snap" "i < MAX_TASKS" "snap_tasks snap ! i = Some cp" "cap_at (cp_caps cp) j = Some c"
    and "one_word_apart (cap_words (Some c)) (cap_words (Some c'))"
  shows "one_word_apart (snapshot_words snap) (snapshot_words (forge_cap i j c' snap))"
proof -
  have j: "j < MAX_CAPS" using assms(4) by (simp add: cap_at_def split: if_splits)
  have lens: "i < length (snap_tasks snap)" "j < length (slots (cp_caps cp))"
    using assms(1,2,3) j by (auto simp: snapshot_wf_def cap_table_wf_def)
  let ?ct = "\<lparr>slots = (slots (cp_caps cp))[j := Some c']\<rparr>"
  have at: "cap_at ?ct j = Some c'" "\<And>n. n \<noteq> j \<Longrightarrow> cap_at ?ct n = cap_at (cp_caps cp) n"
    using lens j by (simp_all add: cap_at_def)
  have "one_word_apart (concat (map (\<lambda>n. cap_words (cap_at (cp_caps cp) n)) [0..<MAX_CAPS]))
      (concat (map (\<lambda>n. cap_words (cap_at ?ct n)) [0..<MAX_CAPS]))"
  proof -
    have "map (\<lambda>n. cap_words (cap_at ?ct n)) [0..<j] = map (\<lambda>n. cap_words (cap_at (cp_caps cp) n)) [0..<j]"
      "map (\<lambda>n. cap_words (cap_at ?ct n)) [Suc j..<MAX_CAPS] =
       map (\<lambda>n. cap_words (cap_at (cp_caps cp) n)) [Suc j..<MAX_CAPS]"
      using at(2) by auto
    then show ?thesis
      unfolding concat_upt_split [OF j] at(1) assms(4)
      by (simp only:) (rule one_word_apart_context [OF assms(5)])
  qed
  from one_word_apart_context [OF this]
  have "one_word_apart (checkpoint_words (Some cp)) (checkpoint_words (Some (cp\<lparr>cp_caps := ?ct\<rparr>)))"
    by (simp add: checkpoint_words_def) (metis append_Cons append_Nil)
  moreover have "snapshot_words snap = (succ_or_zero (map_option of_nat (snap_current snap)) #
        concat (map checkpoint_words (take i (snap_tasks snap)))) @ checkpoint_words (Some cp) @
        concat (map checkpoint_words (drop (Suc i) (snap_tasks snap)))"
    unfolding snapshot_words_def concat_map_split [OF lens(1)] assms(3) by simp
  moreover have "snapshot_words (forge_cap i j c' snap) = (succ_or_zero (map_option of_nat (snap_current snap)) #
        concat (map checkpoint_words (take i (snap_tasks snap)))) @ checkpoint_words (Some (cp\<lparr>cp_caps := ?ct\<rparr>)) @
        concat (map checkpoint_words (drop (Suc i) (snap_tasks snap)))"
    by (simp add: snapshot_words_def forge_cap_def concat_map_update [OF lens(1)] assms(3))
  ultimately show ?thesis by (metis one_word_apart_context)
qed

lemma forge_cap_overflows:
  assumes "\<not> checksum_overflows snap" "cap_origin c' \<noteq> Some (- 1)"
  shows "\<not> checksum_overflows (forge_cap i j c' snap)"
proof -
  have slots': "list_ex P (xs[j := Some c']) \<Longrightarrow> \<not> P (Some c') \<Longrightarrow> list_ex P xs"
    for P :: "capability option \<Rightarrow> bool" and xs
    by (auto simp: list_ex_iff dest!: subsetD [OF set_update_subset_insert])
  have cp: "\<not> succ_overflows (cp\<lparr>cp_caps := \<lparr>slots = (slots (cp_caps cp))[j := Some c']\<rparr>\<rparr>)"
    if "\<not> succ_overflows cp" for cp
    using that assms(2) by (auto simp: succ_overflows_def dest!: slots')
  show ?thesis
  proof (cases "i < length (snap_tasks snap)")
    case True
    then have "snap_tasks snap ! i \<in> set (snap_tasks snap)" by simp
    with assms(1) cp show ?thesis
      by (cases "snap_tasks snap ! i") (auto simp: checksum_overflows_def forge_cap_def list_ex_iff set_somes
          dest!: subsetD [OF set_update_subset_insert])
  next
    case False
    then show ?thesis using assms(1) by (simp add: forge_cap_def list_update_beyond checksum_overflows_def)
  qed
qed

text \<open>
  A snapshot in which the rights or the seal of a stored capability were forged, under the tag
  of the capture, is refused: the restore returns an error and changes nothing but the trace.
\<close>

theorem forged_rights_rejected:
  assumes "kernel_wf k" "capture s k = Ret (snap, k1)" "get_task k i = Some t" "cap_at (t_caps t) j = Some c"
    and "c' = c\<lparr>cap_read := r, cap_write := w, cap_grant := g, cap_sealed := z\<rparr>" "c' \<noteq> c"
  shows "\<exists>k3. restore (forge_cap i j c' snap) k2 = Ret (None, k3) \<and> same_but_trace k2 k3"
proof -
  note cap = capture_Ret [OF assms(2)]
  have i: "i < MAX_TASKS" using assms(1,3) kernel_wf_task by blast
  have cp: "snap_tasks snap ! i = Some (checkpoint t)"
    using i assms(1,3) kernel_wf_get_task [OF assms(1) i] by (simp add: cap(1) kernel_wf_def)
  have "rights_word c \<noteq> rights_word c'"
  proof
    assume "rights_word c = rights_word c'"
    from rights_word_inject [OF this] assms(5) have "c' = c" by (cases c) simp
    with assms(6) show False ..
  qed
  moreover have "cap_words (Some c) =
      [resource_code (cap_resource c)] @ [rights_word c] @ [cap_id c, succ_or_zero (cap_origin c)]"
    "cap_words (Some c') =
      [resource_code (cap_resource c)] @ [rights_word c'] @ [cap_id c, succ_or_zero (cap_origin c)]"
    using assms(5) by (simp_all add: cap_words_def)
  ultimately have "one_word_apart (cap_words (Some c)) (cap_words (Some c'))"
    unfolding one_word_apart_def by blast
  from forge_cap_words [OF capture_wf [OF assms(2,1)] i cp _ this] assms(4)
  have ne: "hash_of (forge_cap i j c' snap) \<noteq> hash_of snap"
    using one_word_apart_hash by (metis hash_of_def checkpoint_def task_checkpoint.select_convs(3))
  have "Some c \<in> set (slots (t_caps t))"
    using assms(4) kernel_wf_task [OF assms(1,3)]
    by (auto simp: cap_at_def task_wf_def cap_table_wf_def in_set_conv_nth split: if_splits)
  moreover have "\<not> succ_overflows (checkpoint t)"
    using cap(5) cp i capture_wf [OF assms(2,1)] nth_mem [of i "snap_tasks snap"]
    by (auto simp: checksum_overflows_def list_ex_iff set_somes snapshot_wf_def simp del: nth_mem)
  ultimately have "cap_origin c' \<noteq> Some (- 1)"
    unfolding assms(5) by (auto simp: succ_overflows_def checkpoint_def list_ex_iff)
  from forge_cap_overflows [OF cap(5) this]
  obtain k3 where k3: "checksum (forge_cap i j c' snap) k2 = Ret (hash_of (forge_cap i j c' snap), k3)"
    by (simp add: checksum_cases)
  have f: "snap_checksum (forge_cap i j c' snap) = hash_of snap" "snap_valid (forge_cap i j c' snap)"
    using cap(3,4) by (simp_all add: forge_cap_def)
  show ?thesis using k3 checksum_Ret(3) [OF k3] ne f by (auto simp: restore_def)
qed

subsection \<open>The persistence demonstration\<close>

lemma fingerprint_step_pure:
  "fst (fingerprint_step ct i (a, k)) = fst (fingerprint_step ct i (a, k')) \<and>
   same_but_trace k (snd (fingerprint_step ct i (a, k)))"
proof -
  obtain c g c' g' where get: "CapTable_get ct i k = (c, g)" "CapTable_get ct i k' = (c', g')" by fastforce
  with CapTable_get_eq [OF get(1)] CapTable_get_eq [OF get(2)] show ?thesis
    by (auto simp: fingerprint_step_def split: option.split)
qed

lemma fingerprint_fold_pure:
  "fst (fold (fingerprint_step ct) is (a, k)) = fst (fold (fingerprint_step ct) is (a, k')) \<and>
   same_but_trace k (snd (fold (fingerprint_step ct) is (a, k)))"
proof (induction "is" arbitrary: a k k')
  case Nil
  then show ?case by simp
next
  case (Cons i js)
  obtain a1 g where s1: "fingerprint_step ct i (a, k) = (a1, g)" by fastforce
  obtain a2 g' where s2: "fingerprint_step ct i (a, k') = (a2, g')" by fastforce
  have "a2 = a1" "same_but_trace k g" using fingerprint_step_pure [of ct i a k k'] s1 s2 by simp_all
  then show ?case using Cons.IH [of a1 g g'] s1 s2 by (auto intro: same_but_trace_trans)
qed

text \<open>The fingerprint is a function of the victim's capability table.\<close>

lemma victim_fingerprint_pure:
  assumes "map_option t_caps (get_task k v) = map_option t_caps (get_task k' v)"
  shows "fst (victim_fingerprint v k) = fst (victim_fingerprint v k')"
  using assms fingerprint_fold_pure [of _ _ _ k k']
  by (auto simp: victim_fingerprint_def split: option.splits)

lemma victim_fingerprint_same: "same_but_trace k (snd (victim_fingerprint v k))"
  using fingerprint_fold_pure [of _ _ _ k k] by (auto simp: victim_fingerprint_def split: option.split)

text \<open>A captured snapshot is determined by what it projects.\<close>

lemma capture_defined:
  assumes "capture s k = Ret (snap, k1)" "map (map_option checkpoint) (tasks k) = map (map_option checkpoint) (tasks k2)"
    "current_task_id k2 = current_task_id k"
  shows "\<exists>snap' k3. capture s' k2 = Ret (snap', k3) \<and> snap_checksum snap' = snap_checksum snap"
proof -
  let ?s = "s'\<lparr>snap_current := current_task_id k2, snap_tasks := map (map_option checkpoint) (tasks k2)\<rparr>"
  have eq: "checksum_overflows ?s = checksum_overflows snap" "hash_of ?s = hash_of snap"
    using capture_Ret(1,2) [OF assms(1)] assms(2,3)
    by (simp_all add: checksum_overflows_def hash_of_def snapshot_words_def)
  then obtain k3 where "checksum ?s k2 = Ret (hash_of snap, k3)"
    using capture_Ret(5) [OF assms(1)] by (simp add: checksum_cases)
  then show ?thesis using capture_Ret(4) [OF assms(1)] by (simp add: capture_def)
qed

text \<open>
  The persistence demonstration passes. On every well-formed kernel whose capture does not
  overflow, wiping the victim's capability table and restoring brings back its fingerprint, and a
  second capture gives the checksum of the first.
\<close>

theorem snapshot_demo_passes:
  assumes "kernel_wf k" "capture s k = Ret (snap, k1)"
  shows "\<exists>snap' k'. snapshot_demo victim s k = Ret (Some (True, True), snap', k')"
proof -
  let ?k2 = "snd (victim_fingerprint victim k1)"
  let ?k3 = "update_task victim (\<lambda>t. t\<lparr>t_caps := CapTable_new\<rparr>) ?k2"
  let ?k4 = "snd (victim_fingerprint victim ?k3)"
  note same1 = same_but_trace_kernel [OF capture_Ret(6) [OF assms(2)]]
  note same2 = same_but_trace_kernel [OF victim_fingerprint_same [of k1 victim]]
  note same4 = same_but_trace_kernel [OF victim_fingerprint_same [of ?k3 victim]]
  have wf4: "kernel_wf ?k4"
    unfolding same4 using assms(1) same1 same2
    by (auto simp: task_wf_def intro!: kernel_wf_update_task)
  have g4: "get_task ?k4 i = (if i = victim then map_option (\<lambda>t. t\<lparr>t_caps := CapTable_new\<rparr>) (get_task k i)
      else get_task k i)" for i
    unfolding same4 by (simp add: get_task_update_task same1 same2)
  obtain n k5 where r: "restore snap ?k4 = Ret (Some n, k5)" "kernel_wf k5" "current_task_id k5 = current_task_id ?k4"
    "\<forall>i < MAX_TASKS. get_task k5 i =
        (case get_task k i of
           Some t \<Rightarrow> map_option (roll_back (checkpoint t)) (get_task ?k4 i)
         | None \<Rightarrow> get_task ?k4 i)"
    using captured_restore [OF assms wf4] by blast
  have g5: "get_task k5 i = get_task k i" if "i < MAX_TASKS" for i
    using r(4) that by (simp add: g4 roll_back_def checkpoint_def split: option.split)
  have t5: "tasks k5 = tasks k"
  proof (rule nth_equalityI)
    show "length (tasks k5) = length (tasks k)" using assms(1) r(2) by (simp add: kernel_wf_def)
    show "tasks k5 ! i = tasks k ! i" if "i < length (tasks k5)" for i
      using that g5 [of i] kernel_wf_get_task [OF assms(1), of i] kernel_wf_get_task [OF r(2), of i] r(2)
      by (simp add: kernel_wf_def)
  qed
  let ?k6 = "snd (victim_fingerprint victim k5)"
  note same6 = same_but_trace_kernel [OF victim_fingerprint_same [of k5 victim]]
  have fp: "fst (victim_fingerprint victim k5) = fst (victim_fingerprint victim k1)"
    by (rule victim_fingerprint_pure) (simp add: get_task_def t5 same1)
  obtain snap' k7 where c7: "capture snap ?k6 = Ret (snap', k7)" "snap_checksum snap' = snap_checksum snap"
    using capture_defined [OF assms(2), of ?k6 snap] r(3) same1 same2 same4 same6 t5 by auto
  have "snap_valid snap'" "snap_valid snap"
    using capture_Ret(3) [OF c7(1)] capture_Ret(3) [OF assms(2)] by simp_all
  then show ?thesis
    using fp c7 r(1) by (simp add: snapshot_demo_def assms(2) split_def info_def Let_def)
qed

text \<open>
  C21. Capture followed by restore. Whatever happened to the kernel in between, the restore succeeds,
  gives every task that existed at the capture and still exists its captured state, capabilities,
  inbox and queue, keeps its execution context, leaves every other task alone, does not reissue
  capability identities, keeps the kernel well formed and reports the number of tasks it rolled back.
\<close>

theorem restore_after_capture:
  assumes "kernel_wf k" "capture s k = Ret (snap, k1)" "kernel_wf k2"
  shows "\<exists>n k3. restore snap k2 = Ret (Some n, k3) \<and> kernel_wf k3 \<and>
     n = length (filter (\<lambda>i. get_task k i \<noteq> None \<and> get_task k2 i \<noteq> None) [0..<MAX_TASKS]) \<and>
     current_task_id k3 = current_task_id k2 \<and> next_cap_id_ctr k3 = next_cap_id_ctr k2 \<and> mach k3 = mach k2 \<and>
     (\<forall>i < MAX_TASKS. get_task k3 i =
        (case (get_task k i, get_task k2 i) of
           (Some t, Some u) \<Rightarrow> Some (u\<lparr>t_state := t_state t, t_caps := t_caps t,
                                      t_ipc_buffer := t_ipc_buffer t, t_msg_queue := t_msg_queue t\<rparr>)
         | (_, x) \<Rightarrow> x))"
proof -
  have "(case x of Some t \<Rightarrow> map_option (roll_back (checkpoint t)) y | None \<Rightarrow> y) =
      (case (x, y) of
         (Some t, Some u) \<Rightarrow> Some (u\<lparr>t_state := t_state t, t_caps := t_caps t,
                                    t_ipc_buffer := t_ipc_buffer t, t_msg_queue := t_msg_queue t\<rparr>)
       | (_, z) \<Rightarrow> z)" for x y
    by (simp add: roll_back_def checkpoint_def split: option.split)
  then show ?thesis using captured_restore [OF assms] by (simp only:)
qed

subsection \<open>Concrete snapshots\<close>

lemma sample_task_set: "set (tasks (sample_kernel st)) \<subseteq>
    {None, Some (sample_task 1 Running (table_with [channel_cap 2 7 None])),
     Some (sample_task 2 st (table_with [channel_cap 1 8 (Some 7)]))}"
  using kernel_wf_sample [of st] by (auto simp: in_set_conv_nth sample_tasks kernel_wf_def split: if_splits)

lemma capture_sample: "\<exists>snap k1. capture s (sample_kernel st) = Ret (snap, k1)"
proof -
  let ?s = "s\<lparr>snap_current := Some 1, snap_tasks := map (map_option checkpoint) (tasks (sample_kernel st))\<rparr>"
  have "\<not> succ_overflows cp" if "cp \<in> set (somes (snap_tasks ?s))" for cp
    using that subsetD [OF sample_task_set [of st]]
    by (fastforce simp: set_somes succ_overflows_def checkpoint_def table_with_def list_ex_iff channel_cap_def)
  then have "\<not> checksum_overflows ?s"
    by (simp add: checksum_overflows_def usize_MAX_def list_ex_iff)
  then show ?thesis by (simp add: capture_def checksum_cases Let_def)
qed

theorem restore_after_capture_witness:
  "\<exists>snap k1 n k3. capture SystemSnapshot_new (sample_kernel Ready) = Ret (snap, k1) \<and>
     restore snap (sample_kernel BlockedOnReceive) = Ret (Some n, k3) \<and>
     map_option t_state (get_task k3 2) = Some Ready"
proof -
  obtain snap k1 where c: "capture SystemSnapshot_new (sample_kernel Ready) = Ret (snap, k1)"
    using capture_sample by blast
  from restore_after_capture [OF kernel_wf_sample c kernel_wf_sample, of BlockedOnReceive]
  obtain n k3 where "restore snap (sample_kernel BlockedOnReceive) = Ret (Some n, k3)"
    "get_task k3 2 = (case (get_task (sample_kernel Ready) 2, get_task (sample_kernel BlockedOnReceive) 2) of
           (Some t, Some u) \<Rightarrow> Some (u\<lparr>t_state := t_state t, t_caps := t_caps t,
                                      t_ipc_buffer := t_ipc_buffer t, t_msg_queue := t_msg_queue t\<rparr>)
         | (_, x) \<Rightarrow> x)"
    by (auto simp del: sample_get_task_simps simp: MAX_TASKS_def)
  with c show ?thesis by simp
qed

theorem forged_rights_rejected_witness:
  "\<exists>snap k1 k3. capture SystemSnapshot_new (sample_kernel Ready) = Ret (snap, k1) \<and>
     restore (forge_cap 1 0 ((channel_cap 2 7 None)\<lparr>cap_sealed := True\<rparr>) snap) (sample_kernel Ready) = Ret (None, k3)"
proof -
  obtain snap k1 where c: "capture SystemSnapshot_new (sample_kernel Ready) = Ret (snap, k1)"
    using capture_sample by blast
  show ?thesis
    using c forged_rights_rejected [OF kernel_wf_sample c sample_get_task(1), of 0 "channel_cap 2 7 None"
        "(channel_cap 2 7 None)\<lparr>cap_sealed := True\<rparr>" True True True True "sample_kernel Ready"]
    by (auto simp: cap_at_table_with channel_cap_def)
qed

theorem snapshot_demo_passes_witness:
  "\<exists>snap' k'. snapshot_demo 1 SystemSnapshot_new (sample_kernel Ready) = Ret (Some (True, True), snap', k')"
proof -
  obtain snap k1 where c: "capture SystemSnapshot_new (sample_kernel Ready) = Ret (snap, k1)"
    using capture_sample by blast
  show ?thesis by (rule snapshot_demo_passes [OF kernel_wf_sample c])
qed

end
