(* ===== verification/Directory.thy ===== *)
theory Directory
  imports Prelude
begin

text \<open>
  Fixed arrays of optional entries used as tables: what \<open>iter().flatten().find(..)\<close> returns after
  an entry was overwritten or taken, and the contract of a directory that maps keys to values.
\<close>

subsection \<open>Searching an array of optional entries\<close>

lemma find_somes_None: "find P (somes xs) = None \<longleftrightarrow> (\<forall>x. Some x \<in> set xs \<longrightarrow> \<not> P x)"
  by (auto simp: find_None_iff set_somes)

lemma find_somes_update_other:
  "i < length xs \<Longrightarrow> (\<And>x. xs ! i = Some x \<Longrightarrow> \<not> P x) \<Longrightarrow> \<not> P y \<Longrightarrow>
   find P (somes (xs[i := Some y])) = find P (somes xs)"
proof (induction xs arbitrary: i)
  case Nil
  then show ?case by simp
next
  case (Cons a xs)
  then show ?case by (cases i; cases a) auto
qed

lemma find_somes_update_same:
  "i < length xs \<Longrightarrow> (\<And>j x. j < i \<Longrightarrow> xs ! j = Some x \<Longrightarrow> \<not> P x) \<Longrightarrow> P y \<Longrightarrow>
   find P (somes (xs[i := Some y])) = Some y"
proof (induction xs arbitrary: i)
  case Nil
  then show ?case by simp
next
  case (Cons a xs)
  show ?case
  proof (cases i)
    case 0
    then show ?thesis using Cons.prems by simp
  next
    case (Suc n)
    have "find P (somes (xs[n := Some y])) = Some y"
    proof (rule Cons.IH)
      show "\<not> P x" if "j < n" "xs ! j = Some x" for j x using Cons.prems(2) [of "Suc j" x] that Suc by simp
    qed (use Cons.prems Suc in simp_all)
    then show ?thesis using Suc Cons.prems(2) [of 0] by (cases a) auto
  qed
qed

lemma find_append: "find P (xs @ ys) = (case find P xs of Some x \<Rightarrow> Some x | None \<Rightarrow> find P ys)"
  by (induction xs) auto

lemma first_free_prefix:
  "first_index (\<lambda>e. e = None) (map Some xs @ replicate (Suc m) None) = Some (length xs)"
  by (auto simp: first_index_Some nth_append)

subsection \<open>The directory contract\<close>

text \<open>
  A directory binds a key to a value. It may be full: \<open>room s k\<close> says that a binding of \<open>k\<close> is
  accepted, which is always so for a key that is bound already.
\<close>

locale directory =
  fixes lookup :: "'s \<Rightarrow> 'k \<Rightarrow> 'v option"
    and put :: "'k \<Rightarrow> 'v \<Rightarrow> 's \<Rightarrow> 's"
    and room :: "'s \<Rightarrow> 'k \<Rightarrow> bool"
  assumes lookup_put: "room s k \<Longrightarrow> lookup (put k v s) k = Some v"
    and lookup_put_other: "j \<noteq> k \<Longrightarrow> lookup (put k v s) j = lookup s j"
    and room_bound: "lookup s k \<noteq> None \<Longrightarrow> room s k"
begin

lemma put_put: "room s k \<Longrightarrow> lookup (put k w (put k v s)) k = Some w"
  using lookup_put room_bound by (metis option.distinct(1))

lemma bound_stays: "lookup s j \<noteq> None \<Longrightarrow> lookup (put k v s) j \<noteq> None"
  using lookup_put lookup_put_other room_bound by (metis option.distinct(1))

text \<open>After any sequence of bindings a key that was bound has the value of its last binding.\<close>

lemma last_binding:
  "lookup s j \<noteq> None \<Longrightarrow>
   lookup (fold (\<lambda>(k, v). put k v) bs s) j =
     (case map_of (rev bs) j of Some v \<Rightarrow> Some v | None \<Rightarrow> lookup s j)"
proof (induction bs arbitrary: s)
  case Nil
  then show ?case by simp
next
  case (Cons b bs)
  obtain k v where b: "b = (k, v)" by fastforce
  have "lookup (fold (\<lambda>(k, v). put k v) bs (put k v s)) j =
      (case map_of (rev bs) j of Some w \<Rightarrow> Some w | None \<Rightarrow> lookup (put k v s) j)"
    by (rule Cons.IH [OF bound_stays [OF Cons.prems]])
  moreover have "lookup (put k v s) j = (if j = k then Some v else lookup s j)"
    using Cons.prems lookup_put lookup_put_other room_bound by auto
  ultimately show ?case
    by (auto simp: b map_add_def split: option.splits)
qed

end

end
