(* ===== verification/Dist.thy ===== *)
theory Dist
  imports Snapshot Directory
begin

text \<open>
  The distribution layer, \<open>process/dist.rs\<close>: the routing table of services, the simulated remote
  node, network-transparent sends, migration and failover. The statics \<open>REGISTRY\<close> and
  \<open>REMOTE\<close> are the two fields of \<open>dist\<close>, passed beside the kernel state.
\<close>

subsection \<open>The routing table and the remote node\<close>

type_synonym node_id = nat
type_synonym service_id = nat

datatype location = Local task_id | Remote node_id

datatype routed = RoutedLocal task_id | RoutedRemote node_id | RoutedUnknown

definition MAX_SERVICES :: nat where
  "MAX_SERVICES = 16"

record service_registry =
  entries :: "(service_id \<times> location) option list"

record remote_node =
  rn_id :: node_id
  rn_inbox :: message_queue
  rn_services :: "(service_id \<times> task_checkpoint) option list"
  rn_delivered :: nat

record dist =
  registry :: service_registry
  remote :: remote_node

definition ServiceRegistry_new :: service_registry where
  "ServiceRegistry_new = \<lparr>entries = replicate MAX_SERVICES None\<rparr>"

definition ServiceRegistry_resolve :: "service_registry \<Rightarrow> service_id \<Rightarrow> location option" where
  "ServiceRegistry_resolve r svc = map_option snd (find (\<lambda>e. fst e = svc) (somes (entries r)))"

text \<open>\<open>set\<close>: overwrite the first entry of the service, or else take the first free entry.\<close>

definition ServiceRegistry_set :: "service_id \<Rightarrow> location \<Rightarrow> service_registry \<Rightarrow> service_registry" where
  "ServiceRegistry_set svc loc r =
     (case first_index (\<lambda>e. case e of Some (s, _) \<Rightarrow> s = svc | None \<Rightarrow> False) (entries r) of
        Some i \<Rightarrow> r\<lparr>entries := (entries r)[i := Some (svc, loc)]\<rparr>
      | None \<Rightarrow>
          (case first_index (\<lambda>e. e = None) (entries r) of
             Some i \<Rightarrow> r\<lparr>entries := (entries r)[i := Some (svc, loc)]\<rparr>
           | None \<Rightarrow> r))"

definition RemoteNode_new :: "node_id \<Rightarrow> remote_node" where
  "RemoteNode_new i = \<lparr>rn_id = i, rn_inbox = MessageQueue_new,
     rn_services = replicate MAX_SERVICES None, rn_delivered = 0\<rparr>"

definition RemoteNode_host :: "service_id \<Rightarrow> task_checkpoint \<Rightarrow> remote_node \<Rightarrow> remote_node" where
  "RemoteNode_host svc cp n =
     (case first_index (\<lambda>e. e = None) (rn_services n) of
        Some i \<Rightarrow> n\<lparr>rn_services := (rn_services n)[i := Some (svc, cp)]\<rparr>
      | None \<Rightarrow> n)"

definition count_caps :: "cap_table \<Rightarrow> nat" where
  "count_caps t = length (somes (slots t))"

definition hosted :: "remote_node \<Rightarrow> service_id \<Rightarrow> task_checkpoint option" where
  "hosted n svc = map_option snd (find (\<lambda>e. fst e = svc) (somes (rn_services n)))"

definition RemoteNode_caps_of :: "remote_node \<Rightarrow> service_id \<Rightarrow> nat option" where
  "RemoteNode_caps_of n svc = map_option (\<lambda>cp. count_caps (cp_caps cp)) (hosted n svc)"

definition dist_init :: dist where
  "dist_init = \<lparr>registry = ServiceRegistry_new, remote = RemoteNode_new 1\<rparr>"

subsection \<open>Routing\<close>

definition register :: "service_id \<Rightarrow> location \<Rightarrow> dist \<Rightarrow> dist" where
  "register svc loc d = d\<lparr>registry := ServiceRegistry_set svc loc (registry d)\<rparr>"

definition enqueue_or_drop :: "message \<Rightarrow> message_queue \<Rightarrow> message_queue" where
  "enqueue_or_drop msg q = (case MessageQueue_enqueue msg q of Some q' \<Rightarrow> q' | None \<Rightarrow> q)"

definition transport_send :: "node_id \<Rightarrow> message \<Rightarrow> dist \<Rightarrow> dist" where
  "transport_send node msg d =
     (if rn_id (remote d) = node
      then d\<lparr>remote := (remote d)\<lparr>rn_inbox := enqueue_or_drop msg (rn_inbox (remote d))\<rparr>\<rparr>
      else d)"

definition route_send :: "capability \<Rightarrow> bytes \<Rightarrow> dist \<Rightarrow> kernel \<Rightarrow> routed \<times> dist \<times> kernel" where
  "route_send cap payload d k =
     (case cap_resource cap of
        Service svc \<Rightarrow>
          (case ServiceRegistry_resolve (registry d) svc of
             None \<Rightarrow> (RoutedUnknown, d, k)
           | Some loc \<Rightarrow>
               (let sender = (case current_task_id k of Some t \<Rightarrow> t | None \<Rightarrow> usize_MAX);
                    n = min (length payload) 128;
                    msg = make_message sender Raw 1 (take n payload)
                in case loc of
                     Local tid \<Rightarrow>
                       (RoutedLocal tid, d,
                        update_task tid (\<lambda>t. t\<lparr>t_msg_queue := enqueue_or_drop msg (t_msg_queue t)\<rparr>) k)
                   | Remote node \<Rightarrow> (RoutedRemote node, transport_send node msg d, k)))
      | _ \<Rightarrow> (RoutedUnknown, d, k))"

subsection \<open>Migration, delivery on the remote node, failover\<close>

text \<open>The result \<open>None\<close> is \<open>Err(())\<close>, \<open>Some n\<close> is \<open>Ok(n)\<close>.\<close>

definition migrate :: "service_id \<Rightarrow> node_id \<Rightarrow> dist \<Rightarrow> kernel \<Rightarrow> nat option \<times> dist \<times> kernel" where
  "migrate svc dest d k =
     (case ServiceRegistry_resolve (registry d) svc of
        Some (Local local_tid) \<Rightarrow>
          (case get_task k local_tid of
             None \<Rightarrow> (None, d, k)
           | Some t \<Rightarrow>
               (let cp = checkpoint t;
                    caps = count_caps (cp_caps cp);
                    d = d\<lparr>remote := RemoteNode_host svc cp (remote d)\<rparr>;
                    d = d\<lparr>registry := ServiceRegistry_set svc (Remote dest) (registry d)\<rparr>
                in (Some caps, d, set_slot local_tid None k)))
      | _ \<Rightarrow> (None, d, k))"

lemma dequeue_count: "MessageQueue_dequeue q = (Some m, q') \<Longrightarrow> mq_count q' < mq_count q"
  by (auto simp: MessageQueue_dequeue_def MessageQueue_is_empty_def split: if_splits)

text \<open>The loop of \<open>pump_remote\<close>, with the texts it prints.\<close>

function pump_loop :: "remote_node \<Rightarrow> bytes list \<times> remote_node" where
  "pump_loop n =
     (case MessageQueue_dequeue (rn_inbox n) of
        (None, q) \<Rightarrow> ([], n\<lparr>rn_inbox := q\<rparr>)
      | (Some msg, q) \<Rightarrow>
          (let text = (if valid_utf8 (msg_body msg) then msg_body msg else ascii ''<binary>'');
               (texts, n') = pump_loop (n\<lparr>rn_inbox := q, rn_delivered := rn_delivered n + 1\<rparr>)
           in (text # texts, n')))"
  by pat_completeness auto
termination
  by (relation "measure (\<lambda>n. mq_count (rn_inbox n))") (auto simp: dequeue_count [OF sym])

declare pump_loop.simps [simp del]

definition pump_remote :: "dist \<Rightarrow> nat \<times> bytes list \<times> dist" where
  "pump_remote d = (case pump_loop (remote d) of (texts, n) \<Rightarrow> (length texts, texts, d\<lparr>remote := n\<rparr>))"

definition failover :: "service_id \<Rightarrow> task_id \<Rightarrow> dist \<Rightarrow> kernel \<Rightarrow> nat option \<times> dist \<times> kernel" where
  "failover svc replica_tid d k =
     (case hosted (remote d) svc of
        None \<Rightarrow> (None, d, k)
      | Some cp \<Rightarrow>
          (case get_task k replica_tid of
             None \<Rightarrow> (None, d, k)
           | Some _ \<Rightarrow>
               (Some (count_caps (cp_caps cp)),
                d\<lparr>registry := ServiceRegistry_set svc (Local replica_tid) (registry d)\<rparr>,
                update_task replica_tid
                  (\<lambda>t. t\<lparr>t_caps := cp_caps cp, t_ipc_buffer := cp_ipc_buffer cp,
                         t_msg_queue := cp_msg_queue cp\<rparr>) k)))"

subsection \<open>Routing by service identity\<close>

text \<open>A service can be routed when it has an entry already or the table has a free one.\<close>

definition registry_room :: "service_registry \<Rightarrow> service_id \<Rightarrow> bool" where
  "registry_room r svc \<longleftrightarrow> ServiceRegistry_resolve r svc \<noteq> None \<or> None \<in> set (entries r)"

lemma set_entry:
  assumes "registry_room r svc"
  obtains i where "i < length (entries r)" "ServiceRegistry_set svc loc r = r\<lparr>entries := (entries r)[i := Some (svc, loc)]\<rparr>"
    "\<And>x. entries r ! i = Some x \<Longrightarrow> fst x = svc" "\<And>j x. j < i \<Longrightarrow> entries r ! j = Some x \<Longrightarrow> fst x \<noteq> svc"
proof (cases "first_index (\<lambda>e. case e of Some (s, _) \<Rightarrow> s = svc | None \<Rightarrow> False) (entries r)")
  case (Some i)
  show ?thesis
  proof (rule that [of i])
    show "i < length (entries r)" using Some by (simp add: first_index_Some)
    show "ServiceRegistry_set svc loc r = r\<lparr>entries := (entries r)[i := Some (svc, loc)]\<rparr>"
      using Some by (simp add: ServiceRegistry_set_def)
    show "fst x = svc" if "entries r ! i = Some x" for x
      using Some that by (auto simp: first_index_Some)
    show "fst x \<noteq> svc" if "j < i" "entries r ! j = Some x" for j x
      using Some that by (cases x) (fastforce simp: first_index_Some)
  qed
next
  case None
  then have no: "\<And>x. Some x \<in> set (entries r) \<Longrightarrow> fst x \<noteq> svc" by (force simp: first_index_None)
  then have "ServiceRegistry_resolve r svc = None"
    by (auto simp: ServiceRegistry_resolve_def find_somes_None)
  with assms have "None \<in> set (entries r)" by (simp add: registry_room_def)
  then obtain i where i: "first_index (\<lambda>e. e = None) (entries r) = Some i"
    by (cases "first_index (\<lambda>e. e = None) (entries r)") (auto simp: first_index_None)
  show ?thesis
  proof (rule that [of i])
    show "i < length (entries r)" using i by (simp add: first_index_Some)
    show "ServiceRegistry_set svc loc r = r\<lparr>entries := (entries r)[i := Some (svc, loc)]\<rparr>"
      using None i by (simp add: ServiceRegistry_set_def)
    show "fst x = svc" if "entries r ! i = Some x" for x using i that by (simp add: first_index_Some)
    show "fst x \<noteq> svc" if "j < i" "entries r ! j = Some x" for j x
      using no [of x] that i by (metis first_index_Some nth_mem order_less_trans)
  qed
qed

lemma set_full: "\<not> registry_room r svc \<Longrightarrow> ServiceRegistry_set svc loc r = r"
proof -
  assume a: "\<not> registry_room r svc"
  then have "first_index (\<lambda>e. case e of Some (s, _) \<Rightarrow> s = svc | None \<Rightarrow> False) (entries r) = None"
    "first_index (\<lambda>e. e = None) (entries r) = None"
    by (auto simp: first_index_None registry_room_def ServiceRegistry_resolve_def find_somes_None
        split: option.split_asm) (metis option.exhaust surj_pair)
  then show ?thesis by (simp add: ServiceRegistry_set_def)
qed

lemma resolve_set_same: "registry_room r svc \<Longrightarrow> ServiceRegistry_resolve (ServiceRegistry_set svc loc r) svc = Some loc"
  by (erule set_entry [where loc = loc])
    (simp add: ServiceRegistry_resolve_def find_somes_update_same)

lemma resolve_set_other:
  assumes "other \<noteq> svc"
  shows "ServiceRegistry_resolve (ServiceRegistry_set svc loc r) other = ServiceRegistry_resolve r other"
proof (cases "registry_room r svc")
  case True
  then show ?thesis
    by (rule set_entry [where loc = loc])
      (use assms in \<open>auto simp: ServiceRegistry_resolve_def find_somes_update_other\<close>)
next
  case False
  then show ?thesis by (simp add: set_full)
qed

lemma registry_room_set: "registry_room r svc \<Longrightarrow> registry_room (ServiceRegistry_set svc loc r) svc"
  by (simp add: registry_room_def [of "ServiceRegistry_set svc loc r"] resolve_set_same)

lemma enqueue_or_drop_contents:
  assumes "queue_inv q"
  shows "queue_inv (enqueue_or_drop m q)"
    "queue_contents (enqueue_or_drop m q) =
       (if length (queue_contents q) < MSG_QUEUE_CAPACITY then queue_contents q @ [m] else queue_contents q)"
  using assms mq.enq_None [OF assms, of m] mq.enq_Some [OF assms, of m] mq.within_capacity [OF assms]
  by (auto simp: enqueue_or_drop_def split: option.split)

subsection \<open>Migration\<close>

lemma migrate_Some:
  assumes "ServiceRegistry_resolve (registry d) svc = Some (Local tid)" "get_task k tid = Some t"
  shows "migrate svc dest d k = (Some (count_caps (t_caps t)),
     \<lparr>registry = ServiceRegistry_set svc (Remote dest) (registry d),
      remote = RemoteNode_host svc (checkpoint t) (remote d)\<rparr>, set_slot tid None k)"
  using assms by (simp add: migrate_def checkpoint_def Let_def)

lemma migrate_error: "fst (migrate svc dest d k) = None \<Longrightarrow> snd (migrate svc dest d k) = (d, k)"
  by (auto simp: migrate_def Let_def split: option.splits location.splits)

lemma hosted_host:
  assumes "hosted n svc = None" "None \<in> set (rn_services n)"
  shows "hosted (RemoteNode_host svc cp n) svc = Some cp"
proof -
  obtain i where i: "first_index (\<lambda>e. e = None) (rn_services n) = Some i"
    using assms(2) by (cases "first_index (\<lambda>e. e = None) (rn_services n)") (auto simp: first_index_None)
  have "find (\<lambda>e. fst e = svc) (somes ((rn_services n)[i := Some (svc, cp)])) = Some (svc, cp)"
  proof (rule find_somes_update_same)
    show "fst x \<noteq> svc" if "j < i" "rn_services n ! j = Some x" for j x
      using that assms(1) i nth_mem [of j "rn_services n"]
      by (cases x) (auto simp: hosted_def find_somes_None first_index_Some simp del: nth_mem)
  qed (use i in \<open>simp_all add: first_index_Some\<close>)
  with i show ?thesis by (simp add: hosted_def RemoteNode_host_def)
qed

lemma RemoteNode_host_frame [simp]:
  "rn_inbox (RemoteNode_host svc cp n) = rn_inbox n" "rn_id (RemoteNode_host svc cp n) = rn_id n"
  "rn_delivered (RemoteNode_host svc cp n) = rn_delivered n"
  by (simp_all add: RemoteNode_host_def split: option.split)

text \<open>Checkpoints are only ever added to a remote node, so its table is filled from the front.\<close>

definition services_prefix :: "remote_node \<Rightarrow> bool" where
  "services_prefix n \<longleftrightarrow> (\<exists>xs m. rn_services n = map Some xs @ replicate m None)"

lemma hosted_host_stale:
  assumes "services_prefix n" "hosted n svc = Some old"
  shows "hosted (RemoteNode_host svc cp n) svc = Some old" "services_prefix (RemoteNode_host svc cp n)"
proof -
  obtain xs m where n: "rn_services n = map Some xs @ replicate m None"
    using assms(1) by (auto simp: services_prefix_def)
  have "hosted (RemoteNode_host svc cp n) svc = Some old \<and> services_prefix (RemoteNode_host svc cp n)"
  proof (cases m)
    case 0
    then have "first_index (\<lambda>e. e = None) (rn_services n) = None" using n by (auto simp: first_index_None)
    then show ?thesis using assms by (simp add: RemoteNode_host_def)
  next
    case (Suc m')
    have "(rn_services n)[length xs := Some (svc, cp)] = map Some (xs @ [(svc, cp)]) @ replicate m' None"
      using n Suc by (simp add: list_update_append)
    then have host: "rn_services (RemoteNode_host svc cp n) = map Some (xs @ [(svc, cp)]) @ replicate m' None"
      using first_free_prefix [of xs m'] n Suc by (simp add: RemoteNode_host_def)
    then have "services_prefix (RemoteNode_host svc cp n)" unfolding services_prefix_def by blast
    moreover have "hosted (RemoteNode_host svc cp n) svc = Some old"
      unfolding hosted_def host using assms(2) n by (auto simp: hosted_def find_append)
    ultimately show ?thesis by blast
  qed
  then show "hosted (RemoteNode_host svc cp n) svc = Some old" "services_prefix (RemoteNode_host svc cp n)"
    by blast+
qed

subsection \<open>The transport\<close>

lemma pump_loop_drains:
  assumes "queue_inv (rn_inbox n)"
  shows "fst (pump_loop n) = map (\<lambda>m. if valid_utf8 (msg_body m) then msg_body m
           else ascii ''<binary>'') (queue_contents (rn_inbox n)) \<and>
    rn_delivered (snd (pump_loop n)) = rn_delivered n + length (queue_contents (rn_inbox n)) \<and>
    queue_inv (rn_inbox (snd (pump_loop n))) \<and> queue_contents (rn_inbox (snd (pump_loop n))) = [] \<and>
    rn_services (snd (pump_loop n)) = rn_services n \<and> rn_id (snd (pump_loop n)) = rn_id n"
  using assms
proof (induction n rule: pump_loop.induct)
  case (1 n)
  obtain r q where d: "MessageQueue_dequeue (rn_inbox n) = (r, q)" by fastforce
  note q = dequeue_inv [OF 1(2) d] dequeue_result [OF 1(2) d]
  show ?case
  proof (cases r)
    case None
    then show ?thesis
      using q d by (subst (1 2 3 4 5 6) pump_loop.simps) (auto split: list.splits)
  next
    case (Some m)
    let ?n = "n\<lparr>rn_inbox := q, rn_delivered := rn_delivered n + 1\<rparr>"
    have step: "pump_loop n = ((if valid_utf8 (msg_body m) then msg_body m
           else ascii ''<binary>'') # fst (pump_loop ?n), snd (pump_loop ?n))"
      using d Some by (subst pump_loop.simps) (simp add: split_def Let_def)
    have "queue_contents (rn_inbox n) = m # queue_contents q"
      using q(2) Some by (simp split: list.splits)
    with 1(1) [OF d [symmetric, unfolded Some] _ refl] q(1) show ?thesis
      unfolding step by (simp add: step split_def)
  qed
qed

lemma route_send_local:
  assumes "cap_resource cap = Service svc" "ServiceRegistry_resolve (registry d) svc = Some (Local tid)"
  shows "route_send cap payload d k = (RoutedLocal tid, d, update_task tid (\<lambda>t. t\<lparr>t_msg_queue :=
     enqueue_or_drop (make_message (case current_task_id k of Some t \<Rightarrow> t | None \<Rightarrow> usize_MAX) Raw 1 (take 128 payload))
       (t_msg_queue t)\<rparr>) k)"
  using assms by (simp add: route_send_def Let_def min_def)

lemma route_send_remote:
  assumes "cap_resource cap = Service svc" "ServiceRegistry_resolve (registry d) svc = Some (Remote node)"
  shows "route_send cap payload d k = (RoutedRemote node, transport_send node
     (make_message (case current_task_id k of Some t \<Rightarrow> t | None \<Rightarrow> usize_MAX) Raw 1 (take 128 payload)) d, k)"
  using assms by (simp add: route_send_def Let_def min_def)

interpretation routes: directory ServiceRegistry_resolve ServiceRegistry_set registry_room
  by unfold_locales (simp_all add: resolve_set_same resolve_set_other registry_room_def)

subsection \<open>Properties of the distribution layer\<close>

text \<open>
  A service that is bound keeps following its last binding. After any sequence of
  registrations the route of a bound service is the last location it was registered at, whatever
  happened to other services.
\<close>

theorem routes_follow_last_binding:
  assumes "ServiceRegistry_resolve (registry d) svc = Some loc"
  shows "ServiceRegistry_resolve (registry (fold (\<lambda>(s, l). register s l) bs d)) svc =
    Some (case map_of (rev bs) svc of Some l \<Rightarrow> l | None \<Rightarrow> loc)"
proof -
  have "registry (fold (\<lambda>(s, l). register s l) bs d) = fold (\<lambda>(s, l). ServiceRegistry_set s l) bs (registry d)"
    by (induction bs arbitrary: d) (auto simp: register_def)
  then show ?thesis using routes.last_binding [of "registry d" svc bs] assms by (simp split: option.split)
qed

theorem routes_follow_last_binding_witness:
  "ServiceRegistry_resolve (registry (fold (\<lambda>(s, l). register s l) [(2, Local 9), (1, Remote 1)]
     (register 1 (Local 5) dist_init))) 1 = Some (Remote 1)"
  using routes_follow_last_binding [of "register 1 (Local 5) dist_init" 1 "Local 5" "[(2, Local 9), (1, Remote 1)]"]
    routes.lookup_put [of ServiceRegistry_new 1 "Local 5"]
  by (simp add: register_def dist_init_def registry_room_def ServiceRegistry_new_def MAX_SERVICES_def)

text \<open>
  C22. Migration is transparent to the holder of a service capability. The capabilities carried
  across are counted exactly, the local instance and only it is torn down, no other route changes,
  and the unchanged capability that was routed to the local task is now routed to the node, where
  the message is appended to the inbox while that has room.
\<close>

theorem migration_is_transparent:
  assumes "ServiceRegistry_resolve (registry d) svc = Some (Local tid)" "get_task k tid = Some t"
    and "queue_inv (rn_inbox (remote d))" "cap_resource cap = Service svc"
    and "migrate svc (rn_id (remote d)) d k = (r, d', k')"
  shows "r = Some (count_caps (t_caps t)) \<and>
    get_task k' tid = None \<and> (\<forall>i. i \<noteq> tid \<longrightarrow> get_task k' i = get_task k i) \<and>
    (\<forall>s. s \<noteq> svc \<longrightarrow> ServiceRegistry_resolve (registry d') s = ServiceRegistry_resolve (registry d) s) \<and>
    fst (route_send cap payload d k) = RoutedLocal tid \<and>
    (\<exists>d''. route_send cap payload d' k' = (RoutedRemote (rn_id (remote d)), d'', k') \<and>
       queue_contents (rn_inbox (remote d'')) =
         (if length (queue_contents (rn_inbox (remote d))) < MSG_QUEUE_CAPACITY
          then queue_contents (rn_inbox (remote d)) @
            [make_message (case current_task_id k of Some c \<Rightarrow> c | None \<Rightarrow> usize_MAX) Raw 1 (take 128 payload)]
          else queue_contents (rn_inbox (remote d))))"
proof -
  have d': "r = Some (count_caps (t_caps t))"
    "d' = \<lparr>registry = ServiceRegistry_set svc (Remote (rn_id (remote d))) (registry d),
           remote = RemoteNode_host svc (checkpoint t) (remote d)\<rparr>" "k' = set_slot tid None k"
    using migrate_Some [OF assms(1,2)] assms(5) by auto
  have room: "registry_room (registry d) svc" using assms(1) by (simp add: registry_room_def)
  have res: "ServiceRegistry_resolve (registry d') svc = Some (Remote (rn_id (remote d)))"
    by (simp add: d' routes.lookup_put [OF room])
  have "tid < length (tasks k)" using get_task_in_range [OF assms(2)] by simp
  then have tasks: "get_task k' tid = None" "\<And>i. i \<noteq> tid \<Longrightarrow> get_task k' i = get_task k i"
    by (simp_all add: d' get_task_set_slot)
  show ?thesis
    unfolding route_send_remote [OF assms(4) res]
    using tasks routes.lookup_put_other enqueue_or_drop_contents(2) [OF assms(3)]
    by (simp add: route_send_local [OF assms(4,1)] transport_send_def d')
qed

text \<open>
  Failover recovers the migrated service. If the node had not hosted the service before, then
  after the migration and any traffic on the transport, a failover to an existing replica gives it
  the capabilities, inbox and queue the service had when it migrated, and routes the service to it.
\<close>

theorem failover_recovers_service:
  assumes "ServiceRegistry_resolve (registry d) svc = Some (Local tid)" "get_task k tid = Some t"
    and "hosted (remote d) svc = None" "None \<in> set (rn_services (remote d))"
    and "migrate svc dest d k = (r, d1, k1)"
    and "registry d2 = registry d1" "rn_services (remote d2) = rn_services (remote d1)"
    and "get_task k2 rep = Some u"
  shows "\<exists>d3 k3. failover svc rep d2 k2 = (Some (count_caps (t_caps t)), d3, k3) \<and>
    get_task k3 rep = Some (u\<lparr>t_caps := t_caps t, t_ipc_buffer := t_ipc_buffer t, t_msg_queue := t_msg_queue t\<rparr>) \<and>
    (\<forall>i. i \<noteq> rep \<longrightarrow> get_task k3 i = get_task k2 i) \<and>
    ServiceRegistry_resolve (registry d3) svc = Some (Local rep)"
proof -
  have d1: "d1 = \<lparr>registry = ServiceRegistry_set svc (Remote dest) (registry d),
           remote = RemoteNode_host svc (checkpoint t) (remote d)\<rparr>"
    using migrate_Some [OF assms(1,2)] assms(5) by auto
  have h: "hosted (remote d2) svc = Some (checkpoint t)"
    using hosted_host [OF assms(3,4), of "checkpoint t"] assms(7) by (simp add: hosted_def d1)
  have "registry_room (registry d) svc" using assms(1) by (simp add: registry_room_def)
  then have "registry_room (registry d2) svc"
    unfolding assms(6) d1 by (simp add: registry_room_set)
  then show ?thesis
    using h assms(8)
    by (simp add: failover_def get_task_update_task routes.lookup_put checkpoint_def)
qed

text \<open>
  The remote node drains its inbox. Pumping terminates, hands over every waiting message once
  and in order, counts them, and leaves an empty inbox and the hosted services as they were.
\<close>

theorem pump_remote_drains:
  assumes "queue_inv (rn_inbox (remote d))" "pump_remote d = (n, texts, d')"
  shows "n = length (queue_contents (rn_inbox (remote d))) \<and>
    texts = map (\<lambda>m. if valid_utf8 (msg_body m) then msg_body m
           else ascii ''<binary>'') (queue_contents (rn_inbox (remote d))) \<and>
    rn_delivered (remote d') = rn_delivered (remote d) + n \<and>
    queue_contents (rn_inbox (remote d')) = [] \<and> registry d' = registry d \<and>
    rn_services (remote d') = rn_services (remote d)"
proof -
  have texts: "texts = fst (pump_loop (remote d))" "n = length texts"
    "d' = d\<lparr>remote := snd (pump_loop (remote d))\<rparr>"
    using assms(2) by (auto simp: pump_remote_def split: prod.splits)
  show ?thesis using pump_loop_drains [OF assms(1)] by (simp add: texts)
qed

text \<open>
  A node that hosted the service before keeps its old checkpoint: after a second migration a
  failover brings back the capabilities of the first one.
\<close>

theorem remigration_keeps_stale_checkpoint:
  assumes "services_prefix (remote d)" "hosted (remote d) svc = Some old"
    and "ServiceRegistry_resolve (registry d) svc = Some (Local tid)" "get_task k tid = Some t"
    and "migrate svc dest d k = (r, d1, k1)" "get_task k1 rep = Some u"
  shows "\<exists>d2 k2. failover svc rep d1 k1 = (Some (count_caps (cp_caps old)), d2, k2) \<and>
    get_task k2 rep = Some (u\<lparr>t_caps := cp_caps old, t_ipc_buffer := cp_ipc_buffer old, t_msg_queue := cp_msg_queue old\<rparr>)"
proof -
  have d1: "d1 = \<lparr>registry = ServiceRegistry_set svc (Remote dest) (registry d),
           remote = RemoteNode_host svc (checkpoint t) (remote d)\<rparr>"
    using migrate_Some [OF assms(3,4)] assms(5) by auto
  then have "hosted (remote d1) svc = Some old" using hosted_host_stale(1) [OF assms(1,2)] by simp
  then show ?thesis
    using assms(6) by (simp add: failover_def get_task_update_task)
qed

subsection \<open>The distribution demonstration\<close>

definition demo_cap :: "service_id \<Rightarrow> capability" where
  "demo_cap service_id = \<lparr>cap_resource = Service service_id, cap_read = True, cap_write = True,
     cap_grant = False, cap_sealed = False, cap_id = 0, cap_origin = None\<rparr>"

text \<open>
  \<open>demo\<close>: \<open>None\<close> when the migration failed; otherwise the verdict on the migration and the
  verdict on the failover.
\<close>

definition dist_demo ::
  "service_id \<Rightarrow> task_id \<Rightarrow> task_id \<Rightarrow> dist \<Rightarrow> kernel \<Rightarrow> (bool \<times> bool) option \<times> dist \<times> kernel" where
  "dist_demo service_id backing replica d k =
     (let cap = demo_cap service_id;
          d = register service_id (Local backing) d;
          (_, d, k) = route_send cap (ascii ''alpha'') d k;
          (_, d, k) = route_send cap (ascii ''beta'') d k;
          (migrated, d, k) = migrate service_id 1 d k
      in case migrated of
           None \<Rightarrow> (None, d, k)
         | Some migrated_caps \<Rightarrow>
             (let remote_caps = (case RemoteNode_caps_of (remote d) service_id of Some c \<Rightarrow> c | None \<Rightarrow> usize_MAX);
                  (_, d, k) = route_send cap (ascii ''gamma'') d k;
                  (_, d, k) = route_send cap (ascii ''delta'') d k;
                  (delivered, _, d) = pump_remote d;
                  migration_ok = (migrated_caps = remote_caps \<and> delivered = 2);
                  (fo, d, k) = failover service_id replica d k
              in case fo of
                   None \<Rightarrow> (Some (migration_ok, False), d, k)
                 | Some c \<Rightarrow>
                     (let (r, d, k) = route_send cap (ascii ''epsilon'') d k
                      in (Some (migration_ok, case r of RoutedLocal _ \<Rightarrow> True | _ \<Rightarrow> False), d, k))))"

lemma send_twice_and_pump:
  assumes "cap_resource cap = Service svc" "ServiceRegistry_resolve (registry d) svc = Some (Remote node)"
    and "rn_id (remote d) = node" "rn_inbox (remote d) = MessageQueue_new"
  shows "\<exists>d4 d5 texts d6. route_send cap p d k = (RoutedRemote node, d4, k) \<and>
    route_send cap q d4 k = (RoutedRemote node, d5, k) \<and> pump_remote d5 = (2, texts, d6) \<and>
    registry d6 = registry d \<and> rn_services (remote d6) = rn_services (remote d)"
proof -
  let ?m = "\<lambda>p. make_message (case current_task_id k of Some t \<Rightarrow> t | None \<Rightarrow> usize_MAX) Raw 1 (take 128 p)"
  let ?d4 = "transport_send node (?m p) d"
  let ?d5 = "transport_send node (?m q) ?d4"
  note q4 = enqueue_or_drop_contents [OF queue_inv_new, of "?m p"]
  note q5 = enqueue_or_drop_contents [OF q4(1), of "?m q"]
  have d4: "registry ?d4 = registry d" "rn_services (remote ?d4) = rn_services (remote d)" "rn_id (remote ?d4) = node"
    "rn_inbox (remote ?d4) = enqueue_or_drop (?m p) MessageQueue_new"
    using assms(3,4) by (simp_all add: transport_send_def)
  have d5: "registry ?d5 = registry d" "rn_services (remote ?d5) = rn_services (remote d)"
    "rn_inbox (remote ?d5) = enqueue_or_drop (?m q) (enqueue_or_drop (?m p) MessageQueue_new)"
    using d4 by (simp_all add: transport_send_def [of _ _ ?d4])
  have "ServiceRegistry_resolve (registry ?d4) svc = Some (Remote node)" using assms(2) d4(1) by simp
  note sends = route_send_remote [OF assms(1,2)] route_send_remote [OF assms(1) this]
  have len: "length (queue_contents (rn_inbox (remote ?d5))) = 2"
    unfolding d5(3) q5(2) q4(2) by (simp add: MSG_QUEUE_CAPACITY_def)
  have inv: "queue_inv (rn_inbox (remote ?d5))" unfolding d5(3) by (rule q5(1))
  let ?r = "pump_loop (remote ?d5)"
  have "pump_remote ?d5 = (2, fst ?r, ?d5\<lparr>remote := snd ?r\<rparr>)"
    using pump_loop_drains [OF inv] len by (simp add: pump_remote_def split_def)
  moreover have "rn_services (snd ?r) = rn_services (remote d)" using pump_loop_drains [OF inv] d5(2) by simp
  ultimately show ?thesis
    using d5(1) by (intro exI [of _ ?d4] exI [of _ ?d5] exI [of _ "fst ?r"] exI [of _ "?d5\<lparr>remote := snd ?r\<rparr>"] conjI)
      (simp_all add: sends)
qed

text \<open>
  The distribution demonstration passes on a freshly booted distribution layer for every two
  distinct tasks: both messages sent after the migration arrive at the node, the capabilities are
  carried across, and after the failover the same capability routes to the replica.
\<close>

theorem dist_demo_passes:
  assumes "get_task k backing = Some b" "get_task k replica = Some r" "backing \<noteq> replica"
  shows "\<exists>d' k'. dist_demo svc backing replica dist_init k = (Some (True, True), d', k') \<and>
    ServiceRegistry_resolve (registry d') svc = Some (Local replica) \<and>
    map_option t_caps (get_task k' replica) = Some (t_caps b)"
proof -
  let ?cap = "demo_cap svc"
  have cap: "cap_resource ?cap = Service svc" by (simp add: demo_cap_def)
  define d1 where "d1 = register svc (Local backing) dist_init"
  have room: "registry_room (registry dist_init) svc"
    by (simp add: registry_room_def dist_init_def ServiceRegistry_new_def MAX_SERVICES_def)
  have r1: "ServiceRegistry_resolve (registry d1) svc = Some (Local backing)"
    unfolding d1_def register_def by (simp add: routes.lookup_put [OF room])
  define k1 where "k1 = snd (snd (route_send ?cap (ascii ''alpha'') d1 k))"
  have s1: "route_send ?cap (ascii ''alpha'') d1 k = (RoutedLocal backing, d1, k1)"
    by (simp add: k1_def route_send_local [OF cap r1])
  define k2 where "k2 = snd (snd (route_send ?cap (ascii ''beta'') d1 k1))"
  have s2: "route_send ?cap (ascii ''beta'') d1 k1 = (RoutedLocal backing, d1, k2)"
    by (simp add: k2_def route_send_local [OF cap r1])
  obtain b2 where b2: "get_task k2 backing = Some b2" "t_caps b2 = t_caps b"
    using assms(1) by (simp add: k2_def k1_def route_send_local [OF cap r1] get_task_update_task)
  have rep2: "get_task k2 replica = Some r"
    using assms(2,3) by (simp add: k2_def k1_def route_send_local [OF cap r1] get_task_update_task)
  define d3 where "d3 = \<lparr>registry = ServiceRegistry_set svc (Remote 1) (registry d1),
      remote = RemoteNode_host svc (checkpoint b2) (remote d1)\<rparr>"
  have m: "migrate svc 1 d1 k2 = (Some (count_caps (t_caps b)), d3, set_slot backing None k2)"
    using migrate_Some [OF r1 b2(1), of 1] b2(2) by (simp add: d3_def)
  let ?k3 = "set_slot backing None k2"
  have rep3: "get_task ?k3 replica = Some r" using rep2 assms(3) by (simp add: get_task_set_slot)
  have rem1: "remote d1 = RemoteNode_new 1" by (simp add: d1_def register_def dist_init_def)
  have host: "hosted (remote d3) svc = Some (checkpoint b2)"
    using hosted_host [of "remote d1" svc "checkpoint b2"]
    by (simp add: d3_def rem1 hosted_def RemoteNode_new_def MAX_SERVICES_def)
  have caps: "RemoteNode_caps_of (remote d3) svc = Some (count_caps (t_caps b))"
    using host b2(2) by (simp add: RemoteNode_caps_of_def checkpoint_def)
  have room1: "registry_room (registry d1) svc" using r1 by (simp add: registry_room_def)
  have r3: "ServiceRegistry_resolve (registry d3) svc = Some (Remote 1)"
    by (simp add: d3_def routes.lookup_put [OF room1])
  have node3: "remote d3 = RemoteNode_host svc (checkpoint b2) (RemoteNode_new 1)" by (simp add: d3_def rem1)
  obtain d4 d5 texts d6 where d6: "route_send ?cap (ascii ''gamma'') d3 ?k3 = (RoutedRemote 1, d4, ?k3)"
    "route_send ?cap (ascii ''delta'') d4 ?k3 = (RoutedRemote 1, d5, ?k3)" "pump_remote d5 = (2, texts, d6)"
    "registry d6 = registry d3" "rn_services (remote d6) = rn_services (remote d3)"
    using send_twice_and_pump [OF cap r3, of "ascii ''gamma''" ?k3 "ascii ''delta''"]
    by (auto simp: node3 RemoteNode_new_def)
  have "hosted (remote d6) svc = Some (checkpoint b2)" using host d6(5) by (simp add: hosted_def)
  moreover have "registry_room (registry d6) svc" using r3 d6(4) by (simp add: registry_room_def)
  ultimately obtain d7 k7 where d7: "failover svc replica d6 ?k3 = (Some (count_caps (t_caps b)), d7, k7)"
    "ServiceRegistry_resolve (registry d7) svc = Some (Local replica)"
    "map_option t_caps (get_task k7 replica) = Some (t_caps b)"
    using rep3 b2(2) by (simp add: failover_def routes.lookup_put get_task_update_task checkpoint_def)
  show ?thesis
    unfolding dist_demo_def Let_def d1_def [symmetric] s1 s2 m prod.case option.case caps d6(1-3) d7(1)
      route_send_local [OF cap d7(2)]
    using d7(2,3) by (auto simp: get_task_update_task)
qed

subsection \<open>A concrete distribution layer\<close>

definition sample_dist :: dist where
  "sample_dist = register 1 (Local 2) dist_init"

lemma sample_dist_resolve: "ServiceRegistry_resolve (registry sample_dist) 1 = Some (Local 2)"
  using routes.lookup_put [of ServiceRegistry_new 1 "Local 2"]
  by (simp add: sample_dist_def register_def dist_init_def registry_room_def ServiceRegistry_new_def MAX_SERVICES_def)

lemma sample_dist_remote: "remote sample_dist = RemoteNode_new 1"
  by (simp add: sample_dist_def register_def dist_init_def)

lemma sample_dist_hosted: "hosted (RemoteNode_new 1) 1 = None" "None \<in> set (rn_services (RemoteNode_new 1))"
  by (simp_all add: hosted_def RemoteNode_new_def MAX_SERVICES_def)

theorem migration_is_transparent_witness:
  "\<exists>d' k'. migrate 1 1 sample_dist (sample_kernel Ready) = (Some 1, d', k') \<and>
     fst (route_send (demo_cap 1) [] d' k') = RoutedRemote 1"
proof -
  obtain r d' k' where m: "migrate 1 (rn_id (remote sample_dist)) sample_dist (sample_kernel Ready) = (r, d', k')"
    using prod_cases3 by blast
  have inv: "queue_inv (rn_inbox (remote sample_dist))" by (simp add: sample_dist_remote RemoteNode_new_def)
  have cap: "cap_resource (demo_cap 1) = Service 1" by (simp add: demo_cap_def)
  from migration_is_transparent [OF sample_dist_resolve sample_get_task(2) inv cap m, of "[]"] m
  show ?thesis by (auto simp: sample_dist_remote RemoteNode_new_def count_caps_def table_with_def)
qed

theorem failover_recovers_service_witness:
  "\<exists>d3 k3. failover 1 1 (fst (snd (migrate 1 1 sample_dist (sample_kernel Ready)))) (sample_kernel Ready) = (Some 1, d3, k3) \<and>
     ServiceRegistry_resolve (registry d3) 1 = Some (Local 1)"
proof -
  obtain r d1 k1 where m: "migrate 1 1 sample_dist (sample_kernel Ready) = (r, d1, k1)"
    using prod_cases3 by blast
  from failover_recovers_service [OF sample_dist_resolve sample_get_task(2) _ _ m refl refl sample_get_task(1) [of Ready]] m
  show ?thesis using sample_dist_hosted by (auto simp: sample_dist_remote count_caps_def table_with_def)
qed

theorem pump_remote_drains_witness:
  "\<exists>d'. pump_remote (transport_send 1 (make_message 3 Raw 1 [65]) dist_init) = (1, [[65]], d') \<and>
     rn_delivered (remote d') = 1"
proof -
  let ?d = "transport_send 1 (make_message 3 Raw 1 [65]) dist_init"
  obtain n texts d' where p: "pump_remote ?d = (n, texts, d')" using prod_cases3 by blast
  have box: "rn_inbox (remote ?d) = enqueue_or_drop (make_message 3 Raw 1 [65]) MessageQueue_new" "rn_delivered (remote ?d) = 0"
    by (simp_all add: transport_send_def dist_init_def RemoteNode_new_def)
  note q = enqueue_or_drop_contents [OF queue_inv_new, of "make_message 3 Raw 1 [65]"]
  have inv: "queue_inv (rn_inbox (remote ?d))" unfolding box(1) by (rule q(1))
  show ?thesis
    using pump_remote_drains [OF inv p] p q(2) box by (simp add: MSG_QUEUE_CAPACITY_def)
qed

theorem dist_demo_passes_witness:
  "\<exists>d' k'. dist_demo 1 1 2 dist_init (sample_kernel Ready) = (Some (True, True), d', k')"
  using dist_demo_passes [OF sample_get_task(1) [of Ready] sample_get_task(2), of 1] by auto

end
