(* ===== verification/Arch_Sim.thy ===== *)
theory Arch_Sim
  imports Globals "HOL-Library.Multiset"
begin

text \<open>
  The architecture simulator, \<open>arch_sim/mod.rs\<close>, and the shell's conversion of the trace ring into its
  inputs: a set-associative cache with least-recently-used replacement, and an in-order pipeline
  that stalls on read-after-write hazards. The statistics count iterations of loops over a slice,
  so they are natural numbers.
\<close>

subsection \<open>Cache\<close>

record cache_config =
  assoc :: nat
  num_lines :: nat
  line_bytes :: nat

record cache_stats =
  accesses :: nat
  hits :: nat
  misses :: nat
  evictions :: nat

record sim_cache_line =
  cl_valid :: bool
  cl_tag :: nat
  cl_lru :: nat

definition CacheStats_zero :: cache_stats where
  "CacheStats_zero = \<lparr>accesses = 0, hits = 0, misses = 0, evictions = 0\<rparr>"

text \<open>The first loop over the set: the line that holds the tag.\<close>

definition find_line :: "nat \<Rightarrow> sim_cache_line list \<Rightarrow> nat list \<Rightarrow> nat \<Rightarrow> nat option" where
  "find_line nl cache idxs tag =
     find (\<lambda>idx. idx < nl \<and> cl_valid (cache ! idx) \<and> cl_tag (cache ! idx) = tag) idxs"

text \<open>The second loop: the first empty line, and the line used least recently so far.\<close>

fun find_victim :: "nat \<Rightarrow> sim_cache_line list \<Rightarrow> nat list \<Rightarrow> nat \<Rightarrow> nat \<Rightarrow> nat option \<times> nat" where
  "find_victim nl cache [] lru_idx min_lru = (None, lru_idx)"
| "find_victim nl cache (idx # idxs) lru_idx min_lru =
     (if \<not> idx < nl then find_victim nl cache idxs lru_idx min_lru
      else if \<not> cl_valid (cache ! idx) then (Some idx, lru_idx)
      else if cl_lru (cache ! idx) < min_lru then find_victim nl cache idxs idx (cl_lru (cache ! idx))
      else find_victim nl cache idxs lru_idx min_lru)"

definition cache_miss ::
  "nat \<Rightarrow> nat \<Rightarrow> nat list \<Rightarrow> nat \<Rightarrow> nat \<Rightarrow> cache_stats \<times> sim_cache_line list \<Rightarrow> cache_stats \<times> sim_cache_line list" where
  "cache_miss nl set_start idxs tag lru_counter st =
     (case st of (stats, cache) \<Rightarrow>
       let stats = stats\<lparr>misses := misses stats + 1\<rparr> in
       (case find_victim nl cache idxs set_start usize_MAX of
          (Some idx, _) \<Rightarrow>
            (stats, if idx < nl then cache[idx := \<lparr>cl_valid = True, cl_tag = tag, cl_lru = lru_counter\<rparr>] else cache)
        | (None, lru_idx) \<Rightarrow>
            if lru_idx < nl
            then (stats\<lparr>evictions := evictions stats + 1\<rparr>,
                  cache[lru_idx := (cache ! lru_idx)\<lparr>cl_tag := tag, cl_lru := lru_counter\<rparr>])
            else (stats, cache)))"

definition cache_access ::
  "cache_config \<Rightarrow> nat \<Rightarrow> nat \<Rightarrow> u64 \<Rightarrow> cache_stats \<times> sim_cache_line list \<times> nat \<Rightarrow> (cache_stats \<times> sim_cache_line list \<times> nat) run" where
  "cache_access cfg num_sets nl addr st =
     (case st of (stats, cache, lru_counter) \<Rightarrow>
       if line_bytes cfg = 0 then Panic
       else
         let stats = stats\<lparr>accesses := accesses stats + 1\<rparr>;
             lru_counter = lru_counter + 1;
             line_addr = unat addr div line_bytes cfg;
             set_idx = line_addr mod num_sets;
             tag = line_addr div num_sets;
             set_start = set_idx * assoc cfg;
             idxs = [set_start..<set_start + assoc cfg]
         in case find_line nl cache idxs tag of
              Some idx \<Rightarrow>
                Ret (stats\<lparr>hits := hits stats + 1\<rparr>, cache[idx := (cache ! idx)\<lparr>cl_lru := lru_counter\<rparr>], lru_counter)
            | None \<Rightarrow>
                (case cache_miss nl set_start idxs tag lru_counter (stats, cache) of
                   (stats, cache) \<Rightarrow> Ret (stats, cache, lru_counter)))"

fun cache_loop ::
  "cache_config \<Rightarrow> nat \<Rightarrow> nat \<Rightarrow> u64 list \<Rightarrow> cache_stats \<times> sim_cache_line list \<times> nat \<Rightarrow> cache_stats run" where
  "cache_loop cfg num_sets nl [] st = Ret (fst st)"
| "cache_loop cfg num_sets nl (addr # addrs) st =
     run_bind (cache_access cfg num_sets nl addr st) (cache_loop cfg num_sets nl addrs)"

definition simulate_cache :: "cache_config \<Rightarrow> u64 list \<Rightarrow> cache_stats run" where
  "simulate_cache cfg addrs =
     (if assoc cfg = 0 \<or> num_lines cfg = 0 \<or> assoc cfg > num_lines cfg then Ret CacheStats_zero
      else let num_sets = num_lines cfg div assoc cfg in
        if num_sets = 0 then Ret CacheStats_zero
        else cache_loop cfg num_sets (min (num_lines cfg) 1024) addrs
               (CacheStats_zero, replicate 1024 \<lparr>cl_valid = False, cl_tag = 0, cl_lru = 0\<rparr>, 0))"

subsection \<open>Pipeline\<close>

datatype instr_kind = Alu | Load | Store | Branch

record sim_instr =
  si_kind :: instr_kind
  si_rd :: u8
  si_rs1 :: u8
  si_rs2 :: u8

record pipe_stats =
  instrs :: nat
  cycles :: nat
  stalls :: nat

record pipe_state =
  pc :: nat
  if_stage :: "sim_instr option"
  id_stage :: "sim_instr option"
  ex_stage :: "sim_instr option"
  mem_stage :: "sim_instr option"

definition raw_hazard :: "sim_instr option \<Rightarrow> sim_instr \<Rightarrow> bool" where
  "raw_hazard older i =
     (case older of
        Some x \<Rightarrow> si_rd x \<noteq> 0 \<and> (si_rd x = si_rs1 i \<or> si_rd x = si_rs2 i)
      | None \<Rightarrow> False)"

definition pipe_busy :: "sim_instr list \<Rightarrow> pipe_state \<Rightarrow> bool" where
  "pipe_busy prog p \<longleftrightarrow> pc p < length prog \<or> if_stage p \<noteq> None \<or> id_stage p \<noteq> None \<or>
     ex_stage p \<noteq> None \<or> mem_stage p \<noteq> None"

text \<open>The end of the loop body when there is no stall.\<close>

definition pipe_fetch :: "sim_instr list \<Rightarrow> pipe_state \<Rightarrow> pipe_state" where
  "pipe_fetch prog p =
     (let p = p\<lparr>id_stage := if_stage p, if_stage := None\<rparr>
      in if pc p < length prog then p\<lparr>if_stage := Some (prog ! pc p), pc := pc p + 1\<rparr> else p)"

definition pipe_cycle :: "sim_instr list \<Rightarrow> pipe_state \<times> pipe_stats \<Rightarrow> pipe_state \<times> pipe_stats" where
  "pipe_cycle prog st =
     (case st of (p, s) \<Rightarrow>
       let s = s\<lparr>cycles := cycles s + 1\<rparr>;
           s = (if mem_stage p \<noteq> None then s\<lparr>instrs := instrs s + 1\<rparr> else s);
           p = p\<lparr>mem_stage := ex_stage p, ex_stage := None\<rparr>
       in case id_stage p of
            Some i \<Rightarrow>
              if raw_hazard (ex_stage p) i \<or> raw_hazard (mem_stage p) i
              then (p, s\<lparr>stalls := stalls s + 1\<rparr>)
              else (pipe_fetch prog (p\<lparr>ex_stage := Some i, id_stage := None\<rparr>), s)
          | None \<Rightarrow> (pipe_fetch prog p, s))"

text \<open>Every cycle moves some instruction one stage on, so the loop ends.\<close>

definition pipe_weight :: "sim_instr list \<Rightarrow> pipe_state \<Rightarrow> nat" where
  "pipe_weight prog p =
     5 * (length prog - pc p) + (if if_stage p = None then 0 else 4) + (if id_stage p = None then 0 else 3) +
     (if ex_stage p = None then 0 else 2) + (if mem_stage p = None then 0 else 1)"

lemma pipe_cycle_weight:
  assumes "pipe_busy prog p"
  shows "pipe_weight prog (fst (pipe_cycle prog (p, s))) < pipe_weight prog p"
  using assms
  by (cases "id_stage p"; cases "ex_stage p"; cases "if_stage p"; cases "mem_stage p")
     (auto simp: pipe_cycle_def pipe_fetch_def pipe_weight_def pipe_busy_def raw_hazard_def Let_def)

function pipe_loop :: "sim_instr list \<Rightarrow> pipe_state \<times> pipe_stats \<Rightarrow> pipe_stats" where
  "pipe_loop prog st = (if pipe_busy prog (fst st) then pipe_loop prog (pipe_cycle prog st) else snd st)"
  by auto

termination
proof (relation "measure (\<lambda>(prog, st). pipe_weight prog (fst st))", goal_cases)
  case (2 prog st)
  then show ?case using pipe_cycle_weight [of prog "fst st" "snd st"] by simp
qed simp

declare pipe_loop.simps [simp del]

definition pipe_empty :: pipe_state where
  "pipe_empty = \<lparr>pc = 0, if_stage = None, id_stage = None, ex_stage = None, mem_stage = None\<rparr>"

definition simulate_pipeline :: "sim_instr list \<Rightarrow> pipe_stats" where
  "simulate_pipeline prog =
     (let stats = \<lparr>instrs = 0, cycles = 0, stalls = 0\<rparr>
      in if prog = [] then stats else pipe_loop prog (pipe_empty, stats))"

subsection \<open>Traces as input\<close>

definition hash_event_to_addr :: "trace_event \<Rightarrow> u64" where
  "hash_event_to_addr ev =
     (let h = fold (\<lambda>b h. h + ucast b) (ascii (te_msg ev)) 0;
          h = h + te_param1 ev + te_param2 ev
      in (h mod 12) * 64)"

definition event_to_instr :: "trace_event \<Rightarrow> sim_instr" where
  "event_to_instr ev =
     (let h = fold (\<lambda>b h. (h XOR ucast b) * 0x100000001b3) (ascii (te_msg ev)) (0xcbf29ce484222325 :: u64);
          h = (h XOR te_param1 ev) * 0x100000001b3;
          h = (h XOR te_param2 ev) * 0x100000001b3;
          kind = (if te_msg ev \<in> {''sched_switch_yield'', ''sched_switch_preempt'', ''sched_switch_term''} then Branch
                  else if te_msg ev \<in> {''ipc_send'', ''ipc_send_async''} then Store
                  else if te_msg ev \<in> {''ipc_receive'', ''ipc_receive_async''} then Load
                  else Alu)
      in \<lparr>si_kind = kind, si_rd = ucast ((h AND 7) + 1), si_rs1 = ucast ((drop_bit 3 h AND 7) + 1),
          si_rs2 = ucast ((drop_bit 6 h AND 7) + 1)\<rparr>)"

text \<open>\<open>str::starts_with\<close> and \<open>str::contains\<close>.\<close>

definition starts_with :: "string \<Rightarrow> string \<Rightarrow> bool" where
  "starts_with s p \<longleftrightarrow> take (length p) s = p"

fun contains :: "string \<Rightarrow> string \<Rightarrow> bool" where
  "contains [] p \<longleftrightarrow> p = []"
| "contains (c # s) p \<longleftrightarrow> starts_with (c # s) p \<or> contains s p"

definition trace_matches :: "string \<Rightarrow> trace_event \<Rightarrow> bool" where
  "trace_matches name ev =
     (if name = ''all'' then True
      else if name = ''boot'' then starts_with (te_msg ev) ''cap'' \<or> starts_with (te_msg ev) ''sched''
      else contains (te_msg ev) name)"

text \<open>\<open>core::str::from_utf8(trace_name).unwrap_or("")\<close>.\<close>

definition trace_str :: "bytes \<Rightarrow> string" where
  "trace_str name = (if valid_utf8 name then map (\<lambda>b. char_of (unat b)) name else [])"

text \<open>The loop over the ring, shared by both conversions: at most 128 matching events.\<close>

definition matched_events :: "bytes \<Rightarrow> trace_state \<Rightarrow> trace_event list" where
  "matched_events name ts = take 128 (filter (trace_matches (trace_str name)) (trace_window ts))"

text \<open>The pattern for a name that matches nothing; the addition of the seed is checked.\<close>

definition sim_step_lines :: "u64 list" where
  "sim_step_lines = [0, 4, 0, 4, 1, 5, 1, 5, 2, 6, 2, 6, 3, 7, 3, 7]"

definition sim_seed :: "bytes \<Rightarrow> u64" where
  "sim_seed name = fold (\<lambda>b seed. (seed + ucast b) * 31) name 0"

definition synthetic_addr :: "u64 \<Rightarrow> nat \<Rightarrow> u64 run" where
  "synthetic_addr seed i =
     (let line = sim_step_lines ! (i mod 16)
      in if unat line + unat seed \<ge> 2 ^ 64 then Panic else Ret (((line + seed) mod 12) * 64))"

fun run_map :: "('a \<Rightarrow> 'b run) \<Rightarrow> 'a list \<Rightarrow> 'b list run" where
  "run_map f [] = Ret []"
| "run_map f (x # xs) = run_bind (f x) (\<lambda>y. run_bind (run_map f xs) (\<lambda>ys. Ret (y # ys)))"

definition get_sim_addresses :: "bytes \<Rightarrow> trace_state \<Rightarrow> u64 list run" where
  "get_sim_addresses name ts =
     (let evs = matched_events name ts in
      if evs = [] then run_map (synthetic_addr (sim_seed name)) [0..<128]
      else Ret (map (\<lambda>i. hash_event_to_addr (evs ! (i mod length evs))) [0..<128]))"

definition synthetic_instr :: "nat \<Rightarrow> sim_instr" where
  "synthetic_instr i =
     (if i mod 3 = 0 then \<lparr>si_kind = Load, si_rd = 1, si_rs1 = 0, si_rs2 = 0\<rparr>
      else if i mod 3 = 1 then \<lparr>si_kind = Alu, si_rd = 2, si_rs1 = 1, si_rs2 = 0\<rparr>
      else \<lparr>si_kind = Store, si_rd = 0, si_rs1 = 2, si_rs2 = 0\<rparr>)"

definition get_sim_instrs :: "bytes \<Rightarrow> trace_state \<Rightarrow> sim_instr list" where
  "get_sim_instrs name ts =
     (let evs = matched_events name ts in
      if evs = [] then map synthetic_instr [0..<128]
      else map (\<lambda>i. event_to_instr (evs ! (i mod length evs))) [0..<128])"

subsection \<open>The pipeline counts hazards\<close>

text \<open>The number of instructions that read the register their predecessor writes.\<close>

fun raw_pairs :: "sim_instr list \<Rightarrow> nat" where
  "raw_pairs (x # y # zs) = of_bool (raw_hazard (Some x) y) + raw_pairs (y # zs)"
| "raw_pairs _ = 0"

definition upcoming :: "sim_instr list \<Rightarrow> nat \<Rightarrow> sim_instr option \<Rightarrow> sim_instr list" where
  "upcoming prog n fetched = (case fetched of None \<Rightarrow> [] | Some x \<Rightarrow> x # drop n prog)"

lemma raw_hazard_None [simp]: "\<not> raw_hazard None i"
  by (simp add: raw_hazard_def)

lemma pipe_loop_idle: "\<not> pipe_busy prog p \<Longrightarrow> pipe_loop prog (p, s) = s"
  by (simp add: pipe_loop.simps)

lemma pipe_loop_step: "pipe_busy prog p \<Longrightarrow> pipe_loop prog (p, s) = pipe_loop prog (pipe_cycle prog (p, s))"
  by (subst pipe_loop.simps) simp

lemma pipe_drain:
  assumes "length prog \<le> n"
  shows "pipe_loop prog (\<lparr>pc = n, if_stage = None, id_stage = None, ex_stage = Some a, mem_stage = m\<rparr>, s) =
    \<lparr>instrs = instrs s + of_bool (m \<noteq> None) + 1, cycles = cycles s + 2, stalls = stalls s\<rparr>"
  using assms by (simp add: pipe_loop_step pipe_loop_idle pipe_busy_def pipe_cycle_def pipe_fetch_def)

lemma pipe_loop_counts:
  assumes "upcoming prog n f = rest" "f = None \<Longrightarrow> length prog \<le> n"
  shows "pipe_loop prog (\<lparr>pc = n, if_stage = f, id_stage = Some a, ex_stage = e, mem_stage = m\<rparr>, s) =
    (let st = of_bool (raw_hazard e a) + raw_pairs (a # rest) in
     \<lparr>instrs = instrs s + of_bool (m \<noteq> None) + of_bool (e \<noteq> None) + 1 + length rest,
      cycles = cycles s + 3 + length rest + st, stalls = stalls s + st\<rparr>)"
  using assms
proof (induction rest arbitrary: n f a e m s)
  case Nil
  then have f: "f = None" "length prog \<le> n" by (auto simp: upcoming_def split: option.splits)
  have go: "pipe_loop prog (\<lparr>pc = n, if_stage = f, id_stage = Some a, ex_stage = e, mem_stage = m\<rparr>, s) =
    \<lparr>instrs = instrs s + of_bool (m \<noteq> None) + of_bool (e \<noteq> None) + 1, cycles = cycles s + 3, stalls = stalls s\<rparr>"
    if "\<not> raw_hazard e a" for e m s
    using that f by (subst pipe_loop_step) (simp_all add: pipe_busy_def pipe_cycle_def pipe_fetch_def pipe_drain)
  show ?case
  proof (cases "raw_hazard e a")
    case True
    then have "e \<noteq> None" by (cases e) auto
    then show ?thesis
      using True f by (subst pipe_loop_step) (simp_all add: pipe_busy_def pipe_cycle_def pipe_fetch_def go [unfolded f(1)] Let_def)
  next
    case False
    then show ?thesis by (simp add: go Let_def)
  qed
next
  case (Cons b rest)
  then have f: "f = Some b" "rest = drop n prog" by (auto simp: upcoming_def split: option.splits)
  let ?f = "if n < length prog then Some (prog ! n) else None"
  let ?n = "if n < length prog then n + 1 else n"
  have up: "upcoming prog ?n ?f = rest" "?f = None \<Longrightarrow> length prog \<le> ?n"
    using f(2) by (auto simp: upcoming_def Cons_nth_drop_Suc split: if_splits)
  have go: "pipe_loop prog (\<lparr>pc = n, if_stage = f, id_stage = Some a, ex_stage = e, mem_stage = m\<rparr>, s) =
      \<lparr>instrs = instrs s + of_bool (m \<noteq> None) + of_bool (e \<noteq> None) + 1 + length (b # rest),
       cycles = cycles s + 3 + length (b # rest) + raw_pairs (a # b # rest),
       stalls = stalls s + raw_pairs (a # b # rest)\<rparr>"
    if h: "\<not> raw_hazard e a" for e m s
  proof -
    let ?s = "s\<lparr>cycles := cycles s + 1, instrs := instrs s + of_bool (m \<noteq> None)\<rparr>"
    have "pipe_cycle prog (\<lparr>pc = n, if_stage = f, id_stage = Some a, ex_stage = e, mem_stage = m\<rparr>, s) =
        (\<lparr>pc = ?n, if_stage = ?f, id_stage = Some b, ex_stage = Some a, mem_stage = e\<rparr>, ?s)"
      using h f(1) by (simp add: pipe_cycle_def pipe_fetch_def)
    then show ?thesis
      using Cons.IH [OF up, of b "Some a" e ?s] f(1) by (simp add: pipe_loop_step pipe_busy_def Let_def)
  qed
  show ?case
  proof (cases "raw_hazard e a")
    case True
    then have "e \<noteq> None" by (cases e) auto
    then show ?thesis
      using True f by (subst pipe_loop_step) (simp_all add: pipe_busy_def pipe_cycle_def go [unfolded f(1)] Let_def)
  next
    case False
    then show ?thesis by (simp add: go Let_def)
  qed
qed

text \<open>
  The pipeline simulator retires every instruction, needs four cycles more than instructions and
  stalls, and stalls exactly once for every instruction that reads the register its predecessor
  writes.
\<close>

theorem pipeline_stalls_once_per_hazard:
  assumes "prog \<noteq> []"
  shows "simulate_pipeline prog =
    \<lparr>instrs = length prog, cycles = length prog + 4 + raw_pairs prog, stalls = raw_pairs prog\<rparr>"
proof -
  obtain a rest where p: "prog = a # rest" using assms by (cases prog) auto
  let ?f = "if rest = [] then None else Some (hd rest)" and ?n = "if rest = [] then 1 else 2"
  have up: "upcoming prog ?n ?f = rest" "?f = None \<Longrightarrow> length prog \<le> ?n"
    using p by (cases rest; simp add: upcoming_def)+
  let ?z = "\<lparr>instrs = 0, cycles = 0, stalls = 0\<rparr>" and ?p1 = "pipe_empty\<lparr>if_stage := Some a, pc := 1\<rparr>"
  have c1: "pipe_cycle prog (pipe_empty, ?z) = (?p1, ?z\<lparr>cycles := 1\<rparr>)"
    using p by (simp add: pipe_cycle_def pipe_fetch_def pipe_empty_def)
  have c2: "pipe_cycle prog (?p1, ?z\<lparr>cycles := 1\<rparr>) =
      (\<lparr>pc = ?n, if_stage = ?f, id_stage = Some a, ex_stage = None, mem_stage = None\<rparr>, ?z\<lparr>cycles := 2\<rparr>)"
    using p by (cases rest) (simp_all add: pipe_cycle_def pipe_fetch_def pipe_empty_def)
  have b: "pipe_busy prog pipe_empty" "pipe_busy prog ?p1" using p by (simp_all add: pipe_busy_def pipe_empty_def)
  have "simulate_pipeline prog =
      pipe_loop prog (\<lparr>pc = ?n, if_stage = ?f, id_stage = Some a, ex_stage = None, mem_stage = None\<rparr>, ?z\<lparr>cycles := 2\<rparr>)"
    unfolding simulate_pipeline_def Let_def pipe_loop_step [OF b(1)] c1 pipe_loop_step [OF b(2)] c2 using assms by simp
  also have "\<dots> = \<lparr>instrs = length prog, cycles = length prog + 4 + raw_pairs prog, stalls = raw_pairs prog\<rparr>"
    using pipe_loop_counts [OF up, of a None None "?z\<lparr>cycles := 2\<rparr>"] p by (simp add: Let_def)
  finally show ?thesis .
qed

theorem pipeline_stalls_once_per_hazard_witness:
  "simulate_pipeline (map synthetic_instr [0..<4]) = \<lparr>instrs = 4, cycles = 10, stalls = 2\<rparr>"
  using pipeline_stalls_once_per_hazard [of "map synthetic_instr [0..<4]"] by (simp add: upt_rec synthetic_instr_def raw_hazard_def)

subsection \<open>The cache is least recently used\<close>

text \<open>
  The specification: a set is the list of the tags it holds, the most recently used first, cut off
  at the associativity.
\<close>

datatype cache_outcome = Hit | Fill | Evict

fun lru_run :: "nat \<Rightarrow> (nat \<times> nat) list \<Rightarrow> (nat \<Rightarrow> nat list) \<Rightarrow> cache_outcome list" where
  "lru_run ways [] sets = []"
| "lru_run ways ((i, t) # refs) sets =
     (if t \<in> set (sets i) then Hit else if length (sets i) < ways then Fill else Evict) #
     lru_run ways refs (sets(i := take ways (t # removeAll t (sets i))))"

definition cache_ref :: "nat \<Rightarrow> nat \<Rightarrow> u64 \<Rightarrow> nat \<times> nat" where
  "cache_ref bytes num_sets addr =
     (unat addr div bytes mod num_sets, unat addr div bytes div num_sets)"

text \<open>The lines of one set represent such a list when their time stamps order the tags.\<close>

definition lru_set :: "nat \<Rightarrow> nat \<Rightarrow> nat list \<Rightarrow> sim_cache_line list \<Rightarrow> bool" where
  "lru_set ways now l lines \<longleftrightarrow> length lines = ways \<and> distinct l \<and>
     (\<exists>ms. mset ms = mset (filter cl_valid lines) \<and> sorted_wrt (\<lambda>x y. cl_lru y < cl_lru x) ms \<and>
       l = map cl_tag ms \<and> (\<forall>x\<in>set ms. cl_lru x \<le> now))"

lemma mset_filter_update:
  "j < length xs \<Longrightarrow> mset (filter P (xs[j := x])) =
     (if P (xs ! j) then mset (filter P xs) - {#xs ! j#} else mset (filter P xs)) + (if P x then {#x#} else {#})"
  by (auto simp: mset_update mset_filter filter_diff_mset)

lemma lru_set_tags: "lru_set ways now l lines \<Longrightarrow> set l = {cl_tag x |x. x \<in> set lines \<and> cl_valid x} \<and> length l \<le> ways"
proof -
  assume "lru_set ways now l lines"
  then obtain ms where m: "mset ms = mset (filter cl_valid lines)" "l = map cl_tag ms" "length lines = ways"
    by (auto simp: lru_set_def)
  have "set ms = set (filter cl_valid lines)" using m(1) by (rule mset_eq_setD)
  moreover have "length ms = length (filter cl_valid lines)" using m(1) by (rule mset_eq_length)
  moreover have "length (filter cl_valid lines) \<le> ways" using m(3) length_filter_le [of cl_valid lines] by simp
  ultimately show ?thesis using m(2) by auto
qed

lemma lru_set_later: "lru_set ways now l lines \<Longrightarrow> now \<le> now' \<Longrightarrow> lru_set ways now' l lines"
  unfolding lru_set_def by (elim conjE exE, intro conjI exI) (auto intro: order_trans)

lemma lru_set_hit:
  assumes "lru_set ways now l lines" "j < ways" "cl_valid (lines ! j)" "cl_tag (lines ! j) = t"
  shows "lru_set ways (now + 1) (take ways (t # removeAll t l)) (lines[j := (lines ! j)\<lparr>cl_lru := now + 1\<rparr>])"
proof -
  obtain ms where m: "mset ms = mset (filter cl_valid lines)" "sorted_wrt (\<lambda>x y. cl_lru y < cl_lru x) ms"
    "l = map cl_tag ms" "\<forall>x\<in>set ms. cl_lru x \<le> now" and len: "length lines = ways" and dl: "distinct l"
    using assms(1) by (auto simp: lru_set_def)
  let ?x = "lines ! j" and ?y = "(lines ! j)\<lparr>cl_lru := now + 1\<rparr>"
  have sx: "set ms = set (filter cl_valid lines)" using m(1) by (rule mset_eq_setD)
  have x: "?x \<in> set ms" using assms(2,3) len sx by simp
  have dm: "distinct ms" using dl m(3) by (simp add: distinct_map)
  have inj: "inj_on cl_tag (set ms)" using dl m(3) by (simp add: distinct_map)
  let ?ms = "?y # filter (\<lambda>z. z \<noteq> ?x) ms"
  have fm: "filter (\<lambda>z. z \<noteq> ?x) ms = remove1 ?x ms"
    using dm by (simp add: distinct_remove1_removeAll removeAll_filter_not_eq) (metis (mono_tags, lifting) filter_cong)
  have "map cl_tag (filter (\<lambda>z. z \<noteq> ?x) ms) = filter (\<lambda>u. u \<noteq> t) (map cl_tag ms)"
    unfolding filter_map using inj x assms(4) by (intro arg_cong [where f = "map cl_tag"] filter_cong) (auto simp: inj_on_def)
  then have l': "take ways (t # removeAll t l) = map cl_tag ?ms"
  proof -
    assume e: "map cl_tag (filter (\<lambda>z. z \<noteq> ?x) ms) = filter (\<lambda>u. u \<noteq> t) (map cl_tag ms)"
    have "removeAll t l = map cl_tag (filter (\<lambda>z. z \<noteq> ?x) ms)"
      unfolding e m(3) removeAll_filter_not_eq by (rule filter_cong) auto
    moreover have "length (t # removeAll t l) \<le> ways"
    proof -
      have "t \<in> set l" using x m(3) assms(4) by auto
      then have "length (removeAll t l) < length l" using length_removeAll_less by fastforce
      then show ?thesis using lru_set_tags [OF assms(1)] by simp
    qed
    ultimately show ?thesis using assms(4) by simp
  qed
  have "mset ?ms = mset (filter cl_valid (lines[j := ?y]))"
    using assms(2,3) len m(1) mset_filter_update [of j lines cl_valid ?y] by (simp add: fm)
  moreover have "sorted_wrt (\<lambda>x y. cl_lru y < cl_lru x) ?ms" using m(2,4) by (auto intro: sorted_wrt_filter)
  moreover have "distinct (map cl_tag ?ms)"
    unfolding l' [symmetric] using dl by (intro distinct_take) (simp add: distinct_removeAll)
  moreover have "\<forall>z\<in>set ?ms. cl_lru z \<le> now + 1" using m(4) by auto
  ultimately show ?thesis unfolding lru_set_def l' using len by (metis length_list_update)
qed

lemma lru_set_fill:
  assumes "lru_set ways now l lines" "j < ways" "\<not> cl_valid (lines ! j)" "t \<notin> set l"
  shows "lru_set ways (now + 1) (take ways (t # removeAll t l)) (lines[j := \<lparr>cl_valid = True, cl_tag = t, cl_lru = now + 1\<rparr>])"
    "length l < ways"
proof -
  obtain ms where m: "mset ms = mset (filter cl_valid lines)" "sorted_wrt (\<lambda>x y. cl_lru y < cl_lru x) ms"
    "l = map cl_tag ms" "\<forall>x\<in>set ms. cl_lru x \<le> now" and len: "length lines = ways" and dl: "distinct l"
    using assms(1) by (auto simp: lru_set_def)
  let ?y = "\<lparr>cl_valid = True, cl_tag = t, cl_lru = now + 1\<rparr>"
  have "lines ! j \<in> set lines" using assms(2) len by simp
  then have "length (filter cl_valid lines) < length lines" using assms(3) by (rule length_filter_less)
  then show less: "length l < ways" using m(1,3) len mset_eq_length [OF m(1)] by simp
  then have l': "take ways (t # removeAll t l) = map cl_tag (?y # ms)"
    using assms(4) m(3) by (simp add: removeAll_id)
  have "mset (?y # ms) = mset (filter cl_valid (lines[j := ?y]))"
    using assms(2,3) len m(1) mset_filter_update [of j lines cl_valid ?y] by simp
  moreover have "sorted_wrt (\<lambda>x y. cl_lru y < cl_lru x) (?y # ms)" using m(2,4) by auto
  moreover have "distinct (map cl_tag (?y # ms))" using dl assms(4) m(3) by simp
  moreover have "\<forall>z\<in>set (?y # ms). cl_lru z \<le> now + 1" using m(4) by auto
  ultimately show "lru_set ways (now + 1) (take ways (t # removeAll t l)) (lines[j := ?y])"
    unfolding lru_set_def l' using len by (metis length_list_update)
qed

lemma lru_set_evict:
  assumes "lru_set ways now l lines" "j < ways" "\<forall>x\<in>set lines. cl_valid x" "t \<notin> set l"
    "\<forall>x\<in>set lines. cl_lru (lines ! j) \<le> cl_lru x"
  shows "lru_set ways (now + 1) (take ways (t # removeAll t l)) (lines[j := (lines ! j)\<lparr>cl_tag := t, cl_lru := now + 1\<rparr>])"
    "length l = ways"
proof -
  obtain ms where m: "mset ms = mset (filter cl_valid lines)" "sorted_wrt (\<lambda>x y. cl_lru y < cl_lru x) ms"
    "l = map cl_tag ms" "\<forall>x\<in>set ms. cl_lru x \<le> now" and len: "length lines = ways" and dl: "distinct l"
    using assms(1) by (auto simp: lru_set_def)
  let ?x = "lines ! j" and ?y = "(lines ! j)\<lparr>cl_tag := t, cl_lru := now + 1\<rparr>"
  have all: "filter cl_valid lines = lines" using assms(3) by (simp add: filter_id_conv)
  show ll: "length l = ways" using mset_eq_length [OF m(1)] m(3) len by (simp add: all)
  have sx: "set ms = set lines" using m(1) unfolding all by (rule mset_eq_setD)
  have ne: "ms \<noteq> []" using ll assms(2) m(3) by auto
  then obtain bs z where bz: "ms = bs @ [z]" by (metis append_butlast_last_id)
  have "?x \<in> set ms" using assms(2) len sx by simp
  moreover have "?x \<notin> set bs"
  proof
    assume "?x \<in> set bs"
    then have "cl_lru z < cl_lru ?x" using m(2) bz by (simp add: sorted_wrt_append)
    moreover have "cl_lru ?x \<le> cl_lru z" using assms(5) sx bz by auto
    ultimately show False by simp
  qed
  ultimately have z: "z = ?x" using bz by auto
  have l': "take ways (t # removeAll t l) = map cl_tag (?y # bs)"
    using assms(2,4) m(3) bz ll by (cases ways) (simp_all add: removeAll_id)
  have "mset lines = add_mset ?x (mset bs)" using m(1) bz z by (simp add: all)
  then have mb: "mset bs = mset lines - {#?x#}" by simp
  have vy: "cl_valid ?y" using assms(2,3) len by simp
  have "mset (?y # bs) = mset (filter cl_valid (lines[j := ?y]))"
    using assms(2,3) len mb vy mset_filter_update [of j lines cl_valid ?y] by (simp add: all)
  moreover have "sorted_wrt (\<lambda>x y. cl_lru y < cl_lru x) (?y # bs)" using m(2,4) bz by (auto simp: sorted_wrt_append)
  moreover have "distinct (map cl_tag (?y # bs))" using dl assms(4) m(3) bz by simp
  moreover have "\<forall>z\<in>set (?y # bs). cl_lru z \<le> now + 1" using m(4) bz by auto
  ultimately show "lru_set ways (now + 1) (take ways (t # removeAll t l)) (lines[j := ?y])"
    unfolding lru_set_def l' using len by (metis length_list_update)
qed

lemma find_victim_spec:
  assumes "\<forall>i\<in>set idxs. i < nl" "find_victim nl cache idxs li mn = (r, v)"
  shows "(case r of
      Some i \<Rightarrow> i \<in> set idxs \<and> \<not> cl_valid (cache ! i)
    | None \<Rightarrow> (\<forall>i\<in>set idxs. cl_valid (cache ! i)) \<and>
        (v \<in> set idxs \<and> cl_lru (cache ! v) < mn \<and> (\<forall>i\<in>set idxs. cl_lru (cache ! v) \<le> cl_lru (cache ! i)) \<or>
         v = li \<and> (\<forall>i\<in>set idxs. mn \<le> cl_lru (cache ! i))))"
  using assms
proof (induction idxs arbitrary: li mn)
  case Nil
  then show ?case by auto
next
  case (Cons i idxs)
  have i: "i < nl" "\<forall>i\<in>set idxs. i < nl" using Cons.prems(1) by auto
  consider (empty) "\<not> cl_valid (cache ! i)" | (less) "cl_valid (cache ! i)" "cl_lru (cache ! i) < mn"
    | (other) "cl_valid (cache ! i)" "\<not> cl_lru (cache ! i) < mn" by blast
  then show ?case
  proof cases
    case empty
    then show ?thesis using Cons.prems(2) i by auto
  next
    case less
    then have "find_victim nl cache idxs i (cl_lru (cache ! i)) = (r, v)" using Cons.prems(2) i by simp
    note h = Cons.IH [OF i(2) this]
    show ?thesis using h less by (cases r) auto
  next
    case other
    then have "find_victim nl cache idxs li mn = (r, v)" using Cons.prems(2) i by simp
    note h = Cons.IH [OF i(2) this]
    show ?thesis using h other by (cases r) auto
  qed
qed

definition count_outcome :: "cache_outcome \<Rightarrow> cache_stats \<Rightarrow> cache_stats" where
  "count_outcome r s =
     \<lparr>accesses = accesses s + 1, hits = hits s + of_bool (r = Hit), misses = misses s + of_bool (r \<noteq> Hit),
      evictions = evictions s + of_bool (r = Evict)\<rparr>"

definition set_lines :: "nat \<Rightarrow> nat \<Rightarrow> sim_cache_line list \<Rightarrow> sim_cache_line list" where
  "set_lines ways i cache = slice (i * ways) (i * ways + ways) cache"

definition cache_rel :: "nat \<Rightarrow> nat \<Rightarrow> (nat \<Rightarrow> nat list) \<Rightarrow> sim_cache_line list \<Rightarrow> nat \<Rightarrow> bool" where
  "cache_rel ways num_sets sets cache now \<longleftrightarrow> num_sets * ways \<le> length cache \<and>
     (\<forall>i<num_sets. lru_set ways now (sets i) (set_lines ways i cache))"

lemma set_range:
  assumes "i < (n :: nat)"
  shows "i * k + k \<le> n * k"
proof -
  have "Suc i * k \<le> n * k" using assms by (intro mult_le_mono1) simp
  then show ?thesis by (simp add: add.commute)
qed

lemma set_lines_nth:
  "i * k + k \<le> length cache \<Longrightarrow> j < k \<Longrightarrow> set_lines k i cache ! j = cache ! (i * k + j)"
  by (simp add: set_lines_def slice_def)

lemma set_lines_update_same:
  "i * k + k \<le> length cache \<Longrightarrow> j < k \<Longrightarrow> set_lines k i (cache[i * k + j := x]) = (set_lines k i cache)[j := x]"
  by (simp add: set_lines_def slice_def drop_update_swap take_update_swap)

lemma set_lines_update_other:
  assumes "i' \<noteq> i" "j < k"
  shows "set_lines k i' (cache[i * k + j := x]) = set_lines k i' cache"
proof (cases "i' < i")
  case True
  then have "i' * k + k \<le> i * k" by (rule set_range)
  then show ?thesis by (simp add: set_lines_def slice_def take_drop)
next
  case False
  then have "i * k + k \<le> i' * k" using assms(1) by (intro set_range) simp
  then show ?thesis using assms(2) by (simp add: set_lines_def slice_def)
qed

lemma set_lines_range:
  "i * k + k \<le> length cache \<Longrightarrow> set (set_lines k i cache) = (\<lambda>idx. cache ! idx) ` {i * k..<i * k + k}"
proof -
  assume a: "i * k + k \<le> length cache"
  have "set_lines k i cache = map (\<lambda>idx. cache ! idx) [i * k..<i * k + k]"
    using a by (intro nth_equalityI) (simp_all add: set_lines_def slice_def)
  then show ?thesis by simp
qed

lemma cache_rel_update:
  assumes "cache_rel k n sets cache now" "i < n" "j < k" "lru_set k (now + 1) l ((set_lines k i cache)[j := x])"
  shows "cache_rel k n (sets(i := l)) (cache[i * k + j := x]) (now + 1)"
proof -
  have le: "n * k \<le> length cache" and r: "\<And>i. i < n \<Longrightarrow> lru_set k now (sets i) (set_lines k i cache)"
    using assms(1) by (simp_all add: cache_rel_def)
  have ik: "i * k + k \<le> length cache" using set_range [OF assms(2), of k] le by simp
  have "lru_set k (now + 1) ((sets(i := l)) i') (set_lines k i' (cache[i * k + j := x]))" if "i' < n" for i'
  proof (cases "i' = i")
    case True
    then show ?thesis using assms(3,4) ik by (simp add: set_lines_update_same)
  next
    case False
    then show ?thesis using r [OF that] assms(3) by (simp add: set_lines_update_other lru_set_later [of k now])
  qed
  then show ?thesis using le by (simp add: cache_rel_def)
qed

lemma index_in_set:
  "idx \<in> set [s..<s + k] \<Longrightarrow> \<exists>j<k. idx = s + (j :: nat)"
  by (intro exI [of _ "idx - s"]) auto

lemma lru_lt_MAX:
  assumes "lru_set k now l lines" "x \<in> set lines" "cl_valid x" "now < usize_MAX"
  shows "cl_lru x < usize_MAX"
proof -
  obtain ms where "mset ms = mset (filter cl_valid lines)" "\<forall>x\<in>set ms. cl_lru x \<le> now"
    using assms(1) by (auto simp: lru_set_def)
  then have "cl_lru x \<le> now" using assms(2,3) mset_eq_setD [of ms] by fastforce
  then show ?thesis using assms(4) by simp
qed

lemma cache_miss_refines:
  assumes rel: "cache_rel k n sets cache now" and i: "i < n" and k: "0 < k" and nl: "n * k \<le> nl"
    and now: "now < usize_MAX" and t: "t \<notin> set (sets i)"
  shows "\<exists>cache'. cache_miss nl (i * k) [i * k..<i * k + k] t (now + 1) (s, cache) =
      (s\<lparr>misses := misses s + 1, evictions := evictions s + of_bool (\<not> length (sets i) < k)\<rparr>, cache') \<and>
    cache_rel k n (sets(i := take k (t # removeAll t (sets i)))) cache' (now + 1)"
proof -
  have ik: "i * k + k \<le> length cache" using rel set_range [OF i, of k] by (simp add: cache_rel_def)
  have lr: "lru_set k now (sets i) (set_lines k i cache)" using rel i by (simp add: cache_rel_def)
  have inl: "\<forall>idx\<in>set [i * k..<i * k + k]. idx < nl" using set_range [OF i, of k] nl by auto
  obtain r v where fv: "find_victim nl cache [i * k..<i * k + k] (i * k) usize_MAX = (r, v)" by fastforce
  note sp = find_victim_spec [OF inl fv]
  show ?thesis
  proof (cases r)
    case (Some idx)
    then have idx: "idx \<in> set [i * k..<i * k + k]" "\<not> cl_valid (cache ! idx)" using sp by auto
    then obtain j where j: "j < k" "idx = i * k + j" using index_in_set by blast
    have inv: "\<not> cl_valid (set_lines k i cache ! j)" using idx(2) j ik by (simp add: set_lines_nth)
    note f = lru_set_fill [OF lr j(1) inv t]
    have "idx < nl" using inl idx(1) by blast
    then have "cache_miss nl (i * k) [i * k..<i * k + k] t (now + 1) (s, cache) =
        (s\<lparr>misses := misses s + 1, evictions := evictions s + of_bool (\<not> length (sets i) < k)\<rparr>,
         cache[i * k + j := \<lparr>cl_valid = True, cl_tag = t, cl_lru = now + 1\<rparr>])"
      using fv Some j f(2) by (simp add: cache_miss_def)
    then show ?thesis using cache_rel_update [OF rel i j(1) f(1)] by blast
  next
    case None
    then have all: "\<forall>idx\<in>set [i * k..<i * k + k]. cl_valid (cache ! idx)"
      and v: "v \<in> set [i * k..<i * k + k] \<and> (\<forall>idx\<in>set [i * k..<i * k + k]. cl_lru (cache ! v) \<le> cl_lru (cache ! idx)) \<or>
         (\<forall>idx\<in>set [i * k..<i * k + k]. usize_MAX \<le> cl_lru (cache ! idx))" using sp by auto
    have allv: "\<forall>x\<in>set (set_lines k i cache). cl_valid x" using all ik by (simp add: set_lines_range)
    have first: "cache ! (i * k) \<in> set (set_lines k i cache)" using ik k by (simp add: set_lines_range)
    have "cl_lru (cache ! (i * k)) < usize_MAX" using lru_lt_MAX [OF lr first _ now] allv first by blast
    moreover have "i * k \<in> set [i * k..<i * k + k]" using k by simp
    ultimately have "\<not> (\<forall>idx\<in>set [i * k..<i * k + k]. usize_MAX \<le> cl_lru (cache ! idx))" by (meson leD)
    then have v': "v \<in> set [i * k..<i * k + k]" "\<forall>idx\<in>set [i * k..<i * k + k]. cl_lru (cache ! v) \<le> cl_lru (cache ! idx)"
      using v by blast+
    then obtain j where j: "j < k" "v = i * k + j" using index_in_set by blast
    have least: "\<forall>x\<in>set (set_lines k i cache). cl_lru (set_lines k i cache ! j) \<le> cl_lru x"
      using v'(2) j ik by (simp add: set_lines_range set_lines_nth)
    note f = lru_set_evict [OF lr j(1) allv t least]
    have "v < nl" using inl v'(1) by blast
    then have "cache_miss nl (i * k) [i * k..<i * k + k] t (now + 1) (s, cache) =
        (s\<lparr>misses := misses s + 1, evictions := evictions s + of_bool (\<not> length (sets i) < k)\<rparr>,
         cache[i * k + j := (set_lines k i cache ! j)\<lparr>cl_tag := t, cl_lru := now + 1\<rparr>])"
      using fv None j ik f(2) by (simp add: cache_miss_def set_lines_nth)
    then show ?thesis using cache_rel_update [OF rel i j(1) f(1)] by blast
  qed
qed

lemma cache_access_refines:
  assumes rel: "cache_rel (assoc cfg) n sets cache now" and b: "0 < line_bytes cfg" and k: "0 < assoc cfg" and n: "0 < n"
    and nl: "n * assoc cfg \<le> nl" and now: "now < usize_MAX" and ref: "cache_ref (line_bytes cfg) n addr = (i, t)"
  shows "\<exists>cache'. cache_access cfg n nl addr (s, cache, now) =
      Ret (count_outcome (if t \<in> set (sets i) then Hit else if length (sets i) < assoc cfg then Fill else Evict) s, cache', now + 1) \<and>
    cache_rel (assoc cfg) n (sets(i := take (assoc cfg) (t # removeAll t (sets i)))) cache' (now + 1)"
proof -
  let ?k = "assoc cfg"
  have i: "i < n" and it: "unat addr div line_bytes cfg mod n = i" "unat addr div line_bytes cfg div n = t"
    using ref n by (auto simp: cache_ref_def)
  have ik: "i * ?k + ?k \<le> length cache" using rel set_range [OF i, of ?k] by (simp add: cache_rel_def)
  have lr: "lru_set ?k now (sets i) (set_lines ?k i cache)" using rel i by (simp add: cache_rel_def)
  have inl: "idx < nl" if "idx \<in> set [i * ?k..<i * ?k + ?k]" for idx using that set_range [OF i, of ?k] nl by auto
  let ?s = "s\<lparr>accesses := accesses s + 1\<rparr>"
  show ?thesis
  proof (cases "find_line nl cache [i * ?k..<i * ?k + ?k] t")
    case (Some idx)
    then have idx: "idx \<in> set [i * ?k..<i * ?k + ?k]" "cl_valid (cache ! idx)" "cl_tag (cache ! idx) = t"
      unfolding find_line_def find_Some_iff by auto
    then obtain j where j: "j < ?k" "idx = i * ?k + j" using index_in_set by blast
    have x: "set_lines ?k i cache ! j = cache ! idx" using j ik by (simp add: set_lines_nth)
    have hit: "t \<in> set (sets i)"
      using lru_set_tags [OF lr] idx ik by (auto simp: set_lines_range)
    have "lru_set ?k (now + 1) (take ?k (t # removeAll t (sets i))) ((set_lines ?k i cache)[j := (cache ! idx)\<lparr>cl_lru := now + 1\<rparr>])"
      using lru_set_hit [OF lr j(1), of t] idx x by simp
    note r = cache_rel_update [OF rel i j(1) this]
    have "cache_access cfg n nl addr (s, cache, now) =
        Ret (count_outcome Hit s, cache[i * ?k + j := (cache ! idx)\<lparr>cl_lru := now + 1\<rparr>], now + 1)"
      using Some b it j by (simp add: cache_access_def Let_def count_outcome_def)
    then show ?thesis unfolding if_P [OF hit] using r by blast
  next
    case None
    then have none: "\<not> (cl_valid (cache ! idx) \<and> cl_tag (cache ! idx) = t)" if "idx \<in> set [i * ?k..<i * ?k + ?k]" for idx
      using inl [OF that] that unfolding find_line_def find_None_iff by auto
    then have t: "t \<notin> set (sets i)"
      using lru_set_tags [OF lr] ik by (fastforce simp: set_lines_range)
    obtain cache' where "cache_miss nl (i * ?k) [i * ?k..<i * ?k + ?k] t (now + 1) (?s, cache) =
      (?s\<lparr>misses := misses ?s + 1, evictions := evictions ?s + of_bool (\<not> length (sets i) < ?k)\<rparr>, cache')"
      and r: "cache_rel ?k n (sets(i := take ?k (t # removeAll t (sets i)))) cache' (now + 1)"
      using cache_miss_refines [OF rel i k nl now t, of ?s] by blast
    then have "cache_access cfg n nl addr (s, cache, now) =
        Ret (count_outcome (if length (sets i) < ?k then Fill else Evict) s, cache', now + 1)"
      using None b it by (simp add: cache_access_def Let_def count_outcome_def)
    then show ?thesis unfolding if_not_P [OF t] using r by blast
  qed
qed

lemma cache_loop_refines:
  assumes "cache_rel (assoc cfg) n sets cache now" "0 < line_bytes cfg" "0 < assoc cfg" "0 < n" "n * assoc cfg \<le> nl"
    "now + length addrs \<le> usize_MAX"
  shows "cache_loop cfg n nl addrs (s, cache, now) =
    Ret (fold count_outcome (lru_run (assoc cfg) (map (cache_ref (line_bytes cfg) n) addrs) sets) s)"
  using assms(1,6)
proof (induction addrs arbitrary: s cache now sets)
  case Nil
  then show ?case by simp
next
  case (Cons addr addrs)
  obtain i t where it: "cache_ref (line_bytes cfg) n addr = (i, t)" by fastforce
  have now: "now < usize_MAX" "now + 1 + length addrs \<le> usize_MAX" using Cons.prems(2) by simp_all
  obtain cache' where a: "cache_access cfg n nl addr (s, cache, now) =
      Ret (count_outcome (if t \<in> set (sets i) then Hit else if length (sets i) < assoc cfg then Fill else Evict) s, cache', now + 1)"
    and r: "cache_rel (assoc cfg) n (sets(i := take (assoc cfg) (t # removeAll t (sets i)))) cache' (now + 1)"
    using cache_access_refines [OF Cons.prems(1) assms(2-5) now(1) it, of s] by blast
  show ?case
    unfolding cache_loop.simps a run_bind.simps Cons.IH [OF r now(2)] list.map it lru_run.simps fold_simps ..
qed

lemma fold_count_outcome:
  "fold count_outcome rs s = \<lparr>accesses = accesses s + length rs, hits = hits s + count_list rs Hit,
     misses = misses s + (count_list rs Fill + count_list rs Evict), evictions = evictions s + count_list rs Evict\<rparr>"
proof (induction rs arbitrary: s)
  case (Cons r rs)
  then show ?case by (cases r) (simp_all add: count_outcome_def)
qed simp

lemma length_lru_run [simp]: "length (lru_run w refs S) = length refs"
  by (induction refs arbitrary: S) auto

definition lru_outcomes :: "nat \<Rightarrow> nat \<Rightarrow> nat \<Rightarrow> u64 list \<Rightarrow> cache_outcome list" where
  "lru_outcomes ways num_sets bytes addrs = lru_run ways (map (cache_ref bytes num_sets) addrs) (\<lambda>_. [])"

lemma simulate_cache_lru:
  assumes "0 < assoc cfg" "assoc cfg \<le> num_lines cfg" "num_lines cfg \<le> 1024" "0 < line_bytes cfg" "length addrs \<le> usize_MAX"
  shows "simulate_cache cfg addrs =
    (let rs = lru_outcomes (assoc cfg) (num_lines cfg div assoc cfg) (line_bytes cfg) addrs in
     Ret \<lparr>accesses = length addrs, hits = count_list rs Hit, misses = count_list rs Fill + count_list rs Evict,
          evictions = count_list rs Evict\<rparr>)"
proof -
  let ?n = "num_lines cfg div assoc cfg" and ?c = "replicate 1024 \<lparr>cl_valid = False, cl_tag = 0, cl_lru = 0\<rparr>"
  have n: "0 < ?n" using assms(1,2) by (simp add: div_greater_zero_iff)
  have le: "?n * assoc cfg \<le> num_lines cfg" by (simp add: div_times_less_eq_dividend)
  have "lru_set (assoc cfg) 0 [] (set_lines (assoc cfg) i ?c)" if "i < ?n" for i
  proof -
    have "i * assoc cfg + assoc cfg \<le> 1024" using set_range [OF that, of "assoc cfg"] le assms(3) by linarith
    then show ?thesis by (simp add: lru_set_def set_lines_def slice_def)
  qed
  then have "cache_rel (assoc cfg) ?n (\<lambda>_. []) ?c 0" using order_trans [OF le assms(3)] by (simp add: cache_rel_def)
  from cache_loop_refines [OF this assms(4,1) n, of "min (num_lines cfg) 1024" addrs CacheStats_zero]
  have "simulate_cache cfg addrs = Ret (fold count_outcome (lru_outcomes (assoc cfg) ?n (line_bytes cfg) addrs) CacheStats_zero)"
    using assms le n by (simp add: simulate_cache_def lru_outcomes_def)
  then show ?thesis by (simp add: fold_count_outcome CacheStats_zero_def Let_def lru_outcomes_def)
qed

text \<open>
  Least-recently-used replacement has the inclusion property: at every moment a smaller set holds the
  front of what a larger set holds.
\<close>

lemma take_removeAll:
  "distinct l \<Longrightarrow> take k (removeAll t l) = take k (removeAll t (take (Suc k) l))"
proof (induction l arbitrary: k)
  case (Cons x l)
  show ?case
  proof (cases "x = t")
    case True
    then have "t \<notin> set l" using Cons.prems by simp
    then show ?thesis using True by (simp add: removeAll_id) (metis in_set_takeD removeAll_id take_take min.idem)
  next
    case False
    then show ?thesis using Cons by (cases k) simp_all
  qed
qed simp

lemma lru_inclusion:
  assumes "w \<le> w'" "0 < w" "\<forall>i. distinct (S' i) \<and> S i = take w (S' i)"
  shows "count_list (lru_run w refs S) Hit \<le> count_list (lru_run w' refs S') Hit"
  using assms(3)
proof (induction refs arbitrary: S S')
  case (Cons r refs)
  obtain i t where r: "r = (i, t)" by fastforce
  let ?S = "S(i := take w (t # removeAll t (S i)))" and ?S' = "S'(i := take w' (t # removeAll t (S' i)))"
  have d: "distinct (S' i)" and s: "S i = take w (S' i)" using Cons.prems by auto
  have di: "distinct (?S' i)" using d distinct_take [of "t # removeAll t (S' i)" w'] by (simp add: distinct_removeAll)
  have eq: "?S i = take w (?S' i)"
  proof (cases w)
    case (Suc m)
    then show ?thesis using s assms(1) take_removeAll [OF d, of m t] by (simp add: min_absorb1)
  qed (use assms(2) in simp)
  have "count_list (lru_run w refs ?S) Hit \<le> count_list (lru_run w' refs ?S') Hit"
    using Cons.prems di eq by (intro Cons.IH) simp
  moreover have "t \<in> set (S i) \<Longrightarrow> t \<in> set (S' i)" unfolding s by (rule in_set_takeD)
  ultimately show ?case using r by auto
qed simp

subsection \<open>Properties\<close>

text \<open>
  C31. The cache simulator is exact. For a configuration that divides at most 1024 lines into sets, it
  reports for every sequence of addresses the hits, misses and evictions of sets with
  least-recently-used replacement, every access being one or the other; and with the same number of
  sets and the same line size, more ways never lose a hit.
\<close>

theorem cache_sim_is_lru:
  assumes "0 < ways" "ways \<le> wider" "0 < sets" "sets * wider \<le> 1024" "0 < bytes" "length addrs \<le> usize_MAX"
  shows "\<exists>s s'. simulate_cache \<lparr>assoc = ways, num_lines = sets * ways, line_bytes = bytes\<rparr> addrs = Ret s \<and>
    simulate_cache \<lparr>assoc = wider, num_lines = sets * wider, line_bytes = bytes\<rparr> addrs = Ret s' \<and>
    hits s = count_list (lru_outcomes ways sets bytes addrs) Hit \<and>
    evictions s = count_list (lru_outcomes ways sets bytes addrs) Evict \<and>
    accesses s = length addrs \<and> hits s + misses s = length addrs \<and> evictions s \<le> misses s \<and> hits s \<le> hits s'"
proof -
  have le: "sets * ways \<le> sets * wider" using assms(2) by simp
  note go = simulate_cache_lru [of "\<lparr>assoc = ways, num_lines = sets * ways, line_bytes = bytes\<rparr>" addrs]
    and go' = simulate_cache_lru [of "\<lparr>assoc = wider, num_lines = sets * wider, line_bytes = bytes\<rparr>" addrs]
  have total: "count_list rs Hit + (count_list rs Fill + count_list rs Evict) = length rs" for rs
  proof (induction rs)
    case (Cons r rs)
    then show ?case by (cases r) simp_all
  qed simp
  have "length (lru_outcomes ways sets bytes addrs) = length addrs" by (simp add: lru_outcomes_def)
  moreover have "count_list (lru_outcomes ways sets bytes addrs) Hit \<le> count_list (lru_outcomes wider sets bytes addrs) Hit"
    unfolding lru_outcomes_def using assms(1,2) by (intro lru_inclusion) simp_all
  ultimately show ?thesis
    using go go' assms le total [of "lru_outcomes ways sets bytes addrs"] by (simp add: Let_def)
qed

theorem cache_sim_is_lru_witness:
  "\<exists>s s'. simulate_cache \<lparr>assoc = 1, num_lines = 4 * 1, line_bytes = 64\<rparr> [0, 256, 0] = Ret s \<and>
     simulate_cache \<lparr>assoc = 2, num_lines = 4 * 2, line_bytes = 64\<rparr> [0, 256, 0] = Ret s' \<and> hits s \<le> hits s'"
  using cache_sim_is_lru [of 1 2 4 64 "[0, 256, 0]"] by (auto simp: usize_MAX_def)

text \<open>
  The addresses made from a trace, or from a name that matches nothing, are 128 line addresses
  within a working set of twelve lines.
\<close>

lemma run_map_Ret: "run_map f xs = Ret ys \<Longrightarrow> length ys = length xs \<and> (\<forall>y \<in> set ys. \<exists>x \<in> set xs. f x = Ret y)"
proof (induction xs arbitrary: ys)
  case (Cons x xs)
  then obtain y zs where "f x = Ret y" "run_map f xs = Ret zs" "ys = y # zs" by (auto simp: run_bind_Ret_iff)
  then show ?case using Cons.IH [of zs] by auto
qed simp

lemma working_set: "\<exists>l < 12. (v :: u64) mod 12 * 64 = of_nat (64 * l)"
proof (intro exI conjI)
  have "unat (v mod 12) = unat v mod 12" by (simp add: unat_mod_distrib)
  then show "unat (v mod 12) < 12" by simp
  show "v mod 12 * 64 = of_nat (64 * unat (v mod 12))" by (simp add: mult.commute)
qed

lemma sim_addresses_working_set:
  assumes "get_sim_addresses name ts = Ret addrs"
  shows "length addrs = 128 \<and> (\<forall>a \<in> set addrs. \<exists>l < 12. a = of_nat (64 * l))"
proof (cases "matched_events name ts = []")
  case True
  then have r: "run_map (synthetic_addr (sim_seed name)) [0..<128] = Ret addrs" using assms by (simp add: get_sim_addresses_def del: upt_rec_numeral)
  have "\<exists>l < 12. a = of_nat (64 * l)" if a: "a \<in> set addrs" for a
  proof -
    obtain i where "synthetic_addr (sim_seed name) i = Ret a"
      using bspec [OF conjunct2 [OF run_map_Ret [OF r]] a] by (elim bexE) (rule that)
    then have "a = (sim_step_lines ! (i mod 16) + sim_seed name) mod 12 * 64"
      by (auto simp: synthetic_addr_def Let_def split: if_splits)
    then show ?thesis using working_set by blast
  qed
  then show ?thesis using run_map_Ret [OF r] by (simp del: upt_rec_numeral)
next
  case False
  then have "addrs = map (\<lambda>i. hash_event_to_addr (matched_events name ts ! (i mod length (matched_events name ts)))) [0..<128]"
    using assms by (simp add: get_sim_addresses_def Let_def)
  moreover have "\<exists>l < 12. hash_event_to_addr ev = of_nat (64 * l)" for ev
    unfolding hash_event_to_addr_def Let_def by (rule working_set)
  ultimately show ?thesis by (auto simp del: of_nat_mult upt_rec_numeral)
qed

end
