(* ===== verification/Traps.thy ===== *)
theory Traps
  imports Scheduler Samples
begin

text \<open>
  The way into and out of the kernel: the assembler stubs of \<open>interrupts/mod.rs\<close> and \<open>syscall/mod.rs\<close>, run
  on a register file and a stack, and \<open>exception_dispatch\<close>, which ends the task that faulted.
\<close>

subsection \<open>The stubs\<close>

datatype gpr = RAX | RBX | RCX | RDX | RSI | RDI | RBP | R8 | R9 | R10 | R11 | R12 | R13 | R14 | R15

record trap_cpu =
  gprs :: "gpr \<Rightarrow> u64"
  trap_rsp :: u64
  trap_rip :: u64
  trap_cs :: u64
  trap_rflags :: u64
  trap_ss :: u64
  stack_mem :: "u64 \<Rightarrow> u64"

text \<open>The instructions the stubs are made of; \<open>CallRust\<close> calls the handler written in Rust.\<close>

datatype stub_instr =
    Push gpr
  | PushImm u64
  | Pop gpr
  | MovRdiRsp
  | MovRsiMem u64
  | AddRsp u64
  | CallRust
  | Iretq

definition push_word :: "u64 \<Rightarrow> trap_cpu \<Rightarrow> trap_cpu" where
  "push_word v c = c\<lparr>trap_rsp := trap_rsp c - 8, stack_mem := (stack_mem c)(trap_rsp c - 8 := v)\<rparr>"

fun stub_step :: "(trap_cpu \<Rightarrow> trap_cpu) \<Rightarrow> stub_instr \<Rightarrow> trap_cpu \<Rightarrow> trap_cpu" where
  "stub_step rust (Push r) c = push_word (gprs c r) c"
| "stub_step rust (PushImm v) c = push_word v c"
| "stub_step rust (Pop r) c = c\<lparr>gprs := (gprs c)(r := stack_mem c (trap_rsp c)), trap_rsp := trap_rsp c + 8\<rparr>"
| "stub_step rust MovRdiRsp c = c\<lparr>gprs := (gprs c)(RDI := trap_rsp c)\<rparr>"
| "stub_step rust (MovRsiMem d) c = c\<lparr>gprs := (gprs c)(RSI := stack_mem c (trap_rsp c + d))\<rparr>"
| "stub_step rust (AddRsp n) c = c\<lparr>trap_rsp := trap_rsp c + n\<rparr>"
| "stub_step rust CallRust c = rust c"
| "stub_step rust Iretq c =
     (let m = stack_mem c; sp = trap_rsp c
      in c\<lparr>trap_rip := m sp, trap_cs := m (sp + 8), trap_rflags := m (sp + 16), trap_rsp := m (sp + 24), trap_ss := m (sp + 32)\<rparr>)"

definition run_stub :: "(trap_cpu \<Rightarrow> trap_cpu) \<Rightarrow> stub_instr list \<Rightarrow> trap_cpu \<Rightarrow> trap_cpu" where
  "run_stub rust is c = fold (stub_step rust) is c"

definition isr_entry :: "stub_instr list" where
  "isr_entry = [Push RAX, Push RCX, Push RDX, Push RSI, Push RDI, Push R8, Push R9, Push R10, Push R11, Push RBX,
     Push RBP, Push R12, Push R13, Push R14, Push R15]"

definition isr_exit :: "stub_instr list" where
  "isr_exit = [Pop R15, Pop R14, Pop R13, Pop R12, Pop RBP, Pop RBX, Pop R11, Pop R10, Pop R9, Pop R8, Pop RDI,
     Pop RSI, Pop RDX, Pop RCX, Pop RAX, Iretq]"

definition frame_entry :: "stub_instr list" where
  "frame_entry = [Push R15, Push R14, Push R13, Push R12, Push R11, Push R10, Push R9, Push R8, Push RBP, Push RDI,
     Push RSI, Push RDX, Push RCX, Push RBX, Push RAX, MovRdiRsp]"

definition frame_exit :: "stub_instr list" where
  "frame_exit = [Pop RAX, Pop RBX, Pop RCX, Pop RDX, Pop RSI, Pop RDI, Pop RBP, Pop R8, Pop R9, Pop R10, Pop R11,
     Pop R12, Pop R13, Pop R14, Pop R15]"

definition timer_interrupt_stub :: "stub_instr list" where
  "timer_interrupt_stub = isr_entry @ [CallRust] @ isr_exit"

definition keyboard_interrupt_stub :: "stub_instr list" where
  "keyboard_interrupt_stub = isr_entry @ [CallRust] @ isr_exit"

definition ipi_interrupt_stub :: "stub_instr list" where
  "ipi_interrupt_stub = isr_entry @ [CallRust] @ isr_exit"

definition syscall_stub :: "stub_instr list" where
  "syscall_stub = frame_entry @ [CallRust] @ frame_exit @ [Iretq]"

definition exception_common_entry :: "stub_instr list" where
  "exception_common_entry = frame_entry @ [MovRsiMem (15 * 8)]"

text \<open>What follows the call, for a handler that returns.\<close>

definition exception_common_exit :: "stub_instr list" where
  "exception_common_exit = frame_exit @ [AddRsp 16, Iretq]"

definition divide_error_stub :: "stub_instr list" where
  "divide_error_stub = [PushImm 0, PushImm 0] @ exception_common_entry"

definition invalid_opcode_stub :: "stub_instr list" where
  "invalid_opcode_stub = [PushImm 0, PushImm 6] @ exception_common_entry"

definition general_protection_stub :: "stub_instr list" where
  "general_protection_stub = [PushImm 13] @ exception_common_entry"

definition page_fault_stub :: "stub_instr list" where
  "page_fault_stub = [PushImm 14] @ exception_common_entry"

text \<open>
  What the processor does on an interrupt or exception: on the stack it chose it pushes the interrupted context, and
  for some exceptions an error code.
\<close>

definition hw_enter :: "u64 \<Rightarrow> u64 option \<Rightarrow> trap_cpu \<Rightarrow> trap_cpu" where
  "hw_enter kstack err c =
     (let c' = push_word (trap_rip c) (push_word (trap_cs c) (push_word (trap_rflags c)
                 (push_word (trap_rsp c) (push_word (trap_ss c) (c\<lparr>trap_rsp := kstack\<rparr>)))))
      in case err of None \<Rightarrow> c' | Some e \<Rightarrow> push_word e c')"

text \<open>The frame a handler reads through the pointer it is given, in the order of the structure's fields.\<close>

definition read_gp_frame :: "(u64 \<Rightarrow> u64) \<Rightarrow> u64 \<Rightarrow> gp_frame" where
  "read_gp_frame m a =
     \<lparr>f_rax = m a, f_rbx = m (a + 8), f_rcx = m (a + 16), f_rdx = m (a + 24), f_rsi = m (a + 32), f_rdi = m (a + 40),
      f_rbp = m (a + 48), f_r8 = m (a + 56), f_r9 = m (a + 64), f_r10 = m (a + 72), f_r11 = m (a + 80),
      f_r12 = m (a + 88), f_r13 = m (a + 96), f_r14 = m (a + 104), f_r15 = m (a + 112)\<rparr>"

definition read_exception_frame :: "(u64 \<Rightarrow> u64) \<Rightarrow> u64 \<Rightarrow> exception_frame" where
  "read_exception_frame m a =
     gp_frame.extend (read_gp_frame m a)
       \<lparr>f_vector = m (a + 120), f_error_code = m (a + 128), f_rip = m (a + 136), f_cs = m (a + 144),
        f_rflags = m (a + 152), f_rsp = m (a + 160), f_ss = m (a + 168)\<rparr>"

definition regs_frame :: "(gpr \<Rightarrow> u64) \<Rightarrow> gp_frame" where
  "regs_frame r = \<lparr>f_rax = r RAX, f_rbx = r RBX, f_rcx = r RCX, f_rdx = r RDX, f_rsi = r RSI, f_rdi = r RDI,
      f_rbp = r RBP, f_r8 = r R8, f_r9 = r R9, f_r10 = r R10, f_r11 = r R11,
      f_r12 = r R12, f_r13 = r R13, f_r14 = r R14, f_r15 = r R15\<rparr>"

text \<open>What the calling convention asks of a handler: it returns with the stack pointer it was called with, and it leaves
  alone the first \<open>n\<close> words above it except those the pointer it was given lets it write.\<close>

definition keeps_stack :: "nat set \<Rightarrow> (trap_cpu \<Rightarrow> trap_cpu) \<Rightarrow> trap_cpu \<Rightarrow> bool" where
  "keeps_stack ws rust c \<longleftrightarrow> trap_rsp (rust c) = trap_rsp c
     \<and> (\<forall>i \<in> ws. stack_mem (rust c) (trap_rsp c + 8 * of_nat i) = stack_mem c (trap_rsp c + 8 * of_nat i))"

lemma gpr_ext: "(\<And>r. f r = g r) \<Longrightarrow> f = (g :: gpr \<Rightarrow> u64)"
  by (rule ext)

definition user_context :: "trap_cpu \<Rightarrow> (gpr \<Rightarrow> u64) \<times> u64 \<times> u64 \<times> u64 \<times> u64 \<times> u64" where
  "user_context c = (gprs c, trap_rsp c, trap_rip c, trap_cs c, trap_rflags c, trap_ss c)"

text \<open>The words of a stack, from its top up.\<close>

definition stack_words :: "nat \<Rightarrow> trap_cpu \<Rightarrow> u64 list" where
  "stack_words n c = map (\<lambda>i. stack_mem c (trap_rsp c + 8 * of_nat i)) [0..<n]"

lemma stack_words_20:
  "stack_words 20 c = map (\<lambda>d. stack_mem c (trap_rsp c + d))
     [0, 8, 16, 24, 32, 40, 48, 56, 64, 72, 80, 88, 96, 104, 112, 120, 128, 136, 144, 152]"
  by (simp add: stack_words_def upt_rec)

lemma keeps_stack_words: "keeps_stack {..<n} rust c \<Longrightarrow> stack_words n (rust c) = stack_words n c"
  by (simp add: keeps_stack_def stack_words_def)

definition isr_order :: "gpr list" where
  "isr_order = [R15, R14, R13, R12, RBP, RBX, R11, R10, R9, R8, RDI, RSI, RDX, RCX, RAX]"

definition frame_order :: "gpr list" where
  "frame_order = [RAX, RBX, RCX, RDX, RSI, RDI, RBP, R8, R9, R10, R11, R12, R13, R14, R15]"

definition hw_words :: "trap_cpu \<Rightarrow> u64 list" where
  "hw_words c = [trap_rip c, trap_cs c, trap_rflags c, trap_rsp c, trap_ss c]"

lemma gpr_pointwise: "(\<And>r. r \<in> set frame_order \<Longrightarrow> f r = g r) \<Longrightarrow> f = g"
proof (rule ext)
  fix r
  assume "\<And>r. r \<in> set frame_order \<Longrightarrow> f r = g r"
  then show "f r = g r" by (cases r) (simp_all add: frame_order_def)
qed

lemma isr_entry_words: "stack_words 20 (run_stub rust isr_entry (hw_enter sp None c)) = map (gprs c) isr_order @ hw_words c"
  by (simp add: stack_words_20 run_stub_def isr_entry_def hw_enter_def push_word_def isr_order_def hw_words_def)

lemma isr_exit_pops:
  assumes "stack_words 20 c = map (gprs d) isr_order @ hw_words d"
  shows "user_context (run_stub rust isr_exit c) = user_context d"
  using assms
  by (auto simp: stack_words_20 run_stub_def isr_exit_def isr_order_def hw_words_def user_context_def frame_order_def
      Let_def ac_simps intro!: gpr_pointwise)

lemma frame_entry_words:
  "stack_words 20 (run_stub rust frame_entry (hw_enter sp None c)) = map (gprs c) frame_order @ hw_words c"
  by (simp add: stack_words_20 run_stub_def frame_entry_def hw_enter_def push_word_def frame_order_def hw_words_def)

lemma run_stub_append: "run_stub rust (is @ js) c = run_stub rust js (run_stub rust is c)"
  by (simp add: run_stub_def)

lemma isr_stub_restores:
  assumes "keeps_stack {..<20} rust (run_stub rust isr_entry (hw_enter sp None c))"
  shows "user_context (run_stub rust (isr_entry @ [CallRust] @ isr_exit) (hw_enter sp None c)) = user_context c"
  using isr_exit_pops [OF trans [OF keeps_stack_words [OF assms] isr_entry_words], of rust]
  by (simp add: run_stub_append) (simp add: run_stub_def)

text \<open>C27. An interrupt is invisible to the task it interrupts.  Whatever the timer, keyboard or inter-processor interrupt
  handler does, as long as it keeps the calling convention, the stub returns to the interrupted instruction with all
  fifteen general registers, the stack, the flags and the segments as they were.  This is what makes it sound to
  interrupt at any instruction, and to switch tasks inside the timer handler.\<close>

theorem interrupts_are_transparent:
  assumes "keeps_stack {..<20} rust (run_stub rust isr_entry (hw_enter sp None c))"
    and "stub \<in> {timer_interrupt_stub, keyboard_interrupt_stub, ipi_interrupt_stub}"
  shows "user_context (run_stub rust stub (hw_enter sp None c)) = user_context c"
  using isr_stub_restores [OF assms(1)] assms(2)
  by (auto simp: timer_interrupt_stub_def keyboard_interrupt_stub_def ipi_interrupt_stub_def)

definition sample_trap_cpu :: trap_cpu where
  "sample_trap_cpu = \<lparr>gprs = (\<lambda>r. if r = RAX then 7 else if r = R15 then 9 else 0), trap_rsp = 0x7ffffff0, trap_rip = 0x400010,
     trap_cs = 0x1b, trap_rflags = 0x202, trap_ss = 0x23, stack_mem = (\<lambda>_. 0)\<rparr>"

text \<open>A handler that clobbers every register and the stack below it.\<close>

definition clobber :: "trap_cpu \<Rightarrow> trap_cpu" where
  "clobber c = c\<lparr>gprs := (\<lambda>_. 0xdead), stack_mem := (stack_mem c)(trap_rsp c - 8 := 0xbeef)\<rparr>"

lemma clobber_keeps: "keeps_stack {..<20} clobber c"
proof -
  have "8 * of_nat i \<noteq> - (8 :: u64)" if "i < 20" for i :: nat
  proof -
    from that have "i \<in> set [0..<20]" by simp
    then show ?thesis by (auto simp: upt_rec)
  qed
  then show ?thesis by (auto simp: keeps_stack_def clobber_def)
qed

theorem interrupts_are_transparent_witness:
  "user_context (run_stub clobber timer_interrupt_stub (hw_enter 0x9000 None sample_trap_cpu)) = user_context sample_trap_cpu"
  by (rule interrupts_are_transparent [OF clobber_keeps]) simp

subsection \<open>System calls and exceptions\<close>

lemma frame_words_read:
  "read_gp_frame (stack_mem c) (trap_rsp c) = regs_frame r \<longleftrightarrow> take 15 (stack_words 20 c) = map r frame_order"
  by (auto simp: read_gp_frame_def regs_frame_def stack_words_20 frame_order_def)

lemma syscall_exit_pops:
  assumes "stack_words 20 c = map r frame_order @ hw_words d"
  shows "user_context (run_stub rust (frame_exit @ [Iretq]) c) = user_context (d\<lparr>gprs := r\<rparr>)"
  using assms
  by (auto simp: stack_words_20 run_stub_def frame_exit_def hw_words_def user_context_def frame_order_def
      Let_def ac_simps intro!: gpr_pointwise)

lemma frame_pointer: "gprs (run_stub rust frame_entry c) RDI = trap_rsp (run_stub rust frame_entry c)"
  by (simp add: run_stub_def frame_entry_def)

text \<open>C28. A system call sees and returns the caller's registers.  The frame that \<open>syscall_dispatch\<close> is handed holds the
  registers of the caller, in the order of the fields of \<open>SyscallFrame\<close>; and when it returns, keeping the processor's
  part of the stack, the caller continues behind its \<open>int 0x80\<close> with exactly the registers the frame then holds.\<close>

theorem syscall_stub_exchanges_registers:
  fixes rust :: "trap_cpu \<Rightarrow> trap_cpu" and sp :: u64 and c :: trap_cpu
  defines "c1 \<equiv> run_stub rust frame_entry (hw_enter sp None c)"
  assumes "keeps_stack {15..<20} rust c1"
    and "read_gp_frame (stack_mem (rust c1)) (gprs c1 RDI) = regs_frame r"
  shows "read_gp_frame (stack_mem c1) (gprs c1 RDI) = regs_frame (gprs c)
     \<and> user_context (run_stub rust syscall_stub (hw_enter sp None c)) = user_context (c\<lparr>gprs := r\<rparr>)"
proof -
  have w: "stack_words 20 c1 = map (gprs c) frame_order @ hw_words c"
    unfolding c1_def by (rule frame_entry_words)
  have sp: "gprs c1 RDI = trap_rsp c1" "trap_rsp (rust c1) = trap_rsp c1"
    using assms(2) frame_pointer by (simp_all add: c1_def keeps_stack_def)
  have "drop 15 (stack_words 20 (rust c1)) = drop 15 (stack_words 20 c1)"
    using assms(2) sp(2) by (simp add: stack_words_def drop_map keeps_stack_def del: upt_rec_numeral)
  moreover have "take 15 (stack_words 20 (rust c1)) = map r frame_order"
    using assms(3) sp frame_words_read [of "rust c1" r] by simp
  moreover have "drop 15 (stack_words 20 c1) = hw_words c"
    using w by (simp add: frame_order_def)
  ultimately have "stack_words 20 (rust c1) = map r frame_order @ hw_words c"
    by (metis append_take_drop_id)
  from syscall_exit_pops [OF this, of rust]
  have "user_context (run_stub rust syscall_stub (hw_enter sp None c)) = user_context (c\<lparr>gprs := r\<rparr>)"
    by (simp add: syscall_stub_def run_stub_append c1_def) (simp add: run_stub_def)
  moreover have "read_gp_frame (stack_mem c1) (gprs c1 RDI) = regs_frame (gprs c)"
    using w sp(1) frame_words_read [of c1 "gprs c"] by (simp add: frame_order_def)
  ultimately show ?thesis by simp
qed

text \<open>A dispatcher that answers with 42 in \<open>rax\<close>.\<close>

definition answer_42 :: "trap_cpu \<Rightarrow> trap_cpu" where
  "answer_42 c = c\<lparr>stack_mem := (stack_mem c)(gprs c RDI := 42)\<rparr>"

theorem syscall_stub_exchanges_registers_witness:
  "user_context (run_stub answer_42 syscall_stub (hw_enter 0x9000 None sample_trap_cpu))
     = user_context (sample_trap_cpu\<lparr>gprs := (gprs sample_trap_cpu)(RAX := 42)\<rparr>)"
proof -
  let ?c = "run_stub answer_42 frame_entry (hw_enter 0x9000 None sample_trap_cpu)"
  have "8 * of_nat i \<noteq> (0 :: u64)" if "15 \<le> i" "i < 20" for i :: nat
  proof -
    from that have "i = 15 \<or> i = 16 \<or> i = 17 \<or> i = 18 \<or> i = 19" by linarith
    then show ?thesis by auto
  qed
  then have "keeps_stack {15..<20} answer_42 ?c"
    by (auto simp: keeps_stack_def answer_42_def frame_pointer)
  moreover have "read_gp_frame (stack_mem (answer_42 ?c)) (gprs ?c RDI) = regs_frame ((gprs sample_trap_cpu)(RAX := 42))"
    by (simp add: answer_42_def read_gp_frame_def regs_frame_def run_stub_def frame_entry_def hw_enter_def push_word_def)
  ultimately show ?thesis
    by (rule syscall_stub_exchanges_registers [THEN conjunct2])
qed

definition exception_stub :: "nat \<Rightarrow> stub_instr list option" where
  "exception_stub v = map_of [(0, divide_error_stub), (6, invalid_opcode_stub), (13, general_protection_stub),
     (14, page_fault_stub)] v"

text \<open>The processor pushes an error code for protection and page faults.\<close>

definition hw_error :: "nat \<Rightarrow> u64 \<Rightarrow> u64 option" where
  "hw_error v e = (if v \<in> {13, 14} then Some e else None)"

definition frame_of :: "nat \<Rightarrow> u64 \<Rightarrow> trap_cpu \<Rightarrow> exception_frame" where
  "frame_of v e c = gp_frame.extend (regs_frame (gprs c))
     \<lparr>f_vector = of_nat v, f_error_code = (if v \<in> {13, 14} then e else 0), f_rip = trap_rip c, f_cs = trap_cs c,
      f_rflags = trap_rflags c, f_rsp = trap_rsp c, f_ss = trap_ss c\<rparr>"

text \<open>The frame of a fault describes the fault.  For each of the four exceptions with a stub, the frame the handler is
  handed holds all registers of the faulting context, its instruction, flags, stack and segments, the vector, and the
  processor's error code or zero when it pushes none; the second argument is the vector.\<close>

theorem exception_frame_is_faithful:
  fixes rust :: "trap_cpu \<Rightarrow> trap_cpu" and sp e :: u64 and c :: trap_cpu and v :: nat
  assumes "exception_stub v = Some stub"
  defines "c1 \<equiv> run_stub rust stub (hw_enter sp (hw_error v e) c)"
  shows "read_exception_frame (stack_mem c1) (gprs c1 RDI) = frame_of v e c \<and> gprs c1 RSI = of_nat v"
proof -
  have "v = 0 \<and> stub = divide_error_stub \<or> v = 6 \<and> stub = invalid_opcode_stub
      \<or> v = 13 \<and> stub = general_protection_stub \<or> v = 14 \<and> stub = page_fault_stub"
    using assms(1) by (auto simp: exception_stub_def split: if_splits)
  then show ?thesis
    unfolding c1_def
    by (elim disjE conjE)
      (simp_all add: read_exception_frame_def read_gp_frame_def frame_of_def regs_frame_def gp_frame.defs
        run_stub_def divide_error_stub_def invalid_opcode_stub_def general_protection_stub_def page_fault_stub_def
        exception_common_entry_def frame_entry_def hw_enter_def hw_error_def push_word_def)
qed

theorem exception_frame_is_faithful_witness:
  "read_exception_frame (stack_mem (run_stub id page_fault_stub (hw_enter 0x9000 (Some 4) sample_trap_cpu)))
      (gprs (run_stub id page_fault_stub (hw_enter 0x9000 (Some 4) sample_trap_cpu)) RDI)
     = frame_of 14 4 sample_trap_cpu"
  using exception_frame_is_faithful [of 14 page_fault_stub id "0x9000" 4 sample_trap_cpu]
  by (simp add: exception_stub_def hw_error_def)

text \<open>If a handler did return, the common exit would leave the kernel with the stack balanced.\<close>

lemma exception_exit_returns:
  assumes "exception_stub v = Some stub"
  shows "user_context (run_stub rust exception_common_exit ((run_stub rust stub (hw_enter sp (hw_error v e) c))
     \<lparr>gprs := g\<rparr>)) = user_context c"
proof -
  have "v = 0 \<and> stub = divide_error_stub \<or> v = 6 \<and> stub = invalid_opcode_stub
      \<or> v = 13 \<and> stub = general_protection_stub \<or> v = 14 \<and> stub = page_fault_stub"
    using assms(1) by (auto simp: exception_stub_def split: if_splits)
  then show ?thesis
    by (elim disjE conjE)
      (auto simp: user_context_def frame_order_def Let_def
        run_stub_def divide_error_stub_def invalid_opcode_stub_def general_protection_stub_def page_fault_stub_def
        exception_common_entry_def exception_common_exit_def frame_exit_def frame_entry_def hw_enter_def hw_error_def push_word_def
        intro!: gpr_pointwise)
qed

subsection \<open>The exception handler\<close>

text \<open>
  \<open>exception_dispatch\<close> takes the scheduler lock twice; if the faulting code holds it the handler waits for ever,
  which is the value \<open>None\<close>.
\<close>

definition exception_dispatch :: "bool \<Rightarrow> exception_frame \<Rightarrow> u64 \<Rightarrow> kernel \<Rightarrow> term_outcome option" where
  "exception_dispatch lock_held frame vector k =
     (let k = k\<lparr>faults_caught := faults_caught k + 1\<rparr>;
          k = log_trace ''cpu_exception'' vector (f_rip frame) k
      in if lock_held then None
         else case current_task_id k of
                Some i \<Rightarrow>
                  let k = update_task i (\<lambda>t. t\<lparr>t_fault_registers := Some frame\<rparr>) k
                  in Some (terminate_current_task k)
              | None \<Rightarrow> Some (Halted k))"

definition fault_recorded :: "exception_frame \<Rightarrow> u64 \<Rightarrow> kernel \<Rightarrow> kernel" where
  "fault_recorded frame vector k =
     (let k = log_trace ''cpu_exception'' vector (f_rip frame) (k\<lparr>faults_caught := faults_caught k + 1\<rparr>)
      in case current_task_id k of Some i \<Rightarrow> update_task i (\<lambda>t. t\<lparr>t_fault_registers := Some frame\<rparr>) k | None \<Rightarrow> k)"

lemma fault_recorded_frame:
  "current_task_id (fault_recorded f v k) = current_task_id k" "audit (fault_recorded f v k) = audit k"
  "faults_caught (fault_recorded f v k) = faults_caught k + 1" "k_layout (fault_recorded f v k) = k_layout k"
  "length (tasks (fault_recorded f v k)) = length (tasks k)"
  by (simp_all add: fault_recorded_def Let_def log_trace_def update_task_def set_slot_def split: option.split)

lemma slot_state_update_task:
  assumes "\<And>t. t_state (f t) = t_state t"
  shows "slot_state (update_task j f k) i = slot_state k i"
proof (cases "get_task k j")
  case (Some t)
  then show ?thesis
    using get_task_in_range [OF Some] assms
    by (cases "i = j") (simp_all add: update_task_def set_slot_def slot_state_def)
qed (simp add: update_task_def)

lemma slot_state_counted [simp]: "slot_state (k\<lparr>faults_caught := n\<rparr>) i = slot_state k i"
  by (simp add: slot_state_def)

lemma fault_recorded_slot: "slot_state (fault_recorded f v k) i = slot_state k i"
  by (simp add: fault_recorded_def Let_def slot_state_update_task split: option.split)

lemma fault_recorded_task:
  "get_task (fault_recorded f v k) i =
     map_option (\<lambda>t. if current_task_id k = Some i then t\<lparr>t_fault_registers := Some f\<rparr> else t) (get_task k i)"
proof -
  have "get_task (k\<lparr>faults_caught := n\<rparr>) i = get_task k i" for i n by (simp add: get_task_def)
  moreover have "current_task_id (log_trace s x y k) = current_task_id k" for s x y and k :: kernel
    by (simp add: log_trace_def)
  ultimately show ?thesis
    by (cases "current_task_id k"; cases "get_task k i") (auto simp: fault_recorded_def Let_def get_task_update_task)
qed

lemma kernel_wf_fault_recorded: "kernel_wf k \<Longrightarrow> kernel_wf (fault_recorded f v k)"
proof -
  assume "kernel_wf k"
  then have "kernel_wf (k\<lparr>faults_caught := faults_caught k + 1\<rparr>)"
    by (simp add: kernel_wf_def)
  then show ?thesis
    by (auto simp: fault_recorded_def Let_def task_wf_def split: option.split intro!: kernel_wf_update_task)
qed

lemma exception_dispatch_Some:
  "exception_dispatch False f v k = Some (if current_task_id k = None then Halted (fault_recorded f v k)
     else terminate_current_task (fault_recorded f v k))"
  by (auto simp: exception_dispatch_def fault_recorded_def Let_def log_trace_def split: option.split)

lemma kernel_wf_exception_dispatch:
  assumes "kernel_wf k" "exception_dispatch held f v k = Some out"
  shows "kernel_wf (term_kernel out)"
proof -
  have "\<not> held" using assms(2) by (auto simp: exception_dispatch_def Let_def)
  then have "out = (if current_task_id k = None then Halted (fault_recorded f v k)
     else terminate_current_task (fault_recorded f v k))"
    using assms(2) exception_dispatch_Some [of f v k] by simp
  then show ?thesis
    using kernel_wf_fault_recorded [OF assms(1)] kernel_wf_sched_rel [OF _ sched_rel_terminate] by simp
qed

lemma terminate_faults_caught [simp]: "faults_caught (term_kernel (terminate_current_task k)) = faults_caught k"
  by (auto simp: terminate_current_task_def Let_def wake_senders_def mark_terminated_def modify_slot_def set_slot_def
      split: option.splits prod.splits)

lemma term_state_recorded: "term_state (fault_recorded f v k) d i = term_state k d i"
  by (simp add: term_state_def fault_recorded_slot)



text \<open>A fault in code that holds the scheduler lock is not contained: the handler waits for a lock that is never released.\<close>

lemma fault_under_lock_hangs: "exception_dispatch True f v k = None"
  by (simp add: exception_dispatch_def Let_def)

lemma fault_without_task_halts:
  "current_task_id k = None \<Longrightarrow> exception_dispatch False f v k = Some (Halted (fault_recorded f v k))"
  by (simp add: exception_dispatch_Some)

end
