(* ===== verification/Demos.thy ===== *)
theory Demos
  imports Revocation Traps Userspace
begin

text \<open>
  The demonstrations that boot can run: the capability demonstration of \<open>syscall/mod.rs\<close> and, from \<open>boot/main.rs\<close>, the
  loaders of the demonstration tasks, the watchdog with the service it restarts, and the experiment on the
  atomicity of check and use.
\<close>

subsection \<open>Placing a task\<close>

text \<open>\<open>sched.tasks[i] = Some(Task::new(TaskId(i), entry, caps))\<close>\<close>

definition place_task :: "task_id \<Rightarrow> u64 \<Rightarrow> cap_table \<Rightarrow> kernel \<Rightarrow> kernel run" where
  "place_task i entry caps k = run_bind (Task_new i entry caps k) (\<lambda>(t, k). Ret (set_slot i (Some t) k))"

text \<open>What it does to the kernel: slot \<open>i\<close> holds a fresh ready task with those capabilities.\<close>

definition placed :: "task_id \<Rightarrow> cap_table \<Rightarrow> kernel \<Rightarrow> kernel \<Rightarrow> bool" where
  "placed i caps k k' \<longleftrightarrow> kernel_wf k' \<and>
     (\<exists>t. get_task k' i = Some t \<and> t_state t = Ready \<and> t_caps t = caps \<and> t_msg_queue t = MessageQueue_new
        \<and> t_ipc_buffer t = None \<and> t_fault_registers t = None) \<and>
     (\<forall>j. j \<noteq> i \<longrightarrow> get_task k' j = get_task k j) \<and>
     (\<forall>p. cap_view k' p = (if fst p = i then cap_at caps (snd p) else cap_view k p)) \<and>
     audit k' = audit k \<and> next_cap_id_ctr k' = next_cap_id_ctr k \<and> current_task_id k' = current_task_id k \<and>
     preempt k' = preempt k \<and> k_layout k' = k_layout k \<and> tasks_spawned k' = tasks_spawned k + 1 \<and>
     faults_caught k' = faults_caught k \<and> (\<forall>n. has_frames n (mach k') = has_frames n (mach k))"

lemma Task_new_fields:
  "Task_new i entry caps k = Ret (t, k') \<Longrightarrow> t_id t = i \<and> t_msg_queue t = MessageQueue_new \<and> t_ipc_buffer t = None
     \<and> t_fault_registers t = None"
  by (auto simp: Task_new_def Let_def split: if_splits prod.splits)

lemma place_task_placed:
  assumes "kernel_wf k" and "i < MAX_TASKS" and "cap_table_wf caps"
  obtains k' where "place_task i entry caps k = Ret k'" and "placed i caps k k'"
proof -
  obtain t k1 where new: "Task_new i entry caps k = Ret (t, k1)"
    using assms(2) by (cases "Task_new i entry caps k") auto
  note f = Task_new_fields [OF new]
  have t: "t_id t = i" "t_state t = Ready" "t_caps t = caps" "t_msg_queue t = MessageQueue_new"
    "t_ipc_buffer t = None" "t_fault_registers t = None" "task_wf i t"
    using Task_new_wf [OF new assms(3)] f by auto
  have k1: "k1 = k\<lparr>tasks_spawned := tasks_spawned k + 1, mach := mach k1\<rparr>"
    by (rule Task_new_kernel [OF new])
  let ?k = "set_slot i (Some t) k1"
  have wf1: "kernel_wf k1" using assms(1) by (subst k1) (simp add: kernel_wf_def)
  have wf: "kernel_wf ?k" using wf1 t by (intro kernel_wf_set_slot) auto
  have get1: "get_task k1 j = get_task k j" for j by (subst k1) (simp add: get_task_def)
  have len: "i < length (tasks k1)" using wf1 assms(2) by (simp add: kernel_wf_def)
  have get: "get_task ?k j = (if j = i then Some t else get_task k j)" for j
    using len t(1) get1 by (simp add: get_task_set_slot)
  have "cap_view ?k p = (if fst p = i then cap_at caps (snd p) else cap_view k p)" for p
  proof (cases p)
    case (Pair a b)
    then show ?thesis
      using cap_view_get_task [OF wf, of a b] cap_view_get_task [OF assms(1), of a b] get t(3) by simp
  qed
  moreover have "audit k1 = audit k" "next_cap_id_ctr k1 = next_cap_id_ctr k" "current_task_id k1 = current_task_id k"
    "preempt k1 = preempt k" "k_layout k1 = k_layout k" "tasks_spawned k1 = tasks_spawned k + 1" "faults_caught k1 = faults_caught k"
    by (subst k1, simp)+
  ultimately have "placed i caps k ?k"
    using wf get t Task_new_frames [OF new] by (simp add: placed_def set_slot_def)
  then show ?thesis using that new by (simp add: place_task_def)
qed

lemma placedD:
  assumes "placed i caps k k'"
  shows "kernel_wf k'" "get_task k' i \<noteq> None" "\<And>j. j \<noteq> i \<Longrightarrow> get_task k' j = get_task k j"
    "\<And>s. cap_view k' (i, s) = cap_at caps s" "\<And>j s. j \<noteq> i \<Longrightarrow> cap_view k' (j, s) = cap_view k (j, s)"
    "next_cap_id_ctr k' = next_cap_id_ctr k" "audit k' = audit k"
  using assms by (auto simp: placed_def)

text \<open>A scheduling operation leaves every capability where it is.\<close>

lemma cap_view_sched_rel:
  assumes "kernel_wf k" "sched_rel k k'"
  shows "cap_view k' = cap_view k"
proof -
  have wf': "kernel_wf k'" by (rule kernel_wf_sched_rel [OF assms])
  have "cap_view k' p = cap_view k p" for p
    using sched_rel_get_task [OF assms(2), of "fst p"] same_task_fields cap_view_get_task [OF assms(1), of "fst p" "snd p"]
      cap_view_get_task [OF wf', of "fst p" "snd p"]
    by (cases "get_task k (fst p)"; cases "get_task k' (fst p)") auto
  then show ?thesis by (rule ext)
qed

lemma insert_new:
  "CapTable_insert c CapTable_new k =
     (Some 0, \<lparr>slots = (slots CapTable_new)[0 := Some (c\<lparr>cap_id := next_cap_id_ctr k\<rparr>)]\<rparr>,
      log_trace ''cap_insert'' (next_cap_id_ctr k) 0 (k\<lparr>next_cap_id_ctr := next_cap_id_ctr k + 1\<rparr>))"
proof -
  have "first_index (\<lambda>s. s = None) (slots CapTable_new) = Some 0"
    by (simp add: first_index_Some CapTable_new_def MAX_CAPS_def)
  then show ?thesis by (simp add: CapTable_insert_def next_cap_id_def Let_def CapTable_new_def)
qed

definition single_table :: "capability \<Rightarrow> cap_table" where
  "single_table c = \<lparr>slots = (slots CapTable_new)[0 := Some c]\<rparr>"

lemma single_table [simp]:
  "cap_table_wf (single_table c)" "cap_at (single_table c) s = (if s = 0 then Some c else None)"
  by (simp_all add: single_table_def cap_table_wf_def cap_at_def CapTable_new_def MAX_CAPS_def nth_list_update)

subsection \<open>The capability demonstration\<close>

definition demo_A :: task_id where "demo_A = 120"
definition demo_B :: task_id where "demo_B = 121"
definition demo_C :: task_id where "demo_C = 122"

definition demo_root_cap :: capability where
  "demo_root_cap = \<lparr>cap_resource = Serial, cap_read = True, cap_write = True, cap_grant = True, cap_sealed = False,
     cap_id = 0, cap_origin = None\<rparr>"

text \<open>\<open>sched.get_task(i).unwrap()\<close>\<close>

definition task_unwrap :: "task_id \<Rightarrow> kernel \<Rightarrow> task run" where
  "task_unwrap i k = (case get_task k i of Some t \<Rightarrow> Ret t | None \<Rightarrow> Panic)"

definition cap_unwrap :: "capability option \<times> kernel \<Rightarrow> (capability \<times> kernel) run" where
  "cap_unwrap r = (case r of (Some c, k) \<Rightarrow> Ret (c, k) | (None, _) \<Rightarrow> Panic)"

definition insert_unwrap :: "task_id \<Rightarrow> capability \<Rightarrow> kernel \<Rightarrow> (nat \<times> kernel) run" where
  "insert_unwrap i c k =
     run_bind (task_unwrap i k) (\<lambda>t.
       case CapTable_insert c (t_caps t) k of
         (Some s, caps, k) \<Rightarrow> Ret (s, update_task i (\<lambda>t. t\<lparr>t_caps := caps\<rparr>) k)
       | (None, _, _) \<Rightarrow> Panic)"

definition demo_setup :: "u64 \<Rightarrow> kernel \<Rightarrow> kernel run" where
  "demo_setup scratch_entry k =
     (let (_, a_caps, k) = CapTable_insert demo_root_cap CapTable_new k in
      run_bind (place_task demo_A scratch_entry a_caps k) (\<lambda>k.
      run_bind (place_task demo_B scratch_entry CapTable_new k) (\<lambda>k.
      place_task demo_C scratch_entry CapTable_new k)))"

definition demo_chain :: "kernel \<Rightarrow> (nat \<times> nat \<times> kernel) run" where
  "demo_chain k =
     run_bind (task_unwrap demo_A k) (\<lambda>ta.
     run_bind (cap_unwrap (CapTable_get (t_caps ta) 0 k)) (\<lambda>(from_a, k).
       let to_b = from_a\<lparr>cap_sealed := False, cap_origin := Some (cap_id from_a)\<rparr> in
     run_bind (insert_unwrap demo_B to_b k) (\<lambda>(b_slot, k).
     run_bind (task_unwrap demo_B k) (\<lambda>tb.
     run_bind (cap_unwrap (CapTable_get (t_caps tb) b_slot k)) (\<lambda>(cb, k).
       let b_id = cap_id cb;
           k = k\<lparr>audit := audit_record Grant demo_A demo_B (cap_resource to_b) b_slot (audit k)\<rparr>;
           to_c = to_b\<lparr>cap_origin := Some b_id\<rparr> in
     run_bind (insert_unwrap demo_C to_c k) (\<lambda>(c_slot, k).
       Ret (b_slot, c_slot, k\<lparr>audit := audit_record Grant demo_B demo_C (cap_resource to_c) c_slot (audit k)\<rparr>)))))))"

definition demo_revoke :: "kernel \<Rightarrow> kernel run" where
  "demo_revoke k =
     run_bind (task_unwrap demo_A k) (\<lambda>ta.
       case CapTable_kernel_revoke 0 (t_caps ta) k of
         (revoked, caps, k) \<Rightarrow>
           let k = update_task demo_A (\<lambda>t. t\<lparr>t_caps := caps\<rparr>) k in
           Ret (case revoked of
                  Some cap \<Rightarrow>
                    propagate_revocation (cap_id cap)
                      (k\<lparr>audit := audit_record Revoke KERNEL_ACTOR demo_A (cap_resource cap) 0 (audit k)\<rparr>)
                | None \<Rightarrow> k))"

text \<open>\<open>true\<close> when the demonstration prints \<open>PASS\<close>.\<close>

definition demo_verdict :: "nat \<Rightarrow> nat \<Rightarrow> kernel \<Rightarrow> (bool \<times> kernel) run" where
  "demo_verdict b_slot c_slot k =
     run_bind (task_unwrap demo_B k) (\<lambda>tb.
       case CapTable_get (t_caps tb) b_slot k of
         (b, k) \<Rightarrow>
           run_bind (task_unwrap demo_C k) (\<lambda>tc.
             case CapTable_get (t_caps tc) c_slot k of
               (c, k) \<Rightarrow> Ret (b = None \<and> c = None, k)))"

definition security_demo :: "u64 \<Rightarrow> kernel \<Rightarrow> (bool \<times> kernel) run" where
  "security_demo scratch_entry k =
     run_bind (demo_setup scratch_entry k) (\<lambda>k.
     run_bind (demo_chain k) (\<lambda>(b_slot, c_slot, k).
     run_bind (demo_revoke k) (\<lambda>k.
     run_bind (demo_verdict b_slot c_slot k) (\<lambda>(pass, k).
       Ret (pass, set_slot demo_C None (set_slot demo_B None (set_slot demo_A None k)))))))"

lemmas demo_ids = demo_A_def demo_B_def demo_C_def

definition scratch_task :: "task_id \<Rightarrow> bool" where
  "scratch_task i \<longleftrightarrow> i \<in> {demo_A, demo_B, demo_C}"

text \<open>Everything the other tasks hold, and their records.\<close>

definition same_elsewhere :: "kernel \<Rightarrow> kernel \<Rightarrow> bool" where
  "same_elsewhere k k' \<longleftrightarrow> (\<forall>j. \<not> scratch_task j \<longrightarrow> get_task k' j = get_task k j)"

lemma demo_setup_builds:
  assumes "kernel_wf k"
  obtains k' where "demo_setup entry k = Ret k'" and "kernel_wf k'" and "same_elsewhere k k'"
    and "\<And>s. cap_view k' (demo_A, s) = (if s = 0 then Some (demo_root_cap\<lparr>cap_id := next_cap_id_ctr k\<rparr>) else None)"
    and "\<And>s. cap_view k' (demo_B, s) = None" and "\<And>s. cap_view k' (demo_C, s) = None"
    and "next_cap_id_ctr k' = next_cap_id_ctr k + 1"
    and "get_task k' demo_A \<noteq> None" and "get_task k' demo_B \<noteq> None" and "get_task k' demo_C \<noteq> None"
proof -
  let ?c = "demo_root_cap\<lparr>cap_id := next_cap_id_ctr k\<rparr>"
  let ?k0 = "log_trace ''cap_insert'' (next_cap_id_ctr k) 0 (k\<lparr>next_cap_id_ctr := next_cap_id_ctr k + 1\<rparr>)"
  have wf0: "kernel_wf ?k0" using assms by simp
  have lt: "demo_A < MAX_TASKS" "demo_B < MAX_TASKS" "demo_C < MAX_TASKS" by (simp_all add: demo_ids MAX_TASKS_def)
  have ne: "demo_A \<noteq> demo_B" "demo_A \<noteq> demo_C" "demo_B \<noteq> demo_C" by (simp_all add: demo_ids)
  obtain k1 where 1: "place_task demo_A entry (single_table ?c) ?k0 = Ret k1" "placed demo_A (single_table ?c) ?k0 k1"
    using place_task_placed [OF wf0 lt(1)] by (metis single_table(1))
  obtain k2 where 2: "place_task demo_B entry CapTable_new k1 = Ret k2" "placed demo_B CapTable_new k1 k2"
    using place_task_placed [OF placedD(1) [OF 1(2)] lt(2)] by (metis cap_table_wf_new)
  obtain k3 where 3: "place_task demo_C entry CapTable_new k2 = Ret k3" "placed demo_C CapTable_new k2 k3"
    using place_task_placed [OF placedD(1) [OF 2(2)] lt(3)] by (metis cap_table_wf_new)
  note p1 = placedD [OF 1(2)] and p2 = placedD [OF 2(2)] and p3 = placedD [OF 3(2)]
  have "demo_setup entry k = Ret k3"
    using 1(1) 2(1) 3(1) by (simp add: demo_setup_def insert_new single_table_def)
  moreover have "same_elsewhere k k3"
    using p1(3) p2(3) p3(3) by (simp add: same_elsewhere_def scratch_task_def)
  ultimately show ?thesis
    using that [of k3] p1 p2 p3 ne by simp
qed

lemma insert_unwrap_first:
  assumes wf: "kernel_wf k" and t: "get_task k i = Some t" and free: "cap_view k (i, 0) = None"
  obtains k' where "insert_unwrap i c k = Ret (0, k')" and "kernel_wf k'"
    and "cap_view k' = (cap_view k)((i, 0) := Some (c\<lparr>cap_id := next_cap_id_ctr k\<rparr>))"
    and "next_cap_id_ctr k' = next_cap_id_ctr k + 1"
    and "\<And>j. j \<noteq> i \<Longrightarrow> get_task k' j = get_task k j" and "get_task k' i \<noteq> None"
    and "preempt k' = preempt k"
proof -
  obtain r caps k1 where ins: "CapTable_insert c (t_caps t) k = (r, caps, k1)" using prod_cases3 by blast
  have twf: "cap_table_wf (t_caps t)" using kernel_wf_task [OF wf t] by (simp add: task_wf_def)
  have free': "cap_at (t_caps t) 0 = None" using free t cap_view_get_task [OF wf] by simp
  have "r \<noteq> None"
  proof
    assume "r = None"
    then have "cap_at (t_caps t) 0 \<noteq> None"
      using CapTable_insert_None [OF twf, of c k caps k1] ins by (simp add: MAX_CAPS_def)
    then show False using free' by simp
  qed
  then obtain s where s: "r = Some s" by auto
  note ci = CapTable_insert_Some [OF twf ins [unfolded s]]
  have s0: "s = 0" using ci free' by (metis not_gr_zero)
  note same = same_but_trace_kernel [OF CapTable_insert_globals [OF ins]]
  have wf1: "kernel_wf k1" using same(7) wf by simp
  have t1: "get_task k1 i = Some t" using same(6) [of i] t by simp
  let ?k = "update_task i (\<lambda>t. t\<lparr>t_caps := caps\<rparr>) k1"
  note up = cap_view_update_caps [OF wf1 t1, of caps 0 "Some (c\<lparr>cap_id := next_cap_id_ctr k\<rparr>)"]
  have "cap_view k1 = cap_view k"
    using cap_view_same_but_trace [OF CapTable_insert_globals [OF ins]] by simp
  then have "cap_view ?k = (cap_view k)((i, 0) := Some (c\<lparr>cap_id := next_cap_id_ctr k\<rparr>))" "kernel_wf ?k"
    using up ci s0 CapTable_insert_wf [OF twf ins] by simp_all
  moreover have "get_task ?k j = (if j = i then Some (t\<lparr>t_caps := caps\<rparr>) else get_task k j)" for j
    using t1 same(6) [of j] by (simp add: get_task_update_task)
  ultimately show ?thesis
    using that [of ?k] t ins s s0 same(5,8) by (simp add: insert_unwrap_def task_unwrap_def)
qed

lemma cap_unwrap_get:
  assumes "kernel_wf k" "get_task k i = Some t" "cap_view k (i, s) = Some c"
  shows "cap_unwrap (CapTable_get (t_caps t) s k) = Ret (c, snd (CapTable_get (t_caps t) s k))"
proof -
  have "fst (CapTable_get (t_caps t) s k) = Some c"
    using assms cap_view_get_task [OF assms(1)] by simp
  then show ?thesis by (cases "CapTable_get (t_caps t) s k") (simp add: cap_unwrap_def)
qed

lemma same_trace_facts:
  assumes "same_but_trace k k'"
  shows "kernel_wf k' = kernel_wf k" "cap_view k' = cap_view k" "next_cap_id_ctr k' = next_cap_id_ctr k"
    "get_task k' i = get_task k i"
  using same_but_trace_kernel [OF assms] cap_view_same_but_trace [OF assms] by simp_all

lemma audit_facts [simp]:
  "get_task (k\<lparr>audit := a\<rparr>) i = get_task k i" "cap_view (k\<lparr>audit := a\<rparr>) = cap_view k"
  by (simp_all add: get_task_def)

lemma kernel_wf_audit: "kernel_wf k \<Longrightarrow> audit_inv a \<Longrightarrow> kernel_wf (k\<lparr>audit := a\<rparr>)"
  by (simp add: kernel_wf_def)

lemma kernel_wf_recorded: "kernel_wf k \<Longrightarrow> kernel_wf (k\<lparr>audit := audit_record kd a b r s (audit k)\<rparr>)"
  by (simp add: kernel_wf_def)

lemma demo_chain_builds:
  assumes wf: "kernel_wf k" and a: "cap_view k (demo_A, 0) = Some root" and "get_task k demo_A \<noteq> None"
    and b: "cap_view k (demo_B, 0) = None" "get_task k demo_B \<noteq> None"
    and c: "cap_view k (demo_C, 0) = None" "get_task k demo_C \<noteq> None"
  obtains k' where "demo_chain k = Ret (0, 0, k')" and "kernel_wf k'" and "same_elsewhere k k'"
    and "cap_view k' = (cap_view k)
      ((demo_B, 0) := Some (root\<lparr>cap_sealed := False, cap_origin := Some (cap_id root), cap_id := next_cap_id_ctr k\<rparr>),
       (demo_C, 0) := Some (root\<lparr>cap_sealed := False, cap_origin := Some (next_cap_id_ctr k), cap_id := next_cap_id_ctr k + 1\<rparr>))"
    and "next_cap_id_ctr k' = next_cap_id_ctr k + 2"
    and "\<And>j. scratch_task j \<Longrightarrow> get_task k' j \<noteq> None"
proof -
  have ne: "demo_A \<noteq> demo_B" "demo_A \<noteq> demo_C" "demo_B \<noteq> demo_C" by (simp_all add: demo_ids)
  obtain ta where ta: "get_task k demo_A = Some ta" using assms(3) by auto
  obtain tb where tb: "get_task k demo_B = Some tb" using b by auto
  obtain tc where tc: "get_task k demo_C = Some tc" using c by auto
  let ?k1 = "snd (CapTable_get (t_caps ta) 0 k)"
  note s1 = same_trace_facts [OF CapTable_get_same [of k "t_caps ta" 0]]
  let ?to_b = "root\<lparr>cap_sealed := False, cap_origin := Some (cap_id root)\<rparr>"
  have "kernel_wf ?k1" "get_task ?k1 demo_B = Some tb" "cap_view ?k1 (demo_B, 0) = None"
    using s1 wf tb b by simp_all
  from insert_unwrap_first [OF this, of ?to_b] obtain k2 where
    i2: "insert_unwrap demo_B ?to_b ?k1 = Ret (0, k2)" "kernel_wf k2"
    "cap_view k2 = (cap_view k)((demo_B, 0) := Some (?to_b\<lparr>cap_id := next_cap_id_ctr k\<rparr>))"
    "next_cap_id_ctr k2 = next_cap_id_ctr k + 1"
    "\<And>j. j \<noteq> demo_B \<Longrightarrow> get_task k2 j = get_task k j" "get_task k2 demo_B \<noteq> None"
    using s1 by metis
  obtain tb2 where tb2: "get_task k2 demo_B = Some tb2" using i2(6) by auto
  let ?k3 = "snd (CapTable_get (t_caps tb2) 0 k2)"
  note s3 = same_trace_facts [OF CapTable_get_same [of k2 "t_caps tb2" 0]]
  let ?k4 = "?k3\<lparr>audit := audit_record Grant demo_A demo_B (cap_resource ?to_b) 0 (audit ?k3)\<rparr>"
  let ?to_c = "?to_b\<lparr>cap_origin := Some (next_cap_id_ctr k)\<rparr>"
  have "kernel_wf ?k4" using s3 i2(2) by (intro kernel_wf_recorded) simp
  moreover have "get_task ?k4 demo_C = Some tc" using s3 i2(5) [of demo_C] ne tc by simp
  moreover have "cap_view ?k4 (demo_C, 0) = None" using s3 i2(3) c ne by simp
  ultimately obtain k5 where
    i5: "insert_unwrap demo_C ?to_c ?k4 = Ret (0, k5)" "kernel_wf k5"
    "cap_view k5 = (cap_view ?k4)((demo_C, 0) := Some (?to_c\<lparr>cap_id := next_cap_id_ctr ?k4\<rparr>))"
    "next_cap_id_ctr k5 = next_cap_id_ctr ?k4 + 1"
    "\<And>j. j \<noteq> demo_C \<Longrightarrow> get_task k5 j = get_task ?k4 j" "get_task k5 demo_C \<noteq> None"
    using insert_unwrap_first [of ?k4 demo_C tc ?to_c] by metis
  let ?k6 = "k5\<lparr>audit := audit_record Grant demo_B demo_C (cap_resource ?to_c) 0 (audit k5)\<rparr>"
  have "cap_unwrap (CapTable_get (t_caps ta) 0 k) = Ret (root, ?k1)"
    by (rule cap_unwrap_get [OF wf ta a])
  moreover have "cap_unwrap (CapTable_get (t_caps tb2) 0 k2) = Ret (?to_b\<lparr>cap_id := next_cap_id_ctr k\<rparr>, ?k3)"
    by (rule cap_unwrap_get [OF i2(2) tb2]) (simp add: i2(3))
  ultimately have "demo_chain k = Ret (0, 0, ?k6)"
    using ta tb2 i2(1) i5(1) by (simp add: demo_chain_def task_unwrap_def)
  moreover have "kernel_wf ?k6" by (rule kernel_wf_recorded [OF i5(2)])
  moreover have "same_elsewhere k ?k6"
    using i5(5) i2(5) s3 by (simp add: same_elsewhere_def scratch_task_def)
  moreover have "cap_view ?k6 = (cap_view k)
      ((demo_B, 0) := Some (root\<lparr>cap_sealed := False, cap_origin := Some (cap_id root), cap_id := next_cap_id_ctr k\<rparr>),
       (demo_C, 0) := Some (root\<lparr>cap_sealed := False, cap_origin := Some (next_cap_id_ctr k), cap_id := next_cap_id_ctr k + 1\<rparr>))"
    using i5(3) i2(3,4) s3 by simp
  moreover have "next_cap_id_ctr ?k6 = next_cap_id_ctr k + 2"
    using i5(4) i2(4) s3 by simp
  moreover have "get_task ?k6 j \<noteq> None" if "scratch_task j" for j
    using that i5(5) [of j] i5(6) i2(5) [of j] i2(6) s3(4) [of j] ta ne by (auto simp: scratch_task_def)
  ultimately show ?thesis using that by blast
qed

lemma demo_revoke_view:
  assumes wf: "kernel_wf k" and a: "cap_view k (demo_A, 0) = Some root" and ta: "get_task k demo_A = Some ta"
  obtains k1 k' where "demo_revoke k = Ret k'" and "kernel_wf k1" and "kernel_wf k'"
    and "k' = propagate_revocation (cap_id root) k1" and "cap_view k1 = (cap_view k)((demo_A, 0) := None)"
    and "\<And>j. rel_option same_but_caps (get_task k j) (get_task k' j)"
proof -
  obtain r caps k0 where rv: "CapTable_kernel_revoke 0 (t_caps ta) k = (r, caps, k0)" using prod_cases3 by blast
  have twf: "cap_table_wf (t_caps ta)" using kernel_wf_task [OF wf ta] by (simp add: task_wf_def)
  note sp = CapTable_kernel_revoke_spec [OF twf rv]
  note s0 = same_trace_facts [OF CapTable_kernel_revoke_same [OF rv]]
  have r: "r = Some root" using sp a ta cap_view_get_task [OF wf] by simp
  let ?u = "update_task demo_A (\<lambda>t. t\<lparr>t_caps := caps\<rparr>) k0"
  let ?k1 = "?u\<lparr>audit := audit_record Revoke KERNEL_ACTOR demo_A (cap_resource root) 0 (audit ?u)\<rparr>"
  let ?k' = "propagate_revocation (cap_id root) ?k1"
  have "kernel_wf k0" "get_task k0 demo_A = Some ta" using s0 wf ta by simp_all
  note up = cap_view_update_caps [OF this, of caps 0 None]
  have wf1: "kernel_wf ?k1"
    using up(2) sp CapTable_kernel_revoke_wf [OF twf rv] by (intro kernel_wf_recorded) simp
  have view: "cap_view ?k1 = (cap_view k)((demo_A, 0) := None)"
    using up(1) sp s0 CapTable_kernel_revoke_wf [OF twf rv] by simp
  have "rel_option same_but_caps (get_task k j) (get_task ?k1 j)" for j
    using s0(4) [of j] s0(4) [of demo_A] ta
    by (cases "get_task k j") (auto simp: get_task_update_task same_but_caps_def)
  moreover have "rel_option same_but_caps (get_task ?k1 j) (get_task ?k' j)" for j
    using get_task_same_caps [OF propagate_revocation_frame(2) [OF wf1]] by simp
  ultimately have rel: "rel_option same_but_caps (get_task k j) (get_task ?k' j)" for j
    using rel_caps_trans by blast
  have "demo_revoke k = Ret ?k'"
    using ta rv r by (simp add: demo_revoke_def task_unwrap_def)
  then show ?thesis
    using that [OF _ wf1 propagate_revocation_frame(1) [OF wf1] refl view rel] by simp
qed

lemma demo_verdict_reads:
  assumes "kernel_wf k" "get_task k demo_B \<noteq> None" "get_task k demo_C \<noteq> None"
  obtains k' where "demo_verdict 0 0 k = Ret (cap_view k (demo_B, 0) = None \<and> cap_view k (demo_C, 0) = None, k')"
    and "same_but_trace k k'"
proof -
  obtain tb tc where t: "get_task k demo_B = Some tb" "get_task k demo_C = Some tc" using assms by auto
  obtain x k1 where x: "CapTable_get (t_caps tb) 0 k = (x, k1)" by fastforce
  have s1: "same_but_trace k k1" using CapTable_get_same [of k "t_caps tb" 0] x by simp
  obtain y k2 where y: "CapTable_get (t_caps tc) 0 k1 = (y, k2)" by fastforce
  have s2: "same_but_trace k1 k2" using CapTable_get_same [of k1 "t_caps tc" 0] y by simp
  have "x = cap_view k (demo_B, 0)" "y = cap_view k (demo_C, 0)"
    using CapTable_get_fst [of "t_caps tb" 0 k] CapTable_get_fst [of "t_caps tc" 0 k1] x y t
      cap_view_get_task [OF assms(1)] by simp_all
  then have "demo_verdict 0 0 k = Ret (cap_view k (demo_B, 0) = None \<and> cap_view k (demo_C, 0) = None, k2)"
    using t x y same_trace_facts(4) [OF s1] by (simp add: demo_verdict_def task_unwrap_def)
  then show ?thesis using that s1 s2 by (metis same_but_trace_trans)
qed

text \<open>The capability demonstration.  From any well-formed kernel it runs to its end without a failed unwrap and reports
  success: revoking the capability at the root of the chain takes the two capabilities derived from it.  It leaves no
  scratch task behind, and when no other capability claims to be derived from one of the three identities it draws,
  every other task holds exactly the capabilities it held before.\<close>

theorem security_demo_passes:
  assumes wf: "kernel_wf k"
  defines "n \<equiv> next_cap_id_ctr k"
  shows "\<exists>k'. security_demo entry k = Ret (True, k') \<and> kernel_wf k' \<and>
     (\<forall>i. scratch_task i \<longrightarrow> get_task k' i = None) \<and>
     ((\<forall>i s c. \<not> scratch_task i \<longrightarrow> cap_view k (i, s) = Some c \<longrightarrow> cap_origin c \<notin> {Some n, Some (n + 1), Some (n + 2)}) \<longrightarrow>
      (\<forall>i s. \<not> scratch_task i \<longrightarrow> cap_view k' (i, s) = cap_view k (i, s)))"
proof -
  let ?root = "demo_root_cap\<lparr>cap_id := n\<rparr>"
  have ne: "demo_A \<noteq> demo_B" "demo_A \<noteq> demo_C" "demo_B \<noteq> demo_C" by (simp_all add: demo_ids)
  obtain k1 where 1: "demo_setup entry k = Ret k1" "kernel_wf k1" "same_elsewhere k k1"
    "\<And>s. cap_view k1 (demo_A, s) = (if s = 0 then Some ?root else None)"
    "\<And>s. cap_view k1 (demo_B, s) = None" "\<And>s. cap_view k1 (demo_C, s) = None"
    "next_cap_id_ctr k1 = n + 1"
    "get_task k1 demo_A \<noteq> None" "get_task k1 demo_B \<noteq> None" "get_task k1 demo_C \<noteq> None"
    by (rule demo_setup_builds [OF wf, of entry, folded n_def]) (rule that; assumption)
  have "cap_view k1 (demo_A, 0) = Some ?root" using 1(4) by simp
  note build = demo_chain_builds [OF 1(2) this 1(8) 1(5) 1(9) 1(6) 1(10)]
  obtain k2 where 2: "demo_chain k1 = Ret (0, 0, k2)" "kernel_wf k2" "same_elsewhere k1 k2"
    "cap_view k2 = (cap_view k1)
      ((demo_B, 0) := Some (?root\<lparr>cap_sealed := False, cap_origin := Some n, cap_id := n + 1\<rparr>),
       (demo_C, 0) := Some (?root\<lparr>cap_sealed := False, cap_origin := Some (n + 1), cap_id := 2 + n\<rparr>))"
    "\<And>j. scratch_task j \<Longrightarrow> get_task k2 j \<noteq> None"
    by (rule build) (rule that; simp add: 1(7) demo_root_cap_def)
  obtain ta where ta: "get_task k2 demo_A = Some ta" using 2(5) [of demo_A] by (auto simp: scratch_task_def)
  have "cap_view k2 (demo_A, 0) = Some ?root" using 2(4) 1(4) ne by simp
  note revoke = demo_revoke_view [OF 2(2) this ta]
  obtain k3 k4 where 4: "demo_revoke k2 = Ret k4" "kernel_wf k3" "kernel_wf k4" "k4 = propagate_revocation n k3"
    "cap_view k3 = (cap_view k2)((demo_A, 0) := None)"
    "\<And>j. rel_option same_but_caps (get_task k2 j) (get_task k4 j)"
    by (rule revoke) (rule that; simp)
  have v3: "cap_view k3 (demo_B, 0) = Some (?root\<lparr>cap_sealed := False, cap_origin := Some n, cap_id := n + 1\<rparr>)"
    "cap_view k3 (demo_C, 0) = Some (?root\<lparr>cap_sealed := False, cap_origin := Some (n + 1), cap_id := 2 + n\<rparr>)"
    using 4(5) 2(4) ne by simp_all
  have lin: "n \<in> lineage k3 n" "n + 1 \<in> lineage k3 n"
    using lineage.root lineage.derived [OF v3(1)] by simp_all
  have gone: "cap_view k4 (demo_B, 0) = None" "cap_view k4 (demo_C, 0) = None"
    using propagate_revocation_view [OF 4(2)] v3 lin 4(4) by (auto simp: in_lineage_def)
  have "get_task k4 demo_B \<noteq> None" "get_task k4 demo_C \<noteq> None"
    using 4(6) [of demo_B] 4(6) [of demo_C] 2(5) by (auto simp: scratch_task_def option_rel_Some1 option.rel_sel)
  from demo_verdict_reads [OF 4(3) this] obtain k5 where
    5: "demo_verdict 0 0 k4 = Ret (True, k5)" "same_but_trace k4 k5" using gone by auto
  let ?k' = "set_slot demo_C None (set_slot demo_B None (set_slot demo_A None k5))"
  have run: "security_demo entry k = Ret (True, ?k')"
    using 1(1) 2(1) 4(1) 5(1) by (simp add: security_demo_def)
  have wf5: "kernel_wf k5" using same_trace_facts(1) [OF 5(2)] 4(3) by simp
  have wf': "kernel_wf ?k'" using wf5 by (intro kernel_wf_set_slot) simp_all
  have len: "length (tasks k5) = MAX_TASKS" using wf5 by (simp add: kernel_wf_def)
  have get': "get_task ?k' i = (if scratch_task i then None else get_task k5 i)" for i
    using len by (auto simp: get_task_def set_slot_def scratch_task_def nth_list_update demo_ids MAX_TASKS_def)
  have keep: "cap_view ?k' (i, s) = cap_view k (i, s)"
    if fresh: "\<forall>i s c. \<not> scratch_task i \<longrightarrow> cap_view k (i, s) = Some c \<longrightarrow> cap_origin c \<notin> {Some n, Some (n + 1), Some (n + 2)}"
      and i: "\<not> scratch_task i" for i s
  proof -
    have elsewhere: "cap_view k3 (j, s) = cap_view k (j, s)" if "\<not> scratch_task j" for j s
    proof -
      have "cap_view k3 (j, s) = cap_view k1 (j, s)" using that 4(5) 2(4) by (auto simp: scratch_task_def)
      also have "\<dots> = cap_view k (j, s)"
        using that 1(3) cap_view_get_task [OF 1(2)] cap_view_get_task [OF wf] by (simp add: same_elsewhere_def)
      finally show ?thesis .
    qed
    have scratch: "cap_id c \<in> {n + 1, n + 2}" if "scratch_task j" "cap_view k3 (j, s) = Some c" for j s c
      using that 4(5) 2(4) 1(4-6) ne by (auto simp: scratch_task_def split: if_splits)
    have "x \<in> {n, n + 1, n + 2}" if "x \<in> lineage k3 n" for x
      using that
    proof (induction rule: lineage.induct)
      case (derived p c pid)
      obtain j s where p: "p = (j, s)" by (cases p)
      have "scratch_task j"
        using derived fresh elsewhere [of j s] p by (cases "scratch_task j") auto
      then show ?case using scratch derived(1) p by blast
    qed simp
    then have "\<not> in_lineage k3 n c" if "cap_view k3 (i, s) = Some c" for c
      using that fresh i elsewhere [OF i, of s] by (auto simp: in_lineage_def)
    then have "cap_view k4 (i, s) = cap_view k (i, s)"
      using propagate_revocation_view [OF 4(2), of n "(i, s)"] elsewhere [OF i, of s] 4(4)
      by (simp split: option.split)
    moreover have "cap_view ?k' (i, s) = cap_view k5 (i, s)"
      using cap_view_get_task [OF wf'] cap_view_get_task [OF wf5] get' i by simp
    ultimately show ?thesis using same_trace_facts(2) [OF 5(2)] by simp
  qed
  show ?thesis
    using run wf' get' keep by (intro exI [of _ ?k']) simp
qed

theorem security_demo_passes_witness:
  "\<exists>k'. security_demo 0x5000 (sample_kernel Ready) = Ret (True, k')
     \<and> cap_view k' (2, 0) = cap_view (sample_kernel Ready) (2, 0)"
proof -
  have "cap_origin c \<notin> {Some 9, Some (9 + 1), Some (9 + 2)}"
    if "cap_view (sample_kernel Ready) (i, s) = Some c" for i s c
    using that by (auto simp: sample_cap_view channel_cap_def split: if_splits)
  moreover have "\<not> scratch_task 2" by (simp add: scratch_task_def demo_ids)
  ultimately show ?thesis
    using security_demo_passes [OF kernel_wf_sample, of "0x5000" Ready] by fastforce
qed

subsection \<open>The experiment on check and use\<close>

definition PREEMPT_VICTIM :: task_id where "PREEMPT_VICTIM = 93"
definition PREEMPT_SERVER :: task_id where "PREEMPT_SERVER = 94"

definition victim_cap :: capability where
  "victim_cap = \<lparr>cap_resource = IpcChannel PREEMPT_SERVER, cap_read = True, cap_write = True, cap_grant = False,
     cap_sealed = False, cap_id = 0, cap_origin = None\<rparr>"

definition install_victim_cap :: "kernel \<Rightarrow> ((nat \<times> u64) \<times> kernel) run" where
  "install_victim_cap k =
     run_bind (task_unwrap PREEMPT_VICTIM k) (\<lambda>t.
       case CapTable_kernel_revoke 0 (t_caps t) k of
         (_, caps, k) \<Rightarrow>
           let k = update_task PREEMPT_VICTIM (\<lambda>t. t\<lparr>t_caps := caps\<rparr>) k in
           run_bind (insert_unwrap PREEMPT_VICTIM victim_cap k) (\<lambda>(slot, k).
           run_bind (task_unwrap PREEMPT_VICTIM k) (\<lambda>t.
           run_bind (cap_unwrap (CapTable_get (t_caps t) slot k)) (\<lambda>(c, k).
             Ret ((slot, cap_id c), k)))))"

definition victim_cap_id :: "nat \<Rightarrow> kernel \<Rightarrow> u64 option \<times> kernel" where
  "victim_cap_id slot k =
     (case get_task k PREEMPT_VICTIM of
        None \<Rightarrow> (None, k)
      | Some t \<Rightarrow> (case CapTable_get (t_caps t) slot k of (c, k) \<Rightarrow> (map_option cap_id c, k)))"

text \<open>The loop that spins until a tick has landed in the window; \<open>env\<close> is what happens to the kernel, by interrupts, at each
  of its iterations.\<close>

definition SPIN_BOUND :: nat where
  "SPIN_BOUND = 200000000"

function spin_loop :: "(nat \<Rightarrow> kernel \<Rightarrow> kernel) \<Rightarrow> nat \<Rightarrow> kernel \<Rightarrow> kernel" where
  "spin_loop env spins k =
     (if window_ticks (preempt k) = 0 \<and> spins < SPIN_BOUND then spin_loop env (spins + 1) (env spins k) else k)"
  by auto

termination
  by (relation "measure (\<lambda>(_, spins, _). SPIN_BOUND - spins)") auto

declare spin_loop.simps [simp del]

definition spin_until_window_tick :: "(nat \<Rightarrow> kernel \<Rightarrow> kernel) \<Rightarrow> kernel \<Rightarrow> u64 \<times> kernel" where
  "spin_until_window_tick env k = (let k = spin_loop env 0 k in (window_ticks (preempt k), k))"

text \<open>The two halves of the experiment, each with its verdict: whether the race landed in the open window, and whether the
  guarded one kept the capability.\<close>

definition vulnerable_phase :: "(nat \<Rightarrow> kernel \<Rightarrow> kernel) \<Rightarrow> nat \<Rightarrow> kernel \<Rightarrow> bool \<times> kernel" where
  "vulnerable_phase env slot k =
     (let k = reset_window_ticks (arm_adversary PREEMPT_VICTIM slot k);
          (validated, k) = victim_cap_id slot k;
          k = enter_ipc_window k;
          (wt_vuln, k) = spin_until_window_tick env k;
          k = exit_ipc_window k;
          (at_use, k) = victim_cap_id slot k;
          fired = adversary_fired_in_window k
      in (case (validated, at_use) of (Some v, None) \<Rightarrow> fired | _ \<Rightarrow> False, k))"

definition guarded_phase :: "(nat \<Rightarrow> kernel \<Rightarrow> kernel) \<Rightarrow> nat \<Rightarrow> kernel \<Rightarrow> bool \<times> kernel" where
  "guarded_phase env slot2 k =
     (let k = reset_window_ticks (arm_adversary PREEMPT_VICTIM slot2 k);
          k = enter_critical k;
          (validated2, k) = victim_cap_id slot2 k;
          k = enter_ipc_window k;
          (wt_guard, k) = spin_until_window_tick env k;
          k = exit_ipc_window k;
          (at_use2, k) = victim_cap_id slot2 k;
          k = exit_critical k;
          fired2 = adversary_fired_in_window k
      in (case (validated2, at_use2) of (Some v, Some u) \<Rightarrow> v = u \<and> \<not> fired2 | _ \<Rightarrow> False, k))"

definition ipc_toctou_experiment ::
  "(nat \<Rightarrow> kernel \<Rightarrow> kernel) \<Rightarrow> (nat \<Rightarrow> kernel \<Rightarrow> kernel) \<Rightarrow> kernel \<Rightarrow> (bool \<times> bool \<times> kernel) run" where
  "ipc_toctou_experiment env env2 k =
     run_bind (install_victim_cap (k\<lparr>mach := sti (mach k)\<rparr>)) (\<lambda>((slot, _), k).
       let (vulnerable, k) = vulnerable_phase env slot k
       in run_bind (install_victim_cap k) (\<lambda>((slot2, _), k).
            let (guarded, k) = guarded_phase env2 slot2 k
            in Ret (vulnerable, guarded, disarm_adversary k)))"

text \<open>A tick arrives at the iterations \<open>arrives\<close> names; if it takes the processor away, \<open>others\<close> is what the other tasks do until
  the driver runs again.  They leave the victim's capabilities and the flags of the experiment alone.\<close>

definition tick_env :: "(nat \<Rightarrow> bool) \<Rightarrow> (kernel \<Rightarrow> kernel) \<Rightarrow> nat \<Rightarrow> kernel \<Rightarrow> kernel" where
  "tick_env arrives others i k = (if arrives i then others (timer_isr False k) else k)"

definition table_of :: "task_id \<Rightarrow> kernel \<Rightarrow> cap_table option" where
  "table_of v k = map_option t_caps (get_task k v)"

abbreviation victim_caps :: "kernel \<Rightarrow> cap_table option" where
  "victim_caps \<equiv> table_of PREEMPT_VICTIM"

definition same_flags :: "preempt_state \<Rightarrow> preempt_state \<Rightarrow> bool" where
  "same_flags p q \<longleftrightarrow> armed q = armed p \<and> preempt_count q = preempt_count p \<and> in_ipc_window q = in_ipc_window p
     \<and> pending_revoke q = pending_revoke p \<and> pending_revoke_task q = pending_revoke_task p
     \<and> revoke_fired_in_window q = revoke_fired_in_window p \<and> window_ticks q = window_ticks p"

definition leaves_task :: "task_id \<Rightarrow> (kernel \<Rightarrow> kernel) \<Rightarrow> bool" where
  "leaves_task v others \<longleftrightarrow> (\<forall>k. kernel_wf k \<longrightarrow> kernel_wf (others k) \<and> table_of v (others k) = table_of v k
     \<and> same_flags (preempt k) (preempt (others k)))"

abbreviation leaves_experiment :: "(kernel \<Rightarrow> kernel) \<Rightarrow> bool" where
  "leaves_experiment \<equiv> leaves_task PREEMPT_VICTIM"

lemma table_of_frame [simp]:
  "table_of v (k\<lparr>preempt := p\<rparr>) = table_of v k" "table_of v (k\<lparr>mach := m\<rparr>) = table_of v k"
  by (simp_all add: table_of_def get_task_def)

lemma table_of_same: "same_but_trace k k' \<Longrightarrow> table_of v k' = table_of v k"
  using same_but_trace_kernel(6) by (simp add: table_of_def)

lemma victim_caps_view:
  "kernel_wf k \<Longrightarrow> victim_caps k = Some caps \<Longrightarrow> cap_view k (PREEMPT_VICTIM, s) = cap_at caps s"
  by (auto simp: cap_view_get_task table_of_def)

lemma victim_cap_id_reads:
  assumes "victim_caps k = Some caps"
  obtains k' where "victim_cap_id s k = (map_option cap_id (cap_at caps s), k')" and "same_but_trace k k'"
proof -
  obtain t where t: "get_task k PREEMPT_VICTIM = Some t" "t_caps t = caps"
    using assms by (auto simp: table_of_def)
  have "victim_cap_id s k = (map_option cap_id (cap_at caps s), snd (CapTable_get caps s k))"
    using t CapTable_get_fst [of caps s k] by (cases "CapTable_get caps s k") (simp add: victim_cap_id_def)
  then show ?thesis using that CapTable_get_same by blast
qed

lemma install_victim_cap_installs:
  assumes wf: "kernel_wf k" and "victim_caps k \<noteq> None"
  obtains c k' caps where "install_victim_cap k = Ret ((0, c), k')" and "kernel_wf k'"
    and "victim_caps k' = Some caps" and "map_option cap_id (cap_at caps 0) = Some c" and "preempt k' = preempt k"
proof -
  obtain t where t: "get_task k PREEMPT_VICTIM = Some t" using assms(2) by (auto simp: table_of_def)
  obtain r caps k1 where rv: "CapTable_kernel_revoke 0 (t_caps t) k = (r, caps, k1)" using prod_cases3 by blast
  have twf: "cap_table_wf (t_caps t)" using kernel_wf_task [OF wf t] by (simp add: task_wf_def)
  note sp = CapTable_kernel_revoke_spec [OF twf rv]
  note s1 = same_but_trace_kernel [OF CapTable_kernel_revoke_same [OF rv]]
  let ?k2 = "update_task PREEMPT_VICTIM (\<lambda>t. t\<lparr>t_caps := caps\<rparr>) k1"
  have k1: "kernel_wf k1" "get_task k1 PREEMPT_VICTIM = Some t" using s1(6,7) wf t by simp_all
  note up = cap_view_update_caps [OF k1, of caps 0 None]
  have wf2: "kernel_wf ?k2" using up(2) sp CapTable_kernel_revoke_wf [OF twf rv] by simp
  have t2: "get_task ?k2 PREEMPT_VICTIM = Some (t\<lparr>t_caps := caps\<rparr>)" using k1 by (simp add: get_task_update_task)
  have free: "cap_view ?k2 (PREEMPT_VICTIM, 0) = None"
    using up(1) sp CapTable_kernel_revoke_wf [OF twf rv] by simp
  note ins = insert_unwrap_first [OF wf2 t2 free, of victim_cap]
  obtain k3 where 3: "insert_unwrap PREEMPT_VICTIM victim_cap ?k2 = Ret (0, k3)" "kernel_wf k3"
    "cap_view k3 (PREEMPT_VICTIM, 0) = Some (victim_cap\<lparr>cap_id := next_cap_id_ctr ?k2\<rparr>)"
    "get_task k3 PREEMPT_VICTIM \<noteq> None" "preempt k3 = preempt k1"
    by (rule ins) (rule that, assumption, assumption, simp_all)
  obtain t3 where t3: "get_task k3 PREEMPT_VICTIM = Some t3" using 3(4) by auto
  let ?k4 = "snd (CapTable_get (t_caps t3) 0 k3)"
  note s4 = same_but_trace_kernel [OF CapTable_get_same [of k3 "t_caps t3" 0]]
  have "install_victim_cap k = Ret ((0, next_cap_id_ctr ?k2), ?k4)"
    using t rv 3(1) t3 cap_unwrap_get [OF 3(2) t3 3(3)] by (simp add: install_victim_cap_def task_unwrap_def)
  moreover have "victim_caps ?k4 = Some (t_caps t3)" using t3 s4(6) by (simp add: table_of_def)
  moreover have "cap_at (t_caps t3) 0 = Some (victim_cap\<lparr>cap_id := next_cap_id_ctr ?k2\<rparr>)"
    using 3(3) t3 cap_view_get_task [OF 3(2)] by simp
  ultimately show ?thesis using that s4(5,7) s1(5) 3(2,5) by simp
qed

lemma preempt_switching:
  "preempt (log_trace s x y k) = preempt k" "preempt (hand_over c n k) = preempt k" "preempt (switch_context r a b k) = preempt k"
  by (auto simp: log_trace_def hand_over_def switch_context_def modify_slot_def set_slot_def Let_def split: option.split prod.split)

lemma preempt_yield: "preempt (yield_cpu k) = preempt k"
  by (simp add: yield_cpu_def Let_def preempt_switching split: option.split)

lemma reschedule_leaves:
  "table_of v (preempt_reschedule lk k) = table_of v k"
  "same_flags (preempt k) (preempt (preempt_reschedule lk k))"
proof -
  show "table_of v (preempt_reschedule lk k) = table_of v k"
    using sched_rel_get_task [OF sched_rel_preempt, of k v lk] same_task_fields
    by (cases "get_task k v"; cases "get_task (preempt_reschedule lk k) v")
      (auto simp: table_of_def)
  show "same_flags (preempt k) (preempt (preempt_reschedule lk k))"
    by (auto simp: preempt_reschedule_def note_deferred_locked_def note_preemption_def same_flags_def preempt_switching Let_def
        split: option.split)
qed

text \<open>A tick in an open window takes the capability; in a guarded one it only counts.\<close>

lemma open_tick:
  assumes wf: "kernel_wf k" and f: "armed (preempt k)" "preempt_count (preempt k) = 0" "in_ipc_window (preempt k)"
    "pending_revoke (preempt k) = 0" "pending_revoke_task (preempt k) = v" "window_ticks (preempt k) = 0"
    and vc: "table_of v k \<noteq> None"
  obtains caps where "table_of v (timer_isr False k) = Some caps" and "cap_at caps 0 = None"
    and "window_ticks (preempt (timer_isr False k)) = 1" and "revoke_fired_in_window (preempt (timer_isr False k))"
    and "armed (preempt (timer_isr False k))" and "preempt_count (preempt (timer_isr False k)) = 0"
proof -
  obtain t where t: "get_task k v = Some t" using vc by (auto simp: table_of_def)
  let ?k1 = "k\<lparr>preempt := (preempt k)\<lparr>ticks := ticks (preempt k) + 1, window_ticks := 1\<rparr>\<rparr>"
  have t1: "get_task ?k1 v = Some t" using t by simp
  obtain r caps k2 where rv: "CapTable_kernel_revoke 0 (t_caps t) ?k1 = (r, caps, k2)" using prod_cases3 by blast
  have twf: "cap_table_wf (t_caps t)" using kernel_wf_task [OF wf t] by (simp add: task_wf_def)
  note sp = CapTable_kernel_revoke_spec [OF twf rv]
  note s2 = same_but_trace_kernel [OF CapTable_kernel_revoke_same [OF rv]]
  let ?k3 = "update_task v (\<lambda>t. t\<lparr>t_caps := caps\<rparr>) k2"
  let ?k4 = "?k3\<lparr>preempt := (preempt ?k3)\<lparr>revoke_fired_in_window := True, pending_revoke := NO_REVOKE\<rparr>\<rparr>"
  have nz: "(0 :: nat) \<noteq> NO_REVOKE" by (simp add: NO_REVOKE_def usize_MAX_def)
  have tick: "timer_isr False k = preempt_reschedule False ?k4"
    using f t1 rv nz by (simp add: timer_isr_def on_tick_should_switch_def maybe_fire_adversary_def Let_def)
  have p: "preempt ?k3 = preempt ?k1" using s2(5) by simp
  have "table_of v ?k4 = Some caps"
    using s2(6) t1 by (simp add: table_of_def get_task_update_task)
  then show ?thesis
    using that [of caps] reschedule_leaves [where lk = False and k = ?k4] sp p f tick by (simp add: same_flags_def)
qed

lemma guarded_tick:
  assumes "armed (preempt k)" "preempt_count (preempt k) \<noteq> 0" "in_ipc_window (preempt k)" "window_ticks (preempt k) = 0"
  shows "table_of v (timer_isr False k) = table_of v k" "window_ticks (preempt (timer_isr False k)) = 1"
    "revoke_fired_in_window (preempt (timer_isr False k)) = revoke_fired_in_window (preempt k)"
    "kernel_wf (timer_isr False k) = kernel_wf k"
  using assms timer_isr_deferred [of k False] by (simp_all add: in_critical_def)

lemma spin_until_tick:
  assumes "window_ticks (preempt k) = 0" and "window_ticks (preempt (others (timer_isr False k))) \<noteq> 0"
  shows "spin_loop (tick_env arrives others) spins k =
     (if \<exists>i. spins \<le> i \<and> i < SPIN_BOUND \<and> arrives i then others (timer_isr False k) else k)"
proof (induction "SPIN_BOUND - spins" arbitrary: spins)
  case 0
  then show ?case by (subst spin_loop.simps) auto
next
  case (Suc n)
  have step: "spin_loop (tick_env arrives others) spins k =
      spin_loop (tick_env arrives others) (spins + 1) (tick_env arrives others spins k)"
    using Suc(2) assms(1) by (subst spin_loop.simps) auto
  show ?case
  proof (cases "arrives spins")
    case True
    then have "spin_loop (tick_env arrives others) spins k = others (timer_isr False k)"
      using step assms(2) by (simp add: tick_env_def spin_loop.simps [of _ "Suc spins"])
    then show ?thesis using True Suc(2) by auto
  next
    case False
    then have "spin_loop (tick_env arrives others) spins k = spin_loop (tick_env arrives others) (spins + 1) k"
      using step by (simp add: tick_env_def)
    moreover have "(\<exists>i. spins + 1 \<le> i \<and> i < SPIN_BOUND \<and> arrives i) = (\<exists>i. spins \<le> i \<and> i < SPIN_BOUND \<and> arrives i)"
      using False by (metis Suc_eq_plus1 Suc_leD le_antisym not_less_eq_eq)
    ultimately show ?thesis using Suc(1) [of "spins + 1"] Suc(2) by simp
  qed
qed

definition race_kernel :: "kernel \<Rightarrow> bool" where
  "race_kernel k \<longleftrightarrow> kernel_wf k \<and> victim_caps k \<noteq> None \<and> armed (preempt k) \<and> preempt_count (preempt k) = 0"

lemmas window_defs = reset_window_ticks_def arm_adversary_def enter_ipc_window_def exit_ipc_window_def
  enter_critical_def exit_critical_def adversary_fired_in_window_def spin_until_window_tick_def Let_def

lemma leaves_taskD:
  assumes "leaves_task v others" "kernel_wf k"
  shows "kernel_wf (others k)" "table_of v (others k) = table_of v k" "same_flags (preempt k) (preempt (others k))"
  using assms by (simp_all add: leaves_task_def)

lemma vulnerable_phase_lands:
  assumes k: "race_kernel k" and v: "victim_caps k = Some caps" "map_option cap_id (cap_at caps 0) = Some c"
    and env: "leaves_experiment others" and lands: "\<exists>i < SPIN_BOUND. arrives i"
  obtains k' where "vulnerable_phase (tick_env arrives others) 0 k = (True, k')" and "race_kernel k'"
proof -
  let ?k1 = "reset_window_ticks (arm_adversary PREEMPT_VICTIM 0 k)"
  have "victim_caps ?k1 = Some caps" using v by (simp add: window_defs)
  then obtain k2 where 2: "victim_cap_id 0 ?k1 = (Some c, k2)" "same_but_trace ?k1 k2"
    using v(2) by (metis victim_cap_id_reads)
  note s2 = same_but_trace_kernel [OF 2(2)]
  let ?k3 = "enter_ipc_window k2"
  have wf3: "kernel_wf ?k3" using s2(7) k by (simp add: race_kernel_def window_defs)
  have v3: "victim_caps ?k3 \<noteq> None" using table_of_same [OF 2(2)] v(1) by (simp add: window_defs)
  have f3: "armed (preempt ?k3)" "preempt_count (preempt ?k3) = 0" "in_ipc_window (preempt ?k3)"
    "pending_revoke (preempt ?k3) = 0" "pending_revoke_task (preempt ?k3) = PREEMPT_VICTIM" "window_ticks (preempt ?k3) = 0"
    using s2(5) k by (simp_all add: race_kernel_def window_defs)
  obtain caps4 where 4: "victim_caps (timer_isr False ?k3) = Some caps4" "cap_at caps4 0 = None"
    "window_ticks (preempt (timer_isr False ?k3)) = 1" "revoke_fired_in_window (preempt (timer_isr False ?k3))"
    "armed (preempt (timer_isr False ?k3))" "preempt_count (preempt (timer_isr False ?k3)) = 0"
    by (rule open_tick [OF wf3 f3 v3])
  let ?k5 = "others (timer_isr False ?k3)"
  note l5 = leaves_taskD [OF env kernel_wf_timer_isr [OF wf3, of False]]
  have "window_ticks (preempt ?k5) \<noteq> 0" using l5(3) 4(3) by (simp add: same_flags_def)
  then have spin: "spin_loop (tick_env arrives others) 0 ?k3 = ?k5"
    using spin_until_tick [OF f3(6), of others arrives 0] lands by auto
  let ?k6 = "exit_ipc_window ?k5"
  have "victim_caps ?k6 = Some caps4" using l5(2) 4(1) by (simp add: window_defs)
  then obtain k7 where 7: "victim_cap_id 0 ?k6 = (None, k7)" "same_but_trace ?k6 k7"
    using 4(2) by (metis victim_cap_id_reads option.simps(8))
  note s7 = same_but_trace_kernel [OF 7(2)]
  have "adversary_fired_in_window k7"
    using s7(5) l5(3) 4(4) by (simp add: window_defs same_flags_def)
  then have "vulnerable_phase (tick_env arrives others) 0 k = (True, k7)"
    using 2(1) spin 7(1) by (simp add: vulnerable_phase_def spin_until_window_tick_def Let_def)
  moreover have "race_kernel k7"
    using s7(5,7) table_of_same [OF 7(2)] \<open>victim_caps ?k6 = Some caps4\<close> l5(1,3) 4(5,6)
    by (simp add: race_kernel_def window_defs same_flags_def)
  ultimately show ?thesis using that by blast
qed

lemma guarded_phase_holds:
  assumes k: "race_kernel k" and v: "victim_caps k = Some caps" "map_option cap_id (cap_at caps 0) = Some c"
    and env: "leaves_experiment others"
  obtains k' where "guarded_phase (tick_env arrives others) 0 k = (True, k')"
proof -
  let ?k1 = "enter_critical (reset_window_ticks (arm_adversary PREEMPT_VICTIM 0 k))"
  have "victim_caps ?k1 = Some caps" using v by (simp add: window_defs)
  then obtain k2 where 2: "victim_cap_id 0 ?k1 = (Some c, k2)" "same_but_trace ?k1 k2"
    using v(2) by (metis victim_cap_id_reads)
  note s2 = same_but_trace_kernel [OF 2(2)]
  let ?k3 = "enter_ipc_window k2"
  have wf3: "kernel_wf ?k3" using s2(7) k by (simp add: race_kernel_def window_defs)
  have v3: "victim_caps ?k3 = Some caps" using table_of_same [OF 2(2)] v(1) by (simp add: window_defs)
  have f3: "armed (preempt ?k3)" "preempt_count (preempt ?k3) \<noteq> 0" "in_ipc_window (preempt ?k3)" "window_ticks (preempt ?k3) = 0"
    "\<not> revoke_fired_in_window (preempt ?k3)"
    using s2(5) k by (simp_all add: race_kernel_def window_defs)
  note tick = guarded_tick [OF f3(1-4)]
  let ?k5 = "others (timer_isr False ?k3)"
  have "kernel_wf (timer_isr False ?k3)" using tick(4) wf3 by simp
  note l5 = leaves_taskD [OF env this]
  have "window_ticks (preempt ?k5) \<noteq> 0" using l5(3) tick(2) by (simp add: same_flags_def)
  then have "spin_loop (tick_env arrives others) 0 ?k3 \<in> {?k3, ?k5}"
    using spin_until_tick [OF f3(4), of others arrives 0] by simp
  then have spun: "victim_caps (spin_loop (tick_env arrives others) 0 ?k3) = Some caps"
    "\<not> revoke_fired_in_window (preempt (spin_loop (tick_env arrives others) 0 ?k3))"
    using v3 f3(5) l5 tick(1,3) by (auto simp: same_flags_def)
  let ?k6 = "exit_ipc_window (spin_loop (tick_env arrives others) 0 ?k3)"
  have "victim_caps ?k6 = Some caps" using spun(1) by (simp add: window_defs)
  then obtain k7 where 7: "victim_cap_id 0 ?k6 = (Some c, k7)" "same_but_trace ?k6 k7"
    using v(2) by (metis victim_cap_id_reads)
  have "\<not> adversary_fired_in_window (exit_critical k7)"
    using same_but_trace_kernel(5) [OF 7(2)] spun(2) by (simp add: window_defs)
  then show ?thesis
    using that 2(1) 7(1) by (simp add: guarded_phase_def spin_until_window_tick_def Let_def)
qed

lemma install_victim_cap_race:
  assumes "race_kernel k"
  obtains c k' caps where "install_victim_cap k = Ret ((0, c), k')" and "race_kernel k'"
    and "victim_caps k' = Some caps" and "map_option cap_id (cap_at caps 0) = Some c"
proof -
  have "kernel_wf k" "victim_caps k \<noteq> None" using assms by (simp_all add: race_kernel_def)
  from install_victim_cap_installs [OF this] obtain c k' caps where
    i: "install_victim_cap k = Ret ((0, c), k')" "kernel_wf k'" "victim_caps k' = Some caps"
    "map_option cap_id (cap_at caps 0) = Some c" "preempt k' = preempt k"
    by metis
  then have "race_kernel k'" using assms by (simp add: race_kernel_def)
  then show ?thesis using that i by blast
qed

lemma toctou_holds:
  assumes "race_kernel k" and "leaves_experiment others" "leaves_experiment others2"
    and "\<exists>i < SPIN_BOUND. arrives i"
  shows "\<exists>k'. ipc_toctou_experiment (tick_env arrives others) (tick_env arrives2 others2) k = Ret (True, True, k')"
proof -
  have "race_kernel (k\<lparr>mach := sti (mach k)\<rparr>)" using assms(1) by (simp add: race_kernel_def kernel_wf_def)
  then obtain c k1 caps where 1: "install_victim_cap (k\<lparr>mach := sti (mach k)\<rparr>) = Ret ((0, c), k1)" "race_kernel k1"
    "victim_caps k1 = Some caps" "map_option cap_id (cap_at caps 0) = Some c"
    by (rule install_victim_cap_race)
  obtain k2 where 2: "vulnerable_phase (tick_env arrives others) 0 k1 = (True, k2)" "race_kernel k2"
    by (rule vulnerable_phase_lands [OF 1(2-4) assms(2,4)])
  obtain c3 k3 caps3 where 3: "install_victim_cap k2 = Ret ((0, c3), k3)" "race_kernel k3"
    "victim_caps k3 = Some caps3" "map_option cap_id (cap_at caps3 0) = Some c3"
    by (rule install_victim_cap_race [OF 2(2)])
  obtain k4 where "guarded_phase (tick_env arrives2 others2) 0 k3 = (True, k4)"
    by (rule guarded_phase_holds [OF 3(2-4) assms(3)])
  then show ?thesis using 1(1) 2(1) 3(1) by (simp add: ipc_toctou_experiment_def)
qed

text \<open>C29. The experiment shows the race and its repair.  With preemption armed, if a tick lands in the first window while the driver
  spins, the capability that was there at the check is gone at the use and the verdict says so; and whether or not
  ticks land in the second window, inside the non-preemptible region the capability checked is the capability
  used.  This holds for whatever the other tasks do in between, as long as they leave the victim's table alone.\<close>

theorem toctou_experiment_verdicts:
  assumes "race_kernel k" and "leaves_experiment others" "leaves_experiment others2"
    and "\<exists>i < SPIN_BOUND. arrives i"
  shows "\<exists>k'. ipc_toctou_experiment (tick_env arrives others) (tick_env arrives2 others2) k = Ret (True, True, k')"
  by (rule toctou_holds [OF assms])

definition race_sample :: kernel where
  "race_sample = set_armed True (set_slot PREEMPT_VICTIM (Some (sample_task PREEMPT_VICTIM Terminated CapTable_new)) (sample_kernel Ready))"

lemma race_sample_ok: "race_kernel race_sample"
proof -
  have "kernel_wf (set_slot PREEMPT_VICTIM (Some (sample_task PREEMPT_VICTIM Terminated CapTable_new)) (sample_kernel Ready))"
    by (intro kernel_wf_set_slot kernel_wf_sample) auto
  moreover have "PREEMPT_VICTIM < length (tasks (sample_kernel Ready))"
    using kernel_wf_sample [of Ready] by (simp add: kernel_wf_def PREEMPT_VICTIM_def MAX_TASKS_def)
  ultimately show ?thesis
    by (simp add: race_sample_def race_kernel_def set_armed_def table_of_def get_task_set_slot preempt_init_def)
qed

lemma leaves_experiment_id: "leaves_experiment id"
  by (simp add: leaves_task_def same_flags_def)

theorem toctou_experiment_verdicts_witness:
  "\<exists>k'. ipc_toctou_experiment (tick_env (\<lambda>i. i = 5) id) (tick_env (\<lambda>i. True) id) race_sample = Ret (True, True, k')"
  by (rule toctou_experiment_verdicts [OF race_sample_ok leaves_experiment_id leaves_experiment_id])
    (rule exI [of _ 5], simp add: SPIN_BOUND_def)

subsection \<open>The watchdog\<close>

definition HARNESS_SERVICE :: task_id where "HARNESS_SERVICE = 123"
definition HARNESS_WATCHDOG :: task_id where "HARNESS_WATCHDOG = 124"
definition MAX_RESTARTS :: nat where "MAX_RESTARTS = 2"

definition console_cap :: capability where
  "console_cap = \<lparr>cap_resource = Serial, cap_read = False, cap_write = True, cap_grant = False, cap_sealed = False,
     cap_id = 0, cap_origin = None\<rparr>"

definition fragile_service_caps :: "kernel \<Rightarrow> cap_table \<times> kernel" where
  "fragile_service_caps k = (case CapTable_insert console_cap CapTable_new k of (_, caps, k) \<Rightarrow> (caps, k))"

text \<open>\<open>task_fragile_service\<close> up to its yield, and what it does after it: \<open>None\<close> is the illegal access.\<close>

definition fragile_start :: "nat \<Rightarrow> nat \<times> nat" where
  "fragile_start incarnations = (incarnations, incarnations + 1)"

definition fragile_resume :: "nat \<Rightarrow> unit option" where
  "fragile_resume inc = (if inc < MAX_RESTARTS then None else Some ())"

text \<open>One round of the loop of \<open>task_watchdog\<close> after its yield.\<close>

datatype watchdog_outcome =
    Watching nat kernel
  | GaveUp term_outcome
  | Recovered nat term_outcome

definition service_terminated :: "kernel \<Rightarrow> bool" where
  "service_terminated k =
     (case get_task k HARNESS_SERVICE of Some t \<Rightarrow> t_state t = Terminated | None \<Rightarrow> True)"

definition watchdog_turn :: "u64 \<Rightarrow> nat \<Rightarrow> nat \<Rightarrow> kernel \<Rightarrow> watchdog_outcome run" where
  "watchdog_turn entry incarnations restarts k =
     (if service_terminated k then
        if restarts < MAX_RESTARTS then
          (case fragile_service_caps k of
             (caps, k) \<Rightarrow> run_bind (place_task HARNESS_SERVICE entry caps k) (\<lambda>k. Ret (Watching (restarts + 1) k)))
        else Ret (GaveUp (terminate_current_task k))
      else if MAX_RESTARTS < incarnations then Ret (Recovered restarts (terminate_current_task k))
      else Ret (Watching restarts k))"

text \<open>A restart gives the service exactly the capabilities the watchdog hands out, none of the dead incarnation's.\<close>

lemma watchdog_turn_restarts:
  assumes "kernel_wf k" and "service_terminated k" and "restarts < MAX_RESTARTS"
  obtains k' where "watchdog_turn entry inc restarts k = Ret (Watching (restarts + 1) k')" and "kernel_wf k'"
    and "\<not> service_terminated k'" and "\<And>j. j \<noteq> HARNESS_SERVICE \<Longrightarrow> get_task k' j = get_task k j"
    and "\<And>s. cap_view k' (HARNESS_SERVICE, s) = (if s = 0 then Some (console_cap\<lparr>cap_id := next_cap_id_ctr k\<rparr>) else None)"
proof -
  let ?c = "console_cap\<lparr>cap_id := next_cap_id_ctr k\<rparr>"
  let ?k0 = "log_trace ''cap_insert'' (next_cap_id_ctr k) 0 (k\<lparr>next_cap_id_ctr := next_cap_id_ctr k + 1\<rparr>)"
  have wf0: "kernel_wf ?k0" using assms by simp
  have lt: "HARNESS_SERVICE < MAX_TASKS" by (simp add: HARNESS_SERVICE_def MAX_TASKS_def)
  obtain k1 where 1: "place_task HARNESS_SERVICE entry (single_table ?c) ?k0 = Ret k1"
    "placed HARNESS_SERVICE (single_table ?c) ?k0 k1"
    using place_task_placed [OF wf0 lt] by (metis single_table(1))
  have "watchdog_turn entry inc restarts k = Ret (Watching (restarts + 1) k1)"
    using assms 1(1) by (simp add: watchdog_turn_def fragile_service_caps_def insert_new single_table_def)
  moreover have "\<not> service_terminated k1"
    using 1(2) by (auto simp: placed_def service_terminated_def)
  ultimately show ?thesis
    using that [of k1] placedD [OF 1(2)] by simp
qed

text \<open>The watchdog and the service side by side, with everything else that runs: where the service stands, the counter of
  its incarnations, the watchdog's count of restarts, and its verdict.\<close>

datatype service_pc = NotStarted | PastYield nat | Serving

datatype watchdog_verdict = Undecided | SaidGaveUp | SaidRecovered nat

inductive watch_step ::
  "u64 \<Rightarrow> kernel \<times> nat \<times> nat \<times> service_pc \<times> watchdog_verdict \<Rightarrow> kernel \<times> nat \<times> nat \<times> service_pc \<times> watchdog_verdict \<Rightarrow> bool"
  for entry where
  starts: "\<not> service_terminated k \<Longrightarrow> fragile_start n = (inc, n') \<Longrightarrow>
     watch_step entry (k, n, r, NotStarted, v) (k, n', r, PastYield inc, v)"
| serves: "\<not> service_terminated k \<Longrightarrow> fragile_resume inc = Some () \<Longrightarrow>
     watch_step entry (k, n, r, PastYield inc, v) (k, n, r, Serving, v)"
| crashes: "\<not> service_terminated k \<Longrightarrow> fragile_resume inc = None \<Longrightarrow> current_task_id k = Some HARNESS_SERVICE \<Longrightarrow>
     exception_dispatch False frame 14 k = Some out \<Longrightarrow>
     watch_step entry (k, n, r, PastYield inc, v) (term_kernel out, n, r, PastYield inc, v)"
| watches: "watchdog_turn entry n r k = Ret (Watching r' k') \<Longrightarrow>
     watch_step entry (k, n, r, pc, Undecided) (k', n, r', if r' = r then pc else NotStarted, Undecided)"
| gives_up: "watchdog_turn entry n r k = Ret (GaveUp out) \<Longrightarrow>
     watch_step entry (k, n, r, pc, Undecided) (term_kernel out, n, r, pc, SaidGaveUp)"
| recovers: "watchdog_turn entry n r k = Ret (Recovered r' out) \<Longrightarrow>
     watch_step entry (k, n, r, pc, Undecided) (term_kernel out, n, r, pc, SaidRecovered r')"
| others: "kernel_wf k' \<Longrightarrow> service_terminated k' = service_terminated k \<Longrightarrow>
     watch_step entry (k, n, r, pc, v) (k', n, r, pc, v)"

fun watch_inv :: "kernel \<times> nat \<times> nat \<times> service_pc \<times> watchdog_verdict \<Rightarrow> bool" where
  "watch_inv (k, n, r, pc, v) \<longleftrightarrow> kernel_wf k \<and> r \<le> MAX_RESTARTS \<and> v \<noteq> SaidGaveUp
     \<and> (\<forall>m. v = SaidRecovered m \<longrightarrow> m = MAX_RESTARTS)
     \<and> (v = Undecided \<longrightarrow> (if service_terminated k then r < MAX_RESTARTS \<and> n = r + 1
        else case pc of NotStarted \<Rightarrow> n = r | PastYield i \<Rightarrow> i = r \<and> n = r + 1 | Serving \<Rightarrow> r = MAX_RESTARTS \<and> n = r + 1))"


lemma crash_terminates:
  assumes "kernel_wf k" "\<not> service_terminated k" "current_task_id k = Some HARNESS_SERVICE"
    "exception_dispatch False f v k = Some out"
  shows "kernel_wf (term_kernel out)" "service_terminated (term_kernel out)"
proof -
  obtain t where t: "get_task k HARNESS_SERVICE = Some t"
    using assms(2) by (cases "get_task k HARNESS_SERVICE") (simp_all add: service_terminated_def)
  show wf: "kernel_wf (term_kernel out)" by (rule kernel_wf_exception_dispatch [OF assms(1,4)])
  let ?r = "fault_recorded f v k"
  have out: "out = terminate_current_task ?r" using assms(3,4) by (simp add: exception_dispatch_Some)
  have "slot_state (term_kernel out) HARNESS_SERVICE = Some Terminated"
    unfolding out
  proof -
    have r: "kernel_wf ?r" "current_task_id ?r = Some HARNESS_SERVICE"
      using assms by (simp_all add: kernel_wf_fault_recorded fault_recorded_frame)
    have g: "get_task ?r HARNESS_SERVICE \<noteq> None" using t by (simp add: fault_recorded_task)
    have lt: "HARNESS_SERVICE < MAX_TASKS" by (simp add: HARNESS_SERVICE_def MAX_TASKS_def)
    then have "tasks ?r ! HARNESS_SERVICE \<noteq> None" using kernel_wf_get_task [OF r(1) lt] g by simp
    from terminate_states [OF r lt this] show "slot_state (term_kernel (terminate_current_task ?r)) HARNESS_SERVICE = Some Terminated"
      using lt by (auto simp: term_state_def)
  qed
  then show "service_terminated (term_kernel out)"
    using kernel_wf_get_task [OF wf, of HARNESS_SERVICE]
    by (auto simp: service_terminated_def slot_state_def HARNESS_SERVICE_def MAX_TASKS_def split: option.split)
qed

lemma kernel_wf_terminate: "kernel_wf k \<Longrightarrow> kernel_wf (term_kernel (terminate_current_task k))"
  by (rule kernel_wf_sched_rel [OF _ sched_rel_terminate])

lemma watchdog_turn_cases:
  assumes "kernel_wf k" and "watchdog_turn entry n r k = Ret out"
  shows "(\<exists>k'. out = Watching (r + 1) k' \<and> service_terminated k \<and> r < MAX_RESTARTS \<and> kernel_wf k' \<and> \<not> service_terminated k')
     \<or> (out = GaveUp (terminate_current_task k) \<and> service_terminated k \<and> \<not> r < MAX_RESTARTS)
     \<or> (out = Recovered r (terminate_current_task k) \<and> \<not> service_terminated k \<and> MAX_RESTARTS < n)
     \<or> (out = Watching r k \<and> \<not> service_terminated k \<and> n \<le> MAX_RESTARTS)"
proof (cases "service_terminated k \<and> r < MAX_RESTARTS")
  case True
  then obtain k' where "watchdog_turn entry n r k = Ret (Watching (r + 1) k')" "kernel_wf k'" "\<not> service_terminated k'"
    using watchdog_turn_restarts [OF assms(1)] by metis
  then show ?thesis using True assms(2) by auto
next
  case False
  then show ?thesis using assms(2) by (auto simp: watchdog_turn_def split: if_splits)
qed

lemma watch_inv_step: "watch_step entry s s' \<Longrightarrow> watch_inv s \<Longrightarrow> watch_inv s'"
proof (induction rule: watch_step.induct)
  case (crashes k inc frame out n r v)
  then show ?case
    using crash_terminates [of k frame 14 out] by (auto simp: fragile_resume_def split: if_splits)
next
  case (watches n r k r' k' pc)
  then show ?case using watchdog_turn_cases [of k entry n r "Watching r' k'"] by (auto split: service_pc.splits)
next
  case (gives_up n r k out pc)
  then show ?case using watchdog_turn_cases [of k entry n r "GaveUp out"] by auto
next
  case (recovers n r k r' out pc)
  then show ?case
    using watchdog_turn_cases [of k entry n r "Recovered r' out"] kernel_wf_terminate [of k]
    by (auto split: service_pc.splits)
qed (auto simp: fragile_start_def fragile_resume_def MAX_RESTARTS_def split: if_splits)

text \<open>The watchdog recovers the service and never gives it up.  In every interleaving of the watchdog, the fragile service and the
  rest of the system, started with a fresh service, the service is restarted at most twice, the watchdog never
  declares it lost, and when it declares recovery it has restarted it exactly twice.\<close>

theorem watchdog_never_gives_up:
  assumes "kernel_wf k" and "\<not> service_terminated k"
    and "(watch_step entry)\<^sup>*\<^sup>* (k, 0, 0, NotStarted, Undecided) (k', n, r, pc, v)"
  shows "kernel_wf k' \<and> r \<le> MAX_RESTARTS \<and> v \<in> {Undecided, SaidRecovered MAX_RESTARTS}"
proof -
  have "watch_inv (k, 0, 0, NotStarted, Undecided)" using assms(1,2) by simp
  with assms(3) have "watch_inv (k', n, r, pc, v)"
  proof (induction rule: rtranclp_induct)
    case base
    then show ?case .
  next
    case (step y z)
    then show ?case using watch_inv_step by blast
  qed
  then show ?thesis by (cases v) auto
qed

text \<open>The recovery does happen: from every fresh start some run reaches it.\<close>

lemma service_current: "kernel_wf k \<Longrightarrow> kernel_wf (k\<lparr>current_task_id := c\<rparr>) \<and> service_terminated (k\<lparr>current_task_id := c\<rparr>) = service_terminated k"
  by (simp add: kernel_wf_def service_terminated_def get_task_def)

lemma one_restart:
  assumes "kernel_wf k" and "\<not> service_terminated k" and "r < MAX_RESTARTS"
  obtains k' where "(watch_step entry)\<^sup>*\<^sup>* (k, r, r, NotStarted, Undecided) (k', Suc r, Suc r, NotStarted, Undecided)"
    and "kernel_wf k'" and "\<not> service_terminated k'"
proof -
  let ?k1 = "k\<lparr>current_task_id := Some HARNESS_SERVICE\<rparr>"
  note c = service_current [OF assms(1), of "Some HARNESS_SERVICE"]
  obtain f :: exception_frame where True by blast
  let ?out = "terminate_current_task (fault_recorded f 14 ?k1)"
  have x: "exception_dispatch False f 14 ?k1 = Some ?out" by (simp add: exception_dispatch_Some)
  have cr: "kernel_wf (term_kernel ?out)" "service_terminated (term_kernel ?out)"
    using crash_terminates [OF _ _ _ x] c assms by simp_all
  obtain k' where w: "watchdog_turn entry (Suc r) r (term_kernel ?out) = Ret (Watching (r + 1) k')" "kernel_wf k'" "\<not> service_terminated k'"
    using watchdog_turn_restarts [OF cr assms(3)] by metis
  have "watch_step entry (k, r, r, NotStarted, Undecided) (k, Suc r, r, PastYield r, Undecided)"
    by (rule watch_step.starts [OF assms(2)]) (simp add: fragile_start_def)
  moreover have "watch_step entry (k, Suc r, r, PastYield r, Undecided) (?k1, Suc r, r, PastYield r, Undecided)"
    using c by (intro watch_step.others) simp_all
  moreover have "watch_step entry (?k1, Suc r, r, PastYield r, Undecided) (term_kernel ?out, Suc r, r, PastYield r, Undecided)"
    by (rule watch_step.crashes [OF _ _ _ x]) (use c assms in \<open>simp_all add: fragile_resume_def\<close>)
  moreover have "watch_step entry (term_kernel ?out, Suc r, r, PastYield r, Undecided) (k', Suc r, Suc r, NotStarted, Undecided)"
    using watch_step.watches [OF w(1), of "PastYield r"] by simp
  ultimately have "(watch_step entry)\<^sup>*\<^sup>* (k, r, r, NotStarted, Undecided) (k', Suc r, Suc r, NotStarted, Undecided)"
    by (meson converse_rtranclp_into_rtranclp rtranclp.rtrancl_refl)
  then show ?thesis using that w by blast
qed

lemma recovery_is_reached:
  assumes "kernel_wf k" and "\<not> service_terminated k"
  shows "\<exists>k' n pc. (watch_step entry)\<^sup>*\<^sup>* (k, 0, 0, NotStarted, Undecided) (k', n, MAX_RESTARTS, pc, SaidRecovered MAX_RESTARTS)"
proof -
  obtain k1 where 1: "(watch_step entry)\<^sup>*\<^sup>* (k, 0, 0, NotStarted, Undecided) (k1, Suc 0, Suc 0, NotStarted, Undecided)"
    "kernel_wf k1" "\<not> service_terminated k1"
    using one_restart [OF assms, of 0 entry] by (auto simp: MAX_RESTARTS_def)
  obtain k2 where 2: "(watch_step entry)\<^sup>*\<^sup>* (k1, Suc 0, Suc 0, NotStarted, Undecided) (k2, 2, 2, NotStarted, Undecided)"
    "kernel_wf k2" "\<not> service_terminated k2"
    using one_restart [OF 1(2,3), of 1 entry] by (auto simp: MAX_RESTARTS_def numeral_2_eq_2)
  have "watch_step entry (k2, 2, 2, NotStarted, Undecided) (k2, 3, 2, PastYield 2, Undecided)"
    by (rule watch_step.starts [OF 2(3)]) (simp add: fragile_start_def)
  moreover have "watchdog_turn entry 3 2 k2 = Ret (Recovered 2 (terminate_current_task k2))"
    using 2(3) by (simp add: watchdog_turn_def MAX_RESTARTS_def)
  ultimately show ?thesis
    using 1(1) 2(1) watch_step.recovers [of entry 3 2 k2 2 "terminate_current_task k2" "PastYield 2"]
    by (metis (no_types, lifting) MAX_RESTARTS_def rtranclp.rtrancl_into_rtrancl rtranclp_trans)
qed

definition watch_sample :: kernel where
  "watch_sample = set_slot HARNESS_SERVICE (Some (sample_task HARNESS_SERVICE Ready CapTable_new)) (sample_kernel Ready)"

lemma watch_sample_ok: "kernel_wf watch_sample" "\<not> service_terminated watch_sample"
proof -
  show "kernel_wf watch_sample"
    unfolding watch_sample_def by (intro kernel_wf_set_slot kernel_wf_sample) auto
  have "HARNESS_SERVICE < length (tasks (sample_kernel Ready))"
    using kernel_wf_sample [of Ready] by (simp add: kernel_wf_def HARNESS_SERVICE_def MAX_TASKS_def)
  then show "\<not> service_terminated watch_sample"
    by (simp add: watch_sample_def service_terminated_def get_task_set_slot)
qed

theorem watchdog_never_gives_up_witness:
  "\<exists>k' n pc. (watch_step 0x5000)\<^sup>*\<^sup>* (watch_sample, 0, 0, NotStarted, Undecided) (k', n, MAX_RESTARTS, pc, SaidRecovered MAX_RESTARTS)
     \<and> kernel_wf k'"
  using recovery_is_reached [OF watch_sample_ok, of "0x5000"] watchdog_never_gives_up [OF watch_sample_ok, of "0x5000"]
  by blast

subsection \<open>Loading the demonstration tasks\<close>

definition HARNESS_CRASHER :: task_id where "HARNESS_CRASHER = 100"
definition HARNESS_DEAD :: task_id where "HARNESS_DEAD = 101"
definition HARNESS_PROBE :: task_id where "HARNESS_PROBE = 102"
definition HARNESS_WORKER_BASE :: task_id where "HARNESS_WORKER_BASE = 103"
definition WORKER_COUNT :: nat where "WORKER_COUNT = 16"
definition HARNESS_SECURITY :: task_id where "HARNESS_SECURITY = 119"
definition HARNESS_PERSIST :: task_id where "HARNESS_PERSIST = 125"
definition DIST_DRIVER :: task_id where "DIST_DRIVER = 128"
definition DIST_BACKING :: task_id where "DIST_BACKING = 129"
definition DIST_REPLICA :: task_id where "DIST_REPLICA = 130"
definition PREEMPT_DRIVER :: task_id where "PREEMPT_DRIVER = 90"
definition PREEMPT_BUSY_A :: task_id where "PREEMPT_BUSY_A = 91"
definition PREEMPT_BUSY_B :: task_id where "PREEMPT_BUSY_B = 92"

text \<open>The addresses of the task functions.\<close>

record demo_entries =
  task_crasher :: u64
  task_dead_target :: u64
  task_probe :: u64
  task_worker :: u64
  task_security_demo :: u64
  task_fragile_service :: u64
  task_watchdog :: u64
  task_persistence_demo :: u64
  task_dist_demo :: u64
  dist_scratch_entry :: u64
  task_preempt_demo :: u64
  task_busy_a :: u64
  task_busy_b :: u64
  task_park :: u64

definition probe_cap :: capability where
  "probe_cap = \<lparr>cap_resource = IpcChannel HARNESS_DEAD, cap_read = True, cap_write = True, cap_grant = False,
     cap_sealed = False, cap_id = 0, cap_origin = None\<rparr>"

fun place_workers :: "u64 \<Rightarrow> nat list \<Rightarrow> kernel \<Rightarrow> kernel run" where
  "place_workers entry [] k = Ret k"
| "place_workers entry (i # is) k =
     run_bind (place_task (HARNESS_WORKER_BASE + i) entry CapTable_new k) (place_workers entry is)"

definition load_harness_demo :: "demo_entries \<Rightarrow> kernel \<Rightarrow> kernel run" where
  "load_harness_demo e k =
     run_bind (place_task HARNESS_CRASHER (task_crasher e) CapTable_new k) (\<lambda>k.
     run_bind (place_task HARNESS_DEAD (task_dead_target e) CapTable_new k) (\<lambda>k.
       case CapTable_insert probe_cap CapTable_new k of
         (_, probe_caps, k) \<Rightarrow>
           run_bind (place_task HARNESS_PROBE (task_probe e) probe_caps k) (\<lambda>k.
             place_workers (task_worker e) [0..<WORKER_COUNT] k)))"

definition load_security_demo :: "demo_entries \<Rightarrow> kernel \<Rightarrow> kernel run" where
  "load_security_demo e k = place_task HARNESS_SECURITY (task_security_demo e) CapTable_new k"

definition load_watchdog_demo :: "demo_entries \<Rightarrow> kernel \<Rightarrow> kernel run" where
  "load_watchdog_demo e k =
     (case fragile_service_caps k of
        (caps, k) \<Rightarrow>
          run_bind (place_task HARNESS_SERVICE (task_fragile_service e) caps k) (\<lambda>k.
            place_task HARNESS_WATCHDOG (task_watchdog e) CapTable_new k))"

definition load_persistence_demo :: "demo_entries \<Rightarrow> kernel \<Rightarrow> kernel run" where
  "load_persistence_demo e k = place_task HARNESS_PERSIST (task_persistence_demo e) CapTable_new k"

definition dist_service_cap :: capability where
  "dist_service_cap = \<lparr>cap_resource = Service 1, cap_read = True, cap_write = True, cap_grant = False, cap_sealed = False,
     cap_id = 0, cap_origin = None\<rparr>"

definition dist_service_caps :: "kernel \<Rightarrow> cap_table \<times> kernel" where
  "dist_service_caps k =
     (case CapTable_insert console_cap CapTable_new k of
        (_, caps, k) \<Rightarrow> (case CapTable_insert dist_service_cap caps k of (_, caps, k) \<Rightarrow> (caps, k)))"

definition load_distribution_demo :: "demo_entries \<Rightarrow> kernel \<Rightarrow> kernel run" where
  "load_distribution_demo e k =
     run_bind (place_task DIST_DRIVER (task_dist_demo e) CapTable_new k) (\<lambda>k.
       case dist_service_caps k of
         (caps, k) \<Rightarrow>
           run_bind (place_task DIST_BACKING (dist_scratch_entry e) caps k) (\<lambda>k.
             place_task DIST_REPLICA (dist_scratch_entry e) CapTable_new k))"

definition load_preemption_demo :: "demo_entries \<Rightarrow> kernel \<Rightarrow> kernel run" where
  "load_preemption_demo e k =
     run_bind (place_task PREEMPT_DRIVER (task_preempt_demo e) CapTable_new k) (\<lambda>k.
     run_bind (place_task PREEMPT_BUSY_A (task_busy_a e) CapTable_new k) (\<lambda>k.
     run_bind (place_task PREEMPT_BUSY_B (task_busy_b e) CapTable_new k) (\<lambda>k.
     run_bind (place_task PREEMPT_VICTIM (task_park e) CapTable_new k) (\<lambda>k.
       place_task PREEMPT_SERVER (task_park e) CapTable_new k))))"

text \<open>The order in which boot loads them.\<close>

definition load_demos :: "demo_entries \<Rightarrow> kernel \<Rightarrow> kernel run" where
  "load_demos e k =
     run_bind (load_harness_demo e k) (\<lambda>k.
     run_bind (load_security_demo e k) (\<lambda>k.
     run_bind (load_watchdog_demo e k) (\<lambda>k.
     run_bind (load_persistence_demo e k) (\<lambda>k.
     run_bind (load_distribution_demo e k) (\<lambda>k.
       load_preemption_demo e k)))))"

definition no_grant :: "cap_table \<Rightarrow> bool" where
  "no_grant caps \<longleftrightarrow> (\<forall>s c. cap_at caps s = Some c \<longrightarrow> \<not> cap_grant c)"

text \<open>From \<open>k\<close> to \<open>k'\<close> the slots \<open>S\<close> are filled with fresh ready tasks that cannot delegate anything, and nothing else changes.\<close>

definition loads :: "nat set \<Rightarrow> kernel \<Rightarrow> kernel \<Rightarrow> bool" where
  "loads S k k' \<longleftrightarrow> kernel_wf k' \<and> (\<forall>j. j \<notin> S \<longrightarrow> get_task k' j = get_task k j) \<and>
     (\<forall>j \<in> S. \<exists>t. get_task k' j = Some t \<and> t_state t = Ready \<and> no_grant (t_caps t)) \<and>
     current_task_id k' = current_task_id k \<and> preempt k' = preempt k \<and> audit k' = audit k \<and>
     (\<forall>n. has_frames n (mach k') = has_frames n (mach k))"

lemma loads_trans:
  assumes "loads S k k1" "loads T k1 k2"
  shows "loads (S \<union> T) k k2"
proof -
  have "\<exists>t. get_task k2 j = Some t \<and> t_state t = Ready \<and> no_grant (t_caps t)" if "j \<in> S \<union> T" for j
    using assms that by (cases "j \<in> T") (auto simp: loads_def)
  then show ?thesis using assms by (auto simp: loads_def)
qed

lemma placed_loads: "placed i caps k k' \<Longrightarrow> no_grant caps \<Longrightarrow> loads {i} k k'"
  by (auto simp: placed_def loads_def)

lemma no_grant_new [simp]: "no_grant CapTable_new"
  by (simp add: no_grant_def)

lemma place_loads:
  assumes "kernel_wf k" and "i < MAX_TASKS" and "cap_table_wf caps" and "no_grant caps"
  shows "\<exists>k'. place_task i e caps k = Ret k' \<and> loads {i} k k'"
  using place_task_placed [OF assms(1-3), of e] placed_loads [OF _ assms(4)] by metis

lemma loads_wf: "loads S k k' \<Longrightarrow> kernel_wf k'"
  by (simp add: loads_def)

text \<open>A loader composed of loaders.\<close>

lemma loads_bind:
  assumes "\<exists>k1. m = Ret k1 \<and> loads S k k1" and "\<And>k1. loads S k k1 \<Longrightarrow> kernel_wf k1 \<Longrightarrow> \<exists>k2. f k1 = Ret k2 \<and> loads T k1 k2"
  shows "\<exists>k2. run_bind m f = Ret k2 \<and> loads (S \<union> T) k k2"
  using assms loads_trans loads_wf by (metis run_bind.simps(2))

lemma insert_loads:
  assumes "CapTable_insert c caps k = (r, caps', k')" "kernel_wf k"
  shows "loads {} k k'"
proof -
  note s = same_but_trace_kernel [OF CapTable_insert_globals [OF assms(1)]]
  show ?thesis using s assms(2) by (simp add: loads_def)
qed

lemma insert_no_grant:
  assumes "CapTable_insert c caps k = (r, caps', k')" "cap_table_wf caps" "no_grant caps" "\<not> cap_grant c"
  shows "no_grant caps'" "cap_table_wf caps'"
proof -
  show "cap_table_wf caps'" by (rule CapTable_insert_wf [OF assms(2,1)])
  show "no_grant caps'"
  proof (cases r)
    case None
    then show ?thesis using CapTable_insert_None [OF assms(2), of c k caps' k'] assms by simp
  next
    case (Some i)
    then show ?thesis using CapTable_insert_Some [OF assms(2), of c k i caps' k'] assms by (auto simp: no_grant_def split: if_splits)
  qed
qed

text \<open>Inserting a capability and then going on.\<close>

lemma insert_then_loads:
  assumes "kernel_wf k" "cap_table_wf caps" "no_grant caps" "\<not> cap_grant c"
    and "\<And>caps' k1. kernel_wf k1 \<Longrightarrow> cap_table_wf caps' \<Longrightarrow> no_grant caps' \<Longrightarrow> \<exists>k2. f caps' k1 = Ret k2 \<and> loads T k1 k2"
  shows "\<exists>k2. (case CapTable_insert c caps k of (_, caps', k1) \<Rightarrow> f caps' k1) = Ret k2 \<and> loads T k k2"
proof -
  obtain r caps' k1 where i: "CapTable_insert c caps k = (r, caps', k1)" using prod_cases3 by blast
  note l = insert_loads [OF i assms(1)] and n = insert_no_grant [OF i assms(2-4)]
  obtain k2 where "f caps' k1 = Ret k2" "loads T k1 k2" using assms(5) [OF loads_wf [OF l] n(2,1)] by blast
  then show ?thesis using i loads_trans [OF l] by auto
qed

lemma cap_grants [simp]: "\<not> cap_grant console_cap" "\<not> cap_grant probe_cap" "\<not> cap_grant dist_service_cap"
  by (simp_all add: console_cap_def probe_cap_def dist_service_cap_def)

lemma workers_load:
  "kernel_wf k \<Longrightarrow> \<forall>i \<in> set is. HARNESS_WORKER_BASE + i < MAX_TASKS \<Longrightarrow>
   \<exists>k'. place_workers e is k = Ret k' \<and> loads ((+) HARNESS_WORKER_BASE ` set is) k k'"
proof (induction "is" arbitrary: k)
  case Nil
  then show ?case by (simp add: loads_def)
next
  case (Cons i "is")
  have "\<exists>k1. place_task (HARNESS_WORKER_BASE + i) e CapTable_new k = Ret k1 \<and> loads {HARNESS_WORKER_BASE + i} k k1"
    using Cons(2,3) by (intro place_loads) simp_all
  from loads_bind [OF this, of "place_workers e is" "(+) HARNESS_WORKER_BASE ` set is"]
  show ?case using Cons(1,3) by simp
qed

lemmas slot_numbers = HARNESS_CRASHER_def HARNESS_DEAD_def HARNESS_PROBE_def HARNESS_WORKER_BASE_def WORKER_COUNT_def
  HARNESS_SECURITY_def HARNESS_SERVICE_def HARNESS_WATCHDOG_def HARNESS_PERSIST_def DIST_DRIVER_def DIST_BACKING_def
  DIST_REPLICA_def PREEMPT_DRIVER_def PREEMPT_BUSY_A_def PREEMPT_BUSY_B_def PREEMPT_VICTIM_def PREEMPT_SERVER_def MAX_TASKS_def

lemma all_workers_load:
  "kernel_wf k \<Longrightarrow> \<exists>k'. place_workers e [0..<WORKER_COUNT] k = Ret k' \<and>
     loads ((+) HARNESS_WORKER_BASE ` {0..<WORKER_COUNT}) k k'"
  using workers_load [of k "[0..<WORKER_COUNT]" e] by (simp add: slot_numbers)

lemma load_harness_demo_loads:
  "kernel_wf k \<Longrightarrow> \<exists>k'. load_harness_demo e k = Ret k' \<and>
     loads ({HARNESS_CRASHER} \<union> ({HARNESS_DEAD} \<union> ({HARNESS_PROBE} \<union> (+) HARNESS_WORKER_BASE ` {0..<WORKER_COUNT}))) k k'"
  unfolding load_harness_demo_def
  by (intro loads_bind place_loads insert_then_loads all_workers_load)
    (simp_all add: slot_numbers)

lemma fragile_then_loads:
  assumes "kernel_wf k"
    and "\<And>caps' k1. kernel_wf k1 \<Longrightarrow> cap_table_wf caps' \<Longrightarrow> no_grant caps' \<Longrightarrow> \<exists>k2. f caps' k1 = Ret k2 \<and> loads T k1 k2"
  shows "\<exists>k2. (case fragile_service_caps k of (caps', k1) \<Rightarrow> f caps' k1) = Ret k2 \<and> loads T k k2"
  using insert_then_loads [OF assms(1) cap_table_wf_new no_grant_new cap_grants(1), of f T] assms(2)
  by (auto simp: fragile_service_caps_def split: prod.splits)

lemma dist_then_loads:
  assumes "kernel_wf k"
    and "\<And>caps' k1. kernel_wf k1 \<Longrightarrow> cap_table_wf caps' \<Longrightarrow> no_grant caps' \<Longrightarrow> \<exists>k2. f caps' k1 = Ret k2 \<and> loads T k1 k2"
  shows "\<exists>k2. (case dist_service_caps k of (caps', k1) \<Rightarrow> f caps' k1) = Ret k2 \<and> loads T k k2"
  using insert_then_loads [OF assms(1) cap_table_wf_new no_grant_new cap_grants(1),
      of "\<lambda>caps k. case CapTable_insert dist_service_cap caps k of (_, caps, k) \<Rightarrow> f caps k" T]
    insert_then_loads [OF _ _ _ cap_grants(3), of _ _ f T] assms(2)
  by (auto simp: dist_service_caps_def split: prod.splits)

lemma load_watchdog_demo_loads:
  "kernel_wf k \<Longrightarrow> \<exists>k'. load_watchdog_demo e k = Ret k' \<and> loads ({HARNESS_SERVICE} \<union> {HARNESS_WATCHDOG}) k k'"
  unfolding load_watchdog_demo_def
  by (intro fragile_then_loads loads_bind place_loads) (simp_all add: slot_numbers)

lemma load_distribution_demo_loads:
  "kernel_wf k \<Longrightarrow> \<exists>k'. load_distribution_demo e k = Ret k' \<and> loads ({DIST_DRIVER} \<union> ({DIST_BACKING} \<union> {DIST_REPLICA})) k k'"
  unfolding load_distribution_demo_def
  by (intro dist_then_loads loads_bind place_loads) (simp_all add: slot_numbers)

lemma load_preemption_demo_loads:
  "kernel_wf k \<Longrightarrow> \<exists>k'. load_preemption_demo e k = Ret k' \<and>
     loads ({PREEMPT_DRIVER} \<union> ({PREEMPT_BUSY_A} \<union> ({PREEMPT_BUSY_B} \<union> ({PREEMPT_VICTIM} \<union> {PREEMPT_SERVER})))) k k'"
  unfolding load_preemption_demo_def
  by (intro loads_bind place_loads) (simp_all add: slot_numbers)

lemma load_single_demo_loads:
  "kernel_wf k \<Longrightarrow> \<exists>k'. load_security_demo e k = Ret k' \<and> loads {HARNESS_SECURITY} k k'"
  "kernel_wf k \<Longrightarrow> \<exists>k'. load_persistence_demo e k = Ret k' \<and> loads {HARNESS_PERSIST} k k'"
  unfolding load_security_demo_def load_persistence_demo_def
  by (intro place_loads; simp add: slot_numbers)+

definition demo_slots :: "nat set" where
  "demo_slots = {90..94} \<union> {100..119} \<union> {123..125} \<union> {128..130}"

text \<open>Loading the demonstrations.  Boot's loaders never fail: they place thirty-one fresh tasks, all ready, in thirty-one different slots
  and touch no other slot, in particular none of the three that the capability demonstration uses as scratch space;
  no task they place holds a capability it could delegate.\<close>

theorem demos_are_loaded:
  assumes "kernel_wf k"
  shows "(\<exists>k'. load_demos e k = Ret k' \<and> loads demo_slots k k') \<and> card demo_slots = 31
     \<and> demo_slots \<inter> {demo_A, demo_B, demo_C} = {}"
proof -
  have s: "({HARNESS_CRASHER} \<union> ({HARNESS_DEAD} \<union> ({HARNESS_PROBE} \<union> (+) HARNESS_WORKER_BASE ` {0..<WORKER_COUNT})))
      \<union> ({HARNESS_SECURITY} \<union> (({HARNESS_SERVICE} \<union> {HARNESS_WATCHDOG}) \<union> ({HARNESS_PERSIST}
      \<union> (({DIST_DRIVER} \<union> ({DIST_BACKING} \<union> {DIST_REPLICA}))
      \<union> ({PREEMPT_DRIVER} \<union> ({PREEMPT_BUSY_A} \<union> ({PREEMPT_BUSY_B} \<union> ({PREEMPT_VICTIM} \<union> {PREEMPT_SERVER}))))))))
      = demo_slots"
    by (auto simp: slot_numbers demo_slots_def)
  have "\<exists>k'. load_demos e k = Ret k' \<and> loads demo_slots k k'"
    unfolding load_demos_def s [symmetric]
    by (intro loads_bind load_harness_demo_loads load_single_demo_loads load_watchdog_demo_loads
        load_distribution_demo_loads load_preemption_demo_loads assms)
  moreover have "card demo_slots = 31"
    unfolding demo_slots_def by code_simp
  moreover have "demo_slots \<inter> {demo_A, demo_B, demo_C} = {}"
    by (auto simp: demo_slots_def demo_ids)
  ultimately show ?thesis by blast
qed

theorem demos_are_loaded_witness:
  "\<exists>e k'. load_demos e (sample_kernel Ready) = Ret k' \<and> loads demo_slots (sample_kernel Ready) k'"
  using demos_are_loaded [OF kernel_wf_sample] by blast

subsection \<open>What the demonstration tasks do\<close>

text \<open>The send of \<open>task_probe\<close>; the words of the payload are \<open>ping\<close>.\<close>

definition probe_send :: "kernel \<Rightarrow> unit progress \<times> kernel" where
  "probe_send k = sys_send_typed 0 (tag_to_u16 Ping) 1 [112, 105, 110, 103] k"

text \<open>A send to a task that is gone reports it at once instead of waiting.\<close>

lemma probe_sees_target_gone:
  assumes "current_task_id k = Some HARNESS_PROBE" and "authorised k HARNESS_PROBE 0 = Some HARNESS_DEAD"
    and "get_task k HARNESS_DEAD = None \<or> map_option t_state (get_task k HARNESS_DEAD) = Some Terminated"
  shows "fst (probe_send k) = Done (Inl TargetGone)"
proof -
  let ?k = "log_trace ''ipc_send'' (of_nat 0) (ucast (tag_to_u16 Ping)) k"
  let ?m = "make_message HARNESS_PROBE Ping 1 [112, 105, 110, 103]"
  have "check_send (tag_to_u16 Ping) 1 [112, 105, 110, 103] = Inr Ping"
    by (simp add: check_send_def PAYLOAD_MAX_def del: tag_to_u16.simps)
  then have "probe_send k = send_iter HARNESS_PROBE 0 ?m ?k"
    using assms(1) by (simp add: probe_send_def sys_send_typed_def send_begin_def del: tag_to_u16.simps)
  moreover have "authorised ?k HARNESS_PROBE 0 = Some HARNESS_DEAD" using assms(2) by (simp add: authorised_def)
  ultimately show ?thesis
    using send_iter_gone(1) [of ?k HARNESS_PROBE 0 HARNESS_DEAD ?m] assms(3)
    by (cases "send_iter HARNESS_PROBE 0 ?m ?k") (simp del: tag_to_u16.simps)
qed

definition task_is_terminated :: "nat \<Rightarrow> kernel \<Rightarrow> bool" where
  "task_is_terminated slot k =
     (case get_task k slot of Some t \<Rightarrow> t_state t = Terminated | None \<Rightarrow> True)"

text \<open>The two tasks that compute without yielding: one iteration of their loop counts, and ends once the budget of ticks has
  passed since the start.\<close>

definition BUSY_TICK_BUDGET :: u64 where
  "BUSY_TICK_BUDGET = 12"

definition busy_iter :: "u64 \<Rightarrow> u64 \<Rightarrow> nat \<Rightarrow> nat \<times> bool" where
  "busy_iter start now count = (count + 1, BUSY_TICK_BUDGET \<le> now - start)"

text \<open>The loop over the ticks it reads; \<open>None\<close> while it is still running.\<close>

fun busy_loop :: "u64 \<Rightarrow> u64 list \<Rightarrow> nat \<Rightarrow> nat option" where
  "busy_loop start [] count = None"
| "busy_loop start (now # later) count =
     (case busy_iter start now count of (count, finished) \<Rightarrow> if finished then Some count else busy_loop start later count)"

lemma busy_loop_ends:
  "(\<exists>n. busy_loop start nows count = Some n) \<longleftrightarrow> (\<exists>now \<in> set nows. BUSY_TICK_BUDGET \<le> now - start)"
  by (induction nows arbitrary: count) (auto simp: busy_iter_def)

lemma busy_loop_progress: "busy_loop start nows count = Some n \<Longrightarrow> count < n"
  by (induction nows arbitrary: count) (auto simp: busy_iter_def split: if_splits dest: less_trans [OF lessI])

text \<open>The driver: forty yields, the flag that lets the busy tasks go, the bounded wait, the verdict on time slicing, the
  experiment, and disarming.  The statics of the demonstration are beside the kernel; \<open>env\<close> is what happens while the
  driver has yielded.\<close>

record busy_state =
  GO_BUSY :: bool
  BUSY_A_COUNT :: nat
  BUSY_B_COUNT :: nat

definition GUARD_BOUND :: nat where
  "GUARD_BOUND = 2000000"

function wait_busy ::
  "(nat \<Rightarrow> kernel \<times> busy_state \<Rightarrow> kernel \<times> busy_state) \<Rightarrow> nat \<Rightarrow> kernel \<times> busy_state \<Rightarrow> kernel \<times> busy_state" where
  "wait_busy env guard s =
     (if task_is_terminated PREEMPT_BUSY_A (fst s) \<and> task_is_terminated PREEMPT_BUSY_B (fst s) then s
      else if GUARD_BOUND < guard + 1 then s
      else wait_busy env (guard + 1) (env guard s))"
  by auto

termination
  by (relation "measure (\<lambda>(_, guard, _). GUARD_BOUND - guard)") auto

declare wait_busy.simps [simp del]

definition slicing_verdict :: "kernel \<times> busy_state \<Rightarrow> bool" where
  "slicing_verdict s \<longleftrightarrow> 0 < BUSY_A_COUNT (snd s) \<and> 0 < BUSY_B_COUNT (snd s) \<and> 0 < preemptions (preempt (fst s))"

definition preempt_demo ::
  "(nat \<Rightarrow> kernel \<times> busy_state \<Rightarrow> kernel \<times> busy_state) \<Rightarrow> (nat \<Rightarrow> kernel \<times> busy_state \<Rightarrow> kernel \<times> busy_state) \<Rightarrow>
   (nat \<Rightarrow> kernel \<Rightarrow> kernel) \<Rightarrow> (nat \<Rightarrow> kernel \<Rightarrow> kernel) \<Rightarrow> kernel \<times> busy_state \<Rightarrow>
   (bool \<times> bool \<times> bool \<times> term_outcome) run" where
  "preempt_demo settle env window window2 s =
     (let s = fold settle [0..<40] s;
          s = (set_armed True (fst s), (snd s)\<lparr>GO_BUSY := True\<rparr>);
          s = wait_busy env 0 s;
          sliced = slicing_verdict s
      in run_bind (ipc_toctou_experiment window window2 (fst s)) (\<lambda>(vulnerable, guarded, k).
           Ret (sliced, vulnerable, guarded, terminate_current_task (set_armed False k))))"

lemma wait_busy_inv:
  assumes env: "\<And>i s. P s \<Longrightarrow> P (env i s)"
  shows "P s \<Longrightarrow> P (wait_busy env guard s)"
proof (induction "GUARD_BOUND - guard" arbitrary: guard s)
  case 0
  then show ?case by (subst wait_busy.simps) simp
next
  case (Suc n)
  then show ?case using env by (subst wait_busy.simps) simp
qed

lemma fold_inv: "P s \<Longrightarrow> (\<And>i s. P s \<Longrightarrow> P (f i s)) \<Longrightarrow> P (fold f is s)"
  by (induction "is" arbitrary: s) simp_all

definition demo_ready :: "kernel \<times> busy_state \<Rightarrow> bool" where
  "demo_ready s \<longleftrightarrow> kernel_wf (fst s) \<and> victim_caps (fst s) \<noteq> None \<and> preempt_count (preempt (fst s)) = 0"

text \<open>The driver runs to its end whatever the busy tasks do, and its last two verdicts are those of the experiment.\<close>

lemma preempt_demo_completes:
  assumes "demo_ready s" and "\<And>i s. demo_ready s \<Longrightarrow> demo_ready (settle i s)"
    and "\<And>i s. demo_ready s \<and> armed (preempt (fst s)) \<Longrightarrow> demo_ready (env i s) \<and> armed (preempt (fst (env i s)))"
    and "leaves_experiment others" "leaves_experiment others2" and "\<exists>i < SPIN_BOUND. arrives i"
  shows "\<exists>sliced out. preempt_demo settle env (tick_env arrives others) (tick_env arrives2 others2) s = Ret (sliced, True, True, out)"
proof -
  let ?s1 = "fold settle [0..<40] s"
  let ?s2 = "(set_armed True (fst ?s1), (snd ?s1)\<lparr>GO_BUSY := True\<rparr>)"
  have "demo_ready ?s1" by (rule fold_inv [where P = demo_ready, OF assms(1)]) (rule assms(2))
  then have 2: "demo_ready ?s2 \<and> armed (preempt (fst ?s2))" by (simp add: demo_ready_def set_armed_def)
  have "demo_ready (wait_busy env 0 ?s2) \<and> armed (preempt (fst (wait_busy env 0 ?s2)))"
    by (rule wait_busy_inv [where P = "\<lambda>s. demo_ready s \<and> armed (preempt (fst s))", OF _ 2]) (rule assms(3))
  then have race: "race_kernel (fst (wait_busy env 0 ?s2))" by (simp add: demo_ready_def race_kernel_def)

  show ?thesis
    using toctou_holds [OF race assms(4-6), of arrives2] by (auto simp: preempt_demo_def Let_def)
qed

end
