(* ===== verification/Service_Base.thy ===== *)
theory Service_Base
  imports Revocation
begin

text \<open>
  What the services of \<open>shell/mod.rs\<close> share: the scan of a client's capability table, the
  receive / handle / reply loop, the reply channel each service installs in its own slot 1, and
  the contract of a capability gate, proved once against grant and revocation.
\<close>

subsection \<open>Scanning a client's capabilities\<close>

definition holds_cap :: "kernel \<Rightarrow> task_id \<Rightarrow> (capability \<Rightarrow> bool) \<Rightarrow> bool" where
  "holds_cap k sender p =
     (case get_task k sender of
        Some task \<Rightarrow> list_ex (\<lambda>s. case s of Some c \<Rightarrow> p c | None \<Rightarrow> False) (slots (t_caps task))
      | None \<Rightarrow> False)"

lemma holds_cap_view:
  assumes "kernel_wf k"
  shows "holds_cap k t p \<longleftrightarrow> (\<exists>s c. cap_view k (t, s) = Some c \<and> p c)"
proof (cases "get_task k t")
  case None
  then show ?thesis using cap_view_get_task [OF assms] by (simp add: holds_cap_def)
next
  case (Some task)
  have wf: "cap_table_wf (t_caps task)" using kernel_wf_task [OF assms Some] by (simp add: task_wf_def)
  have "holds_cap k t p \<longleftrightarrow> (\<exists>c \<in> caps_of (t_caps task). p c)"
    by (force simp: holds_cap_def Some list_ex_iff caps_of_def split: option.splits)
  then show ?thesis
    unfolding cap_view_get_task [OF assms] Some option.case Bex_def caps_of_cap_at [OF wf] by blast
qed

subsection \<open>The gate contract\<close>

text \<open>
  A service admits a request when the client holds a capability that \<open>admits\<close> it. A gate that
  looks at nothing but the capabilities, and at more rights no less favourably, inherits what
  grant and revocation guarantee.
\<close>

locale cap_gate =
  fixes check :: "kernel \<Rightarrow> task_id \<Rightarrow> 'r \<Rightarrow> bool \<Rightarrow> bool"
    and admits :: "capability \<Rightarrow> 'r \<Rightarrow> bool \<Rightarrow> bool"
  assumes check_iff: "kernel_wf k \<Longrightarrow> check k t r w \<longleftrightarrow> (\<exists>s c. cap_view k (t, s) = Some c \<and> admits c r w)"
    and admits_mono: "admits d r w \<Longrightarrow> cap_resource d = cap_resource c \<Longrightarrow> rights_of d \<le> rights_of c \<Longrightarrow> admits c r w"
begin

lemma check_same_view: "kernel_wf k \<Longrightarrow> kernel_wf k' \<Longrightarrow> cap_view k' = cap_view k \<Longrightarrow> check k' t r w = check k t r w"
  by (simp add: check_iff)

text \<open>Revocation closes the gate for everyone whose access came from the revoked capability.\<close>

lemma revoke_closes:
  assumes "kernel_wf k" "current_has_grant_cap_to k target" "cap_view k (target, idx) = Some c"
    and "dispatch_cap_revoke caller target idx k = (x, k')"
    and "\<And>s d. cap_view k (t, s) = Some d \<Longrightarrow> admits d r w \<Longrightarrow> (t, s) = (target, idx) \<or> in_lineage k (cap_id c) d"
  shows "\<not> check k' t r w"
proof -
  note ok = dispatch_cap_revoke_Ok [OF assms(1-4)]
  have "\<not> (\<exists>s d. cap_view k' (t, s) = Some d \<and> admits d r w)"
    unfolding ok(3) using assms(5) by (auto split: option.splits if_splits)
  then show ?thesis using check_iff [OF ok(2)] by blast
qed

text \<open>Revocation opens no gate.\<close>

lemma revoke_only_closes:
  assumes "kernel_wf k" "dispatch_cap_revoke caller target idx k = (x, k')" "check k' t r w"
  shows "check k t r w"
proof (cases "current_has_grant_cap_to k target \<and> cap_view k (target, idx) \<noteq> None")
  case True
  then obtain c where c: "cap_view k (target, idx) = Some c" by blast
  note ok = dispatch_cap_revoke_Ok [OF assms(1) conjunct1 [OF True] c assms(2)]
  from assms(3) obtain s d where "cap_view k' (t, s) = Some d" "admits d r w" using check_iff [OF ok(2)] by blast
  then have "cap_view k (t, s) = Some d" by (auto simp: ok(3) split: option.splits if_splits)
  then show ?thesis using check_iff [OF assms(1)] \<open>admits d r w\<close> by blast
next
  case False
  then have "cap_view k' = cap_view k" "kernel_wf k'"
    using dispatch_cap_revoke_refused [OF assms(1) _ assms(2)] by auto
  then show ?thesis using assms(1,3) check_same_view by blast
qed

text \<open>A grant opens a gate only for its target and only where the caller could pass.\<close>

lemma grant_confined:
  assumes "kernel_wf k" "dispatch_cap_grant caller src target rights k = (x, k')" "check k' t r w" "\<not> check k t r w"
  shows "t = target \<and> check k caller r w"
proof (cases "x = 0")
  case False
  then have "cap_view k' = cap_view k" "kernel_wf k'"
    using dispatch_cap_grant_refused [OF assms(1,2)] by auto
  then show ?thesis using assms(1,3,4) check_same_view by blast
next
  case True
  from dispatch_cap_grant_Ok [OF assms(1) assms(2) [unfolded True]]
  obtain c s d where c: "cap_view k (caller, src) = Some c" "cap_view k' = (cap_view k)((target, s) := Some d)"
    "rights_of d = inf (rights_of c) rights" "cap_resource d = cap_resource c" "kernel_wf k'" by blast
  from assms(3) obtain s' e where e: "cap_view k' (t, s') = Some e" "admits e r w"
    using check_iff [OF c(5)] by blast
  have "\<not> (\<exists>s c. cap_view k (t, s) = Some c \<and> admits c r w)" using assms(4) check_iff [OF assms(1)] by blast
  with e c(2) have "t = target" "e = d" by (auto split: if_splits)
  moreover have "admits c r w"
    using admits_mono [of d r w c] e(2) c(3,4) \<open>e = d\<close> by simp
  ultimately show ?thesis using c(1) check_iff [OF assms(1)] by blast
qed

end

subsection \<open>The service loop\<close>

definition reply_cap :: "task_id \<Rightarrow> nat \<Rightarrow> capability" where
  "reply_cap target i = \<lparr>cap_resource = IpcChannel target, cap_read = True, cap_write = True,
     cap_grant = False, cap_sealed = False, cap_id = of_nat i, cap_origin = None\<rparr>"

text \<open>
  \<open>sched.get_task_mut(TaskId(svc)).unwrap().cap_table.slots[1] = Some(..)\<close>, with identity
  \<open>base + target\<close>.
\<close>

definition install_reply :: "task_id \<Rightarrow> nat \<Rightarrow> task_id \<Rightarrow> kernel \<Rightarrow> kernel run" where
  "install_reply svc base target k =
     (case get_task k svc of
        None \<Rightarrow> Panic
      | Some _ \<Rightarrow>
          if base + target > usize_MAX then Panic
          else Ret (update_task svc (\<lambda>t. t\<lparr>t_caps := (t_caps t)\<lparr>slots :=
                 (slots (t_caps t))[1 := Some (reply_cap target (base + target))]\<rparr>\<rparr>) k))"

text \<open>
  One turn of a service on a received message: handle it, install the reply channel, send the
  reply. The send may park the service.
\<close>

definition service_turn ::
  "task_id \<Rightarrow> nat \<Rightarrow> ipc_tag \<Rightarrow> (message \<Rightarrow> 's \<Rightarrow> kernel \<Rightarrow> (bytes \<times> 's \<times> kernel) run) \<Rightarrow>
   message \<Rightarrow> 's \<Rightarrow> kernel \<Rightarrow> (unit progress \<times> 's \<times> kernel) run" where
  "service_turn svc base tag handler msg s k =
     run_bind (handler msg s k) (\<lambda>(reply, s, k).
       run_bind (install_reply svc base (msg_sender msg) k) (\<lambda>k.
         case sys_send_typed 1 (tag_to_u16 tag) 1 reply k of (p, k) \<Rightarrow> Ret (p, s, k)))"

datatype service_outcome = Replied "unit progress" | Awaiting | Yielded

definition service_iter ::
  "task_id \<Rightarrow> nat \<Rightarrow> ipc_tag \<Rightarrow> (message \<Rightarrow> 's \<Rightarrow> kernel \<Rightarrow> (bytes \<times> 's \<times> kernel) run) \<Rightarrow>
   's \<Rightarrow> kernel \<Rightarrow> (service_outcome \<times> 's \<times> kernel) run" where
  "service_iter svc base tag handler s k =
     (case sys_receive_typed k of
        (Parked, k) \<Rightarrow> Ret (Awaiting, s, k)
      | (Done (Inl _), k) \<Rightarrow> Ret (Yielded, s, yield_cpu k)
      | (Done (Inr msg), k) \<Rightarrow>
          run_bind (service_turn svc base tag handler msg s k) (\<lambda>(p, s, k). Ret (Replied p, s, k)))"

text \<open>
  \<open>ensure_*_service\<close>: start the service in its slot unless something is there. The entry point
  is an address the linker chooses.
\<close>

definition ensure_service :: "task_id \<Rightarrow> u64 \<Rightarrow> kernel \<Rightarrow> kernel run" where
  "ensure_service svc entry k =
     (if \<not> svc < length (tasks k) then Panic
      else if tasks k ! svc = None then
        (case CapTable_insert (reply_cap 64 0) CapTable_new k of
           (None, _, _) \<Rightarrow> Panic
         | (Some _, caps, k) \<Rightarrow>
             run_bind (Task_new svc entry caps k) (\<lambda>(t, k).
               Ret ((set_slot svc (Some t) k)\<lparr>tasks_spawned := tasks_spawned (set_slot svc (Some t) k) + 1\<rparr>)))
      else Ret k)"

lemma cap_at_slot1:
  "cap_table_wf t \<Longrightarrow> cap_at (t\<lparr>slots := (slots t)[1 := Some c]\<rparr>) 1 = Some c"
  by (simp add: cap_at_def cap_table_wf_def MAX_CAPS_def)

lemma install_reply_Ret:
  assumes "kernel_wf k" "get_task k svc = Some t" "base + target \<le> usize_MAX"
  shows "\<exists>k' caps. install_reply svc base target k = Ret k' \<and> kernel_wf k' \<and> authorised k' svc 1 = Some target \<and>
    (\<forall>j. get_task k' j = (if j = svc then Some (t\<lparr>t_caps := caps\<rparr>) else get_task k j)) \<and>
    current_task_id k' = current_task_id k"
proof -
  let ?f = "\<lambda>t. t\<lparr>t_caps := (t_caps t)\<lparr>slots := (slots (t_caps t))[1 := Some (reply_cap target (base + target))]\<rparr>\<rparr>"
  have r: "install_reply svc base target k = Ret (update_task svc ?f k)"
    using assms(2,3) by (simp add: install_reply_def)
  have wf: "cap_table_wf (t_caps t)" using kernel_wf_task [OF assms(1,2)] by (simp add: task_wf_def)
  have "kernel_wf (update_task svc ?f k)"
    by (rule kernel_wf_update_task [OF assms(1)]) (simp add: task_wf_def cap_table_wf_def)
  moreover have "\<forall>j. get_task (update_task svc ?f k) j = (if j = svc then Some (?f t) else get_task k j)"
    using assms(2) by (simp add: get_task_update_task)
  moreover from this have "authorised (update_task svc ?f k) svc 1 = Some target"
    using cap_at_slot1 [OF wf] by (simp add: authorised_def reply_cap_def del: One_nat_def)
  ultimately show ?thesis
    unfolding r by (intro exI [of _ "update_task svc ?f k"] exI [of _ "t_caps (?f t)"]) simp
qed

lemma check_send_tag: "length p \<le> PAYLOAD_MAX \<Longrightarrow> check_send (tag_to_u16 tag) 1 p = Inr tag"
  by (simp add: check_send_def)

text \<open>The contract of a request handler.\<close>

locale service =
  fixes handler :: "message \<Rightarrow> 's \<Rightarrow> kernel \<Rightarrow> (bytes \<times> 's \<times> kernel) run"
    and inv :: "'s \<Rightarrow> bool"
    and safe :: "message \<Rightarrow> kernel \<Rightarrow> bool"
  assumes handles: "kernel_wf k \<Longrightarrow> message_wf m \<Longrightarrow> inv s \<Longrightarrow> safe m k \<Longrightarrow>
    \<exists>reply s' k'. handler m s k = Ret (reply, s', k') \<and> inv s' \<and> reply \<noteq> [] \<and> length reply \<le> PAYLOAD_MAX \<and>
      same_but_trace k k'"
begin

text \<open>
  A turn never panics, keeps the service's invariant and the kernel well formed, and when the
  client waits for the answer it gets exactly the handler's reply and is made runnable; no third
  task is touched.
\<close>

lemma turn:
  assumes "kernel_wf k" "message_wf m" "inv s" "safe m k" "current_task_id k = Some svc" "get_task k svc = Some t"
    and "base + msg_sender m \<le> usize_MAX"
  shows "\<exists>reply s' k1 p k'. handler m s k = Ret (reply, s', k1) \<and>
    service_turn svc base tag handler m s k = Ret (p, s', k') \<and> inv s' \<and> kernel_wf k' \<and>
    (\<forall>c. get_task k (msg_sender m) = Some c \<longrightarrow> t_state c = BlockedOnReceive \<longrightarrow> msg_sender m \<noteq> svc \<longrightarrow>
       p = Done (Inr ()) \<and>
       get_task k' (msg_sender m) = Some (c\<lparr>t_ipc_buffer := Some (make_message svc tag 1 reply), t_state := Ready\<rparr>) \<and>
       (\<forall>j. j \<noteq> svc \<longrightarrow> j \<noteq> msg_sender m \<longrightarrow> get_task k' j = get_task k j))"
proof -
  obtain reply s' k1 where h: "handler m s k = Ret (reply, s', k1)" "inv s'" "length reply \<le> PAYLOAD_MAX" "same_but_trace k k1"
    using handles [OF assms(1-4)] by blast
  note same = same_but_trace_kernel [OF h(4)]
  have k1: "kernel_wf k1" "get_task k1 svc = Some t" "current_task_id k1 = Some svc"
    using same assms(1,5,6) by simp_all
  obtain k2 caps where k2: "install_reply svc base (msg_sender m) k1 = Ret k2" "kernel_wf k2"
    "authorised k2 svc 1 = Some (msg_sender m)"
    "\<forall>j. get_task k2 j = (if j = svc then Some (t\<lparr>t_caps := caps\<rparr>) else get_task k1 j)"
    "current_task_id k2 = current_task_id k1"
    using install_reply_Ret [OF k1(1,2) assms(7)] by blast
  let ?k3 = "log_trace ''ipc_send'' (of_nat 1) (ucast (tag_to_u16 tag)) k2"
  let ?m = "make_message svc tag 1 reply"
  obtain p k' where send: "send_iter svc 1 ?m ?k3 = (p, k')" by fastforce
  have full: "sys_send_typed 1 (tag_to_u16 tag) 1 reply k2 = (p, k')"
    using send k2(5) k1(3) check_send_tag [OF h(3)] by (simp add: sys_send_typed_def send_begin_def)
  have turn: "service_turn svc base tag handler m s k = Ret (p, s', k')"
    using h(1) k2(1) full by (simp add: service_turn_def)
  have wf: "kernel_wf k'" using kernel_wf_sys_send [OF k2(2), of 1 "tag_to_u16 tag" 1 reply] full by simp
  have "p = Done (Inr ()) \<and>
      get_task k' (msg_sender m) = Some (c\<lparr>t_ipc_buffer := Some ?m, t_state := Ready\<rparr>) \<and>
      (\<forall>j. j \<noteq> svc \<longrightarrow> j \<noteq> msg_sender m \<longrightarrow> get_task k' j = get_task k j)"
    if "get_task k (msg_sender m) = Some c" "t_state c = BlockedOnReceive" "msg_sender m \<noteq> svc" for c
  proof -
    have a: "authorised ?k3 svc 1 = Some (msg_sender m)" using k2(3) by (simp add: authorised_def)
    have c: "get_task ?k3 (msg_sender m) = Some c" using k2(4) that(1,3) same by simp
    note d = send_iter_delivers [OF a c that(2) send]
    show ?thesis using d(1) d(2) k2(4) that(3) same by simp
  qed
  then show ?thesis using h(1,2) turn wf by blast
qed

end

subsection \<open>Starting a service\<close>

text \<open>
  Starting a service. In an empty slot a new ready task appears that holds exactly one
  capability, a channel to the shell; an occupied slot is left alone, so starting twice is starting
  once; no other task is touched. The spawn counter goes up by two.
\<close>

theorem ensure_service_starts_once:
  assumes "kernel_wf k" "svc < MAX_TASKS"
  shows "\<exists>k'. ensure_service svc entry k = Ret k' \<and> kernel_wf k' \<and> ensure_service svc entry k' = Ret k' \<and>
    (\<forall>i. i \<noteq> svc \<longrightarrow> get_task k' i = get_task k i) \<and>
    (if get_task k svc \<noteq> None then k' = k
     else (\<exists>t. get_task k' svc = Some t \<and> t_state t = Ready \<and> t_msg_queue t = MessageQueue_new \<and>
             (\<forall>i. cap_at (t_caps t) i = (if i = 0 then Some (reply_cap 64 0\<lparr>cap_id := next_cap_id_ctr k\<rparr>) else None))) \<and>
          tasks_spawned k' = tasks_spawned k + 2)"
proof (cases "get_task k svc")
  case (Some t)
  then have "tasks k ! svc \<noteq> None" using kernel_wf_get_task [OF assms] by simp
  then have "ensure_service svc entry k = Ret k" using assms by (auto simp: ensure_service_def kernel_wf_def)
  then show ?thesis using Some assms by simp
next
  case None
  then have free: "tasks k ! svc = None" using kernel_wf_get_task [OF assms] by simp
  obtain r caps k1 where ins: "CapTable_insert (reply_cap 64 0) CapTable_new k = (r, caps, k1)" using prod_cases3 by blast
  have first: "first_index (\<lambda>s. s = None) (slots CapTable_new) = Some 0"
    by (simp add: first_index_Some CapTable_new_def MAX_CAPS_def)
  have r: "r = Some 0" "caps = \<lparr>slots = (slots CapTable_new)[0 := Some (reply_cap 64 0\<lparr>cap_id := next_cap_id_ctr k\<rparr>)]\<rparr>"
    using ins first by (auto simp: CapTable_insert_def next_cap_id_def Let_def CapTable_new_def)
  have k1: "tasks k1 = tasks k" "audit k1 = audit k" "tasks_spawned k1 = tasks_spawned k"
    using ins first by (auto simp: CapTable_insert_def next_cap_id_def Let_def log_trace_def split: if_splits)
  obtain t k2 where new: "Task_new svc entry caps k1 = Ret (t, k2)" "t_id t = svc" "t_state t = Ready" "t_caps t = caps"
    "t_msg_queue t = MessageQueue_new" "tasks k2 = tasks k1" "audit k2 = audit k1" "tasks_spawned k2 = tasks_spawned k1 + 1"
    using assms(2) by (simp add: Task_new_def Let_def split_def)
  let ?k = "(set_slot svc (Some t) k2)\<lparr>tasks_spawned := tasks_spawned (set_slot svc (Some t) k2) + 1\<rparr>"
  have e: "ensure_service svc entry k = Ret ?k"
    using assms free ins r(1) new(1) by (simp add: ensure_service_def kernel_wf_def)
  have wf2: "kernel_wf k2" using assms(1) k1 new(6,7) by (simp add: kernel_wf_def)
  have len: "svc < length (tasks k2)" using wf2 assms(2) by (simp add: kernel_wf_def)
  have cwf: "cap_table_wf caps" by (simp add: r(2) cap_table_wf_def CapTable_new_def)
  have wf: "kernel_wf ?k"
    using kernel_wf_set_slot [OF wf2, of "Some t" svc] new cwf by (simp add: task_wf_def kernel_wf_def)
  have get: "get_task ?k i = (if i = svc then Some t else get_task k i)" for i
  proof -
    have "get_task ?k i = get_task (set_slot svc (Some t) k2) i" by (simp add: get_task_def)
    moreover have "get_task k2 i = get_task k i" by (simp add: get_task_def new(6) k1(1))
    ultimately show ?thesis using len new(2) by (simp add: get_task_set_slot)
  qed
  have again: "ensure_service svc entry ?k = Ret ?k"
    using len by (simp add: ensure_service_def set_slot_def)
  have caps: "cap_at caps i = (if i = 0 then Some (reply_cap 64 0\<lparr>cap_id := next_cap_id_ctr k\<rparr>) else None)" for i
    by (simp add: r(2) cap_at_def CapTable_new_def MAX_CAPS_def nth_list_update)
  have "tasks_spawned ?k = tasks_spawned k + 2" using new(8) k1(3) by (simp add: set_slot_def)
  then show ?thesis using e wf again get None caps new by auto
qed

theorem ensure_service_starts_once_witness:
  "\<exists>k' t. ensure_service 82 0xffffffff80004000 (sample_kernel Ready) = Ret k' \<and> get_task k' 82 = Some t \<and>
     cap_at (t_caps t) 0 = Some (reply_cap 64 9)"
proof -
  have "get_task (sample_kernel Ready) 82 = None"
    using kernel_wf_get_task [OF kernel_wf_sample, of 82 Ready] by (simp add: sample_tasks MAX_TASKS_def)
  then show ?thesis
    using ensure_service_starts_once [OF kernel_wf_sample [of Ready], of 82 "0xffffffff80004000"]
    by (auto simp: MAX_TASKS_def reply_cap_def)
qed

subsection \<open>A concrete service and its client\<close>

text \<open>Service \<open>svc\<close> runs; the client, task 2, holds the capabilities \<open>cs\<close> and waits for an answer.\<close>

definition served_kernel :: "task_id \<Rightarrow> capability list \<Rightarrow> kernel" where
  "served_kernel svc cs =
     (set_slot svc (Some (sample_task svc Running (table_with [reply_cap 64 5])))
       (update_task 2 (\<lambda>t. t\<lparr>t_caps := table_with cs\<rparr>) (sample_kernel BlockedOnReceive)))\<lparr>current_task_id := Some svc\<rparr>"

lemma served_kernel:
  assumes "svc < MAX_TASKS" "svc \<noteq> 2" "length cs \<le> MAX_CAPS"
  shows "kernel_wf (served_kernel svc cs)"
    "get_task (served_kernel svc cs) 2 = Some (sample_task 2 BlockedOnReceive (table_with cs))"
    "get_task (served_kernel svc cs) svc = Some (sample_task svc Running (table_with [reply_cap 64 5]))"
    "current_task_id (served_kernel svc cs) = Some svc"
proof -
  let ?f = "\<lambda>t. t\<lparr>t_caps := table_with cs\<rparr>"
  let ?k = "update_task 2 ?f (sample_kernel BlockedOnReceive)"
  let ?t = "sample_task svc Running (table_with [reply_cap 64 5])"
  have k: "kernel_wf ?k" by (rule kernel_wf_update_task) (use assms(3) in \<open>auto simp: task_wf_def\<close>)
  have len: "svc < length (tasks ?k)" using k assms(1) by (simp add: kernel_wf_def)
  have "kernel_wf (set_slot svc (Some ?t) ?k)" by (rule kernel_wf_set_slot [OF k]) simp
  then show "kernel_wf (served_kernel svc cs)" by (simp add: served_kernel_def kernel_wf_def)
  have g: "get_task (served_kernel svc cs) i = get_task (set_slot svc (Some ?t) ?k) i" for i
    by (simp add: served_kernel_def get_task_def)
  show "get_task (served_kernel svc cs) svc = Some ?t"
    unfolding g using len by (simp add: get_task_set_slot)
  show "get_task (served_kernel svc cs) 2 = Some (sample_task 2 BlockedOnReceive (table_with cs))"
    unfolding g using len assms(2) by (simp add: get_task_set_slot get_task_update_task sample_task_def)
  show "current_task_id (served_kernel svc cs) = Some svc" by (simp add: served_kernel_def)
qed

end
