(* ===== verification/FS_Service.thy ===== *)
theory FS_Service
  imports Service_Base
begin

text \<open>
  The filesystem service, task 84 of \<open>shell/mod.rs\<close>: sixty-four nodes, each a directory or a file
  of at most 94 bytes under an absolute path of at most 30 bytes, on a mount guarded by \<open>FsNode\<close>
  capabilities.
\<close>

definition FS_MAX_NODES :: nat where "FS_MAX_NODES = 64"
definition FS_NAME_LEN :: nat where "FS_NAME_LEN = 30"
definition FS_DATA_LEN :: nat where "FS_DATA_LEN = 94"

record fs_node =
  fn_used :: bool
  fn_is_dir :: bool
  fn_name :: bytes
  fn_name_len :: nat
  fn_data :: bytes
  fn_data_len :: nat
  fn_mount :: u8

definition FsNode_empty :: fs_node where
  "FsNode_empty = \<lparr>fn_used = False, fn_is_dir = False, fn_name = replicate FS_NAME_LEN 0, fn_name_len = 0,
     fn_data = replicate FS_DATA_LEN 0, fn_data_len = 0, fn_mount = 0\<rparr>"

type_synonym fs_store = "fs_node list"

definition FsStore_new :: fs_store where
  "FsStore_new = replicate FS_MAX_NODES FsNode_empty"

definition node_name :: "fs_node \<Rightarrow> bytes" where
  "node_name n = take (fn_name_len n) (fn_name n)"

definition FsStore_find_node :: "fs_store \<Rightarrow> u8 \<Rightarrow> bytes \<Rightarrow> nat option" where
  "FsStore_find_node store mount name =
     first_index (\<lambda>node. fn_used node \<and> fn_mount node = mount \<and> node_name node = name) store"

definition fs_admits :: "capability \<Rightarrow> u8 \<Rightarrow> bool \<Rightarrow> bool" where
  "fs_admits cap mount need_write =
     (case cap_resource cap of
        FsNode m readable writable \<Rightarrow>
          m = mount \<and> (if need_write then writable \<and> cap_write cap else readable \<and> cap_read cap)
      | _ \<Rightarrow> False)"

definition fs_check_cap :: "kernel \<Rightarrow> task_id \<Rightarrow> u8 \<Rightarrow> bool \<Rightarrow> bool" where
  "fs_check_cap k sender mount need_write = holds_cap k sender (\<lambda>cap. fs_admits cap mount need_write)"

definition ensure_fs_service :: "u64 \<Rightarrow> kernel \<Rightarrow> kernel run" where
  "ensure_fs_service entry k = ensure_service 84 entry k"

subsection \<open>The operations\<close>

text \<open>\<open>for (idx, node) in store.nodes.iter().enumerate() { if !node.used { found_slot = Some(idx); break; } }\<close>\<close>

definition free_node :: "fs_store \<Rightarrow> nat option" where
  "free_node store = first_index (\<lambda>node. \<not> fn_used node) store"

definition fs_mkdir :: "u8 \<Rightarrow> bytes \<Rightarrow> fs_store \<Rightarrow> bytes \<times> fs_store" where
  "fs_mkdir mount name store =
     (if FsStore_find_node store mount name \<noteq> None then ([4], store)
      else case free_node store of
             Some idx \<Rightarrow>
               ([0], store[idx := (store ! idx)\<lparr>fn_used := True, fn_is_dir := True,
                  fn_name := copy_into (fn_name (store ! idx)) 0 name, fn_name_len := length name,
                  fn_data_len := 0, fn_mount := mount\<rparr>])
           | None \<Rightarrow> ([3], store))"

definition fs_write :: "u8 \<Rightarrow> bytes \<Rightarrow> message \<Rightarrow> fs_store \<Rightarrow> bytes \<times> fs_store" where
  "fs_write mount name msg store =
     (let data_len = unat (msg_payload msg ! 33)
      in if data_len > 94 \<or> msg_len msg < 34 + data_len then ([4], store)
         else let data = slice 34 (34 + data_len) (msg_payload msg)
              in case FsStore_find_node store mount name of
                   Some idx \<Rightarrow>
                     if fn_is_dir (store ! idx) then ([4], store)
                     else ([0], store[idx := (store ! idx)\<lparr>fn_data := copy_into (fn_data (store ! idx)) 0 data,
                             fn_data_len := data_len\<rparr>])
                 | None \<Rightarrow>
                     (case free_node store of
                        Some idx \<Rightarrow>
                          ([0], store[idx := (store ! idx)\<lparr>fn_used := True, fn_is_dir := False,
                             fn_name := copy_into (fn_name (store ! idx)) 0 name, fn_name_len := length name,
                             fn_data := copy_into (fn_data (store ! idx)) 0 data, fn_data_len := data_len,
                             fn_mount := mount\<rparr>])
                      | None \<Rightarrow> ([3], store)))"

definition fs_read :: "u8 \<Rightarrow> bytes \<Rightarrow> fs_store \<Rightarrow> bytes" where
  "fs_read mount name store =
     (case FsStore_find_node store mount name of
        Some idx \<Rightarrow>
          if fn_is_dir (store ! idx) then [2]
          else let node = store ! idx;
                   reply = (replicate 128 0)[0 := 0, 1 := of_nat (fn_data_len node)]
               in take (2 + fn_data_len node) (copy_into reply 2 (take (fn_data_len node) (fn_data node)))
      | None \<Rightarrow> [2])"

definition fs_delete :: "u8 \<Rightarrow> bytes \<Rightarrow> fs_store \<Rightarrow> bytes \<times> fs_store" where
  "fs_delete mount name store =
     (case FsStore_find_node store mount name of
        Some idx \<Rightarrow> ([0], store[idx := (store ! idx)\<lparr>fn_used := False\<rparr>])
      | None \<Rightarrow> ([2], store))"

definition fs_stat :: "u8 \<Rightarrow> bytes \<Rightarrow> fs_store \<Rightarrow> bytes" where
  "fs_stat mount name store =
     (case FsStore_find_node store mount name of
        Some idx \<Rightarrow>
          (let node = store ! idx
           in [0, if fn_is_dir node then 1 else 0] @ le_bytes 8 (of_nat (fn_data_len node)) @ [fn_mount node])
      | None \<Rightarrow> [2])"

text \<open>
  Listing a directory. \<open>ls_prefix\<close> is the path with a slash at its end; for the empty path the
  source computes \<open>name_len - 1\<close> and panics. The loop keeps the text written behind the two header
  bytes and the number of entries.
\<close>

definition SLASH :: u8 where "SLASH = 0x2F"

definition ls_prefix :: "bytes \<Rightarrow> bytes run" where
  "ls_prefix name =
     (if name = [SLASH] then Ret [SLASH]
      else if name = [] then Panic
      else Ret (if name ! (length name - 1) \<noteq> SLASH then name @ [SLASH] else name))"

definition ls_entry :: "bytes \<Rightarrow> bytes \<times> nat \<Rightarrow> bytes \<times> nat" where
  "ls_entry suffix acc =
     (if SLASH \<notin> set suffix \<and> (2 + length (fst acc)) + length suffix + 1 \<le> 128
      then (fst acc @ suffix @ [0x0A], snd acc + 1) else acc)"

definition ls_node :: "u8 \<Rightarrow> bytes \<Rightarrow> bytes \<Rightarrow> fs_node \<Rightarrow> bytes \<times> nat \<Rightarrow> bytes \<times> nat" where
  "ls_node mount name prefix node acc =
     (if fn_used node \<and> fn_mount node = mount
      then let nn = node_name node
           in if take (length prefix) nn = prefix \<and> nn \<noteq> name then ls_entry (drop (length prefix) nn) acc
              else if name = [SLASH] \<and> take 1 nn = [SLASH] \<and> nn \<noteq> [SLASH] then ls_entry (drop 1 nn) acc
              else acc
      else acc)"

definition fs_ls :: "u8 \<Rightarrow> bytes \<Rightarrow> fs_store \<Rightarrow> bytes run" where
  "fs_ls mount name store =
     run_bind (ls_prefix name) (\<lambda>prefix.
       case fold (ls_node mount name prefix) store ([], 0) of
         (out, count) \<Rightarrow> Ret (0 # of_nat count # out))"

subsection \<open>The handler\<close>

record fs_state =
  fs_nodes :: fs_store
  fs_ops :: u64

definition fs_dispatch ::
  "u8 \<Rightarrow> u8 \<Rightarrow> bytes \<Rightarrow> message \<Rightarrow> fs_store \<Rightarrow> kernel \<Rightarrow> (bytes \<times> fs_store) run" where
  "fs_dispatch opc mount name msg store k =
     (let check = fs_check_cap k (msg_sender msg) mount
      in if opc = 0 then Ret (if \<not> check True then ([1], store) else fs_mkdir mount name store)
         else if opc = 1 then Ret (if \<not> check True then ([1], store) else fs_write mount name msg store)
         else if opc = 2 then Ret (if \<not> check False then ([1], store) else (fs_read mount name store, store))
         else if opc = 3 then
           (if \<not> check False then Ret ([1], store)
            else run_bind (fs_ls mount name store) (\<lambda>reply. Ret (reply, store)))
         else if opc = 4 then Ret (if \<not> check True then ([1], store) else fs_delete mount name store)
         else if opc = 5 then Ret (if \<not> check False then ([1], store) else (fs_stat mount name store, store))
         else Ret ([4], store))"

definition fs_handle :: "message \<Rightarrow> fs_state \<Rightarrow> kernel \<Rightarrow> (bytes \<times> fs_state \<times> kernel) run" where
  "fs_handle msg s k =
     (let s = s\<lparr>fs_ops := fs_ops s + 1\<rparr>
      in if msg_tag msg \<noteq> FsOp then Ret ([4], s, k)
         else if msg_len msg < 3 then Ret ([4], s, k)
         else let opc = msg_payload msg ! 0;
                  mount = msg_payload msg ! 1;
                  name_len = unat (msg_payload msg ! 2)
              in if name_len > 30 \<or> msg_len msg < 3 + name_len then Ret ([4], s, k)
                 else let name = slice 3 (3 + name_len) (msg_payload msg);
                          k = log_trace ''fs_op'' (ucast opc) 0 k
                      in run_bind (fs_dispatch opc mount name msg (fs_nodes s) k)
                           (\<lambda>(reply, nodes). Ret (reply, s\<lparr>fs_nodes := nodes\<rparr>, k)))"

definition fs_service_iter :: "fs_state \<Rightarrow> kernel \<Rightarrow> (service_outcome \<times> fs_state \<times> kernel) run" where
  "fs_service_iter = service_iter 84 84000 FsReply fs_handle"

subsection \<open>The abstract filesystem\<close>

text \<open>
  What the service promises: a finite map from mount and path to a directory or a file's contents.
  A path is bound at most once in the store, so the first node found is the only one.
\<close>

datatype fs_file = Dir | File bytes

type_synonym fs_key = "u8 \<times> bytes"

definition node_key :: "fs_node \<Rightarrow> fs_key" where
  "node_key n = (fn_mount n, node_name n)"

definition node_file :: "fs_node \<Rightarrow> fs_file" where
  "node_file n = (if fn_is_dir n then Dir else File (take (fn_data_len n) (fn_data n)))"

definition fs_abs :: "fs_store \<Rightarrow> fs_key \<Rightarrow> fs_file option" where
  "fs_abs s key = map_option (\<lambda>i. node_file (s ! i)) (FsStore_find_node s (fst key) (snd key))"

definition fs_full :: "fs_store \<Rightarrow> bool" where
  "fs_full s \<longleftrightarrow> list_all fn_used s"

definition node_wf :: "fs_node \<Rightarrow> bool" where
  "node_wf n \<longleftrightarrow> length (fn_name n) = FS_NAME_LEN \<and> fn_name_len n \<le> FS_NAME_LEN \<and>
     length (fn_data n) = FS_DATA_LEN \<and> fn_data_len n \<le> FS_DATA_LEN \<and> (fn_is_dir n \<longrightarrow> fn_data_len n = 0)"

definition binds :: "fs_store \<Rightarrow> nat \<Rightarrow> fs_key \<Rightarrow> bool" where
  "binds s i key \<longleftrightarrow> i < length s \<and> fn_used (s ! i) \<and> node_key (s ! i) = key"

definition fs_inv :: "fs_store \<Rightarrow> bool" where
  "fs_inv s \<longleftrightarrow> length s = FS_MAX_NODES \<and> (\<forall>n \<in> set s. node_wf n) \<and>
     (\<forall>i j key. binds s i key \<longrightarrow> binds s j key \<longrightarrow> i = j)"

lemma fs_inv_D:
  "fs_inv s \<Longrightarrow> length s = FS_MAX_NODES" "fs_inv s \<Longrightarrow> i < length s \<Longrightarrow> node_wf (s ! i)"
  "fs_inv s \<Longrightarrow> binds s i key \<Longrightarrow> binds s j key \<Longrightarrow> i = j"
  by (simp_all add: fs_inv_def del: split_paired_All)

lemma FsStore_new_inv [simp]: "fs_inv FsStore_new"
proof -
  have "\<not> binds FsStore_new i key" for i key by (auto simp: binds_def FsStore_new_def FsNode_empty_def)
  then show ?thesis by (simp add: fs_inv_def FsStore_new_def FsNode_empty_def node_wf_def)
qed

lemma find_node_Some: "FsStore_find_node s m nm = Some i \<Longrightarrow> binds s i (m, nm)"
  by (simp add: FsStore_find_node_def first_index_Some binds_def node_key_def)

lemma find_node_None: "FsStore_find_node s m nm = None \<Longrightarrow> \<not> binds s i (m, nm)"
  by (auto simp: FsStore_find_node_def first_index_None binds_def node_key_def)

lemma fs_abs_None: "fs_abs s key = None \<longleftrightarrow> (\<forall>i. \<not> binds s i key)"
  using find_node_Some [of s "fst key" "snd key"] find_node_None [of s "fst key" "snd key"]
  by (cases "FsStore_find_node s (fst key) (snd key)") (auto simp: fs_abs_def)

lemma fs_abs_bound:
  assumes "fs_inv s" "binds s i key"
  shows "fs_abs s key = Some (node_file (s ! i))"
proof -
  obtain j where j: "FsStore_find_node s (fst key) (snd key) = Some j"
    using assms(2) find_node_None [of s "fst key" "snd key" i] by (cases "FsStore_find_node s (fst key) (snd key)") auto
  then have "binds s j key" using find_node_Some by fastforce
  then show ?thesis using j fs_inv_D(3) [OF assms(1,2)] by (simp add: fs_abs_def)
qed

lemma free_node_Some: "free_node s = Some i \<Longrightarrow> i < length s \<and> \<not> fn_used (s ! i)"
  by (simp add: free_node_def first_index_Some)

lemma free_node_None: "free_node s = None \<longleftrightarrow> fs_full s"
  by (simp add: free_node_def first_index_None fs_full_def list_all_iff)

text \<open>Storing a node at an index that was free, or that already carried its path.\<close>

lemma store_node:
  assumes inv: "fs_inv s" and i: "i < length s" and wf: "node_wf n" and used: "fn_used n"
    and key: "\<And>j. binds s j (node_key n) \<Longrightarrow> j = i" and old: "fn_used (s ! i) \<Longrightarrow> node_key (s ! i) = node_key n"
  shows "fs_inv (s[i := n])" "fs_abs (s[i := n]) = (fs_abs s)(node_key n \<mapsto> node_file n)"
proof -
  have b: "binds (s[i := n]) j kk \<longleftrightarrow> (if kk = node_key n then j = i else binds s j kk)" for j kk
    using i used key old by (auto simp: binds_def nth_list_update split: if_splits)
  have "\<forall>m \<in> set (s[i := n]). node_wf m"
    using inv wf by (auto simp: fs_inv_def dest!: subsetD [OF set_update_subset_insert])
  then show inv': "fs_inv (s[i := n])"
    using inv unfolding fs_inv_def b length_list_update by presburger
  show "fs_abs (s[i := n]) = (fs_abs s)(node_key n \<mapsto> node_file n)"
  proof
    fix kk
    consider "kk = node_key n" | "kk \<noteq> node_key n" "fs_abs s kk = None" | j where "kk \<noteq> node_key n" "binds s j kk"
      by (auto simp: fs_abs_None)
    then show "fs_abs (s[i := n]) kk = ((fs_abs s)(node_key n \<mapsto> node_file n)) kk"
    proof cases
      case 1
      then show ?thesis using fs_abs_bound [OF inv', of i kk] b i by simp
    next
      case 2
      then have "fs_abs (s[i := n]) kk = None" unfolding fs_abs_None b by (simp add: fs_abs_None)
      then show ?thesis using 2 by simp
    next
      case 3
      then have "j \<noteq> i" using old by (auto simp: binds_def)
      then show ?thesis using 3 fs_abs_bound [OF inv', of j kk] fs_abs_bound [OF inv 3(2)] b by simp
    qed
  qed
qed

lemma drop_node:
  assumes inv: "fs_inv s" and i: "binds s i kk"
  shows "fs_inv (s[i := (s ! i)\<lparr>fn_used := False\<rparr>])" "fs_abs (s[i := (s ! i)\<lparr>fn_used := False\<rparr>]) = (fs_abs s)(kk := None)"
proof -
  let ?s = "s[i := (s ! i)\<lparr>fn_used := False\<rparr>]"
  have b: "binds ?s j kk' \<longleftrightarrow> binds s j kk' \<and> kk' \<noteq> kk" for j kk'
    using i fs_inv_D(3) [OF inv] by (auto simp: binds_def nth_list_update split: if_splits)
  have "node_wf ((s ! i)\<lparr>fn_used := False\<rparr>)"
    using fs_inv_D(2) [OF inv] i by (auto simp: node_wf_def binds_def)
  then have "\<forall>m \<in> set ?s. node_wf m"
    using inv by (auto simp: fs_inv_def dest!: subsetD [OF set_update_subset_insert])
  then show inv': "fs_inv ?s"
    using inv unfolding fs_inv_def b length_list_update by blast
  show "fs_abs ?s = (fs_abs s)(kk := None)"
  proof
    fix kk'
    consider "kk' = kk \<or> fs_abs s kk' = None" | j where "kk' \<noteq> kk" "binds s j kk'" by (auto simp: fs_abs_None)
    then show "fs_abs ?s kk' = ((fs_abs s)(kk := None)) kk'"
    proof cases
      case 1
      then have "fs_abs ?s kk' = None" unfolding fs_abs_None b by blast
      then show ?thesis using 1 by auto
    next
      case 2
      then have "j \<noteq> i" using i by (auto simp: binds_def)
      then show ?thesis using 2 fs_abs_bound [OF inv', of j kk'] fs_abs_bound [OF inv 2(2)] b by simp
    qed
  qed
qed

text \<open>The store is full exactly when sixty-four paths are bound.\<close>

lemma card_dom_fs_abs:
  assumes "fs_inv s"
  shows "card (dom (fs_abs s)) = card {i. i < length s \<and> fn_used (s ! i)}"
proof -
  let ?U = "{i. i < length s \<and> fn_used (s ! i)}"
  have "dom (fs_abs s) = (\<lambda>i. node_key (s ! i)) ` ?U"
    using fs_abs_None [of s] by (auto simp: dom_def binds_def image_def)
  moreover have "inj_on (\<lambda>i. node_key (s ! i)) ?U"
    by (rule inj_onI) (use fs_inv_D(3) [OF assms] in \<open>auto simp: binds_def\<close>)
  ultimately show ?thesis by (simp add: card_image)
qed

lemma card_dom_fs_abs_le: "fs_inv s \<Longrightarrow> card (dom (fs_abs s)) \<le> FS_MAX_NODES"
  using card_mono [of "{..<length s}" "{i. i < length s \<and> fn_used (s ! i)}"]
  by (auto simp: card_dom_fs_abs fs_inv_D(1))

lemma fs_full_card:
  assumes "fs_inv s"
  shows "fs_full s \<longleftrightarrow> card (dom (fs_abs s)) = FS_MAX_NODES"
proof -
  let ?U = "{i. i < length s \<and> fn_used (s ! i)}"
  have "fs_full s \<longleftrightarrow> ?U = {..<length s}" by (auto simp: fs_full_def list_all_length)
  also have "\<dots> \<longleftrightarrow> card ?U = length s"
  proof
    assume "card ?U = length s"
    then show "?U = {..<length s}" by (intro card_subset_eq) auto
  qed simp
  finally show ?thesis using card_dom_fs_abs [OF assms] fs_inv_D(1) [OF assms] by simp
qed

text \<open>
  The service as operations on the abstract map: reply and new map of each request on a path. A
  write carries the bytes, or \<open>None\<close> when the request is malformed.
\<close>

datatype fs_request = Mkdir | Write "bytes option" | Read | Delete | Stat

fun fs_spec :: "fs_request \<Rightarrow> fs_key \<Rightarrow> (fs_key \<Rightarrow> fs_file option) \<Rightarrow> bytes \<times> (fs_key \<Rightarrow> fs_file option)" where
  "fs_spec Mkdir key a =
     (if a key \<noteq> None then ([4], a) else if card (dom a) = FS_MAX_NODES then ([3], a) else ([0], a(key \<mapsto> Dir)))"
| "fs_spec (Write None) key a = ([4], a)"
| "fs_spec (Write (Some d)) key a =
     (case a key of
        Some Dir \<Rightarrow> ([4], a)
      | Some (File _) \<Rightarrow> ([0], a(key \<mapsto> File d))
      | None \<Rightarrow> if card (dom a) = FS_MAX_NODES then ([3], a) else ([0], a(key \<mapsto> File d)))"
| "fs_spec Read key a = (case a key of Some (File d) \<Rightarrow> 0 # of_nat (length d) # d | _ \<Rightarrow> [2], a)"
| "fs_spec Delete key a = (if a key = None then ([2], a) else ([0], a(key := None)))"
| "fs_spec Stat key a =
     (case a key of
        Some (File d) \<Rightarrow> [0, 0] @ le_bytes 8 (of_nat (length d)) @ [fst key]
      | Some Dir \<Rightarrow> [0, 1] @ le_bytes 8 0 @ [fst key]
      | None \<Rightarrow> [2], a)"

text \<open>The bytes a write request carries.\<close>

definition write_data :: "message \<Rightarrow> bytes option" where
  "write_data msg =
     (let n = unat (msg_payload msg ! 33)
      in if n > 94 \<or> msg_len msg < 34 + n then None else Some (slice 34 (34 + n) (msg_payload msg)))"

lemma write_data_len: "message_wf msg \<Longrightarrow> write_data msg = Some d \<Longrightarrow> length d = unat (msg_payload msg ! 33) \<and> length d \<le> 94"
  by (auto simp: write_data_def Let_def message_wf_def PAYLOAD_MAX_def split: if_splits)

lemma fs_abs_find:
  assumes "fs_inv s"
  shows "fs_abs s (m, nm) = (case FsStore_find_node s m nm of Some i \<Rightarrow> Some (node_file (s ! i)) | None \<Rightarrow> None)"
  by (simp add: fs_abs_def split: option.split)

lemma fs_mkdir_refines:
  assumes inv: "fs_inv s" and n: "length nm \<le> FS_NAME_LEN" and r: "fs_mkdir m nm s = (reply, s')"
  shows "fs_inv s' \<and> (reply, fs_abs s') = fs_spec Mkdir (m, nm) (fs_abs s)"
proof (cases "FsStore_find_node s m nm")
  case (Some i)
  then show ?thesis using r inv by (auto simp: fs_mkdir_def fs_abs_def)
next
  case None
  then have unbound: "fs_abs s (m, nm) = None" by (simp add: fs_abs_def)
  show ?thesis
  proof (cases "free_node s")
    case None
    then have "fs_full s" by (simp add: free_node_None)
    with None \<open>FsStore_find_node s m nm = None\<close> show ?thesis
      using r inv unbound fs_full_card [OF inv] by (auto simp: fs_mkdir_def)
  next
    case (Some i)
    let ?n = "(s ! i)\<lparr>fn_used := True, fn_is_dir := True, fn_name := copy_into (fn_name (s ! i)) 0 nm,
       fn_name_len := length nm, fn_data_len := 0, fn_mount := m\<rparr>"
    have i: "i < length s" "\<not> fn_used (s ! i)" using free_node_Some [OF Some] by auto
    have wf: "node_wf (s ! i)" using fs_inv_D(2) [OF inv i(1)] .
    have nwf: "node_wf ?n" using wf n by (simp add: node_wf_def)
    have key: "node_key ?n = (m, nm)" using wf n by (simp add: node_key_def node_name_def node_wf_def)
    have nfile: "node_file ?n = Dir" by (simp add: node_file_def)
    have nb: "\<not> binds s j (node_key ?n)" for j using find_node_None [OF \<open>FsStore_find_node s m nm = None\<close>] key by simp
    have res: "reply = [0]" "s' = s[i := ?n]"
      using r Some \<open>FsStore_find_node s m nm = None\<close> by (auto simp: fs_mkdir_def)
    have "\<not> fs_full s" using Some free_node_None [of s] by simp
    moreover have "fs_inv s'" "fs_abs s' = (fs_abs s)((m, nm) \<mapsto> Dir)"
      using store_node [OF inv i(1) nwf] nb i(2) unfolding res key nfile by auto
    ultimately show ?thesis using unbound fs_full_card [OF inv] res(1) by simp
  qed
qed

lemma fs_write_refines:
  assumes inv: "fs_inv s" and n: "length nm \<le> FS_NAME_LEN" and m: "message_wf msg" and r: "fs_write m nm msg s = (reply, s')"
  shows "fs_inv s' \<and> (reply, fs_abs s') = fs_spec (Write (write_data msg)) (m, nm) (fs_abs s)"
proof (cases "write_data msg")
  case None
  then show ?thesis using r inv by (auto simp: fs_write_def write_data_def Let_def split: if_splits)
next
  case (Some d)
  have dl: "length d \<le> 94" using write_data_len [OF m Some] by simp
  have r': "(case FsStore_find_node s m nm of
        Some idx \<Rightarrow>
          if fn_is_dir (s ! idx) then ([4], s)
          else ([0], s[idx := (s ! idx)\<lparr>fn_data := copy_into (fn_data (s ! idx)) 0 d, fn_data_len := length d\<rparr>])
      | None \<Rightarrow>
          (case free_node s of
             Some idx \<Rightarrow>
               ([0], s[idx := (s ! idx)\<lparr>fn_used := True, fn_is_dir := False,
                  fn_name := copy_into (fn_name (s ! idx)) 0 nm, fn_name_len := length nm,
                  fn_data := copy_into (fn_data (s ! idx)) 0 d, fn_data_len := length d, fn_mount := m\<rparr>])
           | None \<Rightarrow> ([3], s))) = (reply, s')"
  proof -
    have e: "unat (msg_payload msg ! 33) = length d" using write_data_len [OF m Some] by simp
    have g: "\<not> (length d > 94 \<or> msg_len msg < 34 + length d)" "slice 34 (34 + length d) (msg_payload msg) = d"
      using Some e by (auto simp: write_data_def Let_def split: if_splits)
    show ?thesis using r unfolding fs_write_def Let_def e g(2) if_not_P [OF g(1)] .
  qed
  show ?thesis
  proof (cases "FsStore_find_node s m nm")
    case (Some i)
    note b = find_node_Some [OF Some]
    have a: "fs_abs s (m, nm) = Some (node_file (s ! i))" by (rule fs_abs_bound [OF inv b])
    show ?thesis
    proof (cases "fn_is_dir (s ! i)")
      case True
      then show ?thesis using r' Some a inv \<open>write_data msg = Some d\<close> by (auto simp: node_file_def)
    next
      case False
      let ?n = "(s ! i)\<lparr>fn_data := copy_into (fn_data (s ! i)) 0 d, fn_data_len := length d\<rparr>"
      have i: "i < length s" "fn_used (s ! i)" "node_key (s ! i) = (m, nm)" using b by (auto simp: binds_def)
      have wf: "node_wf (s ! i)" using fs_inv_D(2) [OF inv i(1)] .
      have nwf: "node_wf ?n" using wf dl False by (simp add: node_wf_def FS_DATA_LEN_def)
      have key: "node_key ?n = (m, nm)" using i(3) by (simp add: node_key_def node_name_def)
      have nfile: "node_file ?n = File d" using False wf dl by (simp add: node_file_def node_wf_def FS_DATA_LEN_def)
      have res: "reply = [0]" "s' = s[i := ?n]" using r' Some False by auto
      have "fs_inv s'" "fs_abs s' = (fs_abs s)((m, nm) \<mapsto> File d)"
        using store_node [OF inv i(1) nwf] i fs_inv_D(3) [OF inv _ b] unfolding res key nfile by auto
      then show ?thesis using a res(1) False \<open>write_data msg = Some d\<close> by (simp add: node_file_def)
    qed
  next
    case None
    then have unbound: "fs_abs s (m, nm) = None" by (simp add: fs_abs_def)
    show ?thesis
    proof (cases "free_node s")
      case None
      then have "fs_full s" by (simp add: free_node_None)
      with None \<open>FsStore_find_node s m nm = None\<close> show ?thesis
        using r' inv unbound fs_full_card [OF inv] \<open>write_data msg = Some d\<close> by auto
    next
      case (Some i)
      let ?n = "(s ! i)\<lparr>fn_used := True, fn_is_dir := False,
          fn_name := copy_into (fn_name (s ! i)) 0 nm, fn_name_len := length nm,
          fn_data := copy_into (fn_data (s ! i)) 0 d, fn_data_len := length d, fn_mount := m\<rparr>"
      have i: "i < length s" "\<not> fn_used (s ! i)" using free_node_Some [OF Some] by auto
      have wf: "node_wf (s ! i)" using fs_inv_D(2) [OF inv i(1)] .
      have nwf: "node_wf ?n" using wf n dl by (simp add: node_wf_def FS_DATA_LEN_def)
      have key: "node_key ?n = (m, nm)" using wf n by (simp add: node_key_def node_name_def node_wf_def)
      have nfile: "node_file ?n = File d" using wf dl by (simp add: node_file_def node_wf_def FS_DATA_LEN_def)
      have nb: "\<not> binds s j (node_key ?n)" for j using find_node_None [OF None] key by simp
      have res: "reply = [0]" "s' = s[i := ?n]" using r' Some None by auto
      have "\<not> fs_full s" using Some free_node_None [of s] by simp
      moreover have "fs_inv s'" "fs_abs s' = (fs_abs s)((m, nm) \<mapsto> File d)"
        using store_node [OF inv i(1) nwf] nb i(2) unfolding res key nfile by auto
      ultimately show ?thesis using unbound fs_full_card [OF inv] res(1) \<open>write_data msg = Some d\<close> by simp
    qed
  qed
qed

lemma fs_read_refines:
  assumes inv: "fs_inv s"
  shows "fs_read m nm s = fst (fs_spec Read (m, nm) (fs_abs s))"
proof (cases "FsStore_find_node s m nm")
  case None
  then show ?thesis by (simp add: fs_read_def fs_abs_def)
next
  case (Some i)
  have wf: "node_wf (s ! i)" using fs_inv_D(2) [OF inv] find_node_Some [OF Some] by (simp add: binds_def)
  have "take (2 + fn_data_len (s ! i)) (copy_into ((replicate 128 (0 :: u8))[0 := 0, 1 := of_nat (fn_data_len (s ! i))]) 2
      (take (fn_data_len (s ! i)) (fn_data (s ! i)))) =
    0 # of_nat (fn_data_len (s ! i)) # take (fn_data_len (s ! i)) (fn_data (s ! i))"
    using wf by (simp add: copy_into_def numeral_eq_Suc node_wf_def min_def)
  then show ?thesis
    using Some wf by (simp add: fs_read_def fs_abs_def node_file_def Let_def node_wf_def min.absorb2)
qed

lemma fs_delete_refines:
  assumes inv: "fs_inv s" and r: "fs_delete m nm s = (reply, s')"
  shows "fs_inv s' \<and> (reply, fs_abs s') = fs_spec Delete (m, nm) (fs_abs s)"
proof (cases "FsStore_find_node s m nm")
  case None
  then show ?thesis using r inv by (auto simp: fs_delete_def fs_abs_def)
next
  case (Some i)
  note b = find_node_Some [OF Some]
  show ?thesis using r Some drop_node [OF inv b] fs_abs_bound [OF inv b] by (auto simp: fs_delete_def)
qed

lemma fs_stat_refines:
  assumes inv: "fs_inv s"
  shows "fs_stat m nm s = fst (fs_spec Stat (m, nm) (fs_abs s))"
proof (cases "FsStore_find_node s m nm")
  case None
  then show ?thesis by (simp add: fs_stat_def fs_abs_def)
next
  case (Some i)
  have b: "node_wf (s ! i)" "fn_mount (s ! i) = m"
    using fs_inv_D(2) [OF inv] find_node_Some [OF Some] by (auto simp: binds_def node_key_def)
  then show ?thesis
    using Some by (simp add: fs_stat_def fs_abs_def node_file_def Let_def node_wf_def min.absorb2)
qed

subsection \<open>Listing a directory\<close>

text \<open>The children of a path: what is bound one level below it.\<close>

definition dir_path :: "bytes \<Rightarrow> bytes" where
  "dir_path name = (if last name = SLASH then name else name @ [SLASH])"

definition ls_children :: "(fs_key \<Rightarrow> fs_file option) \<Rightarrow> u8 \<Rightarrow> bytes \<Rightarrow> bytes set" where
  "ls_children a m name = {e. SLASH \<notin> set e \<and> a (m, dir_path name @ e) \<noteq> None \<and> dir_path name @ e \<noteq> name}"

lemma ls_prefix_eq: "name \<noteq> [] \<Longrightarrow> ls_prefix name = Ret (dir_path name)"
  by (auto simp: ls_prefix_def dir_path_def last_conv_nth)

definition ls_child :: "u8 \<Rightarrow> bytes \<Rightarrow> fs_node \<Rightarrow> bytes option" where
  "ls_child m name n =
     (if fn_used n \<and> fn_mount n = m \<and> take (length (dir_path name)) (node_name n) = dir_path name \<and>
         node_name n \<noteq> name \<and> SLASH \<notin> set (drop (length (dir_path name)) (node_name n))
      then Some (drop (length (dir_path name)) (node_name n)) else None)"

lemma ls_node_child:
  "ls_node m name (dir_path name) n acc = (case ls_child m name n of Some e \<Rightarrow> ls_entry e acc | None \<Rightarrow> acc)"
proof (cases "name = [SLASH]")
  case True
  then have "dir_path name = [SLASH]" by (simp add: dir_path_def)
  then show ?thesis using True by (simp add: ls_node_def ls_child_def Let_def ls_entry_def)
next
  case False
  then show ?thesis by (simp add: ls_node_def ls_child_def Let_def ls_entry_def)
qed

lemma ls_child_Some:
  "ls_child m name n = Some e \<longleftrightarrow>
     fn_used n \<and> node_key n = (m, dir_path name @ e) \<and> dir_path name @ e \<noteq> name \<and> SLASH \<notin> set e"
proof
  let ?p = "dir_path name"
  assume l: "ls_child m name n = Some e"
  then have "take (length ?p) (node_name n) = ?p" "drop (length ?p) (node_name n) = e" by (auto simp: ls_child_def split: if_splits)
  then have "node_name n = ?p @ e" by (metis append_take_drop_id)
  then show "fn_used n \<and> node_key n = (m, ?p @ e) \<and> ?p @ e \<noteq> name \<and> SLASH \<notin> set e"
    using l by (auto simp: ls_child_def node_key_def split: if_splits)
qed (simp add: ls_child_def node_key_def)

definition ls_lines :: "bytes list \<Rightarrow> bytes" where
  "ls_lines es = concat (map (\<lambda>e. e @ [0x0A]) es)"

lemma ls_fold_le:
  "length (fst acc) \<le> 126 \<Longrightarrow> length (fst (fold (ls_node m name (dir_path name)) ns acc)) \<le> 126"
  by (induction ns arbitrary: acc) (auto simp: ls_node_child ls_entry_def split: option.split)

lemma ls_fold_fits:
  "length (fst acc) + sum_list (map (\<lambda>e. length e + 1) (List.map_filter (ls_child m name) ns)) \<le> 126 \<Longrightarrow>
   fold (ls_node m name (dir_path name)) ns acc =
     (fst acc @ ls_lines (List.map_filter (ls_child m name) ns), snd acc + length (List.map_filter (ls_child m name) ns))"
proof (induction ns arbitrary: acc)
  case Nil
  then show ?case by (simp add: ls_lines_def map_filter_simps)
next
  case (Cons n ns)
  show ?case
  proof (cases "ls_child m name n")
    case None
    then show ?thesis using Cons by (simp add: ls_node_child map_filter_simps)
  next
    case (Some e)
    then have "SLASH \<notin> set e" by (simp add: ls_child_Some)
    moreover have "length (fst acc) + (length e + 1 + sum_list (map (\<lambda>e. length e + 1) (List.map_filter (ls_child m name) ns))) \<le> 126"
      using Cons.prems Some by (simp add: map_filter_simps)
    ultimately show ?thesis
      using Some Cons.IH [of "(fst acc @ e @ [0x0A], snd acc + 1)"]
      by (simp add: ls_node_child map_filter_simps ls_entry_def ls_lines_def)
  qed
qed

lemma set_map_filter: "set (List.map_filter f xs) = {y. \<exists>x \<in> set xs. f x = Some y}"
  by (force simp: List.map_filter_def)

lemma distinct_map_filter:
  "(\<And>i j y. i < length xs \<Longrightarrow> j < length xs \<Longrightarrow> f (xs ! i) = Some y \<Longrightarrow> f (xs ! j) = Some y \<Longrightarrow> i = j) \<Longrightarrow>
   distinct (List.map_filter f xs)"
proof (induction xs)
  case Nil
  then show ?case by (simp add: map_filter_simps)
next
  case (Cons x xs)
  have "distinct (List.map_filter f xs)"
    using Cons.prems [of "Suc i" "Suc j" for i j] by (intro Cons.IH) auto
  moreover have "y \<notin> set (List.map_filter f xs)" if "f x = Some y" for y
    using Cons.prems [of 0 "Suc j" for j] that by (fastforce simp: set_map_filter in_set_conv_nth)
  ultimately show ?case by (auto simp: map_filter_simps split: option.split)
qed

text \<open>
  Listing a directory. When the names of the children of a path fit in the 126 bytes of a reply,
  \<open>ls\<close> answers status 0, their number, and each child exactly once on a line of its own; nothing
  deeper in the tree and nothing on another mount is listed.
\<close>

theorem fs_ls_lists_children:
  assumes "fs_inv s" "name \<noteq> []" "(\<Sum>e \<in> ls_children (fs_abs s) m name. length e + 1) \<le> 126"
  shows "\<exists>es. fs_ls m name s = Ret (0 # of_nat (length es) # ls_lines es) \<and> distinct es \<and>
    set es = ls_children (fs_abs s) m name"
proof -
  let ?es = "List.map_filter (ls_child m name) s"
  have d: "distinct ?es"
    by (rule distinct_map_filter) (use fs_inv_D(3) [OF assms(1)] in \<open>auto simp: ls_child_Some binds_def\<close>)
  have "fs_abs s key \<noteq> None \<longleftrightarrow> (\<exists>n \<in> set s. fn_used n \<and> node_key n = key)" for key
    unfolding fs_abs_None binds_def by (metis in_set_conv_nth)
  then have s: "set ?es = ls_children (fs_abs s) m name"
    by (auto simp: set_map_filter ls_child_Some ls_children_def simp del: not_None_eq)
  then have "sum_list (map (\<lambda>e. length e + 1) ?es) \<le> 126"
    using assms(3) sum_list_distinct_conv_sum_set [OF d, of "\<lambda>e. length e + 1"] by simp
  then have "fs_ls m name s = Ret (0 # of_nat (length ?es) # ls_lines ?es)"
    using ls_fold_fits [of "([], 0)" m name s] assms(2) by (simp add: fs_ls_def ls_prefix_eq)
  then show ?thesis using d s by blast
qed

subsection \<open>The service refines the abstract filesystem\<close>

text \<open>The request a message carries; listing is separate, and so is anything malformed.\<close>

definition fs_wellformed :: "message \<Rightarrow> bool" where
  "fs_wellformed msg \<longleftrightarrow> msg_tag msg = FsOp \<and> 3 \<le> msg_len msg \<and> unat (msg_payload msg ! 2) \<le> 30 \<and>
     3 + unat (msg_payload msg ! 2) \<le> msg_len msg"

definition fs_key_of :: "message \<Rightarrow> fs_key" where
  "fs_key_of msg = (msg_payload msg ! 1, slice 3 (3 + unat (msg_payload msg ! 2)) (msg_payload msg))"

definition fs_request_of :: "message \<Rightarrow> fs_request option" where
  "fs_request_of msg =
     (let opc = msg_payload msg ! 0
      in if opc = 0 then Some Mkdir else if opc = 1 then Some (Write (write_data msg)) else if opc = 2 then Some Read
         else if opc = 4 then Some Delete else if opc = 5 then Some Stat else None)"

definition needs_write :: "fs_request \<Rightarrow> bool" where
  "needs_write r = (case r of Mkdir \<Rightarrow> True | Write _ \<Rightarrow> True | Delete \<Rightarrow> True | _ \<Rightarrow> False)"

lemma fs_check_cap_log [simp]: "fs_check_cap (log_trace e p q k) t m w = fs_check_cap k t m w"
  by (simp add: fs_check_cap_def holds_cap_def)

interpretation fs_gate: cap_gate fs_check_cap fs_admits
proof (unfold_locales, goal_cases)
  case (1 k t r w)
  then show ?case by (simp add: fs_check_cap_def holds_cap_view)
next
  case (2 d r w c)
  then show ?case
    by (cases "cap_resource c") (auto simp: fs_admits_def rights_of_def less_eq_rights_mask_def split: if_splits)
qed

lemma fs_key_len: "message_wf msg \<Longrightarrow> fs_wellformed msg \<Longrightarrow> length (snd (fs_key_of msg)) = unat (msg_payload msg ! 2)"
  by (auto simp: fs_wellformed_def fs_key_of_def message_wf_def PAYLOAD_MAX_def)

lemma fs_dispatch_refines:
  assumes m: "message_wf msg" and w: "fs_wellformed msg" and r: "fs_request_of msg = Some req" and inv: "fs_inv s"
  shows "\<exists>reply s'. fs_dispatch (msg_payload msg ! 0) (fst (fs_key_of msg)) (snd (fs_key_of msg)) msg s k = Ret (reply, s') \<and>
    fs_inv s' \<and> (reply, fs_abs s') =
      (if fs_check_cap k (msg_sender msg) (fst (fs_key_of msg)) (needs_write req)
       then fs_spec req (fs_key_of msg) (fs_abs s) else ([1], fs_abs s))"
proof -
  obtain mt nm where key: "fs_key_of msg = (mt, nm)" by fastforce
  have n: "length nm \<le> FS_NAME_LEN"
    using fs_key_len [OF m w] w by (simp add: key fs_wellformed_def FS_NAME_LEN_def)
  let ?opc = "msg_payload msg ! 0"
  consider "?opc = 0" "req = Mkdir" | "?opc = 1" "req = Write (write_data msg)" | "?opc = 2" "req = Read"
    | "?opc = 4" "req = Delete" | "?opc = 5" "req = Stat"
    using r by (auto simp: fs_request_of_def Let_def split: if_splits)
  then show ?thesis
  proof cases
    case 1
    obtain reply s' where f: "fs_mkdir mt nm s = (reply, s')" by fastforce
    show ?thesis using 1 f inv fs_mkdir_refines [OF inv n f] unfolding key
      by (simp add: fs_dispatch_def needs_write_def del: fs_spec.simps)
  next
    case 2
    obtain reply s' where f: "fs_write mt nm msg s = (reply, s')" by fastforce
    show ?thesis using 2 f inv fs_write_refines [OF inv n m f] unfolding key
      by (simp add: fs_dispatch_def needs_write_def del: fs_spec.simps)
  next
    case 3
    have "snd (fs_spec Read (mt, nm) (fs_abs s)) = fs_abs s" by simp
    then show ?thesis using 3 inv fs_read_refines [OF inv, of mt nm] unfolding key
      by (simp add: fs_dispatch_def needs_write_def prod_eq_iff del: fs_spec.simps)
  next
    case 4
    obtain reply s' where f: "fs_delete mt nm s = (reply, s')" by fastforce
    show ?thesis using 4 f inv fs_delete_refines [OF inv f] unfolding key
      by (simp add: fs_dispatch_def needs_write_def del: fs_spec.simps)
  next
    case 5
    have "snd (fs_spec Stat (mt, nm) (fs_abs s)) = fs_abs s" by simp
    then show ?thesis using 5 inv fs_stat_refines [OF inv, of mt nm] unfolding key
      by (simp add: fs_dispatch_def needs_write_def prod_eq_iff del: fs_spec.simps)
  qed
qed

lemma fs_handle_dispatch:
  assumes "fs_wellformed msg"
    and "fs_dispatch (msg_payload msg ! 0) (fst (fs_key_of msg)) (snd (fs_key_of msg)) msg (fs_nodes s)
           (log_trace ''fs_op'' (ucast (msg_payload msg ! 0)) 0 k) = Ret (reply, nodes)"
  shows "fs_handle msg s k = Ret (reply, s\<lparr>fs_ops := fs_ops s + 1, fs_nodes := nodes\<rparr>,
    log_trace ''fs_op'' (ucast (msg_payload msg ! 0)) 0 k)"
  using assms by (simp add: fs_handle_def fs_wellformed_def fs_key_of_def Let_def)

lemma fs_handle_refines:
  assumes "message_wf msg" "fs_wellformed msg" "fs_request_of msg = Some req" "fs_inv (fs_nodes s)"
  shows "\<exists>reply s' k'. fs_handle msg s k = Ret (reply, s', k') \<and> fs_inv (fs_nodes s') \<and> same_but_trace k k' \<and>
    (reply, fs_abs (fs_nodes s')) =
      (if fs_check_cap k (msg_sender msg) (fst (fs_key_of msg)) (needs_write req)
       then fs_spec req (fs_key_of msg) (fs_abs (fs_nodes s)) else ([1], fs_abs (fs_nodes s)))"
proof -
  let ?k = "log_trace ''fs_op'' (ucast (msg_payload msg ! 0)) 0 k"
  obtain reply nodes where d: "fs_dispatch (msg_payload msg ! 0) (fst (fs_key_of msg)) (snd (fs_key_of msg)) msg (fs_nodes s) ?k
      = Ret (reply, nodes)" "fs_inv nodes" "(reply, fs_abs nodes) =
      (if fs_check_cap ?k (msg_sender msg) (fst (fs_key_of msg)) (needs_write req)
       then fs_spec req (fs_key_of msg) (fs_abs (fs_nodes s)) else ([1], fs_abs (fs_nodes s)))"
    using fs_dispatch_refines [OF assms] by blast
  show ?thesis
    by (intro exI [of _ reply] exI [of _ "s\<lparr>fs_ops := fs_ops s + 1, fs_nodes := nodes\<rparr>"] exI [of _ ?k] conjI
          fs_handle_dispatch [OF assms(2) d(1)])
       (use d(2,3) in simp_all)
qed

subsection \<open>The handler as a service\<close>

text \<open>The one request that stops the machine: listing the empty path.\<close>

definition fs_safe :: "message \<Rightarrow> kernel \<Rightarrow> bool" where
  "fs_safe msg k \<longleftrightarrow> \<not> (fs_wellformed msg \<and> msg_payload msg ! 0 = 3 \<and> msg_payload msg ! 2 = 0 \<and>
     fs_check_cap k (msg_sender msg) (msg_payload msg ! 1) False)"

lemma fs_spec_reply:
  assumes "\<And>d. a key = Some (File d) \<Longrightarrow> length d \<le> 94"
  shows "fst (fs_spec req key a) \<noteq> [] \<and> length (fst (fs_spec req key a)) \<le> PAYLOAD_MAX"
  using assms by (induction req key a rule: fs_spec.induct) (auto simp: PAYLOAD_MAX_def split: option.split fs_file.split)

lemma fs_abs_file_len: "fs_inv s \<Longrightarrow> fs_abs s key = Some (File d) \<Longrightarrow> length d \<le> 94"
  using fs_inv_D(2) [of s] find_node_Some [of s "fst key" "snd key"]
  by (fastforce simp: fs_abs_def node_file_def node_wf_def binds_def FS_DATA_LEN_def split: if_splits)

lemma fs_handle_malformed:
  "\<not> fs_wellformed msg \<Longrightarrow> fs_handle msg s k = Ret ([4], s\<lparr>fs_ops := fs_ops s + 1\<rparr>, k)"
  by (auto simp: fs_handle_def fs_wellformed_def Let_def)

lemma fs_ls_reply:
  assumes "name \<noteq> []"
  shows "\<exists>reply. fs_ls m name s = Ret reply \<and> reply \<noteq> [] \<and> length reply \<le> PAYLOAD_MAX"
  using ls_fold_le [of "([], 0)" m name s] assms
  by (auto simp: fs_ls_def ls_prefix_eq PAYLOAD_MAX_def split: prod.split)

lemma fs_dispatch_other:
  assumes "message_wf msg" "fs_wellformed msg" "fs_request_of msg = None" "fs_safe msg k"
  shows "\<exists>reply. fs_dispatch (msg_payload msg ! 0) (fst (fs_key_of msg)) (snd (fs_key_of msg)) msg s k = Ret (reply, s) \<and>
    reply \<noteq> [] \<and> length reply \<le> PAYLOAD_MAX"
proof (cases "msg_payload msg ! 0 = 3 \<and> fs_check_cap k (msg_sender msg) (msg_payload msg ! 1) False")
  case True
  then have "msg_payload msg ! 2 \<noteq> 0" using assms(2,4) by (simp add: fs_safe_def)
  then have "snd (fs_key_of msg) \<noteq> []" using fs_key_len [OF assms(1,2)] by (auto simp: unat_eq_zero)
  from fs_ls_reply [OF this, of "msg_payload msg ! 1" s] obtain reply where
    "fs_ls (msg_payload msg ! 1) (snd (fs_key_of msg)) s = Ret reply" "reply \<noteq> []" "length reply \<le> PAYLOAD_MAX" by blast
  then show ?thesis using True by (simp add: fs_dispatch_def fs_key_of_def)
next
  case False
  then show ?thesis
    using assms(3) by (auto simp: fs_dispatch_def fs_request_of_def fs_key_of_def Let_def PAYLOAD_MAX_def split: if_splits)
qed

interpretation fs_service: service fs_handle "\<lambda>s. fs_inv (fs_nodes s)" fs_safe
proof (unfold_locales, goal_cases)
  case (1 k m s)
  show ?case
  proof (cases "fs_wellformed m")
    case False
    then show ?thesis using fs_handle_malformed 1 by (auto simp: PAYLOAD_MAX_def)
  next
    case w: True
    show ?thesis
    proof (cases "fs_request_of m")
      case None
      have "fs_safe m (log_trace ''fs_op'' (ucast (msg_payload m ! 0)) 0 k)" using 1(4) by (simp add: fs_safe_def)
      from fs_dispatch_other [OF 1(2) w None this] obtain reply where
        d: "fs_dispatch (msg_payload m ! 0) (fst (fs_key_of m)) (snd (fs_key_of m)) m (fs_nodes s)
             (log_trace ''fs_op'' (ucast (msg_payload m ! 0)) 0 k) = Ret (reply, fs_nodes s)"
           "reply \<noteq> []" "length reply \<le> PAYLOAD_MAX" by blast
      show ?thesis using fs_handle_dispatch [OF w d(1)] d(2,3) 1(3) by simp
    next
      case (Some req)
      let ?a = "fs_abs (fs_nodes s)" and ?ok = "fs_check_cap k (msg_sender m) (fst (fs_key_of m)) (needs_write req)"
      obtain reply s' k' where d: "fs_handle m s k = Ret (reply, s', k')" "fs_inv (fs_nodes s')" "same_but_trace k k'"
        "(reply, fs_abs (fs_nodes s')) = (if ?ok then fs_spec req (fs_key_of m) ?a else ([1], ?a))"
        using fs_handle_refines [OF 1(2) w Some 1(3), of k] by (elim exE conjE) (rule that)
      have "reply = fst (if ?ok then fs_spec req (fs_key_of m) ?a else ([1], ?a))" unfolding d(4) [symmetric] by simp
      also have "\<dots> \<noteq> [] \<and> length \<dots> \<le> PAYLOAD_MAX"
      proof (cases ?ok)
        case True
        then show ?thesis
          unfolding if_P [OF True] by (intro fs_spec_reply) (rule fs_abs_file_len [OF 1(3)])
      qed (simp add: PAYLOAD_MAX_def)
      finally show ?thesis using d(1-3) by blast
    qed
  qed
qed

subsection \<open>Properties\<close>

text \<open>The store after a sequence of requests.\<close>

fun fs_serve :: "message list \<Rightarrow> fs_state \<Rightarrow> kernel \<Rightarrow> (fs_state \<times> kernel) run" where
  "fs_serve [] s k = Ret (s, k)"
| "fs_serve (m # ms) s k = run_bind (fs_handle m s k) (\<lambda>(_, s, k). fs_serve ms s k)"

definition overwrites :: "fs_key \<Rightarrow> message \<Rightarrow> bool" where
  "overwrites key m \<longleftrightarrow> fs_key_of m = key \<and> (\<exists>req. fs_request_of m = Some req \<and> needs_write req)"

lemma fs_spec_other: "key' \<noteq> key \<or> \<not> needs_write req \<Longrightarrow> snd (fs_spec req key a) key' = a key'"
  by (induction req key a rule: fs_spec.induct) (auto simp: needs_write_def split: option.splits fs_file.splits)

lemma fs_handle_abs:
  assumes m: "message_wf msg" and inv: "fs_inv (fs_nodes s)" and h: "fs_handle msg s k = Ret (reply, s', k')"
  shows "fs_inv (fs_nodes s')" "\<not> overwrites key msg \<Longrightarrow> fs_abs (fs_nodes s') key = fs_abs (fs_nodes s) key"
    "same_but_trace k k'"
proof -
  have "fs_inv (fs_nodes s') \<and> (\<not> overwrites key msg \<longrightarrow> fs_abs (fs_nodes s') key = fs_abs (fs_nodes s) key) \<and> same_but_trace k k'"
  proof (cases "fs_wellformed msg \<and> fs_request_of msg \<noteq> None")
    case True
    then obtain req where w: "fs_wellformed msg" "fs_request_of msg = Some req" by auto
    have r: "fs_inv (fs_nodes s')" "same_but_trace k k'"
      "fs_abs (fs_nodes s') = fs_abs (fs_nodes s) \<or> fs_abs (fs_nodes s') = snd (fs_spec req (fs_key_of msg) (fs_abs (fs_nodes s)))"
      using fs_handle_refines [OF m w inv, of k] h by (auto split: if_splits simp del: fs_spec.simps dest: arg_cong [of _ _ snd])
    then show ?thesis using w(2) fs_spec_other [of key "fs_key_of msg" req "fs_abs (fs_nodes s)"] by (auto simp: overwrites_def)
  next
    case False
    have "fs_nodes s' = fs_nodes s \<and> same_but_trace k k'"
    proof (cases "fs_wellformed msg")
      case False
      then show ?thesis using h fs_handle_malformed [OF False] by auto
    next
      case w: True
      then have "fs_request_of msg = None" using False by simp
      then have "\<exists>r. fs_dispatch (msg_payload msg ! 0) mt nm msg st k = Panic \<or>
          fs_dispatch (msg_payload msg ! 0) mt nm msg st k = Ret (r, st)" for mt nm st k
        by (cases "fs_ls mt nm st") (auto simp: fs_request_of_def fs_dispatch_def Let_def split: if_splits)
      then show ?thesis
        using h w by (auto simp: fs_handle_def fs_wellformed_def Let_def run_bind_Ret_iff split: if_splits) (metis run.distinct(1) run.inject prod.inject)
    qed
    then show ?thesis using inv by simp
  qed
  then show "fs_inv (fs_nodes s')" "\<not> overwrites key msg \<Longrightarrow> fs_abs (fs_nodes s') key = fs_abs (fs_nodes s) key"
    "same_but_trace k k'" by auto
qed

text \<open>
  C15. The filesystem service refines a map from mount and path to directory or contents. Every
  well-formed request but a listing is answered exactly as the abstract operation answers it on the
  map the store represents, provided the client holds a capability for the mount with the right the
  request needs, and is refused with status 1 otherwise; the new store represents the new map, at
  most sixty-four paths are ever bound, and the representation stays sound.
\<close>

theorem fs_refines_map:
  assumes "message_wf msg" "fs_inv (fs_nodes s)" "fs_request_of msg = Some req"
  shows "\<exists>reply s' k'. fs_handle msg s k = Ret (reply, s', k') \<and> fs_inv (fs_nodes s') \<and> same_but_trace k k' \<and>
    (reply, fs_abs (fs_nodes s')) =
      (if \<not> fs_wellformed msg then ([4], fs_abs (fs_nodes s))
       else if fs_check_cap k (msg_sender msg) (fst (fs_key_of msg)) (needs_write req)
       then fs_spec req (fs_key_of msg) (fs_abs (fs_nodes s)) else ([1], fs_abs (fs_nodes s))) \<and>
    card (dom (fs_abs (fs_nodes s'))) \<le> FS_MAX_NODES"
proof (cases "fs_wellformed msg")
  case True
  obtain reply s' k' where d: "fs_handle msg s k = Ret (reply, s', k')" "fs_inv (fs_nodes s')" "same_but_trace k k'"
    "(reply, fs_abs (fs_nodes s')) = (if fs_check_cap k (msg_sender msg) (fst (fs_key_of msg)) (needs_write req)
       then fs_spec req (fs_key_of msg) (fs_abs (fs_nodes s)) else ([1], fs_abs (fs_nodes s)))"
    using fs_handle_refines [OF assms(1) True assms(3,2), of k] by (elim exE conjE) (rule that)
  show ?thesis
    by (intro exI [of _ reply] exI [of _ s'] exI [of _ k'])
       (use d card_dom_fs_abs_le [OF d(2)] True in \<open>simp del: fs_spec.simps\<close>)
next
  case False
  then show ?thesis using fs_handle_malformed [OF False] assms(2) card_dom_fs_abs_le by simp
qed

lemma fs_serve_abs:
  assumes "\<forall>m \<in> set ms. message_wf m \<and> \<not> overwrites key m" "fs_inv (fs_nodes s)" "fs_serve ms s k = Ret (s', k')"
  shows "fs_inv (fs_nodes s') \<and> fs_abs (fs_nodes s') key = fs_abs (fs_nodes s) key \<and> same_but_trace k k'"
  using assms
proof (induction ms arbitrary: s k)
  case (Cons m ms)
  then obtain reply s1 k1 where h: "fs_handle m s k = Ret (reply, s1, k1)" "fs_serve ms s1 k1 = Ret (s', k')"
    by (auto simp: run_bind_Ret_iff)
  have m: "message_wf m" "\<not> overwrites key m" using Cons.prems(1) by auto
  note a = fs_handle_abs [OF m(1) Cons.prems(2) h(1)]
  have "fs_inv (fs_nodes s') \<and> fs_abs (fs_nodes s') key = fs_abs (fs_nodes s1) key \<and> same_but_trace k1 k'"
    by (rule Cons.IH) (use Cons.prems(1) a(1) h(2) in auto)
  then show ?case using a(2) [OF m(2)] a(3) same_but_trace_trans by auto
qed simp

lemma fs_check_cap_same: "same_but_trace k k' \<Longrightarrow> fs_check_cap k' t m w = fs_check_cap k t m w"
  by (simp add: fs_check_cap_def holds_cap_def same_but_trace_kernel)

text \<open>
  C16. What is written is read back. After an accepted write, and any sequence of requests none of
  which creates, writes or deletes the same path, every client with read permission on the mount
  reads exactly the bytes written.
\<close>

theorem fs_write_read_roundtrip:
  assumes "fs_inv (fs_nodes s)" "message_wf w" "fs_wellformed w" "fs_request_of w = Some (Write (Some d))"
    and "fs_handle w s k = Ret ([0], s1, k1)"
    and "\<forall>m \<in> set ms. message_wf m \<and> \<not> overwrites (fs_key_of w) m" "fs_serve ms s1 k1 = Ret (s2, k2)"
    and "message_wf r" "fs_wellformed r" "fs_request_of r = Some Read" "fs_key_of r = fs_key_of w"
    and "fs_check_cap k (msg_sender r) (fst (fs_key_of w)) False"
  shows "\<exists>s3 k3. fs_handle r s2 k2 = Ret (0 # of_nat (length d) # d, s3, k3)"
proof -
  let ?key = "fs_key_of w"
  have s1: "fs_inv (fs_nodes s1)" "same_but_trace k k1"
    "([0], fs_abs (fs_nodes s1)) =
      (if fs_check_cap k (msg_sender w) (fst ?key) (needs_write (Write (Some d)))
       then fs_spec (Write (Some d)) ?key (fs_abs (fs_nodes s)) else ([1], fs_abs (fs_nodes s)))"
    using fs_handle_refines [OF assms(2-4,1), of k] assms(5) by auto
  then have a1: "fs_abs (fs_nodes s1) ?key = Some (File d)"
    by (auto split: if_splits option.splits fs_file.splits)
  have s2: "fs_inv (fs_nodes s2)" "fs_abs (fs_nodes s2) ?key = Some (File d)" "same_but_trace k1 k2"
    using fs_serve_abs [OF assms(6) s1(1) assms(7)] a1 by auto
  have "fs_check_cap k2 (msg_sender r) (fst (fs_key_of r)) (needs_write Read)"
    using assms(11,12) fs_check_cap_same [OF same_but_trace_trans [OF s1(2) s2(3)]] by (simp add: needs_write_def)
  then show ?thesis
    using fs_handle_refines [OF assms(8-10) s2(1), of k2] s2(2) assms(11) by auto
qed

text \<open>
  Listing the empty path is the one authorised request the handler does not survive: it computes
  \<open>name_len - 1\<close> for \<open>name_len = 0\<close>.
\<close>

theorem fs_ls_empty_path_panics:
  assumes "\<not> fs_safe msg k"
  shows "fs_handle msg s k = Panic"
  using assms
  by (auto simp: fs_safe_def fs_wellformed_def fs_handle_def fs_dispatch_def fs_ls_def ls_prefix_def Let_def slice_def)

text \<open>
  The filesystem service answers. A turn of the service on any request other than a permitted
  listing of the empty path does not panic and keeps its store sound and the kernel well formed;
  a client waiting for the answer receives the handler's reply under the \<open>FsReply\<close> tag and is made
  runnable, and no task but the client and the service is touched.
\<close>

theorem fs_service_answers:
  assumes "kernel_wf k" "message_wf m" "fs_inv (fs_nodes s)" "fs_safe m k"
    and "current_task_id k = Some 84" "get_task k 84 = Some t" "msg_sender m < MAX_TASKS" "msg_sender m \<noteq> 84"
    and "get_task k (msg_sender m) = Some c" "t_state c = BlockedOnReceive"
  shows "\<exists>reply s' k1 k'. fs_handle m s k = Ret (reply, s', k1) \<and> fs_inv (fs_nodes s') \<and> kernel_wf k' \<and>
    service_turn 84 84000 FsReply fs_handle m s k = Ret (Done (Inr ()), s', k') \<and>
    get_task k' (msg_sender m) = Some (c\<lparr>t_ipc_buffer := Some (make_message 84 FsReply 1 reply), t_state := Ready\<rparr>) \<and>
    (\<forall>j. j \<noteq> 84 \<longrightarrow> j \<noteq> msg_sender m \<longrightarrow> get_task k' j = get_task k j)"
proof -
  have b: "84000 + msg_sender m \<le> usize_MAX" using assms(7) by (simp add: MAX_TASKS_def usize_MAX_def)
  show ?thesis
    using fs_service.turn [OF assms(1-6) b, of FsReply] assms(8-10) by blast
qed

subsection \<open>Concrete requests\<close>

definition fs_cap :: "u8 \<Rightarrow> capability" where
  "fs_cap mount = \<lparr>cap_resource = FsNode mount True True, cap_read = True, cap_write = True, cap_grant = False,
     cap_sealed = False, cap_id = 6, cap_origin = None\<rparr>"

definition fs_kernel :: kernel where
  "fs_kernel = served_kernel 84 [fs_cap 0]"

lemma fs_kernel [simp]:
  "kernel_wf fs_kernel" "get_task fs_kernel 2 = Some (sample_task 2 BlockedOnReceive (table_with [fs_cap 0]))"
  "get_task fs_kernel 84 = Some (sample_task 84 Running (table_with [reply_cap 64 5]))" "current_task_id fs_kernel = Some 84"
  unfolding fs_kernel_def by (rule served_kernel; simp add: MAX_TASKS_def)+

lemma fs_kernel_checks [simp]: "fs_check_cap fs_kernel 2 0 w"
  by (simp add: fs_check_cap_def holds_cap_def table_with_def fs_admits_def fs_cap_def)

text \<open>Requests of task 2 on \<open>/a\<close> of mount 0; the write carries the byte 7.\<close>

definition write_msg :: message where
  "write_msg = make_message 2 FsOp 1 ([1, 0, 2, SLASH, 0x61] @ replicate 28 0 @ [1, 7])"

definition read_msg :: message where
  "read_msg = make_message 2 FsOp 1 [2, 0, 2, SLASH, 0x61]"

definition root_ls_msg :: message where
  "root_ls_msg = make_message 2 FsOp 1 [3, 0, 1, SLASH]"

definition fs_empty :: fs_state where
  "fs_empty = \<lparr>fs_nodes = FsStore_new, fs_ops = 0\<rparr>"

lemma fs_empty_inv [simp]: "fs_inv (fs_nodes fs_empty)"
  by (simp add: fs_empty_def)

lemma fs_empty_abs [simp]: "fs_abs (fs_nodes fs_empty) = Map.empty"
proof
  fix key
  have "\<not> binds FsStore_new i key" for i by (auto simp: binds_def FsStore_new_def FsNode_empty_def)
  then show "fs_abs (fs_nodes fs_empty) key = None" by (simp add: fs_empty_def fs_abs_None)
qed

lemma write_msg:
  "message_wf write_msg" "fs_wellformed write_msg" "fs_key_of write_msg = (0, [SLASH, 0x61])"
  "msg_sender write_msg = 2" "fs_request_of write_msg = Some (Write (Some [7]))"
  by code_simp+

lemma read_msg:
  "message_wf read_msg" "fs_wellformed read_msg" "fs_key_of read_msg = (0, [SLASH, 0x61])"
  "msg_sender read_msg = 2" "fs_request_of read_msg = Some Read"
  by code_simp+

lemma root_ls_msg:
  "message_wf root_ls_msg" "msg_payload root_ls_msg ! 0 = 3" "msg_payload root_ls_msg ! 2 = 1" "msg_sender root_ls_msg = 2"
  by code_simp+

theorem fs_refines_map_witness:
  "\<exists>s' k'. fs_handle write_msg fs_empty fs_kernel = Ret ([0], s', k') \<and> fs_inv (fs_nodes s') \<and>
     fs_abs (fs_nodes s') = [(0, [SLASH, 0x61]) \<mapsto> File [7]]"
  using fs_refines_map [OF write_msg(1) fs_empty_inv write_msg(5), of fs_kernel] write_msg
  by (auto simp: FS_MAX_NODES_def)

theorem fs_write_read_roundtrip_witness:
  "\<exists>s1 k1 s3 k3. fs_handle write_msg fs_empty fs_kernel = Ret ([0], s1, k1) \<and>
     fs_handle read_msg s1 k1 = Ret ([0, 1, 7], s3, k3)"
proof -
  obtain s1 k1 where w: "fs_handle write_msg fs_empty fs_kernel = Ret ([0], s1, k1)"
    using fs_handle_refines [OF write_msg(1,2,5) fs_empty_inv, of fs_kernel] write_msg by (auto simp: FS_MAX_NODES_def)
  have "\<exists>s3 k3. fs_handle read_msg s1 k1 = Ret (0 # of_nat (length [7 :: u8]) # [7], s3, k3)"
    by (rule fs_write_read_roundtrip [OF fs_empty_inv write_msg(1,2,5) w, of "[]"]) (use read_msg write_msg in simp_all)
  then show ?thesis using w by auto
qed

theorem fs_ls_lists_children_witness:
  "\<exists>s1 k1. fs_handle write_msg fs_empty fs_kernel = Ret ([0], s1, k1) \<and>
     fs_ls 0 [SLASH] (fs_nodes s1) = Ret [0, 1, 0x61, 0x0A]"
proof -
  obtain s1 k1 where w: "fs_handle write_msg fs_empty fs_kernel = Ret ([0], s1, k1)" "fs_inv (fs_nodes s1)"
    "fs_abs (fs_nodes s1) = [(0, [SLASH, 0x61]) \<mapsto> File [7]]"
    using fs_handle_refines [OF write_msg(1,2,5) fs_empty_inv, of fs_kernel] write_msg by (auto simp: FS_MAX_NODES_def)
  have c: "ls_children (fs_abs (fs_nodes s1)) 0 [SLASH] = {[0x61]}"
    by (auto simp: w(3) ls_children_def dir_path_def SLASH_def)
  obtain es where l: "fs_ls 0 [SLASH] (fs_nodes s1) = Ret (0 # of_nat (length es) # ls_lines es)" and d: "distinct es" "set es = {[0x61]}"
    using fs_ls_lists_children [OF w(2), of "[SLASH]" 0] unfolding c by (auto elim: that)
  have "length es = 1" using distinct_card [OF d(1)] d(2) by simp
  then obtain e where "es = [e]" by (auto simp: length_Suc_conv)
  then have "es = [[0x61]]" using d(2) by simp
  then have "fs_ls 0 [SLASH] (fs_nodes s1) = Ret [0, 1, 0x61, 0x0A]" using l by (simp add: ls_lines_def)
  then show ?thesis using w(1) by blast
qed

theorem fs_service_answers_witness:
  "\<exists>reply s' k' c. service_turn 84 84000 FsReply fs_handle root_ls_msg fs_empty fs_kernel = Ret (Done (Inr ()), s', k') \<and>
     get_task k' 2 = Some c \<and> t_state c = Ready \<and> t_ipc_buffer c = Some (make_message 84 FsReply 1 reply)"
proof -
  have "fs_safe root_ls_msg fs_kernel" by (simp add: fs_safe_def root_ls_msg)
  from fs_service_answers [OF fs_kernel(1) root_ls_msg(1) fs_empty_inv this fs_kernel(4,3), unfolded root_ls_msg(4), OF _ _ fs_kernel(2)]
  show ?thesis by (auto simp: MAX_TASKS_def)
qed

end
