(* ===== verification/Keyboard.thy ===== *)
theory Keyboard
  imports Ring_Buffers
begin

text \<open>
  The keyboard driver, \<open>drivers/keyboard.rs\<close>: the scan code table, the 64-byte buffer and the
  interrupt handler, which gets the scan code that port 0x60 returns.
\<close>

definition SCANCODE_MAP :: bytes where
  "SCANCODE_MAP =
    [0, 27, 49, 50, 51, 52, 53, 54, 55, 56, 57, 48, 45, 61, 8, 9,
     113, 119, 101, 114, 116, 121, 117, 105, 111, 112, 91, 93, 10, 0, 97, 115,
     100, 102, 103, 104, 106, 107, 108, 59, 39, 96, 0, 92, 122, 120, 99, 118,
     98, 110, 109, 44, 46, 47, 0, 42, 0, 32, 0, 0, 0, 0, 0, 0,
     0, 0, 0, 0, 0, 0, 0, 0, 0, 0, 45, 0, 0, 0, 43, 0,
     0, 0, 0, 0, 0, 0, 0, 0, 0, 0, 0, 0, 0, 0, 0, 0,
     0, 0, 0, 0, 0, 0, 0, 0, 0, 0, 0, 0, 0, 0, 0, 0,
     0, 0, 0, 0, 0, 0, 0, 0, 0, 0, 0, 0, 0, 0, 0, 0]"

definition KBD_CAPACITY :: nat where
  "KBD_CAPACITY = 64"

record kbd_buffer =
  kb_data :: bytes
  kb_head :: nat
  kb_tail :: nat
  kb_count :: nat

definition KbdBuffer_new :: kbd_buffer where
  "KbdBuffer_new = \<lparr>kb_data = replicate KBD_CAPACITY 0, kb_head = 0, kb_tail = 0, kb_count = 0\<rparr>"

definition KbdBuffer_push :: "u8 \<Rightarrow> kbd_buffer \<Rightarrow> kbd_buffer" where
  "KbdBuffer_push val b =
     (if kb_count b < KBD_CAPACITY
      then b\<lparr>kb_data := (kb_data b)[kb_tail b := val], kb_tail := (kb_tail b + 1) mod KBD_CAPACITY,
             kb_count := kb_count b + 1\<rparr>
      else b)"

definition KbdBuffer_pop :: "kbd_buffer \<Rightarrow> u8 option \<times> kbd_buffer" where
  "KbdBuffer_pop b =
     (if kb_count b > 0
      then (Some (kb_data b ! kb_head b),
            b\<lparr>kb_head := (kb_head b + 1) mod KBD_CAPACITY, kb_count := kb_count b - 1\<rparr>)
      else (None, b))"

definition kbd_try_read :: "kbd_buffer \<Rightarrow> u8 option \<times> kbd_buffer" where
  "kbd_try_read b = KbdBuffer_pop b"

definition keyboard_isr :: "u8 \<Rightarrow> kbd_buffer \<times> u64 \<Rightarrow> kbd_buffer \<times> u64" where
  "keyboard_isr scancode s =
     ((if scancode < 128
       then let ascii = SCANCODE_MAP ! unat scancode
            in if ascii \<noteq> 0 then KbdBuffer_push ascii (fst s) else fst s
       else fst s),
      snd s + 1)"

subsection \<open>The buffer is a bounded queue\<close>

definition kbd_inv :: "kbd_buffer \<Rightarrow> bool" where
  "kbd_inv b \<longleftrightarrow> length (kb_data b) = KBD_CAPACITY \<and> kb_head b < KBD_CAPACITY \<and>
     kb_count b \<le> KBD_CAPACITY \<and> kb_tail b = (kb_head b + kb_count b) mod KBD_CAPACITY"

definition kbd_contents :: "kbd_buffer \<Rightarrow> bytes" where
  "kbd_contents b = ring_list KBD_CAPACITY (kb_data b) (kb_head b) (kb_count b)"

text \<open>\<open>push\<close> as a queue operation: it is refused when the byte would be dropped.\<close>

definition kbd_enq :: "u8 \<Rightarrow> kbd_buffer \<Rightarrow> kbd_buffer option" where
  "kbd_enq x b = (if kb_count b < KBD_CAPACITY then Some (KbdBuffer_push x b) else None)"

definition kbd_deq :: "kbd_buffer \<Rightarrow> (u8 \<times> kbd_buffer) option" where
  "kbd_deq b = (case KbdBuffer_pop b of (Some x, b') \<Rightarrow> Some (x, b') | (None, _) \<Rightarrow> None)"

lemma KBD_CAPACITY_pos [simp]: "0 < KBD_CAPACITY"
  by (simp add: KBD_CAPACITY_def)

interpretation kbd: bounded_fifo KBD_CAPACITY KbdBuffer_new kbd_enq kbd_deq kbd_contents kbd_inv
proof (unfold_locales, goal_cases)
  case 1
  then show ?case by (simp add: kbd_inv_def KbdBuffer_new_def)
next
  case 2
  then show ?case by (simp add: kbd_contents_def KbdBuffer_new_def)
next
  case (3 b)
  then show ?case by (simp add: kbd_inv_def kbd_contents_def)
next
  case (4 b x)
  then show ?case by (auto simp: kbd_inv_def kbd_contents_def kbd_enq_def)
next
  case (5 b x b')
  then show ?case
    using ring_list_enq [of "kb_count b" KBD_CAPACITY "kb_data b" "kb_head b" x]
    by (auto simp: kbd_inv_def kbd_contents_def kbd_enq_def KbdBuffer_push_def mod_Suc_eq split: if_splits)
next
  case (6 b)
  then show ?case by (auto simp: kbd_contents_def kbd_deq_def KbdBuffer_pop_def)
next
  case (7 b x b')
  then show ?case
    using ring_list_deq [of "kb_count b" KBD_CAPACITY "kb_data b" "kb_head b"]
      ring_tail_deq [of "kb_count b" "kb_head b" KBD_CAPACITY]
    by (auto simp: kbd_inv_def kbd_contents_def kbd_deq_def KbdBuffer_pop_def split: if_splits)
qed

subsection \<open>From scan codes to bytes\<close>

text \<open>What a sequence of scan codes types: key releases and unmapped keys give nothing.\<close>

definition typed :: "bytes \<Rightarrow> bytes" where
  "typed codes = concat (map (\<lambda>c. if c < 128 \<and> SCANCODE_MAP ! unat c \<noteq> 0 then [SCANCODE_MAP ! unat c] else []) codes)"

lemma keyboard_isr_contents:
  assumes "kbd_inv b"
  shows "kbd_inv (fst (keyboard_isr c (b, n)))"
    "kbd_contents (fst (keyboard_isr c (b, n))) = take KBD_CAPACITY (kbd_contents b @ typed [c])"
proof -
  have push: "kbd_inv (KbdBuffer_push x b) \<and>
      kbd_contents (KbdBuffer_push x b) = take KBD_CAPACITY (kbd_contents b @ [x])" for x
  proof (cases "kb_count b < KBD_CAPACITY")
    case True
    then show ?thesis
      using kbd.enq_Some [OF assms, of x "KbdBuffer_push x b"] by (auto simp: kbd_enq_def kbd_contents_def)
  next
    case False
    then show ?thesis using assms by (simp add: KbdBuffer_push_def kbd_contents_def kbd_inv_def)
  qed
  have all: "take KBD_CAPACITY (kbd_contents b) = kbd_contents b"
    using kbd.within_capacity [OF assms] by simp
  show "kbd_inv (fst (keyboard_isr c (b, n)))"
    using push assms by (simp add: keyboard_isr_def Let_def)
  show "kbd_contents (fst (keyboard_isr c (b, n))) = take KBD_CAPACITY (kbd_contents b @ typed [c])"
    using push all by (simp add: keyboard_isr_def Let_def typed_def)
qed

text \<open>
  The keyboard buffer holds what was typed. After any sequence of keyboard interrupts the
  buffer keeps its shape and holds its old contents followed by the bytes of the mapped key
  presses, in order, cut off at 64 bytes; every interrupt is counted.
\<close>

theorem keyboard_types_in_order:
  assumes "kbd_inv b"
  shows "kbd_inv (fst (fold keyboard_isr codes (b, n))) \<and>
    kbd_contents (fst (fold keyboard_isr codes (b, n))) = take KBD_CAPACITY (kbd_contents b @ typed codes) \<and>
    snd (fold keyboard_isr codes (b, n)) = n + of_nat (length codes)"
  using assms
proof (induction codes arbitrary: b n)
  case Nil
  then show ?case using kbd.within_capacity [of b] by (simp add: typed_def)
next
  case (Cons c codes)
  let ?b = "fst (keyboard_isr c (b, n))"
  have step: "keyboard_isr c (b, n) = (?b, n + 1)" by (simp add: keyboard_isr_def)
  note b = keyboard_isr_contents [OF Cons.prems, of c n]
  have "typed (c # codes) = typed [c] @ typed codes" by (simp add: typed_def)
  then show ?case
    using Cons.IH [OF b(1), of "n + 1"] b(2)
    by (subst (1 2 3) fold_simps, subst (1 2 3) step) (simp add: min_def)
qed

theorem keyboard_types_in_order_witness:
  "kbd_contents (fst (fold keyboard_isr [0x23, 0xA3, 0x17] (KbdBuffer_new, 0))) = ascii ''hi''"
  using keyboard_types_in_order [OF kbd.inv_empty, of "[0x23, 0xA3, 0x17]" 0]
  by (simp add: kbd.contents_empty typed_def SCANCODE_MAP_def ascii_def KBD_CAPACITY_def)

end
