(* ===== verification/Serial.thy ===== *)
theory Serial
  imports Preempt
begin

text \<open>
  The serial driver, \<open>drivers/serial.rs\<close>: the COM1 port with the bytes waiting in its receive
  buffer and the port writes made so far, line input with editing, and \<open>_print\<close> with its optional
  redirection to a buffer.
\<close>

unbundle bit_operations_syntax

record serial_port =
  sp_port :: u16
  sp_rx :: bytes
  sp_io :: "(u16 \<times> u8) list"

definition SerialPort_new :: "u16 \<Rightarrow> serial_port" where
  "SerialPort_new p = \<lparr>sp_port = p, sp_rx = [], sp_io = []\<rparr>"

definition outb :: "u16 \<Rightarrow> u8 \<Rightarrow> serial_port \<Rightarrow> serial_port" where
  "outb p v s = s\<lparr>sp_io := sp_io s @ [(p, v)]\<rparr>"

text \<open>
  Reading the device: the line status register is at offset 5 and its bit 0 says that a byte
  waits; the receive register is at offset 0 and hands out the oldest byte.
\<close>

definition inb :: "u16 \<Rightarrow> serial_port \<Rightarrow> u8 \<times> serial_port" where
  "inb p s =
     (if p = sp_port s + 5 then (if sp_rx s = [] then 0x60 else 0x61, s)
      else if p = sp_port s
      then (case sp_rx s of [] \<Rightarrow> (0, s) | b # bs \<Rightarrow> (b, s\<lparr>sp_rx := bs\<rparr>))
      else (0xFF, s))"

definition SerialPort_init :: "serial_port \<Rightarrow> serial_port" where
  "SerialPort_init s =
     fold (\<lambda>(off, v). outb (sp_port s + off) v)
       [(1, 0x00), (3, 0x80), (0, 0x01), (1, 0x00), (3, 0x03), (2, 0xC7), (4, 0x0B)] s"

definition SerialPort_send :: "u8 \<Rightarrow> serial_port \<Rightarrow> serial_port" where
  "SerialPort_send b s = outb (sp_port s) b s"

definition SerialPort_write_string :: "bytes \<Rightarrow> serial_port \<Rightarrow> serial_port" where
  "SerialPort_write_string bs s =
     fold (\<lambda>b s. SerialPort_send b (if b = 10 then SerialPort_send 13 s else s)) bs s"

definition SerialPort_try_read :: "serial_port \<Rightarrow> u8 option \<times> serial_port" where
  "SerialPort_try_read s =
     (case inb (sp_port s + 5) s of
        (st, s) \<Rightarrow>
          if st AND 1 = 0 then (None, s)
          else (case inb (sp_port s) s of (b, s) \<Rightarrow> (Some b, s)))"

lemma SerialPort_try_read_eq:
  "SerialPort_try_read s = (case sp_rx s of [] \<Rightarrow> (None, s) | b # bs \<Rightarrow> (Some b, s\<lparr>sp_rx := bs\<rparr>))"
  by (simp add: SerialPort_try_read_def inb_def split: list.split)

text \<open>The bytes on the wire: a line feed is preceded by a carriage return.\<close>

definition crlf :: "bytes \<Rightarrow> bytes" where
  "crlf bs = concat (map (\<lambda>b. if b = 10 then [13, 10] else [b]) bs)"

lemma write_string_io:
  "sp_io (SerialPort_write_string bs s) = sp_io s @ map (Pair (sp_port s)) (crlf bs) \<and>
   sp_port (SerialPort_write_string bs s) = sp_port s \<and> sp_rx (SerialPort_write_string bs s) = sp_rx s"
  unfolding SerialPort_write_string_def
  by (induction bs arbitrary: s) (auto simp: crlf_def SerialPort_send_def outb_def)

subsection \<open>Line input\<close>

text \<open>
  \<open>read_line\<close> on the bytes that arrive, one iteration per byte: the line length, the buffer, the
  echo and the bytes left over, or \<open>None\<close> while the terminator has not arrived.
\<close>

fun read_line :: "bytes \<Rightarrow> nat \<Rightarrow> bytes \<Rightarrow> (nat \<times> bytes \<times> bytes \<times> bytes) option" where
  "read_line buf n [] = None"
| "read_line buf n (b # rest) =
     (if b = 10 \<or> b = 13 then Some (n, buf, [13, 10], rest)
      else if b = 0x08 \<or> b = 0x7F then
        (if n > 0
         then map_option (\<lambda>(m, bf, out, r). (m, bf, [8, 32, 8] @ out, r)) (read_line buf (n - 1) rest)
         else read_line buf n rest)
      else if 0x20 \<le> b \<and> b \<le> 0x7E then
        (if n < length buf
         then map_option (\<lambda>(m, bf, out, r). (m, bf, b # out, r)) (read_line (buf[n := b]) (n + 1) rest)
         else read_line buf n rest)
      else read_line buf n rest)"

text \<open>Line editing on the text typed so far.\<close>

definition edit :: "nat \<Rightarrow> bytes \<Rightarrow> u8 \<Rightarrow> bytes" where
  "edit cap acc b =
     (if b = 0x08 \<or> b = 0x7F then butlast acc
      else if 0x20 \<le> b \<and> b \<le> 0x7E \<and> length acc < cap then acc @ [b] else acc)"

lemma take_pred: "0 < n \<Longrightarrow> n \<le> length buf \<Longrightarrow> take (n - 1) buf = butlast (take n buf)"
  by (simp add: butlast_take)

lemma length_edit: "length acc \<le> cap \<Longrightarrow> length (edit cap acc b) \<le> cap"
  by (auto simp: edit_def)

text \<open>
  C25. Line input edits. For every sequence of keys without a terminator, followed by a terminator,
  \<open>read_line\<close> returns; the line it leaves in the buffer is the text that editing gives (backspace
  and delete remove the last character, printable characters are added while the buffer has room,
  everything else is ignored), it fits the buffer, and the input after the terminator is untouched.
\<close>

theorem read_line_edits:
  assumes "\<forall>b \<in> set keys. b \<noteq> 10 \<and> b \<noteq> 13" "t = 10 \<or> t = 13" "n \<le> length buf"
  shows "\<exists>m buf' out. read_line buf n (keys @ t # rest) = Some (m, buf', out, rest) \<and>
    take m buf' = foldl (edit (length buf)) (take n buf) keys \<and> length buf' = length buf \<and> m \<le> length buf"
  using assms(1,3)
proof (induction keys arbitrary: buf n)
  case Nil
  then show ?case using assms(2) by auto
next
  case (Cons b keys)
  have b: "b \<noteq> 10" "b \<noteq> 13" "\<forall>b \<in> set keys. b \<noteq> 10 \<and> b \<noteq> 13" using Cons.prems by auto
  consider (del) "b = 0x08 \<or> b = 0x7F" "0 < n" | (nodel) "b = 0x08 \<or> b = 0x7F" "n = 0"
    | (add) "0x20 \<le> b" "b \<le> 0x7E" "n < length buf" "b \<noteq> 0x08" "b \<noteq> 0x7F"
    | (skip) "b \<noteq> 0x08" "b \<noteq> 0x7F" "\<not> (0x20 \<le> b \<and> b \<le> 0x7E \<and> n < length buf)"
    by blast
  then show ?case
  proof cases
    case del
    have "n - 1 \<le> length buf" using Cons.prems(2) by simp
    then obtain m buf' out where "read_line buf (n - 1) (keys @ t # rest) = Some (m, buf', out, rest)"
      "take m buf' = foldl (edit (length buf)) (take (n - 1) buf) keys" "length buf' = length buf" "m \<le> length buf"
      using Cons.IH [OF b(3)] by blast
    moreover have "take (n - 1) buf = edit (length buf) (take n buf) b"
      using del Cons.prems(2) by (simp add: edit_def butlast_take)
    ultimately show ?thesis using del b by auto
  next
    case nodel
    then show ?thesis using Cons.IH [OF b(3) Cons.prems(2)] b by (auto simp: edit_def)
  next
    case skip
    then have "edit (length buf) (take n buf) b = take n buf"
      "read_line buf n ((b # keys) @ t # rest) = read_line buf n (keys @ t # rest)"
      using b Cons.prems(2) by (auto simp: edit_def)
    then show ?thesis using Cons.IH [OF b(3) Cons.prems(2)] by simp
  next
    case add
    then have "n + 1 \<le> length (buf[n := b])" by simp
    then obtain m buf' out where "read_line (buf[n := b]) (n + 1) (keys @ t # rest) = Some (m, buf', out, rest)"
      "take m buf' = foldl (edit (length buf)) (take (n + 1) (buf[n := b])) keys" "length buf' = length buf" "m \<le> length buf"
      using Cons.IH [OF b(3)] length_list_update by metis
    moreover have "take (n + 1) (buf[n := b]) = edit (length buf) (take n buf) b"
      using add by (simp add: edit_def take_update_snoc)
    ultimately show ?thesis using add b by auto
  qed
qed

theorem read_line_edits_witness:
  "\<exists>m buf' out. read_line [0, 0, 0, 0] 0 ([0x61, 0x62, 0x08, 0x63] @ 13 # [0x64]) = Some (m, buf', out, [0x64]) \<and>
     take m buf' = [0x61, 0x63]"
  using read_line_edits [of "[0x61, 0x62, 0x08, 0x63]" 13 0 "[0, 0, 0, 0]" "[0x64]"] by (simp add: edit_def)

subsection \<open>Printing\<close>

text \<open>
  The target of a redirection: the memory the writer fills, its size and the number of bytes
  written. \<open>_print\<close> gets the pieces the formatter produces.
\<close>

record redirect =
  rd_buf :: bytes
  rd_max :: nat
  rd_written :: nat

definition RedirectWriter_write_str :: "bytes \<Rightarrow> redirect \<Rightarrow> redirect run" where
  "RedirectWriter_write_str s r =
     (if rd_written r > rd_max r then Panic
      else let to_copy = min (length s) (rd_max r - rd_written r)
           in if to_copy > 0
              then Ret (r\<lparr>rd_buf := copy_into (rd_buf r) (rd_written r) (take to_copy s),
                          rd_written := rd_written r + to_copy\<rparr>)
              else Ret r)"

fun redirect_all :: "bytes list \<Rightarrow> redirect \<Rightarrow> redirect run" where
  "redirect_all [] r = Ret r"
| "redirect_all (s # ss) r = run_bind (RedirectWriter_write_str s r) (redirect_all ss)"

definition print_args ::
  "bytes list \<Rightarrow> redirect option \<Rightarrow> serial_port \<Rightarrow> kernel \<Rightarrow> (redirect option \<times> serial_port \<times> kernel) run" where
  "print_args pieces target port k =
     (let k = enter_critical k
      in case target of
           Some r \<Rightarrow> run_bind (redirect_all pieces r) (\<lambda>r. Ret (Some r, port, exit_critical k))
         | None \<Rightarrow> Ret (None, fold SerialPort_write_string pieces port, exit_critical k))"

definition redirect_wf :: "redirect \<Rightarrow> bool" where
  "redirect_wf r \<longleftrightarrow> rd_written r \<le> rd_max r \<and> rd_max r \<le> length (rd_buf r)"

definition redirected :: "redirect \<Rightarrow> bytes" where
  "redirected r = take (rd_written r) (rd_buf r)"

lemma RedirectWriter_write_str_Ret:
  assumes "redirect_wf r"
  shows "\<exists>r'. RedirectWriter_write_str s r = Ret r' \<and> redirect_wf r' \<and> rd_max r' = rd_max r \<and>
    redirected r' = take (rd_max r) (redirected r @ s)"
proof (cases "min (length s) (rd_max r - rd_written r) = 0")
  case True
  then show ?thesis
    using assms
    by (auto simp: RedirectWriter_write_str_def redirect_wf_def redirected_def Let_def min_def split: if_splits)
next
  case False
  let ?n = "min (length s) (rd_max r - rd_written r)"
  let ?r = "r\<lparr>rd_buf := copy_into (rd_buf r) (rd_written r) (take ?n s), rd_written := rd_written r + ?n\<rparr>"
  have eq: "RedirectWriter_write_str s r = Ret ?r"
    using False assms by (simp add: RedirectWriter_write_str_def redirect_wf_def Let_def)
  have len: "rd_written r + length (take ?n s) \<le> length (rd_buf r)" using assms by (auto simp: redirect_wf_def)
  have "redirect_wf ?r" using assms length_copy_into [OF len] by (auto simp: redirect_wf_def)
  moreover have "redirected ?r = take (rd_max r) (redirected r @ s)"
  proof -
    have "redirected ?r = take (rd_written r) (rd_buf r) @ take ?n s"
      using len assms by (simp add: redirected_def copy_into_def redirect_wf_def)
    also have "\<dots> = take (rd_max r) (redirected r @ s)"
      using assms by (auto simp: redirected_def redirect_wf_def min_def le_antisym)
    finally show ?thesis .
  qed
  ultimately show ?thesis using eq by auto
qed

lemma redirect_all_Ret:
  "redirect_wf r \<Longrightarrow> \<exists>r'. redirect_all ss r = Ret r' \<and> redirect_wf r' \<and> rd_max r' = rd_max r \<and>
    redirected r' = take (rd_max r) (redirected r @ concat ss)"
proof (induction ss arbitrary: r)
  case Nil
  then show ?case by (auto simp: redirected_def redirect_wf_def)
next
  case (Cons s ss)
  obtain r1 where r1: "RedirectWriter_write_str s r = Ret r1" "redirect_wf r1" "rd_max r1 = rd_max r"
    "redirected r1 = take (rd_max r) (redirected r @ s)"
    using RedirectWriter_write_str_Ret [OF Cons.prems] by blast
  from Cons.IH [OF r1(2)] obtain r2 where r2: "redirect_all ss r1 = Ret r2" "redirect_wf r2" "rd_max r2 = rd_max r1"
    "redirected r2 = take (rd_max r1) (redirected r1 @ concat ss)" by blast
  have "redirected r2 = take (rd_max r) (redirected r @ s @ concat ss)"
    unfolding r2(4) r1(3,4) by (simp add: min_def)
  then show ?case using r1 r2 by auto
qed

lemma write_pieces_io:
  "sp_io (fold SerialPort_write_string ss s) = sp_io s @ map (Pair (sp_port s)) (crlf (concat ss)) \<and>
   sp_port (fold SerialPort_write_string ss s) = sp_port s"
  by (induction ss arbitrary: s) (simp_all add: write_string_io crlf_def)

text \<open>
  Printing. Without a redirection the pieces appear on the port in order, each line feed
  preceded by a carriage return. With one, the port is not touched and the target holds the old
  text followed by the pieces, cut off at its size; nothing is written past it and the writer does
  not panic. The preemption count is balanced: the kernel state is as before.
\<close>

theorem print_reaches_its_target:
  assumes "redirect_wf r"
  shows "(\<exists>port'. print_args pieces None port k = Ret (None, port', k) \<and>
      sp_io port' = sp_io port @ map (Pair (sp_port port)) (crlf (concat pieces))) \<and>
    (\<exists>r'. print_args pieces (Some r) port k = Ret (Some r', port, k) \<and> redirect_wf r' \<and>
      rd_max r' = rd_max r \<and> redirected r' = take (rd_max r) (redirected r @ concat pieces))"
proof -
  from redirect_all_Ret [OF assms, of pieces]
  obtain r' where "redirect_all pieces r = Ret r'" "redirect_wf r'" "rd_max r' = rd_max r"
    "redirected r' = take (rd_max r) (redirected r @ concat pieces)" by blast
  then show ?thesis
    by (auto simp: print_args_def write_pieces_io Let_def)
qed

theorem print_reaches_its_target_witness:
  "\<exists>r'. print_args [[65, 66], [67, 68]] (Some \<lparr>rd_buf = [0, 0, 0], rd_max = 3, rd_written = 0\<rparr>)
      (SerialPort_new 0x3F8) (sample_kernel Ready) = Ret (Some r', SerialPort_new 0x3F8, sample_kernel Ready) \<and>
    redirected r' = [65, 66, 67]"
  using print_reaches_its_target [of "\<lparr>rd_buf = [0, 0, 0], rd_max = 3, rd_written = 0\<rparr>" "[[65, 66], [67, 68]]"]
  by (auto simp: redirect_wf_def redirected_def)

end
