(* ===== verification/Device_Service.thy ===== *)
theory Device_Service
  imports Service_Base Keyboard Serial
begin

text \<open>
  The device manager, task 85 of \<open>shell/mod.rs\<close>: clients with a \<open>Device\<close> capability read the
  serial port (device 0) or the keyboard (device 1), or write to the serial port.
\<close>

definition dev_admits :: "capability \<Rightarrow> u8 \<Rightarrow> bool \<Rightarrow> bool" where
  "dev_admits cap dev require_write =
     (case cap_resource cap of
        Device cap_dev readable writable \<Rightarrow>
          cap_dev = dev \<and> (if require_write then writable \<and> cap_write cap else readable \<and> cap_read cap)
      | _ \<Rightarrow> False)"

definition dev_check_cap :: "kernel \<Rightarrow> task_id \<Rightarrow> u8 \<Rightarrow> bool \<Rightarrow> bool" where
  "dev_check_cap k sender dev require_write = holds_cap k sender (\<lambda>cap. dev_admits cap dev require_write)"

definition ensure_device_service :: "u64 \<Rightarrow> kernel \<Rightarrow> kernel run" where
  "ensure_device_service entry k = ensure_service 85 entry k"

subsection \<open>Text\<close>

text \<open>\<open>core::str::from_utf8(bytes).unwrap_or("")\<close>\<close>

definition from_utf8_or_empty :: "bytes \<Rightarrow> bytes" where
  "from_utf8_or_empty bs = (if valid_utf8 bs then bs else [])"

subsection \<open>The service\<close>

record dev_state =
  dv_serial :: serial_port
  dv_kbd :: kbd_buffer
  dev_ops :: u64

text \<open>
  \<open>while read_len < 120\<close>: take bytes until the device has none. The first argument counts the
  iterations left.
\<close>

fun dev_read_loop :: "('s \<Rightarrow> u8 option \<times> 's) \<Rightarrow> nat \<Rightarrow> nat \<Rightarrow> bytes \<Rightarrow> 's \<Rightarrow> nat \<times> bytes \<times> 's" where
  "dev_read_loop try_read 0 read_len reply s = (read_len, reply, s)"
| "dev_read_loop try_read (Suc left) read_len reply s =
     (case try_read s of
        (Some b, s) \<Rightarrow> dev_read_loop try_read left (read_len + 1) (reply[2 + read_len := b]) s
      | (None, s) \<Rightarrow> (read_len, reply, s))"

definition dev_read :: "('s \<Rightarrow> u8 option \<times> 's) \<Rightarrow> 's \<Rightarrow> bytes \<times> 's" where
  "dev_read try_read s =
     (case dev_read_loop try_read 120 0 (replicate 128 0) s of
        (read_len, reply, s) \<Rightarrow>
          if read_len > 0 then (take (2 + read_len) (reply[0 := 0, 1 := of_nat read_len]), s)
          else (take 1 (reply[0 := 2]), s))"

definition dev_handle :: "message \<Rightarrow> dev_state \<Rightarrow> kernel \<Rightarrow> (bytes \<times> dev_state \<times> kernel) run" where
  "dev_handle msg s k =
     (let s = s\<lparr>dev_ops := dev_ops s + 1\<rparr>
      in if msg_tag msg \<noteq> DevOp then Ret ([3], s, k)
         else if msg_len msg < 2 then Ret ([3], s, k)
         else let opc = msg_payload msg ! 0;
                  dev = msg_payload msg ! 1;
                  k = log_trace ''dev_op'' (ucast opc) (ucast dev) k
              in if dev \<noteq> 0 \<and> dev \<noteq> 1 then Ret ([3], s, k)
                 else if opc = 0 then
                   (if \<not> dev_check_cap k (msg_sender msg) dev False then Ret ([1], s, k)
                    else if dev = 0 then
                      (case dev_read SerialPort_try_read (dv_serial s) of (reply, sp) \<Rightarrow> Ret (reply, s\<lparr>dv_serial := sp\<rparr>, k))
                    else
                      (case dev_read kbd_try_read (dv_kbd s) of (reply, b) \<Rightarrow> Ret (reply, s\<lparr>dv_kbd := b\<rparr>, k)))
                 else if opc = 1 then
                   (if \<not> dev_check_cap k (msg_sender msg) dev True then Ret ([1], s, k)
                    else let write_len = unat (msg_payload msg ! 2)
                         in if write_len > 120 \<or> msg_len msg < 3 + write_len then Ret ([3], s, k)
                            else if dev = 0 then
                              Ret ([0], s\<lparr>dv_serial := SerialPort_write_string
                                     (from_utf8_or_empty (slice 3 (3 + write_len) (msg_payload msg))) (dv_serial s)\<rparr>, k)
                            else Ret ([3], s, k))
                 else Ret ([3], s, k))"

definition dev_service_iter :: "dev_state \<Rightarrow> kernel \<Rightarrow> (service_outcome \<times> dev_state \<times> kernel) run" where
  "dev_service_iter = service_iter 85 85000 DevReply dev_handle"

subsection \<open>Reading from a device\<close>

text \<open>What the service relies on in a device: it hands out the bytes that wait, oldest first.\<close>

locale input_source =
  fixes try_read :: "'s \<Rightarrow> u8 option \<times> 's"
    and pending :: "'s \<Rightarrow> bytes"
    and ok :: "'s \<Rightarrow> bool"
  assumes try_read_empty: "ok s \<Longrightarrow> pending s = [] \<Longrightarrow> try_read s = (None, s)"
    and try_read_next: "ok s \<Longrightarrow> pending s = b # bs \<Longrightarrow> \<exists>s'. try_read s = (Some b, s') \<and> ok s' \<and> pending s' = bs"
begin

lemma read_loop:
  assumes "ok s" "2 + n + left \<le> length reply"
  shows "\<exists>reply' s'. dev_read_loop try_read left n reply s = (n + min left (length (pending s)), reply', s') \<and> ok s' \<and>
    pending s' = drop left (pending s) \<and> length reply' = length reply \<and>
    take (2 + n + min left (length (pending s))) reply' = take (2 + n) reply @ take left (pending s)"
  using assms
proof (induction left arbitrary: n reply s)
  case (Suc left)
  show ?case
  proof (cases "pending s")
    case Nil
    then show ?thesis using try_read_empty [OF Suc.prems(1) Nil] Suc.prems(1) by simp
  next
    case (Cons b bs)
    obtain s1 where s1: "try_read s = (Some b, s1)" "ok s1" "pending s1 = bs" using try_read_next [OF Suc.prems(1) Cons] by blast
    have len: "2 + (n + 1) + left \<le> length (reply[2 + n := b])" using Suc.prems(2) by simp
    have snoc: "take (2 + (n + 1)) (reply[2 + n := b]) = take (2 + n) reply @ [b]"
      using take_update_snoc [of "2 + n" reply b] Suc.prems(2) by simp
    show ?thesis
      using Suc.IH [OF s1(2) len] s1 Cons snoc by (auto simp: add.assoc)
  qed
qed simp

lemma read_drains:
  assumes "ok s"
  shows "\<exists>s'. dev_read try_read s =
      (if pending s = [] then [2] else 0 # of_nat (min 120 (length (pending s))) # take 120 (pending s), s') \<and>
    ok s' \<and> pending s' = drop 120 (pending s)"
proof -
  let ?n = "min 120 (length (pending s))"
  obtain reply s' where l: "dev_read_loop try_read 120 0 (replicate 128 0) s = (?n, reply, s')" "ok s'" "pending s' = drop 120 (pending s)"
    "length reply = 128" "take (2 + ?n) reply = take 2 (replicate 128 0) @ take 120 (pending s)"
    using read_loop [OF assms, of 0 120 "replicate 128 0"] by auto
  have "take (2 + ?n) (reply[0 := 0, 1 := of_nat ?n]) = 0 # of_nat ?n # take 120 (pending s)"
    using l(5) by (simp add: take_update_swap numeral_eq_Suc)
  moreover have "take 1 (reply[0 := 2]) = [2]" using l(4) by (cases reply) auto
  ultimately show ?thesis using l by (auto simp: dev_read_def simp del: One_nat_def)
qed

end

interpretation serial_in: input_source SerialPort_try_read sp_rx "\<lambda>_. True"
  by unfold_locales (simp_all add: SerialPort_try_read_eq)

interpretation kbd_in: input_source kbd_try_read kbd_contents kbd_inv
proof (unfold_locales, goal_cases)
  case (1 s)
  then show ?case by (simp add: kbd_try_read_def KbdBuffer_pop_def kbd_contents_def)
next
  case (2 s b bs)
  then show ?case
    using kbd.deq_total [OF 2(1)] kbd.deq_Some [OF 2(1)]
    by (auto simp: kbd_try_read_def kbd_deq_def split: prod.splits option.splits)
qed

interpretation dev_gate: cap_gate dev_check_cap dev_admits
proof (unfold_locales, goal_cases)
  case (1 k t r w)
  then show ?case by (simp add: dev_check_cap_def holds_cap_view)
next
  case (2 d r w c)
  then show ?case
    by (cases "cap_resource c") (auto simp: dev_admits_def rights_of_def less_eq_rights_mask_def split: if_splits)
qed

lemma dev_check_cap_log [simp]: "dev_check_cap (log_trace e p q k) t d w = dev_check_cap k t d w"
  by (simp add: dev_check_cap_def holds_cap_def)

subsection \<open>Properties\<close>

text \<open>What waits on a device.\<close>

definition dev_pending :: "u8 \<Rightarrow> dev_state \<Rightarrow> bytes" where
  "dev_pending dev s = (if dev = 0 then sp_rx (dv_serial s) else kbd_contents (dv_kbd s))"

definition dev_inv :: "dev_state \<Rightarrow> bool" where
  "dev_inv s \<longleftrightarrow> kbd_inv (dv_kbd s)"

text \<open>A well-formed request for an existing device.\<close>

definition dev_request :: "u8 \<Rightarrow> u8 \<Rightarrow> message \<Rightarrow> bool" where
  "dev_request opc dev msg \<longleftrightarrow> msg_tag msg = DevOp \<and> 2 \<le> msg_len msg \<and> msg_payload msg ! 0 = opc \<and>
     msg_payload msg ! 1 = dev \<and> (dev = 0 \<or> dev = 1)"

lemma serial_loop_io: "sp_io (snd (snd (dev_read_loop SerialPort_try_read n m reply s))) = sp_io s"
  by (induction n arbitrary: m reply s) (auto simp: SerialPort_try_read_eq split: list.split)

lemma serial_read_io: "sp_io (snd (dev_read SerialPort_try_read s)) = sp_io s"
  using serial_loop_io [of 120 0 "replicate 128 0" s] by (auto simp: dev_read_def split: prod.split)

text \<open>
  Reading a device. A permitted read answers with the oldest bytes that wait, at most 120 of
  them, in order and with their number, or with status 2 when there are none; the bytes handed out
  are gone from that device and nothing else waits or goes out. Without a readable capability the
  answer is status 1 and both devices keep what waits.
\<close>

theorem dev_read_in_order:
  assumes "dev_request 0 dev msg" "dev_inv s"
  shows "\<exists>s' k'. dev_handle msg s k =
      Ret (if \<not> dev_check_cap k (msg_sender msg) dev False then [1]
           else if dev_pending dev s = [] then [2]
           else 0 # of_nat (min 120 (length (dev_pending dev s))) # take 120 (dev_pending dev s), s', k') \<and>
    dev_inv s' \<and> same_but_trace k k' \<and> sp_io (dv_serial s') = sp_io (dv_serial s) \<and>
    dev_pending 0 s' = (if dev_check_cap k (msg_sender msg) dev False \<and> dev = 0 then drop 120 (dev_pending 0 s) else dev_pending 0 s) \<and>
    dev_pending 1 s' = (if dev_check_cap k (msg_sender msg) dev False \<and> dev = 1 then drop 120 (dev_pending 1 s) else dev_pending 1 s)"
proof -
  have r: "msg_tag msg = DevOp" "2 \<le> msg_len msg" "msg_payload msg ! 0 = 0" "msg_payload msg ! 1 = dev" "dev = 0 \<or> dev = 1"
    using assms(1) by (auto simp: dev_request_def)
  consider "\<not> dev_check_cap k (msg_sender msg) dev False" | "dev_check_cap k (msg_sender msg) dev False" "dev = 0"
    | "dev_check_cap k (msg_sender msg) dev False" "dev = 1" using r(5) by blast
  then show ?thesis
  proof cases
    case 1
    then show ?thesis using r assms(2) by (auto simp: dev_handle_def Let_def dev_inv_def dev_pending_def)
  next
    case 2
    obtain reply sp where d: "dev_read SerialPort_try_read (dv_serial s) = (reply, sp)" by fastforce
    have "sp_io sp = sp_io (dv_serial s)" using serial_read_io [of "dv_serial s"] d by simp
    then show ?thesis
      using 2 r assms(2) d serial_in.read_drains [of "dv_serial s"]
      by (simp add: dev_handle_def Let_def dev_inv_def dev_pending_def)
  next
    case 3
    obtain reply kb where d: "dev_read kbd_try_read (dv_kbd s) = (reply, kb)" by fastforce
    then show ?thesis
      using 3 r assms(2) kbd_in.read_drains [of "dv_kbd s"]
      by (simp add: dev_handle_def Let_def dev_inv_def dev_pending_def)
  qed
qed

text \<open>
  Writing to the serial port. A permitted write of at most 120 bytes of text puts exactly those
  bytes on the wire, each line feed preceded by a carriage return, and text that is not UTF-8 puts
  nothing there; without a writable capability, or for the keyboard, nothing goes out. No write
  takes input away.
\<close>

theorem dev_write_reaches_wire:
  assumes "dev_request 1 dev msg" "unat (msg_payload msg ! 2) \<le> 120" "3 + unat (msg_payload msg ! 2) \<le> msg_len msg"
  shows "\<exists>status s' k'. dev_handle msg s k = Ret ([status], s', k') \<and> same_but_trace k k' \<and>
    status = (if \<not> dev_check_cap k (msg_sender msg) dev True then 1 else if dev = 0 then 0 else 3) \<and>
    sp_io (dv_serial s') = sp_io (dv_serial s) @
      (if status = 0 \<and> valid_utf8 (slice 3 (3 + unat (msg_payload msg ! 2)) (msg_payload msg))
       then map (Pair (sp_port (dv_serial s))) (crlf (slice 3 (3 + unat (msg_payload msg ! 2)) (msg_payload msg))) else []) \<and>
    dev_pending 0 s' = dev_pending 0 s \<and> dev_pending 1 s' = dev_pending 1 s"
proof -
  have r: "msg_tag msg = DevOp" "2 \<le> msg_len msg" "msg_payload msg ! 0 = 1" "msg_payload msg ! 1 = dev" "dev = 0 \<or> dev = 1"
    using assms(1) by (auto simp: dev_request_def)
  consider "\<not> dev_check_cap k (msg_sender msg) dev True" | "dev_check_cap k (msg_sender msg) dev True" "dev = 1"
    | "dev_check_cap k (msg_sender msg) dev True" "dev = 0" using r(5) by blast
  then show ?thesis
  proof cases
    case 3
    let ?t = "slice 3 (3 + unat (msg_payload msg ! 2)) (msg_payload msg)"
    have "crlf [] = []" by (simp add: crlf_def)
    then show ?thesis
      using 3 r assms(2,3) write_string_io [of "from_utf8_or_empty ?t" "dv_serial s"]
      by (simp add: dev_handle_def Let_def dev_pending_def from_utf8_or_empty_def)
  qed (use r assms(2,3) in \<open>simp_all add: dev_handle_def Let_def dev_pending_def\<close>)
qed

lemma kbd_read_reply:
  assumes "dev_inv s" "dev_read kbd_try_read (dv_kbd s) = (reply, b)"
  shows "reply \<noteq> [] \<and> length reply \<le> PAYLOAD_MAX \<and> kbd_inv b"
  using kbd_in.read_drains [of "dv_kbd s"] assms by (auto simp: dev_inv_def PAYLOAD_MAX_def split: if_splits)

lemma serial_read_reply:
  assumes "dev_read SerialPort_try_read sp = (reply, sp')"
  shows "reply \<noteq> [] \<and> length reply \<le> PAYLOAD_MAX"
  using serial_in.read_drains [of sp] assms by (auto simp: PAYLOAD_MAX_def split: if_splits)

interpretation dev_service: service dev_handle dev_inv "\<lambda>_ _. True"
proof (unfold_locales, goal_cases)
  case (1 k m s)
  then show ?case
    using kbd_read_reply [OF 1(3)] serial_read_reply [of "dv_serial s"]
    by (auto simp: dev_handle_def Let_def dev_inv_def PAYLOAD_MAX_def split: prod.split)
qed

subsection \<open>Concrete requests\<close>

definition dev_cap :: "u8 \<Rightarrow> capability" where
  "dev_cap dev = \<lparr>cap_resource = Device dev True True, cap_read = True, cap_write = True, cap_grant = False,
     cap_sealed = False, cap_id = 6, cap_origin = None\<rparr>"

definition dev_kernel :: kernel where
  "dev_kernel = served_kernel 85 [dev_cap 0]"

lemma dev_kernel_checks: "dev_check_cap dev_kernel 2 0 w"
proof -
  have "get_task dev_kernel 2 = Some (sample_task 2 BlockedOnReceive (table_with [dev_cap 0]))"
    unfolding dev_kernel_def by (rule served_kernel) (simp_all add: MAX_TASKS_def)
  then show ?thesis by (simp add: dev_check_cap_def holds_cap_def table_with_def dev_admits_def dev_cap_def)
qed

definition dev_sample :: dev_state where
  "dev_sample = \<lparr>dv_serial = (SerialPort_new 0x3F8)\<lparr>sp_rx := [0x68, 0x69]\<rparr>, dv_kbd = KbdBuffer_new, dev_ops = 0\<rparr>"

definition dev_read_msg :: message where
  "dev_read_msg = make_message 2 DevOp 1 [0, 0]"

definition dev_write_msg :: message where
  "dev_write_msg = make_message 2 DevOp 1 [1, 0, 2, 0x41, 10]"

lemma dev_msgs:
  "dev_request 0 0 dev_read_msg" "msg_sender dev_read_msg = 2" "dev_request 1 0 dev_write_msg" "msg_sender dev_write_msg = 2"
  "unat (msg_payload dev_write_msg ! 2) = 2" "msg_len dev_write_msg = 5" "slice 3 5 (msg_payload dev_write_msg) = [0x41, 10]"
  "valid_utf8 [0x41, 10]" "crlf [0x41, 10] = [0x41, 13, 10]"
  by code_simp+

theorem dev_read_in_order_witness:
  "\<exists>s' k'. dev_handle dev_read_msg dev_sample dev_kernel = Ret ([0, 2, 0x68, 0x69], s', k') \<and> dev_pending 0 s' = []"
proof -
  have "dev_inv dev_sample" "dev_pending 0 dev_sample = [0x68, 0x69]"
    using kbd.inv_empty by (simp_all add: dev_sample_def dev_inv_def dev_pending_def SerialPort_new_def)
  then show ?thesis
    using dev_read_in_order [OF dev_msgs(1), of dev_sample dev_kernel] dev_kernel_checks by (auto simp: dev_msgs(2))
qed

theorem dev_write_reaches_wire_witness:
  "\<exists>s' k'. dev_handle dev_write_msg dev_sample dev_kernel = Ret ([0], s', k') \<and>
     sp_io (dv_serial s') = [(0x3F8, 0x41), (0x3F8, 13), (0x3F8, 10)]"
proof -
  have "sp_io (dv_serial dev_sample) = []" "sp_port (dv_serial dev_sample) = 0x3F8"
    by (simp_all add: dev_sample_def SerialPort_new_def)
  then show ?thesis
    using dev_write_reaches_wire [OF dev_msgs(3), of dev_sample dev_kernel] dev_kernel_checks
    by (auto simp: dev_msgs)
qed

end
