(* ===== verification/Sync_Service.thy ===== *)
theory Sync_Service
  imports Service_Base Ring_Buffers
begin

text \<open>
  The synchronisation service, task 86 of \<open>shell/mod.rs\<close>: eight semaphores or mutexes, each with a
  count and a ring of at most sixteen waiting tasks. An acquire that cannot be granted is not
  answered until a release hands the permit over. Replies are asynchronous sends, so the service
  never parks on a client; a failed reply is only reported on the console, which is not modelled.
\<close>

definition SYNC_MAX_OBJ :: nat where "SYNC_MAX_OBJ = 8"
definition SYNC_MAX_WAIT :: nat where "SYNC_MAX_WAIT = 16"

record sync_object =
  so_used :: bool
  so_is_mutex :: bool
  so_count :: int
  so_waiters :: "nat list"
  so_head :: nat
  so_tail :: nat
  so_len :: nat

definition SyncObject_new :: sync_object where
  "SyncObject_new = \<lparr>so_used = False, so_is_mutex = False, so_count = 0, so_waiters = replicate SYNC_MAX_WAIT 0,
     so_head = 0, so_tail = 0, so_len = 0\<rparr>"

definition SyncObject_enqueue :: "nat \<Rightarrow> sync_object \<Rightarrow> sync_object option" where
  "SyncObject_enqueue task_id b =
     (if so_len b < SYNC_MAX_WAIT
      then Some (b\<lparr>so_waiters := (so_waiters b)[so_tail b := task_id],
                   so_tail := (so_tail b + 1) mod SYNC_MAX_WAIT, so_len := so_len b + 1\<rparr>)
      else None)"

definition SyncObject_dequeue :: "sync_object \<Rightarrow> (nat \<times> sync_object) option" where
  "SyncObject_dequeue b =
     (if so_len b > 0
      then Some (so_waiters b ! so_head b, b\<lparr>so_head := (so_head b + 1) mod SYNC_MAX_WAIT, so_len := so_len b - 1\<rparr>)
      else None)"

record sync_state =
  sy_objects :: "sync_object list"
  sync_acq :: u64
  sync_rel :: u64

definition SyncStore_new :: "sync_object list" where
  "SyncStore_new = replicate SYNC_MAX_OBJ SyncObject_new"

definition sync_admits :: "capability \<Rightarrow> u8 \<Rightarrow> bool \<Rightarrow> bool" where
  "sync_admits cap obj_id need_write = (case cap_resource cap of SyncObj cap_obj \<Rightarrow> cap_obj = obj_id | _ \<Rightarrow> False)"

definition sync_check_cap :: "kernel \<Rightarrow> task_id \<Rightarrow> u8 \<Rightarrow> bool" where
  "sync_check_cap k sender obj_id = holds_cap k sender (\<lambda>cap. sync_admits cap obj_id True)"

definition ensure_sync_service :: "u64 \<Rightarrow> kernel \<Rightarrow> kernel run" where
  "ensure_sync_service entry k = ensure_service 86 entry k"

definition i32_MAX :: int where "i32_MAX = 2 ^ 31 - 1"

text \<open>The three operations on an object. \<open>None\<close> for the status means that no reply is sent yet.\<close>

definition sync_create :: "bool \<Rightarrow> int \<Rightarrow> sync_object \<Rightarrow> u8 \<times> sync_object" where
  "sync_create is_mutex initial_count b =
     (if so_used b then (2, b)
      else (0, b\<lparr>so_used := True, so_is_mutex := is_mutex, so_count := initial_count, so_head := 0, so_tail := 0, so_len := 0\<rparr>))"

definition sync_acquire :: "nat \<Rightarrow> sync_object \<Rightarrow> u8 option \<times> sync_object" where
  "sync_acquire sender b =
     (if so_count b > 0 then (Some 0, b\<lparr>so_count := so_count b - 1\<rparr>)
      else case SyncObject_enqueue sender b of
             Some b \<Rightarrow> (None, b)
           | None \<Rightarrow> (Some 4, b))"

text \<open>\<open>Some\<close> waiter in the result: the permit goes to the task that has waited longest.\<close>

definition sync_release :: "sync_object \<Rightarrow> (nat option \<times> sync_object) run" where
  "sync_release b =
     (case SyncObject_dequeue b of
        Some (waiter_task_id, b) \<Rightarrow> Ret (Some waiter_task_id, b)
      | None \<Rightarrow>
          if so_is_mutex b then Ret (None, b\<lparr>so_count := 1\<rparr>)
          else if so_count b + 1 > i32_MAX then Panic
          else Ret (None, b\<lparr>so_count := so_count b + 1\<rparr>))"

definition sync_reply :: "nat \<Rightarrow> bytes \<Rightarrow> kernel \<Rightarrow> kernel run" where
  "sync_reply target reply k =
     run_bind (install_reply 86 86000 target k) (\<lambda>k. Ret (snd (sys_send_async 1 (tag_to_u16 SyncReply) 1 reply k)))"

definition put_object :: "nat \<Rightarrow> sync_object \<Rightarrow> sync_state \<Rightarrow> sync_state" where
  "put_object i b s = s\<lparr>sy_objects := (sy_objects s)[i := b]\<rparr>"

definition sync_handle :: "message \<Rightarrow> sync_state \<Rightarrow> kernel \<Rightarrow> (u8 option \<times> sync_state \<times> kernel) run" where
  "sync_handle msg s k =
     (if msg_tag msg \<noteq> SyncOp then Ret (Some 2, s, k)
      else if msg_len msg < 2 then Ret (Some 2, s, k)
      else let opc = msg_payload msg ! 0;
               obj_id = msg_payload msg ! 1;
               i = unat obj_id;
               k = log_trace ''sync_op'' (ucast opc) (ucast obj_id) k
           in if i \<ge> 8 then Ret (Some 2, s, k)
              else if opc = 0 then
                (case sync_create (msg_payload msg ! 2 \<noteq> 0) (int (unat (msg_payload msg ! 3))) (sy_objects s ! i) of
                   (r, b) \<Rightarrow> Ret (Some r, put_object i b s, k))
              else if opc = 1 then
                (if \<not> sync_check_cap k (msg_sender msg) obj_id then Ret (Some 1, s, k)
                 else if \<not> so_used (sy_objects s ! i) then Ret (Some 2, s, k)
                 else case sync_acquire (msg_sender msg) (sy_objects s ! i) of
                        (r, b) \<Rightarrow> Ret (r, (put_object i b s)\<lparr>sync_acq := sync_acq s + 1\<rparr>, k))
              else if opc = 2 then
                (if \<not> sync_check_cap k (msg_sender msg) obj_id then Ret (Some 1, s, k)
                 else if \<not> so_used (sy_objects s ! i) then Ret (Some 2, s, k)
                 else run_bind (sync_release (sy_objects s ! i)) (\<lambda>(w, b).
                        let s = (put_object i b s)\<lparr>sync_rel := sync_rel s + 1\<rparr>
                        in case w of
                             None \<Rightarrow> Ret (Some 0, s, k)
                           | Some waiter \<Rightarrow> run_bind (sync_reply waiter [0] k) (\<lambda>k. Ret (Some 0, s, k))))
              else Ret (Some 2, s, k))"

definition sync_turn :: "message \<Rightarrow> sync_state \<Rightarrow> kernel \<Rightarrow> (sync_state \<times> kernel) run" where
  "sync_turn msg s k =
     run_bind (sync_handle msg s k) (\<lambda>(r, s, k).
       case r of
         None \<Rightarrow> Ret (s, k)
       | Some status \<Rightarrow> run_bind (sync_reply (msg_sender msg) [status] k) (\<lambda>k. Ret (s, k)))"

definition sync_service_iter :: "sync_state \<Rightarrow> kernel \<Rightarrow> (service_outcome \<times> sync_state \<times> kernel) run" where
  "sync_service_iter s k =
     (case sys_receive_typed k of
        (Parked, k) \<Rightarrow> Ret (Awaiting, s, k)
      | (Done (Inl _), k) \<Rightarrow> Ret (Yielded, s, yield_cpu k)
      | (Done (Inr msg), k) \<Rightarrow>
          run_bind (sync_turn msg s k) (\<lambda>(s, k). Ret (Replied (Done (Inr ())), s, k)))"

subsection \<open>The waiting queue\<close>

definition wait_inv :: "sync_object \<Rightarrow> bool" where
  "wait_inv b \<longleftrightarrow> length (so_waiters b) = SYNC_MAX_WAIT \<and> so_head b < SYNC_MAX_WAIT \<and> so_len b \<le> SYNC_MAX_WAIT \<and>
     so_tail b = (so_head b + so_len b) mod SYNC_MAX_WAIT"

definition waiting :: "sync_object \<Rightarrow> nat list" where
  "waiting b = ring_list SYNC_MAX_WAIT (so_waiters b) (so_head b) (so_len b)"

interpretation waiters: bounded_fifo SYNC_MAX_WAIT SyncObject_new SyncObject_enqueue SyncObject_dequeue waiting wait_inv
proof (unfold_locales, goal_cases)
  case 1
  then show ?case by (simp add: wait_inv_def SyncObject_new_def SYNC_MAX_WAIT_def)
next
  case 2
  then show ?case by (simp add: waiting_def SyncObject_new_def)
next
  case (3 b)
  then show ?case by (simp add: wait_inv_def waiting_def)
next
  case (4 b x)
  then show ?case by (auto simp: wait_inv_def waiting_def SyncObject_enqueue_def)
next
  case (5 b x b')
  then show ?case
    using ring_list_enq [of "so_len b" SYNC_MAX_WAIT "so_waiters b" "so_head b" x]
    by (auto simp: wait_inv_def waiting_def SyncObject_enqueue_def mod_Suc_eq split: if_splits)
next
  case (6 b)
  then show ?case by (auto simp: waiting_def SyncObject_dequeue_def)
next
  case (7 b x b')
  then show ?case
    using ring_list_deq [of "so_len b" SYNC_MAX_WAIT "so_waiters b" "so_head b"]
      ring_tail_deq [of "so_len b" "so_head b" SYNC_MAX_WAIT]
    by (auto simp: wait_inv_def waiting_def SyncObject_dequeue_def split: if_splits)
qed

subsection \<open>An object is a fair semaphore\<close>

text \<open>Permits are never left over while somebody waits.\<close>

definition object_inv :: "sync_object \<Rightarrow> bool" where
  "object_inv b \<longleftrightarrow> wait_inv b \<and> 0 \<le> so_count b \<and> so_count b \<le> i32_MAX \<and> (0 < so_count b \<longrightarrow> waiting b = [])"

lemma wait_count [simp]: "wait_inv (b\<lparr>so_count := n\<rparr>) = wait_inv b" "waiting (b\<lparr>so_count := n\<rparr>) = waiting b"
  by (simp_all add: wait_inv_def waiting_def)

lemma sync_create_inv:
  assumes "object_inv b" "0 \<le> n" "n \<le> i32_MAX" "sync_create mx n b = (r, b')"
  shows "object_inv b' \<and> (if so_used b then r = 2 \<and> b' = b else r = 0 \<and> so_count b' = n \<and> waiting b' = [] \<and> so_is_mutex b' = mx \<and> so_used b')"
  using assms
  by (auto simp: sync_create_def object_inv_def wait_inv_def waiting_def SYNC_MAX_WAIT_def split: if_splits)

lemma waiters_enqueue_count: "SyncObject_enqueue t b = Some b' \<Longrightarrow> so_count b' = so_count b \<and> so_is_mutex b' = so_is_mutex b \<and> so_used b' = so_used b"
  by (auto simp: SyncObject_enqueue_def split: if_splits)

lemma waiters_dequeue_count: "SyncObject_dequeue b = Some (t, b') \<Longrightarrow> so_count b' = so_count b \<and> so_is_mutex b' = so_is_mutex b \<and> so_used b' = so_used b"
  by (auto simp: SyncObject_dequeue_def split: if_splits)

text \<open>The three outcomes of an acquire and the outcomes of a release.\<close>

lemma sync_acquire_spec:
  assumes "object_inv b" "sync_acquire t b = (r, b')"
  shows "object_inv b'" "so_is_mutex b' = so_is_mutex b" "so_used b' = so_used b"
    and "r = Some 0 \<and> waiting b = [] \<and> waiting b' = [] \<and> so_count b' = so_count b - 1 \<and> 0 < so_count b \<or>
         r = None \<and> waiting b' = waiting b @ [t] \<and> so_count b' = so_count b \<and> so_count b = 0 \<or>
         r = Some 4 \<and> b' = b \<and> length (waiting b) = SYNC_MAX_WAIT"
proof -
  have inv: "wait_inv b" "0 \<le> so_count b" "so_count b \<le> i32_MAX" "0 < so_count b \<longrightarrow> waiting b = []"
    using assms(1) by (auto simp: object_inv_def)
  consider "0 < so_count b" | "so_count b = 0" "SyncObject_enqueue t b = None"
    | b1 where "so_count b = 0" "SyncObject_enqueue t b = Some b1" using inv(2) by fastforce
  then have "object_inv b' \<and> so_is_mutex b' = so_is_mutex b \<and> so_used b' = so_used b \<and>
    (r = Some 0 \<and> waiting b = [] \<and> waiting b' = [] \<and> so_count b' = so_count b - 1 \<and> 0 < so_count b \<or>
     r = None \<and> waiting b' = waiting b @ [t] \<and> so_count b' = so_count b \<and> so_count b = 0 \<or>
     r = Some 4 \<and> b' = b \<and> length (waiting b) = SYNC_MAX_WAIT)"
  proof cases
    case 1
    then show ?thesis using assms(2) inv by (auto simp: sync_acquire_def object_inv_def)
  next
    case 2
    then show ?thesis using assms waiters.enq_None [OF inv(1), of t] by (auto simp: sync_acquire_def)
  next
    case 3
    then show ?thesis
      using assms(2) waiters.enq_Some [OF inv(1) 3(2)] waiters_enqueue_count [OF 3(2)] by (auto simp: sync_acquire_def object_inv_def i32_MAX_def)
  qed
  then show "object_inv b'" "so_is_mutex b' = so_is_mutex b" "so_used b' = so_used b"
    and "r = Some 0 \<and> waiting b = [] \<and> waiting b' = [] \<and> so_count b' = so_count b - 1 \<and> 0 < so_count b \<or>
         r = None \<and> waiting b' = waiting b @ [t] \<and> so_count b' = so_count b \<and> so_count b = 0 \<or>
         r = Some 4 \<and> b' = b \<and> length (waiting b) = SYNC_MAX_WAIT"
    by blast+
qed

lemma sync_release_spec:
  assumes "object_inv b" "sync_release b = Ret (w, b')"
  shows "object_inv b' \<and> so_is_mutex b' = so_is_mutex b \<and> so_used b' = so_used b \<and>
    (case w of
       Some t \<Rightarrow> waiting b = t # waiting b' \<and> so_count b' = so_count b
     | None \<Rightarrow> waiting b = [] \<and> waiting b' = [] \<and> so_count b' = (if so_is_mutex b then 1 else so_count b + 1))"
proof -
  have inv: "wait_inv b" "0 \<le> so_count b" "so_count b \<le> i32_MAX" "0 < so_count b \<longrightarrow> waiting b = []"
    using assms(1) by (auto simp: object_inv_def)
  show ?thesis
  proof (cases "SyncObject_dequeue b")
    case None
    then have "waiting b = []" using waiters.deq_None [OF inv(1)] by simp
    then show ?thesis
      using None assms(2) inv by (auto simp: sync_release_def object_inv_def i32_MAX_def split: if_splits)
  next
    case (Some p)
    obtain t b1 where p: "p = (t, b1)" by fastforce
    note d = waiters.deq_Some [OF inv(1) Some [unfolded p]] and c = waiters_dequeue_count [OF Some [unfolded p]]
    show ?thesis using assms(2) Some p d c inv by (auto simp: sync_release_def object_inv_def)
  qed
qed

lemma sync_release_panics: "object_inv b \<Longrightarrow> sync_release b = Panic \<longleftrightarrow> \<not> so_is_mutex b \<and> so_count b = i32_MAX"
proof -
  assume inv: "object_inv b"
  then have w: "wait_inv b" by (simp add: object_inv_def)
  have "SyncObject_dequeue b = None" if "so_count b = i32_MAX"
    using inv that waiters.deq_None [OF w] by (simp add: object_inv_def i32_MAX_def)
  then show ?thesis using inv by (auto simp: sync_release_def object_inv_def split: option.split)
qed

text \<open>
  A history of one object: acquires, with the client, and releases. \<open>granted\<close> lists the clients
  that were given a permit, in the order in which they got it, \<open>asked\<close> the clients whose acquire
  was not turned away.
\<close>

datatype sync_op = Acquire nat | Release

fun sync_run :: "sync_op list \<Rightarrow> sync_object \<Rightarrow> (nat list \<times> nat list \<times> sync_object) run" where
  "sync_run [] b = Ret ([], [], b)"
| "sync_run (Acquire t # ops) b =
     (case sync_acquire t b of
        (Some r, b) \<Rightarrow> run_bind (sync_run ops b) (\<lambda>(granted, asked, b).
           Ret (if r = 0 then (t # granted, t # asked, b) else (granted, asked, b)))
      | (None, b) \<Rightarrow> run_bind (sync_run ops b) (\<lambda>(granted, asked, b). Ret (granted, t # asked, b)))"
| "sync_run (Release # ops) b =
     run_bind (sync_release b) (\<lambda>(w, b).
       run_bind (sync_run ops b) (\<lambda>(granted, asked, b).
         Ret (case w of Some t \<Rightarrow> t # granted | None \<Rightarrow> granted, asked, b)))"

definition releases :: "sync_op list \<Rightarrow> nat" where
  "releases ops = length (filter (\<lambda>p. p = Release) ops)"

lemma releases_simps [simp]:
  "releases [] = 0" "releases (Acquire t # ops) = releases ops" "releases (Release # ops) = Suc (releases ops)"
  by (simp_all add: releases_def)

text \<open>
  C17. A synchronisation object is a fair semaphore. Over any history of acquires and releases the
  permits go to the clients in the order in which they asked, none forgotten and none served twice;
  the number of permits handed out and left over never exceeds the permits at the start plus the
  releases, with equality for a semaphore; and no permit is left over while somebody waits.
\<close>

theorem sync_object_is_fair:
  assumes "object_inv b" "sync_run ops b = Ret (granted, asked, b')"
  shows "object_inv b' \<and> granted @ waiting b' = waiting b @ asked \<and>
    int (length granted) + so_count b' \<le> so_count b + int (releases ops) \<and>
    (\<not> so_is_mutex b \<longrightarrow> int (length granted) + so_count b' = so_count b + int (releases ops)) \<and>
    (0 < so_count b' \<longrightarrow> waiting b' = [])"
  using assms
proof (induction ops arbitrary: b granted asked)
  case Nil
  then show ?case by (auto simp: object_inv_def)
next
  case (Cons p ops)
  show ?case
  proof (cases p)
    case (Acquire t)
    obtain r b1 where a: "sync_acquire t b = (r, b1)" by fastforce
    note spec = sync_acquire_spec [OF Cons.prems(1) a]
    obtain g k where run: "sync_run ops b1 = Ret (g, k, b')"
      and res: "granted = (if r = Some 0 then t # g else g)" "asked = (if r = Some 0 \<or> r = None then t # k else k)"
      using Cons.prems(2) a Acquire by (auto simp: run_bind_Ret_iff split: option.splits if_splits)
    note ih = Cons.IH [OF spec(1) run]
    from spec(4) show ?thesis
      by (elim disjE; cases "so_is_mutex b") (use ih res spec(2) in \<open>simp_all add: Acquire\<close>)
  next
    case Release
    obtain w b1 g where rel: "sync_release b = Ret (w, b1)" and run: "sync_run ops b1 = Ret (g, asked, b')"
      and res: "granted = (case w of Some t \<Rightarrow> t # g | None \<Rightarrow> g)"
      using Cons.prems(2) Release by (auto simp: run_bind_Ret_iff)
    note spec = sync_release_spec [OF Cons.prems(1) rel]
    have inv: "object_inv b1" using spec by simp
    have "so_count b \<ge> 0" using Cons.prems(1) by (simp add: object_inv_def)
    then show ?thesis using Cons.IH [OF inv run] spec res by (cases w; cases "so_is_mutex b") (simp_all add: Release)
  qed
qed

definition sample_semaphore :: sync_object where
  "sample_semaphore = snd (sync_create False 1 SyncObject_new)"

theorem sync_object_is_fair_witness:
  "\<exists>b'. sync_run [Acquire 5, Acquire 6, Acquire 7, Release, Acquire 8, Release] sample_semaphore = Ret ([5, 6, 7], [5, 6, 7, 8], b') \<and>
     waiting b' = [8] \<and> so_count b' = 0"
proof -
  have "object_inv sample_semaphore" "waiting sample_semaphore = []" "so_count sample_semaphore = 1" "\<not> so_is_mutex sample_semaphore"
    using sync_create_inv [of SyncObject_new 1 False] waiters.inv_empty
    by (simp_all add: sample_semaphore_def sync_create_def SyncObject_new_def object_inv_def i32_MAX_def waiting_def)
  moreover have "(case sync_run [Acquire 5, Acquire 6, Acquire 7, Release, Acquire 8, Release] sample_semaphore of
      Ret (g, q, _) \<Rightarrow> g = [5, 6, 7] \<and> q = [5, 6, 7, 8] | Panic \<Rightarrow> False)" by code_simp
  then obtain b' where "sync_run [Acquire 5, Acquire 6, Acquire 7, Release, Acquire 8, Release] sample_semaphore = Ret ([5, 6, 7], [5, 6, 7, 8], b')"
    by (auto split: run.splits)
  ultimately show ?thesis
    using sync_object_is_fair [of sample_semaphore "[Acquire 5, Acquire 6, Acquire 7, Release, Acquire 8, Release]"
        "[5, 6, 7]" "[5, 6, 7, 8]" b']
    by simp
qed

subsection \<open>The service on the kernel\<close>

interpretation sync_gate: cap_gate "\<lambda>k t r w. sync_check_cap k t r" sync_admits
proof (unfold_locales, goal_cases)
  case (1 k t r w)
  then show ?case by (simp add: sync_check_cap_def holds_cap_view sync_admits_def)
next
  case (2 d r w c)
  then show ?case by (simp add: sync_admits_def)
qed

lemma sync_check_cap_log [simp]: "sync_check_cap (log_trace e p q k) t b = sync_check_cap k t b"
  by (simp add: sync_check_cap_def holds_cap_def)

definition sync_inv :: "sync_state \<Rightarrow> bool" where
  "sync_inv s \<longleftrightarrow> length (sy_objects s) = SYNC_MAX_OBJ \<and>
     (\<forall>b \<in> set (sy_objects s). object_inv b \<and> (\<forall>t \<in> set (waiting b). t < MAX_TASKS))"

lemma sync_inv_object: "sync_inv s \<Longrightarrow> i < 8 \<Longrightarrow> object_inv (sy_objects s ! i) \<and> (\<forall>t \<in> set (waiting (sy_objects s ! i)). t < MAX_TASKS)"
  unfolding sync_inv_def SYNC_MAX_OBJ_def using nth_mem by metis

lemma sync_inv_put:
  "sync_inv s \<Longrightarrow> object_inv b \<Longrightarrow> \<forall>t \<in> set (waiting b). t < MAX_TASKS \<Longrightarrow> sync_inv (put_object i b s)"
  by (auto simp: sync_inv_def put_object_def dest!: subsetD [OF set_update_subset_insert])

lemma sync_inv_counters [simp]: "sync_inv (s\<lparr>sync_acq := n\<rparr>) = sync_inv s" "sync_inv (s\<lparr>sync_rel := n\<rparr>) = sync_inv s"
  by (simp_all add: sync_inv_def)

text \<open>
  A reply never panics and keeps the kernel well formed; a live client with room in its queue finds
  the status there and does not stay blocked; other tasks are not touched.
\<close>

lemma sync_reply_Ret:
  assumes wf: "kernel_wf k" and me: "current_task_id k = Some 86" "get_task k 86 = Some me" and tgt: "target < MAX_TASKS" "length reply \<le> PAYLOAD_MAX"
  shows "\<exists>k'. sync_reply target reply k = Ret k' \<and> kernel_wf k' \<and> current_task_id k' = Some 86 \<and> get_task k' 86 \<noteq> None \<and>
    (\<forall>j. j \<noteq> 86 \<longrightarrow> j \<noteq> target \<longrightarrow> get_task k' j = get_task k j) \<and>
    (\<forall>t. get_task k target = Some t \<longrightarrow> target \<noteq> 86 \<longrightarrow>
       (if t_state t = Terminated \<or> length (queue_contents (t_msg_queue t)) = MSG_QUEUE_CAPACITY then get_task k' target = Some t
        else \<exists>q. queue_contents q = queue_contents (t_msg_queue t) @ [make_message 86 SyncReply 1 reply] \<and>
               get_task k' target = Some (async_wake q t)))"
proof -
  have b: "86000 + target \<le> usize_MAX" using tgt by (simp add: MAX_TASKS_def usize_MAX_def)
  obtain k2 caps where k2: "install_reply 86 86000 target k = Ret k2" "kernel_wf k2" "authorised k2 86 1 = Some target"
    "\<forall>j. get_task k2 j = (if j = 86 then Some (me\<lparr>t_caps := caps\<rparr>) else get_task k j)" "current_task_id k2 = current_task_id k"
    using install_reply_Ret [OF wf me(2) b] by blast
  let ?m = "make_message 86 SyncReply 1 reply"
  have cur: "current_task_id k2 = Some 86" using k2(5) me(1) by simp
  obtain tr where eq: "sys_send_async 1 (tag_to_u16 SyncReply) 1 reply k2 = async_result tr 86 1 ?m k2"
    using sys_send_async_eq [OF check_send_tag [OF tgt(2)] cur] by blast
  let ?k = "snd (async_result tr 86 1 ?m k2)"
  have r: "sync_reply target reply k = Ret ?k" unfolding sync_reply_def k2(1) run_bind.simps eq ..
  have wf': "kernel_wf ?k" using kernel_wf_sys_send_async [OF k2(2)] eq by metis
  have cur': "current_task_id ?k = Some 86" using cur by (simp add: async_result_def split: option.split)
  have g: "get_task ?k j = (case get_task k2 target of
      Some t \<Rightarrow> if j = target \<and> t_state t \<noteq> Terminated
        then (case MessageQueue_enqueue ?m (t_msg_queue t) of Some q \<Rightarrow> Some (async_wake q t) | None \<Rightarrow> Some t)
        else get_task k2 j
    | None \<Rightarrow> get_task k2 j)" for j
    unfolding async_result_def k2(3) option.case by (auto simp: get_task_update_task async_wake_def split: option.split)
  have del: "if t_state t = Terminated \<or> length (queue_contents (t_msg_queue t)) = MSG_QUEUE_CAPACITY then get_task ?k target = Some t
      else \<exists>q. queue_contents q = queue_contents (t_msg_queue t) @ [?m] \<and> get_task ?k target = Some (async_wake q t)"
    if t: "get_task k target = Some t" "target \<noteq> 86" for t
  proof -
    have inv: "queue_inv (t_msg_queue t)" using kernel_wf_task [OF wf t(1)] by (simp add: task_wf_def)
    have t2: "get_task k2 target = Some t" using t k2(4) by simp
    show ?thesis
    proof (cases "MessageQueue_enqueue ?m (t_msg_queue t)")
      case None
      then show ?thesis using g [of target] t2 mq.enq_None [OF inv, of ?m] by simp
    next
      case (Some q)
      then show ?thesis using g [of target] t2 mq.enq_None [OF inv, of ?m] mq.enq_Some [OF inv Some] by auto
    qed
  qed
  have "\<forall>j. j \<noteq> 86 \<longrightarrow> j \<noteq> target \<longrightarrow> get_task ?k j = get_task k j" using g k2(4) by (simp split: option.split)
  moreover have "get_task ?k 86 \<noteq> None" using g [of 86] k2(4) by (simp split: option.split)
  ultimately show ?thesis using r wf' cur' del by blast
qed

text \<open>The waiters of an object after each operation are waiters of before, or the client.\<close>

lemma sync_acquire_waiters: "object_inv b \<Longrightarrow> sync_acquire t b = (r, b') \<Longrightarrow> set (waiting b') \<subseteq> insert t (set (waiting b))"
  using sync_acquire_spec(4) [of b t r b'] by auto

lemma sync_release_waiters:
  "object_inv b \<Longrightarrow> sync_release b = Ret (w, b') \<Longrightarrow> set (waiting b') \<subseteq> set (waiting b) \<and> (\<forall>t. w = Some t \<longrightarrow> t \<in> set (waiting b))"
  using sync_release_spec [of b w b'] by (cases w) auto

text \<open>The counter of the object a release names is not at its limit.\<close>

definition sync_safe :: "message \<Rightarrow> sync_state \<Rightarrow> bool" where
  "sync_safe msg s \<longleftrightarrow>
     (let b = sy_objects s ! unat (msg_payload msg ! 1)
      in msg_payload msg ! 0 = 2 \<and> unat (msg_payload msg ! 1) < 8 \<longrightarrow> so_is_mutex b \<or> so_count b < i32_MAX)"

definition service_ready :: "kernel \<Rightarrow> bool" where
  "service_ready k \<longleftrightarrow> kernel_wf k \<and> current_task_id k = Some 86 \<and> get_task k 86 \<noteq> None"

lemma service_ready_log [simp]: "service_ready (log_trace e p q k) = service_ready k"
  using same_but_trace_kernel [OF log_trace_same [of k e p q]] by (simp add: service_ready_def)

lemma sync_reply_ready:
  assumes "service_ready k" "target < MAX_TASKS"
  shows "\<exists>k'. sync_reply target [r] k = Ret k' \<and> service_ready k'"
  using sync_reply_Ret [of k _ target "[r]"] assms by (fastforce simp: service_ready_def PAYLOAD_MAX_def)

lemma sync_handle_Ret:
  assumes "service_ready k" "message_wf msg" "msg_sender msg < MAX_TASKS" "sync_inv s" "sync_safe msg s"
  shows "\<exists>r s' k'. sync_handle msg s k = Ret (r, s', k') \<and> sync_inv s' \<and> service_ready k'"
proof -
  let ?i = "unat (msg_payload msg ! 1)" and ?opc = "msg_payload msg ! 0"
  let ?b = "sy_objects s ! ?i" and ?k = "log_trace ''sync_op'' (ucast ?opc) (ucast (msg_payload msg ! 1)) k"
  consider "msg_tag msg \<noteq> SyncOp \<or> msg_len msg < 2 \<or> 8 \<le> ?i \<or> ?opc \<notin> {0, 1, 2}"
    | "msg_tag msg = SyncOp" "2 \<le> msg_len msg" "?i < 8" "?opc = 0"
    | "msg_tag msg = SyncOp" "2 \<le> msg_len msg" "?i < 8" "?opc = 1 \<or> ?opc = 2" "\<not> (sync_check_cap k (msg_sender msg) (msg_payload msg ! 1) \<and> so_used ?b)"
    | "msg_tag msg = SyncOp" "2 \<le> msg_len msg" "?i < 8" "?opc = 1" "sync_check_cap k (msg_sender msg) (msg_payload msg ! 1)" "so_used ?b"
    | "msg_tag msg = SyncOp" "2 \<le> msg_len msg" "?i < 8" "?opc = 2" "sync_check_cap k (msg_sender msg) (msg_payload msg ! 1)" "so_used ?b"
    by (metis insertI1 insert_iff linorder_not_le singletonD insertE empty_iff)
  then show ?thesis
  proof cases
    case 1
    then show ?thesis using assms by (auto simp: sync_handle_def Let_def)
  next
    case 2
    obtain r b where c: "sync_create (msg_payload msg ! 2 \<noteq> 0) (int (unat (msg_payload msg ! 3))) ?b = (r, b)" by fastforce
    have "int (unat (msg_payload msg ! 3)) \<le> i32_MAX"
      using unsigned_less [of "msg_payload msg ! 3", where ?'a = int] by (simp add: i32_MAX_def)
    then have "object_inv b \<and> (waiting b = waiting ?b \<or> waiting b = [])"
      using sync_create_inv [OF _ _ _ c] sync_inv_object [OF assms(4) 2(3)] by (auto split: if_splits)
    then have "sync_inv (put_object ?i b s)"
      using sync_inv_put [OF assms(4)] sync_inv_object [OF assms(4) 2(3)] by auto
    then show ?thesis using 2 c assms(1) by (simp add: sync_handle_def Let_def)
  next
    case 3
    then show ?thesis using assms by (auto simp: sync_handle_def Let_def)
  next
    case 4
    obtain r b where c: "sync_acquire (msg_sender msg) ?b = (r, b)" by fastforce
    note o = sync_inv_object [OF assms(4) 4(3)]
    have "sync_inv (put_object ?i b s)"
      using sync_inv_put [OF assms(4) sync_acquire_spec(1) [OF conjunct1 [OF o] c]] sync_acquire_waiters [OF conjunct1 [OF o] c] o assms(3)
      by blast
    then show ?thesis using 4 c assms(1) by (simp add: sync_handle_def Let_def)
  next
    case 5
    note o = sync_inv_object [OF assms(4) 5(3)]
    have "sync_release ?b \<noteq> Panic"
      using assms(5) 5(3,4) sync_release_panics [OF conjunct1 [OF o]] by (auto simp: sync_safe_def Let_def)
    then obtain w b where c: "sync_release ?b = Ret (w, b)" by (cases "sync_release ?b") auto
    note wt = sync_release_waiters [OF conjunct1 [OF o] c]
    have inv: "sync_inv (put_object ?i b s)"
      using sync_inv_put [OF assms(4)] sync_release_spec [OF conjunct1 [OF o] c] wt o by blast
    show ?thesis
    proof (cases w)
      case None
      then show ?thesis using 5 c inv assms(1) by (simp add: sync_handle_def Let_def)
    next
      case (Some t)
      then have "t < MAX_TASKS" using wt o by blast
      then obtain k' where "sync_reply t [0] ?k = Ret k'" "service_ready k'"
        using sync_reply_ready [of ?k t 0] assms(1) by auto
      then show ?thesis using Some 5 c inv by (simp add: sync_handle_def Let_def)
    qed
  qed
qed

text \<open>
  The synchronisation service keeps its invariant. On every message, well formed or not, from
  any task, a turn of the service ends without a panic unless a release would push a semaphore's
  counter past the largest 32-bit integer, and afterwards every object is again a sound semaphore
  with waiters that are task identifiers, and the kernel is well formed with the service still the
  running task.
\<close>

theorem sync_service_invariant:
  assumes "kernel_wf k" "current_task_id k = Some 86" "get_task k 86 \<noteq> None"
    and "message_wf msg" "msg_sender msg < MAX_TASKS" "sync_inv s" "sync_safe msg s"
  shows "\<exists>s' k'. sync_turn msg s k = Ret (s', k') \<and> sync_inv s' \<and> kernel_wf k' \<and> current_task_id k' = Some 86 \<and> get_task k' 86 \<noteq> None"
proof -
  have ready: "service_ready k" using assms(1-3) by (simp add: service_ready_def)
  obtain r s' k1 where h: "sync_handle msg s k = Ret (r, s', k1)" "sync_inv s'" "service_ready k1"
    using sync_handle_Ret [OF ready assms(4-7)] by blast
  have "\<exists>k'. sync_turn msg s k = Ret (s', k') \<and> service_ready k'"
  proof (cases r)
    case None
    then show ?thesis using h by (simp add: sync_turn_def)
  next
    case (Some status)
    then show ?thesis using h sync_reply_ready [OF h(3) assms(5), of status] by (auto simp: sync_turn_def)
  qed
  then show ?thesis using h(2) by (auto simp: service_ready_def)
qed

text \<open>A permitted release of an object somebody waits for.\<close>

definition releases_waited :: "message \<Rightarrow> sync_state \<Rightarrow> kernel \<Rightarrow> nat \<Rightarrow> nat list \<Rightarrow> bool" where
  "releases_waited msg s k w ws \<longleftrightarrow>
     msg_tag msg = SyncOp \<and> 2 \<le> msg_len msg \<and> msg_payload msg ! 0 = 2 \<and> unat (msg_payload msg ! 1) < 8 \<and>
     sync_check_cap k (msg_sender msg) (msg_payload msg ! 1) \<and> so_used (sy_objects s ! unat (msg_payload msg ! 1)) \<and>
     waiting (sy_objects s ! unat (msg_payload msg ! 1)) = w # ws"

lemma releases_waited_turn:
  assumes ready: "service_ready k" and inv: "sync_inv s" and rel: "releases_waited msg s k w ws"
    and sender: "msg_sender msg < MAX_TASKS" "msg_sender msg \<noteq> w" and w: "w \<noteq> 86" "get_task k w = Some t"
  shows "\<exists>s' k'. sync_turn msg s k = Ret (s', k') \<and> kernel_wf k' \<and>
    waiting (sy_objects s' ! unat (msg_payload msg ! 1)) = ws \<and>
    so_count (sy_objects s' ! unat (msg_payload msg ! 1)) = so_count (sy_objects s ! unat (msg_payload msg ! 1)) \<and>
    (if t_state t = Terminated \<or> length (queue_contents (t_msg_queue t)) = MSG_QUEUE_CAPACITY then get_task k' w = Some t
     else \<exists>q. queue_contents q = queue_contents (t_msg_queue t) @ [make_message 86 SyncReply 1 [0]] \<and>
            get_task k' w = Some (async_wake q t))"
proof -
  let ?i = "unat (msg_payload msg ! 1)"
  let ?b = "sy_objects s ! ?i" and ?k = "log_trace ''sync_op'' (ucast (msg_payload msg ! 0)) (ucast (msg_payload msg ! 1)) k"
  have r: "msg_tag msg = SyncOp" "2 \<le> msg_len msg" "msg_payload msg ! 0 = 2" "?i < 8"
    "sync_check_cap k (msg_sender msg) (msg_payload msg ! 1)" "so_used ?b" "waiting ?b = w # ws"
    using rel by (simp_all add: releases_waited_def)
  note o = sync_inv_object [OF inv r(4)]
  have wm: "w < MAX_TASKS" using o r(7) by simp
  have "wait_inv ?b" using o by (simp add: object_inv_def)
  then obtain b where d: "SyncObject_dequeue ?b = Some (w, b)"
    using waiters.deq_total [of ?b] r(7) by auto
  then have c: "sync_release ?b = Ret (Some w, b)" by (simp add: sync_release_def)
  have b: "waiting b = ws" "so_count b = so_count ?b" using sync_release_spec [OF conjunct1 [OF o] c] r(7) by simp_all
  have rk: "service_ready ?k" "get_task ?k w = Some t" using ready w(2) by simp_all
  then obtain me where me: "kernel_wf ?k" "current_task_id ?k = Some 86" "get_task ?k 86 = Some me" by (auto simp: service_ready_def)
  obtain k1 where k1: "sync_reply w [0] ?k = Ret k1" "kernel_wf k1" "current_task_id k1 = Some 86" "get_task k1 86 \<noteq> None"
    and del: "if t_state t = Terminated \<or> length (queue_contents (t_msg_queue t)) = MSG_QUEUE_CAPACITY then get_task k1 w = Some t
       else \<exists>q. queue_contents q = queue_contents (t_msg_queue t) @ [make_message 86 SyncReply 1 [0]] \<and> get_task k1 w = Some (async_wake q t)"
    using sync_reply_Ret [OF me wm, of "[0]"] rk(2) w(1) by (auto simp: PAYLOAD_MAX_def simp del: not_None_eq)
  then obtain me1 where me1: "get_task k1 86 = Some me1" by auto
  obtain k' where k': "sync_reply (msg_sender msg) [0] k1 = Ret k'" "kernel_wf k'" "\<forall>j. j \<noteq> 86 \<longrightarrow> j \<noteq> msg_sender msg \<longrightarrow> get_task k' j = get_task k1 j"
    using sync_reply_Ret [OF k1(2,3) me1 sender(1), of "[0]"] by (auto simp: PAYLOAD_MAX_def)
  let ?s = "(put_object ?i b s)\<lparr>sync_rel := sync_rel s + 1\<rparr>"
  have "sync_handle msg s k = Ret (Some 0, ?s, k1)" using r c k1(1) by (simp add: sync_handle_def)
  then have turn: "sync_turn msg s k = Ret (?s, k')" using k'(1) by (simp add: sync_turn_def)
  have "sy_objects ?s ! ?i = b" using inv r(4) by (simp add: put_object_def sync_inv_def SYNC_MAX_OBJ_def)
  moreover have "get_task k' w = get_task k1 w" using k'(3) sender(2) w(1) by auto
  ultimately show ?thesis
    by (intro exI [of _ ?s] exI [of _ k']) (use turn k'(2) b del in auto)
qed

text \<open>
  C18. A release hands the permit to the task that has waited longest, and wakes it. The task at the
  head of the waiting queue, blocked in its receive or ready on its way to it, with room in its message queue, leaves the
  waiting queue and is ready; the status 0 is the new end of its message queue, and when the scheduler runs it again its
  receive returns at once, with the status if no earlier message is there. The permit goes to it directly, so the count does
  not change. The kernel stays well formed.
\<close>

theorem sync_release_wakes_waiter:
  assumes "kernel_wf k" "current_task_id k = Some 86" "get_task k 86 \<noteq> None" "sync_inv s" "releases_waited msg s k w ws"
    and "msg_sender msg < MAX_TASKS" "msg_sender msg \<noteq> w" "w \<noteq> 86" "get_task k w = Some t"
    and "t_state t \<in> {BlockedOnReceive, Ready}" "length (queue_contents (t_msg_queue t)) < MSG_QUEUE_CAPACITY"
  shows "\<exists>s' k' t'. sync_turn msg s k = Ret (s', k') \<and> kernel_wf k' \<and>
    waiting (sy_objects s' ! unat (msg_payload msg ! 1)) = ws \<and>
    so_count (sy_objects s' ! unat (msg_payload msg ! 1)) = so_count (sy_objects s ! unat (msg_payload msg ! 1)) \<and>
    get_task k' w = Some t' \<and> t_state t' = Ready \<and>
    queue_contents (t_msg_queue t') = queue_contents (t_msg_queue t) @ [make_message 86 SyncReply 1 [0]] \<and>
    (\<forall>k2. kernel_wf k2 \<and> rel_option same_task (Some t') (get_task k2 w) \<longrightarrow>
       fst (receive_iter w k2) = Done (Inr (hd (queue_contents (t_msg_queue t) @ [make_message 86 SyncReply 1 [0]]))))"
proof -
  let ?q = "queue_contents (t_msg_queue t) @ [make_message 86 SyncReply 1 [0]]"
  have "service_ready k" using assms(1-3) by (simp add: service_ready_def)
  from releases_waited_turn [OF this assms(4-9)] assms(10,11)
  obtain s' k' q where p: "sync_turn msg s k = Ret (s', k')" "kernel_wf k'" "waiting (sy_objects s' ! unat (msg_payload msg ! 1)) = ws"
    "so_count (sy_objects s' ! unat (msg_payload msg ! 1)) = so_count (sy_objects s ! unat (msg_payload msg ! 1))"
    "queue_contents q = ?q" "get_task k' w = Some (async_wake q t)"
    by auto
  have "fst (receive_iter w k2) = Done (Inr (hd ?q))"
    if k2: "kernel_wf k2" "rel_option same_task (Some (async_wake q t)) (get_task k2 w)" for k2
  proof -
    obtain t2 where t2: "get_task k2 w = Some t2" "same_task (async_wake q t) t2"
      using k2(2) by (cases "get_task k2 w") auto
    have "queue_contents (t_msg_queue t2) = ?q" using same_task_fields [OF t2(2)] p(5) by (simp add: async_wake_def)
    moreover have "?q = hd ?q # tl ?q" by (rule hd_Cons_tl [symmetric]) simp
    ultimately have "queue_contents (t_msg_queue t2) = hd ?q # tl ?q" by (rule trans)
    then show ?thesis
      using take_message_queue(1) [OF k2(1) t2(1) _ surjective_pairing, of "hd ?q" "tl ?q"]
      by (simp add: receive_iter_def case_prod_beta del: hd_append tl_append)
  qed
  then show ?thesis
    using p assms(10) by (intro exI [of _ s'] exI [of _ k'] exI [of _ "async_wake q t"]) (auto simp: async_wake_def)
qed

text \<open>
  When the task at the head of the queue has terminated, the permit is lost: the release succeeds,
  the count stays as it is, and nobody receives anything.
\<close>

theorem sync_release_to_dead_waiter_loses_permit:
  assumes "service_ready k" "sync_inv s" "releases_waited msg s k w []"
    and "msg_sender msg < MAX_TASKS" "msg_sender msg \<noteq> w" "w \<noteq> 86" "get_task k w = Some t" "t_state t = Terminated"
  shows "\<exists>s' k'. sync_turn msg s k = Ret (s', k') \<and> get_task k' w = Some t \<and>
    waiting (sy_objects s' ! unat (msg_payload msg ! 1)) = [] \<and>
    so_count (sy_objects s' ! unat (msg_payload msg ! 1)) = so_count (sy_objects s ! unat (msg_payload msg ! 1))"
  using releases_waited_turn [OF assms(1-7)] assms(8) by auto

subsection \<open>A concrete object with a waiter\<close>

definition sync_cap :: "u8 \<Rightarrow> capability" where
  "sync_cap obj = \<lparr>cap_resource = SyncObj obj, cap_read = True, cap_write = True, cap_grant = False,
     cap_sealed = False, cap_id = 6, cap_origin = None\<rparr>"

definition sync_kernel :: kernel where
  "sync_kernel = served_kernel 86 [sync_cap 3]"

lemma sync_kernel [simp]:
  "kernel_wf sync_kernel" "get_task sync_kernel 2 = Some (sample_task 2 BlockedOnReceive (table_with [sync_cap 3]))"
  "get_task sync_kernel 86 = Some (sample_task 86 Running (table_with [reply_cap 64 5]))" "current_task_id sync_kernel = Some 86"
  unfolding sync_kernel_def by (rule served_kernel; simp add: MAX_TASKS_def)+

lemma sync_kernel_client: "\<exists>t. get_task sync_kernel 1 = Some t \<and> t_state t = Running \<and> queue_contents (t_msg_queue t) = []"
proof -
  have "86 < length (tasks (update_task 2 (\<lambda>t. t\<lparr>t_caps := table_with [sync_cap 3]\<rparr>) (sample_kernel BlockedOnReceive)))"
    using kernel_wf_sample [of BlockedOnReceive] by (simp add: kernel_wf_def MAX_TASKS_def)
  then have "get_task sync_kernel 1 = get_task (sample_kernel BlockedOnReceive) 1"
    by (simp add: sync_kernel_def served_kernel_def get_task_set_slot get_task_update_task)
  then show ?thesis using mq.contents_empty by simp
qed

text \<open>Object 3 with task 1 waiting.\<close>

definition waited :: sync_object where
  "waited = snd (sync_acquire 1 (snd (sync_create False 0 SyncObject_new)))"

definition waited_state :: sync_state where
  "waited_state = put_object 3 waited \<lparr>sy_objects = SyncStore_new, sync_acq = 0, sync_rel = 0\<rparr>"

lemma waited: "object_inv waited" "waiting waited = [1]" "so_used waited" "so_count waited = 0" "so_is_mutex waited = False"
proof -
  have new: "object_inv SyncObject_new" using waiters.inv_empty by (simp add: object_inv_def SyncObject_new_def i32_MAX_def)
  obtain r b where b: "sync_create False 0 SyncObject_new = (r, b)" by fastforce
  note c = sync_create_inv [OF new _ _ b]
  obtain r' b' where b': "sync_acquire 1 b = (r', b')" by fastforce
  have bi: "object_inv b" "so_count b = 0" "waiting b = []" "so_used b" "so_is_mutex b = False"
    using c by (simp_all add: SyncObject_new_def i32_MAX_def)
  note a = sync_acquire_spec [OF bi(1) b']
  have w: "waited = b'" unfolding waited_def b snd_conv b' ..
  have "waiting b' = [1] \<and> so_count b' = 0" using a(4) bi(2,3) by (auto simp: SYNC_MAX_WAIT_def)
  then show "object_inv waited" "waiting waited = [1]" "so_used waited" "so_count waited = 0" "so_is_mutex waited = False"
    using a(1-3) bi unfolding w by simp_all
qed

lemma waited_state: "sync_inv waited_state" "sy_objects waited_state ! 3 = waited"
proof -
  have new: "object_inv SyncObject_new" using waiters.inv_empty by (simp add: object_inv_def SyncObject_new_def i32_MAX_def)
  have "sync_inv \<lparr>sy_objects = SyncStore_new, sync_acq = 0, sync_rel = 0\<rparr>"
    using new waiters.contents_empty by (simp add: sync_inv_def SyncStore_new_def)
  then show "sync_inv waited_state"
    unfolding waited_state_def by (rule sync_inv_put) (use waited in \<open>simp_all add: MAX_TASKS_def\<close>)
  show "sy_objects waited_state ! 3 = waited" by (simp add: waited_state_def put_object_def SyncStore_new_def SYNC_MAX_OBJ_def)
qed

definition release_msg :: message where
  "release_msg = make_message 2 SyncOp 1 [2, 3]"

lemma release_msg:
  "message_wf release_msg" "msg_sender release_msg = 2" "msg_tag release_msg = SyncOp" "2 \<le> msg_len release_msg"
  "msg_payload release_msg ! 0 = 2" "msg_payload release_msg ! 1 = 3"
  by code_simp+

lemma release_msg_waited: "releases_waited release_msg waited_state sync_kernel 1 []"
  using waited waited_state(2)
  by (simp add: releases_waited_def release_msg sync_check_cap_def holds_cap_def table_with_def sync_admits_def sync_cap_def
      del: One_nat_def)

theorem sync_service_invariant_witness:
  "\<exists>s' k'. sync_turn release_msg waited_state sync_kernel = Ret (s', k') \<and> sync_inv s' \<and> kernel_wf k'"
proof -
  have "sync_safe release_msg waited_state"
    using waited waited_state(2) by (simp add: sync_safe_def release_msg i32_MAX_def del: One_nat_def)
  then show ?thesis
    using sync_service_invariant [of sync_kernel release_msg waited_state] release_msg waited_state(1)
    by (auto simp: MAX_TASKS_def)
qed

text \<open>The kernel with the waiter blocked in its receive.\<close>

definition waited_kernel :: kernel where
  "waited_kernel = update_task 1 (\<lambda>t. t\<lparr>t_state := BlockedOnReceive\<rparr>) sync_kernel"

theorem sync_release_wakes_waiter_witness:
  "\<exists>s' k' t'. sync_turn release_msg waited_state waited_kernel = Ret (s', k') \<and>
     slot_state waited_kernel 1 = Some BlockedOnReceive \<and> get_task k' 1 = Some t' \<and> t_state t' = Ready \<and>
     queue_contents (t_msg_queue t') = [make_message 86 SyncReply 1 [0]] \<and>
     fst (receive_iter 1 k') = Done (Inr (make_message 86 SyncReply 1 [0]))"
proof -
  obtain t where t: "get_task sync_kernel 1 = Some t" "t_state t = Running" "queue_contents (t_msg_queue t) = []"
    using sync_kernel_client by blast
  let ?t = "t\<lparr>t_state := BlockedOnReceive\<rparr>"
  have g: "get_task waited_kernel 1 = Some ?t" "\<And>j. j \<noteq> 1 \<Longrightarrow> get_task waited_kernel j = get_task sync_kernel j"
    "current_task_id waited_kernel = Some 86"
    using t(1) by (simp_all add: waited_kernel_def get_task_update_task)
  have wf: "kernel_wf waited_kernel"
    unfolding waited_kernel_def by (rule kernel_wf_update_task) (simp_all add: task_wf_def)
  have "sync_check_cap waited_kernel 2 3 = sync_check_cap sync_kernel 2 3"
    by (simp add: sync_check_cap_def holds_cap_def g(2))
  then have rel: "releases_waited release_msg waited_state waited_kernel 1 []"
    using release_msg_waited by (simp add: releases_waited_def release_msg del: One_nat_def)
  have st: "slot_state waited_kernel 1 = Some BlockedOnReceive"
    using g(1) slot_state_get_task [OF wf, of 1] by (simp add: MAX_TASKS_def)
  obtain s' k' t' where w: "sync_turn release_msg waited_state waited_kernel = Ret (s', k')" "kernel_wf k'"
    "get_task k' 1 = Some t'" "t_state t' = Ready"
    "queue_contents (t_msg_queue t') = [make_message 86 SyncReply 1 [0]]"
    "\<forall>k2. kernel_wf k2 \<and> rel_option same_task (Some t') (get_task k2 1) \<longrightarrow>
       fst (receive_iter 1 k2) = Done (Inr (make_message 86 SyncReply 1 [0]))"
    using sync_release_wakes_waiter [OF wf g(3) _ waited_state(1) rel _ _ _ g(1)] t(3) g(2) [of 86]
    by (auto simp: release_msg MAX_TASKS_def MSG_QUEUE_CAPACITY_def)
  then have "fst (receive_iter 1 k') = Done (Inr (make_message 86 SyncReply 1 [0]))" by simp
  then show ?thesis using w st by blast
qed

end
