(* ===== verification/KV_Service.thy ===== *)
theory KV_Service
  imports Service_Base Directory
begin

text \<open>
  The key-value service, task 82 of \<open>shell/mod.rs\<close>: thirty-two slots of a 16-byte key and a
  64-byte value, each read and written under a \<open>KVEntry\<close> capability for the slot.
\<close>

record kv_slot =
  kv_key :: bytes
  kv_value :: bytes

type_synonym kv_store = "kv_slot list"

definition KvSlot_new :: kv_slot where
  "KvSlot_new = \<lparr>kv_key = replicate 16 0, kv_value = replicate 64 0\<rparr>"

definition KvStore_new :: kv_store where
  "KvStore_new = replicate 32 KvSlot_new"

definition kv_admits :: "capability \<Rightarrow> nat \<Rightarrow> bool \<Rightarrow> bool" where
  "kv_admits cap slot require_write =
     (case cap_resource cap of
        KVEntry cap_slot readable writable \<Rightarrow>
          cap_slot = slot \<and> (if require_write then writable \<and> cap_write cap else readable \<and> cap_read cap)
      | _ \<Rightarrow> False)"

definition check_sender_cap :: "kernel \<Rightarrow> task_id \<Rightarrow> nat \<Rightarrow> bool \<Rightarrow> bool" where
  "check_sender_cap k sender_id slot require_write = holds_cap k sender_id (\<lambda>cap. kv_admits cap slot require_write)"

definition ensure_kv_service :: "u64 \<Rightarrow> kernel \<Rightarrow> kernel run" where
  "ensure_kv_service entry k = ensure_service 82 entry k"

text \<open>
  The handler of \<open>kv_service_main\<close>: the reply bytes and the new store. A refusal is a reply of
  one byte.
\<close>

definition kv_handle :: "message \<Rightarrow> kv_store \<Rightarrow> kernel \<Rightarrow> (bytes \<times> kv_store \<times> kernel) run" where
  "kv_handle msg store k =
     (let reply_payload = replicate 128 0;
          slot = unat (msg_payload msg ! 0)
      in case msg_tag msg of
           KVGet \<Rightarrow>
             (if msg_len msg < 1 then Ret (take 1 (reply_payload[0 := 2]), store, k)
              else if slot \<ge> 32 then Ret (take 1 (reply_payload[0 := 2]), store, k)
              else if \<not> check_sender_cap k (msg_sender msg) slot False
              then Ret (take 1 (reply_payload[0 := 1]), store, k)
              else let reply = reply_payload[0 := 0];
                       reply = copy_into reply 1 (kv_key (store ! slot));
                       reply = copy_into reply 17 (kv_value (store ! slot))
                   in Ret (take 81 reply, store, k))
         | KVSet \<Rightarrow>
             (if msg_len msg < 81 then Ret (take 1 (reply_payload[0 := 2]), store, k)
              else if slot \<ge> 32 then Ret (take 1 (reply_payload[0 := 2]), store, k)
              else if \<not> check_sender_cap k (msg_sender msg) slot True
              then Ret (take 1 (reply_payload[0 := 1]), store, k)
              else Ret (take 1 (reply_payload[0 := 0]),
                        store[slot := \<lparr>kv_key = slice 1 17 (msg_payload msg), kv_value = slice 17 81 (msg_payload msg)\<rparr>],
                        k))
         | _ \<Rightarrow> Ret (take 1 (reply_payload[0 := 2]), store, k))"

definition kv_service_iter :: "kv_store \<Rightarrow> kernel \<Rightarrow> (service_outcome \<times> kv_store \<times> kernel) run" where
  "kv_service_iter = service_iter 82 8200 Raw kv_handle"

subsection \<open>The store\<close>

definition kv_inv :: "kv_store \<Rightarrow> bool" where
  "kv_inv s \<longleftrightarrow> length s = 32 \<and> (\<forall>x \<in> set s. length (kv_key x) = 16 \<and> length (kv_value x) = 64)"

definition kv_lookup :: "kv_store \<Rightarrow> nat \<Rightarrow> (bytes \<times> bytes) option" where
  "kv_lookup s i = (if i < length s then Some (kv_key (s ! i), kv_value (s ! i)) else None)"

definition kv_put :: "nat \<Rightarrow> bytes \<times> bytes \<Rightarrow> kv_store \<Rightarrow> kv_store" where
  "kv_put i v s = s[i := \<lparr>kv_key = fst v, kv_value = snd v\<rparr>]"

interpretation kv: directory kv_lookup kv_put "\<lambda>s i. i < length s"
  by unfold_locales (auto simp: kv_lookup_def kv_put_def split: if_splits)

interpretation kv_gate: cap_gate check_sender_cap kv_admits
proof (unfold_locales, goal_cases)
  case (1 k t r w)
  then show ?case by (simp add: check_sender_cap_def holds_cap_view)
next
  case (2 d r w c)
  then show ?case
    by (cases "cap_resource c") (auto simp: kv_admits_def rights_of_def less_eq_rights_mask_def split: if_splits)
qed

lemma take_1_status [simp]: "take (Suc 0) ((replicate 128 (0 :: u8))[0 := c]) = [c]"
  by (simp add: numeral_eq_Suc)

lemma copy_into_not_Nil [simp]: "d \<noteq> [] \<Longrightarrow> 0 < n \<Longrightarrow> copy_into d n src \<noteq> []"
  by (simp add: copy_into_def)

lemma kv_get_reply:
  "length key = 16 \<Longrightarrow> length val = 64 \<Longrightarrow>
   take 81 (copy_into (copy_into ((replicate 128 (0 :: u8))[0 := 0]) 1 key) 17 val) = 0 # key @ val"
proof -
  assume len: "length key = 16" "length val = 64"
  have "take 1 ((replicate 128 (0 :: u8))[0 := 0]) = [0]" by simp
  then show ?thesis using len by (simp add: copy_into_def)
qed

text \<open>What a message asks to write, when it is accepted.\<close>

definition kv_accepts :: "kernel \<Rightarrow> message \<Rightarrow> (nat \<times> bytes \<times> bytes) option" where
  "kv_accepts k msg =
     (if msg_tag msg = KVSet \<and> 81 \<le> msg_len msg \<and> unat (msg_payload msg ! 0) < 32 \<and>
         check_sender_cap k (msg_sender msg) (unat (msg_payload msg ! 0)) True
      then Some (unat (msg_payload msg ! 0), slice 1 17 (msg_payload msg), slice 17 81 (msg_payload msg)) else None)"

lemma kv_handle_store:
  "\<exists>reply. kv_handle msg store k =
     Ret (reply, (case kv_accepts k msg of Some (i, v) \<Rightarrow> kv_put i v store | None \<Rightarrow> store), k)"
  by (auto simp: kv_handle_def kv_accepts_def kv_put_def Let_def split: ipc_tag.split)

lemma kv_inv_put: "kv_inv s \<Longrightarrow> length (fst v) = 16 \<Longrightarrow> length (snd v) = 64 \<Longrightarrow> kv_inv (kv_put i v s)"
  by (auto simp: kv_inv_def kv_put_def dest!: subsetD [OF set_update_subset_insert])

lemma kv_accepts_lengths:
  "message_wf msg \<Longrightarrow> kv_accepts k msg = Some (i, v) \<Longrightarrow> length (fst v) = 16 \<and> length (snd v) = 64 \<and> i < 32"
  by (auto simp: kv_accepts_def message_wf_def PAYLOAD_MAX_def split: if_splits)

interpretation kv_service: service kv_handle kv_inv "\<lambda>_ _. True"
proof (unfold_locales, goal_cases)
  case (1 k m s)
  obtain reply where h: "kv_handle m s k = Ret (reply, (case kv_accepts k m of Some (i, v) \<Rightarrow> kv_put i v s | None \<Rightarrow> s), k)"
    using kv_handle_store by blast
  have "kv_inv (case kv_accepts k m of Some (i, v) \<Rightarrow> kv_put i v s | None \<Rightarrow> s)"
    using 1 kv_accepts_lengths [of m k] kv_inv_put by (fastforce split: option.split)
  moreover have "reply \<noteq> [] \<and> length reply \<le> PAYLOAD_MAX"
    using h by (auto simp: kv_handle_def Let_def PAYLOAD_MAX_def split: ipc_tag.splits if_splits)
  ultimately show ?case using h by auto
qed

subsection \<open>Properties\<close>

text \<open>The store after a sequence of requests.\<close>

fun kv_serve :: "message list \<Rightarrow> kv_store \<Rightarrow> kernel \<Rightarrow> kv_store run" where
  "kv_serve [] s k = Ret s"
| "kv_serve (m # ms) s k = run_bind (kv_handle m s k) (\<lambda>(_, s, _). kv_serve ms s k)"

lemma kv_serve_puts:
  "kv_serve ms s k = Ret (fold (\<lambda>(i, v). kv_put i v) (List.map_filter (kv_accepts k) ms) s)"
proof (induction ms arbitrary: s)
  case Nil
  then show ?case by (simp add: map_filter_simps)
next
  case (Cons m ms)
  then show ?case
    using kv_handle_store [of m s k] by (auto simp: map_filter_simps split: option.split)
qed

lemma kv_inv_puts:
  "kv_inv s \<Longrightarrow> (\<forall>m \<in> set ms. message_wf m) \<Longrightarrow>
   kv_inv (fold (\<lambda>(i, v). kv_put i v) (List.map_filter (kv_accepts k) ms) s)"
proof (induction ms arbitrary: s)
  case Nil
  then show ?case by (simp add: map_filter_simps)
next
  case (Cons m ms)
  then show ?case
    using kv_accepts_lengths [of m k] kv_inv_put by (fastforce simp: map_filter_simps split: option.split)
qed

text \<open>
  The key-value service returns what was last stored. After any sequence of requests, an
  authorised read of a slot answers with status 0 and the key and value of the last accepted write
  to that slot, or with the initial contents when there was none; a write is accepted only from a
  client that holds a writable capability for the slot, and reading changes nothing.
\<close>

theorem kv_get_returns_last_set:
  assumes "kv_inv s" "\<forall>m \<in> set ms. message_wf m" "kv_serve ms s k = Ret s'"
    and "msg_tag get = KVGet" "1 \<le> msg_len get" "unat (msg_payload get ! 0) = i" "i < 32"
    and "check_sender_cap k (msg_sender get) i False"
  shows "kv_handle get s' k =
    Ret (0 # (case map_of (rev (List.map_filter (kv_accepts k) ms)) i of
                Some (key, val) \<Rightarrow> key @ val
              | None \<Rightarrow> kv_key (s ! i) @ kv_value (s ! i)), s', k)"
proof -
  have s': "s' = fold (\<lambda>(i, v). kv_put i v) (List.map_filter (kv_accepts k) ms) s"
    using assms(3) kv_serve_puts by simp
  have inv: "kv_inv s'" unfolding s' by (rule kv_inv_puts [OF assms(1,2)])
  have i: "i < length s" "i < length s'" using assms(1,7) inv by (simp_all add: kv_inv_def)
  then have "kv_lookup s' i = (case map_of (rev (List.map_filter (kv_accepts k) ms)) i of
      Some v \<Rightarrow> Some v | None \<Rightarrow> kv_lookup s i)"
    unfolding s' by (intro kv.last_binding) (simp add: kv_lookup_def)
  then have "(kv_key (s' ! i), kv_value (s' ! i)) = (case map_of (rev (List.map_filter (kv_accepts k) ms)) i of
      Some v \<Rightarrow> v | None \<Rightarrow> (kv_key (s ! i), kv_value (s ! i)))"
    using i by (cases "map_of (rev (List.map_filter (kv_accepts k) ms)) i") (auto simp: kv_lookup_def)
  moreover have "length (kv_key (s' ! i)) = 16" "length (kv_value (s' ! i)) = 64"
    using inv i by (auto simp: kv_inv_def)
  ultimately show ?thesis
    using assms(4-8) kv_get_reply [of "kv_key (s' ! i)" "kv_value (s' ! i)"]
    by (auto simp: kv_handle_def Let_def split: option.split prod.split)
qed

subsection \<open>Concrete requests\<close>

definition kv_cap :: "nat \<Rightarrow> capability" where
  "kv_cap slot = \<lparr>cap_resource = KVEntry slot True True, cap_read = True, cap_write = True, cap_grant = True,
     cap_sealed = False, cap_id = 9, cap_origin = Some 7\<rparr>"

definition kv_kernel :: kernel where
  "kv_kernel = update_task 2 (\<lambda>t. t\<lparr>t_caps := table_with [channel_cap 1 8 (Some 7), kv_cap 3]\<rparr>) (sample_kernel Ready)"

lemma kv_kernel_wf [simp]: "kernel_wf kv_kernel"
  unfolding kv_kernel_def by (rule kernel_wf_update_task) (auto simp: task_wf_def MAX_CAPS_def)

lemma kv_kernel_checks: "check_sender_cap kv_kernel 2 3 w"
  by (simp add: check_sender_cap_def holds_cap_def kv_kernel_def get_task_update_task table_with_def kv_admits_def
      kv_cap_def channel_cap_def)

lemma KvStore_new_inv [simp]: "kv_inv KvStore_new"
  by (simp add: kv_inv_def KvStore_new_def KvSlot_new_def)

theorem kv_get_returns_last_set_witness:
  "kv_handle (make_message 2 KVGet 1 [3]) KvStore_new kv_kernel =
     Ret (0 # replicate 80 0, KvStore_new, kv_kernel)"
proof -
  have "replicate 16 (0 :: u8) @ replicate 64 0 = replicate 80 0" by (simp flip: replicate_add)
  then show ?thesis
    using kv_get_returns_last_set [OF KvStore_new_inv, of "[]" kv_kernel KvStore_new "make_message 2 KVGet 1 [3]" 3] kv_kernel_checks
    by (simp add: make_message_def copy_into_def map_filter_simps KvStore_new_def KvSlot_new_def)
qed

text \<open>
  C19. Revoking a capability shuts its holders out of the service. When every capability through
  which a client may access a slot is the revoked one or derives from it, then after the revocation
  each of the client's reads and writes of that slot is answered with status 1, permission denied,
  and the store keeps its contents.
\<close>

theorem kv_denied_after_revocation:
  assumes "kernel_wf k" "current_has_grant_cap_to k target" "cap_view k (target, idx) = Some c"
    and "dispatch_cap_revoke caller target idx k = (x, k')"
    and "\<forall>s d w. cap_view k (msg_sender m, s) = Some d \<and> kv_admits d (unat (msg_payload m ! 0)) w \<longrightarrow>
           (msg_sender m, s) = (target, idx) \<or> in_lineage k (cap_id c) d"
    and "msg_tag m = KVGet \<and> 1 \<le> msg_len m \<or> msg_tag m = KVSet \<and> 81 \<le> msg_len m"
    and "unat (msg_payload m ! 0) < 32"
  shows "kv_handle m store k' = Ret ([1], store, k')"
proof -
  have "\<not> check_sender_cap k' (msg_sender m) (unat (msg_payload m ! 0)) w" for w
    by (rule kv_gate.revoke_closes [OF assms(1-4)]) (use assms(5) in blast)
  then show ?thesis using assms(6,7) by (auto simp: kv_handle_def Let_def)
qed

lemma kv_kernel_view: "cap_view kv_kernel (2, s) = (if s = 0 then Some (channel_cap 1 8 (Some 7)) else if s = 1 then Some (kv_cap 3) else None)"
proof -
  have "map_option t_caps (get_task kv_kernel 2) = Some (table_with [channel_cap 1 8 (Some 7), kv_cap 3])"
    by (simp add: kv_kernel_def get_task_update_task)
  then show ?thesis
    by (auto simp: cap_view_get_task [OF kv_kernel_wf] cap_at_table_with MAX_CAPS_def)
qed

theorem kv_denied_after_revocation_witness:
  "\<exists>x k'. dispatch_cap_revoke 1 2 1 kv_kernel = (x, k') \<and>
     kv_handle (make_message 2 KVGet 1 [3]) KvStore_new k' = Ret ([1], KvStore_new, k')"
proof -
  obtain x k' where d: "dispatch_cap_revoke 1 2 1 kv_kernel = (x, k')" by fastforce
  have g: "current_has_grant_cap_to kv_kernel 2"
    by (simp add: current_has_grant_cap_to_def kv_kernel_def get_task_update_task table_with_def grants_to_def channel_cap_def)
  have v: "cap_view kv_kernel (2, 1) = Some (kv_cap 3)" by (simp add: kv_kernel_view)
  show ?thesis
    using d kv_denied_after_revocation [OF kv_kernel_wf g v d, of "make_message 2 KVGet 1 [3]" KvStore_new]
    by (auto simp: kv_kernel_view make_message_def copy_into_def kv_admits_def channel_cap_def split: if_splits)
qed

end
