(* ===== verification/Log_Service.thy ===== *)
theory Log_Service
  imports Service_Base
begin

text \<open>
  The log service, task 83 of \<open>shell/mod.rs\<close>: a ring of 128 published entries, and for every
  task a cursor to the next entry it has not read.
\<close>

record log_entry =
  lg_tick :: u64
  lg_producer :: task_id
  lg_kind :: u8
  lg_msg :: bytes
  lg_len :: nat

definition LogEntry_new :: log_entry where
  "LogEntry_new = \<lparr>lg_tick = 0, lg_producer = 0, lg_kind = 0, lg_msg = replicate 64 0, lg_len = 0\<rparr>"

definition LOG_CAPACITY :: nat where
  "LOG_CAPACITY = 128"

record log_ring =
  lr_buffer :: "log_entry list"
  lr_write_pos :: nat

definition LogRingBuffer_new :: log_ring where
  "LogRingBuffer_new = \<lparr>lr_buffer = replicate LOG_CAPACITY LogEntry_new, lr_write_pos = 0\<rparr>"

definition LogRingBuffer_push :: "log_entry \<Rightarrow> log_ring \<Rightarrow> log_ring" where
  "LogRingBuffer_push entry r =
     r\<lparr>lr_buffer := (lr_buffer r)[lr_write_pos r mod LOG_CAPACITY := entry], lr_write_pos := lr_write_pos r + 1\<rparr>"

text \<open>The statics \<open>LOG\<close> and \<open>CURSORS\<close>.\<close>

record log_state =
  ls_log :: log_ring
  ls_cursors :: "nat list"

definition log_state_new :: log_state where
  "log_state_new = \<lparr>ls_log = LogRingBuffer_new, ls_cursors = replicate MAX_TASKS 0\<rparr>"

definition log_admits :: "capability \<Rightarrow> u8 \<Rightarrow> bool \<Rightarrow> bool" where
  "log_admits cap kind require_write =
     (case cap_resource cap of
        LogChannel cap_kind readable writable \<Rightarrow>
          cap_kind = kind \<and> (if require_write then writable \<and> cap_write cap else readable \<and> cap_read cap)
      | _ \<Rightarrow> False)"

definition check_log_sender_cap :: "kernel \<Rightarrow> task_id \<Rightarrow> u8 \<Rightarrow> bool \<Rightarrow> bool" where
  "check_log_sender_cap k sender_id kind require_write =
     holds_cap k sender_id (\<lambda>cap. log_admits cap kind require_write)"

definition ensure_log_service :: "u64 \<Rightarrow> kernel \<Rightarrow> kernel run" where
  "ensure_log_service entry k = ensure_service 83 entry k"

text \<open>The 90 bytes of a successful read.\<close>

definition encode_entry :: "log_entry \<Rightarrow> bytes" where
  "encode_entry e =
     (let reply = (replicate 128 0)[0 := 0];
          reply = copy_into reply 1 (le_bytes 8 (lg_tick e));
          reply = copy_into reply 9 (le_bytes 8 (of_nat (lg_producer e)));
          reply = reply[17 := lg_kind e];
          reply = copy_into reply 18 (le_bytes 8 (of_nat (lg_len e)));
          reply = copy_into reply 26 (lg_msg e)
      in take 90 reply)"

definition published_entry :: "message \<Rightarrow> kernel \<Rightarrow> log_entry" where
  "published_entry msg k =
     (let msg_bytes_len = min (msg_len msg - 1) 64
      in LogEntry_new\<lparr>lg_tick := ticks (preempt k), lg_producer := msg_sender msg, lg_kind := msg_payload msg ! 0,
           lg_len := msg_bytes_len,
           lg_msg := copy_into (lg_msg LogEntry_new) 0 (slice 1 (1 + msg_bytes_len) (msg_payload msg))\<rparr>)"

definition log_publish :: "message \<Rightarrow> log_state \<Rightarrow> kernel \<Rightarrow> bytes \<times> log_state" where
  "log_publish msg s k =
     (let kind = msg_payload msg ! 0
      in if msg_len msg < 1 then ([2], s)
         else if kind \<ge> 16 then ([3], s)
         else if \<not> check_log_sender_cap k (msg_sender msg) kind True then ([1], s)
         else ([0], s\<lparr>ls_log := LogRingBuffer_push (published_entry msg k) (ls_log s)\<rparr>))"

definition log_read :: "message \<Rightarrow> log_state \<Rightarrow> kernel \<Rightarrow> (bytes \<times> log_state) run" where
  "log_read msg s k =
     (let kind = msg_payload msg ! 0;
          sender_idx = msg_sender msg;
          log = ls_log s
      in if msg_len msg < 1 then Ret ([3], s)
         else if kind \<ge> 16 then Ret ([3], s)
         else if \<not> check_log_sender_cap k (msg_sender msg) kind False then Ret ([1], s)
         else if \<not> sender_idx < length (ls_cursors s) then Panic
         else let oldest_valid = (if lr_write_pos log > LOG_CAPACITY then lr_write_pos log - LOG_CAPACITY else 0);
                  cursors = (if ls_cursors s ! sender_idx < oldest_valid
                             then (ls_cursors s)[sender_idx := oldest_valid] else ls_cursors s)
              in case find (\<lambda>idx. lg_kind (lr_buffer log ! (idx mod LOG_CAPACITY)) = kind)
                        [cursors ! sender_idx ..< lr_write_pos log] of
                   Some found_idx \<Rightarrow>
                     Ret (encode_entry (lr_buffer log ! (found_idx mod LOG_CAPACITY)),
                          s\<lparr>ls_cursors := cursors[sender_idx := found_idx + 1]\<rparr>)
                 | None \<Rightarrow> Ret ([2], s\<lparr>ls_cursors := cursors[sender_idx := lr_write_pos log]\<rparr>))"

definition log_handle :: "message \<Rightarrow> log_state \<Rightarrow> kernel \<Rightarrow> (bytes \<times> log_state \<times> kernel) run" where
  "log_handle msg s k =
     (case msg_tag msg of
        LogPublish \<Rightarrow> (case log_publish msg s k of (reply, s) \<Rightarrow> Ret (reply, s, k))
      | LogRead \<Rightarrow> run_bind (log_read msg s k) (\<lambda>(reply, s). Ret (reply, s, k))
      | _ \<Rightarrow> Ret ([3], s, k))"

definition log_service_iter :: "log_state \<Rightarrow> kernel \<Rightarrow> (service_outcome \<times> log_state \<times> kernel) run" where
  "log_service_iter = service_iter 83 8300 LogAck log_handle"

subsection \<open>The ring holds the most recent entries\<close>

text \<open>
  \<open>log_inv H s\<close>: \<open>H\<close> is the list of all entries ever published; the ring holds the last 128 of
  them at their positions.
\<close>

definition entry_wf :: "log_entry \<Rightarrow> bool" where
  "entry_wf e \<longleftrightarrow> length (lg_msg e) = 64 \<and> lg_len e \<le> 64 \<and> lg_kind e < 16"

definition log_inv :: "log_entry list \<Rightarrow> log_state \<Rightarrow> bool" where
  "log_inv H s \<longleftrightarrow> lr_write_pos (ls_log s) = length H \<and> length (lr_buffer (ls_log s)) = LOG_CAPACITY \<and>
     length (ls_cursors s) = MAX_TASKS \<and> (\<forall>e \<in> set H. entry_wf e) \<and>
     (\<forall>i < length H. length H \<le> i + LOG_CAPACITY \<longrightarrow> lr_buffer (ls_log s) ! (i mod LOG_CAPACITY) = H ! i)"

lemma LOG_CAPACITY_pos [simp]: "0 < LOG_CAPACITY"
  by (simp add: LOG_CAPACITY_def)

lemma log_inv_new [simp]: "log_inv [] log_state_new"
  by (simp add: log_inv_def log_state_new_def LogRingBuffer_new_def)

lemma log_inv_push:
  assumes "log_inv H s" "entry_wf e"
  shows "log_inv (H @ [e]) (s\<lparr>ls_log := LogRingBuffer_push e (ls_log s)\<rparr>)"
proof -
  have ne: "i mod LOG_CAPACITY \<noteq> length H mod LOG_CAPACITY" if "i < length H" "Suc (length H) \<le> i + LOG_CAPACITY" for i
  proof
    assume "i mod LOG_CAPACITY = length H mod LOG_CAPACITY"
    moreover have "length H - i < LOG_CAPACITY" using that by linarith
    ultimately show False using ring_index_inj [of 0 LOG_CAPACITY "length H - i" i] that(1) by simp
  qed
  let ?b = "(lr_buffer (ls_log s))[length H mod LOG_CAPACITY := e]"
  have len: "length ?b = LOG_CAPACITY" using assms(1) by (simp add: log_inv_def)
  have "?b ! (i mod LOG_CAPACITY) = (H @ [e]) ! i"
    if "i < Suc (length H)" "Suc (length H) \<le> i + LOG_CAPACITY" for i
  proof (cases "i = length H")
    case True
    then show ?thesis using len by simp
  next
    case False
    then have i: "i < length H" using that(1) by simp
    have "lr_buffer (ls_log s) ! (i mod LOG_CAPACITY) = H ! i"
      using assms(1) i that(2) by (simp add: log_inv_def)
    then show ?thesis using ne [OF i that(2)] i by (simp add: nth_append)
  qed
  then show ?thesis using assms len by (simp add: log_inv_def LogRingBuffer_push_def)
qed

lemma log_inv_cursors: "log_inv H s \<Longrightarrow> log_inv H (s\<lparr>ls_cursors := (ls_cursors s)[i := c]\<rparr>)"
  by (simp add: log_inv_def)

lemma published_entry_wf:
  "message_wf msg \<Longrightarrow> 1 \<le> msg_len msg \<Longrightarrow> msg_payload msg ! 0 < 16 \<Longrightarrow> entry_wf (published_entry msg k)"
  by (simp add: published_entry_def Let_def entry_wf_def LogEntry_new_def message_wf_def PAYLOAD_MAX_def min_def)

lemma encode_entry_eq:
  assumes "length (lg_msg e) = 64"
  shows "encode_entry e =
    0 # le_bytes 8 (lg_tick e) @ le_bytes 8 (of_nat (lg_producer e)) @ [lg_kind e] @ le_bytes 8 (of_nat (lg_len e)) @ lg_msg e"
proof -
  define r0 where "r0 = (replicate 128 (0 :: u8))[0 := 0]"
  define r1 where "r1 = copy_into r0 1 (le_bytes 8 (lg_tick e))"
  define r2 where "r2 = copy_into r1 9 (le_bytes 8 (of_nat (lg_producer e)))"
  define r3 where "r3 = r2[17 := lg_kind e]"
  define r4 where "r4 = copy_into r3 18 (le_bytes 8 (of_nat (lg_len e)))"
  have l: "length r0 = 128" "length r1 = 128" "length r2 = 128" "length r3 = 128" "length r4 = 128"
    by (simp_all add: r0_def r1_def r2_def r3_def r4_def)
  have t0: "take 1 r0 = [0]" by (simp add: r0_def numeral_eq_Suc)
  have t1: "take 9 r1 = 0 # le_bytes 8 (lg_tick e)" using t0 l by (simp add: r1_def copy_into_def)
  have t2: "take 17 r2 = take 9 r1 @ le_bytes 8 (of_nat (lg_producer e))" using l by (simp add: r2_def copy_into_def)
  have t3: "take 18 r3 = take 17 r2 @ [lg_kind e]"
    using l take_update_snoc [of 17 r2 "lg_kind e"] by (simp add: r3_def)
  have t4: "take 26 r4 = take 18 r3 @ le_bytes 8 (of_nat (lg_len e))" using l by (simp add: r4_def copy_into_def)
  have "encode_entry e = take 90 (copy_into r4 26 (lg_msg e))"
    by (simp add: encode_entry_def Let_def r0_def r1_def r2_def r3_def r4_def)
  also have "\<dots> = take 26 r4 @ lg_msg e" using l assms by (simp add: copy_into_def)
  finally show ?thesis unfolding t4 t3 t2 t1 by simp
qed

text \<open>The next entry of a kind that a reader with cursor \<open>c\<close> is given.\<close>

definition next_of_kind :: "log_entry list \<Rightarrow> u8 \<Rightarrow> nat \<Rightarrow> nat option" where
  "next_of_kind H kind c = find (\<lambda>i. lg_kind (H ! i) = kind) [max c (length H - LOG_CAPACITY)..<length H]"

lemma find_cong_set: "(\<And>x. x \<in> set xs \<Longrightarrow> P x = Q x) \<Longrightarrow> find P xs = find Q xs"
  by (induction xs) auto

lemma log_read_spec:
  assumes inv: "log_inv H s" and m: "1 \<le> msg_len m" "msg_payload m ! 0 = kind" "kind < 16"
    and c: "check_log_sender_cap k (msg_sender m) kind False" and r: "msg_sender m < MAX_TASKS"
  shows "log_read m s k =
    (case next_of_kind H kind (ls_cursors s ! msg_sender m) of
       Some i \<Rightarrow> Ret (encode_entry (H ! i), s\<lparr>ls_cursors := (ls_cursors s)[msg_sender m := i + 1]\<rparr>)
     | None \<Rightarrow> Ret ([2], s\<lparr>ls_cursors := (ls_cursors s)[msg_sender m := length H]\<rparr>))"
proof -
  let ?t = "msg_sender m" and ?wp = "lr_write_pos (ls_log s)" and ?b = "lr_buffer (ls_log s)"
  define cs where "cs = (if ls_cursors s ! ?t < (if ?wp > LOG_CAPACITY then ?wp - LOG_CAPACITY else 0)
      then (ls_cursors s)[?t := if ?wp > LOG_CAPACITY then ?wp - LOG_CAPACITY else 0] else ls_cursors s)"
  have wp: "?wp = length H" and lc: "?t < length (ls_cursors s)" using inv r by (simp_all add: log_inv_def)
  have cs: "cs ! ?t = max (ls_cursors s ! ?t) (length H - LOG_CAPACITY)"
    using lc by (auto simp: cs_def wp max_def)
  have upd: "cs[?t := x] = (ls_cursors s)[?t := x]" for x by (simp add: cs_def)
  have buf: "?b ! (i mod LOG_CAPACITY) = H ! i" if "i \<in> set [cs ! ?t..<?wp]" for i
    using inv that by (auto simp: log_inv_def cs wp)
  have f: "find (\<lambda>idx. lg_kind (?b ! (idx mod LOG_CAPACITY)) = kind) [cs ! ?t..<?wp] = next_of_kind H kind (ls_cursors s ! ?t)"
    unfolding next_of_kind_def cs wp by (rule find_cong_set) (use buf cs wp in simp)
  have found: "i \<in> set [cs ! ?t..<?wp]" if "next_of_kind H kind (ls_cursors s ! ?t) = Some i" for i
    using that unfolding f [symmetric] by (auto simp: find_Some_iff)
  have step: "log_read m s k =
      (case find (\<lambda>idx. lg_kind (?b ! (idx mod LOG_CAPACITY)) = kind) [cs ! ?t..<?wp] of
         Some i \<Rightarrow> Ret (encode_entry (?b ! (i mod LOG_CAPACITY)), s\<lparr>ls_cursors := cs[?t := i + 1]\<rparr>)
       | None \<Rightarrow> Ret ([2], s\<lparr>ls_cursors := cs[?t := ?wp]\<rparr>))"
    using m c lc unfolding log_read_def cs_def Let_def by (simp add: not_le)
  show ?thesis
    unfolding step f upd using found buf by (simp add: wp split: option.split)
qed

lemma check_log_sender: "check_log_sender_cap k t kind w \<Longrightarrow> kernel_wf k \<Longrightarrow> t < MAX_TASKS"
  using kernel_wf_task [of k t] by (auto simp: check_log_sender_cap_def holds_cap_def split: option.splits)

interpretation log_gate: cap_gate check_log_sender_cap log_admits
proof (unfold_locales, goal_cases)
  case (1 k t r w)
  then show ?case by (simp add: check_log_sender_cap_def holds_cap_view)
next
  case (2 d r w c)
  then show ?case
    by (cases "cap_resource c") (auto simp: log_admits_def rights_of_def less_eq_rights_mask_def split: if_splits)
qed

lemma log_publish_spec:
  assumes "log_inv H s" "message_wf m"
  shows "\<exists>H' r. log_inv H' (snd (log_publish m s k)) \<and> fst (log_publish m s k) = [r]"
proof (cases "msg_len m < 1 \<or> msg_payload m ! 0 \<ge> 16 \<or> \<not> check_log_sender_cap k (msg_sender m) (msg_payload m ! 0) True")
  case True
  then have "snd (log_publish m s k) = s" "\<exists>r. fst (log_publish m s k) = [r]" by (auto simp: log_publish_def Let_def)
  then show ?thesis using assms(1) by auto
next
  case False
  then have "log_publish m s k = ([0], s\<lparr>ls_log := LogRingBuffer_push (published_entry m k) (ls_log s)\<rparr>)"
    "entry_wf (published_entry m k)"
    using published_entry_wf [OF assms(2)] by (auto simp: log_publish_def Let_def not_le Suc_le_eq)
  then show ?thesis using log_inv_push [OF assms(1)] by auto
qed

interpretation log_service: service log_handle "\<lambda>s. \<exists>H. log_inv H s" "\<lambda>_ _. True"
proof (unfold_locales, goal_cases)
  case (1 k m s)
  then obtain H where H: "log_inv H s" by blast
  show ?case
  proof (cases "msg_tag m = LogRead \<and> \<not> (msg_len m < 1 \<or> msg_payload m ! 0 \<ge> 16 \<or>
        \<not> check_log_sender_cap k (msg_sender m) (msg_payload m ! 0) False)")
    case True
    then have c: "1 \<le> msg_len m" "msg_payload m ! 0 < 16" "check_log_sender_cap k (msg_sender m) (msg_payload m ! 0) False"
      by auto
    have wf: "entry_wf (H ! i)" if "next_of_kind H (msg_payload m ! 0) x = Some i" for i x
      using that H by (auto simp: next_of_kind_def find_Some_iff log_inv_def)
    note r = log_read_spec [OF H c(1) refl c(2,3) check_log_sender [OF c(3) 1(1)]]
    show ?thesis
    proof (cases "next_of_kind H (msg_payload m ! 0) (ls_cursors s ! msg_sender m)")
      case None
      then show ?thesis using True r log_inv_cursors [OF H] by (auto simp: log_handle_def PAYLOAD_MAX_def)
    next
      case (Some i)
      then show ?thesis
        using True r log_inv_cursors [OF H] wf [OF Some] encode_entry_eq [of "H ! i"]
        by (auto simp: log_handle_def PAYLOAD_MAX_def entry_wf_def)
    qed
  next
    case False
    then have "msg_tag m \<noteq> LogPublish \<Longrightarrow> log_handle m s k = Ret ([3], s, k) \<or> log_handle m s k = Ret ([1], s, k)"
      by (cases "msg_tag m") (auto simp: log_handle_def log_read_def Let_def)
    then consider (publish) "msg_tag m = LogPublish" | (refused) r where "log_handle m s k = Ret ([r], s, k)"
      by blast
    then show ?thesis
    proof cases
      case publish
      obtain H' r where "log_inv H' (snd (log_publish m s k))" "fst (log_publish m s k) = [r]"
        using log_publish_spec [OF H 1(2)] by blast
      then show ?thesis
        using publish by (auto simp: log_handle_def PAYLOAD_MAX_def split_def)
    next
      case refused
      then show ?thesis using H by (auto simp: PAYLOAD_MAX_def)
    qed
  qed
qed

subsection \<open>A reader sees the entries of a kind in order\<close>

text \<open>The replies to \<open>n\<close> successive reads.\<close>

fun read_n :: "nat \<Rightarrow> message \<Rightarrow> log_state \<Rightarrow> kernel \<Rightarrow> (bytes list \<times> log_state) run" where
  "read_n 0 m s k = Ret ([], s)"
| "read_n (Suc n) m s k =
     run_bind (log_handle m s k) (\<lambda>(reply, s, _).
       run_bind (read_n n m s k) (\<lambda>(replies, s). Ret (reply # replies, s)))"

text \<open>The entries a reader with cursor \<open>c\<close> still has in front of it.\<close>

definition unread :: "log_entry list \<Rightarrow> u8 \<Rightarrow> nat \<Rightarrow> log_entry list" where
  "unread H kind c = filter (\<lambda>e. lg_kind e = kind) (drop (max c (length H - LOG_CAPACITY)) H)"

lemma find_first_filter:
  assumes "a \<le> length H"
  shows "case find (\<lambda>i. P (H ! i)) [a..<length H] of
      Some i \<Rightarrow> a \<le> i \<and> i < length H \<and> filter P (drop a H) = H ! i # filter P (drop (Suc i) H)
    | None \<Rightarrow> filter P (drop a H) = []"
  using assms
proof (induction "length H - a" arbitrary: a)
  case 0
  then show ?case by simp
next
  case (Suc n)
  then have a: "a < length H" by simp
  have upt: "[a..<length H] = a # [Suc a..<length H]" using a by (rule upt_conv_Cons)
  have drop: "drop a H = H ! a # drop (Suc a) H" using a by (simp add: Cons_nth_drop_Suc)
  have IH: "case find (\<lambda>i. P (H ! i)) [Suc a..<length H] of
      Some i \<Rightarrow> Suc a \<le> i \<and> i < length H \<and> filter P (drop (Suc a) H) = H ! i # filter P (drop (Suc i) H)
    | None \<Rightarrow> filter P (drop (Suc a) H) = []"
    using Suc by simp
  show ?case
  proof (cases "P (H ! a)")
    case True
    then show ?thesis using a by (simp add: upt drop)
  next
    case False
    then show ?thesis using IH by (auto simp: upt drop split: option.splits)
  qed
qed

lemma unread_next:
  "case next_of_kind H kind c of
     Some i \<Rightarrow> i < length H \<and> unread H kind c = H ! i # unread H kind (i + 1)
   | None \<Rightarrow> unread H kind c = []"
proof (cases "max c (length H - LOG_CAPACITY) \<le> length H")
  case True
  have "max (Suc i) (length H - LOG_CAPACITY) = Suc i" if "max c (length H - LOG_CAPACITY) \<le> i" for i
    using that by auto
  then show ?thesis
    using find_first_filter [OF True, of "\<lambda>e. lg_kind e = kind"]
    by (auto simp: next_of_kind_def unread_def split: option.splits)
next
  case False
  then show ?thesis by (simp add: next_of_kind_def unread_def)
qed

lemma unread_end: "unread H kind (length H) = []"
  by (simp add: unread_def)

text \<open>
  C20. A reader of the log is given each retained entry of the kind it asks for once and in the
  order of publication. Repeated reads answer with the entries of that kind from the reader's
  cursor on, as far as the ring still holds them, each with its tick, producer, length and text,
  and then with status 2, empty.
\<close>

theorem log_reads_in_order:
  assumes "log_inv H s" "kernel_wf k" "msg_tag m = LogRead" "1 \<le> msg_len m" "msg_payload m ! 0 = kind" "kind < 16"
    and "check_log_sender_cap k (msg_sender m) kind False"
  shows "\<exists>s'. read_n n m s k = Ret (map encode_entry (take n (unread H kind (ls_cursors s ! msg_sender m))) @
      replicate (n - length (unread H kind (ls_cursors s ! msg_sender m))) [2], s') \<and> log_inv H s'"
  using assms(1)
proof (induction n arbitrary: s)
  case 0
  then show ?case by simp
next
  case (Suc n)
  let ?t = "msg_sender m"
  have t: "?t < MAX_TASKS" by (rule check_log_sender [OF assms(7,2)])
  have lc: "?t < length (ls_cursors s)" using Suc.prems t by (simp add: log_inv_def)
  note r = log_read_spec [OF Suc.prems assms(4-7) t]
  show ?case
  proof (cases "next_of_kind H kind (ls_cursors s ! ?t)")
    case None
    let ?s = "s\<lparr>ls_cursors := (ls_cursors s)[?t := length H]\<rparr>"
    have u: "unread H kind (ls_cursors s ! ?t) = []" using unread_next [of H kind "ls_cursors s ! ?t"] None by simp
    have "ls_cursors ?s ! ?t = length H" using lc by simp
    then show ?thesis
      using Suc.IH [OF log_inv_cursors [OF Suc.prems, of ?t "length H"]] r None u assms(3)
      by (auto simp: log_handle_def unread_end)
  next
    case (Some i)
    let ?s = "s\<lparr>ls_cursors := (ls_cursors s)[?t := i + 1]\<rparr>"
    have u: "unread H kind (ls_cursors s ! ?t) = H ! i # unread H kind (i + 1)"
      using unread_next [of H kind "ls_cursors s ! ?t"] Some by simp
    have "ls_cursors ?s ! ?t = i + 1" using lc by simp
    then show ?thesis
      using Suc.IH [OF log_inv_cursors [OF Suc.prems, of ?t "i + 1"]] r Some u assms(3)
      by (auto simp: log_handle_def)
  qed
qed

text \<open>
  Publishing. An accepted publication appends one entry with the sender's text, cut off at 64
  bytes, its kind, the current tick and the sender to the log; any other request to publish leaves
  the log as it is and is answered with an error status.
\<close>

theorem log_publish_appends:
  assumes "log_inv H s" "message_wf m" "msg_tag m = LogPublish"
  shows "\<exists>r s'. log_handle m s k = Ret ([r], s', k) \<and>
    (r = 0 \<longleftrightarrow> 1 \<le> msg_len m \<and> msg_payload m ! 0 < 16 \<and> check_log_sender_cap k (msg_sender m) (msg_payload m ! 0) True) \<and>
    (if r = 0
     then (\<exists>e. log_inv (H @ [e]) s' \<and> lg_kind e = msg_payload m ! 0 \<and> lg_producer e = msg_sender m \<and>
             lg_tick e = ticks (preempt k) \<and> take (lg_len e) (lg_msg e) = take 64 (drop 1 (msg_body m)))
     else s' = s)"
proof (cases "1 \<le> msg_len m \<and> msg_payload m ! 0 < 16 \<and> check_log_sender_cap k (msg_sender m) (msg_payload m ! 0) True")
  case True
  let ?e = "published_entry m k"
  have p: "log_handle m s k = Ret ([0], s\<lparr>ls_log := LogRingBuffer_push ?e (ls_log s)\<rparr>, k)"
    using True assms(3) by (simp add: log_handle_def log_publish_def Let_def not_le)
  have "take (lg_len ?e) (lg_msg ?e) = take 64 (drop 1 (msg_body m))"
    using assms(2) True
    by (simp add: published_entry_def Let_def LogEntry_new_def copy_into_def slice_def msg_body_def message_wf_def
        PAYLOAD_MAX_def min_def drop_take)
  then have "log_inv (H @ [?e]) (s\<lparr>ls_log := LogRingBuffer_push ?e (ls_log s)\<rparr>) \<and> lg_kind ?e = msg_payload m ! 0 \<and>
      lg_producer ?e = msg_sender m \<and> lg_tick ?e = ticks (preempt k) \<and>
      take (lg_len ?e) (lg_msg ?e) = take 64 (drop 1 (msg_body m))"
    using log_inv_push [OF assms(1) published_entry_wf [OF assms(2)]] True by (simp add: published_entry_def Let_def)
  then show ?thesis using p True by auto
next
  case False
  then have "\<exists>r. r \<noteq> 0 \<and> log_handle m s k = Ret ([r], s, k)"
    using assms(3) by (auto simp: log_handle_def log_publish_def Let_def)
  then show ?thesis using False by auto
qed

text \<open>
  The cursor is one per task, not one per kind: reading the newest entry of one kind moves past
  the entries of every other kind that the task has not read, and these are then reported as
  absent.
\<close>

theorem log_read_skips_other_kinds:
  assumes "log_inv H s" "kernel_wf k" "next_of_kind H a (ls_cursors s ! t) = Some (length H - 1)"
    and "msg_tag ma = LogRead" "1 \<le> msg_len ma" "msg_payload ma ! 0 = a" "a < 16" "msg_sender ma = t"
    and "msg_tag mb = LogRead" "1 \<le> msg_len mb" "msg_payload mb ! 0 = b" "b < 16" "msg_sender mb = t"
    and "check_log_sender_cap k t a False" "check_log_sender_cap k t b False"
  shows "\<exists>s1 s2. log_handle ma s k = Ret (encode_entry (last H), s1, k) \<and> log_handle mb s1 k = Ret ([2], s2, k)"
proof -
  have t: "t < MAX_TASKS" by (rule check_log_sender [OF assms(14,2)])
  have ne: "H \<noteq> []" using assms(3) by (auto simp: next_of_kind_def)
  let ?s1 = "s\<lparr>ls_cursors := (ls_cursors s)[t := length H]\<rparr>"
  have r1: "log_handle ma s k = Ret (encode_entry (last H), ?s1, k)"
    using log_read_spec [OF assms(1,5-7)] assms(3,4,8,14) t ne
    by (simp add: log_handle_def last_conv_nth)
  have inv1: "log_inv H ?s1" by (rule log_inv_cursors [OF assms(1)])
  have "ls_cursors ?s1 ! t = length H" using assms(1) t by (simp add: log_inv_def)
  then have "next_of_kind H b (ls_cursors ?s1 ! t) = None" by (simp add: next_of_kind_def)
  then have "log_handle mb ?s1 k = Ret ([2], ?s1\<lparr>ls_cursors := (ls_cursors ?s1)[t := length H]\<rparr>, k)"
    using log_read_spec [OF inv1 assms(10-12)] assms(9,13,15) t by (simp add: log_handle_def)
  then show ?thesis using r1 by blast
qed

subsection \<open>Concrete requests\<close>

definition log_cap :: "u8 \<Rightarrow> capability" where
  "log_cap kind = \<lparr>cap_resource = LogChannel kind True True, cap_read = True, cap_write = True, cap_grant = False,
     cap_sealed = False, cap_id = 9, cap_origin = None\<rparr>"

definition log_kernel :: kernel where
  "log_kernel = update_task 2 (\<lambda>t. t\<lparr>t_caps := table_with [log_cap 1]\<rparr>) (sample_kernel Ready)"

lemma log_kernel_wf [simp]: "kernel_wf log_kernel"
  unfolding log_kernel_def by (rule kernel_wf_update_task) (auto simp: task_wf_def MAX_CAPS_def)

lemma log_kernel_checks [simp]: "check_log_sender_cap log_kernel 2 1 w"
  by (simp add: check_log_sender_cap_def holds_cap_def log_kernel_def get_task_update_task table_with_def log_admits_def
      log_cap_def)

lemma payload_0: "msg_payload (make_message s t v (b # bs)) ! 0 = b" "msg_len (make_message s t v p) = length p"
  "msg_tag (make_message s t v p) = t"
  by (simp_all add: make_message_def copy_into_def)

theorem log_publish_appends_witness:
  "\<exists>s' e. log_handle (make_message 2 LogPublish 1 [1, 72, 105]) log_state_new log_kernel = Ret ([0], s', log_kernel) \<and>
     log_inv [e] s' \<and> take (lg_len e) (lg_msg e) = [72, 105]"
  using log_publish_appends [OF log_inv_new, of "make_message 2 LogPublish 1 [1, 72, 105]" log_kernel]
  by (auto simp: payload_0 PAYLOAD_MAX_def)

theorem log_reads_in_order_witness:
  "\<exists>s' e s''. log_inv [e] s' \<and> lg_kind e = 1 \<and>
     read_n 2 (make_message 2 LogRead 1 [1]) s' log_kernel = Ret ([encode_entry e, [2]], s'')"
proof -
  obtain s' where s': "log_inv [published_entry (make_message 2 LogPublish 1 [1, 72]) log_kernel] s'" "ls_cursors s' ! 2 = 0"
    using log_inv_push [OF log_inv_new published_entry_wf [of "make_message 2 LogPublish 1 [1, 72]" log_kernel]]
    by (auto simp: payload_0 PAYLOAD_MAX_def log_state_new_def MAX_TASKS_def)
  let ?e = "published_entry (make_message 2 LogPublish 1 [1, 72]) log_kernel"
  have kind: "lg_kind ?e = 1" by (simp add: published_entry_def Let_def payload_0)
  have u: "unread [?e] 1 (ls_cursors s' ! 2) = [?e]" using kind s'(2) by (simp add: unread_def LOG_CAPACITY_def)
  obtain s'' where "read_n 2 (make_message 2 LogRead 1 [1]) s' log_kernel =
      Ret (map encode_entry (take 2 [?e]) @ replicate (2 - length [?e]) [2], s'')"
    using log_reads_in_order [OF s'(1) log_kernel_wf, of "make_message 2 LogRead 1 [1]" 1 2] u
    by (auto simp: payload_0 simp del: read_n.simps)
  then have "read_n 2 (make_message 2 LogRead 1 [1]) s' log_kernel = Ret ([encode_entry ?e, [2]], s'')" by simp
  then show ?thesis using s'(1) kind by blast
qed

end
