(* ===== verification/Shell_Input.thy ===== *)
theory Shell_Input
  imports Serial Ring_Buffers
begin

text \<open>
  The input side of the shell, \<open>shell/mod.rs\<close>: the command history, line input with history
  recall, splitting a line into tokens and reading numbers.
\<close>

subsection \<open>The command history\<close>

record history =
  h_buffer :: "bytes list"
  h_lens :: "nat list"
  h_head :: nat
  h_count :: nat

definition History_new :: history where
  "History_new = \<lparr>h_buffer = replicate 16 (replicate 128 0), h_lens = replicate 16 0, h_head = 0, h_count = 0\<rparr>"

definition History_push :: "bytes \<Rightarrow> history \<Rightarrow> history" where
  "History_push cmd h =
     (if cmd = [] then h
      else let last_idx = (h_head h + 15) mod 16;
               last_len = h_lens h ! last_idx
           in if h_count h > 0 \<and> last_len = length cmd \<and> take last_len (h_buffer h ! last_idx) = cmd then h
              else let idx = h_head h;
                       to_copy = min (length cmd) 128
                   in h\<lparr>h_buffer := (h_buffer h)[idx := copy_into (h_buffer h ! idx) 0 (take to_copy cmd)],
                        h_lens := (h_lens h)[idx := to_copy], h_head := (idx + 1) mod 16,
                        h_count := (if h_count h < 16 then h_count h + 1 else h_count h)\<rparr>)"

definition History_get :: "history \<Rightarrow> nat \<Rightarrow> bytes option" where
  "History_get h steps_back =
     (if steps_back = 0 \<or> steps_back > h_count h then None
      else let idx = (h_head h + 16 - steps_back) mod 16;
               len = h_lens h ! idx
           in Some (take len (h_buffer h ! idx)))"

definition history_wf :: "history \<Rightarrow> bool" where
  "history_wf h \<longleftrightarrow> length (h_buffer h) = 16 \<and> (\<forall>b \<in> set (h_buffer h). length b = 128) \<and>
     length (h_lens h) = 16 \<and> (\<forall>l \<in> set (h_lens h). l \<le> 128) \<and> h_head h < 16 \<and> h_count h \<le> 16"

text \<open>The commands recalled by one step back, two steps back and so on.\<close>

definition recalled :: "history \<Rightarrow> bytes list" where
  "recalled h = map (\<lambda>i. the (History_get h (Suc i))) [0..<h_count h]"

lemma history_wf_new: "history_wf History_new"
  by (simp add: history_wf_def History_new_def)

lemma recalled_new: "recalled History_new = []"
  by (simp add: recalled_def History_new_def)

lemma history_wf_push:
  assumes "history_wf h"
  shows "history_wf (History_push cmd h)"
proof -
  have "length (copy_into (h_buffer h ! h_head h) 0 (take (min (length cmd) 128) cmd)) = 128"
    using assms by (simp add: history_wf_def)
  then show ?thesis
    using assms
    by (auto simp: History_push_def history_wf_def Let_def dest!: subsetD [OF set_update_subset_insert])
qed

lemma History_get_wf: "history_wf h \<Longrightarrow> History_get h i = Some c \<Longrightarrow> length c \<le> 128"
  by (auto simp: History_get_def history_wf_def Let_def split: if_splits)

lemma recalled_0: "h_count h > 0 \<Longrightarrow> recalled h ! 0 = take (h_lens h ! ((h_head h + 15) mod 16)) (h_buffer h ! ((h_head h + 15) mod 16))"
  by (simp add: recalled_def History_get_def Let_def add.commute)

lemma ring_back: "(a :: nat) < 16 \<Longrightarrow> 0 < i \<Longrightarrow> i < 16 \<Longrightarrow> ((a + 1) mod 16 + 16 - Suc i) mod 16 = (a + 16 - i) mod 16"
  by (cases "a = 15") (simp_all add: mod_if add.commute)

lemma History_push_fresh:
  assumes "history_wf h" "cmd \<noteq> []" "\<not> (h_count h > 0 \<and> recalled h ! 0 = cmd)"
  shows "recalled (History_push cmd h) = take 16 (take 128 cmd # recalled h)"
proof -
  let ?i = "h_head h"
  let ?h = "h\<lparr>h_buffer := (h_buffer h)[?i := copy_into (h_buffer h ! ?i) 0 (take (min (length cmd) 128) cmd)],
      h_lens := (h_lens h)[?i := min (length cmd) 128], h_head := (?i + 1) mod 16,
      h_count := (if h_count h < 16 then h_count h + 1 else h_count h)\<rparr>"
  have wf: "?i < 16" "h_count h \<le> 16" "length (h_buffer h) = 16" "length (h_lens h) = 16"
    "length (h_buffer h ! ?i) = 128" "length (h_buffer h ! ((?i + 15) mod 16)) = 128"
    "h_lens h ! ((?i + 15) mod 16) \<le> 128"
    using assms(1) by (auto simp: history_wf_def)
  have push: "History_push cmd h = ?h"
    using assms(2,3) wf recalled_0 [of h] by (auto simp: History_push_def Let_def min_def)
  show ?thesis
  proof (rule nth_equalityI)
    show "length (recalled (History_push cmd h)) = length (take 16 (take 128 cmd # recalled h))"
      using wf by (simp add: push recalled_def)
    fix j assume "j < length (recalled (History_push cmd h))"
    then have j: "j < h_count ?h" by (simp add: push recalled_def)
    show "recalled (History_push cmd h) ! j = take 16 (take 128 cmd # recalled h) ! j"
    proof (cases j)
      case 0
      have "((?i + 1) mod 16 + 16 - 1) mod 16 = ?i" using wf(1) by (cases "?i = 15") (simp_all add: mod_if)
      then show ?thesis
        using 0 j wf by (simp add: push recalled_def History_get_def Let_def copy_into_def min_def)
    next
      case (Suc i)
      have i: "0 < Suc i" "Suc i < 16" "i < h_count h" using Suc j wf by (auto split: if_splits)
      have idx: "((?i + 1) mod 16 + 16 - Suc (Suc i)) mod 16 = (?i + 16 - Suc i) mod 16"
        by (rule ring_back [OF wf(1) i(1,2)])
      have ne: "(?i + 16 - Suc i) mod 16 \<noteq> ?i" using wf(1) i by (auto simp: mod_if)
      show ?thesis
        using Suc i j wf idx ne by (simp add: push recalled_def History_get_def Let_def)
    qed
  qed
qed

text \<open>
  The command history. Pushing an empty command or a repetition of the last one changes
  nothing; any other command becomes the first to be recalled, cut off at 128 bytes, in front of
  the earlier ones, of which the sixteen most recent are kept.
\<close>

theorem history_push_recalls:
  assumes "history_wf h"
  shows "history_wf (History_push cmd h) \<and>
    recalled (History_push cmd h) =
      (if cmd = [] \<or> (recalled h \<noteq> [] \<and> hd (recalled h) = cmd) then recalled h
       else take 16 (take 128 cmd # recalled h))"
proof (cases "cmd = [] \<or> (recalled h \<noteq> [] \<and> hd (recalled h) = cmd)")
  case True
  have "History_push cmd h = h"
  proof (cases "cmd = []")
    case True
    then show ?thesis by (simp add: History_push_def)
  next
    case False
    with True have c: "h_count h > 0" "recalled h ! 0 = cmd"
      by (auto simp: recalled_def hd_conv_nth)
    have l: "length (h_buffer h ! ((h_head h + 15) mod 16)) = 128" "h_lens h ! ((h_head h + 15) mod 16) \<le> 128"
      using assms by (auto simp: history_wf_def)
    then show ?thesis using False c recalled_0 [OF c(1)] by (auto simp: History_push_def Let_def)
  qed
  then show ?thesis using True assms by auto
next
  case False
  then have "\<not> (h_count h > 0 \<and> recalled h ! 0 = cmd)" by (auto simp: recalled_def hd_conv_nth)
  with False show ?thesis using History_push_fresh [OF assms, of cmd] history_wf_push [OF assms] by auto
qed

theorem history_push_recalls_witness:
  "recalled (History_push [0x70] (History_push [0x71] History_new)) = [[0x70], [0x71]]"
  using history_push_recalls [OF history_wf_new, of "[0x71]"]
    history_push_recalls [OF history_wf_push [OF history_wf_new], of "[0x70]" "[0x71]"]
  by (simp add: recalled_new)

subsection \<open>Line input with history\<close>

record line_edit =
  le_buf :: bytes
  le_n :: nat
  le_idx :: nat
  le_draft :: bytes
  le_dlen :: nat
  le_out :: bytes

definition erase :: "nat \<Rightarrow> bytes" where
  "erase n = concat (replicate n [8, 32, 8])"

definition key_delete :: "line_edit \<Rightarrow> line_edit" where
  "key_delete e = (if le_n e > 0 then e\<lparr>le_n := le_n e - 1, le_out := le_out e @ erase 1\<rparr> else e)"

definition key_char :: "u8 \<Rightarrow> line_edit \<Rightarrow> line_edit" where
  "key_char b e =
     (if le_n e < length (le_buf e)
      then e\<lparr>le_buf := (le_buf e)[le_n e := b], le_n := le_n e + 1, le_out := le_out e @ [b], le_idx := 0\<rparr>
      else e)"

text \<open>
  \<open>load cmd\<close> is \<open>buf[..cmd.len()].copy_from_slice(cmd); n = cmd.len();\<close>, which panics when the
  buffer is too short.
\<close>

definition load :: "bytes \<Rightarrow> line_edit \<Rightarrow> line_edit run" where
  "load cmd e =
     (if length cmd \<le> length (le_buf e)
      then Ret (e\<lparr>le_buf := copy_into (le_buf e) 0 cmd, le_n := length cmd\<rparr>) else Panic)"

definition show_line :: "line_edit \<Rightarrow> line_edit" where
  "show_line e = e\<lparr>le_out := le_out e @ take (le_n e) (le_buf e)\<rparr>"

definition save_draft :: "line_edit \<Rightarrow> line_edit run" where
  "save_draft e =
     (if le_idx e = 0
      then (if le_n e \<le> length (le_draft e)
            then Ret (e\<lparr>le_draft := copy_into (le_draft e) 0 (take (le_n e) (le_buf e)), le_dlen := le_n e\<rparr>)
            else Panic)
      else Ret e)"

definition key_up :: "history \<Rightarrow> line_edit \<Rightarrow> line_edit run" where
  "key_up h e =
     (if h_count h > 0 \<and> le_idx e < h_count h
      then run_bind (save_draft e) (\<lambda>e.
             let e = e\<lparr>le_idx := le_idx e + 1, le_out := le_out e @ erase (le_n e)\<rparr>
             in case History_get h (le_idx e) of
                  Some cmd \<Rightarrow> run_bind (load cmd e) (\<lambda>e. Ret (show_line e))
                | None \<Rightarrow> Ret e)
      else Ret e)"

definition key_down :: "history \<Rightarrow> line_edit \<Rightarrow> line_edit run" where
  "key_down h e =
     (if le_idx e > 0
      then let e = e\<lparr>le_idx := le_idx e - 1, le_out := le_out e @ erase (le_n e)\<rparr>
           in run_bind
                (if le_idx e = 0 then load (take (le_dlen e) (le_draft e)) e
                 else case History_get h (le_idx e) of Some cmd \<Rightarrow> load cmd e | None \<Rightarrow> Ret e)
                (\<lambda>e. Ret (show_line e))
      else Ret e)"

text \<open>
  \<open>Waiting\<close> means that the bytes so far do not end the line; \<open>Line e rest\<close> that \<open>le_n e\<close> was
  returned and \<open>rest\<close> has not been read.
\<close>

datatype line_outcome = Waiting | LinePanic | Line line_edit bytes

fun edit_keys :: "history \<Rightarrow> line_edit \<Rightarrow> bytes \<Rightarrow> line_outcome" where
  "edit_keys h e [] = Waiting"
| "edit_keys h e (b # rest) =
     (if b = 10 \<or> b = 13 then Line (e\<lparr>le_out := le_out e @ [13, 10]\<rparr>) rest
      else if b = 0x08 \<or> b = 0x7F then edit_keys h (key_delete e) rest
      else if b = 0x1b then
        (case rest of
           [] \<Rightarrow> Waiting
         | next1 # rest1 \<Rightarrow>
             if next1 = 0x5b then
               (case rest1 of
                  [] \<Rightarrow> Waiting
                | next2 # rest2 \<Rightarrow>
                    if next2 = 0x41 then
                      (case key_up h e of Panic \<Rightarrow> LinePanic | Ret e' \<Rightarrow> edit_keys h e' rest2)
                    else if next2 = 0x42 then
                      (case key_down h e of Panic \<Rightarrow> LinePanic | Ret e' \<Rightarrow> edit_keys h e' rest2)
                    else edit_keys h e rest2)
             else edit_keys h e rest1)
      else if 0x20 \<le> b \<and> b \<le> 0x7E then edit_keys h (key_char b e) rest
      else edit_keys h e rest)"

definition read_line_with_history :: "history \<Rightarrow> bytes \<Rightarrow> bytes \<Rightarrow> line_outcome" where
  "read_line_with_history h buf input =
     edit_keys h \<lparr>le_buf = buf, le_n = 0, le_idx = 0, le_draft = replicate 128 0, le_dlen = 0, le_out = []\<rparr> input"

definition line_text :: "line_edit \<Rightarrow> bytes" where
  "line_text e = take (le_n e) (le_buf e)"

definition line_wf :: "line_edit \<Rightarrow> bool" where
  "line_wf e \<longleftrightarrow> length (le_buf e) = 128 \<and> length (le_draft e) = 128 \<and> le_n e \<le> 128 \<and> le_dlen e \<le> 128"

lemma line_wf_keys [simp]:
  "line_wf e \<Longrightarrow> line_wf (key_delete e)" "line_wf e \<Longrightarrow> line_wf (key_char b e)"
  by (auto simp: line_wf_def key_delete_def key_char_def)

lemma load_Ret:
  "line_wf e \<Longrightarrow> length cmd \<le> 128 \<Longrightarrow>
   \<exists>e'. load cmd e = Ret e' \<and> line_wf e' \<and> line_text e' = cmd \<and> le_idx e' = le_idx e \<and>
     le_draft e' = le_draft e \<and> le_dlen e' = le_dlen e"
  by (auto simp: load_def line_wf_def line_text_def)

lemma show_line_simps [simp]:
  "line_wf (show_line e) = line_wf e" "line_text (show_line e) = line_text e" "le_idx (show_line e) = le_idx e"
  "le_draft (show_line e) = le_draft e" "le_dlen (show_line e) = le_dlen e"
  by (simp_all add: show_line_def line_wf_def line_text_def)

lemma save_draft_Ret:
  "line_wf e \<Longrightarrow> \<exists>e'. save_draft e = Ret e' \<and> line_wf e' \<and> le_idx e' = le_idx e \<and>
     (le_idx e = 0 \<longrightarrow> take (le_dlen e') (le_draft e') = line_text e)"
  by (auto simp: save_draft_def line_wf_def line_text_def copy_into_def)

lemma History_get_range: "History_get h i \<noteq> None \<longleftrightarrow> 0 < i \<and> i \<le> h_count h"
  by (auto simp: History_get_def Let_def)

lemma key_up_Ret:
  assumes "line_wf e" "history_wf h"
  shows "\<exists>e'. key_up h e = Ret e' \<and> line_wf e' \<and>
    (le_idx e < h_count h \<longrightarrow> le_idx e' = le_idx e + 1 \<and> Some (line_text e') = History_get h (le_idx e + 1) \<and>
      (le_idx e = 0 \<longrightarrow> take (le_dlen e') (le_draft e') = line_text e))"
proof (cases "le_idx e < h_count h")
  case False
  then show ?thesis using assms(1) by (auto simp: key_up_def)
next
  case True
  from save_draft_Ret [OF assms(1)] obtain e1 where e1: "save_draft e = Ret e1" "line_wf e1" "le_idx e1 = le_idx e"
    "le_idx e = 0 \<longrightarrow> take (le_dlen e1) (le_draft e1) = line_text e" by (elim exE conjE) (rule that)
  let ?e2 = "e1\<lparr>le_idx := le_idx e1 + 1, le_out := le_out e1 @ erase (le_n e1)\<rparr>"
  obtain cmd where cmd: "History_get h (le_idx e + 1) = Some cmd"
    using History_get_range [of h "le_idx e + 1"] True by auto
  have "line_wf ?e2" using e1(2) by (simp add: line_wf_def)
  from load_Ret [OF this History_get_wf [OF assms(2) cmd]] obtain e3 where e3: "load cmd ?e2 = Ret e3"
    "line_wf e3" "line_text e3 = cmd" "le_idx e3 = le_idx ?e2" "le_draft e3 = le_draft ?e2" "le_dlen e3 = le_dlen ?e2" by (elim exE conjE) (rule that)
  have "key_up h e = Ret (show_line e3)"
    using True e1(1,3) cmd e3(1) by (simp add: key_up_def Let_def)
  then show ?thesis using e1 e3 cmd by simp
qed

lemma key_down_Ret:
  assumes "line_wf e" "history_wf h"
  shows "\<exists>e'. key_down h e = Ret e' \<and> line_wf e' \<and>
    (le_idx e = 1 \<longrightarrow> le_idx e' = 0 \<and> line_text e' = take (le_dlen e) (le_draft e))"
proof (cases "le_idx e > 0")
  case False
  then show ?thesis using assms(1) by (auto simp: key_down_def)
next
  case True
  let ?e1 = "e\<lparr>le_idx := le_idx e - 1, le_out := le_out e @ erase (le_n e)\<rparr>"
  have wf1: "line_wf ?e1" "length (take (le_dlen e) (le_draft e)) \<le> 128" using assms(1) by (auto simp: line_wf_def)
  show ?thesis
  proof (cases "le_idx e = 1")
    case True
    then show ?thesis using load_Ret [OF wf1] by (auto simp: key_down_def Let_def)
  next
    case False
    have "\<exists>e'. (case History_get h (le_idx e - 1) of Some cmd \<Rightarrow> load cmd ?e1 | None \<Rightarrow> Ret ?e1) = Ret e' \<and> line_wf e'"
      using load_Ret [OF wf1(1)] History_get_wf [OF assms(2)] wf1(1) by (cases "History_get h (le_idx e - 1)") fastforce+
    then obtain e' where e': "(case History_get h (le_idx e - 1) of Some cmd \<Rightarrow> load cmd ?e1 | None \<Rightarrow> Ret ?e1) = Ret e'"
      "line_wf e'" by blast
    then have "key_down h e = Ret (show_line e')"
      using True False by (simp add: key_down_def Let_def del: One_nat_def)
    then show ?thesis using False e'(2) by simp
  qed
qed

lemma edit_keys_no_panic: "line_wf e \<Longrightarrow> history_wf h \<Longrightarrow>
  (case edit_keys h e input of Waiting \<Rightarrow> True | LinePanic \<Rightarrow> False | Line e' _ \<Rightarrow> line_wf e')"
proof (induction h e input rule: edit_keys.induct)
  case (1 h e)
  then show ?case by simp
next
  case (2 h e b rest)
  note IH = 2(1-7) and wf = 2(8,9)
  have fin: "line_wf (e\<lparr>le_out := le_out e @ [13, 10]\<rparr>)" using wf(1) by (simp add: line_wf_def)
  obtain u where u: "key_up h e = Ret u" "line_wf u" using key_up_Ret [OF wf] by blast
  obtain d where d: "key_down h e = Ret d" "line_wf d" using key_down_Ret [OF wf] by blast
  show ?case
    using IH wf fin u d by (auto split: list.split)
qed

lemma edit_plain_keys:
  assumes "line_wf e" "le_idx e = 0" "\<forall>b \<in> set keys. b \<noteq> 10 \<and> b \<noteq> 13 \<and> b \<noteq> 0x1b"
  shows "\<exists>e'. line_wf e' \<and> le_idx e' = 0 \<and> line_text e' = foldl (edit 128) (line_text e) keys \<and>
    (\<forall>rest. edit_keys h e (keys @ rest) = edit_keys h e' rest)"
  using assms
proof (induction keys arbitrary: e)
  case Nil
  then show ?case by auto
next
  case (Cons b keys)
  define e1 where "e1 = (if b = 0x08 \<or> b = 0x7F then key_delete e else if 0x20 \<le> b \<and> b \<le> 0x7E then key_char b e else e)"
  have step: "edit_keys h e ((b # keys) @ rest) = edit_keys h e1 (keys @ rest)" for rest
    using Cons.prems(3) by (simp add: e1_def)
  have "line_wf e1" "le_idx e1 = 0"
    using Cons.prems(1,2) by (auto simp: e1_def key_delete_def key_char_def line_wf_def)
  moreover have "line_text e1 = edit 128 (line_text e) b"
    using Cons.prems(1)
    by (auto simp: e1_def edit_def line_text_def key_delete_def key_char_def line_wf_def butlast_take take_update_snoc)
  ultimately show ?case
    using Cons.IH [of e1] Cons.prems(3) step by auto
qed

lemma recalled_newest: "recalled h \<noteq> [] \<Longrightarrow> History_get h 1 = Some (hd (recalled h)) \<and> 0 < h_count h"
  using History_get_range [of h 1] by (auto simp: recalled_def hd_conv_nth)

text \<open>
  Line input with history. For keys without a terminator or an escape, entering them gives the
  edited text; pressing Up after them gives the most recent command of the history; pressing Up
  and then Down gives back what had been typed. The line always fits the buffer.
\<close>

theorem history_keys_recall_and_restore:
  assumes "history_wf h" "length buf = 128" "\<forall>b \<in> set keys. b \<noteq> 10 \<and> b \<noteq> 13 \<and> b \<noteq> 0x1b"
  shows "(\<exists>e. read_line_with_history h buf (keys @ 13 # rest) = Line e rest \<and> line_text e = foldl (edit 128) [] keys) \<and>
    (recalled h \<noteq> [] \<longrightarrow>
       (\<exists>e. read_line_with_history h buf (keys @ [0x1b, 0x5b, 0x41] @ 13 # rest) = Line e rest \<and>
          line_text e = hd (recalled h)) \<and>
       (\<exists>e. read_line_with_history h buf (keys @ [0x1b, 0x5b, 0x41, 0x1b, 0x5b, 0x42] @ 13 # rest) = Line e rest \<and>
          line_text e = foldl (edit 128) [] keys))"
proof -
  let ?e = "\<lparr>le_buf = buf, le_n = 0, le_idx = 0, le_draft = replicate 128 0, le_dlen = 0, le_out = []\<rparr>"
  have "line_wf ?e" "line_text ?e = []" using assms(2) by (simp_all add: line_wf_def line_text_def)
  with edit_plain_keys [of ?e keys h] assms(3)
  obtain e1 where e1: "line_wf e1" "le_idx e1 = 0" "line_text e1 = foldl (edit 128) [] keys"
    "\<And>rest. edit_keys h ?e (keys @ rest) = edit_keys h e1 rest" by auto
  obtain u where u: "key_up h e1 = Ret u" "line_wf u"
    "0 < h_count h \<longrightarrow> le_idx u = 1 \<and> Some (line_text u) = History_get h 1 \<and>
       take (le_dlen u) (le_draft u) = line_text e1"
    using key_up_Ret [OF e1(1) assms(1)] e1(2) by auto
  obtain d where d: "key_down h u = Ret d" "le_idx u = 1 \<longrightarrow> line_text d = take (le_dlen u) (le_draft u)"
    using key_down_Ret [OF u(2) assms(1)] by auto
  have out: "line_text (e\<lparr>le_out := x\<rparr>) = line_text e" for e x by (simp add: line_text_def)
  have plain: "\<exists>e. read_line_with_history h buf (keys @ 13 # rest) = Line e rest \<and> line_text e = foldl (edit 128) [] keys"
    by (simp add: read_line_with_history_def e1(3,4) out)
  have up: "\<exists>e. read_line_with_history h buf (keys @ [0x1b, 0x5b, 0x41] @ 13 # rest) = Line e rest \<and>
      line_text e = hd (recalled h)" if "recalled h \<noteq> []"
    unfolding read_line_with_history_def e1(4) using u(1,3) recalled_newest [OF that] by (simp add: out)
  have down: "\<exists>e. read_line_with_history h buf (keys @ [0x1b, 0x5b, 0x41, 0x1b, 0x5b, 0x42] @ 13 # rest) = Line e rest \<and>
      line_text e = foldl (edit 128) [] keys" if "recalled h \<noteq> []"
    unfolding read_line_with_history_def e1(4)
    using u(1,3) d recalled_newest [OF that] e1(3) by (simp add: out)
  show ?thesis using plain up down by blast
qed

theorem history_keys_recall_and_restore_witness:
  "\<exists>e. read_line_with_history (History_push [0x6C, 0x73] History_new) (replicate 128 0)
      ([0x61] @ [0x1b, 0x5b, 0x41] @ 13 # []) = Line e [] \<and> line_text e = [0x6C, 0x73]"
  using history_keys_recall_and_restore [OF history_wf_push [OF history_wf_new], of "replicate 128 0" "[0x61]" "[0x6C, 0x73]" "[]"]
    History_push_fresh [OF history_wf_new, of "[0x6C, 0x73]"]
  by (simp add: recalled_new History_new_def)

text \<open>
  Line input never panics. Whatever bytes arrive, with the shell's 128-byte buffer no copy
  from or to the history or the draft is out of range.
\<close>

theorem history_input_never_panics:
  assumes "history_wf h" "length buf = 128"
  shows "read_line_with_history h buf input \<noteq> LinePanic"
  using edit_keys_no_panic [of "\<lparr>le_buf = buf, le_n = 0, le_idx = 0, le_draft = replicate 128 0, le_dlen = 0, le_out = []\<rparr>" h input] assms
  by (auto simp: read_line_with_history_def line_wf_def)

theorem history_input_never_panics_witness:
  "read_line_with_history History_new (replicate 128 0) [0x1b, 0x5b, 0x41] \<noteq> LinePanic"
  using history_input_never_panics [OF history_wf_new, of "replicate 128 0" "[0x1b, 0x5b, 0x41]"] by simp

subsection \<open>Tokens\<close>

definition is_space :: "u8 \<Rightarrow> bool" where
  "is_space b \<longleftrightarrow> b = 0x20"

lemma is_space_space [simp]: "is_space 0x20"
  by (simp add: is_space_def)

text \<open>
  The main loop of \<open>tokenize\<close>: at most \<open>k\<close> more words, each followed by skipping the spaces
  after it; the second component is the rest of the line.
\<close>

fun token_loop :: "nat \<Rightarrow> bytes \<Rightarrow> bytes list \<times> bytes" where
  "token_loop 0 l = ([], l)"
| "token_loop (Suc k) l =
     (if l = [] then ([], [])
      else case token_loop k (dropWhile is_space (dropWhile (\<lambda>b. \<not> is_space b) l)) of
             (ws, r) \<Rightarrow> (takeWhile (\<lambda>b. \<not> is_space b) l # ws, r))"

definition strip_end :: "bytes \<Rightarrow> bytes" where
  "strip_end l = rev (dropWhile is_space (rev l))"

definition tokenize :: "bytes \<Rightarrow> bytes option list \<Rightarrow> nat \<times> bytes option list" where
  "tokenize line tokens =
     (let (ws, rest) = token_loop 3 (dropWhile is_space line);
          tokens = copy_into tokens 0 (map Some ws);
          last_tok = strip_end rest
      in if rest \<noteq> [] \<and> last_tok \<noteq> [] then (length ws + 1, tokens[3 := Some last_tok])
         else (length ws, tokens))"

text \<open>A word: not empty, no space in it. The text after the third word may hold spaces inside.\<close>

definition word_ok :: "bytes \<Rightarrow> bool" where
  "word_ok w \<longleftrightarrow> w \<noteq> [] \<and> (\<forall>b \<in> set w. \<not> is_space b)"

definition tail_ok :: "bytes \<Rightarrow> bool" where
  "tail_ok t \<longleftrightarrow> t \<noteq> [] \<and> \<not> is_space (hd t) \<and> \<not> is_space (last t)"

fun join :: "bytes list \<Rightarrow> bytes" where
  "join [] = []"
| "join [w] = w"
| "join (w # v # ws) = w @ 0x20 # join (v # ws)"

lemma word_tail_ok: "word_ok w \<Longrightarrow> tail_ok w"
  by (auto simp: word_ok_def tail_ok_def)

lemma takeWhile_word: "word_ok w \<Longrightarrow> takeWhile (\<lambda>b. \<not> is_space b) (w @ 0x20 # r) = w"
  by (auto simp: word_ok_def is_space_def takeWhile_append)

lemma dropWhile_word: "word_ok w \<Longrightarrow> dropWhile (\<lambda>b. \<not> is_space b) (w @ 0x20 # r) = 0x20 # r"
  by (auto simp: word_ok_def is_space_def dropWhile_append)

lemma dropWhile_tail: "tail_ok t \<Longrightarrow> dropWhile is_space t = t"
  by (cases t) (auto simp: tail_ok_def)

lemma join_tail_ok: "(\<forall>w \<in> set ws. tail_ok w) \<Longrightarrow> ws \<noteq> [] \<Longrightarrow> tail_ok (join ws)"
  by (induction ws rule: join.induct) (auto simp: tail_ok_def hd_append)

lemma strip_end_tail: "tail_ok t \<Longrightarrow> strip_end t = t"
proof -
  assume "tail_ok t"
  then have "tail_ok (rev t)" by (auto simp: tail_ok_def hd_rev last_rev)
  then show ?thesis by (simp add: strip_end_def dropWhile_tail)
qed

lemma token_loop_join:
  "(\<forall>w \<in> set ws. word_ok w) \<Longrightarrow> length ws \<le> k \<Longrightarrow> token_loop k (join ws) = (ws, [])"
proof (induction ws arbitrary: k rule: join.induct)
  case 1
  then show ?case by (cases k) auto
next
  case (2 w)
  then obtain j where k: "k = Suc j" by (cases k) auto
  have "takeWhile (\<lambda>b. \<not> is_space b) w = w" "dropWhile (\<lambda>b. \<not> is_space b) w = []" "w \<noteq> []"
    using 2 by (auto simp: word_ok_def)
  then show ?case by (cases j) (simp_all add: k del: dropWhile_eq_Nil_conv takeWhile_eq_all_conv)
next
  case (3 w v ws)
  then obtain j where k: "k = Suc j" by (cases k) auto
  have "tail_ok (join (v # ws))" using 3 word_tail_ok by (intro join_tail_ok) auto
  then have "dropWhile is_space (0x20 # join (v # ws)) = join (v # ws)" by (simp add: dropWhile_tail)
  then show ?case
    using 3 by (simp add: k takeWhile_word dropWhile_word)
qed

lemma token_loop_join_tail:
  "(\<forall>w \<in> set ws. word_ok w) \<Longrightarrow> tail_ok t \<Longrightarrow> token_loop (length ws) (join (ws @ [t])) = (ws, t)"
proof (induction ws)
  case Nil
  then show ?case by simp
next
  case (Cons w ws)
  have j: "join ((w # ws) @ [t]) = w @ 0x20 # join (ws @ [t])" by (cases ws) simp_all
  have "tail_ok (join (ws @ [t]))" using Cons.prems word_tail_ok by (intro join_tail_ok) auto
  then have "dropWhile is_space (0x20 # join (ws @ [t])) = join (ws @ [t])"
    by (simp add: dropWhile_tail)
  then show ?case using Cons unfolding j by (simp add: takeWhile_word dropWhile_word)
qed

text \<open>
  Splitting a command line. Up to three words written with single spaces between them come back
  as the first tokens, the others stay empty; with a further text after three words that text, its
  inner spaces included, is the fourth token.
\<close>

theorem tokenize_splits:
  assumes "\<forall>w \<in> set ws. word_ok w" "length ws \<le> 3"
  shows "tokenize (join ws) [None, None, None, None] = (length ws, map Some ws @ replicate (4 - length ws) None) \<and>
    (length ws = 3 \<and> tail_ok t \<longrightarrow>
      tokenize (join (ws @ [t])) [None, None, None, None] = (4, map Some ws @ [Some t]))"
proof -
  have four: "[None, None, None, None] = replicate 4 None" by (simp add: numeral_eq_Suc)
  have skip: "dropWhile is_space (join us) = join us" if "\<forall>w \<in> set us. tail_ok w" for us
    using join_tail_ok [OF that] by (cases "us = []") (auto simp: dropWhile_tail)
  have "tokenize (join ws) (replicate 4 None) = (length ws, map Some ws @ replicate (4 - length ws) None)"
    using skip [of ws] assms(1) word_tail_ok token_loop_join [OF assms]
    by (auto simp: tokenize_def copy_into_def)
  moreover have "tokenize (join (ws @ [t])) (replicate 4 None) = (4, map Some ws @ [Some t])"
    if "length ws = 3" "tail_ok t"
    using skip [of "ws @ [t]"] assms(1) word_tail_ok token_loop_join_tail [OF assms(1) that(2)] that
    by (auto simp: tokenize_def copy_into_def strip_end_tail list_update_append numeral_eq_Suc tail_ok_def)
  ultimately show ?thesis unfolding four by blast
qed

theorem tokenize_splits_witness:
  "tokenize (join [[0x66, 0x73], [0x77], [0x2F, 0x61], [0x68, 0x20, 0x69]]) [None, None, None, None] =
     (4, [Some [0x66, 0x73], Some [0x77], Some [0x2F, 0x61], Some [0x68, 0x20, 0x69]])"
  using tokenize_splits [of "[[0x66, 0x73], [0x77], [0x2F, 0x61]]" "[0x68, 0x20, 0x69]"]
  by (simp add: word_ok_def tail_ok_def is_space_def)

subsection \<open>Numbers\<close>

definition is_digit :: "u8 \<Rightarrow> bool" where
  "is_digit b \<longleftrightarrow> 0x30 \<le> b \<and> b \<le> 0x39"

definition checked :: "nat \<Rightarrow> nat option" where
  "checked v = (if v \<le> usize_MAX then Some v else None)"

fun parse_loop :: "nat \<Rightarrow> bytes \<Rightarrow> nat option" where
  "parse_loop val [] = Some val"
| "parse_loop val (b # bs) =
     (if \<not> is_digit b then None
      else case Option.bind (checked (val * 10)) (\<lambda>v. checked (v + unat (b - 0x30))) of
             Some new_val \<Rightarrow> parse_loop new_val bs
           | None \<Rightarrow> None)"

definition parse_usize :: "bytes \<Rightarrow> nat option" where
  "parse_usize tok = (if tok = [] then None else parse_loop 0 tok)"

definition digits_val :: "bytes \<Rightarrow> nat" where
  "digits_val bs = foldl (\<lambda>v b. v * 10 + unat (b - 0x30)) 0 bs"

lemma foldl_digits_mono: "v \<le> foldl (\<lambda>v b. v * 10 + unat (b - 0x30 :: u8)) v bs"
proof (induction bs arbitrary: v)
  case Nil
  then show ?case by simp
next
  case (Cons b bs)
  have "v \<le> v * 10 + unat (b - 0x30)" by simp
  also have "\<dots> \<le> foldl (\<lambda>v b. v * 10 + unat (b - 0x30)) (v * 10 + unat (b - 0x30)) bs" by (rule Cons)
  finally show ?case by simp
qed

lemma parse_loop_value:
  "v \<le> usize_MAX \<Longrightarrow> parse_loop v bs =
    (if (\<forall>b \<in> set bs. is_digit b) \<and> foldl (\<lambda>v b. v * 10 + unat (b - 0x30)) v bs \<le> usize_MAX
     then Some (foldl (\<lambda>v b. v * 10 + unat (b - 0x30)) v bs) else None)"
proof (induction bs arbitrary: v)
  case Nil
  then show ?case by simp
next
  case (Cons b bs)
  let ?v = "v * 10 + unat (b - 0x30)"
  show ?case
  proof (cases "?v \<le> usize_MAX")
    case True
    then have "v * 10 \<le> usize_MAX" by simp
    then show ?thesis using True Cons.IH [OF True] by (simp add: checked_def)
  next
    case False
    then have "\<not> foldl (\<lambda>v b. v * 10 + unat (b - 0x30)) ?v bs \<le> usize_MAX"
      using foldl_digits_mono [of ?v bs] by linarith
    then show ?thesis using False by (simp add: checked_def)
  qed
qed

text \<open>
  Reading a number. A token is read as the number its decimal digits denote, and it is refused
  exactly when it is empty, has another character, or denotes a number that does not fit 64 bits.
\<close>

theorem parse_usize_is_decimal:
  "parse_usize tok =
     (if tok \<noteq> [] \<and> (\<forall>b \<in> set tok. 0x30 \<le> b \<and> b \<le> 0x39) \<and> digits_val tok < 2 ^ 64
      then Some (digits_val tok) else None)"
  using parse_loop_value [of 0 tok]
  by (auto simp: parse_usize_def digits_val_def is_digit_def usize_MAX_def)

theorem parse_usize_is_decimal_witness:
  "parse_usize [0x34, 0x32] = Some 42 \<and> parse_usize [0x34, 0x78] = None"
  using parse_usize_is_decimal [of "[0x34, 0x32]"] parse_usize_is_decimal [of "[0x34, 0x78]"]
  by (simp add: digits_val_def)

end
