(* ===== verification/Shell_Client.thy ===== *)
theory Shell_Client
  imports FS_Service Device_Service Sync_Service KV_Service Log_Service Shell_Input
begin

text \<open>
  The shell as a client of the services, \<open>shell/mod.rs\<close>: the capabilities it starts with, how it builds its requests,
  and how it reads the answers.  A request is a send and a receive; what lies between them is the service's turn,
  modelled with the service.
\<close>

subsection \<open>The shell task\<close>

definition root_cap :: "resource \<Rightarrow> bool \<Rightarrow> bool \<Rightarrow> bool \<Rightarrow> capability" where
  "root_cap res r w g = \<lparr>cap_resource = res, cap_read = r, cap_write = w, cap_grant = g, cap_sealed = False, cap_id = 0,
     cap_origin = None\<rparr>"

text \<open>\<open>let _ = caps.insert(..)\<close>\<close>

definition put_cap :: "capability \<Rightarrow> cap_table \<times> kernel \<Rightarrow> cap_table \<times> kernel" where
  "put_cap c s = (case CapTable_insert c (fst s) (snd s) of (_, caps, k) \<Rightarrow> (caps, k))"

definition swap_1_2 :: "cap_table \<times> kernel \<Rightarrow> cap_table \<times> kernel" where
  "swap_1_2 s =
     (let caps = fst s; tmp = slots caps ! 1
      in (caps\<lparr>slots := (slots caps)[1 := slots caps ! 2, 2 := tmp]\<rparr>, snd s))"

definition root_caps :: "kernel \<Rightarrow> cap_table \<times> kernel" where
  "root_caps k =
     (let s = (CapTable_new, k);
          s = put_cap (root_cap Serial False True True) s;
          s = put_cap (root_cap (Service 1) True True False) s;
          s = put_cap (root_cap (IpcChannel 65) True True True) s;
          s = swap_1_2 s;
          s = put_cap (root_cap (KVEntry 0 True True) True True True) s;
          s = put_cap (root_cap (KVEntry 1 True False) True False True) s;
          s = put_cap (root_cap (KVEntry 2 False True) False True True) s;
          s = put_cap (root_cap (IpcChannel 82) True True True) s;
          s = put_cap (root_cap (LogChannel 0 True True) True True True) s;
          s = put_cap (root_cap (LogChannel 1 True False) True False True) s;
          s = put_cap (root_cap (IpcChannel 83) True True True) s;
          s = put_cap (root_cap (FsNode 0 True True) True True True) s;
          s = put_cap (root_cap (IpcChannel 84) True True True) s;
          s = put_cap (root_cap (Device 0 True True) True True True) s;
          s = put_cap (root_cap (Device 1 True True) True True True) s;
          s = put_cap (root_cap (IpcChannel 85) True True True) s;
          s = put_cap (root_cap (IpcChannel 86) True True True) s
      in s)"

definition shell_load :: "u64 \<Rightarrow> kernel \<Rightarrow> kernel run" where
  "shell_load shell_main k =
     (case root_caps k of
        (caps, k) \<Rightarrow> run_bind (Task_new 64 shell_main caps k) (\<lambda>(t, k). Ret (set_slot 64 (Some t) k)))"

definition get_shell_caps :: "kernel \<Rightarrow> capability option list run" where
  "get_shell_caps k = (case get_task k 64 of Some t \<Rightarrow> Ret (slots (t_caps t)) | None \<Rightarrow> Panic)"

subsection \<open>What the shell holds at the start\<close>

text \<open>The resources of the sixteen capabilities, in the order of the slots.\<close>

definition root_resources :: "(resource \<times> bool \<times> bool \<times> bool) list" where
  "root_resources =
     [(Serial, False, True, True), (IpcChannel 65, True, True, True), (Service 1, True, True, False),
      (KVEntry 0 True True, True, True, True), (KVEntry 1 True False, True, False, True),
      (KVEntry 2 False True, False, True, True), (IpcChannel 82, True, True, True),
      (LogChannel 0 True True, True, True, True), (LogChannel 1 True False, True, False, True),
      (IpcChannel 83, True, True, True), (FsNode 0 True True, True, True, True), (IpcChannel 84, True, True, True),
      (Device 0 True True, True, True, True), (Device 1 True True, True, True, True), (IpcChannel 85, True, True, True),
      (IpcChannel 86, True, True, True)]"

definition cap_facts :: "capability \<Rightarrow> resource \<times> bool \<times> bool \<times> bool" where
  "cap_facts c = (cap_resource c, cap_read c, cap_write c, cap_grant c)"

lemma put_cap_appends:
  assumes "length cs < MAX_CAPS"
  shows "put_cap c (table_with cs, k) = (table_with (cs @ [c\<lparr>cap_id := next_cap_id_ctr k\<rparr>]),
    log_trace ''cap_insert'' (next_cap_id_ctr k) (of_nat (length cs)) (k\<lparr>next_cap_id_ctr := next_cap_id_ctr k + 1\<rparr>))"
proof -
  have "(map Some cs @ replicate (MAX_CAPS - length cs) None)[length cs := x] = map Some cs @ x # replicate (MAX_CAPS - Suc (length cs)) None" for x
    using assms by (cases "MAX_CAPS - length cs") (auto simp: list_update_append)
  then show ?thesis
    using first_free_table_with [OF assms] assms
    by (simp add: put_cap_def CapTable_insert_def next_cap_id_def Let_def table_with_def)
qed

lemma swap_table_with:
  "swap_1_2 (table_with (a # b # c # cs), k) = (table_with (a # c # b # cs), k)"
  by (simp add: swap_1_2_def table_with_def)

lemma CapTable_new_with: "CapTable_new = table_with []"
  by (simp add: CapTable_new_def table_with_def)

lemma log_trace_ctr [simp]: "next_cap_id_ctr (log_trace m a b k) = next_cap_id_ctr k"
  by (simp add: log_trace_def)

primrec stamp :: "u64 \<Rightarrow> capability list \<Rightarrow> capability list" where
  "stamp n [] = []"
| "stamp n (c # cs) = c\<lparr>cap_id := n\<rparr> # stamp (n + 1) cs"

lemma length_stamp [simp]: "length (stamp n cs) = length cs"
  by (induction cs arbitrary: n) simp_all

text \<open>Only the counter of identities and the trace have moved.\<close>

definition numbered :: "kernel \<Rightarrow> kernel \<Rightarrow> bool" where
  "numbered k k' \<longleftrightarrow> (\<exists>n tr. k' = k\<lparr>next_cap_id_ctr := n, trace := tr\<rparr>)"

lemma numbered_refl [simp]: "numbered k k"
  unfolding numbered_def by (rule exI [of _ "next_cap_id_ctr k"], rule exI [of _ "trace k"]) simp

lemma numbered_trans: "numbered a b \<Longrightarrow> numbered b c \<Longrightarrow> numbered a c"
  unfolding numbered_def by fastforce

lemma numbered_log [simp]: "numbered k (log_trace m a b (k\<lparr>next_cap_id_ctr := n\<rparr>))"
  unfolding numbered_def log_trace_def
  by (rule exI [of _ n], rule exI [of _ "trace (log_trace m a b (k\<lparr>next_cap_id_ctr := n\<rparr>))"]) (simp add: log_trace_def)

lemma numbered_frame:
  assumes "numbered k k'"
  shows "tasks k' = tasks k" "get_task k' i = get_task k i" "current_task_id k' = current_task_id k" "kernel_wf k' = kernel_wf k"
    "audit k' = audit k" "preempt k' = preempt k" "mach k' = mach k" "k_layout k' = k_layout k"
  using assms by (auto simp: numbered_def get_task_def kernel_wf_def)

lemma fold_put_cap:
  assumes "length ds + length cs \<le> MAX_CAPS"
  shows "\<exists>k'. fold put_cap cs (table_with ds, k) = (table_with (ds @ stamp (next_cap_id_ctr k) cs), k') \<and>
    next_cap_id_ctr k' = next_cap_id_ctr k + of_nat (length cs) \<and>
    numbered k k'"
  using assms
proof (induction cs arbitrary: ds k)
  case Nil
  then show ?case by simp
next
  case (Cons c cs)
  let ?k = "log_trace ''cap_insert'' (next_cap_id_ctr k) (of_nat (length ds)) (k\<lparr>next_cap_id_ctr := next_cap_id_ctr k + 1\<rparr>)"
  have p: "put_cap c (table_with ds, k) = (table_with (ds @ [c\<lparr>cap_id := next_cap_id_ctr k\<rparr>]), ?k)"
    using Cons.prems by (intro put_cap_appends) simp
  obtain k' where k': "fold put_cap cs (table_with (ds @ [c\<lparr>cap_id := next_cap_id_ctr k\<rparr>]), ?k)
      = (table_with ((ds @ [c\<lparr>cap_id := next_cap_id_ctr k\<rparr>]) @ stamp (next_cap_id_ctr ?k) cs), k')"
    "next_cap_id_ctr k' = next_cap_id_ctr ?k + of_nat (length cs)"
    "numbered ?k k'"
    using Cons.IH [of "ds @ [c\<lparr>cap_id := next_cap_id_ctr k\<rparr>]" ?k] Cons.prems by auto
  have "numbered k k'" by (rule numbered_trans [OF numbered_log k'(3)])
  then show ?case using p k'(1,2) by (simp add: add.assoc)
qed

lemma root_caps_fold:
  "root_caps k =
     fold put_cap (map (\<lambda>(res, r, w, g). root_cap res r w g) (drop 3 root_resources))
       (swap_1_2 (fold put_cap [root_cap Serial False True True, root_cap (Service 1) True True False, root_cap (IpcChannel 65) True True True]
         (CapTable_new, k)))"
  by (simp add: root_caps_def root_resources_def Let_def)

text \<open>
  The shell's table after \<open>root_caps\<close>: exactly these sixteen capabilities, unsealed, each with an identity of its own
  drawn from the counter and without a parent.
\<close>

lemma root_caps_eq:
  obtains cs k' where "root_caps k = (table_with cs, k')" "map cap_facts cs = root_resources"
    "map cap_id cs = map (\<lambda>i. next_cap_id_ctr k + of_nat i) ([0, 2, 1] @ [3..<16])"
    "\<forall>c \<in> set cs. \<not> cap_sealed c \<and> cap_origin c = None"
    "next_cap_id_ctr k' = next_cap_id_ctr k + 16" "numbered k k'"
proof -
  let ?h = "[root_cap Serial False True True, root_cap (Service 1) True True False, root_cap (IpcChannel 65) True True True]"
  let ?t = "map (\<lambda>(res, r, w, g). root_cap res r w g) (drop 3 root_resources)"
  have m: "(32 :: nat) = MAX_CAPS" by (simp add: MAX_CAPS_def)
  obtain k1 where h: "fold put_cap ?h (CapTable_new, k) = (table_with (stamp (next_cap_id_ctr k) ?h), k1)"
      "next_cap_id_ctr k1 = next_cap_id_ctr k + 3" "numbered k k1"
    using fold_put_cap [of "[]" ?h k] by (auto simp: CapTable_new_with MAX_CAPS_def)
  let ?s = "(\<lambda>cs. [cs ! 0, cs ! 2, cs ! 1]) (stamp (next_cap_id_ctr k) ?h)"
  have sw: "swap_1_2 (table_with (stamp (next_cap_id_ctr k) ?h), k1) = (table_with ?s, k1)"
    by (simp add: swap_table_with)
  have len: "length ?s + length ?t \<le> MAX_CAPS" "length ?t = 13" by (simp_all add: MAX_CAPS_def root_resources_def)
  obtain k2 where t: "fold put_cap ?t (table_with ?s, k1) = (table_with (?s @ stamp (next_cap_id_ctr k1) ?t), k2)"
      "next_cap_id_ctr k2 = next_cap_id_ctr k1 + of_nat (length ?t)" "numbered k1 k2"
    using fold_put_cap [OF len(1), of k1] by blast
  have r: "root_caps k = (table_with (?s @ stamp (next_cap_id_ctr k1) ?t), k2)"
    unfolding root_caps_fold h(1) sw t(1) ..
  show ?thesis
    by (rule that [OF r _ _ _ _ numbered_trans [OF h(3) t(3)]])
      (simp_all add: h(2) t(2) len(2) root_resources_def cap_facts_def root_cap_def upt_rec_numeral)
qed

subsection \<open>Calls to a service\<close>

text \<open>
  A call sends a request and receives the answer.  Its states are the two points where it can give up the processor,
  and its result.
\<close>

datatype client_call = InSend nat bytes | InReceive | Returned "ipc_error + bytes"

definition channel_to :: "task_id \<Rightarrow> capability option list \<Rightarrow> nat option" where
  "channel_to target = first_index (\<lambda>s. case s of Some cap \<Rightarrow> cap_resource cap = IpcChannel target | None \<Rightarrow> False)"

text \<open>The filesystem, device and synchronisation calls check the tag of the answer; the others do not.\<close>

definition accept_reply :: "ipc_tag option \<Rightarrow> ipc_error + message \<Rightarrow> ipc_error + bytes" where
  "accept_reply expected r =
     (case r of
        Inl e \<Rightarrow> Inl e
      | Inr reply \<Rightarrow>
          (case expected of
             Some tag \<Rightarrow> if msg_tag reply \<noteq> tag then Inl InvalidTag else Inr (msg_payload reply)
           | None \<Rightarrow> Inr (msg_payload reply)))"

definition after_receive :: "ipc_tag option \<Rightarrow> message progress \<times> kernel \<Rightarrow> client_call \<times> kernel" where
  "after_receive tag r =
     (case r of (Parked, k) \<Rightarrow> (InReceive, k) | (Done x, k) \<Rightarrow> (Returned (accept_reply tag x), k))"

definition after_send :: "nat \<Rightarrow> bytes \<Rightarrow> ipc_tag option \<Rightarrow> unit progress \<times> kernel \<Rightarrow> client_call \<times> kernel" where
  "after_send idx payload tag r =
     (case r of
        (Parked, k) \<Rightarrow> (InSend idx payload, k)
      | (Done (Inl e), k) \<Rightarrow> (Returned (Inl e), k)
      | (Done (Inr _), k) \<Rightarrow> after_receive tag (sys_receive_typed k))"

definition client_request :: "task_id \<Rightarrow> u64 \<Rightarrow> ipc_tag \<Rightarrow> ipc_tag option \<Rightarrow> bytes \<Rightarrow> kernel \<Rightarrow> (client_call \<times> kernel) run" where
  "client_request svc entry tag reply_tag payload k =
     run_bind (ensure_service svc entry k) (\<lambda>k.
       run_bind (get_shell_caps k) (\<lambda>caps.
         Ret (case channel_to svc caps of
                None \<Rightarrow> (Returned (Inl NoCapability), k)
              | Some idx \<Rightarrow> after_send idx payload reply_tag (sys_send_typed idx (tag_to_u16 tag) 1 payload k))))"

text \<open>What follows when the shell is scheduled again.\<close>

definition client_resume :: "ipc_tag \<Rightarrow> u16 \<Rightarrow> ipc_tag option \<Rightarrow> client_call \<Rightarrow> kernel \<Rightarrow> client_call \<times> kernel" where
  "client_resume tag ver reply_tag call k =
     (case call of
        InSend idx payload \<Rightarrow>
          (case send_resume 64 k of
             Parked \<Rightarrow> after_send idx payload reply_tag (send_iter 64 idx (make_message 64 tag ver payload) k)
           | p \<Rightarrow> after_send idx payload reply_tag (p, k))
      | InReceive \<Rightarrow> after_receive reply_tag (receive_iter 64 k)
      | Returned r \<Rightarrow> (Returned r, k))"

definition fs_payload :: "u8 \<Rightarrow> u8 \<Rightarrow> bytes \<Rightarrow> bytes \<Rightarrow> bytes" where
  "fs_payload opc mount path data =
     (let payload = (replicate 128 0)[0 := opc, 1 := mount];
          name_len = min (length path) 30;
          payload = copy_into (payload[2 := of_nat name_len]) 3 (take name_len path);
          data_len = min (length data) 94
      in copy_into (payload[33 := of_nat data_len]) 34 (take data_len data))"

definition send_fs_msg :: "u64 \<Rightarrow> u8 \<Rightarrow> u8 \<Rightarrow> bytes \<Rightarrow> bytes \<Rightarrow> kernel \<Rightarrow> (client_call \<times> kernel) run" where
  "send_fs_msg entry opc mount path data = client_request 84 entry FsOp (Some FsReply) (fs_payload opc mount path data)"

definition dev_payload :: "u8 \<Rightarrow> u8 \<Rightarrow> bytes \<Rightarrow> bytes" where
  "dev_payload opc dev data =
     (let write_len = min (length data) 120
      in copy_into ((replicate 128 0)[0 := opc, 1 := dev, 2 := of_nat write_len]) 3 (take write_len data))"

definition send_dev_msg :: "u64 \<Rightarrow> u8 \<Rightarrow> u8 \<Rightarrow> bytes \<Rightarrow> kernel \<Rightarrow> (client_call \<times> kernel) run" where
  "send_dev_msg entry opc dev data = client_request 85 entry DevOp (Some DevReply) (dev_payload opc dev data)"

definition sync_payload :: "u8 \<Rightarrow> u8 \<Rightarrow> u8 \<Rightarrow> u8 \<Rightarrow> bytes" where
  "sync_payload opc obj is_mutex cnt = (replicate 128 0)[0 := opc, 1 := obj, 2 := is_mutex, 3 := cnt]"

definition send_sync_msg :: "u64 \<Rightarrow> u8 \<Rightarrow> u8 \<Rightarrow> u8 \<Rightarrow> u8 \<Rightarrow> kernel \<Rightarrow> (client_call \<times> kernel) run" where
  "send_sync_msg entry opc obj is_mutex cnt = client_request 86 entry SyncOp (Some SyncReply) (sync_payload opc obj is_mutex cnt)"

subsection \<open>The encoding is the one the services decode\<close>

lemma length_fs_payload [simp]: "length (fs_payload opc mount path data) = 128"
  by (simp add: fs_payload_def Let_def)

lemma fs_payload_nth:
  assumes "length path \<le> 30" "length data \<le> 94"
  shows "fs_payload opc mount path data ! 0 = opc" "fs_payload opc mount path data ! 1 = mount"
    "fs_payload opc mount path data ! 2 = of_nat (length path)" "fs_payload opc mount path data ! 33 = of_nat (length data)"
    "slice 3 (3 + length path) (fs_payload opc mount path data) = path"
    "slice 34 (34 + length data) (fs_payload opc mount path data) = data"
proof -
  show "slice 3 (3 + length path) (fs_payload opc mount path data) = path"
    using assms by (intro nth_equalityI) (auto simp: slice_def fs_payload_def Let_def nth_copy_into nth_list_update)
  show "slice 34 (34 + length data) (fs_payload opc mount path data) = data"
    using assms by (intro nth_equalityI) (auto simp: slice_def fs_payload_def Let_def nth_copy_into nth_list_update)
qed (use assms in \<open>simp_all add: fs_payload_def Let_def nth_copy_into\<close>)

lemma fs_payload_decodes:
  fixes path data :: bytes and opc mount :: u8 and t :: task_id
  defines "m \<equiv> make_message t FsOp 1 (fs_payload opc mount path data)"
  assumes "length path \<le> 30" "length data \<le> 94"
  shows "message_wf m" "fs_wellformed m" "fs_key_of m = (mount, path)" "msg_payload m ! 0 = opc" "msg_sender m = t"
    "write_data m = Some data"
proof -
  let ?p = "fs_payload opc mount path data"
  have p: "msg_payload m = ?p" "msg_len m = 128" "msg_tag m = FsOp" "msg_sender m = t"
    by (simp_all add: m_def make_message_def PAYLOAD_MAX_def copy_into_def)
  have u: "unat (of_nat (length path) :: u8) = length path" "unat (of_nat (length data) :: u8) = length data"
    using assms(2,3) by (simp_all add: unat_of_nat)
  note n = fs_payload_nth [OF assms(2,3), of opc mount]
  show "message_wf m" by (simp add: message_wf_def p PAYLOAD_MAX_def)
  show "fs_wellformed m" using assms(2,3) u n(3) by (simp add: fs_wellformed_def p)
  show "fs_key_of m = (mount, path)" using u n by (simp add: fs_key_of_def p)
  show "msg_payload m ! 0 = opc" "msg_sender m = t" using n by (simp_all add: p)
  show "write_data m = Some data" using assms(2,3) u n by (simp add: write_data_def p Let_def)
qed

subsection \<open>A call and its answer\<close>

text \<open>
  The shell is about to call a service that waits for requests: it holds a channel to it, has no message of its own
  pending, and nobody is blocked sending to it.
\<close>

definition client_ready :: "task_id \<Rightarrow> nat \<Rightarrow> kernel \<Rightarrow> bool" where
  "client_ready svc idx k \<longleftrightarrow> kernel_wf k \<and> svc \<noteq> 64 \<and> current_task_id k = Some 64 \<and>
     (\<exists>t. get_task k 64 = Some t \<and> t_ipc_buffer t = None \<and> queue_contents (t_msg_queue t) = [] \<and>
        channel_to svc (slots (t_caps t)) = Some idx) \<and>
     (\<exists>t. get_task k svc = Some t \<and> t_state t = BlockedOnReceive \<and> queue_contents (t_msg_queue t) = []) \<and>
     find_sender k 64 = None"

text \<open>
  Task \<open>me\<close> has the processor again: whatever happened in between, its record and that of \<open>other\<close> are those it left,
  but for stack pointers and its own state.
\<close>

definition resumes :: "task_id \<Rightarrow> task_id \<Rightarrow> kernel \<Rightarrow> kernel \<Rightarrow> bool" where
  "resumes me other k k' \<longleftrightarrow> kernel_wf k' \<and> current_task_id k' = Some me \<and>
     rel_option same_task (get_task k me) (get_task k' me) \<and> rel_option same_task (get_task k other) (get_task k' other) \<and>
     map_option t_state (get_task k' other) = map_option t_state (get_task k other)"

text \<open>A service parked in its receive, when it has the processor again.\<close>

definition service_resume ::
  "task_id \<Rightarrow> nat \<Rightarrow> ipc_tag \<Rightarrow> (message \<Rightarrow> 's \<Rightarrow> kernel \<Rightarrow> (bytes \<times> 's \<times> kernel) run) \<Rightarrow>
   's \<Rightarrow> kernel \<Rightarrow> (service_outcome \<times> 's \<times> kernel) run" where
  "service_resume svc base tag handler s k =
     (case receive_iter svc k of
        (Parked, k) \<Rightarrow> Ret (Awaiting, s, k)
      | (Done (Inl _), k) \<Rightarrow> Ret (Yielded, s, yield_cpu k)
      | (Done (Inr msg), k) \<Rightarrow>
          run_bind (service_turn svc base tag handler msg s k) (\<lambda>(p, s, k). Ret (Replied p, s, k)))"

text \<open>
  A complete exchange, from the call to its return: the call parks the shell in its receive; whenever the service has
  the processor next it answers; whenever the shell has it next the call returns, and \<open>Q\<close> holds of the result.
\<close>

definition exchange ::
  "task_id \<Rightarrow> nat \<Rightarrow> ipc_tag \<Rightarrow> ipc_tag \<Rightarrow> ipc_tag option \<Rightarrow> (message \<Rightarrow> 's \<Rightarrow> kernel \<Rightarrow> (bytes \<times> 's \<times> kernel) run) \<Rightarrow>
   (client_call \<times> kernel) run \<Rightarrow> 's \<Rightarrow> (ipc_error + bytes \<Rightarrow> 's \<Rightarrow> kernel \<Rightarrow> bool) \<Rightarrow> bool" where
  "exchange svc base tag stag rtag handler call s Q \<longleftrightarrow>
     (\<exists>k1. call = Ret (InReceive, k1) \<and>
       (\<forall>k2. resumes svc 64 k1 k2 \<longrightarrow>
         (\<exists>s' k3. service_resume svc base stag handler s k2 = Ret (Replied (Done (Inr ())), s', k3) \<and>
           (\<forall>k4. resumes 64 svc k3 k4 \<longrightarrow>
             (\<exists>r k5. client_resume tag 1 rtag InReceive k4 = (Returned r, k5) \<and> Q r s' k5)))))"

lemma exchange_mono:
  assumes "exchange svc base tag stag rtag handler call s Q" and "\<And>r s' k'. Q r s' k' \<Longrightarrow> R r s' k'"
  shows "exchange svc base tag stag rtag handler call s R"
  using assms(1) unfolding exchange_def
  by (elim ex_forward conj_forward all_forward imp_forward) (assumption | rule assms(2))+

lemma channel_to_authorised:
  assumes "channel_to svc (slots (t_caps t)) = Some idx" "get_task k 64 = Some t" "kernel_wf k"
  shows "authorised k 64 idx = Some svc"
  using assms kernel_wf_task [OF assms(3,2)]
  by (auto simp: channel_to_def first_index_Some authorised_def cap_at_def task_wf_def cap_table_wf_def split: option.splits)

lemma receive_buffered:
  assumes "kernel_wf k" "get_task k me = Some t" "queue_contents (t_msg_queue t) = []" "t_ipc_buffer t = Some m"
  shows "receive_iter me k = (Done (Inr m), update_task me (\<lambda>t. t\<lparr>t_ipc_buffer := None\<rparr>) k)"
  using take_message_buffer [OF assms] assms(2) by (simp add: receive_iter_def update_task_def)

lemma receive_parks:
  assumes "kernel_wf k" "get_task k me = Some t" "queue_contents (t_msg_queue t) = []" "t_ipc_buffer t = None"
    and "find_sender k me = None"
  shows "receive_iter me k = (Parked, update_task me (\<lambda>t. t\<lparr>t_state := BlockedOnReceive\<rparr>) k)"
  using take_message_sender [OF assms(1-4)] assms(5) by (simp add: receive_iter_def)

lemma find_sender_wakes:
  assumes "kernel_wf k" "kernel_wf k'" "find_sender k me = None" "s \<noteq> BlockedOnSend me"
    and "\<And>j. get_task k' j = (if j = i then Some (t\<lparr>t_ipc_buffer := b, t_state := s\<rparr>) else get_task k j)"
  shows "find_sender k' me = None"
  using assms by (auto simp: find_sender_None slot_state_get_task)

lemma send_iter_current: "current_task_id (snd (send_iter cur idx msg k)) = current_task_id k"
proof -
  obtain tr where eq: "send_region cur idx msg k = region_result tr cur idx msg k"
    using send_region_eq by blast
  show ?thesis
    unfolding send_iter_def eq region_result_def
    by (auto split: option.split task_state.split)
qed

lemma client_request_sends:
  assumes "client_ready svc idx k" "length payload \<le> PAYLOAD_MAX"
  obtains k1 sh st where "client_request svc entry tag rtag payload k = Ret (InReceive, k1)" "kernel_wf k1"
    "get_task k 64 = Some sh" "get_task k svc = Some st" "queue_contents (t_msg_queue st) = []"
    "queue_contents (t_msg_queue sh) = []" "get_task k1 64 = Some (sh\<lparr>t_state := BlockedOnReceive\<rparr>)"
    "get_task k1 svc = Some (st\<lparr>t_ipc_buffer := Some (make_message 64 tag 1 payload), t_state := Ready\<rparr>)"
    "\<And>j. j \<noteq> 64 \<Longrightarrow> j \<noteq> svc \<Longrightarrow> get_task k1 j = get_task k j"
proof -
  obtain sh st where r: "kernel_wf k" "svc \<noteq> 64" "current_task_id k = Some 64" "find_sender k 64 = None"
    and sh: "get_task k 64 = Some sh" "t_ipc_buffer sh = None" "queue_contents (t_msg_queue sh) = []"
      "channel_to svc (slots (t_caps sh)) = Some idx"
    and st: "get_task k svc = Some st" "t_state st = BlockedOnReceive" "queue_contents (t_msg_queue st) = []"
    using assms(1) unfolding client_ready_def by blast
  let ?m = "make_message 64 tag 1 payload" and ?k = "log_trace ''ipc_send'' (of_nat idx) (ucast (tag_to_u16 tag)) k"
  have "tasks k ! svc = Some st" "svc < length (tasks k)" using get_task_in_range [OF st(1)] by simp_all
  then have e: "ensure_service svc entry k = Ret k" by (simp add: ensure_service_def)
  obtain p k' where it: "send_iter 64 idx ?m ?k = (p, k')" by fastforce
  have a: "authorised ?k 64 idx = Some svc"
    using channel_to_authorised [OF sh(4,1) r(1)] by (simp add: authorised_def)
  note d = send_iter_delivers [OF a _ st(2) it]
  have p: "p = Done (Inr ())" using d(1) st(1) by simp
  have t': "get_task k' j = (if j = svc then Some (st\<lparr>t_ipc_buffer := Some ?m, t_state := Ready\<rparr>) else get_task k j)" for j
    using d(2) [of j] st(1) by simp
  have wf': "kernel_wf k'" using kernel_wf_send_iter [of ?k 64 idx ?m] it r(1) by simp
  have c': "current_task_id k' = Some 64" using send_iter_current [of 64 idx ?m ?k] it r(3) by (simp add: log_trace_def)
  let ?k2 = "log_trace ''ipc_receive'' (of_nat 64) 0 k'"
  have "find_sender ?k2 64 = None"
    by (rule find_sender_wakes [OF r(1) _ r(4), where i = svc and s = Ready]) (use t' wf' in simp_all)
  then have rec: "receive_iter 64 ?k2 = (Parked, update_task 64 (\<lambda>t. t\<lparr>t_state := BlockedOnReceive\<rparr>) ?k2)"
    using t' [of 64] r(2) sh wf' by (intro receive_parks) simp_all
  let ?k3 = "update_task 64 (\<lambda>t. t\<lparr>t_state := BlockedOnReceive\<rparr>) ?k2"
  have req: "client_request svc entry tag rtag payload k = Ret (InReceive, ?k3)"
    using e sh it p r(3) c' rec check_send_tag [OF assms(2)]
    by (simp add: client_request_def get_shell_caps_def after_send_def after_receive_def sys_send_typed_def
        send_begin_def sys_receive_typed_def receive_begin_def)
  have wf3: "kernel_wf ?k3" using kernel_wf_receive_iter [of ?k2 64] rec wf' by simp
  show ?thesis
    by (rule that [OF req wf3 sh(1) st(1) st(3) sh(3)])
      (use t' r(2) sh(1) in \<open>simp_all add: get_task_update_task\<close>)
qed

text \<open>The two resumptions.\<close>

lemma same_task_buffer:
  "rel_option same_task (Some t) x \<Longrightarrow> \<exists>t'. x = Some t' \<and> same_task t t' \<and> t_ipc_buffer t' = t_ipc_buffer t \<and>
     t_msg_queue t' = t_msg_queue t \<and> t_caps t' = t_caps t"
  by (cases x) (auto dest: same_task_fields)

lemma client_resume_returns:
  assumes "resumes 64 svc k3 k4" "get_task k3 64 = Some sh" "queue_contents (t_msg_queue sh) = []"
    and "t_ipc_buffer sh = Some m"
  shows "\<exists>k5. client_resume tag ver rtag InReceive k4 = (Returned (accept_reply rtag (Inr m)), k5) \<and> kernel_wf k5"
proof -
  obtain sh' where sh': "get_task k4 64 = Some sh'" "t_ipc_buffer sh' = Some m" "queue_contents (t_msg_queue sh') = []" "kernel_wf k4"
    using assms same_task_buffer [of sh "get_task k4 64"] by (auto simp: resumes_def)
  note r = receive_buffered [OF sh'(4,1,3,2)]
  then show ?thesis
    using kernel_wf_receive_iter [OF sh'(4), of 64] by (simp add: client_resume_def after_receive_def)
qed

context service
begin

text \<open>A waiting service, woken by a request of the shell, answers it with the handler's reply.\<close>

lemma answers_shell:
  assumes "client_ready svc idx k" "length payload \<le> PAYLOAD_MAX" "base + 64 \<le> usize_MAX" "inv s"
    and "\<And>kh. rel_option same_task (get_task k 64) (get_task kh 64) \<Longrightarrow> safe (make_message 64 tag 1 payload) kh"
  shows "exchange svc base tag stag rtag handler (client_request svc entry tag rtag payload k) s
    (\<lambda>r s' k'. kernel_wf k' \<and> inv s' \<and>
       (\<exists>reply kh kk. rel_option same_task (get_task k 64) (get_task kh 64) \<and> kernel_wf kh \<and>
          handler (make_message 64 tag 1 payload) s kh = Ret (reply, s', kk) \<and>
          r = accept_reply rtag (Inr (make_message svc stag 1 reply))))"
proof -
  let ?m = "make_message 64 tag 1 payload"
  obtain k1 sh st where r: "client_request svc entry tag rtag payload k = Ret (InReceive, k1)" "kernel_wf k1"
    and sh: "get_task k 64 = Some sh" "queue_contents (t_msg_queue sh) = []"
      "get_task k1 64 = Some (sh\<lparr>t_state := BlockedOnReceive\<rparr>)"
    and st: "get_task k svc = Some st" "queue_contents (t_msg_queue st) = []"
      "get_task k1 svc = Some (st\<lparr>t_ipc_buffer := Some ?m, t_state := Ready\<rparr>)"
    by (rule client_request_sends [OF assms(1,2)]) (rule that; assumption)
  have svc: "svc \<noteq> 64" using assms(1) by (simp add: client_ready_def)
  let ?Q = "\<lambda>r s' k'. kernel_wf k' \<and> inv s' \<and>
     (\<exists>reply kh kk. rel_option same_task (get_task k 64) (get_task kh 64) \<and> kernel_wf kh \<and>
        handler ?m s kh = Ret (reply, s', kk) \<and> r = accept_reply rtag (Inr (make_message svc stag 1 reply)))"
  have "\<exists>s' k3. service_resume svc base stag handler s k2 = Ret (Replied (Done (Inr ())), s', k3) \<and>
      (\<forall>k4. resumes 64 svc k3 k4 \<longrightarrow> (\<exists>r k5. client_resume tag 1 rtag InReceive k4 = (Returned r, k5) \<and> ?Q r s' k5))"
    if k2: "resumes svc 64 k1 k2" for k2
  proof -
    obtain st' sh' where st': "get_task k2 svc = Some st'" "t_ipc_buffer st' = Some ?m" "queue_contents (t_msg_queue st') = []"
      and sh': "get_task k2 64 = Some sh'" "same_task (sh\<lparr>t_state := BlockedOnReceive\<rparr>) sh'" "t_state sh' = BlockedOnReceive"
      and wf2: "kernel_wf k2" "current_task_id k2 = Some svc"
      using k2 sh(3) st(2,3) same_task_buffer [of "st\<lparr>t_ipc_buffer := Some ?m, t_state := Ready\<rparr>" "get_task k2 svc"]
        same_task_buffer [of "sh\<lparr>t_state := BlockedOnReceive\<rparr>" "get_task k2 64"]
      by (auto simp: resumes_def)
    let ?kh = "update_task svc (\<lambda>t. t\<lparr>t_ipc_buffer := None\<rparr>) k2"
    note rec = receive_buffered [OF wf2(1) st'(1,3,2)]
    have wfh: "kernel_wf ?kh" using kernel_wf_receive_iter [OF wf2(1), of svc] rec by simp
    have g: "get_task ?kh 64 = Some sh'" "get_task ?kh svc = Some (st'\<lparr>t_ipc_buffer := None\<rparr>)"
      using svc sh'(1) st'(1) by (simp_all add: get_task_update_task)
    have same: "rel_option same_task (get_task k 64) (get_task ?kh 64)"
      using sh'(2) g(1) sh(1) by (auto intro: same_task_trans simp: same_task_def)
    have sender: "msg_sender ?m = 64" by (simp add: make_message_def)
    have base: "base + msg_sender ?m \<le> usize_MAX" using assms(3) sender by simp
    have cur: "current_task_id ?kh = Some svc" using wf2(2) by simp
    obtain reply s' k' p k3 where h: "handler ?m s ?kh = Ret (reply, s', k')" "inv s'"
      and turn: "service_turn svc base stag handler ?m s ?kh = Ret (p, s', k3)" "p = Done (Inr ())"
        "get_task k3 64 = Some (sh'\<lparr>t_ipc_buffer := Some (make_message svc stag 1 reply), t_state := Ready\<rparr>)"
      using turn [OF wfh make_message_wf [OF assms(2)] assms(4) assms(5) [OF same] cur g(2) base, of stag] g(1) sh'(3) svc
      unfolding sender by blast
    have "t_msg_queue sh' = t_msg_queue sh" using same_task_fields [OF sh'(2)] by simp
    then have q: "queue_contents (t_msg_queue (sh'\<lparr>t_ipc_buffer := Some (make_message svc stag 1 reply), t_state := Ready\<rparr>)) = []"
      using sh(2) by simp
    have res: "service_resume svc base stag handler s k2 = Ret (Replied (Done (Inr ())), s', k3)"
      using turn(1,2) rec by (simp add: service_resume_def)
    have "\<exists>r k5. client_resume tag 1 rtag InReceive k4 = (Returned r, k5) \<and> ?Q r s' k5" if "resumes 64 svc k3 k4" for k4
      using client_resume_returns [OF that turn(3) q, of "make_message svc stag 1 reply" tag 1 rtag] h same wfh by auto blast
    then show ?thesis using res by blast
  qed
  then show ?thesis unfolding exchange_def r(1) by simp
qed

end

subsection \<open>Command lines\<close>

text \<open>The first lines of \<open>dispatch\<close>: \<open>None\<close> is a blank line.\<close>

definition command_tokens :: "bytes \<Rightarrow> (bytes \<times> bytes \<times> bytes \<times> bytes) option" where
  "command_tokens line =
     (case tokenize line [None, None, None, None] of
        (cnt, tokens) \<Rightarrow>
          if cnt = 0 then None
          else let tok = (\<lambda>i. case tokens ! i of Some t \<Rightarrow> t | None \<Rightarrow> []) in Some (tok 0, tok 1, tok 2, tok 3))"

text \<open>
  Commands that call a service.  A command is refused before anything is sent when a number does not parse (\<open>dispatch\<close>
  returns \<open>Err\<close>), an argument is missing or out of range, or there is no such subcommand.
\<close>

datatype refused = BadNumber | BadUsage | OutOfRange | NoSubcommand | NotHeld

datatype service_command =
    FsCall u8 bytes bytes
  | DevCall u8 u8 bytes
  | SyncCall u8 u8 u8 u8
  | KvSet nat bytes bytes
  | KvGet nat
  | LogPublishCall u8 bytes
  | LogReadCall u8

definition fs_command :: "bytes \<Rightarrow> bytes \<Rightarrow> bytes \<Rightarrow> refused + service_command" where
  "fs_command tok1 tok2 tok3 =
     (if tok1 = ascii ''mkdir'' then (if tok2 = [] then Inl BadUsage else Inr (FsCall 0 tok2 []))
      else if tok1 = ascii ''write'' then (if tok2 = [] \<or> tok3 = [] then Inl BadUsage else Inr (FsCall 1 tok2 tok3))
      else if tok1 = ascii ''read'' then (if tok2 = [] then Inl BadUsage else Inr (FsCall 2 tok2 []))
      else if tok1 = ascii ''ls'' then (if tok2 = [] then Inl BadUsage else Inr (FsCall 3 tok2 []))
      else if tok1 = ascii ''delete'' then (if tok2 = [] then Inl BadUsage else Inr (FsCall 4 tok2 []))
      else if tok1 = ascii ''stat'' then (if tok2 = [] then Inl BadUsage else Inr (FsCall 5 tok2 []))
      else Inl NoSubcommand)"

definition dev_command :: "bytes \<Rightarrow> bytes \<Rightarrow> bytes \<Rightarrow> refused + service_command" where
  "dev_command tok1 tok2 tok3 =
     (if tok1 = ascii ''read'' then
        (case parse_usize tok2 of None \<Rightarrow> Inl BadNumber | Some n \<Rightarrow> Inr (DevCall 0 (of_nat n) []))
      else if tok1 = ascii ''write'' then
        (case parse_usize tok2 of
           None \<Rightarrow> Inl BadNumber
         | Some n \<Rightarrow> if tok3 = [] then Inl BadUsage else Inr (DevCall 1 (of_nat n) tok3))
      else Inl NoSubcommand)"

text \<open>Splitting an argument at its first blank; \<open>None\<close> is a missing second part.\<close>

definition split_word :: "bytes \<Rightarrow> (bytes \<times> bytes) option" where
  "split_word rest =
     (let w = takeWhile (\<lambda>b. \<not> is_space b) rest; v = dropWhile is_space (dropWhile (\<lambda>b. \<not> is_space b) rest)
      in if v = [] then None else Some (w, v))"

definition kv_set_args :: "bytes \<Rightarrow> bytes \<Rightarrow> refused + service_command" where
  "kv_set_args tok2 tok3 =
     (case parse_usize tok2 of
        None \<Rightarrow> Inl BadNumber
      | Some slot \<Rightarrow>
          if slot \<ge> 32 then Inl OutOfRange
          else (case split_word tok3 of None \<Rightarrow> Inl BadUsage | Some (key, val) \<Rightarrow> Inr (KvSet slot key val)))"

definition kv_get_args :: "bytes \<Rightarrow> refused + service_command" where
  "kv_get_args tok2 =
     (case parse_usize tok2 of
        None \<Rightarrow> Inl BadNumber
      | Some slot \<Rightarrow> if slot \<ge> 32 then Inl OutOfRange else Inr (KvGet slot))"

definition log_publish_args :: "bytes \<Rightarrow> bytes \<Rightarrow> refused + service_command" where
  "log_publish_args tok2 tok3 =
     (case parse_usize tok2 of
        None \<Rightarrow> Inl BadNumber
      | Some kind \<Rightarrow>
          if kind \<ge> 16 then Inl OutOfRange
          else if tok3 = [] then Inl BadUsage else Inr (LogPublishCall (of_nat kind) tok3))"

definition log_read_args :: "bytes \<Rightarrow> refused + service_command" where
  "log_read_args tok2 =
     (case parse_usize tok2 of
        None \<Rightarrow> Inl BadNumber
      | Some kind \<Rightarrow> if kind \<ge> 16 then Inl OutOfRange else Inr (LogReadCall (of_nat kind)))"

text \<open>The first scan of \<open>sync acquire\<close> and \<open>sync release\<close>.\<close>

definition has_sync_cap :: "u8 \<Rightarrow> capability option list \<Rightarrow> bool" where
  "has_sync_cap obj = list_ex (\<lambda>s. case s of Some cap \<Rightarrow> cap_resource cap = SyncObj obj | None \<Rightarrow> False)"

definition sync_count :: "bytes \<Rightarrow> u8 option" where
  "sync_count tok3 =
     (case dropWhile is_space (dropWhile (\<lambda>b. \<not> is_space b) tok3) of
        [] \<Rightarrow> Some 1
      | rest \<Rightarrow> map_option of_nat (parse_usize rest))"

definition sync_create_args :: "bytes \<Rightarrow> bytes \<Rightarrow> refused + service_command" where
  "sync_create_args tok2 tok3 =
     (case parse_usize tok2 of
        None \<Rightarrow> Inl BadNumber
      | Some n \<Rightarrow>
          let obj = of_nat n :: u8
          in if obj \<ge> 8 then Inl OutOfRange
             else if take 5 tok3 = ascii ''mutex'' then Inr (SyncCall 0 obj 1 1)
             else (case sync_count tok3 of None \<Rightarrow> Inl BadNumber | Some c \<Rightarrow> Inr (SyncCall 0 obj 0 c)))"

text \<open>\<open>sync acquire\<close> with operation 1, \<open>sync release\<close> with operation 2.\<close>

definition sync_use_args :: "u8 \<Rightarrow> bytes \<Rightarrow> capability option list \<Rightarrow> refused + service_command" where
  "sync_use_args opc tok2 caps =
     (case parse_usize tok2 of
        None \<Rightarrow> Inl BadNumber
      | Some n \<Rightarrow>
          let obj = of_nat n :: u8
          in if \<not> has_sync_cap obj caps then Inl NotHeld else Inr (SyncCall opc obj 0 0))"

subsection \<open>Requests\<close>

definition kv_set_payload :: "nat \<Rightarrow> bytes \<Rightarrow> bytes \<Rightarrow> bytes" where
  "kv_set_payload slot key val =
     (let payload = (replicate 81 0)[0 := of_nat slot];
          payload = copy_into payload 1 (take (min (length key) 16) key)
      in copy_into payload 17 (take (min (length val) 64) val))"

definition log_publish_payload :: "u8 \<Rightarrow> bytes \<Rightarrow> bytes" where
  "log_publish_payload kind content =
     (let msg_len = min (length content) 64;
          payload = copy_into ((replicate 65 0)[0 := kind]) 1 (take msg_len content)
      in take (1 + msg_len) payload)"

definition kv_set_call :: "u64 \<Rightarrow> nat \<Rightarrow> bytes \<Rightarrow> bytes \<Rightarrow> kernel \<Rightarrow> (client_call \<times> kernel) run" where
  "kv_set_call entry slot key val = client_request 82 entry KVSet None (kv_set_payload slot key val)"

definition kv_get_call :: "u64 \<Rightarrow> nat \<Rightarrow> kernel \<Rightarrow> (client_call \<times> kernel) run" where
  "kv_get_call entry slot = client_request 82 entry KVGet None [of_nat slot]"

definition log_publish_call :: "u64 \<Rightarrow> u8 \<Rightarrow> bytes \<Rightarrow> kernel \<Rightarrow> (client_call \<times> kernel) run" where
  "log_publish_call entry kind content = client_request 83 entry LogPublish None (log_publish_payload kind content)"

definition log_read_call :: "u64 \<Rightarrow> u8 \<Rightarrow> kernel \<Rightarrow> (client_call \<times> kernel) run" where
  "log_read_call entry kind = client_request 83 entry LogRead None [kind]"

definition service_call :: "u64 \<Rightarrow> service_command \<Rightarrow> kernel \<Rightarrow> (client_call \<times> kernel) run" where
  "service_call entry cmd k =
     (case cmd of
        FsCall opc path data \<Rightarrow> send_fs_msg entry opc 0 path data k
      | DevCall opc dev data \<Rightarrow> send_dev_msg entry opc dev data k
      | SyncCall opc obj is_mutex cnt \<Rightarrow> send_sync_msg entry opc obj is_mutex cnt k
      | KvSet slot key val \<Rightarrow> kv_set_call entry slot key val k
      | KvGet slot \<Rightarrow> kv_get_call entry slot k
      | LogPublishCall kind content \<Rightarrow> log_publish_call entry kind content k
      | LogReadCall kind \<Rightarrow> log_read_call entry kind k)"

subsection \<open>Answers\<close>

text \<open>What a command reports, without the wording.\<close>

datatype said =
    Accepted | PermissionDenied | NotFound | NoSpace | BadRequest | NoData | NoDevice | UnknownStatus
  | SaidText bytes | SaidLines "bytes list" | SaidStat bool u64 u8 | SaidPair bytes bytes | SaidEntry u64 u64 bytes
  | SaidStatus u8 | CallFailed ipc_error

text \<open>\<open>reply[a..b]\<close>, which panics past the end.\<close>

definition reply_range :: "nat \<Rightarrow> nat \<Rightarrow> bytes \<Rightarrow> bytes run" where
  "reply_range a b reply = (if b > length reply then Panic else Ret (slice a b reply))"

text \<open>\<open>str::lines\<close>, without the empty lines.\<close>

fun split_at_newline :: "bytes \<Rightarrow> bytes \<Rightarrow> bytes list" where
  "split_at_newline acc [] = (if acc = [] then [] else [acc])"
| "split_at_newline acc (b # bs) =
     (if b = 0x0A
      then (if acc \<noteq> [] \<and> last acc = 0x0D then butlast acc else acc) # split_at_newline [] bs
      else split_at_newline (acc @ [b]) bs)"

definition fs_said :: "u8 \<Rightarrow> bytes \<Rightarrow> said run" where
  "fs_said opc reply =
     (let status = reply ! 0
      in if status = 1 then Ret PermissionDenied
         else if opc \<in> {0, 1} then
           Ret (if status = 0 then Accepted else if status = 3 then NoSpace else if status = 4 then BadRequest else UnknownStatus)
         else if status = 2 then Ret NotFound
         else if status \<noteq> 0 then Ret UnknownStatus
         else if opc = 2 then
           run_bind (reply_range 2 (2 + unat (reply ! 1)) reply) (\<lambda>d. Ret (SaidText (from_utf8_or_empty d)))
         else if opc = 3 then
           Ret (SaidLines (filter (\<lambda>l. l \<noteq> []) (split_at_newline [] (from_utf8_or_empty (takeWhile (\<lambda>b. b \<noteq> 0) (drop 2 reply))))))
         else if opc = 4 then Ret Accepted
         else Ret (SaidStat (reply ! 1 \<noteq> 0) (of_le_bytes (slice 2 10 reply)) (reply ! 10)))"

definition dev_said :: "u8 \<Rightarrow> bytes \<Rightarrow> said run" where
  "dev_said opc reply =
     (let status = reply ! 0
      in if status = 1 then Ret PermissionDenied
         else if status = 3 then Ret NoDevice
         else if opc = 0 then
           (if status = 0 then
              run_bind (reply_range 2 (2 + unat (reply ! 1)) reply) (\<lambda>d. Ret (SaidText (from_utf8_or_empty d)))
            else if status = 2 then Ret NoData else Ret UnknownStatus)
         else Ret (if status = 0 then Accepted else UnknownStatus))"

definition kv_set_said :: "bytes \<Rightarrow> said" where
  "kv_set_said reply = (if reply ! 0 = 0 then Accepted else if reply ! 0 = 1 then PermissionDenied else BadRequest)"

definition kv_get_said :: "bytes \<Rightarrow> said" where
  "kv_get_said reply =
     (if reply ! 0 = 0 then
        SaidPair (from_utf8_or_empty (takeWhile (\<lambda>b. b \<noteq> 0) (slice 1 17 reply)))
          (from_utf8_or_empty (takeWhile (\<lambda>b. b \<noteq> 0) (slice 17 81 reply)))
      else if reply ! 0 = 1 then PermissionDenied else BadRequest)"

definition log_publish_said :: "bytes \<Rightarrow> said" where
  "log_publish_said reply = (if reply ! 0 = 0 then Accepted else if reply ! 0 = 1 then PermissionDenied else BadRequest)"

definition log_read_said :: "bytes \<Rightarrow> said run" where
  "log_read_said reply =
     (if reply ! 0 = 0 then
        let len = unat (of_le_bytes (slice 18 26 reply) :: u64)
        in run_bind (reply_range 26 (26 + len) reply) (\<lambda>m.
             Ret (SaidEntry (of_le_bytes (slice 1 9 reply)) (of_le_bytes (slice 9 17 reply)) (from_utf8_or_empty m)))
      else Ret (if reply ! 0 = 1 then PermissionDenied else if reply ! 0 = 2 then NoData else BadRequest))"

definition sync_said :: "bytes \<Rightarrow> said" where
  "sync_said reply = (if reply ! 0 = 0 then Accepted else SaidStatus (reply ! 0))"

definition command_said :: "service_command \<Rightarrow> ipc_error + bytes \<Rightarrow> said run" where
  "command_said cmd r =
     (case r of
        Inl e \<Rightarrow> Ret (CallFailed e)
      | Inr reply \<Rightarrow>
          (case cmd of
             FsCall opc _ _ \<Rightarrow> fs_said opc reply
           | DevCall opc _ _ \<Rightarrow> dev_said opc reply
           | SyncCall _ _ _ _ \<Rightarrow> Ret (sync_said reply)
           | KvSet _ _ _ \<Rightarrow> Ret (kv_set_said reply)
           | KvGet _ \<Rightarrow> Ret (kv_get_said reply)
           | LogPublishCall _ _ \<Rightarrow> Ret (log_publish_said reply)
           | LogReadCall _ \<Rightarrow> log_read_said reply))"

text \<open>The arms of \<open>dispatch\<close> that end in a call of a service; \<open>None\<close> is any other command.\<close>

definition dispatch_service :: "bytes \<Rightarrow> capability option list \<Rightarrow> (refused + service_command) option" where
  "dispatch_service line caps =
     (case command_tokens line of
        None \<Rightarrow> None
      | Some (tok0, tok1, tok2, tok3) \<Rightarrow>
          if tok0 = ascii ''fs'' then Some (fs_command tok1 tok2 tok3)
          else if tok0 = ascii ''kv'' \<and> tok1 = ascii ''set'' then Some (kv_set_args tok2 tok3)
          else if tok0 = ascii ''kv'' \<and> tok1 = ascii ''get'' then Some (kv_get_args tok2)
          else if tok0 = ascii ''log'' \<and> tok1 = ascii ''publish'' then Some (log_publish_args tok2 tok3)
          else if tok0 = ascii ''log'' \<and> tok1 = ascii ''read'' then Some (log_read_args tok2)
          else if tok0 = ascii ''dev'' \<and> tok1 \<in> {ascii ''read'', ascii ''write''} then Some (dev_command tok1 tok2 tok3)
          else if tok0 = ascii ''sync'' \<and> tok1 = ascii ''create'' then Some (sync_create_args tok2 tok3)
          else if tok0 = ascii ''sync'' \<and> tok1 = ascii ''acquire'' then Some (sync_use_args 1 tok2 caps)
          else if tok0 = ascii ''sync'' \<and> tok1 = ascii ''release'' then Some (sync_use_args 2 tok2 caps)
          else None)"

lemma ascii_nonempty [simp]: "ascii s = [] \<longleftrightarrow> s = []"
  by (simp add: ascii_def)

lemma command_tokens_words:
  assumes "\<forall>w \<in> set ws. word_ok w" "ws \<noteq> []" "length ws \<le> 3"
  shows "command_tokens (join ws) =
    Some (let tok = (\<lambda>i. if i < length ws then ws ! i else []) in (tok 0, tok 1, tok 2, tok 3))"
  using tokenize_splits [OF assms(1,3)] assms(2,3)
  by (auto simp: command_tokens_def nth_append Let_def)

lemma command_tokens_text:
  assumes "\<forall>w \<in> set [a, b, c]. word_ok w" "tail_ok t"
  shows "command_tokens (join [a, b, c, t]) = Some (a, b, c, t)"
  using tokenize_splits [of "[a, b, c]" t] assms by (simp add: command_tokens_def)

subsection \<open>The filesystem from the command line\<close>

definition fs_exchange :: "u64 \<Rightarrow> service_command \<Rightarrow> kernel \<Rightarrow> fs_state \<Rightarrow> (said \<Rightarrow> fs_state \<Rightarrow> kernel \<Rightarrow> bool) \<Rightarrow> bool" where
  "fs_exchange entry cmd k s Q \<longleftrightarrow>
     exchange 84 84000 FsOp FsReply (Some FsReply) fs_handle (service_call entry cmd k) s
       (\<lambda>r s' k'. \<exists>out. command_said cmd r = Ret out \<and> Q out s' k')"

text \<open>What each command reports, as a function of the files.\<close>

fun fs_reports :: "fs_request \<Rightarrow> fs_key \<Rightarrow> (fs_key \<Rightarrow> fs_file option) \<Rightarrow> said" where
  "fs_reports Mkdir key a = (if a key \<noteq> None then BadRequest else if card (dom a) = FS_MAX_NODES then NoSpace else Accepted)"
| "fs_reports (Write d) key a =
     (case a key of
        Some Dir \<Rightarrow> BadRequest
      | Some (File _) \<Rightarrow> Accepted
      | None \<Rightarrow> if card (dom a) = FS_MAX_NODES then NoSpace else Accepted)"
| "fs_reports Read key a = (case a key of Some (File d) \<Rightarrow> SaidText (from_utf8_or_empty d) | _ \<Rightarrow> NotFound)"
| "fs_reports Delete key a = (if a key = None then NotFound else Accepted)"
| "fs_reports Stat key a =
     (case a key of
        Some (File d) \<Rightarrow> SaidStat False (of_nat (length d)) (fst key)
      | Some Dir \<Rightarrow> SaidStat True 0 (fst key)
      | None \<Rightarrow> NotFound)"

definition fs_call_request :: "u8 \<Rightarrow> bytes \<Rightarrow> fs_request option" where
  "fs_call_request opc data =
     (if opc = 0 then Some Mkdir else if opc = 1 then Some (Write (Some data)) else if opc = 2 then Some Read
      else if opc = 4 then Some Delete else if opc = 5 then Some Stat else None)"

definition padded :: "bytes \<Rightarrow> bytes" where
  "padded reply = copy_into (replicate PAYLOAD_MAX 0) 0 reply"

lemma padded_nth: "i < length reply \<Longrightarrow> padded reply ! i = reply ! i"
  by (simp add: padded_def copy_into_def nth_append)

lemma padded_slice: "b \<le> length reply \<Longrightarrow> slice a b (padded reply) = slice a b reply"
  by (simp add: padded_def copy_into_def slice_def)

lemma length_padded: "length reply \<le> PAYLOAD_MAX \<Longrightarrow> length (padded reply) = PAYLOAD_MAX"
  by (simp add: padded_def)

lemma slice_Cons2: "slice 2 (2 + length d) (a # b # d) = d"
  by (simp add: slice_def)

lemma fs_said_read:
  assumes "length d \<le> 94"
  shows "fs_said 2 (padded (0 # of_nat (length d) # d)) = Ret (SaidText (from_utf8_or_empty d))"
proof -
  let ?r = "0 # of_nat (length d) # d :: bytes"
  have u: "unat (of_nat (length d) :: u8) = length d" using assms by (simp add: unat_of_nat)
  have "padded ?r ! 0 = 0" "padded ?r ! 1 = of_nat (length d)" by (simp_all add: padded_nth)
  moreover have "slice 2 (2 + length d) (padded ?r) = d"
    using padded_slice [of "2 + length d" ?r 2] slice_Cons2 [of d] by simp
  ultimately show ?thesis
    using u assms length_padded [of ?r] by (simp add: fs_said_def reply_range_def PAYLOAD_MAX_def)
qed

lemma fs_said_stat:
  "fs_said 5 (padded ([0, b] @ le_bytes 8 w @ [m])) = Ret (SaidStat (b \<noteq> 0) w m)"
proof -
  let ?r = "[0, b] @ le_bytes 8 w @ [m]"
  have l: "length (le_bytes 8 w) = 8" by simp
  have "padded ?r ! 0 = 0" "padded ?r ! 1 = b" "padded ?r ! 10 = m"
    by (simp_all add: padded_nth nth_append)
  moreover have "slice 2 10 (padded ?r) = le_bytes 8 w"
    using padded_slice [of 10 ?r 2] by (simp add: slice_def)
  ultimately show ?thesis by (simp add: fs_said_def del: le_bytes.simps)
qed

lemma fs_said_spec:
  assumes "fs_call_request opc data = Some req" "\<And>d. a key = Some (File d) \<Longrightarrow> length d \<le> 94"
  shows "fs_said opc (padded (fst (fs_spec req key a))) = Ret (fs_reports req key a)"
proof -
  have s: "fs_said opc (padded [2]) = Ret NotFound" if "opc \<notin> {0, 1}"
    using that by (simp add: fs_said_def padded_nth)
  have del: "fs_said 4 (padded [0]) = Ret Accepted" by (simp add: fs_said_def padded_nth)
  have op01: "fs_said opc (padded [0]) = Ret Accepted" "fs_said opc (padded [3]) = Ret NoSpace" "fs_said opc (padded [4]) = Ret BadRequest"
    if "opc \<in> {0, 1}" using that by (auto simp: fs_said_def padded_nth)
  show ?thesis
    using assms(1) s del op01 assms(2) fs_said_read fs_said_stat [of 0] fs_said_stat [of 1]
    by (auto simp: fs_call_request_def split: if_splits option.split fs_file.split)
qed

lemma same_task_check:
  "rel_option same_task (get_task k t) (get_task k' t) \<Longrightarrow> holds_cap k' t p = holds_cap k t p"
  by (cases "get_task k t"; cases "get_task k' t") (auto simp: holds_cap_def dest: same_task_fields)

text \<open>What one request does to the answer and the files.\<close>

lemma fs_request_said:
  assumes "fs_call_request opc data = Some req" "length path \<le> 30" "length data \<le> 94" "fs_inv (fs_nodes s)"
    and "rel_option same_task (get_task k 64) (get_task kh 64)"
    and "fs_handle (make_message 64 FsOp 1 (fs_payload opc 0 path data)) s kh = Ret (reply, s', k')"
  shows "fs_said opc (padded reply) = Ret (if fs_check_cap k 64 0 (needs_write req)
      then fs_reports req (0, path) (fs_abs (fs_nodes s)) else PermissionDenied)"
    and "fs_abs (fs_nodes s') = (if fs_check_cap k 64 0 (needs_write req)
      then snd (fs_spec req (0, path) (fs_abs (fs_nodes s))) else fs_abs (fs_nodes s))"
proof -
  let ?m = "make_message 64 FsOp 1 (fs_payload opc 0 path data)" and ?a = "fs_abs (fs_nodes s)"
  note m = fs_payload_decodes [OF assms(2,3)]
  have req: "fs_request_of ?m = Some req"
    using assms(1) by (auto simp: fs_request_of_def fs_call_request_def Let_def m(4,6) split: if_splits)
  have c: "fs_check_cap kh 64 0 w = fs_check_cap k 64 0 w" for w
    using same_task_check [OF assms(5)] by (simp add: fs_check_cap_def)
  have eq: "(reply, fs_abs (fs_nodes s')) =
      (if fs_check_cap k 64 0 (needs_write req) then fs_spec req (0, path) ?a else ([1], ?a))"
    using fs_handle_refines [OF m(1,2) req assms(4), of kh] assms(6) m(3,5) c by auto
  then show "fs_abs (fs_nodes s') = (if fs_check_cap k 64 0 (needs_write req) then snd (fs_spec req (0, path) ?a) else ?a)"
    by (auto simp: prod_eq_iff split: if_splits)
  have "reply = (if fs_check_cap k 64 0 (needs_write req) then fst (fs_spec req (0, path) ?a) else [1])"
    using eq by (auto simp: prod_eq_iff split: if_splits)
  moreover have "fs_said opc (padded [1]) = Ret PermissionDenied" by (simp add: fs_said_def padded_nth)
  ultimately show "fs_said opc (padded reply) =
      Ret (if fs_check_cap k 64 0 (needs_write req) then fs_reports req (0, path) ?a else PermissionDenied)"
    using fs_said_spec [OF assms(1), of ?a "(0, path)"] fs_abs_file_len [OF assms(4)] by simp
qed

lemma fs_exchange_served:
  assumes "fs_call_request opc data = Some req" "length path \<le> 30" "length data \<le> 94"
    and "client_ready 84 idx k" "fs_inv (fs_nodes s)"
  shows "fs_exchange entry (FsCall opc path data) k s (\<lambda>out s' k'. kernel_wf k' \<and> fs_inv (fs_nodes s') \<and>
    out = (if fs_check_cap k 64 0 (needs_write req) then fs_reports req (0, path) (fs_abs (fs_nodes s)) else PermissionDenied) \<and>
    fs_abs (fs_nodes s') = (if fs_check_cap k 64 0 (needs_write req)
      then snd (fs_spec req (0, path) (fs_abs (fs_nodes s))) else fs_abs (fs_nodes s)))"
proof -
  let ?p = "fs_payload opc 0 path data"
  have len: "length ?p \<le> PAYLOAD_MAX" by (simp add: PAYLOAD_MAX_def)
  have base: "84000 + 64 \<le> usize_MAX" by (simp add: usize_MAX_def)
  have "opc \<noteq> 3" using assms(1) by (auto simp: fs_call_request_def)
  then have safe: "fs_safe (make_message 64 FsOp 1 ?p) kh" for kh
    using fs_payload_decodes(4) [OF assms(2,3)] by (simp add: fs_safe_def)
  have acc: "accept_reply (Some FsReply) (Inr (make_message 84 FsReply 1 reply)) = Inr (padded reply)" for reply
    by (simp add: accept_reply_def make_message_def padded_def)
  show ?thesis
    unfolding fs_exchange_def service_call_def service_command.case send_fs_msg_def
    by (rule exchange_mono [OF fs_service.answers_shell [OF assms(4) len base assms(5) safe]])
      (auto simp: acc command_said_def fs_request_said [OF assms(1-3,5)])
qed

lemma fs_exchange_mono:
  "fs_exchange entry cmd k s Q \<Longrightarrow> (\<And>out s' k'. Q out s' k' \<Longrightarrow> R out s' k') \<Longrightarrow> fs_exchange entry cmd k s R"
  unfolding fs_exchange_def by (erule exchange_mono) blast

text \<open>The request carries at most thirty bytes of the path and ninety-four of the text.\<close>

lemma fs_payload_cut: "fs_payload opc mount path data = fs_payload opc mount (take 30 path) (take 94 data)"
  by (simp add: fs_payload_def Let_def min.commute)

lemma fs_exchange_cut:
  "fs_exchange entry (FsCall opc (take 30 path) (take 94 data)) k s Q \<Longrightarrow> fs_exchange entry (FsCall opc path data) k s Q"
  by (simp add: fs_exchange_def service_call_def send_fs_msg_def command_said_def fs_payload_cut [of opc 0 path data, symmetric]
    cong: sum.case_cong)

text \<open>The part of a typed path and of a typed text that reaches the service.\<close>

definition sent_path :: "bytes \<Rightarrow> bytes" where
  "sent_path path = take 30 path"

definition sent_data :: "bytes \<Rightarrow> bytes" where
  "sent_data data = take 94 data"

lemma fs_exchange_typed:
  assumes "fs_call_request opc (sent_data data) = Some req" "client_ready 84 idx k" "fs_inv (fs_nodes s)"
  shows "fs_exchange entry (FsCall opc path data) k s (\<lambda>out s' k'. kernel_wf k' \<and> fs_inv (fs_nodes s') \<and>
    out = (if fs_check_cap k 64 0 (needs_write req) then fs_reports req (0, sent_path path) (fs_abs (fs_nodes s)) else PermissionDenied) \<and>
    fs_abs (fs_nodes s') = (if fs_check_cap k 64 0 (needs_write req)
      then snd (fs_spec req (0, sent_path path) (fs_abs (fs_nodes s))) else fs_abs (fs_nodes s)))"
  unfolding sent_path_def
  by (rule fs_exchange_cut, rule fs_exchange_served [OF assms(1) [unfolded sent_data_def] _ _ assms(2,3)]) simp_all

text \<open>C32. Filesystem commands work from the command line to the report.  A line \<open>fs mkdir\<close>, \<open>write\<close>, \<open>read\<close>, \<open>delete\<close> or
  \<open>stat\<close> (\<open>fs ls\<close> is not covered) with its arguments is parsed to a request.  The request carries the first thirty bytes
  of the path and the first ninety-four of the text; whatever is typed beyond them is dropped.  The shell sends it to a
  service that already waits for requests, with no message pending on either side; the service answers when it runs and the
  shell's call returns when it runs again, whatever other tasks do in between.  What the shell then reports, and what becomes
  of the files, is what the abstract filesystem says of that shortened path and text, or a refusal when the shell lacks the
  capability.\<close>

theorem shell_fs_command_served:
  assumes "command_tokens line = Some (ascii ''fs'', sub, path, content)"
    and "fs_command sub path content = Inr (FsCall opc path data)" "fs_call_request opc (sent_data data) = Some req"
    and "client_ready 84 idx k" "fs_inv (fs_nodes s)"
  shows "dispatch_service line caps = Some (Inr (FsCall opc path data)) \<and>
    fs_exchange entry (FsCall opc path data) k s (\<lambda>out s' k'. kernel_wf k' \<and> fs_inv (fs_nodes s') \<and>
      (out, fs_abs (fs_nodes s')) = (if fs_check_cap k 64 0 (needs_write req)
        then (fs_reports req (0, sent_path path) (fs_abs (fs_nodes s)), snd (fs_spec req (0, sent_path path) (fs_abs (fs_nodes s))))
        else (PermissionDenied, fs_abs (fs_nodes s))))"
  using assms(1,2) fs_exchange_mono [OF fs_exchange_typed [OF assms(3-5)]]
  by (simp add: dispatch_service_def)

text \<open>C33. What is typed is read back, as far as it is sent.  After \<open>fs write\<close> of a text to a path that is not a directory,
  with permission and room, to a service that waits for requests, which is reported as done, any later \<open>fs read\<close> of the path
  by a shell with read permission, the service waiting again and nothing having been written in between, reports exactly
  the first ninety-four bytes of the text: all of it when it is no longer.  Those bytes must be valid UTF-8.  A path is known
  by its first thirty bytes, so a read whose path agrees on them finds the same file.\<close>

theorem shell_reads_what_it_wrote:
  assumes "word_ok path" "word_ok path'" "sent_path path' = sent_path path" "tail_ok content" "valid_utf8 (sent_data content)"
    and "client_ready 84 idx k" "fs_inv (fs_nodes s)" "fs_check_cap k 64 0 True"
    and "fs_abs (fs_nodes s) (0, sent_path path) \<noteq> Some Dir" "card (dom (fs_abs (fs_nodes s))) < FS_MAX_NODES"
  shows "\<exists>w r. dispatch_service (join [ascii ''fs'', ascii ''write'', path, content]) caps = Some (Inr w) \<and>
    dispatch_service (join [ascii ''fs'', ascii ''read'', path']) caps = Some (Inr r) \<and>
    fs_exchange entry w k s (\<lambda>out s1 k1. out = Accepted \<and>
      (\<forall>k2 idx2. client_ready 84 idx2 k2 \<and> fs_check_cap k2 64 0 False \<longrightarrow>
         fs_exchange entry r k2 s1 (\<lambda>out2 s2 k3. out2 = SaidText (sent_data content))))"
proof -
  have w: "word_ok (ascii ''fs'')" "word_ok (ascii ''write'')" "word_ok (ascii ''read'')"
    by (simp_all add: word_ok_def ascii_def is_space_def)
  have ne: "path \<noteq> []" "path' \<noteq> []" "content \<noteq> []" using assms(1,2,4) by (auto simp: word_ok_def tail_ok_def)
  have d: "ascii ''write'' \<noteq> ascii ''mkdir''" "ascii ''read'' \<noteq> ascii ''mkdir''" "ascii ''read'' \<noteq> ascii ''write''"
    by (simp_all add: ascii_def)
  have wr: "dispatch_service (join [ascii ''fs'', ascii ''write'', path, content]) caps = Some (Inr (FsCall 1 path content))"
    using command_tokens_text [of "ascii ''fs''" "ascii ''write''" path content] w assms(1,4) ne d
    by (simp add: dispatch_service_def fs_command_def)
  have rd: "dispatch_service (join [ascii ''fs'', ascii ''read'', path']) caps = Some (Inr (FsCall 2 path' []))"
    using command_tokens_words [of "[ascii ''fs'', ascii ''read'', path']"] w assms(2) ne d
    by (simp add: dispatch_service_def fs_command_def)
  have r: "fs_exchange entry (FsCall 2 path' []) k2 s1 (\<lambda>out2 s2 k3. out2 = SaidText (sent_data content))"
    if "client_ready 84 idx2 k2" "fs_check_cap k2 64 0 False" "fs_inv (fs_nodes s1)"
      "fs_abs (fs_nodes s1) (0, sent_path path) = Some (File (sent_data content))"
    for k2 idx2 s1
    by (rule fs_exchange_mono [OF fs_exchange_typed [of 2 "[]" Read, OF _ that(1,3)]])
      (use that assms(3,5) in \<open>auto simp: fs_call_request_def needs_write_def from_utf8_or_empty_def\<close>)
  have "fs_exchange entry (FsCall 1 path content) k s (\<lambda>out s1 k1. out = Accepted \<and> fs_inv (fs_nodes s1) \<and>
      fs_abs (fs_nodes s1) (0, sent_path path) = Some (File (sent_data content)))"
    by (rule fs_exchange_mono [OF fs_exchange_typed [of 1 content "Write (Some (sent_data content))", OF _ assms(6,7)]])
      (use assms(8-10) in \<open>auto simp: fs_call_request_def needs_write_def split: option.splits fs_file.splits\<close>)
  then have "fs_exchange entry (FsCall 1 path content) k s (\<lambda>out s1 k1. out = Accepted \<and>
      (\<forall>k2 idx2. client_ready 84 idx2 k2 \<and> fs_check_cap k2 64 0 False \<longrightarrow>
         fs_exchange entry (FsCall 2 path' []) k2 s1 (\<lambda>out2 s2 k3. out2 = SaidText (sent_data content))))"
    by (rule fs_exchange_mono) (use r in blast)
  with wr rd show ?thesis by blast
qed

subsection \<open>A shell at its prompt\<close>

lemma root_slots:
  assumes "map cap_facts cs = root_resources"
  shows "length cs = 16" and "i < 16 \<Longrightarrow> \<exists>c. slots (table_with cs) ! i = Some c \<and> cap_facts c = root_resources ! i"
proof -
  have "length (map cap_facts cs) = 16" unfolding assms by (simp add: root_resources_def)
  then show l: "length cs = 16" by simp
  show "\<exists>c. slots (table_with cs) ! i = Some c \<and> cap_facts c = root_resources ! i" if "i < 16"
    using that l arg_cong [OF assms, of "\<lambda>xs. xs ! i"] by simp
qed

text \<open>The slot of the channel to each service.\<close>

lemma root_channel:
  assumes "map cap_facts cs = root_resources" "(svc, idx) \<in> {(65, 1), (82, 6), (83, 9), (84, 11), (85, 14), (86, 15)}"
  shows "channel_to svc (slots (table_with cs)) = Some idx"
proof -
  have i: "idx < 16" using assms(2) by auto
  have l: "length (slots (table_with cs)) = 32"
    using root_slots(1) [OF assms(1)] by (simp add: table_with_def MAX_CAPS_def)
  have f: "(case slots (table_with cs) ! j of Some cap \<Rightarrow> cap_resource cap = IpcChannel svc | None \<Rightarrow> False) \<longleftrightarrow>
      fst (root_resources ! j) = IpcChannel svc" if "j < 16" for j
    using root_slots(2) [OF assms(1) that] by (auto simp: cap_facts_def dest!: arg_cong [of _ _ fst])
  have "fst (root_resources ! idx) = IpcChannel svc" using assms(2) by (auto simp: root_resources_def)
  moreover have "fst (root_resources ! j) \<noteq> IpcChannel svc" if "j < idx" for j
  proof -
    have "\<forall>j<idx. fst (root_resources ! j) \<noteq> IpcChannel svc"
      using assms(2) by (auto simp: root_resources_def less_Suc_eq numeral_eq_Suc)
    then show ?thesis using that by blast
  qed
  ultimately show ?thesis
    unfolding channel_to_def first_index_Some using i l f by (auto dest: less_trans)
qed

lemma root_holds:
  assumes "map cap_facts cs = root_resources" "get_task k t = Some task" "t_caps task = table_with cs"
    and "f \<in> set root_resources" "\<And>c. cap_facts c = f \<Longrightarrow> p c"
  shows "holds_cap k t p"
proof -
  obtain c where "c \<in> set cs" "cap_facts c = f" using assms(1,4) by (metis (no_types, lifting) image_iff list.set_map)
  then have "Some c \<in> set (slots (table_with cs))" "p c" using assms(5) by (auto simp: table_with_def)
  then show ?thesis using assms(2,3) by (force simp: holds_cap_def list_ex_iff)
qed

definition shell_kernel :: "task_id \<Rightarrow> kernel" where
  "shell_kernel svc =
     (set_slot svc (Some (sample_task svc BlockedOnReceive (table_with [reply_cap 64 5])))
       (set_slot 64 (Some (sample_task 64 Running (fst (root_caps (sample_kernel Ready))))) (sample_kernel Ready)))
     \<lparr>current_task_id := Some 64\<rparr>"

lemma shell_kernel_task:
  assumes "svc < MAX_TASKS" "svc \<notin> {1, 2, 64}"
  shows "kernel_wf (shell_kernel svc)" "current_task_id (shell_kernel svc) = Some 64"
    "get_task (shell_kernel svc) j =
       (if j = svc then Some (sample_task svc BlockedOnReceive (table_with [reply_cap 64 5]))
        else if j = 64 then Some (sample_task 64 Running (fst (root_caps (sample_kernel Ready)))) else get_task (sample_kernel Ready) j)"
proof -
  obtain cs k' where r: "root_caps (sample_kernel Ready) = (table_with cs, k')" "map cap_facts cs = root_resources"
    by (rule root_caps_eq [of "sample_kernel Ready"]) (rule that; assumption)
  have wft: "cap_table_wf (fst (root_caps (sample_kernel Ready)))"
    using r(1) root_slots(1) [OF r(2)] by (simp add: MAX_CAPS_def)
  let ?k = "set_slot 64 (Some (sample_task 64 Running (fst (root_caps (sample_kernel Ready))))) (sample_kernel Ready)"
  have k: "kernel_wf ?k" by (intro kernel_wf_set_slot kernel_wf_sample) (use wft in simp_all)
  then have "kernel_wf (set_slot svc (Some (sample_task svc BlockedOnReceive (table_with [reply_cap 64 5]))) ?k)"
    by (rule kernel_wf_set_slot) simp
  then show "kernel_wf (shell_kernel svc)" by (simp add: shell_kernel_def kernel_wf_def)
  show "current_task_id (shell_kernel svc) = Some 64" by (simp add: shell_kernel_def)
  have len: "svc < length (tasks ?k)" "64 < length (tasks (sample_kernel Ready))"
    using assms(1) k kernel_wf_sample [of Ready] by (simp_all add: kernel_wf_def MAX_TASKS_def)
  show "get_task (shell_kernel svc) j =
       (if j = svc then Some (sample_task svc BlockedOnReceive (table_with [reply_cap 64 5]))
        else if j = 64 then Some (sample_task 64 Running (fst (root_caps (sample_kernel Ready)))) else get_task (sample_kernel Ready) j)"
    using len by (simp add: shell_kernel_def get_task_set_slot)
qed

lemma shell_kernel_ready:
  assumes "(svc, idx) \<in> {(82, 6), (83, 9), (84, 11), (85, 14), (86, 15)}"
  shows "client_ready svc idx (shell_kernel svc)"
proof -
  have svc: "svc < MAX_TASKS" "svc \<notin> {1, 2, 64}" using assms by (auto simp: MAX_TASKS_def)
  note k = shell_kernel_task [OF svc]
  obtain cs k' where r: "root_caps (sample_kernel Ready) = (table_with cs, k')" "map cap_facts cs = root_resources"
    by (rule root_caps_eq [of "sample_kernel Ready"]) (rule that; assumption)
  have ch: "channel_to svc (slots (table_with cs)) = Some idx"
    using root_channel [OF r(2), of svc idx] assms by auto
  have "slot_state (shell_kernel svc) j \<noteq> Some (BlockedOnSend 64)" if "j < MAX_TASKS" for j
    using slot_state_get_task [OF k(1) that] k(3) [of j] kernel_wf_get_task [OF kernel_wf_sample that, of Ready] sample_tasks [OF that, of Ready] by auto
  then have "find_sender (shell_kernel svc) 64 = None" using find_sender_None [OF k(1)] by blast
  then show ?thesis
    using k svc ch r(1) by (auto simp: client_ready_def sample_task_def)
qed

lemma shell_kernel_fs: "fs_check_cap (shell_kernel 84) 64 0 w"
proof -
  obtain cs k' where r: "root_caps (sample_kernel Ready) = (table_with cs, k')" "map cap_facts cs = root_resources"
    by (rule root_caps_eq [of "sample_kernel Ready"]) (rule that; assumption)
  have t: "get_task (shell_kernel 84) 64 = Some (sample_task 64 Running (table_with cs))"
    using shell_kernel_task(3) [of 84 64] r(1) by (simp add: MAX_TASKS_def)
  show ?thesis
    unfolding fs_check_cap_def
    by (rule root_holds [OF r(2) t, where f = "(FsNode 0 True True, True, True, True)"])
      (auto simp: root_resources_def cap_facts_def fs_admits_def)
qed

text \<open>The line \<open>fs write /a hi\<close>.\<close>

theorem shell_fs_command_served_witness:
  "dispatch_service (join [ascii ''fs'', ascii ''write'', ascii ''/a'', ascii ''hi'']) [] = Some (Inr (FsCall 1 (ascii ''/a'') (ascii ''hi''))) \<and>
   fs_exchange 0x5000 (FsCall 1 (ascii ''/a'') (ascii ''hi'')) (shell_kernel 84) fs_empty
     (\<lambda>out s' k'. out = Accepted \<and> fs_abs (fs_nodes s') (0, ascii ''/a'') = Some (File (ascii ''hi'')))"
proof -
  let ?line = "join [ascii ''fs'', ascii ''write'', ascii ''/a'', ascii ''hi'']"
  have t: "command_tokens ?line = Some (ascii ''fs'', ascii ''write'', ascii ''/a'', ascii ''hi'')"
    by (rule command_tokens_text) (simp_all add: word_ok_def tail_ok_def ascii_def is_space_def)
  have c: "fs_command (ascii ''write'') (ascii ''/a'') (ascii ''hi'') = Inr (FsCall 1 (ascii ''/a'') (ascii ''hi''))"
    by (simp add: fs_command_def ascii_def)
  note s = shell_fs_command_served [OF t c, of "Write (Some (ascii ''hi''))" 11 "shell_kernel 84" fs_empty "[]" "0x5000"]
  have r: "client_ready 84 11 (shell_kernel 84)" by (rule shell_kernel_ready) simp
  show ?thesis
  proof
    show "dispatch_service ?line [] = Some (Inr (FsCall 1 (ascii ''/a'') (ascii ''hi'')))"
      using s r by (simp add: fs_call_request_def ascii_def sent_data_def)
    show "fs_exchange 0x5000 (FsCall 1 (ascii ''/a'') (ascii ''hi'')) (shell_kernel 84) fs_empty
        (\<lambda>out s' k'. out = Accepted \<and> fs_abs (fs_nodes s') (0, ascii ''/a'') = Some (File (ascii ''hi'')))"
      by (rule fs_exchange_mono [OF conjunct2 [OF s]])
        (use r in \<open>auto simp: fs_call_request_def ascii_def shell_kernel_fs FS_MAX_NODES_def sent_path_def sent_data_def\<close>)
  qed
qed

text \<open>A text of a hundred letters, six more than a request carries.\<close>

definition long_text :: bytes where
  "long_text = replicate 100 97"

lemma long_text: "tail_ok long_text" "sent_data long_text = replicate 94 97" "valid_utf8 (sent_data long_text)"
proof -
  show "tail_ok long_text" unfolding long_text_def tail_ok_def by (simp add: is_space_def)
  show d: "sent_data long_text = replicate 94 97"
    unfolding long_text_def sent_data_def take_replicate by simp
  show "valid_utf8 (sent_data long_text)" unfolding d by (rule valid_utf8_ascii) simp
qed

theorem shell_reads_what_it_wrote_witness:
  "\<exists>w r. dispatch_service (join [ascii ''fs'', ascii ''write'', ascii ''/a'', long_text]) [] = Some (Inr w) \<and>
    dispatch_service (join [ascii ''fs'', ascii ''read'', ascii ''/a'']) [] = Some (Inr r) \<and>
    fs_exchange 0x5000 w (shell_kernel 84) fs_empty (\<lambda>out s1 k1. out = Accepted \<and>
      fs_exchange 0x5000 r (shell_kernel 84) s1 (\<lambda>out2 s2 k3. out2 = SaidText (replicate 94 97)))"
proof -
  have r: "client_ready 84 11 (shell_kernel 84)" by (rule shell_kernel_ready) simp
  have w: "word_ok (ascii ''/a'')" by (simp add: word_ok_def ascii_def is_space_def)
  have e: "fs_inv (fs_nodes fs_empty)" "fs_abs (fs_nodes fs_empty) (0, sent_path (ascii ''/a'')) \<noteq> Some Dir"
    "card (dom (fs_abs (fs_nodes fs_empty))) < FS_MAX_NODES" by (simp_all add: FS_MAX_NODES_def)
  obtain w rd where 1: "dispatch_service (join [ascii ''fs'', ascii ''write'', ascii ''/a'', long_text]) [] = Some (Inr w)"
    "dispatch_service (join [ascii ''fs'', ascii ''read'', ascii ''/a'']) [] = Some (Inr rd)"
    and ex: "fs_exchange 0x5000 w (shell_kernel 84) fs_empty (\<lambda>out s1 k1. out = Accepted \<and>
      (\<forall>k2 idx2. client_ready 84 idx2 k2 \<and> fs_check_cap k2 64 0 False \<longrightarrow>
         fs_exchange 0x5000 rd k2 s1 (\<lambda>out2 s2 k3. out2 = SaidText (replicate 94 97))))"
    using shell_reads_what_it_wrote [OF w w refl long_text(1,3) r e(1) shell_kernel_fs e(2,3), of "[]" "0x5000"]
    unfolding long_text(2) by blast
  show ?thesis
    by (intro exI conjI, rule 1, rule 1, rule fs_exchange_mono [OF ex]) (use r shell_kernel_fs in blast)
qed

end
