(* ===== verification/User_Programs.thy ===== *)
theory User_Programs
  imports Syscall
begin

text \<open>
  The programs of \<open>userspace/mod.rs\<close>: the assembly text as lists of items, what the assembler does with them, and the
  execution of their instructions in user mode, with \<open>int 0x80\<close> entering the dispatcher.
\<close>

subsection \<open>Assembly\<close>

datatype user_reg = RAX | RBX | RCX | RDX | RSI | RDI | R8

primrec gpr_get :: "user_reg \<Rightarrow> gp_frame \<Rightarrow> u64" where
  "gpr_get RAX = f_rax"
| "gpr_get RBX = f_rbx"
| "gpr_get RCX = f_rcx"
| "gpr_get RDX = f_rdx"
| "gpr_get RSI = f_rsi"
| "gpr_get RDI = f_rdi"
| "gpr_get R8 = f_r8"

primrec gpr_set :: "user_reg \<Rightarrow> u64 \<Rightarrow> gp_frame \<Rightarrow> gp_frame" where
  "gpr_set RAX v f = f\<lparr>f_rax := v\<rparr>"
| "gpr_set RBX v f = f\<lparr>f_rbx := v\<rparr>"
| "gpr_set RCX v f = f\<lparr>f_rcx := v\<rparr>"
| "gpr_set RDX v f = f\<lparr>f_rdx := v\<rparr>"
| "gpr_set RSI v f = f\<lparr>f_rsi := v\<rparr>"
| "gpr_set RDI v f = f\<lparr>f_rdi := v\<rparr>"
| "gpr_set R8 v f = f\<lparr>f_r8 := v\<rparr>"

text \<open>
  The instructions and directives that occur.  Each number labels one place of a program, so that the direction of a
  reference (\<open>3f\<close>, \<open>2b\<close>) does not matter.
\<close>

datatype item =
    Lab nat
  | MovI user_reg u64 | MovR user_reg user_reg | Lea user_reg nat | Load user_reg user_reg | AddI user_reg u64
  | Int80 | Cmp user_reg user_reg | Je nat | Jne nat | Jmp nat
  | Ascii bytes | Space nat

definition user_program :: "item list" where
  "user_program =
     [Lab 2,
      MovI RAX 2, MovI RDI 0, Lea RSI 3, MovI RDX 29, Int80,
      MovI RAX 2, MovI RDI 1, Lea RSI 4, MovI RDX 23, Int80,
      MovI RAX 1, Int80, Jmp 2,
      Lab 3, Ascii (ascii ''Hello from ring-3 user task 4''),
      Lab 4, Ascii (ascii ''write /data/sensor.log'')]"

definition logger_program :: "item list" where
  "logger_program =
     [Lab 5,
      MovI RAX 3, Lea RSI 8, MovI RDX 128, Int80, MovR RBX RAX,
      MovI RAX 4, MovI RDI 0, Lea RSI 6, MovI RDX 24, Int80,
      MovI RAX 4, MovI RDI 0, Lea RSI 8, MovR RDX RBX, Int80,
      MovI RAX 4, MovI RDI 0, Lea RSI 7, MovI RDX 1, Int80,
      Jmp 5,
      Lab 6, Ascii (ascii ''[user-logger] received: ''),
      Lab 7, Ascii [10],
      Lab 8, Space 128]"

definition faulty_user_program :: "item list" where
  "faulty_user_program =
     [MovI RAX 4, MovI RDI 0, Lea RSI 10, MovI RDX 27, Int80,
      MovI RAX 1, Int80,
      MovI RAX 4, MovI RDI 0, Lea RSI 10, MovI RDX 27, Int80,
      MovI RBX 0xffffffffffffffff, Cmp RAX RBX, Jne 9,
      MovI RAX 4, MovI RDI 0, MovI RSI 0xffffffff80000000, MovI RDX 10, Int80,
      MovI RBX 0xffffffffffffffff, Cmp RAX RBX, Jne 9,
      MovI RAX 0x12345678, Load RBX RAX, Jmp 9,
      Lab 9, MovI RAX 1, Int80, Jmp 9,
      Lab 10, Ascii (ascii ''[Task 6] Serial is active.'' @ [10])]"

definition async_sender_program :: "item list" where
  "async_sender_program =
     [Lab 1,
      MovI RAX 8, MovI RDI 0, Lea RSI 3, MovI RDX 0x00010002, MovI R8 19, Int80,
      MovI RBX 0xfffffffffffffff8, Cmp RAX RBX, Je 2,
      MovI RAX 4, MovI RDI 1, Lea RSI 4, MovI RDX 28, Int80,
      Lab 2, MovI RAX 1, Int80, Jmp 1,
      Lab 3, Ascii (ascii ''Async Sensor Msg #1''),
      Lab 4, Ascii (ascii ''[Task 7] Async send success'' @ [10])]"

definition async_receiver_program :: "item list" where
  "async_receiver_program =
     [Lab 1,
      MovI RAX 9, Lea RSI 4, MovI RDX 128, Int80,
      MovI RBX 0xfffffffffffffff7, Cmp RAX RBX, Je 2,
      MovR RBX RAX,
      MovI RAX 4, MovI RDI 0, Lea RSI 3, MovI RDX 25, Int80,
      MovI RAX 4, MovI RDI 0, Lea RSI 4, MovR RDX RBX, Int80,
      MovI RAX 4, MovI RDI 0, Lea RSI 5, MovI RDX 1, Int80,
      Lab 2, MovI RAX 1, Int80, Jmp 1,
      Lab 3, Ascii (ascii ''[Task 8] Async received: ''),
      Lab 4, Space 128,
      Lab 5, Ascii [10]]"

definition ramfs_program :: "item list" where
  "ramfs_program =
     [Lab 1,
      MovI RAX 3, Lea RSI 4, MovI RDX 128, Int80, MovR RBX RAX,
      MovI RAX 4, MovI RDI 0, Lea RSI 2, MovI RDX 27, Int80,
      MovI RAX 4, MovI RDI 0, Lea RSI 4, MovR RDX RBX, Int80,
      MovI RAX 4, MovI RDI 0, Lea RSI 3, MovI RDX 1, Int80,
      Jmp 1,
      Lab 2, Ascii (ascii ''[user-ramfs] file request: ''),
      Lab 3, Ascii [10],
      Lab 4, Space 128]"

definition init_program :: "item list" where
  "init_program =
     [MovI RAX 10, MovI RDI 1, Int80,
      MovI RAX 5, MovI RDI 0, MovI RSI 2, MovI RDX 3, Int80,
      MovI RAX 10, MovI RDI 3, Int80,
      MovI RAX 5, MovI RDI 0, MovI RSI 3, MovI RDX 3, Int80,
      MovI RAX 10, MovI RDI 2, Int80,
      MovI RAX 5, MovI RDI 1, MovI RSI 4, MovI RDX 3, Int80,
      MovI RAX 5, MovI RDI 2, MovI RSI 4, MovI RDX 3, Int80,
      MovI RAX 4, MovI RDI 0, Lea RSI 8, MovI RDX 35, Int80,
      Lab 9, MovI RAX 1, Int80, Jmp 9,
      Lab 8, Ascii (ascii ''[user-init] system boot complete.'' @ [10])]"

definition preempt_user_program :: "item list" where
  "preempt_user_program = [MovI RCX 0, Lab 100, AddI RCX 1, Jmp 100]"

text \<open>
  The machine code of an instruction comes from the assembler: \<open>enc i\<close> is that of the instruction at place \<open>i\<close>.  Data is laid
  down as it stands.
\<close>

type_synonym encoder = "nat \<Rightarrow> item \<Rightarrow> bytes"

definition item_bytes :: "encoder \<Rightarrow> nat \<Rightarrow> item \<Rightarrow> bytes" where
  "item_bytes enc i it = (case it of Lab _ \<Rightarrow> [] | Ascii s \<Rightarrow> s | Space n \<Rightarrow> replicate n 0 | _ \<Rightarrow> enc i it)"

definition assemble :: "encoder \<Rightarrow> item list \<Rightarrow> bytes" where
  "assemble enc p = concat (map (\<lambda>(i, it). item_bytes enc i it) (enumerate 0 p))"

definition label_pc :: "item list \<Rightarrow> nat \<Rightarrow> nat" where
  "label_pc p l = length (takeWhile (\<lambda>it. it \<noteq> Lab l) p)"

definition label_addr :: "encoder \<Rightarrow> item list \<Rightarrow> nat \<Rightarrow> u64" where
  "label_addr enc p l = USER_CODE_VADDR + of_nat (length (assemble enc (take (label_pc p l) p)))"

subsection \<open>Execution\<close>

record user_state =
  us_pc :: nat
  us_zf :: bool
  us_regs :: gp_frame

text \<open>An instruction goes on, or its system call gave up the processor, or it faulted, or there is no code at its place.\<close>

datatype user_event = Continues user_state kernel | Blocks wait user_state kernel | PageFault u64 user_state | NoCode user_state

definition load_cell :: "machine \<Rightarrow> u64 \<Rightarrow> u64" where
  "load_cell m a = of_le_bytes (load_bytes m a 8)"

definition user_step :: "encoder \<Rightarrow> item list \<Rightarrow> user_state \<Rightarrow> kernel \<Rightarrow> user_event run" where
  "user_step enc p u k =
     (let next = us_pc u + 1;
          set = (\<lambda>r v. Ret (Continues (u\<lparr>us_pc := next, us_regs := gpr_set r v (us_regs u)\<rparr>) k));
          get = (\<lambda>r. gpr_get r (us_regs u));
          goto = (\<lambda>l c. Ret (Continues (u\<lparr>us_pc := if c then label_pc p l else next\<rparr>) k))
      in if \<not> us_pc u < length p then Ret (NoCode u)
         else case p ! us_pc u of
           Lab _ \<Rightarrow> Ret (Continues (u\<lparr>us_pc := next\<rparr>) k)
         | MovI r v \<Rightarrow> set r v
         | MovR r s \<Rightarrow> set r (get s)
         | Lea r l \<Rightarrow> set r (label_addr enc p l)
         | Load r s \<Rightarrow> if user_range_ok (mach k) (get s) 8 False then set r (load_cell (mach k) (get s)) else Ret (PageFault (get s) u)
         | AddI r v \<Rightarrow> set r (get r + v)
         | Cmp r s \<Rightarrow> Ret (Continues (u\<lparr>us_pc := next, us_zf := get r = get s\<rparr>) k)
         | Je l \<Rightarrow> goto l (us_zf u)
         | Jne l \<Rightarrow> goto l (\<not> us_zf u)
         | Jmp l \<Rightarrow> goto l True
         | Int80 \<Rightarrow>
             run_bind (syscall_dispatch (us_regs u) k) (\<lambda>(r, k).
               case r of
                 Returns f \<Rightarrow> Ret (Continues (u\<lparr>us_pc := next, us_regs := f\<rparr>) k)
               | Waits w \<Rightarrow> Ret (Blocks w (u\<lparr>us_pc := next\<rparr>) k))
         | Ascii _ \<Rightarrow> Ret (NoCode u)
         | Space _ \<Rightarrow> Ret (NoCode u))"

text \<open>At most \<open>n\<close> instructions, as long as the program keeps the processor.\<close>

primrec user_run :: "nat \<Rightarrow> encoder \<Rightarrow> item list \<Rightarrow> user_state \<Rightarrow> kernel \<Rightarrow> user_event run" where
  "user_run 0 enc p u k = Ret (Continues u k)"
| "user_run (Suc n) enc p u k =
     run_bind (user_step enc p u k) (\<lambda>e. case e of Continues u k \<Rightarrow> user_run n enc p u k | _ \<Rightarrow> Ret e)"

lemma user_run_add:
  "user_run (m + n) enc p u k =
     run_bind (user_run m enc p u k) (\<lambda>e. case e of Continues u k \<Rightarrow> user_run n enc p u k | _ \<Rightarrow> Ret e)"
proof (induction m arbitrary: u k)
  case (Suc m)
  show ?case
  proof (cases "user_step enc p u k")
    case (Ret e)
    then show ?thesis using Suc by (cases e) simp_all
  qed simp
qed simp

lemma user_run_then:
  assumes "user_run m enc p u k = Ret (Continues u1 k1)" "user_run n enc p u1 k1 = Ret e"
  shows "user_run (m + n) enc p u k = Ret e"
  using assms by (simp add: user_run_add)

definition user_entry :: user_state where
  "user_entry = \<lparr>us_pc = 0, us_zf = False, us_regs = \<lparr>f_rax = 0, f_rbx = 0, f_rcx = 0, f_rdx = 0, f_rsi = 0, f_rdi = 0, f_rbp = 0,
     f_r8 = 0, f_r9 = 0, f_r10 = 0, f_r11 = 0, f_r12 = 0, f_r13 = 0, f_r14 = 0, f_r15 = 0\<rparr>\<rparr>"

subsection \<open>Sequences of a system call\<close>

lemma user_run_numeral:
  "user_run (numeral n) enc p u k =
     run_bind (user_step enc p u k) (\<lambda>e. case e of Continues u k \<Rightarrow> user_run (pred_numeral n) enc p u k | _ \<Rightarrow> Ret e)"
  by (simp add: numeral_eq_Suc)

lemma fetch:
  assumes "drop n p = it # rest"
  shows "n < length p" "p ! n = it" "drop (Suc n) p = rest"
  using assms by (metis drop_all linorder_not_le list.distinct(1), metis hd_drop_conv_nth list.sel(1) assms drop_all linorder_not_le list.distinct(1),
    metis assms drop_Suc list.sel(3) tl_drop)

lemma run_spawn:
  assumes code: "drop (us_pc u) p = MovI RAX 10 # MovI RDI b # Int80 # rest"
    and "current_task_id k = Some 1" "dispatch_spawn_task (unat b) k = Ret (r, k')"
  shows "\<exists>u'. user_run 3 enc p u k = Ret (Continues u' k') \<and> us_pc u' = us_pc u + 3"
proof -
  note c1 = fetch [OF code] note c2 = fetch [OF c1(3)] note c3 = fetch [OF c2(3)]
  show ?thesis
    using c1(1,2) c2(1,2) c3(1,2) assms(2,3)
    by (simp add: user_run_numeral user_step_def Let_def syscall_dispatch_def parse_request_def SYS_defs dispatch_request_def with_rax_def)
qed

lemma run_grant:
  assumes code: "drop (us_pc u) p = MovI RAX 5 # MovI RDI a # MovI RSI b # MovI RDX 3 # Int80 # rest"
    and "current_task_id k = Some i" "dispatch_cap_grant i (unat a) (unat b) (RightsMask True True False) k = (r, k')"
  shows "\<exists>u'. user_run 5 enc p u k = Ret (Continues u' k') \<and> us_pc u' = us_pc u + 5"
proof -
  note c1 = fetch [OF code] note c2 = fetch [OF c1(3)] note c3 = fetch [OF c2(3)] note c4 = fetch [OF c3(3)] note c5 = fetch [OF c4(3)]
  show ?thesis
    using c1(1,2) c2(1,2) c3(1,2) c4(1,2) c5(1,2) assms(2,3)
    by (simp add: user_run_numeral user_step_def Let_def syscall_dispatch_def parse_request_def SYS_defs dispatch_request_def with_rax_def)
qed

text \<open>A write to the console leaves everything but the console and the trace as it was, whether it is permitted or not.\<close>

lemma serial_write_frame: "\<exists>tr out. snd (dispatch_serial_write i bs k) = k\<lparr>trace := tr, serial_out := out\<rparr>"
  if wf: "kernel_wf k"
proof -
  obtain tr b where c: "current_has_serial_cap i k = (b, k\<lparr>trace := tr\<rparr>)" using current_has_serial_cap_eq [OF wf] by blast
  have "snd (dispatch_serial_write i bs k) = k\<lparr>trace := tr, serial_out := if b \<and> valid_utf8 bs then serial_out k @ [bs] else serial_out k\<rparr>"
    by (cases b) (simp_all add: dispatch_serial_write_def c print_user_def)
  then show ?thesis by blast
qed

lemma run_print:
  assumes code: "drop (us_pc u) p = MovI RAX 4 # MovI RDI a # Lea RSI l # MovI RDX n # Int80 # rest" and wf: "kernel_wf k"
  shows "\<exists>u' tr out. user_run 5 enc p u k = Ret (Continues u' (k\<lparr>trace := tr, serial_out := out\<rparr>)) \<and> us_pc u' = us_pc u + 5"
proof -
  note c1 = fetch [OF code] note c2 = fetch [OF c1(3)] note c3 = fetch [OF c2(3)] note c4 = fetch [OF c3(3)] note c5 = fetch [OF c4(3)]
  let ?bs = "load_bytes (mach k) (label_addr enc p l) (unat n)"
  obtain r tr out where w: "dispatch_serial_write (unat a) ?bs k = (r, k\<lparr>trace := tr, serial_out := out\<rparr>)"
    using serial_write_frame [OF wf, of "unat a" ?bs] by (cases "dispatch_serial_write (unat a) ?bs k") auto
  show ?thesis
  proof (cases "n \<le> 4096 \<and> user_range_ok (mach k) (label_addr enc p l) n False")
    case True
    then show ?thesis
      using c1(1,2) c2(1,2) c3(1,2) c4(1,2) c5(1,2) w
      by (simp add: user_run_numeral user_step_def Let_def syscall_dispatch_def parse_request_def SYS_defs dispatch_request_def with_rax_def) blast
  next
    case False
    then show ?thesis
      using c1(1,2) c2(1,2) c3(1,2) c4(1,2) c5(1,2)
      by (auto simp: user_run_numeral user_step_def Let_def syscall_dispatch_def parse_request_def SYS_defs dispatch_request_def)
        (rule exI [of _ "trace k"], rule exI [of _ "serial_out k"], simp)+
  qed
qed

subsection \<open>What the calls of the init program do\<close>

lemma dispatch_cap_grant_frame:
  assumes "dispatch_cap_grant caller src target rights k = (r, k')"
  shows "current_task_id k' = current_task_id k" "mach k' = mach k"
    "map_option t_state (get_task k' i) = map_option t_state (get_task k i)"
proof -
  have "current_task_id k' = current_task_id k \<and> mach k' = mach k \<and> map_option t_state (get_task k' i) = map_option t_state (get_task k i)"
  proof (cases "get_task k caller")
    case None
    then show ?thesis using assms by (simp add: dispatch_cap_grant_def)
  next
    case (Some x)
    obtain g k1 where g: "CapTable_get (t_caps x) src k = (g, k1)" by fastforce
    note k1 = same_but_trace_kernel [OF CapTable_get_same [of k "t_caps x" src, unfolded g snd_conv]]
    show ?thesis
    proof (cases "k' = k1")
      case True
      then show ?thesis using k1 by simp
    next
      case False
      obtain c d t where c: "g = Some c" "attenuate c rights = Some d" "get_task k target = Some t"
        using False assms Some g k1(6) by (cases g; cases "get_task k target") (auto simp: dispatch_cap_grant_def split: option.splits)
      obtain s caps k2 where ins: "CapTable_insert (d\<lparr>cap_origin := Some (cap_id c)\<rparr>) (t_caps t) k1 = (s, caps, k2)" using prod_cases3 by blast
      note k2 = same_but_trace_kernel [OF CapTable_insert_globals [OF ins]]
      have "\<exists>a. k' = (update_task target (\<lambda>t. t\<lparr>t_caps := caps\<rparr>) k2)\<lparr>audit := a\<rparr>"
      proof (cases s)
        case None
        then have "k' = update_task target (\<lambda>t. t\<lparr>t_caps := caps\<rparr>) k2" using assms Some g c k1(6) ins by (simp add: dispatch_cap_grant_def)
        then show ?thesis by (intro exI [of _ "audit k'"]) simp
      next
        case (Some s)
        then show ?thesis using assms \<open>get_task k caller = Some x\<close> g c k1(6) ins by (auto simp: dispatch_cap_grant_def)
      qed
      then obtain a where k': "k' = (update_task target (\<lambda>t. t\<lparr>t_caps := caps\<rparr>) k2)\<lparr>audit := a\<rparr>" by blast
      have "get_task k' i = get_task (update_task target (\<lambda>t. t\<lparr>t_caps := caps\<rparr>) k2) i" by (simp add: k' get_task_def)
      then have "map_option t_state (get_task k' i) = map_option t_state (get_task k i)"
        using k2(6) k1(6) by (cases "get_task k i") (auto simp: get_task_update_task)
      then show ?thesis using k2(3,4) k1(3,4) by (simp add: k')
    qed
  qed
  then show "current_task_id k' = current_task_id k" "mach k' = mach k"
    "map_option t_state (get_task k' i) = map_option t_state (get_task k i)" by simp_all
qed

lemma first_free_unique:
  assumes "cap_view k (t, s) = None" "\<forall>j < s. cap_view k (t, j) \<noteq> None" "cap_view k (t, s') = None" "\<forall>j < s'. cap_view k (t, j) \<noteq> None"
  shows "s' = (s :: nat)"
  using assms by (metis nat_neq_iff)

lemma CapTable_insert_full:
  assumes "cap_table_wf t" "CapTable_insert c t g = (r, t', g')" "r = None" "s < MAX_CAPS"
  shows "cap_at t s \<noteq> None"
  using CapTable_insert_None [OF assms(1) assms(2) [unfolded assms(3)]] assms(4) by blast

lemma grant_granted:
  assumes wf: "kernel_wf k" and c: "cap_view k (caller, src) = Some c" "cap_grant c" and t: "get_task k target = Some t"
    and s: "s < MAX_CAPS" "cap_view k (target, s) = None" "\<forall>j < s. cap_view k (target, j) \<noteq> None"
  obtains k' d where "dispatch_cap_grant caller src target rights k = (0, k')" "kernel_wf k'"
    "cap_view k' = (cap_view k)((target, s) := Some d)" "cap_resource d = cap_resource c" "rights_of d = inf (rights_of c) rights"
    "cap_origin d = Some (cap_id c)"
proof -
  obtain x where x: "get_task k caller = Some x" "cap_at (t_caps x) src = Some c"
    using c(1) cap_view_get_task [OF wf, of caller src] by (auto split: option.splits)
  obtain g k1 where g: "CapTable_get (t_caps x) src k = (g, k1)" by fastforce
  have gc: "g = Some c" using CapTable_get_fst [of "t_caps x" src k] g x(2) by simp
  note k1 = same_but_trace_kernel [OF CapTable_get_same [of k "t_caps x" src, unfolded g snd_conv]]
  obtain d where d: "attenuate c rights = Some d" using c(2) by (simp add: attenuate_def)
  have twf: "cap_table_wf (t_caps t)" using kernel_wf_task [OF wf t] by (simp add: task_wf_def)
  obtain r caps k2 where ins: "CapTable_insert (d\<lparr>cap_origin := Some (cap_id c)\<rparr>) (t_caps t) k1 = (r, caps, k2)" using prod_cases3 by blast
  have "cap_at (t_caps t) s = None" using s(2) cap_view_get_task [OF wf, of target s] t by simp
  then have "r \<noteq> None" using CapTable_insert_full [OF twf ins] s(1) by blast
  then obtain s' where "r = Some s'" by blast
  then have "fst (dispatch_cap_grant caller src target rights k) = 0"
    using x g gc d t k1(6) ins by (simp add: dispatch_cap_grant_def)
  then obtain k' where ok: "dispatch_cap_grant caller src target rights k = (0, k')" by (metis prod.collapse)
  from dispatch_cap_grant_Ok [OF wf ok] obtain c' s'' d' where e: "cap_view k (caller, src) = Some c'" "cap_view k (target, s'') = None"
    "\<forall>j < s''. cap_view k (target, j) \<noteq> None" "cap_view k' = (cap_view k)((target, s'') := Some d')" "rights_of d' = inf (rights_of c') rights"
    "cap_resource d' = cap_resource c'" "cap_origin d' = Some (cap_id c')" "kernel_wf k'" by blast
  have "s'' = s" using first_free_unique [OF s(2,3) e(2,3)] .
  then show ?thesis using that [OF ok e(8)] e c(1) by simp
qed

lemma spawn_spawned:
  assumes wf: "kernel_wf k" and i: "free_task_slot k = Some i" and b: "b \<in> {1, 2, 3}" and fr: "has_frames (9 + n) (mach k)"
    and x: "get_task k 1 = Some x" and s: "s < MAX_CAPS" "cap_view k (1, s) = None" "\<forall>j < s. cap_view k (1, j) \<noteq> None"
  obtains k' where "dispatch_spawn_task b k = Ret (of_nat i, k')" "kernel_wf k'" "has_frames n (mach k')"
    "cap_view k' = (cap_view k)((1, s) := Some ((init_channel i)\<lparr>cap_id := next_cap_id_ctr k\<rparr>))"
    "current_task_id k' = current_task_id k" "map_option t_state (get_task k' i) = Some Ready"
    "\<And>j. j \<noteq> i \<Longrightarrow> map_option t_state (get_task k' j) = map_option t_state (get_task k j)"
proof -
  note f = free_task_slot_Some [OF i]
  have xwf: "cap_table_wf (t_caps x)" using kernel_wf_task [OF wf x] by (simp add: task_wf_def)
  obtain blob where bl: "spawn_blob b i k = Some (spawn_user i blob CapTable_new k)"
    using b by (auto simp: spawn_blob_def spawn_logger_task_def spawn_demo_user_task_def spawn_ramfs_task_def)
  obtain t k1 where u: "spawn_user i blob CapTable_new k = Ret (t, k1)" "has_frames n (mach k1)"
    using spawn_user_leaves [OF fr f(2)] by blast
  have sp: "spawn_blob b i k = Some (Ret (t, k1))" using bl u(1) by simp
  note t = spawn_blob_Ret [OF sp]
  have k1: "k1 = k\<lparr>tasks_spawned := tasks_spawned k + 1, mach := mach k1\<rparr>" by (rule t(2))
  let ?k = "set_slot i (Some t) k1"
  obtain r caps k2 where ins: "CapTable_insert (init_channel i) (t_caps x) ?k = (r, caps, k2)" using prod_cases3 by blast
  have "cap_at (t_caps x) s = None" using s(2) cap_view_get_task [OF wf, of 1 s] x by simp
  then have "r \<noteq> None" using CapTable_insert_full [OF xwf ins] s(1) by blast
  then obtain s' where r: "r = Some s'" by blast
  have g: "get_task ?k 1 = Some x"
  proof -
    have "tasks k1 = tasks k" by (subst k1) simp
    then have "get_task k1 1 = Some x" using x unfolding get_task_def by (simp only:)
    then show ?thesis using f(1) by (simp add: get_task_set_slot)
  qed
  let ?k' = "update_task 1 (\<lambda>t. t\<lparr>t_caps := caps\<rparr>) k2"
  have d: "dispatch_spawn_task b k = Ret (of_nat i, ?k')" using i sp g ins r by (simp add: dispatch_spawn_task_def)
  have ins': "CapTable_insert (init_channel i) (t_caps x) (set_slot i (Some t) (k\<lparr>tasks_spawned := tasks_spawned k + 1, mach := mach k1\<rparr>)) = (Some s', caps, k2)"
    using ins r k1 by simp
  note v = spawned_view [OF wf i _ _ x ins' refl]
  have tc: "t_caps t = CapTable_new" "t_state t = Ready" "task_wf i t" using t(1) by auto
  have s': "s' = s" using first_free_unique [OF s(2,3) v(2,3)] tc by blast
  note k2 = same_but_trace_kernel [OF CapTable_insert_globals [OF ins]]
  have m: "mach ?k' = mach k1" "current_task_id ?k' = current_task_id k"
    using k2(3,4) by (simp_all, subst k1, simp)
  have gt: "get_task ?k' j = (if j = 1 then Some (x\<lparr>t_caps := caps\<rparr>) else if j = i then Some t else get_task k j)" for j
    using v(5) tc by blast
  show ?thesis
  proof (rule that [OF d])
    show "kernel_wf ?k'" by (rule kernel_wf_dispatch_spawn [OF wf d])
    show "has_frames n (mach ?k')" using u(2) m by simp
    show "cap_view ?k' = (cap_view k)((1, s) := Some ((init_channel i)\<lparr>cap_id := next_cap_id_ctr k\<rparr>))"
      using v(4) tc s' by blast
    show "current_task_id ?k' = current_task_id k" by (rule m(2))
    show "map_option t_state (get_task ?k' i) = Some Ready" using gt f(1) tc by simp
    show "map_option t_state (get_task ?k' j) = map_option t_state (get_task k j)" if "j \<noteq> i" for j
      using gt that x by simp
  qed
qed

subsection \<open>The init program\<close>

lemma free_task_slot_at:
  assumes "kernel_wf k" "2 \<le> i" "i < MAX_TASKS" "get_task k i = None" "\<And>j. 2 \<le> j \<Longrightarrow> j < i \<Longrightarrow> get_task k j \<noteq> None"
  shows "free_task_slot k = Some i"
proof -
  have n: "(tasks k ! j = None) = (get_task k j = None)" if "j < MAX_TASKS" for j using kernel_wf_get_task [OF assms(1) that] by simp
  obtain d where d: "i = 2 + d" using assms(2) le_Suc_ex by blast
  have "first_index (\<lambda>i. tasks k ! i = None) [2..<MAX_TASKS] = Some d"
    using assms(3-5) n by (auto simp: first_index_Some d)
  then show ?thesis by (simp add: free_task_slot_def d)
qed

lemma cap_view_no_task: "kernel_wf k \<Longrightarrow> get_task k i = None \<Longrightarrow> cap_view k (i, s) = None"
  by (simp add: cap_view_get_task)

definition cap_summary :: "capability \<Rightarrow> resource \<times> rights_mask" where
  "cap_summary c = (cap_resource c, rights_of c)"

text \<open>While init runs: the frames that are left, what the tables hold and the states of the tasks.\<close>

definition stage :: "nat \<Rightarrow> (nat \<times> nat \<Rightarrow> capability option) \<Rightarrow> (nat \<Rightarrow> task_state option) \<Rightarrow> kernel \<Rightarrow> bool" where
  "stage n V S k \<longleftrightarrow> kernel_wf k \<and> current_task_id k = Some 1 \<and> has_frames n (mach k) \<and> cap_view k = V \<and>
     (\<forall>i. map_option t_state (get_task k i) = S i)"

lemma stage_none:
  assumes s: "stage n V S k" "S i = None"
  shows "get_task k i = None \<and> V (i, s) = None"
proof -
  from s have "get_task k i = None" unfolding stage_def by (metis option.map_disc_iff)
  then show ?thesis using cap_view_no_task [of k i] s by (simp add: stage_def)
qed

lemma stage_some: "stage n V S k \<Longrightarrow> S i \<noteq> None \<Longrightarrow> \<exists>t. get_task k i = Some t"
  unfolding stage_def by (metis option.simps(8) not_None_eq)

text \<open>The call for a grant.\<close>

lemma run_grant_stage:
  assumes code: "drop (us_pc u) p = MovI RAX 5 # MovI RDI a # MovI RSI b # MovI RDX 3 # Int80 # rest"
    and st: "stage n V S k" and c: "V (1, unat a) = Some c" "cap_grant c"
    and s: "s < MAX_CAPS" "V (unat b, s) = None" "\<forall>j < s. V (unat b, j) \<noteq> None" "S (unat b) \<noteq> None"
  shows "\<exists>u' k' d. user_run 5 enc p u k = Ret (Continues u' k') \<and> us_pc u' = us_pc u + 5 \<and>
    stage n (V((unat b, s) := Some d)) S k' \<and> cap_summary d = (cap_resource c, inf (rights_of c) (RightsMask True True False))"
proof -
  obtain t where t: "get_task k (unat b) = Some t" using stage_some [OF st s(4)] by blast
  note k = st [unfolded stage_def]
  have wf: "kernel_wf k" and cur: "current_task_id k = Some 1" and v: "cap_view k = V" using k by simp_all
  obtain k' d where g: "dispatch_cap_grant 1 (unat a) (unat b) (RightsMask True True False) k = (0, k')" "kernel_wf k'"
    "cap_view k' = (cap_view k)((unat b, s) := Some d)" "cap_resource d = cap_resource c" "rights_of d = inf (rights_of c) (RightsMask True True False)"
    using grant_granted [OF wf c(1) [folded v] c(2) t s(1) s(2,3) [folded v]] by metis
  note f = dispatch_cap_grant_frame [OF g(1)]
  obtain u' where "user_run 5 enc p u k = Ret (Continues u' k')" "us_pc u' = us_pc u + 5" using run_grant [OF code cur g(1)] by blast
  moreover have "stage n (V((unat b, s) := Some d)) S k'" using k g(2,3) f by (simp add: stage_def)
  ultimately show ?thesis using g(4,5) by (auto simp: cap_summary_def)
qed

lemma run_spawn_stage:
  assumes code: "drop (us_pc u) p = MovI RAX 10 # MovI RDI b # Int80 # rest"
    and st: "stage (9 + n) V S k" and b: "unat b \<in> {1, 2, 3}" and s: "s < MAX_CAPS" "V (1, s) = None" "\<forall>j < s. V (1, j) \<noteq> None"
    and i: "2 \<le> i" "i < MAX_TASKS" "S 1 \<noteq> None" "S i = None" "\<forall>j. 2 \<le> j \<and> j < i \<longrightarrow> S j \<noteq> None"
  shows "\<exists>u' k' e. user_run 3 enc p u k = Ret (Continues u' k') \<and> us_pc u' = us_pc u + 3 \<and>
    stage n (V((1, s) := Some e)) (S(i := Some Ready)) k' \<and> cap_summary e = (IpcChannel i, RightsMask True True True)"
proof -
  obtain x where x: "get_task k 1 = Some x" using stage_some [OF st i(3)] by blast
  note k = st [unfolded stage_def]
  have wf: "kernel_wf k" and cur: "current_task_id k = Some 1" and v: "cap_view k = V" and fr: "has_frames (9 + n) (mach k)" using k by simp_all
  have "free_task_slot k = Some i"
    using free_task_slot_at [OF wf i(1,2)] stage_none [OF st i(4)] stage_some [OF st] i(5) by (metis option.distinct(1))
  from spawn_spawned [OF wf this b fr x s(1) s(2,3) [folded v]] obtain k' where
    g: "dispatch_spawn_task (unat b) k = Ret (of_nat i, k')" "kernel_wf k'" "has_frames n (mach k')"
    "cap_view k' = (cap_view k)((1, s) := Some ((init_channel i)\<lparr>cap_id := next_cap_id_ctr k\<rparr>))"
    "current_task_id k' = current_task_id k" "map_option t_state (get_task k' i) = Some Ready"
    "\<And>j. j \<noteq> i \<Longrightarrow> map_option t_state (get_task k' j) = map_option t_state (get_task k j)" by metis
  obtain u' where "user_run 3 enc p u k = Ret (Continues u' k')" "us_pc u' = us_pc u + 3" using run_spawn [OF code cur g(1)] by blast
  moreover have "stage n (V((1, s) := Some ((init_channel i)\<lparr>cap_id := next_cap_id_ctr k\<rparr>))) (S(i := Some Ready)) k'"
    using k g by (simp add: stage_def)
  moreover have "cap_summary ((init_channel i)\<lparr>cap_id := next_cap_id_ctr k\<rparr>) = (IpcChannel i, RightsMask True True True)"
    by (simp add: cap_summary_def init_channel_def rights_of_def)
  ultimately show ?thesis by blast
qed

lemma run_yield:
  assumes code: "drop (us_pc u) p = Lab l # MovI RAX 1 # Int80 # rest"
  shows "user_run 3 enc p u k = Ret (Blocks WaitYield (u\<lparr>us_pc := us_pc u + 3, us_regs := (us_regs u)\<lparr>f_rax := 1\<rparr>\<rparr>) k)"
proof -
  note c1 = fetch [OF code] note c2 = fetch [OF c1(3)] note c3 = fetch [OF c2(3)]
  show ?thesis
    using c1(1,2) c2(1,2) c3(1,2)
    by (simp add: user_run_numeral user_step_def Let_def syscall_dispatch_def parse_request_def SYS_defs dispatch_request_def add.commute)
qed

text \<open>A spawn, then a grant of one of init's capabilities to the new task.\<close>

lemma run_service:
  assumes code: "drop (us_pc u) p = MovI RAX 10 # MovI RDI b # Int80 # MovI RAX 5 # MovI RDI a # MovI RSI b' # MovI RDX 3 # Int80 # rest"
    and st: "stage (9 + n) V S k" and b: "unat b \<in> {1, 2, 3}" "unat b' = i"
    and c: "V (1, unat a) = Some c" "cap_grant c" "unat a < s"
    and s: "s < MAX_CAPS" "V (1, s) = None" "\<forall>j < s. V (1, j) \<noteq> None"
    and i: "2 \<le> i" "i < MAX_TASKS" "S 1 \<noteq> None" "S i = None" "\<forall>j. 2 \<le> j \<and> j < i \<longrightarrow> S j \<noteq> None"
  shows "\<exists>u' k' e d. user_run 8 enc p u k = Ret (Continues u' k') \<and> us_pc u' = us_pc u + 8 \<and>
    stage n (V((1, s) := Some e, (i, 0) := Some d)) (S(i := Some Ready)) k' \<and>
    cap_summary e = (IpcChannel i, RightsMask True True True) \<and>
    cap_summary d = (cap_resource c, inf (rights_of c) (RightsMask True True False))"
proof -
  obtain u1 k1 e where 1: "user_run 3 enc p u k = Ret (Continues u1 k1)" "us_pc u1 = us_pc u + 3"
    "stage n (V((1, s) := Some e)) (S(i := Some Ready)) k1" "cap_summary e = (IpcChannel i, RightsMask True True True)"
    using run_spawn_stage [OF code st b(1) s i] by blast
  have "drop (us_pc u1) p = drop 3 (drop (us_pc u) p)" using 1(2) by (simp add: add.commute)
  then have code1: "drop (us_pc u1) p = MovI RAX 5 # MovI RDI a # MovI RSI b' # MovI RDX 3 # Int80 # rest" using code by simp
  have v: "(V((1, s) := Some e)) (1, unat a) = Some c" "(V((1, s) := Some e)) (unat b', 0) = None" "0 < MAX_CAPS"
    "(S(i := Some Ready)) (unat b') \<noteq> None" "\<forall>j < 0. (V((1, s) := Some e)) (unat b', j) \<noteq> None"
    using c(1,3) stage_none [OF st i(4)] i(1) b(2) by (simp_all add: MAX_CAPS_def)
  obtain u2 k2 d where 2: "user_run 5 enc p u1 k1 = Ret (Continues u2 k2)" "us_pc u2 = us_pc u1 + 5"
    "stage n (V((1, s) := Some e, (unat b', 0) := Some d)) (S(i := Some Ready)) k2"
    "cap_summary d = (cap_resource c, inf (rights_of c) (RightsMask True True False))"
    using run_grant_stage [OF code1 1(3) v(1) c(2) v(3) v(2) v(5) v(4)] by blast
  have "user_run 8 enc p u k = Ret (Continues u2 k2)" using user_run_then [OF 1(1) 2(1)] by simp
  then show ?thesis using 1(2,4) 2(2-4) b(2) by auto
qed

text \<open>The state in which init starts: the root capability in its first slot, three free slots of the task table after its own.\<close>

definition init_ready :: "capability \<Rightarrow> kernel \<Rightarrow> bool" where
  "init_ready c k \<longleftrightarrow> kernel_wf k \<and> current_task_id k = Some 1 \<and> get_task k 1 \<noteq> None \<and> has_frames 27 (mach k) \<and>
     cap_view k (1, 0) = Some c \<and> cap_grant c \<and> (\<forall>s \<in> {1, 2, 3}. cap_view k (1, s) = None) \<and> (\<forall>i \<in> {2, 3, 4}. get_task k i = None)"

text \<open>The capabilities that init hands out: the console to the two services, and channels to the services to the user task.\<close>

definition init_grants :: "capability \<Rightarrow> nat \<times> nat \<Rightarrow> (resource \<times> rights_mask) option" where
  "init_grants c p =
     (if p \<in> {(2, 0), (3, 0)} then Some (cap_resource c, inf (rights_of c) (RightsMask True True False))
      else if p = (4, 0) then Some (IpcChannel 2, RightsMask True True False)
      else if p = (4, 1) then Some (IpcChannel 3, RightsMask True True False)
      else if fst p = 1 \<and> snd p \<in> {1, 2, 3} then Some (IpcChannel (snd p + 1), RightsMask True True True)
      else None)"

lemma below: "(\<forall>j < 1. P j) \<longleftrightarrow> P 0" "(\<forall>j < 2. P j) \<longleftrightarrow> P 0 \<and> P 1" "(\<forall>j < 3. P j) \<longleftrightarrow> P 0 \<and> P 1 \<and> P (2 :: nat)"
  "(\<forall>j. 2 \<le> j \<and> j < 3 \<longrightarrow> P j) \<longleftrightarrow> P 2" "(\<forall>j. 2 \<le> j \<and> j < 4 \<longrightarrow> P j) \<longleftrightarrow> P 2 \<and> P (3 :: nat)"
  by (auto simp: numeral_eq_Suc less_Suc_eq le_Suc_eq)

text \<open>The first four sections of the program: the three tasks are there, and each service has the console.\<close>

lemma init_three_tasks:
  assumes "init_ready c k"
  shows "\<exists>u' k' e2 e3 e4 d2 d3 d4. user_run 24 enc init_program user_entry k = Ret (Continues u' k') \<and> us_pc u' = 24 \<and>
    stage 0 ((cap_view k)((1, 1) := Some e2, (2, 0) := Some d2, (1, 2) := Some e3, (3, 0) := Some d3, (1, 3) := Some e4, (4, 0) := Some d4))
      ((\<lambda>i. map_option t_state (get_task k i))(2 := Some Ready, 3 := Some Ready, 4 := Some Ready)) k' \<and>
    cap_summary e2 = (IpcChannel 2, RightsMask True True True) \<and> cap_summary e3 = (IpcChannel 3, RightsMask True True True) \<and>
    cap_summary e4 = (IpcChannel 4, RightsMask True True True) \<and>
    cap_summary d2 = (cap_resource c, inf (rights_of c) (RightsMask True True False)) \<and>
    cap_summary d3 = (cap_resource c, inf (rights_of c) (RightsMask True True False)) \<and>
    cap_summary d4 = (IpcChannel 2, RightsMask True True False)"
proof -
  let ?V = "cap_view k" and ?S = "\<lambda>i. map_option t_state (get_task k i)"
  note r = assms [unfolded init_ready_def]
  have st: "stage (9 + (9 + (9 + 0))) ?V ?S k" using r by (simp add: stage_def)
  have none: "?V (i, s) = None" if "i \<in> {2, 3, 4}" for i s using r that cap_view_no_task by auto
  note sizes = MAX_CAPS_def MAX_TASKS_def
  have code1: "drop (us_pc user_entry) init_program = MovI RAX 10 # MovI RDI 1 # Int80 # MovI RAX 5 # MovI RDI 0 # MovI RSI 2 # MovI RDX 3 # Int80 # drop 8 init_program"
    by (simp add: init_program_def user_entry_def)
  have "\<exists>u' k' e d. user_run 8 enc init_program user_entry k = Ret (Continues u' k') \<and> us_pc u' = us_pc user_entry + 8 \<and>
      stage (9 + (9 + 0)) (?V((1, 1) := Some e, (2, 0) := Some d)) (?S(2 := Some Ready)) k' \<and>
      cap_summary e = (IpcChannel 2, RightsMask True True True) \<and> cap_summary d = (cap_resource c, inf (rights_of c) (RightsMask True True False))"
    by (rule run_service [OF code1 st, where c = c]) (use r in \<open>auto simp: sizes\<close>)
  then obtain u1 k1 e2 d2 where 1: "user_run 8 enc init_program user_entry k = Ret (Continues u1 k1)" "us_pc u1 = us_pc user_entry + 8"
    "stage (9 + (9 + 0)) (?V((1, 1) := Some e2, (2, 0) := Some d2)) (?S(2 := Some Ready)) k1"
    "cap_summary e2 = (IpcChannel 2, RightsMask True True True)" "cap_summary d2 = (cap_resource c, inf (rights_of c) (RightsMask True True False))" by blast
  let ?V1 = "?V((1, 1) := Some e2, (2, 0) := Some d2)" and ?S1 = "?S(2 := Some Ready)"
  have code2: "drop (us_pc u1) init_program = MovI RAX 10 # MovI RDI 3 # Int80 # MovI RAX 5 # MovI RDI 0 # MovI RSI 3 # MovI RDX 3 # Int80 # drop 16 init_program"
    by (simp add: init_program_def user_entry_def 1(2))
  have "\<exists>u' k' e d. user_run 8 enc init_program u1 k1 = Ret (Continues u' k') \<and> us_pc u' = us_pc u1 + 8 \<and>
      stage (9 + 0) (?V1((1, 2) := Some e, (3, 0) := Some d)) (?S1(3 := Some Ready)) k' \<and>
      cap_summary e = (IpcChannel 3, RightsMask True True True) \<and> cap_summary d = (cap_resource c, inf (rights_of c) (RightsMask True True False))"
    by (rule run_service [OF code2 1(3), where c = c]) (use r in \<open>auto simp: sizes below\<close>)
  then obtain u2 k2 e3 d3 where 2: "user_run 8 enc init_program u1 k1 = Ret (Continues u2 k2)" "us_pc u2 = us_pc u1 + 8"
    "stage (9 + 0) (?V1((1, 2) := Some e3, (3, 0) := Some d3)) (?S1(3 := Some Ready)) k2"
    "cap_summary e3 = (IpcChannel 3, RightsMask True True True)" "cap_summary d3 = (cap_resource c, inf (rights_of c) (RightsMask True True False))" by blast
  let ?V2 = "?V1((1, 2) := Some e3, (3, 0) := Some d3)" and ?S2 = "?S1(3 := Some Ready)"
  have code3: "drop (us_pc u2) init_program = MovI RAX 10 # MovI RDI 2 # Int80 # MovI RAX 5 # MovI RDI 1 # MovI RSI 4 # MovI RDX 3 # Int80 # drop 24 init_program"
    by (simp add: init_program_def user_entry_def 1(2) 2(2))
  have e2: "cap_grant e2" "cap_resource e2 = IpcChannel 2" "rights_of e2 = RightsMask True True True" using 1(4) by (auto simp: cap_summary_def rights_of_def)
  have "\<exists>u' k' e d. user_run 8 enc init_program u2 k2 = Ret (Continues u' k') \<and> us_pc u' = us_pc u2 + 8 \<and>
      stage 0 (?V2((1, 3) := Some e, (4, 0) := Some d)) (?S2(4 := Some Ready)) k' \<and>
      cap_summary e = (IpcChannel 4, RightsMask True True True) \<and> cap_summary d = (cap_resource e2, inf (rights_of e2) (RightsMask True True False))"
    by (rule run_service [OF code3 2(3), where c = e2]) (use r e2(1) in \<open>auto simp: sizes below\<close>)
  then obtain u3 k3 e4 d4 where 3: "user_run 8 enc init_program u2 k2 = Ret (Continues u3 k3)" "us_pc u3 = us_pc u2 + 8"
    "stage 0 (?V2((1, 3) := Some e4, (4, 0) := Some d4)) (?S2(4 := Some Ready)) k3" "cap_summary e4 = (IpcChannel 4, RightsMask True True True)"
    "cap_summary d4 = (cap_resource e2, inf (rights_of e2) (RightsMask True True False))" by blast
  have "user_run 24 enc init_program user_entry k = Ret (Continues u3 k3)" using user_run_then [OF 1(1) user_run_then [OF 2(1) 3(1)]] by simp
  moreover have "us_pc u3 = 24" using 1(2) 2(2) 3(2) by (simp add: user_entry_def)
  ultimately show ?thesis using 1(4,5) 2(4,5) 3(3-5) e2(2,3) by (intro exI conjI) (assumption | simp add: inf_rights_mask_def)+
qed

text \<open>
  The init program sets the system up.  From the start of the program to its first yield it runs 37 instructions; then
  the logging service, the file service and the user task are ready in slots 2, 3 and 4, init holds a grantable channel to
  each, the services hold what the root capability gives without the right to grant, the user task holds a channel to each
  service, none of them can delegate what it holds, and no other capability and no other task has changed.
\<close>

theorem init_sets_up_services:
  assumes "init_ready c k"
  shows "\<exists>u k'. user_run 37 enc init_program user_entry k = Ret (Blocks WaitYield u k') \<and> kernel_wf k' \<and>
    (\<forall>i. map_option t_state (get_task k' i) = (if i \<in> {2, 3, 4} then Some Ready else map_option t_state (get_task k i))) \<and>
    (\<forall>p. map_option cap_summary (cap_view k' p) =
       (case init_grants c p of Some g \<Rightarrow> Some g | None \<Rightarrow> map_option cap_summary (cap_view k p)))"
proof -
  let ?S = "(\<lambda>i. map_option t_state (get_task k i))(2 := Some Ready, 3 := Some Ready, 4 := Some Ready)"
  obtain u3 k3 e2 e3 e4 d2 d3 d4 where 3: "user_run 24 enc init_program user_entry k = Ret (Continues u3 k3)" "us_pc u3 = 24"
    "stage 0 ((cap_view k)((1, 1) := Some e2, (2, 0) := Some d2, (1, 2) := Some e3, (3, 0) := Some d3, (1, 3) := Some e4, (4, 0) := Some d4)) ?S k3"
    "cap_summary e2 = (IpcChannel 2, RightsMask True True True)" "cap_summary e3 = (IpcChannel 3, RightsMask True True True)"
    "cap_summary e4 = (IpcChannel 4, RightsMask True True True)"
    "cap_summary d2 = (cap_resource c, inf (rights_of c) (RightsMask True True False))"
    "cap_summary d3 = (cap_resource c, inf (rights_of c) (RightsMask True True False))" "cap_summary d4 = (IpcChannel 2, RightsMask True True False)"
    using init_three_tasks [OF assms] by blast
  let ?V = "(cap_view k)((1, 1) := Some e2, (2, 0) := Some d2, (1, 2) := Some e3, (3, 0) := Some d3, (1, 3) := Some e4, (4, 0) := Some d4)"
  have code4: "drop (us_pc u3) init_program = MovI RAX 5 # MovI RDI 2 # MovI RSI 4 # MovI RDX 3 # Int80 # drop 29 init_program"
    by (simp add: init_program_def 3(2))
  have none: "cap_view k (4, s) = None" for s using assms cap_view_no_task by (auto simp: init_ready_def)
  have e3: "cap_grant e3" "cap_resource e3 = IpcChannel 3" "rights_of e3 = RightsMask True True True" using 3(5) by (auto simp: cap_summary_def rights_of_def)
  have "\<exists>u' k' d. user_run 5 enc init_program u3 k3 = Ret (Continues u' k') \<and> us_pc u' = us_pc u3 + 5 \<and>
      stage 0 (?V((unat (4 :: u64), 1) := Some d)) ?S k' \<and> cap_summary d = (cap_resource e3, inf (rights_of e3) (RightsMask True True False))"
    by (rule run_grant_stage [OF code4 3(3), where c = e3]) (use none e3(1) in \<open>auto simp: MAX_CAPS_def\<close>)
  then obtain u4 k4 d5 where 4: "user_run 5 enc init_program u3 k3 = Ret (Continues u4 k4)" "us_pc u4 = us_pc u3 + 5"
    "stage 0 (?V((4, 1) := Some d5)) ?S k4" "cap_summary d5 = (IpcChannel 3, RightsMask True True False)"
    using e3(2,3) by (auto simp: inf_rights_mask_def)
  have code5: "drop (us_pc u4) init_program = MovI RAX 4 # MovI RDI 0 # Lea RSI 8 # MovI RDX 35 # Int80 # drop 34 init_program"
    by (simp add: init_program_def 3(2) 4(2))
  have wf4: "kernel_wf k4" "current_task_id k4 = Some 1" "cap_view k4 = ?V((4, 1) := Some d5)" "\<And>i. map_option t_state (get_task k4 i) = ?S i"
    using 4(3) by (simp_all add: stage_def)
  obtain u5 tr out where u5: "user_run 5 enc init_program u4 k4 = Ret (Continues u5 (k4\<lparr>trace := tr, serial_out := out\<rparr>))" "us_pc u5 = us_pc u4 + 5"
    using run_print [OF code5 wf4(1)] by blast
  let ?k = "k4\<lparr>trace := tr, serial_out := out\<rparr>" and ?u = "u5\<lparr>us_pc := 37, us_regs := (us_regs u5)\<lparr>f_rax := 1\<rparr>\<rparr>"
  have "user_run 3 enc init_program u5 ?k = Ret (Blocks WaitYield ?u ?k)"
  proof -
    have "drop (us_pc u5) init_program = Lab 9 # MovI RAX 1 # Int80 # drop 37 init_program" "us_pc u5 = 34"
      using 3(2) 4(2) u5(2) by (simp_all add: init_program_def)
    from run_yield [OF this(1)] this(2) wf4(2) show ?thesis by simp
  qed
  from user_run_then [OF 3(1) user_run_then [OF 4(1) user_run_then [OF u5(1) this]]]
  have run: "user_run 37 enc init_program user_entry k = Ret (Blocks WaitYield ?u ?k)" by simp
  have "get_task ?k i = get_task k4 i" "cap_view ?k = cap_view k4" for i
    by (simp_all add: get_task_def cap_view_def fun_eq_iff)
  moreover have "map_option cap_summary ((?V((4, 1) := Some d5)) p) =
       (case init_grants c p of Some g \<Rightarrow> Some g | None \<Rightarrow> map_option cap_summary (cap_view k p))" for p
    using 3(4-9) 4(4) by (cases p) (auto simp: init_grants_def)
  moreover have "kernel_wf ?k" using wf4(1) by (simp add: kernel_wf_def)
  ultimately show ?thesis using run wf4(3,4) by (intro exI [of _ ?u] exI [of _ ?k]) auto
qed

definition init_root_cap :: capability where
  "init_root_cap = \<lparr>cap_resource = Serial, cap_read = False, cap_write = True, cap_grant = True, cap_sealed = False, cap_id = 0,
     cap_origin = None\<rparr>"

definition init_kernel :: kernel where
  "init_kernel = (set_slot 1 (Some (sample_task 1 Running (table_with [init_root_cap]))) (initial_kernel sample_layout sample_machine))
     \<lparr>current_task_id := Some 1\<rparr>"

lemma init_kernel_ready: "init_ready init_root_cap init_kernel"
proof -
  have wf: "kernel_wf init_kernel"
  proof -
    have "kernel_wf (set_slot 1 (Some (sample_task 1 Running (table_with [init_root_cap]))) (initial_kernel sample_layout sample_machine))"
      by (intro kernel_wf_set_slot) (auto intro!: sample_task_wf table_with_wf)
    then show ?thesis by (simp add: init_kernel_def kernel_wf_def)
  qed
  have "tasks init_kernel = (replicate MAX_TASKS None)[1 := Some (sample_task 1 Running (table_with [init_root_cap]))]"
    by (simp add: init_kernel_def set_slot_def initial_kernel_def)
  then have g: "get_task init_kernel i = (if i = 1 then Some (sample_task 1 Running (table_with [init_root_cap])) else None)" for i
    by (simp add: get_task_def MAX_TASKS_def nth_list_update)
  have "has_frames 27 (mach init_kernel)"
    by (simp add: init_kernel_def set_slot_def initial_kernel_def has_frames_def frames_inv_def sample_machine_def)
  then show ?thesis
    using wf g by (auto simp: init_ready_def cap_view_get_task cap_at_table_with MAX_CAPS_def init_root_cap_def) (simp_all add: init_kernel_def)
qed

theorem init_sets_up_services_witness:
  "\<exists>u k'. user_run 37 (\<lambda>_ _. [0x90]) init_program user_entry init_kernel = Ret (Blocks WaitYield u k') \<and>
     map_option cap_summary (cap_view k' (2, 0)) = Some (Serial, RightsMask False True False) \<and>
     map_option cap_summary (cap_view k' (4, 1)) = Some (IpcChannel 3, RightsMask True True False) \<and> cap_view k' (3, 1) = None"
proof -
  obtain u k' where r: "user_run 37 (\<lambda>_ _. [0x90]) init_program user_entry init_kernel = Ret (Blocks WaitYield u k')"
    "\<And>p. map_option cap_summary (cap_view k' p) =
       (case init_grants init_root_cap p of Some g \<Rightarrow> Some g | None \<Rightarrow> map_option cap_summary (cap_view init_kernel p))"
    using init_sets_up_services [OF init_kernel_ready, of "\<lambda>_ _. [0x90]"] by blast
  have "get_task init_kernel 3 = None" "kernel_wf init_kernel" using init_kernel_ready by (simp_all add: init_ready_def)
  then have "cap_view init_kernel (3, 1) = None" by (rule cap_view_no_task [rotated])
  then show ?thesis
    using r(1) r(2) [of "(2, 0)"] r(2) [of "(4, 1)"] r(2) [of "(3, 1)"]
    by (auto simp: init_grants_def init_root_cap_def rights_of_def inf_rights_mask_def)
qed

subsection \<open>The lengths in the programs\<close>

text \<open>The size of the data at a label, and for every string that a program passes to a call its size with the length passed.\<close>

definition data_size :: "item list \<Rightarrow> nat \<Rightarrow> nat" where
  "data_size p l = (case p ! (label_pc p l + 1) of Ascii s \<Rightarrow> length s | Space n \<Rightarrow> n | _ \<Rightarrow> 0)"

definition length_at :: "item list \<Rightarrow> nat \<Rightarrow> u64 option" where
  "length_at p i =
     (case p ! (i + 1) of
        MovI _ n \<Rightarrow> (case p ! (i + 2) of MovI _ m \<Rightarrow> Some m | _ \<Rightarrow> Some n)
      | _ \<Rightarrow> None)"

definition passed :: "item list \<Rightarrow> (nat \<times> u64) list" where
  "passed p = List.map_filter (\<lambda>i. case p ! i of Lea _ l \<Rightarrow> map_option (Pair (data_size p l)) (length_at p i) | _ \<Rightarrow> None) [0..<length p]"

text \<open>All lengths are those of the data but two: the second message of the user program and the message of init are one byte
  short of the length passed.\<close>

lemma program_lengths:
  "passed user_program = [(29, 29), (22, 23)]"
  "passed logger_program = [(128, 128), (24, 24), (1, 1)]"
  "passed faulty_user_program = [(27, 27), (27, 27)]"
  "passed async_sender_program = [(19, 19), (28, 28)]"
  "passed async_receiver_program = [(128, 128), (25, 25), (1, 1)]"
  "passed ramfs_program = [(128, 128), (27, 27), (1, 1)]"
  "passed init_program = [(34, 35)]"
  by code_simp+

subsection \<open>The faulty program\<close>

lemma kernel_pointer_refused: "\<not> user_range_ok m 0xffffffff80000000 10 w"
  using validate_user_range_outside [of 10 "0xffffffff80000000" m w] by (simp add: user_range_ok_def)

lemma serial_write_outcome:
  assumes "kernel_wf k" "current_task_id k = Some i"
  shows "\<exists>tr out. dispatch_serial_write s bs k =
    (if \<exists>c. cap_view k (i, s) = Some c \<and> cap_resource c = Serial then 0 else u64_MAX, k\<lparr>trace := tr, serial_out := out\<rparr>)"
proof -
  obtain tr where c: "current_has_serial_cap s k = (\<exists>c. cap_view k (i, s) = Some c \<and> cap_resource c = Serial, k\<lparr>trace := tr\<rparr>)"
    using current_has_serial_cap_eq [OF assms(1), of s] assms(2) by auto
  define b where "b \<longleftrightarrow> (\<exists>c. cap_view k (i, s) = Some c \<and> cap_resource c = Serial)"
  have "dispatch_serial_write s bs k =
      (if b then 0 else u64_MAX, k\<lparr>trace := tr, serial_out := if b \<and> valid_utf8 bs then serial_out k @ [bs] else serial_out k\<rparr>)"
    using c [folded b_def] by (cases b) (simp_all add: dispatch_serial_write_def print_user_def)
  then show ?thesis unfolding b_def by blast
qed

lemma run_write:
  assumes code: "drop (us_pc u) p = MovI RAX 4 # MovI RDI a # Lea RSI l # MovI RDX n # Int80 # rest" and n: "n \<le> 4096"
    and k: "kernel_wf k" "current_task_id k = Some i" "user_range_ok (mach k) (label_addr enc p l) n False"
  shows "\<exists>u' tr out. user_run 5 enc p u k = Ret (Continues u' (k\<lparr>trace := tr, serial_out := out\<rparr>)) \<and> us_pc u' = us_pc u + 5 \<and>
    f_rax (us_regs u') = (if \<exists>c. cap_view k (i, unat a) = Some c \<and> cap_resource c = Serial then 0 else u64_MAX)"
proof -
  note c1 = fetch [OF code] note c2 = fetch [OF c1(3)] note c3 = fetch [OF c2(3)] note c4 = fetch [OF c3(3)] note c5 = fetch [OF c4(3)]
  define v where "v = (if \<exists>c. cap_view k (i, unat a) = Some c \<and> cap_resource c = Serial then 0 else u64_MAX)"
  obtain tr out where w: "dispatch_serial_write (unat a) (load_bytes (mach k) (label_addr enc p l) (unat n)) k = (v, k\<lparr>trace := tr, serial_out := out\<rparr>)"
    unfolding v_def using serial_write_outcome [OF k(1,2)] by blast
  show ?thesis
    unfolding v_def [symmetric]
    using c1(1,2) c2(1,2) c3(1,2) c4(1,2) c5(1,2) w n k(3)
    by (simp add: user_run_numeral user_step_def Let_def syscall_dispatch_def parse_request_def SYS_defs dispatch_request_def with_rax_def rax_def) blast
qed

lemma run_compare:
  assumes code: "drop (us_pc u) p = MovI RBX v # Cmp RAX RBX # Jne l # rest"
  shows "\<exists>u'. user_run 3 enc p u k = Ret (Continues u' k) \<and> us_pc u' = (if f_rax (us_regs u) = v then us_pc u + 3 else label_pc p l)"
proof -
  note c1 = fetch [OF code] note c2 = fetch [OF c1(3)] note c3 = fetch [OF c2(3)]
  show ?thesis using c1(1,2) c2(1,2) c3(1,2) by (simp add: user_run_numeral user_step_def Let_def)
qed

lemma run_refused_write:
  assumes code: "drop (us_pc u) p = MovI RAX 4 # MovI RDI a # MovI RSI q # MovI RDX n # Int80 # rest" and "\<not> user_range_ok (mach k) q n False"
  shows "\<exists>u'. user_run 5 enc p u k = Ret (Continues u' k) \<and> us_pc u' = us_pc u + 5 \<and> f_rax (us_regs u') = u64_MAX"
proof -
  note c1 = fetch [OF code] note c2 = fetch [OF c1(3)] note c3 = fetch [OF c2(3)] note c4 = fetch [OF c3(3)] note c5 = fetch [OF c4(3)]
  show ?thesis
    using c1(1,2) c2(1,2) c3(1,2) c4(1,2) c5(1,2) assms(2)
    by (simp add: user_run_numeral user_step_def Let_def syscall_dispatch_def parse_request_def SYS_defs dispatch_request_def rax_def)
qed

text \<open>
  The faulty program tells whether its capability is gone.  Resumed after its yield, it goes to its idle loop if it still
  holds the console, and otherwise finds its write refused, a pointer into the kernel refused as well, and ends with the
  page fault on the unmapped address.
\<close>

theorem faulty_program_verdict:
  assumes "kernel_wf k" "current_task_id k = Some i" "us_pc u = 7" "\<not> user_range_ok (mach k) 0x12345678 8 False"
    and "user_range_ok (mach k) (label_addr enc faulty_user_program 10) 27 False"
  shows "if \<exists>c. cap_view k (i, 0) = Some c \<and> cap_resource c = Serial
    then \<exists>u' k'. user_run 11 enc faulty_user_program u k = Ret (Blocks WaitYield u' k')
    else \<exists>u'. user_run 18 enc faulty_user_program u k = Ret (PageFault 0x12345678 u')"
proof -
  let ?p = faulty_user_program
  have code1: "drop (us_pc u) ?p = MovI RAX 4 # MovI RDI 0 # Lea RSI 10 # MovI RDX 27 # Int80 # drop 12 ?p"
    by (simp add: faulty_user_program_def assms(3))
  define b where "b \<longleftrightarrow> (\<exists>c. cap_view k (i, 0) = Some c \<and> cap_resource c = Serial)"
  have "\<exists>u' tr out. user_run 5 enc ?p u k = Ret (Continues u' (k\<lparr>trace := tr, serial_out := out\<rparr>)) \<and> us_pc u' = us_pc u + 5 \<and>
      f_rax (us_regs u') = (if b then 0 else u64_MAX)"
    unfolding b_def using run_write [OF code1 _ assms(1,2,5)] by simp
  then obtain u1 tr out where 1: "user_run 5 enc ?p u k = Ret (Continues u1 (k\<lparr>trace := tr, serial_out := out\<rparr>))" "us_pc u1 = 12"
    "f_rax (us_regs u1) = (if b then 0 else u64_MAX)" using assms(3) by auto
  let ?k = "k\<lparr>trace := tr, serial_out := out\<rparr>"
  have code2: "drop (us_pc u1) ?p = MovI RBX 0xffffffffffffffff # Cmp RAX RBX # Jne 9 # drop 15 ?p"
    by (simp add: faulty_user_program_def 1(2))
  have l9: "label_pc ?p 9 = 26" by code_simp
  obtain u2 where 2: "user_run 3 enc ?p u1 ?k = Ret (Continues u2 ?k)" "us_pc u2 = (if b then 26 else 15)"
    using run_compare [OF code2, of enc ?k] 1(2,3) by (auto simp: l9 u64_MAX_def)
  show ?thesis
  proof (cases b)
    case True
    then have code3: "drop (us_pc u2) ?p = Lab 9 # MovI RAX 1 # Int80 # drop 29 ?p" by (simp add: faulty_user_program_def 2(2))
    have "\<exists>u' k'. user_run 11 enc ?p u k = Ret (Blocks WaitYield u' k')"
      using user_run_then [OF 1(1) user_run_then [OF 2(1) run_yield [OF code3]]] by auto
    then show ?thesis unfolding b_def [symmetric] if_P [OF True] .
  next
    case False
    then have code3: "drop (us_pc u2) ?p = MovI RAX 4 # MovI RDI 0 # MovI RSI 0xffffffff80000000 # MovI RDX 10 # Int80 # drop 20 ?p"
      by (simp add: faulty_user_program_def 2(2))
    obtain u3 where 3: "user_run 5 enc ?p u2 ?k = Ret (Continues u3 ?k)" "us_pc u3 = 20" "f_rax (us_regs u3) = u64_MAX"
      using run_refused_write [OF code3 kernel_pointer_refused, of enc ?k] 2(2) False by auto
    have code4: "drop (us_pc u3) ?p = MovI RBX 0xffffffffffffffff # Cmp RAX RBX # Jne 9 # drop 23 ?p"
      by (simp add: faulty_user_program_def 3(2))
    obtain u4 where 4: "user_run 3 enc ?p u3 ?k = Ret (Continues u4 ?k)" "us_pc u4 = 23"
      using run_compare [OF code4, of enc ?k] 3(2,3) by (auto simp: u64_MAX_def)
    have "\<exists>u'. user_run 2 enc ?p u4 ?k = Ret (PageFault 0x12345678 u')"
      using assms(4) 4(2) by (simp add: faulty_user_program_def user_run_numeral user_step_def Let_def)
    then obtain u5 where 5: "user_run 2 enc ?p u4 ?k = Ret (PageFault 0x12345678 u5)" by blast
    have "\<exists>u'. user_run 18 enc ?p u k = Ret (PageFault 0x12345678 u')"
      using user_run_then [OF 1(1) user_run_then [OF 2(1) user_run_then [OF 3(1) user_run_then [OF 4(1) 5]]]] by auto
    then show ?thesis unfolding b_def [symmetric] if_not_P [OF False] .
  qed
qed

end
