(* ===== verification/Descriptors.thy ===== *)
theory Descriptors
  imports Process
begin

text \<open>
  The processor tables and controllers that boot programs: segment and interrupt descriptors
  (\<open>arch/x86_64/gdt.rs\<close>, \<open>interrupts/mod.rs\<close>), the interrupt controller and the timer
  (\<open>interrupts/mod.rs\<close>), and the local interrupt controller (\<open>arch/x86_64/apic.rs\<close>). What the code
  writes is modelled as it is written; how the hardware reads it is stated separately, from the
  processor and device manuals, and the properties relate the two.
\<close>

subsection \<open>Interrupt descriptor table\<close>

record idt_entry =
  offset_low :: u16
  ie_selector :: u16
  ie_ist :: u8
  type_attr :: u8
  offset_mid :: u16
  offset_high :: u32
  ie_zero :: u32

definition IdtEntry_empty :: idt_entry where
  "IdtEntry_empty = \<lparr>offset_low = 0, ie_selector = 0, ie_ist = 0, type_attr = 0, offset_mid = 0,
     offset_high = 0, ie_zero = 0\<rparr>"

definition IdtEntry_new :: "u64 \<Rightarrow> u16 \<Rightarrow> u8 \<Rightarrow> idt_entry" where
  "IdtEntry_new handler_addr selector dpl =
     \<lparr>offset_low = ucast (handler_addr AND 0xffff), ie_selector = selector, ie_ist = 0,
      type_attr = 0x8e OR push_bit 5 (dpl AND 0x3),
      offset_mid = ucast (drop_bit 16 handler_addr AND 0xffff),
      offset_high = ucast (drop_bit 32 handler_addr AND 0xffffffff), ie_zero = 0\<rparr>"

definition IDT_ENTRIES :: nat where
  "IDT_ENTRIES = 256"

definition TIMER_VECTOR :: nat where
  "TIMER_VECTOR = 0x20"

definition set_handler_dpl :: "nat \<Rightarrow> u64 \<Rightarrow> u16 \<Rightarrow> u8 \<Rightarrow> idt_entry list \<Rightarrow> idt_entry list run" where
  "set_handler_dpl vector handler_addr selector dpl idt =
     (if vector < length idt then Ret (idt[vector := IdtEntry_new handler_addr selector dpl]) else Panic)"

definition set_handler :: "nat \<Rightarrow> u64 \<Rightarrow> u16 \<Rightarrow> idt_entry list \<Rightarrow> idt_entry list run" where
  "set_handler vector handler_addr selector = set_handler_dpl vector handler_addr selector 0"

text \<open>The addresses the linker gives the entry stubs.\<close>

record trap_entries =
  divide_error_entry :: u64
  invalid_opcode_entry :: u64
  double_fault_handler :: u64
  general_protection_entry :: u64
  page_fault_entry :: u64
  timer_interrupt_entry :: u64
  keyboard_interrupt_entry :: u64
  ipi_interrupt_entry :: u64
  syscall_entry :: u64

record idt_pointer =
  idt_limit :: u16
  idt_base :: u64

text \<open>
  \<open>init_idt\<close>, with the code selector that \<open>current_cs\<close> reads and the address of the table: the table,
  and the pointer that \<open>lidt\<close> loads.
\<close>

definition init_idt ::
  "u16 \<Rightarrow> trap_entries \<Rightarrow> u64 \<Rightarrow> idt_entry list \<Rightarrow> (idt_entry list \<times> idt_pointer) run" where
  "init_idt cs h base idt =
     run_bind (set_handler 0 (divide_error_entry h) cs idt) (\<lambda>idt.
     run_bind (set_handler 6 (invalid_opcode_entry h) cs idt) (\<lambda>idt.
     run_bind (set_handler 8 (double_fault_handler h) cs idt) (\<lambda>idt.
     run_bind (set_handler 13 (general_protection_entry h) cs idt) (\<lambda>idt.
     run_bind (set_handler 14 (page_fault_entry h) cs idt) (\<lambda>idt.
     run_bind (set_handler TIMER_VECTOR (timer_interrupt_entry h) cs idt) (\<lambda>idt.
     run_bind (set_handler 0x21 (keyboard_interrupt_entry h) cs idt) (\<lambda>idt.
     run_bind (set_handler 0x40 (ipi_interrupt_entry h) cs idt) (\<lambda>idt.
     run_bind (set_handler_dpl 0x80 (syscall_entry h) cs 3 idt) (\<lambda>idt.
     Ret (idt, \<lparr>idt_limit = of_nat (16 * IDT_ENTRIES - 1), idt_base = base\<rparr>))))))))))"

text \<open>How the processor reads a gate.\<close>

definition gate_present :: "idt_entry \<Rightarrow> bool" where
  "gate_present e = bit (type_attr e) 7"

definition gate_dpl :: "idt_entry \<Rightarrow> u8" where
  "gate_dpl e = drop_bit 5 (type_attr e) AND 0x3"

definition gate_is_interrupt :: "idt_entry \<Rightarrow> bool" where
  "gate_is_interrupt e \<longleftrightarrow> type_attr e AND 0x1f = 0xe"

definition gate_target :: "idt_entry \<Rightarrow> u64" where
  "gate_target e = ucast (offset_low e) OR push_bit 16 (ucast (offset_mid e)) OR push_bit 32 (ucast (offset_high e))"

text \<open>A software interrupt from ring 3 goes through only if the gate's privilege level admits it.\<close>

definition open_to_user :: "idt_entry \<Rightarrow> bool" where
  "open_to_user e \<longleftrightarrow> gate_present e \<and> gate_dpl e = 3"

lemma field_masks: "(0xff :: u64) = mask 8" "(0xffff :: u64) = mask 16" "(0xffffffff :: u64) = mask 32" "(0xf :: u64) = mask 4"
  by (simp_all add: mask_eq_exp_minus_1)

lemma gate_target_new: "gate_target (IdtEntry_new a sel dpl) = a"
proof (rule bit_word_eqI)
  fix n
  assume "n < LENGTH(64)"
  then show "bit (gate_target (IdtEntry_new a sel dpl)) n = bit a n"
    unfolding gate_target_def IdtEntry_new_def field_masks
    by (cases "n < 16"; cases "n < 32") (auto simp: bit_simps le_add_diff_inverse not_less)
qed

lemma gate_new [simp]:
  "gate_present (IdtEntry_new a sel 0)" "gate_dpl (IdtEntry_new a sel 0) = 0" "gate_is_interrupt (IdtEntry_new a sel 0)"
  "gate_present (IdtEntry_new a sel 3)" "gate_dpl (IdtEntry_new a sel 3) = 3" "gate_is_interrupt (IdtEntry_new a sel 3)"
  "ie_selector (IdtEntry_new a sel d) = sel"
  by (simp_all add: gate_present_def gate_dpl_def gate_is_interrupt_def IdtEntry_new_def bit_simps)

lemma set_handler_dpl_Ret [simp]:
  "v < length idt \<Longrightarrow> set_handler_dpl v a sel d idt = Ret (idt[v := IdtEntry_new a sel d])"
  by (simp add: set_handler_dpl_def)

text \<open>The vectors that \<open>init_idt\<close> fills.\<close>

definition handler_of :: "trap_entries \<Rightarrow> nat \<Rightarrow> u64 option" where
  "handler_of h v = map_of [(0, divide_error_entry h), (6, invalid_opcode_entry h), (8, double_fault_handler h),
     (13, general_protection_entry h), (14, page_fault_entry h), (0x20, timer_interrupt_entry h),
     (0x21, keyboard_interrupt_entry h), (0x40, ipi_interrupt_entry h), (0x80, syscall_entry h)] v"

lemma init_idt_table:
  assumes "length idt = IDT_ENTRIES"
  shows "init_idt cs h base idt = Ret (idt[0 := IdtEntry_new (divide_error_entry h) cs 0,
      6 := IdtEntry_new (invalid_opcode_entry h) cs 0, 8 := IdtEntry_new (double_fault_handler h) cs 0,
      13 := IdtEntry_new (general_protection_entry h) cs 0, 14 := IdtEntry_new (page_fault_entry h) cs 0,
      0x20 := IdtEntry_new (timer_interrupt_entry h) cs 0, 0x21 := IdtEntry_new (keyboard_interrupt_entry h) cs 0,
      0x40 := IdtEntry_new (ipi_interrupt_entry h) cs 0, 0x80 := IdtEntry_new (syscall_entry h) cs 3],
      \<lparr>idt_limit = 4095, idt_base = base\<rparr>)"
  using assms by (simp add: init_idt_def set_handler_def IDT_ENTRIES_def TIMER_VECTOR_def)

lemma init_idt_entry:
  assumes "length idt = IDT_ENTRIES" "init_idt cs h base idt = Ret (idt', p)"
  shows "length idt' = IDT_ENTRIES"
    "v < IDT_ENTRIES \<Longrightarrow> idt' ! v = (case handler_of h v of
       Some a \<Rightarrow> IdtEntry_new a cs (if v = 0x80 then 3 else 0) | None \<Rightarrow> idt ! v)"
  using assms unfolding init_idt_table [OF assms(1)]
  by (auto simp: handler_of_def nth_list_update IDT_ENTRIES_def)

subsection \<open>Segments and the task state segment\<close>

definition KERNEL_DATA :: u16 where "KERNEL_DATA = 0x10"
definition TSS_SELECTOR :: u16 where "TSS_SELECTOR = 0x28"
definition GDT_LEN :: nat where "GDT_LEN = 7"
definition KSTACK_SIZE :: nat where "KSTACK_SIZE = 16 * 1024"

text \<open>The fields of the packed structure; it is 104 bytes long.\<close>

record tss =
  reserved0 :: u32
  rsp0 :: u64
  rsp1 :: u64
  rsp2 :: u64
  reserved1 :: u64
  tss_ist :: "u64 list"
  reserved2 :: u64
  reserved3 :: u16
  iomap_base :: u16

definition TSS_SIZE :: nat where "TSS_SIZE = 4 + 3 * 8 + 8 + 7 * 8 + 8 + 2 + 2"

definition Tss_new :: tss where
  "Tss_new = \<lparr>reserved0 = 0, rsp0 = 0, rsp1 = 0, rsp2 = 0, reserved1 = 0, tss_ist = replicate 7 0,
     reserved2 = 0, reserved3 = 0, iomap_base = of_nat TSS_SIZE\<rparr>"

text \<open>The statics, one table per processor, and where the linker puts them.\<close>

record cpu_tables =
  tsss :: "tss list"
  gdts :: "u64 list list"
  boot_gdt :: "u64 list"

record cpu_layout =
  tsss_addr :: u64
  gdts_addr :: u64
  kernel_stacks_addr :: u64

definition cpu_tables_init :: cpu_tables where
  "cpu_tables_init = \<lparr>tsss = replicate 4 Tss_new, gdts = replicate 4 (replicate GDT_LEN 0),
     boot_gdt = replicate GDT_LEN 0\<rparr>"

record gdt_pointer =
  gdt_limit :: u16
  gdt_base :: u64

text \<open>What the assembler at the end of \<open>init_cpu\<close> loads into the processor.\<close>

record cpu_loads =
  gdtr :: gdt_pointer
  data_segments :: u16
  code_segment :: u16
  task_register :: u16

definition segment :: "u8 \<Rightarrow> u8 \<Rightarrow> u64" where
  "segment access flags = push_bit 40 (ucast access) OR push_bit 52 (ucast (flags AND 0x0f))"

text \<open>The two words of the task state segment's descriptor.\<close>

definition tss_low :: "u64 \<Rightarrow> u64 \<Rightarrow> u64" where
  "tss_low base limit = (limit AND 0xffff)
     OR push_bit 16 (base AND 0xffff)
     OR push_bit 32 (drop_bit 16 base AND 0xff)
     OR push_bit 40 0x89
     OR push_bit 48 (drop_bit 16 limit AND 0xf)
     OR push_bit 56 (drop_bit 24 base AND 0xff)"

definition tss_high :: "u64 \<Rightarrow> u64" where
  "tss_high base = drop_bit 32 base AND 0xffffffff"

definition init_cpu :: "cpu_layout \<Rightarrow> nat \<Rightarrow> cpu_tables \<Rightarrow> (cpu_tables \<times> cpu_loads) run" where
  "init_cpu l cpu_id c =
     (if \<not> cpu_id < 4 then Panic
      else
        let tss_base = tsss_addr l + of_nat (cpu_id * TSS_SIZE);
            tss_limit = of_nat (TSS_SIZE - 1);
            gdt = (gdts c ! cpu_id)[1 := segment 0x9a 0x2, 2 := segment 0x92 0x0, 3 := segment 0xfa 0x2,
                    4 := segment 0xf2 0x0, 5 := tss_low tss_base tss_limit, 6 := tss_high tss_base];
            kstack_top = kernel_stacks_addr l + of_nat (cpu_id * KSTACK_SIZE) + of_nat KSTACK_SIZE;
            c = c\<lparr>gdts := (gdts c)[cpu_id := gdt],
                  tsss := (tsss c)[cpu_id := (tsss c ! cpu_id)\<lparr>rsp0 := kstack_top AND NOT 0xf\<rparr>]\<rparr>;
            c = (if cpu_id = 0 then c\<lparr>boot_gdt := gdts c ! 0\<rparr> else c)
        in Ret (c, \<lparr>gdtr = \<lparr>gdt_limit = of_nat (8 * GDT_LEN - 1), gdt_base = gdts_addr l + of_nat (cpu_id * (8 * GDT_LEN))\<rparr>,
                    data_segments = KERNEL_DATA, code_segment = KERNEL_CODE, task_register = TSS_SELECTOR\<rparr>))"

text \<open>\<open>gdt::init\<close>.\<close>

definition gdt_init :: "cpu_layout \<Rightarrow> cpu_tables \<Rightarrow> (cpu_tables \<times> cpu_loads) run" where
  "gdt_init l = init_cpu l 0"

text \<open>How the processor reads a selector and a descriptor.\<close>

definition selected :: "u64 list \<Rightarrow> u16 \<Rightarrow> u64" where
  "selected gdt sel = gdt ! unat (drop_bit 3 sel)"

definition requested_level :: "u16 \<Rightarrow> nat" where
  "requested_level sel = unat (sel AND 0x3)"

definition seg_present :: "u64 \<Rightarrow> bool" where "seg_present d = bit d 47"
definition seg_level :: "u64 \<Rightarrow> nat" where "seg_level d = unat (drop_bit 45 d AND 0x3)"
definition seg_executable :: "u64 \<Rightarrow> bool" where "seg_executable d \<longleftrightarrow> bit d 44 \<and> bit d 43"
definition seg_long_mode :: "u64 \<Rightarrow> bool" where "seg_long_mode d \<longleftrightarrow> bit d 53 \<and> \<not> bit d 54"
definition seg_writable_data :: "u64 \<Rightarrow> bool" where "seg_writable_data d \<longleftrightarrow> bit d 44 \<and> \<not> bit d 43 \<and> bit d 41"

definition tss_desc_base :: "u64 \<Rightarrow> u64 \<Rightarrow> u64" where
  "tss_desc_base lo hi = (drop_bit 16 lo AND 0xffffff) OR push_bit 24 (drop_bit 56 lo) OR push_bit 32 (hi AND 0xffffffff)"

definition tss_desc_limit :: "u64 \<Rightarrow> u64" where
  "tss_desc_limit lo = (lo AND 0xffff) OR push_bit 16 (drop_bit 48 lo AND 0xf)"

definition tss_desc_available :: "u64 \<Rightarrow> bool" where
  "tss_desc_available lo \<longleftrightarrow> drop_bit 40 lo AND 0xff = 0x89"

lemma field_mask24: "(0xffffff :: u64) = mask 24"
  by (simp add: mask_eq_exp_minus_1)

lemma tss_word_bit:
  fixes b l t :: u64
  shows "n < 64 \<Longrightarrow> bit ((l AND mask 16) OR push_bit 16 (b AND mask 16) OR push_bit 32 (drop_bit 16 b AND mask 8)
       OR push_bit 40 (t AND mask 8) OR push_bit 48 (drop_bit 16 l AND mask 4) OR push_bit 56 (drop_bit 24 b AND mask 8)) n \<longleftrightarrow>
     (if n < 16 then bit l n else if n < 40 then bit b (n - 16)
      else if n < 48 then bit t (n - 40) else if n < 52 then bit l (n - 32) else 56 \<le> n \<and> bit b (n - 32))"
  by (cases "n < 16"; cases "n < 32"; cases "n < 40"; cases "n < 48"; cases "n < 52"; cases "n < 56")
    (auto simp: bit_simps)

lemma mask_137: "(0x89 :: u64) = 0x89 AND mask 8"
  by (simp add: mask_eq_exp_minus_1)

lemma bit_tss_low:
  "n < 64 \<Longrightarrow> bit (tss_low b l) n \<longleftrightarrow>
     (if n < 16 then bit l n else if n < 40 then bit b (n - 16)
      else if n < 48 then bit (0x89 :: u64) (n - 40) else if n < 52 then bit l (n - 32) else 56 \<le> n \<and> bit b (n - 32))"
  unfolding tss_low_def field_masks
  by (subst mask_137) (rule tss_word_bit)

lemma tss_base_round_trip: "tss_desc_base (tss_low b l) (tss_high b) = b"
proof (rule bit_word_eqI)
  fix n
  assume "n < LENGTH(64)"
  then show "bit (tss_desc_base (tss_low b l) (tss_high b)) n = bit b n"
    unfolding tss_desc_base_def tss_high_def field_masks field_mask24
    by (cases "n < 24"; cases "n < 32") (auto simp: bit_simps bit_tss_low not_less dest: bit_imp_le_length)
qed

lemma tss_limit_round_trip: "l < 2 ^ 20 \<Longrightarrow> tss_desc_limit (tss_low b l) = l"
proof (rule bit_word_eqI)
  fix n
  assume "l < 2 ^ 20" and "n < LENGTH(64)"
  then have "bit l n \<Longrightarrow> n < 20"
    by (metis bit_take_bit_iff less_mask_eq mask_eq_exp_minus_1 take_bit_eq_mask)
  with \<open>n < LENGTH(64)\<close> show "bit (tss_desc_limit (tss_low b l)) n = bit l n"
    unfolding tss_desc_limit_def field_masks
    by (cases "n < 16"; cases "n < 20") (auto simp: bit_simps bit_tss_low)
qed

lemma tss_low_available: "tss_desc_available (tss_low b l)"
  unfolding tss_desc_available_def
proof (rule bit_word_eqI)
  fix n
  assume "n < LENGTH(64)"
  moreover have "bit (0x89 :: u64) n \<longleftrightarrow> n < 8 \<and> bit (0x89 :: u64) n"
    by (subst mask_137) (auto simp: bit_and_iff bit_mask_iff)
  ultimately show "bit (drop_bit 40 (tss_low b l) AND 0xff) n = bit (0x89 :: u64) n"
    unfolding field_masks by (auto simp: bit_simps bit_tss_low)
qed

text \<open>What the processor finds behind each selector once \<open>init_cpu\<close> has run.\<close>

definition segments_ok :: "u64 list \<Rightarrow> bool" where
  "segments_ok gdt \<longleftrightarrow>
     (\<forall>sel \<in> {KERNEL_CODE, USER_CODE}. seg_present (selected gdt sel) \<and> seg_executable (selected gdt sel)
        \<and> seg_long_mode (selected gdt sel) \<and> seg_level (selected gdt sel) = requested_level sel)
   \<and> (\<forall>sel \<in> {KERNEL_DATA, USER_DATA}. seg_present (selected gdt sel) \<and> seg_writable_data (selected gdt sel)
        \<and> seg_level (selected gdt sel) = requested_level sel)"

lemma segments_ok_table:
  "length g = GDT_LEN \<Longrightarrow> g ! 1 = segment 0x9a 0x2 \<Longrightarrow> g ! 2 = segment 0x92 0x0 \<Longrightarrow> g ! 3 = segment 0xfa 0x2
   \<Longrightarrow> g ! 4 = segment 0xf2 0x0 \<Longrightarrow> segments_ok g"
  by (simp add: segments_ok_def selected_def KERNEL_CODE_def USER_CODE_def KERNEL_DATA_def USER_DATA_def
      segment_def seg_present_def seg_level_def seg_executable_def seg_long_mode_def seg_writable_data_def requested_level_def)

definition cpu_tables_wf :: "cpu_tables \<Rightarrow> bool" where
  "cpu_tables_wf c \<longleftrightarrow> length (gdts c) = 4 \<and> length (tsss c) = 4 \<and> (\<forall>g \<in> set (gdts c). length g = GDT_LEN)"

lemma cpu_tables_wf_init: "cpu_tables_wf cpu_tables_init"
  by (simp add: cpu_tables_wf_def cpu_tables_init_def)

lemma init_cpu_updates:
  assumes "i < 4" and "cpu_tables_wf c"
  obtains c' p where "init_cpu l i c = Ret (c', p)"
    and "gdts c' = (gdts c)[i := (gdts c ! i)[1 := segment 0x9a 0x2, 2 := segment 0x92 0x0, 3 := segment 0xfa 0x2,
            4 := segment 0xf2 0x0, 5 := tss_low (tsss_addr l + of_nat (i * TSS_SIZE)) (of_nat (TSS_SIZE - 1)),
            6 := tss_high (tsss_addr l + of_nat (i * TSS_SIZE))]]"
    and "tsss c' = (tsss c)[i := (tsss c ! i)\<lparr>rsp0 := (kernel_stacks_addr l + of_nat (Suc i * KSTACK_SIZE)) AND NOT 0xf\<rparr>]"
    and "gdt_limit (gdtr p) = 55" and "gdt_base (gdtr p) = gdts_addr l + of_nat (i * 56)"
    and "data_segments p = KERNEL_DATA" and "code_segment p = KERNEL_CODE" and "task_register p = TSS_SELECTOR"
    and "boot_gdt c' = (if i = 0 then gdts c' ! 0 else boot_gdt c)"
  using assms that by (fastforce simp: init_cpu_def Let_def GDT_LEN_def algebra_simps)

lemma cpu_tables_wf_init_cpu:
  assumes "init_cpu l i c = Ret (c', p)" and "cpu_tables_wf c"
  shows "cpu_tables_wf c'"
proof -
  have "i < 4" using assms by (simp add: init_cpu_def split: if_splits)
  then obtain c'' p' where "init_cpu l i c = Ret (c'', p')"
    and "gdts c'' = (gdts c)[i := (gdts c ! i)[1 := segment 0x9a 0x2, 2 := segment 0x92 0x0, 3 := segment 0xfa 0x2,
            4 := segment 0xf2 0x0, 5 := tss_low (tsss_addr l + of_nat (i * TSS_SIZE)) (of_nat (TSS_SIZE - 1)),
            6 := tss_high (tsss_addr l + of_nat (i * TSS_SIZE))]]"
    and "tsss c'' = (tsss c)[i := (tsss c ! i)\<lparr>rsp0 := (kernel_stacks_addr l + of_nat (Suc i * KSTACK_SIZE)) AND NOT 0xf\<rparr>]"
    using assms init_cpu_updates [of i c l] by metis
  with assms \<open>i < 4\<close> show ?thesis
    by (auto simp: cpu_tables_wf_def dest!: set_update_subset_insert [THEN subsetD])
qed

text \<open>For each of the four processors, \<open>init_cpu\<close> returns and leaves a table in which the selectors the kernel loads
  pick out present segments of the right kind whose privilege level is the one the selector asks for, and in which the
  task state segment's descriptor, read as the processor reads it, gives the address of that processor's own segment, its
  size minus one and the type of an available task state segment.  The stack for entries from ring 3 is the top of that
  processor's kernel stack rounded down to 16 bytes, and no other processor's table changes.\<close>

theorem processor_tables_decode:
  assumes "i < 4" and "cpu_tables_wf c"
  shows "\<exists>c' p. init_cpu l i c = Ret (c', p) \<and> cpu_tables_wf c'
     \<and> segments_ok (gdts c' ! i) \<and> code_segment p = KERNEL_CODE \<and> data_segments p = KERNEL_DATA
     \<and> tss_desc_base (gdts c' ! i ! unat (drop_bit 3 (task_register p))) (gdts c' ! i ! Suc (unat (drop_bit 3 (task_register p))))
         = tsss_addr l + of_nat (i * TSS_SIZE)
     \<and> tss_desc_limit (gdts c' ! i ! unat (drop_bit 3 (task_register p))) = of_nat TSS_SIZE - 1
     \<and> tss_desc_available (gdts c' ! i ! unat (drop_bit 3 (task_register p)))
     \<and> rsp0 (tsss c' ! i) = (kernel_stacks_addr l + of_nat (Suc i * KSTACK_SIZE)) AND NOT 0xf
     \<and> gdts c' = (gdts c)[i := gdts c' ! i] \<and> tsss c' = (tsss c)[i := tsss c' ! i]"
proof -
  obtain c' p where r: "init_cpu l i c = Ret (c', p)"
    and g: "gdts c' = (gdts c)[i := (gdts c ! i)[1 := segment 0x9a 0x2, 2 := segment 0x92 0x0, 3 := segment 0xfa 0x2,
            4 := segment 0xf2 0x0, 5 := tss_low (tsss_addr l + of_nat (i * TSS_SIZE)) (of_nat (TSS_SIZE - 1)),
            6 := tss_high (tsss_addr l + of_nat (i * TSS_SIZE))]]"
    and t: "tsss c' = (tsss c)[i := (tsss c ! i)\<lparr>rsp0 := (kernel_stacks_addr l + of_nat (Suc i * KSTACK_SIZE)) AND NOT 0xf\<rparr>]"
    and p: "data_segments p = KERNEL_DATA" "code_segment p = KERNEL_CODE" "task_register p = TSS_SELECTOR"
    using init_cpu_updates [OF assms] by metis
  have len: "length (gdts c) = 4" "length (tsss c) = 4" "length (gdts c ! i) = 7"
    using assms by (auto simp: cpu_tables_wf_def GDT_LEN_def)
  have seg: "segments_ok (gdts c' ! i)"
    using assms len by (intro segments_ok_table) (simp_all add: g GDT_LEN_def)
  have sel: "unat (drop_bit 3 TSS_SELECTOR) = 5"
    by (simp add: TSS_SELECTOR_def)
  have lim: "of_nat TSS_SIZE - 1 = (103 :: u64)" "of_nat (TSS_SIZE - 1) = (103 :: u64)"
    "of_nat (TSS_SIZE - Suc 0) = (103 :: u64)"
    by (simp_all add: TSS_SIZE_def)
  have low: "gdts c' ! i ! 5 = tss_low (tsss_addr l + of_nat (i * TSS_SIZE)) 103"
    "gdts c' ! i ! Suc 5 = tss_high (tsss_addr l + of_nat (i * TSS_SIZE))"
    using assms len by (simp_all add: g lim)
  show ?thesis
    using r cpu_tables_wf_init_cpu [OF r] assms seg len
    by (intro exI [of _ c'] exI [of _ p] conjI)
      (simp_all only: p sel low tss_base_round_trip lim, simp_all add: tss_limit_round_trip tss_low_available t, simp_all add: g)
qed

theorem processor_tables_decode_witness:
  "\<exists>c' p. init_cpu \<lparr>tsss_addr = 0x201000, gdts_addr = 0x202000, kernel_stacks_addr = 0x210008\<rparr> 3 cpu_tables_init = Ret (c', p)
     \<and> rsp0 (tsss c' ! 3) = 0x220000 \<and> segments_ok (gdts c' ! 3)"
  using processor_tables_decode [of 3 cpu_tables_init "\<lparr>tsss_addr = 0x201000, gdts_addr = 0x202000, kernel_stacks_addr = 0x210008\<rparr>"]
  by (auto simp: cpu_tables_wf_init KSTACK_SIZE_def)

lemma init_cpu_out_of_range: "4 \<le> i \<Longrightarrow> init_cpu l i c = Panic"
  by (simp add: init_cpu_def)

subsection \<open>Delivery of exceptions\<close>

text \<open>
  How the processor delivers an exception through the table.  A gate it cannot use raises a general protection
  exception; if that happens while a contributory exception or a page fault is being delivered, the two combine to a
  double fault, and a fault in the delivery of that one shuts the processor down.  Otherwise the processor continues at the
  address the gate holds.  These are the processor's documented rules, not code of the kernel.
\<close>

datatype delivery = Taken u64 | Shutdown

definition gate_usable :: "idt_entry \<Rightarrow> bool" where
  "gate_usable e \<longleftrightarrow> gate_is_interrupt e \<and> gate_present e"

definition escalates :: "nat \<Rightarrow> bool" where
  "escalates v \<longleftrightarrow> v \<in> {0, 10, 11, 12, 13, 14, 20, 21}"

definition deliver :: "idt_entry list \<Rightarrow> nat \<Rightarrow> delivery" where
  "deliver idt v =
     (if gate_usable (idt ! v) then Taken (gate_target (idt ! v))
      else if v \<noteq> 8 \<and> \<not> escalates v \<and> gate_usable (idt ! 13) then Taken (gate_target (idt ! 13))
      else if v \<noteq> 8 \<and> gate_usable (idt ! 8) then Taken (gate_target (idt ! 8))
      else Shutdown)"

definition empty_idt :: "idt_entry list" where
  "empty_idt = replicate IDT_ENTRIES IdtEntry_empty"

lemma length_empty_idt [simp]: "length empty_idt = IDT_ENTRIES"
  by (simp add: empty_idt_def)

lemma empty_gate [simp]: "\<not> gate_present IdtEntry_empty" "\<not> gate_usable IdtEntry_empty" "\<not> open_to_user IdtEntry_empty"
  by (simp_all add: gate_present_def gate_usable_def open_to_user_def IdtEntry_empty_def)

lemma filled_gate [simp]:
  "gate_usable (IdtEntry_new a sel 0)" "gate_usable (IdtEntry_new a sel 3)"
  "\<not> open_to_user (IdtEntry_new a sel 0)" "open_to_user (IdtEntry_new a sel 3)"
  by (simp_all add: gate_usable_def open_to_user_def)

lemma installed_gate:
  assumes "init_idt cs h base empty_idt = Ret (idt, p)" "v < IDT_ENTRIES"
  shows "idt ! v = (case handler_of h v of
       Some a \<Rightarrow> IdtEntry_new a cs (if v = 0x80 then 3 else 0) | None \<Rightarrow> IdtEntry_empty)"
  using init_idt_entry(2) [OF length_empty_idt assms] assms(2) by (simp add: empty_idt_def split: option.split)

lemma handler_of_dom: "handler_of h v = None \<longleftrightarrow> v \<notin> {0, 6, 8, 13, 14, 0x20, 0x21, 0x40, 0x80}"
  by (auto simp: handler_of_def)

lemma installed_usable:
  assumes "init_idt cs h base empty_idt = Ret (idt, p)" "v < IDT_ENTRIES"
  shows "gate_usable (idt ! v) \<longleftrightarrow> v \<in> {0, 6, 8, 13, 14, 0x20, 0x21, 0x40, 0x80}"
    "open_to_user (idt ! v) \<longleftrightarrow> v = 0x80"
  using handler_of_dom [of h v] by (auto simp: installed_gate [OF assms] split: option.split)

text \<open>Boot's interrupt table is closed: ring 3 can enter the kernel by a software interrupt only through vector 0x80,
  and the gates that can be taken are exactly those of the nine handlers, each an interrupt gate, which enters with
  interrupts off, through the code segment that was current, to the handler's own address.\<close>

theorem idt_only_syscall_open:
  assumes "init_idt cs h base empty_idt = Ret (idt, p)"
  shows "length idt = 256 \<and> unat (idt_limit p) + 1 = 16 * length idt
     \<and> {v. v < 256 \<and> open_to_user (idt ! v)} = {0x80}
     \<and> {v. v < 256 \<and> gate_present (idt ! v)} = {0, 6, 8, 13, 14, 0x20, 0x21, 0x40, 0x80}
     \<and> (\<forall>v a. handler_of h v = Some a \<longrightarrow>
          gate_target (idt ! v) = a \<and> ie_selector (idt ! v) = cs \<and> gate_is_interrupt (idt ! v))"
proof -
  have len: "length idt = 256" "idt_limit p = 4095"
    using assms init_idt_table [OF length_empty_idt, of cs h base] init_idt_entry(1) [OF length_empty_idt assms]
    by (auto simp: IDT_ENTRIES_def)
  have gate: "gate_target (idt ! v) = a \<and> ie_selector (idt ! v) = cs \<and> gate_is_interrupt (idt ! v)"
    if "handler_of h v = Some a" for v a
  proof -
    have "v < IDT_ENTRIES"
      using that handler_of_dom [of h v] by (auto simp: IDT_ENTRIES_def)
    then show ?thesis
      using installed_gate [OF assms, of v] that by (simp add: gate_target_new)
  qed
  have "gate_present (idt ! v) = gate_usable (idt ! v)" if "v < IDT_ENTRIES" for v
    by (cases "handler_of h v") (simp_all add: installed_gate [OF assms that])
  then show ?thesis
    using len gate installed_usable [OF assms] by (auto simp: IDT_ENTRIES_def)
qed

definition sample_entries :: trap_entries where
  "sample_entries = \<lparr>divide_error_entry = 0xffffffff80001000, invalid_opcode_entry = 0xffffffff80001010,
     double_fault_handler = 0xffffffff80001020, general_protection_entry = 0xffffffff80001030,
     page_fault_entry = 0xffffffff80001040, timer_interrupt_entry = 0xffffffff80001050,
     keyboard_interrupt_entry = 0xffffffff80001060, ipi_interrupt_entry = 0xffffffff80001070,
     syscall_entry = 0xffffffff80001080\<rparr>"

definition sample_idt :: "idt_entry list \<times> idt_pointer" where
  "sample_idt = (case init_idt KERNEL_CODE sample_entries 0xffffffff80100000 empty_idt of Ret r \<Rightarrow> r)"

lemma sample_idt_Ret: "init_idt KERNEL_CODE sample_entries 0xffffffff80100000 empty_idt = Ret (fst sample_idt, snd sample_idt)"
  by (simp add: sample_idt_def init_idt_table)

theorem idt_only_syscall_open_witness:
  "{v. v < 256 \<and> open_to_user (fst sample_idt ! v)} = {0x80} \<and> gate_target (fst sample_idt ! 0x80) = 0xffffffff80001080"
  using idt_only_syscall_open [OF sample_idt_Ret] by (simp add: handler_of_def sample_entries_def)

text \<open>The entry point of the code for each of the thirty-two exceptions.\<close>

definition exception_entry :: "trap_entries \<Rightarrow> nat \<Rightarrow> u64" where
  "exception_entry h v =
     (if v = 0 then divide_error_entry h else if v = 6 then invalid_opcode_entry h else if v = 14 then page_fault_entry h
      else if v \<in> {8, 10, 11, 12, 20, 21} then double_fault_handler h else general_protection_entry h)"

lemma installed_target:
  assumes "init_idt cs h base empty_idt = Ret (idt, p)" "v < 256" "handler_of h v = Some a"
  shows "gate_target (idt ! v) = a"
  using installed_gate [OF assms(1), of v] assms(2,3) by (simp add: gate_target_new IDT_ENTRIES_def)



subsection \<open>Interrupt controller and timer\<close>

type_synonym port_writes = "(u16 \<times> u8) list"

definition PIC1_CMD :: u16 where "PIC1_CMD = 0x20"
definition PIC1_DATA :: u16 where "PIC1_DATA = 0x21"
definition PIC2_CMD :: u16 where "PIC2_CMD = 0xA0"
definition PIC2_DATA :: u16 where "PIC2_DATA = 0xA1"
definition PIC_EOI :: u8 where "PIC_EOI = 0x20"

text \<open>\<open>outb\<close> of \<open>interrupts/mod.rs\<close>: the writes in the order the devices see them.\<close>

definition port_outb :: "u16 \<Rightarrow> u8 \<Rightarrow> port_writes \<Rightarrow> port_writes" where
  "port_outb port val io = io @ [(port, val)]"

definition init_pic :: "port_writes \<Rightarrow> port_writes" where
  "init_pic io =
     (let io = port_outb PIC1_CMD 0x11 io;
          io = port_outb PIC2_CMD 0x11 io;
          io = port_outb PIC1_DATA 0x20 io;
          io = port_outb PIC2_DATA 0x28 io;
          io = port_outb PIC1_DATA 0x04 io;
          io = port_outb PIC2_DATA 0x02 io;
          io = port_outb PIC1_DATA 0x01 io;
          io = port_outb PIC2_DATA 0x01 io;
          io = port_outb PIC1_DATA 0xFC io;
          io = port_outb PIC2_DATA 0xFF io
      in io)"

definition init_pit :: "u32 \<Rightarrow> port_writes \<Rightarrow> port_writes run" where
  "init_pit hz io =
     (if hz = 0 then Panic
      else
        let divisor = 1193182 div hz;
            dv = (ucast divisor :: u16);
            io = port_outb 0x43 0x36 io;
            io = port_outb 0x40 (ucast (dv AND 0xFF)) io;
            io = port_outb 0x40 (ucast (drop_bit 8 dv)) io
        in Ret io)"

definition pic_eoi :: "port_writes \<Rightarrow> port_writes" where
  "pic_eoi io = port_outb PIC1_CMD PIC_EOI io"

text \<open>
  The 8259 as its data sheet describes it: a command with bit 4 set starts the initialisation and clears the mask, the
  next three data bytes are the vector offset, the wiring and the mode, and any later data byte is the mask.  A
  command that ends an interrupt clears the highest-priority line in service.
\<close>

record pic =
  pic_expects :: nat
  pic_offset :: u8
  pic_wiring :: u8
  pic_mode :: u8
  pic_mask :: u8
  in_service :: "nat list"

definition pic_command :: "u8 \<Rightarrow> pic \<Rightarrow> pic" where
  "pic_command v p =
     (if bit v 4 then p\<lparr>pic_expects := 3, pic_mask := 0, in_service := []\<rparr>
      else if v AND 0xe0 = 0x20 then p\<lparr>in_service := tl (in_service p)\<rparr> else p)"

definition pic_data :: "u8 \<Rightarrow> pic \<Rightarrow> pic" where
  "pic_data v p =
     (if pic_expects p = 3 then p\<lparr>pic_expects := 2, pic_offset := v AND 0xf8\<rparr>
      else if pic_expects p = 2 then p\<lparr>pic_expects := 1, pic_wiring := v\<rparr>
      else if pic_expects p = 1 then p\<lparr>pic_expects := 0, pic_mode := v\<rparr>
      else p\<lparr>pic_mask := v\<rparr>)"

fun pics_see :: "port_writes \<Rightarrow> pic \<times> pic \<Rightarrow> pic \<times> pic" where
  "pics_see [] (m, s) = (m, s)"
| "pics_see ((port, v) # io) (m, s) =
     pics_see io
       (if port = 0x20 then (pic_command v m, s) else if port = 0x21 then (pic_data v m, s)
        else if port = 0xA0 then (m, pic_command v s) else if port = 0xA1 then (m, pic_data v s) else (m, s))"

text \<open>The vector on which a line is delivered, none when it is masked.  A line of the second controller comes through the
  first one's line 2.\<close>

definition irq_vector :: "pic \<times> pic \<Rightarrow> nat \<Rightarrow> nat option" where
  "irq_vector ps irq =
     (if irq < 8 then (if bit (pic_mask (fst ps)) irq then None else Some (unat (pic_offset (fst ps)) + irq))
      else if bit (pic_mask (fst ps)) 2 \<or> bit (pic_mask (snd ps)) (irq - 8) then None
      else Some (unat (pic_offset (snd ps)) + (irq - 8)))"

lemma pics_see_append: "pics_see (a @ b) ps = pics_see b (pics_see a ps)"
  by (induction a ps rule: pics_see.induct) simp_all

lemma init_pic_programs:
  "pics_see (init_pic io) ps = (let (m, s) = pics_see io ps in
     (m\<lparr>pic_expects := 0, pic_offset := 0x20, pic_wiring := 4, pic_mode := 1, pic_mask := 0xFC, in_service := []\<rparr>,
      s\<lparr>pic_expects := 0, pic_offset := 0x28, pic_wiring := 2, pic_mode := 1, pic_mask := 0xFF, in_service := []\<rparr>))"
  by (cases "pics_see io ps")
    (simp add: init_pic_def port_outb_def pics_see_append PIC1_CMD_def PIC1_DATA_def PIC2_CMD_def PIC2_DATA_def
      pic_command_def pic_data_def bit_simps)

lemma bit_252: "irq < 8 \<Longrightarrow> bit (0xFC :: u8) irq \<longleftrightarrow> 2 \<le> irq"
  by (auto simp: less_Suc_eq numeral_eq_Suc)


lemma bit_255: "irq < 16 \<Longrightarrow> \<not> irq < 8 \<Longrightarrow> bit (0xFF :: u8) (irq - 8)"
  unfolding mask_eq_exp_minus_1 [of 8, where 'a = "8 word", simplified, symmetric] by (simp only: bit_mask_iff) simp

lemma irq_vector_init:
  "irq < 16 \<Longrightarrow> irq_vector (pics_see (init_pic io) ps) irq = (if irq < 2 then Some (0x20 + irq) else None)"
  using bit_252 [of irq] bit_255 [of irq] by (auto simp: init_pic_programs irq_vector_def Let_def split: prod.split)

text \<open>Interrupt lines after boot.  Whatever was written to the controllers before, after \<open>init_pic\<close> exactly the timer's and
  the keyboard's lines are open; they arrive at vectors outside the processor's exceptions whose gates lead to the timer
  and the keyboard stub and which ring 3 cannot reach by a software interrupt.\<close>

theorem interrupt_lines_reach_their_handlers:
  assumes "init_idt cs h base empty_idt = Ret (idt, p)" and "irq < 16"
  shows "(irq_vector (pics_see (init_pic io) ps) irq = None \<longleftrightarrow> irq \<notin> {0, 1})
     \<and> (\<forall>v. irq_vector (pics_see (init_pic io) ps) irq = Some v \<longrightarrow>
           32 \<le> v \<and> gate_usable (idt ! v) \<and> \<not> open_to_user (idt ! v)
         \<and> gate_target (idt ! v) = (if irq = 0 then timer_interrupt_entry h else keyboard_interrupt_entry h))"
proof -
  have "gate_target (idt ! 32) = timer_interrupt_entry h" "gate_target (idt ! 33) = keyboard_interrupt_entry h"
    using installed_gate [OF assms(1), of 32] installed_gate [OF assms(1), of 33]
    by (simp_all add: IDT_ENTRIES_def handler_of_def gate_target_new)
  moreover have "gate_usable (idt ! v) \<and> \<not> open_to_user (idt ! v)" if "v \<in> {32, 33}" for v
    using installed_usable [OF assms(1), of v] that by (auto simp: IDT_ENTRIES_def)
  moreover have "irq = 0 \<or> irq = 1 \<or> 2 \<le> irq" by linarith
  ultimately show ?thesis
    using assms(2) by (auto simp: irq_vector_init)
qed

definition pic_reset :: pic where
  "pic_reset = \<lparr>pic_expects = 0, pic_offset = 8, pic_wiring = 0, pic_mode = 0, pic_mask = 0, in_service = []\<rparr>"

theorem interrupt_lines_reach_their_handlers_witness:
  "irq_vector (pics_see (init_pic []) (pic_reset, pic_reset)) 1 = Some 0x21
   \<and> gate_target (fst sample_idt ! 0x21) = 0xffffffff80001060"
  using interrupt_lines_reach_their_handlers [OF sample_idt_Ret, of 1 "[]" "(pic_reset, pic_reset)"]
  by (auto simp: irq_vector_init sample_entries_def)

text \<open>The end-of-interrupt command retires the line in service and leaves the lines open.\<close>

lemma pic_eoi_retires:
  "in_service (fst (pics_see (pic_eoi io) ps)) = tl (in_service (fst (pics_see io ps)))"
  "irq_vector (pics_see (pic_eoi io) ps) = irq_vector (pics_see io ps)"
  by (cases "pics_see io ps"; simp add: pic_eoi_def port_outb_def pics_see_append PIC1_CMD_def PIC_EOI_def
      pic_command_def irq_vector_def fun_eq_iff)+

text \<open>Channel 0 of the timer: after a control word asking for low byte then high byte, each pair of data bytes is a reload
  value, zero standing for 65536.  It fires 1193182 times a second divided by the reload value.\<close>

record pit =
  pit_low :: "u8 option"
  pit_reload :: nat

definition pit_write :: "u16 \<times> u8 \<Rightarrow> pit \<Rightarrow> pit" where
  "pit_write w t =
     (if fst w = 0x43 then (if snd w AND 0xf0 = 0x30 then t\<lparr>pit_low := None\<rparr> else t)
      else if fst w = 0x40 then
        (case pit_low t of
           None \<Rightarrow> t\<lparr>pit_low := Some (snd w)\<rparr>
         | Some lo \<Rightarrow> let r = unat lo + 256 * unat (snd w) in t\<lparr>pit_low := None, pit_reload := (if r = 0 then 65536 else r)\<rparr>)
      else t)"

definition pit_see :: "port_writes \<Rightarrow> pit \<Rightarrow> pit" where
  "pit_see io t = fold pit_write io t"

lemma two_bytes: "unat (ucast (w AND 0xFF) :: u8) + 256 * unat (ucast (drop_bit 8 w) :: u8) = unat (w :: u16)"
proof -
  have "w AND 0xFF = w mod 256"
    by (simp add: take_bit_eq_mask [of 8 w, symmetric, simplified mask_eq_exp_minus_1, simplified] take_bit_eq_mod)
  then have lo: "unat (ucast (w AND 0xFF) :: u8) = unat w mod 256"
    by (simp add: unsigned_ucast_eq take_bit_eq_mod unat_mod)
  have "unat w < 65536" using unsigned_less [of w] by simp
  then have "unat (ucast (drop_bit 8 w) :: u8) = unat w div 256"
    by (simp add: unsigned_ucast_eq take_bit_eq_mod unat_div drop_bit_eq_div)
  with lo show ?thesis by simp
qed

lemma init_pit_programs:
  assumes "hz \<noteq> 0"
  shows "\<exists>io'. init_pit hz io = Ret io' \<and>
     pit_reload (pit_see io' t) = (let r = unat (1193182 div hz) mod 65536 in if r = 0 then 65536 else r)"
  using assms two_bytes [of "ucast (1193182 div hz)"]
  by (simp add: init_pit_def Let_def port_outb_def pit_see_def pit_write_def unsigned_ucast_eq take_bit_eq_mod)

text \<open>Timer rate.  Programming no rate is a division by zero; for any rate from 19 to 1193182 ticks a second the timer is
  left with the largest reload value that does not fall below that rate, so the rate asked for is met to within one
  step of the divider.  Below 19 the divisor no longer fits the sixteen bits it is cut to.\<close>

theorem pit_runs_at_requested_rate:
  assumes "19 \<le> hz" and "hz \<le> 1193182"
  shows "\<exists>io'. init_pit hz io = Ret io'
     \<and> pit_reload (pit_see io' t) * unat hz \<le> 1193182
     \<and> 1193182 < Suc (pit_reload (pit_see io' t)) * unat hz"
proof -
  have hz: "19 \<le> unat hz" "unat hz \<le> 1193182"
    using assms by (simp_all add: word_le_nat_alt)
  have d: "unat (1193182 div hz) = 1193182 div unat hz"
    by (simp add: unat_div)
  have "1193182 div unat hz \<le> 1193182 div 19" using hz by (intro div_le_mono2) simp_all
  moreover have "1 \<le> 1193182 div unat hz"
    using hz div_le_mono [of "unat hz" 1193182 "unat hz"] by simp
  ultimately have "(let r = unat (1193182 div hz) mod 65536 in if r = 0 then 65536 else r) = 1193182 div unat hz"
    by (simp add: d)
  moreover have "hz \<noteq> 0" using hz by auto
  moreover have "1193182 div unat hz * unat hz \<le> 1193182" by simp
  moreover have "1193182 < Suc (1193182 div unat hz) * unat hz"
    using hz by (simp add: dividend_less_div_times)
  ultimately show ?thesis
    using init_pit_programs [of hz io t] by auto
qed

theorem pit_runs_at_requested_rate_witness:
  "\<exists>io'. init_pit 100 [] = Ret io' \<and> pit_reload (pit_see io' \<lparr>pit_low = None, pit_reload = 65536\<rparr>) = 11931"
  using pit_runs_at_requested_rate [of 100 "[]" "\<lparr>pit_low = None, pit_reload = 65536\<rparr>"] by fastforce

text \<open>Asking for one tick a second gives about 88.\<close>

lemma pit_rate_truncated:
  "\<exists>io'. init_pit 1 io = Ret io' \<and> pit_reload (pit_see io' t) = 13534"
  using init_pit_programs [of 1 io t] by simp

lemma init_pit_zero: "init_pit 0 io = Panic"
  by (simp add: init_pit_def)

subsection \<open>Local interrupt controller\<close>

text \<open>The controller's registers as the memory words at their addresses, the writes in the order it sees them, and
  the counter of acknowledged interrupts.\<close>

record lapic_dev =
  lapic_regs :: "u64 \<Rightarrow> u32"
  lapic_writes :: "(u64 \<times> u32) list"
  IPI_ACK_COUNT :: u64

record Lapic =
  lbase :: u64

definition lapic_addr :: "Lapic \<Rightarrow> nat \<Rightarrow> u64" where
  "lapic_addr l reg = lbase l + of_nat (4 * (reg div 4))"

definition Lapic_read :: "Lapic \<Rightarrow> nat \<Rightarrow> lapic_dev \<Rightarrow> u32" where
  "Lapic_read l reg d = lapic_regs d (lapic_addr l reg)"

definition Lapic_write :: "Lapic \<Rightarrow> nat \<Rightarrow> u32 \<Rightarrow> lapic_dev \<Rightarrow> lapic_dev" where
  "Lapic_write l reg val d =
     d\<lparr>lapic_regs := (lapic_regs d)(lapic_addr l reg := val), lapic_writes := lapic_writes d @ [(lapic_addr l reg, val)]\<rparr>"

text \<open>The sum is checked, so an offset that wraps is a panic.\<close>

definition lapic_base :: "u64 \<Rightarrow> Lapic run" where
  "lapic_base offset =
     (if unat offset + 0xFEE00000 < 2 ^ 64 then Ret \<lparr>lbase = 0xFEE00000 + offset\<rparr> else Panic)"

definition enable_lapic :: "u64 \<Rightarrow> lapic_dev \<Rightarrow> lapic_dev run" where
  "enable_lapic hhdm d =
     run_bind (lapic_base hhdm) (\<lambda>l.
       let svr = Lapic_read l 0xF0 d in Ret (Lapic_write l 0xF0 (svr OR push_bit 8 1 OR 0xFF) d))"

definition lapic_id :: "u64 \<Rightarrow> lapic_dev \<Rightarrow> u32 run" where
  "lapic_id hhdm d = run_bind (lapic_base hhdm) (\<lambda>l. Ret (drop_bit 24 (Lapic_read l 0x20 d)))"

text \<open>The loop that waits for the previous send, over the values the status register gives at successive reads: \<open>False\<close>
  when they are used up and it still waits.\<close>

fun delivery_idle :: "u32 list \<Rightarrow> bool" where
  "delivery_idle [] = False"
| "delivery_idle (r # rs) = (if r AND push_bit 12 1 \<noteq> 0 then delivery_idle rs else True)"

definition send_ipi :: "u64 \<Rightarrow> u32 list \<Rightarrow> u32 \<Rightarrow> u8 \<Rightarrow> lapic_dev \<Rightarrow> lapic_dev option run" where
  "send_ipi hhdm status dest_lapic_id vector d =
     run_bind (lapic_base hhdm) (\<lambda>l.
       if delivery_idle status then
         let d = Lapic_write l 0x310 (push_bit 24 dest_lapic_id) d;
             d = Lapic_write l 0x300 (ucast vector OR push_bit 14 1) d
         in Ret (Some d)
       else Ret None)"

definition handle_ipi :: "lapic_dev \<Rightarrow> lapic_dev" where
  "handle_ipi d = d\<lparr>IPI_ACK_COUNT := IPI_ACK_COUNT d + 1\<rparr>"

definition ipi_isr :: "u64 \<Rightarrow> lapic_dev \<Rightarrow> lapic_dev run" where
  "ipi_isr hhdm d = run_bind (lapic_base hhdm) (\<lambda>l. Ret (handle_ipi (Lapic_write l 0xB0 0 d)))"

text \<open>
  What the controller does with the writes: the high word of the command register is latched, and a write of the low
  word sends an interrupt with the vector in its low byte to the processor latched in the high word's top byte.
\<close>

definition ipi_step :: "Lapic \<Rightarrow> u64 \<times> u32 \<Rightarrow> u32 \<times> (u32 \<times> u8) list \<Rightarrow> u32 \<times> (u32 \<times> u8) list" where
  "ipi_step l w s =
     (if fst w = lbase l + 0x310 then (snd w, snd s)
      else if fst w = lbase l + 0x300 then (fst s, snd s @ [(drop_bit 24 (fst s), ucast (snd w))])
      else s)"

definition ipis_sent :: "Lapic \<Rightarrow> lapic_dev \<Rightarrow> (u32 \<times> u8) list" where
  "ipis_sent l d = snd (fold (ipi_step l) (lapic_writes d) (0, []))"

lemma lapic_addr_numeral: "lapic_addr l 0x310 = lbase l + 0x310" "lapic_addr l 0x300 = lbase l + 0x300"
  "lapic_addr l 0xF0 = lbase l + 0xF0" "lapic_addr l 0xB0 = lbase l + 0xB0" "lapic_addr l 0x20 = lbase l + 0x20"
  by (simp_all add: lapic_addr_def)

lemma dest_byte: "drop_bit 24 (push_bit 24 w) = w AND (0xff :: u32)"
proof -
  have m: "(0xff :: u32) = mask 8" by (simp add: mask_eq_exp_minus_1)
  show ?thesis unfolding m by (rule bit_word_eqI) (auto simp: bit_simps)
qed

lemma vector_byte: "ucast (ucast v OR 16384 :: u32) = (v :: u8)"
proof -
  have "ucast (ucast v OR push_bit 14 b :: u32) = v" for b
    by (rule bit_word_eqI) (auto simp: bit_simps)
  from this [of 1] show ?thesis by simp
qed

lemma send_ipi_waits: "unat hhdm + 0xFEE00000 < 2 ^ 64 \<Longrightarrow>
   send_ipi hhdm status dst v d = Ret None \<longleftrightarrow> (\<forall>r \<in> set status. bit r 12)"
proof -
  have "r AND push_bit 12 1 \<noteq> 0 \<longleftrightarrow> bit r 12" for r :: u32
    by (simp add: push_bit_eq_mult and_exp_eq_0_iff_not_bit [of r 12, simplified])
  then have "delivery_idle status \<longleftrightarrow> (\<exists>r \<in> set status. \<not> bit r 12)"
    by (induction status) auto
  then show "unat hhdm + 0xFEE00000 < 2 ^ 64 \<Longrightarrow>
     send_ipi hhdm status dst v d = Ret None \<longleftrightarrow> (\<forall>r \<in> set status. bit r 12)"
    by (auto simp: send_ipi_def lapic_base_def Let_def)
qed

text \<open>Inter-processor interrupts.  \<open>send_ipi\<close> waits for as long as the previous send is pending and then sends exactly
  one interrupt, with the vector asked for, to the processor whose identifier is the low byte of the one asked for;
  the destination is in place before the write that sends.\<close>

theorem send_ipi_sends_once:
  assumes "unat hhdm + 0xFEE00000 < 2 ^ 64" and "\<exists>r \<in> set status. \<not> bit r 12"
  shows "\<exists>l d'. lapic_base hhdm = Ret l \<and> send_ipi hhdm status dst v d = Ret (Some d')
     \<and> ipis_sent l d' = ipis_sent l d @ [(dst AND 0xff, v)]"
proof -
  have "send_ipi hhdm status dst v d \<noteq> Ret None"
    using send_ipi_waits [OF assms(1)] assms(2) by blast
  then show ?thesis
    using assms(1)
    by (auto simp: send_ipi_def lapic_base_def Let_def Lapic_write_def lapic_addr_numeral ipis_sent_def ipi_step_def
        dest_byte vector_byte split: if_splits)
qed

theorem send_ipi_sends_once_witness:
  "\<exists>l d'. send_ipi 0xffff800000000000 [0x1000, 0] 2 0x40 \<lparr>lapic_regs = (\<lambda>_. 0), lapic_writes = [], IPI_ACK_COUNT = 0\<rparr> = Ret (Some d')
     \<and> ipis_sent l d' = [(2, 0x40)]"
  using send_ipi_sends_once [of "0xffff800000000000" "[0x1000, 0]" 2 "0x40" "\<lparr>lapic_regs = (\<lambda>_. 0), lapic_writes = [], IPI_ACK_COUNT = 0\<rparr>"]
  by (auto simp: ipis_sent_def)

lemma ipi_isr_acknowledges:
  assumes "lapic_base hhdm = Ret l"
  shows "\<exists>d'. ipi_isr hhdm d = Ret d' \<and> IPI_ACK_COUNT d' = IPI_ACK_COUNT d + 1
     \<and> last (lapic_writes d') = (lbase l + 0xB0, 0) \<and> ipis_sent l d' = ipis_sent l d"
  using assms by (simp add: ipi_isr_def handle_ipi_def Lapic_write_def lapic_addr_numeral ipis_sent_def ipi_step_def)

lemma enable_lapic_enables:
  assumes "lapic_base hhdm = Ret l"
  shows "\<exists>d'. enable_lapic hhdm d = Ret d' \<and> bit (Lapic_read l 0xF0 d') 8 \<and> (ucast (Lapic_read l 0xF0 d') :: u8) = 0xff
     \<and> lapic_id hhdm d' = lapic_id hhdm d"
proof -
  have "ucast (w OR push_bit 8 b OR mask 8) = (mask 8 :: u8)" for w b :: u32
    by (rule bit_word_eqI) (auto simp: bit_simps)
  from this [of _ 1] have "ucast (w OR 0x1FF) = (0xff :: u8)" for w :: u32
    by (simp add: mask_eq_exp_minus_1 or.assoc)
  then show ?thesis
    using assms by (simp add: enable_lapic_def lapic_id_def Lapic_read_def Lapic_write_def lapic_addr_numeral bit_simps Let_def)
qed

end
