(* ===== verification/Boot.thy ===== *)
theory Boot
  imports Demos Shell_Client User_Programs Descriptors Serial
begin

text \<open>
  The boot sequence of \<open>boot/main.rs\<close>: what the boot processor does from \<open>_start\<close> to its first switch to a task, in both
  modes, and the entry of the other processors.  What the bootloader answers and where the linker put things are parameters.
  The lines printed on the way are not modelled.
\<close>

subsection \<open>The state and the parameters of boot\<close>

definition SHELL_MODE :: bool where
  "SHELL_MODE = True"

text \<open>An entry of the bootloader's list of processors.\<close>

record mp_info =
  processor_id :: u32
  mp_lapic_id :: u32

record boot_params =
  base_supported :: bool
  memmap_response :: "memmap_entry list option"
  mp_response :: "mp_info list option"
  cpu_addrs :: cpu_layout
  trap_addrs :: trap_entries
  idt_addr :: u64
  shell_entry :: u64
  demo_addrs :: demo_entries

text \<open>
  The statics that boot fills in, the devices, the registers that \<open>lgdt\<close> and \<open>lidt\<close> load on the boot processor, and the
  processors it has started, each with the argument it passes.
\<close>

record boot_state =
  b_kernel :: kernel
  b_tables :: cpu_tables
  b_idt :: "idt_entry list"
  b_loads :: "(cpu_loads \<times> idt_pointer) option"
  b_lapic :: lapic_dev
  b_ports :: port_writes
  b_serial :: serial_port
  b_started :: "(mp_info \<times> u64) list"

text \<open>The console port is initialised before anything else; a bootloader of another revision halts the machine.\<close>

datatype boot_result = Refused boot_state | Launched boot_state

subsection \<open>The other processors\<close>

fun smp_loop :: "u64 \<Rightarrow> mp_info list \<Rightarrow> boot_state \<Rightarrow> boot_state run" where
  "smp_loop hhdm [] s = Ret s"
| "smp_loop hhdm (info # cpus) s =
     run_bind (lapic_id hhdm (b_lapic s)) (\<lambda>own.
       if mp_lapic_id info = own then smp_loop hhdm cpus s
       else smp_loop hhdm cpus (s\<lparr>b_started := b_started s @ [(info, ucast (processor_id info))]\<rparr>))"

definition init_smp :: "boot_params \<Rightarrow> boot_state \<Rightarrow> boot_state run" where
  "init_smp p s =
     (let hhdm = hhdm_offset (mach (b_kernel s)) in
      run_bind (enable_lapic hhdm (b_lapic s)) (\<lambda>d.
        let s = s\<lparr>b_lapic := d\<rparr> in
        case mp_response p of
          Some cpus \<Rightarrow> smp_loop hhdm cpus s
        | None \<Rightarrow> Ret s))"

text \<open>
  What a started processor does before it waits for interrupts: its own tables, its own controller, and the shared
  interrupt table once more.
\<close>

record ap_state =
  ap_loads :: cpu_loads
  ap_idtr :: idt_pointer
  ap_lapic :: lapic_dev
  ap_interrupts :: bool

definition ap_entry :: "boot_params \<Rightarrow> u64 \<Rightarrow> mp_info \<Rightarrow> lapic_dev \<Rightarrow> boot_state \<Rightarrow> (ap_state \<times> boot_state) run" where
  "ap_entry p hhdm info d s =
     (let cpu_id = unat (processor_id info) in
      run_bind (init_cpu (cpu_addrs p) cpu_id (b_tables s)) (\<lambda>(c, loads).
      run_bind (init_idt (code_segment loads) (trap_addrs p) (idt_addr p) (b_idt s)) (\<lambda>(idt, idtr).
      run_bind (enable_lapic hhdm d) (\<lambda>d.
        Ret (\<lparr>ap_loads = loads, ap_idtr = idtr, ap_lapic = d, ap_interrupts = True\<rparr>,
             s\<lparr>b_tables := c, b_idt := idt\<rparr>)))))"

subsection \<open>The boot processor\<close>

definition on_kernel :: "(kernel \<Rightarrow> kernel run) \<Rightarrow> boot_state \<Rightarrow> boot_state run" where
  "on_kernel f s = run_bind (f (b_kernel s)) (\<lambda>k. Ret (s\<lparr>b_kernel := k\<rparr>))"

text \<open>The frame allocator, the descriptor tables, the interrupt table and the other processors.\<close>

definition boot_platform :: "boot_params \<Rightarrow> boot_state \<Rightarrow> boot_state run" where
  "boot_platform p s =
     run_bind (on_kernel (\<lambda>k. run_bind (FrameAllocator_init (memmap_response p) (mach k)) (\<lambda>m. Ret (k\<lparr>mach := m\<rparr>))) s) (\<lambda>s.
     run_bind (gdt_init (cpu_addrs p) (b_tables s)) (\<lambda>(c, loads).
     run_bind (init_idt (code_segment loads) (trap_addrs p) (idt_addr p) (b_idt s)) (\<lambda>(idt, idtr).
       init_smp p (s\<lparr>b_tables := c, b_idt := idt, b_loads := Some (loads, idtr)\<rparr>))))"

definition boot_timer :: "boot_state \<Rightarrow> boot_state run" where
  "boot_timer s = run_bind (init_pit 100 (init_pic (b_ports s))) (\<lambda>io. Ret (s\<lparr>b_ports := io\<rparr>))"

text \<open>\<open>sti\<close> and the first \<open>yield_cpu\<close>\<close>

definition launch :: "kernel \<Rightarrow> kernel" where
  "launch k = yield_cpu (k\<lparr>mach := sti (mach k)\<rparr>)"

definition boot_shell :: "boot_params \<Rightarrow> boot_state \<Rightarrow> boot_state run" where
  "boot_shell p s =
     run_bind (boot_timer s)
       (on_kernel (\<lambda>k. run_bind (shell_load (shell_entry p) (set_armed False k)) (\<lambda>k. Ret (launch k))))"

definition place_init :: "kernel \<Rightarrow> kernel run" where
  "place_init k =
     (case CapTable_insert init_root_cap CapTable_new k of
        (_, caps, k) \<Rightarrow> run_bind (spawn_init_task 1 caps k) (\<lambda>(t, k). Ret (set_slot 1 (Some t) k)))"

definition boot_demos :: "boot_params \<Rightarrow> boot_state \<Rightarrow> boot_state run" where
  "boot_demos p s =
     (let e = demo_addrs p in
      run_bind (on_kernel (\<lambda>k.
        run_bind (place_init k) (\<lambda>k.
        run_bind (load_harness_demo e k) (\<lambda>k.
        run_bind (load_security_demo e k) (\<lambda>k.
        run_bind (load_watchdog_demo e k) (\<lambda>k.
        run_bind (load_persistence_demo e k) (load_distribution_demo e)))))) s) (\<lambda>s.
      run_bind (boot_timer s)
        (on_kernel (\<lambda>k. run_bind (load_preemption_demo e k) (\<lambda>k. Ret (launch k))))))"

definition kernel_start :: "bool \<Rightarrow> boot_params \<Rightarrow> boot_state \<Rightarrow> boot_result run" where
  "kernel_start shell_mode p s =
     (let s = s\<lparr>b_serial := SerialPort_init (b_serial s)\<rparr> in
      if \<not> base_supported p then Ret (Refused s)
      else run_bind (boot_platform p s) (\<lambda>s.
             run_bind (if shell_mode then boot_shell p s else boot_demos p s) (\<lambda>s. Ret (Launched s))))"

text \<open>The statics as the image has them.\<close>

definition boot_image :: "layout \<Rightarrow> machine \<Rightarrow> lapic_dev \<Rightarrow> boot_state" where
  "boot_image l m d =
     \<lparr>b_kernel = initial_kernel l m, b_tables = cpu_tables_init, b_idt = empty_idt, b_loads = None, b_lapic = d, b_ports = [],
      b_serial = SerialPort_new 0x3F8, b_started = []\<rparr>"

subsection \<open>The platform\<close>

text \<open>The processors that are started: those of the list whose controller is not the boot processor's, each once.\<close>

definition other_processors :: "boot_params \<Rightarrow> u32 \<Rightarrow> (mp_info \<times> u64) list" where
  "other_processors p own =
     (case mp_response p of
        None \<Rightarrow> []
      | Some cpus \<Rightarrow> map (\<lambda>i. (i, ucast (processor_id i))) (filter (\<lambda>i. mp_lapic_id i \<noteq> own) cpus))"

lemma smp_loop_starts:
  assumes "lapic_id hhdm (b_lapic s) = Ret own"
  shows "smp_loop hhdm cpus s = Ret (s\<lparr>b_started := b_started s @ map (\<lambda>i. (i, ucast (processor_id i))) (filter (\<lambda>i. mp_lapic_id i \<noteq> own) cpus)\<rparr>)"
  using assms by (induction cpus arbitrary: s) simp_all

lemma init_smp_starts:
  assumes "lapic_base (hhdm_offset (mach (b_kernel s))) = Ret l"
  obtains d own where "lapic_id (hhdm_offset (mach (b_kernel s))) (b_lapic s) = Ret own"
    "init_smp p s = Ret (s\<lparr>b_lapic := d, b_started := b_started s @ other_processors p own\<rparr>)"
    "bit (Lapic_read l 0xF0 d) 8"
proof -
  let ?h = "hhdm_offset (mach (b_kernel s))"
  obtain d where d: "enable_lapic ?h (b_lapic s) = Ret d" "bit (Lapic_read l 0xF0 d) 8" "lapic_id ?h d = lapic_id ?h (b_lapic s)"
    using enable_lapic_enables [OF assms] by blast
  obtain own where own: "lapic_id ?h (b_lapic s) = Ret own" using assms by (simp add: lapic_id_def)
  have "init_smp p s = Ret (s\<lparr>b_lapic := d, b_started := b_started s @ other_processors p own\<rparr>)"
    using d own smp_loop_starts [of ?h "s\<lparr>b_lapic := d\<rparr>" own]
    by (simp add: init_smp_def Let_def other_processors_def split: option.split)
  then show ?thesis using that own d(2) by blast
qed

text \<open>What holds of the platform after boot: each handler's gate in place, the tables loaded, the controller on.\<close>

definition platform_up :: "boot_params \<Rightarrow> boot_state \<Rightarrow> bool" where
  "platform_up p s \<longleftrightarrow> cpu_tables_wf (b_tables s) \<and> segments_ok (gdts (b_tables s) ! 0) \<and>
     init_idt KERNEL_CODE (trap_addrs p) (idt_addr p) empty_idt = Ret (b_idt s, \<lparr>idt_limit = 4095, idt_base = idt_addr p\<rparr>) \<and>
     (\<exists>g. b_loads s = Some (g, \<lparr>idt_limit = 4095, idt_base = idt_addr p\<rparr>) \<and> gdt_base (gdtr g) = gdts_addr (cpu_addrs p) \<and>
        code_segment g = KERNEL_CODE)"

lemma boot_platform_up:
  assumes "b_tables s = cpu_tables_init" "b_idt s = empty_idt" "FrameAllocator_init (memmap_response p) (mach (b_kernel s)) = Ret m"
    and "lapic_base (hhdm_offset m) = Ret l" "lapic_id (hhdm_offset m) (b_lapic s) = Ret own"
  obtains s' where "boot_platform p s = Ret s'" "platform_up p s'" "b_kernel s' = (b_kernel s)\<lparr>mach := m\<rparr>"
    "b_started s' = b_started s @ other_processors p own" "b_ports s' = b_ports s" "b_serial s' = b_serial s"
proof -
  obtain c g where g: "gdt_init (cpu_addrs p) cpu_tables_init = Ret (c, g)" "code_segment g = KERNEL_CODE"
    "gdt_base (gdtr g) = gdts_addr (cpu_addrs p)"
    "gdts c ! 0 = (replicate GDT_LEN 0)[1 := segment 0x9a 0x2, 2 := segment 0x92 0x0, 3 := segment 0xfa 0x2, 4 := segment 0xf2 0x0,
       5 := tss_low (tsss_addr (cpu_addrs p)) (of_nat (TSS_SIZE - 1)), 6 := tss_high (tsss_addr (cpu_addrs p))]"
  proof (rule init_cpu_updates [OF _ cpu_tables_wf_init, of 0 "cpu_addrs p"])
  qed (use that in \<open>auto simp: gdt_init_def cpu_tables_init_def\<close>)
  have seg: "segments_ok (gdts c ! 0)"
    by (rule segments_ok_table) (simp_all add: g(4) GDT_LEN_def)
  have wf: "cpu_tables_wf c" using g(1) cpu_tables_wf_init_cpu [OF _ cpu_tables_wf_init] by (simp add: gdt_init_def)
  obtain idt where idt: "init_idt KERNEL_CODE (trap_addrs p) (idt_addr p) empty_idt = Ret (idt, \<lparr>idt_limit = 4095, idt_base = idt_addr p\<rparr>)"
    using init_idt_table [OF length_empty_idt] by blast
  let ?s = "s\<lparr>b_kernel := (b_kernel s)\<lparr>mach := m\<rparr>, b_tables := c, b_idt := idt, b_loads := Some (g, \<lparr>idt_limit = 4095, idt_base = idt_addr p\<rparr>)\<rparr>"
  obtain d where d: "init_smp p ?s = Ret (?s\<lparr>b_lapic := d, b_started := b_started s @ other_processors p own\<rparr>)"
    using init_smp_starts [of ?s l p] assms(4,5) by auto
  have "boot_platform p s = Ret (?s\<lparr>b_lapic := d, b_started := b_started s @ other_processors p own\<rparr>)"
    using assms(1-3) g(1,2) idt d by (simp add: boot_platform_def on_kernel_def)
  then show ?thesis by (rule that) (use wf seg idt g in \<open>simp_all add: platform_up_def\<close>)
qed

subsection \<open>The first switch\<close>

lemma has_frames_fields:
  "has_frames n (m\<lparr>cpu := c\<rparr>) = has_frames n m" "has_frames n (m\<lparr>tss_rsp0 := r\<rparr>) = has_frames n m"
  "has_frames n (m\<lparr>reg_cr3 := x\<rparr>) = has_frames n m"
  by (simp_all add: has_frames_def frames_inv_def)

lemma has_frames_switch:
  "has_frames n (cli m) = has_frames n m" "has_frames n (sti m) = has_frames n m" "has_frames n (enter_task a b m) = has_frames n m"
  "has_frames n (snd (switch_save r m)) = has_frames n m" "has_frames n (switch_load sp m) = has_frames n m"
  by (simp_all add: cli_def sti_def enter_task_def set_kernel_stack_def switch_address_space_def Let_def has_frames_fields
      switch_save_def switch_load_def push_val_def pop_val_def)

lemma has_frames_saved: "switch_save r m = (sp, m') \<Longrightarrow> has_frames n m' = has_frames n m"
  using has_frames_switch(4) [of n r m] by simp

lemma mach_modify_slot [simp]: "mach (modify_slot i f k) = mach k"
  by (simp add: modify_slot_def set_slot_def split: option.split)

lemma yield_frames: "current_index k = None \<Longrightarrow> has_frames n (mach (yield_cpu k)) = has_frames n (mach k)"
  by (auto simp: yield_cpu_def Let_def switch_context_def has_frames_switch dest!: has_frames_saved [where n = n] split: option.split prod.split)

lemma next_ready_unique:
  assumes "n < MAX_TASKS" "is_ready (ts ! n)" "\<And>j. j < n \<Longrightarrow> \<not> is_ready (ts ! j)"
  shows "next_ready ts 0 = Some n"
proof -
  have "next_ready ts 0 \<noteq> None" using next_ready_None [of 0 ts] assms(1,2) by (auto simp: MAX_TASKS_def)
  then obtain m where m: "next_ready ts 0 = Some m" by auto
  note r = next_ready_Some [OF m]
  have "m < MAX_TASKS" "is_ready (ts ! m)" "cyc_dist 0 m \<le> cyc_dist 0 n" using r assms(1,2) by (simp_all add: MAX_TASKS_def)
  then have "m \<le> n" using assms(1) by (simp add: cyc_dist_def)
  then have "m = n" using assms(3) [of m] \<open>is_ready (ts ! m)\<close> by fastforce
  then show ?thesis using m by simp
qed

text \<open>The first ready task starts to run; nothing else changes.\<close>

lemma launch_first:
  assumes wf: "kernel_wf k" and c: "current_task_id k = None" and n: "n < MAX_TASKS"
    and t: "map_option t_state (get_task k n) = Some Ready"
    and first: "\<And>j. j < n \<Longrightarrow> map_option t_state (get_task k j) \<noteq> Some Ready"
  shows "kernel_wf (launch k)" "current_task_id (launch k) = Some n" "cap_view (launch k) = cap_view k"
    "map_option t_state (get_task (launch k) i) = (if i = n then Some Running else map_option t_state (get_task k i))"
    "has_frames f (mach (launch k)) = has_frames f (mach k)" "preempt (launch k) = preempt k"
proof -
  let ?k = "k\<lparr>mach := sti (mach k)\<rparr>"
  have wfk: "kernel_wf ?k" using wf by (simp add: kernel_wf_def)
  have ci: "current_index ?k = None" using c by (simp add: current_index_def)
  have ready: "is_ready (tasks k ! j) \<longleftrightarrow> map_option t_state (get_task k j) = Some Ready" if "j < MAX_TASKS" for j
    unfolding slot_state_get_task [OF wf that, symmetric] by (simp add: is_ready_def slot_state_def split: option.split)
  have "next_ready (tasks k) 0 = Some n"
    by (rule next_ready_unique) (use n t first ready in auto)
  then have yn: "yield_next ?k = Some n" using ci by (simp add: yield_next_def)
  show wfl: "kernel_wf (launch k)" unfolding launch_def by (rule kernel_wf_sched_rel [OF wfk sched_rel_yield])
  show "current_task_id (launch k) = Some n" unfolding launch_def by (rule yield_cpu_first(1) [OF wfk ci yn])
  show "has_frames f (mach (launch k)) = has_frames f (mach k)"
    unfolding launch_def using yield_frames [OF ci] by (simp add: has_frames_switch)
  show "map_option t_state (get_task (launch k) i) = (if i = n then Some Running else map_option t_state (get_task k i))"
  proof (cases "i < MAX_TASKS")
    case True
    have "slot_state ?k i = slot_state k i" by (simp add: slot_state_def)
    then show ?thesis
      using yield_cpu_first(2) [OF wfk ci yn True] slot_state_get_task [OF wfl True] slot_state_get_task [OF wf True]
      unfolding launch_def by simp
  next
    case False
    then show ?thesis using n wf wfl by (auto simp: get_task_def kernel_wf_def)
  qed
  have "cap_view ?k = cap_view k" by (simp add: cap_view_def fun_eq_iff)
  then show "cap_view (launch k) = cap_view k" unfolding launch_def using cap_view_sched_rel [OF wfk sched_rel_yield] by simp
  have mod: "preempt (modify_slot i f q) = preempt q" for i f q
    by (simp add: modify_slot_def set_slot_def split: option.split)
  show "preempt (launch k) = preempt k"
    using ci yn by (auto simp: launch_def yield_cpu_def Let_def switch_context_def mod split: option.split prod.split)
qed

subsection \<open>Boot into the shell\<close>

definition shell_placed :: "capability list \<Rightarrow> kernel \<Rightarrow> kernel \<Rightarrow> bool" where
  "shell_placed cs k k' \<longleftrightarrow> kernel_wf k' \<and> map cap_facts cs = root_resources \<and> (\<forall>s. cap_view k' (64, s) = cap_at (table_with cs) s) \<and>
     map_option t_state (get_task k' 64) = Some Ready \<and> (\<forall>i. i \<noteq> 64 \<longrightarrow> get_task k' i = get_task k i) \<and>
     current_task_id k' = current_task_id k \<and> preempt k' = preempt k"

lemma shell_load_places:
  assumes wf: "kernel_wf k"
  shows "\<exists>cs k'. shell_load e k = Ret k' \<and> shell_placed cs k k'"
proof -
  obtain cs k1 where c: "root_caps k = (table_with cs, k1)" "map cap_facts cs = root_resources" "numbered k k1"
    using root_caps_eq [of k] by metis
  note f = numbered_frame [OF c(3)]
  have "length cs = 16" using arg_cong [OF c(2), of length] by (simp add: root_resources_def)
  then have t: "cap_table_wf (table_with cs)" by (intro table_with_wf) (simp add: MAX_CAPS_def)
  obtain k' where k': "place_task 64 e (table_with cs) k1 = Ret k'" "placed 64 (table_with cs) k1 k'"
    using place_task_placed [of k1 64 "table_with cs" e] f(4) wf t by (auto simp: MAX_TASKS_def)
  have "shell_load e k = Ret k'" using c(1) k'(1) by (simp add: shell_load_def place_task_def)
  moreover have "shell_placed cs k k'" using k'(2) c(2) f by (auto simp: placed_def shell_placed_def)
  ultimately show ?thesis by blast
qed

lemma boot_timer_lines:
  obtains io where "boot_timer s = Ret (s\<lparr>b_ports := io\<rparr>)" "pit_reload (pit_see io pt) = 11931"
    "\<And>irq. irq < 16 \<Longrightarrow> irq_vector (pics_see io ps) irq = (if irq < 2 then Some (0x20 + irq) else None)"
proof -
  let ?io = "init_pic (b_ports s) @ [(0x43, 0x36), (0x40, 0x9b), (0x40, 0x2e)]"
  have r: "init_pit 100 (init_pic (b_ports s)) = Ret ?io" by (simp add: init_pit_def port_outb_def Let_def)
  show ?thesis
  proof (rule that)
    show "boot_timer s = Ret (s\<lparr>b_ports := ?io\<rparr>)" using r by (simp add: boot_timer_def)
    show "pit_reload (pit_see ?io pt) = 11931" using init_pit_programs [of 100 "init_pic (b_ports s)" pt] r by simp
    have "pics_see ?io ps = pics_see (init_pic (b_ports s)) ps"
      by (cases "pics_see (init_pic (b_ports s)) ps") (simp add: pics_see_append PIC1_CMD_def PIC1_DATA_def PIC2_CMD_def PIC2_DATA_def)
    then show "irq_vector (pics_see ?io ps) irq = (if irq < 2 then Some (0x20 + irq) else None)" if "irq < 16" for irq
      using irq_vector_init [OF that] by simp
  qed
qed

text \<open>
  C36. Boot reaches the shell.  Given a supported bootloader and a memory map that the frame allocator accepts, \<open>_start\<close> ends
  with the shell running as task 64 and no other task, its table holding exactly the sixteen root capabilities, involuntary
  preemption off, the timer at 100 ticks a second, its line open at vector 0x20 and the lines from 2 on masked, the gates of
  the timer and of the keyboard leading to their handlers, ring 3 able to enter through vector 0x80 only, and every other processor started once.
\<close>

theorem boot_launches_shell:
  assumes "base_supported p" "FrameAllocator_init (memmap_response p) m = Ret m1"
    and "lapic_base (hhdm_offset m1) = Ret lapic" "lapic_id (hhdm_offset m1) d = Ret own"
  shows "\<exists>s cs. kernel_start SHELL_MODE p (boot_image l m d) = Ret (Launched s) \<and> kernel_wf (b_kernel s) \<and>
    current_task_id (b_kernel s) = Some 64 \<and>
    (\<forall>i. map_option t_state (get_task (b_kernel s) i) = (if i = 64 then Some Running else None)) \<and>
    map cap_facts cs = root_resources \<and> (\<forall>j. cap_view (b_kernel s) (64, j) = cap_at (table_with cs) j) \<and>
    \<not> armed (preempt (b_kernel s)) \<and> pit_reload (pit_see (b_ports s) pt) = 11931 \<and>
    irq_vector (pics_see (b_ports s) ps) 0 = Some 0x20 \<and>
    (\<forall>irq < 16. 2 \<le> irq \<longrightarrow> irq_vector (pics_see (b_ports s) ps) irq = None) \<and>
    gate_target (b_idt s ! 0x20) = timer_interrupt_entry (trap_addrs p) \<and>
    gate_target (b_idt s ! 0x21) = keyboard_interrupt_entry (trap_addrs p) \<and>
    (\<forall>v < IDT_ENTRIES. open_to_user (b_idt s ! v) \<longleftrightarrow> v = 0x80) \<and> segments_ok (gdts (b_tables s) ! 0) \<and>
    b_started s = other_processors p own"
proof -
  let ?s0 = "(boot_image l m d)\<lparr>b_serial := SerialPort_init (b_serial (boot_image l m d))\<rparr>"
  obtain s1 where s1: "boot_platform p ?s0 = Ret s1" "platform_up p s1" "b_kernel s1 = (initial_kernel l m)\<lparr>mach := m1\<rparr>"
    "b_started s1 = other_processors p own"
    by (rule boot_platform_up [of ?s0 p m1 lapic own]) (use assms(2-4) in \<open>auto simp: boot_image_def initial_kernel_def\<close>)
  obtain io where io: "boot_timer s1 = Ret (s1\<lparr>b_ports := io\<rparr>)" "pit_reload (pit_see io pt) = 11931"
    "\<And>irq. irq < 16 \<Longrightarrow> irq_vector (pics_see io ps) irq = (if irq < 2 then Some (0x20 + irq) else None)"
    using boot_timer_lines [of s1 pt ps] by metis
  let ?k1 = "set_armed False (b_kernel s1)"
  have k1: "kernel_wf ?k1" "get_task ?k1 i = None" "current_task_id ?k1 = None" "\<not> armed (preempt ?k1)" for i
    unfolding s1(3) set_armed_def by (simp_all add: initial_kernel_def kernel_wf_def get_task_def)
  obtain cs k2 where sl: "shell_load (shell_entry p) ?k1 = Ret k2" "shell_placed cs ?k1 k2"
    using shell_load_places [OF k1(1), of "shell_entry p"] by blast
  have k2: "kernel_wf k2" "map cap_facts cs = root_resources" "\<And>j. cap_view k2 (64, j) = cap_at (table_with cs) j"
    "map_option t_state (get_task k2 64) = Some Ready" "\<And>i. i \<noteq> 64 \<Longrightarrow> get_task k2 i = None" "current_task_id k2 = None" "\<not> armed (preempt k2)"
    using sl(2) k1 unfolding shell_placed_def by (simp_all only:) simp_all
  note la = launch_first [OF k2(1,6) _ k2(4)]
  have la: "kernel_wf (launch k2)" "current_task_id (launch k2) = Some 64" "cap_view (launch k2) = cap_view k2"
    "map_option t_state (get_task (launch k2) i) = (if i = 64 then Some Running else None)" "preempt (launch k2) = preempt k2" for i
    using la k2(5) by (auto simp: MAX_TASKS_def)
  let ?s = "s1\<lparr>b_ports := io, b_kernel := launch k2\<rparr>"
  have "kernel_start SHELL_MODE p (boot_image l m d) = Ret (Launched ?s)"
    using assms(1) s1(1) io(1) sl(1) by (simp add: kernel_start_def SHELL_MODE_def boot_shell_def on_kernel_def Let_def)
  moreover note idt = s1(2) [unfolded platform_up_def, THEN conjunct2, THEN conjunct2, THEN conjunct1]
  have "gate_target (b_idt s1 ! 0x20) = timer_interrupt_entry (trap_addrs p)" "gate_target (b_idt s1 ! 0x21) = keyboard_interrupt_entry (trap_addrs p)"
    using installed_gate [OF idt, of 32] installed_gate [OF idt, of 33] by (simp_all add: IDT_ENTRIES_def handler_of_def gate_target_new)
  moreover have "segments_ok (gdts (b_tables s1) ! 0)" using s1(2) by (simp add: platform_up_def)
  ultimately show ?thesis
    using installed_usable(2) [OF idt] la k2(2,3,7) io(2,3) s1(4) by (intro exI [of _ ?s] exI [of _ cs] conjI) simp_all
qed

subsection \<open>Boot into the demonstrations\<close>

definition init_placed :: "capability \<Rightarrow> nat \<Rightarrow> kernel \<Rightarrow> kernel \<Rightarrow> bool" where
  "init_placed c n k k' \<longleftrightarrow> kernel_wf k' \<and> has_frames n (mach k') \<and> current_task_id k' = current_task_id k \<and>
     (\<forall>i. i \<noteq> 1 \<longrightarrow> get_task k' i = get_task k i) \<and> map_option t_state (get_task k' 1) = Some Ready \<and>
     (\<forall>s. cap_view k' (1, s) = (if s = 0 then Some c else None)) \<and> cap_summary c = cap_summary init_root_cap"

lemma place_init_places:
  assumes wf: "kernel_wf k" and fr: "has_frames (9 + n) (mach k)"
  shows "\<exists>c k'. place_init k = Ret k' \<and> init_placed c n k k'"
proof -
  let ?c = "init_root_cap\<lparr>cap_id := next_cap_id_ctr k\<rparr>"
  let ?k = "log_trace ''cap_insert'' (next_cap_id_ctr k) 0 (k\<lparr>next_cap_id_ctr := next_cap_id_ctr k + 1\<rparr>)"
  have ins: "CapTable_insert init_root_cap CapTable_new k = (Some 0, single_table ?c, ?k)"
    by (simp add: insert_new single_table_def)
  have k: "mach ?k = mach k" "tasks ?k = tasks k" "current_task_id ?k = current_task_id k" "kernel_wf ?k"
    using wf by (simp_all add: log_trace_def kernel_wf_def)
  have g: "get_task ?k i = get_task k i" for i using k(2) by (simp add: get_task_def)
  obtain t k1 where sp: "spawn_init_task 1 (single_table ?c) ?k = Ret (t, k1)" "has_frames n (mach k1)"
    using spawn_user_leaves [of n ?k 1 "init_blob (k_layout ?k)" "single_table ?c"] fr k(1)
    by (auto simp: spawn_init_task_def MAX_TASKS_def)
  have sp': "spawn_user 1 (init_blob (k_layout ?k)) (single_table ?c) ?k = Ret (t, k1)" using sp(1) by (simp add: spawn_init_task_def)
  note t = spawn_user_Ret [OF sp' single_table(1)]
  let ?k' = "set_slot 1 (Some t) k1"
  have k1: "k1 = ?k\<lparr>tasks_spawned := tasks_spawned ?k + 1, mach := mach k1\<rparr>" by (rule t(2))
  have wf1: "kernel_wf k1" using k(4) by (subst k1) (simp add: kernel_wf_def)
  have "tasks k1 = tasks k" using k(2) by (subst k1) simp
  then have g1: "get_task k1 i = get_task k i" for i by (simp add: get_task_def)
  have wf': "kernel_wf ?k'" using wf1 t(1) by (intro kernel_wf_set_slot) auto
  have "1 < length (tasks k1)" using wf1 by (simp add: kernel_wf_def MAX_TASKS_def)
  then have g': "get_task ?k' i = (if i = 1 then Some t else get_task k i)" for i
    using g1 t(1) by (simp add: get_task_set_slot task_wf_def)
  have "current_task_id k1 = current_task_id k" using k(3) by (subst k1) simp
  then have "init_placed ?c n k ?k'"
    using wf' g' sp(2) t(1) cap_view_get_task [OF wf', of 1]
    by (simp add: init_placed_def set_slot_def) (simp add: cap_summary_def rights_of_def)
  moreover have "place_init k = Ret ?k'" using ins sp(1) by (simp add: place_init_def)
  ultimately show ?thesis by blast
qed

lemma boot_demos_runs:
  assumes "place_init (b_kernel s) = Ret k1" "load_demos (demo_addrs p) k1 = Ret k2"
  shows "\<exists>io. boot_demos p s = Ret (s\<lparr>b_ports := io, b_kernel := launch k2\<rparr>)"
proof -
  obtain a b c d e where l: "load_harness_demo (demo_addrs p) k1 = Ret a" "load_security_demo (demo_addrs p) a = Ret b"
    "load_watchdog_demo (demo_addrs p) b = Ret c" "load_persistence_demo (demo_addrs p) c = Ret d"
    "load_distribution_demo (demo_addrs p) d = Ret e" "load_preemption_demo (demo_addrs p) e = Ret k2"
    using assms(2) by (auto simp: load_demos_def run_bind_Ret_iff)
  obtain io where "boot_timer (s\<lparr>b_kernel := e\<rparr>) = Ret (s\<lparr>b_kernel := e, b_ports := io\<rparr>)"
    using boot_timer_lines [of "s\<lparr>b_kernel := e\<rparr>"] by metis
  then show ?thesis using assms(1) l by (intro exI [of _ io]) (simp add: boot_demos_def on_kernel_def Let_def)
qed

text \<open>The capabilities after init's first turn, as resource and rights.\<close>

definition booted_authority :: "nat \<times> nat \<Rightarrow> (resource \<times> rights_mask) option" where
  "booted_authority p =
     map_of [((1, 0), (Serial, RightsMask False True True)), ((1, 1), (IpcChannel 2, RightsMask True True True)),
       ((1, 2), (IpcChannel 3, RightsMask True True True)), ((1, 3), (IpcChannel 4, RightsMask True True True)),
       ((2, 0), (Serial, RightsMask False True False)), ((3, 0), (Serial, RightsMask False True False)),
       ((4, 0), (IpcChannel 2, RightsMask True True False)), ((4, 1), (IpcChannel 3, RightsMask True True False))] p"

lemma demos_launch:
  assumes k: "kernel_wf k" "current_task_id k = None" "\<And>i. get_task k i = None" "has_frames 36 (mach k)"
  obtains c k1 k2 where "place_init k = Ret k1" "load_demos e k1 = Ret k2" "init_ready c (launch k2)" "cap_summary c = cap_summary init_root_cap"
    "\<And>i. map_option t_state (get_task (launch k2) i) = (if i = 1 then Some Running else if i \<in> demo_slots then Some Ready else None)"
    "\<And>s. cap_view (launch k2) (1, s) = (if s = 0 then Some c else None)"
    "\<And>i s x. i \<noteq> 1 \<Longrightarrow> cap_view (launch k2) (i, s) = Some x \<Longrightarrow> i \<in> demo_slots \<and> \<not> cap_grant x"
proof -
  have "has_frames (9 + 27) (mach k)" using k(4) by simp
  from place_init_places [OF k(1) this] obtain c k1 where p: "place_init k = Ret k1" "init_placed c 27 k k1" by blast
  note p' = p(2) [unfolded init_placed_def]
  have ns: "j \<notin> demo_slots" if "j < 5" for j using that by (auto simp: demo_slots_def)
  obtain k2 where l: "load_demos e k1 = Ret k2" "loads demo_slots k1 k2" using demos_are_loaded [of k1 e] p' by blast
  note l' = l(2) [unfolded loads_def]
  have wf2: "kernel_wf k2" and c2: "current_task_id k2 = None" using l' p' k(2) by simp_all
  have g2: "get_task k2 i = (if i = 1 then get_task k1 1 else None)" if "i \<notin> demo_slots" for i using that l' p' k(3) by simp
  have st: "map_option t_state (get_task k2 i) = (if i = 1 then Some Ready else if i \<in> demo_slots then Some Ready else None)" for i
    using g2 [of i] l' p' ns [of 1] by (cases "i \<in> demo_slots") auto
  have view: "cap_view k2 (i, s) = (if i = 1 then cap_view k1 (1, s) else None)" if "i \<notin> demo_slots" for i s
    using g2 [OF that] p' cap_view_get_task [OF wf2, of i s] cap_view_get_task [of k1 1 s] by (simp split: option.split)
  have la: "kernel_wf (launch k2)" "current_task_id (launch k2) = Some 1" "cap_view (launch k2) = cap_view k2"
    "map_option t_state (get_task (launch k2) i) = (if i = 1 then Some Running else map_option t_state (get_task k2 i))"
    "has_frames n (mach (launch k2)) = has_frames n (mach k2)" for i n
    using launch_first [OF wf2 c2, of 1] st ns [of 0] by (auto simp: MAX_TASKS_def)
  have v1: "cap_view (launch k2) (1, s) = (if s = 0 then Some c else None)" for s using view [of 1 s] ns [of 1] p' la(3) by simp
  have ng: "i \<in> demo_slots \<and> \<not> cap_grant x" if "i \<noteq> 1" "cap_view (launch k2) (i, s) = Some x" for i s x
    using that view [of i s] la(3) l' cap_view_get_task [OF wf2, of i s] by (cases "i \<in> demo_slots") (force simp: no_grant_def)+
  have "cap_grant c" using p' by (auto simp: cap_summary_def rights_of_def init_root_cap_def)
  moreover have "get_task (launch k2) i = None" if "i \<in> {2, 3, 4}" for i
    using that la(4) [of i] st [of i] ns [of i] by auto
  moreover have "get_task (launch k2) 1 \<noteq> None" using la(4) [of 1] by auto
  ultimately have "init_ready c (launch k2)" using la(1,2,5) v1 l' p' by (auto simp: init_ready_def)
  then show ?thesis using that [OF p(1) l(1)] p' la(4) st v1 ng by simp
qed

text \<open>The authority after init's turn, from the authority before it.\<close>

lemma init_turn_authority:
  assumes c: "cap_summary c = cap_summary init_root_cap" "\<And>s. cap_view k (1, s) = (if s = 0 then Some c else None)"
    "\<And>i s x. i \<noteq> 1 \<Longrightarrow> cap_view k (i, s) = Some x \<Longrightarrow> i \<in> demo_slots \<and> \<not> cap_grant x"
    and v: "\<And>q. map_option cap_summary (cap_view k' q) =
       (case init_grants c q of Some g \<Rightarrow> Some g | None \<Rightarrow> map_option cap_summary (cap_view k q))"
  shows "i \<in> {1, 2, 3, 4} \<Longrightarrow> map_option cap_summary (cap_view k' (i, j)) = booted_authority (i, j)"
    and "cap_view k' (i, j) = Some x \<Longrightarrow> cap_grant x \<Longrightarrow> i = 1"
proof -
  have cs: "cap_resource c = Serial" "rights_of c = RightsMask False True True"
    using c(1) by (simp_all add: cap_summary_def init_root_cap_def rights_of_def)
  have ns: "j \<notin> demo_slots" if "j < 5" for j using that by (auto simp: demo_slots_def)
  have none: "cap_view k (i, j) = None" if "i \<in> {2, 3, 4}" for i j
    using c(3) [of i j] that ns [of i] by (cases "cap_view k (i, j)") auto
  show "map_option cap_summary (cap_view k' (i, j)) = booted_authority (i, j)" if "i \<in> {1, 2, 3, 4}"
    using v [of "(i, j)"] that none [of i j] c(2) [of j] cs
    by (auto simp: init_grants_def booted_authority_def inf_rights_mask_def cap_summary_def)
  assume x: "cap_view k' (i, j) = Some x" "cap_grant x"
  show "i = 1"
  proof (rule ccontr)
    assume i: "i \<noteq> 1"
    have g: "snd (cap_summary x) = RightsMask (cap_read x) (cap_write x) True" using x(2) by (simp add: cap_summary_def rights_of_def)
    have "init_grants c (i, j) \<noteq> Some (cap_summary x)"
      using g i by (cases "cap_summary x") (auto simp: init_grants_def inf_rights_mask_def cs split: if_splits)
    then have "map_option cap_summary (cap_view k (i, j)) = Some (cap_summary x)"
      using v [of "(i, j)"] x(1) by (simp split: option.splits)
    then show False using c(3) [OF i] g by (auto simp: cap_summary_def rights_of_def)
  qed
qed

text \<open>
  C35. From the image to the running services.  With 36 free frames after boot, \<open>_start\<close> in demonstration mode ends with the
  init program running; thirty-seven of its instructions later it yields for the first time, and then the two services and
  the user task are ready beside the thirty-one demonstration tasks, the four tasks of the user-space system hold exactly the
  capabilities they need, and no task but init holds one it could delegate.
\<close>

theorem boot_brings_up_services:
  assumes "base_supported p" "FrameAllocator_init (memmap_response p) m = Ret m1" "has_frames 36 m1"
    and "lapic_base (hhdm_offset m1) = Ret lapic"
  shows "\<exists>s u k. kernel_start False p (boot_image l m d) = Ret (Launched s) \<and> current_task_id (b_kernel s) = Some 1 \<and>
    user_run 37 enc init_program user_entry (b_kernel s) = Ret (Blocks WaitYield u k) \<and> kernel_wf k \<and>
    (\<forall>i. map_option t_state (get_task k i) =
       (if i = 1 then Some Running else if i \<in> {2, 3, 4} \<union> demo_slots then Some Ready else None)) \<and>
    (\<forall>i \<in> {1, 2, 3, 4}. \<forall>j. map_option cap_summary (cap_view k (i, j)) = booted_authority (i, j)) \<and>
    (\<forall>i j c. cap_view k (i, j) = Some c \<and> cap_grant c \<longrightarrow> i = 1)"
proof -
  let ?s0 = "(boot_image l m d)\<lparr>b_serial := SerialPort_init (b_serial (boot_image l m d))\<rparr>"
  obtain own where own: "lapic_id (hhdm_offset m1) d = Ret own" using assms(4) by (simp add: lapic_id_def)
  obtain s1 where s1: "boot_platform p ?s0 = Ret s1" "b_kernel s1 = (initial_kernel l m)\<lparr>mach := m1\<rparr>"
    by (rule boot_platform_up [of ?s0 p m1 lapic own]) (use assms(2,4) own in \<open>auto simp: boot_image_def initial_kernel_def\<close>)
  let ?k = "b_kernel s1"
  have k: "kernel_wf ?k" "current_task_id ?k = None" "\<And>i. get_task ?k i = None" "has_frames 36 (mach ?k)"
    unfolding s1(2) using assms(3) by (simp_all add: initial_kernel_def kernel_wf_def get_task_def)
  obtain c k1 k2 where d: "place_init ?k = Ret k1" "load_demos (demo_addrs p) k1 = Ret k2" "init_ready c (launch k2)"
    "cap_summary c = cap_summary init_root_cap"
    "\<And>i. map_option t_state (get_task (launch k2) i) = (if i = 1 then Some Running else if i \<in> demo_slots then Some Ready else None)"
    "\<And>s. cap_view (launch k2) (1, s) = (if s = 0 then Some c else None)"
    "\<And>i s x. i \<noteq> 1 \<Longrightarrow> cap_view (launch k2) (i, s) = Some x \<Longrightarrow> i \<in> demo_slots \<and> \<not> cap_grant x"
    by (rule demos_launch [OF k, of "demo_addrs p"]) (rule that)
  obtain io where io: "boot_demos p s1 = Ret (s1\<lparr>b_ports := io, b_kernel := launch k2\<rparr>)"
    using boot_demos_runs [OF d(1,2)] by blast
  let ?s = "s1\<lparr>b_ports := io, b_kernel := launch k2\<rparr>"
  obtain u k' where u: "user_run 37 enc init_program user_entry (launch k2) = Ret (Blocks WaitYield u k')" "kernel_wf k'"
    "\<And>i. map_option t_state (get_task k' i) = (if i \<in> {2, 3, 4} then Some Ready else map_option t_state (get_task (launch k2) i))"
    "\<And>q. map_option cap_summary (cap_view k' q) =
       (case init_grants c q of Some g \<Rightarrow> Some g | None \<Rightarrow> map_option cap_summary (cap_view (launch k2) q))"
    using init_sets_up_services [OF d(3), of enc] by blast
  note auth = init_turn_authority [OF d(4,6,7) u(4)]
  have ns: "j \<notin> demo_slots" if "j < 5" for j using that by (auto simp: demo_slots_def)
  have "kernel_start False p (boot_image l m d) = Ret (Launched ?s)"
    using assms(1) s1(1) io by (simp add: kernel_start_def Let_def)
  moreover have "current_task_id (launch k2) = Some 1" using d(3) by (simp add: init_ready_def)
  ultimately show ?thesis
    using u(1-3) auth d(5) ns by (intro exI [of _ ?s] exI [of _ u] exI [of _ k'] conjI) auto
qed

subsection \<open>Booting the sample machine\<close>

definition sample_demo_addrs :: demo_entries where
  "sample_demo_addrs = \<lparr>task_crasher = 0x50100, task_dead_target = 0x50110, task_probe = 0x50120, task_worker = 0x50130, task_security_demo =
     0x50140, task_fragile_service = 0x50150, task_watchdog = 0x50160, task_persistence_demo = 0x50170, task_dist_demo =
     0x50180, dist_scratch_entry = 0x50190, task_preempt_demo = 0x501a0, task_busy_a = 0x501b0, task_busy_b = 0x501c0,
     task_park = 0x501d0\<rparr>"

definition sample_params :: boot_params where
  "sample_params = \<lparr>base_supported = True,
     memmap_response = Some [\<lparr>me_base = 0x1000, me_length = 0x9e000, me_usable = True\<rparr>,
       \<lparr>me_base = 0x9f000, me_length = 0x61000, me_usable = False\<rparr>, \<lparr>me_base = 0x100000, me_length = 0x100800, me_usable = True\<rparr>],
     mp_response = Some [\<lparr>processor_id = 0, mp_lapic_id = 0\<rparr>, \<lparr>processor_id = 1, mp_lapic_id = 2\<rparr>],
     cpu_addrs = \<lparr>tsss_addr = 0x201000, gdts_addr = 0x202000, kernel_stacks_addr = 0x210008\<rparr>, trap_addrs = sample_entries,
     idt_addr = 0xffffffff80100000, shell_entry = 0xffffffff80050000, demo_addrs = sample_demo_addrs\<rparr>"

definition unbooted_machine :: machine where
  "unbooted_machine = sample_machine\<lparr>next_free_paddr := 0, usable_end := 0\<rparr>"

definition booted_machine :: machine where
  "booted_machine = sample_machine\<lparr>next_free_paddr := 0x100000, usable_end := 0x200000\<rparr>"

definition idle_lapic :: lapic_dev where
  "idle_lapic = \<lparr>lapic_regs = (\<lambda>_. 0), lapic_writes = [], IPI_ACK_COUNT = 0\<rparr>"

lemma sample_boot:
  "FrameAllocator_init (memmap_response sample_params) unbooted_machine = Ret booted_machine"
  "lapic_base (hhdm_offset booted_machine) = Ret \<lparr>lbase = 0xffff8000fee00000\<rparr>"
  "lapic_id (hhdm_offset booted_machine) idle_lapic = Ret 0" "has_frames 36 booted_machine"
proof -
  show "FrameAllocator_init (memmap_response sample_params) unbooted_machine = Ret booted_machine"
    by (simp add: FrameAllocator_init_def sample_params_def unbooted_machine_def booted_machine_def FrameAllocator_init_entry_def)
  show "lapic_base (hhdm_offset booted_machine) = Ret \<lparr>lbase = 0xffff8000fee00000\<rparr>"
    by (simp add: lapic_base_def hhdm_offset_def booted_machine_def sample_machine_def)
  then show "lapic_id (hhdm_offset booted_machine) idle_lapic = Ret 0"
    by (simp add: lapic_id_def Lapic_read_def idle_lapic_def)
  show "has_frames 36 booted_machine"
    by (simp add: has_frames_def frames_inv_def booted_machine_def sample_machine_def)
qed

theorem boot_launches_shell_witness:
  "\<exists>s. kernel_start SHELL_MODE sample_params (boot_image sample_layout unbooted_machine idle_lapic) = Ret (Launched s) \<and>
     current_task_id (b_kernel s) = Some 64 \<and> map fst (b_started s) = [\<lparr>processor_id = 1, mp_lapic_id = 2\<rparr>] \<and>
     irq_vector (pics_see (b_ports s) (pic_reset, pic_reset)) 0 = Some 0x20 \<and> gate_target (b_idt s ! 0x20) = 0xffffffff80001050"
proof -
  have "base_supported sample_params" by (simp add: sample_params_def)
  from boot_launches_shell [OF this sample_boot(1-3), of sample_layout "\<lparr>pit_low = None, pit_reload = 65536\<rparr>" "(pic_reset, pic_reset)"]
  show ?thesis by (auto simp: other_processors_def sample_params_def sample_entries_def)
qed

theorem boot_brings_up_services_witness:
  "\<exists>s u k. kernel_start False sample_params (boot_image sample_layout unbooted_machine idle_lapic) = Ret (Launched s) \<and>
     user_run 37 (\<lambda>_ _. [0x90]) init_program user_entry (b_kernel s) = Ret (Blocks WaitYield u k) \<and>
     map_option t_state (get_task k 3) = Some Ready \<and> map_option t_state (get_task k 119) = Some Ready \<and>
     map_option cap_summary (cap_view k (4, 0)) = Some (IpcChannel 2, RightsMask True True False) \<and> cap_view k (4, 2) = None"
proof -
  have "base_supported sample_params" by (simp add: sample_params_def)
  from boot_brings_up_services [OF this sample_boot(1,4,2), of sample_layout idle_lapic "\<lambda>_ _. [0x90]"]
  obtain s u k where r: "kernel_start False sample_params (boot_image sample_layout unbooted_machine idle_lapic) = Ret (Launched s)"
    "user_run 37 (\<lambda>_ _. [0x90]) init_program user_entry (b_kernel s) = Ret (Blocks WaitYield u k)"
    "\<And>i. map_option t_state (get_task k i) = (if i = 1 then Some Running else if i \<in> {2, 3, 4} \<union> demo_slots then Some Ready else None)"
    "\<And>i j. i \<in> {1, 2, 3, 4} \<Longrightarrow> map_option cap_summary (cap_view k (i, j)) = booted_authority (i, j)" by blast
  show ?thesis using r(1,2) r(3) [of 3] r(3) [of 119] r(4) [of 4 0] r(4) [of 4 2]
    by (auto simp: booted_authority_def demo_slots_def)
qed

subsection \<open>The entry of the other processors\<close>

fun aps_enter :: "boot_params \<Rightarrow> u64 \<Rightarrow> (mp_info \<times> lapic_dev) list \<Rightarrow> boot_state \<Rightarrow> boot_state run" where
  "aps_enter p hhdm [] s = Ret s"
| "aps_enter p hhdm ((i, d) # xs) s = run_bind (ap_entry p hhdm i d s) (\<lambda>(_, s). aps_enter p hhdm xs s)"

text \<open>Filling the interrupt table again with the same handlers leaves it as it is.\<close>

lemma init_idt_again:
  assumes "init_idt cs h b empty_idt = Ret (idt, q)"
  shows "init_idt cs h b idt = Ret (idt, q)"
proof -
  have len: "length idt = IDT_ENTRIES" by (rule init_idt_entry(1) [OF length_empty_idt assms])
  obtain idt' q' where r: "init_idt cs h b idt = Ret (idt', q')" using init_idt_table [OF len] by blast
  have "idt' = idt"
  proof (rule nth_equalityI)
    show "length idt' = length idt" using init_idt_entry(1) [OF len r] len by simp
    show "idt' ! v = idt ! v" if "v < length idt'" for v
      using that init_idt_entry(1) [OF len r] init_idt_entry(2) [OF len r, of v] installed_gate [OF assms, of v] by (cases "handler_of h v") simp_all
  qed
  moreover have "q' = q" using r assms unfolding init_idt_table [OF len] init_idt_table [OF length_empty_idt] by simp
  ultimately show ?thesis using r by simp
qed

lemma ap_entry_up:
  assumes s: "platform_up p s" and l: "lapic_base hhdm = Ret l" and i: "unat (processor_id i) < 4"
  obtains a s' where "ap_entry p hhdm i d s = Ret (a, s')" "b_idt s' = b_idt s" "b_kernel s' = b_kernel s"
    "cpu_tables_wf (b_tables s')" "segments_ok (gdts (b_tables s') ! unat (processor_id i))"
    "gdt_base (gdtr (ap_loads a)) = gdts_addr (cpu_addrs p) + of_nat (unat (processor_id i) * 56)"
    "\<And>j. j \<noteq> unat (processor_id i) \<Longrightarrow> gdts (b_tables s') ! j = gdts (b_tables s) ! j"
    "b_loads s' = b_loads s" "bit (Lapic_read l 0xF0 (ap_lapic a)) 8" "ap_interrupts a"
proof -
  let ?i = "unat (processor_id i)"
  note u = s [unfolded platform_up_def]
  obtain c g where g: "init_cpu (cpu_addrs p) ?i (b_tables s) = Ret (c, g)" "code_segment g = KERNEL_CODE"
    "gdt_base (gdtr g) = gdts_addr (cpu_addrs p) + of_nat (?i * 56)"
    "gdts c = (gdts (b_tables s))[?i := (gdts (b_tables s) ! ?i)[1 := segment 0x9a 0x2, 2 := segment 0x92 0x0, 3 := segment 0xfa 0x2,
       4 := segment 0xf2 0x0, 5 := tss_low (tsss_addr (cpu_addrs p) + of_nat (?i * TSS_SIZE)) (of_nat (TSS_SIZE - 1)),
       6 := tss_high (tsss_addr (cpu_addrs p) + of_nat (?i * TSS_SIZE))]]"
    using init_cpu_updates [OF i, of "b_tables s" "cpu_addrs p"] u by metis
  have wf: "cpu_tables_wf c" using cpu_tables_wf_init_cpu [OF g(1)] u by simp
  have len: "length (gdts (b_tables s)) = 4" "length (gdts (b_tables s) ! ?i) = 7" using u i by (auto simp: cpu_tables_wf_def GDT_LEN_def)
  have seg: "segments_ok (gdts c ! ?i)" using i len by (intro segments_ok_table) (simp_all add: g(4) GDT_LEN_def)
  obtain d' where d': "enable_lapic hhdm d = Ret d'" "bit (Lapic_read l 0xF0 d') 8" using enable_lapic_enables [OF l] by blast
  have "ap_entry p hhdm i d s = Ret (\<lparr>ap_loads = g, ap_idtr = \<lparr>idt_limit = 4095, idt_base = idt_addr p\<rparr>, ap_lapic = d', ap_interrupts = True\<rparr>,
      s\<lparr>b_tables := c, b_idt := b_idt s\<rparr>)"
    using g(1,2) d'(1) init_idt_again [OF u [THEN conjunct2, THEN conjunct2, THEN conjunct1]] by (simp add: ap_entry_def Let_def)
  then show ?thesis by (rule that) (use wf seg g(3,4) d'(2) in simp_all)
qed

text \<open>
  The other processors come up in any order.  Once the boot processor has set up the platform, processors with different
  numbers below four, none of them the boot processor's, can enter one after another in any order: none of them fails, the
  boot processor's own table and the interrupt table stay as they are, and each processor finds valid segments in the
  table it loads.  A processor with a higher number panics.
\<close>

theorem processors_come_up:
  assumes "platform_up p s" "lapic_base hhdm = Ret l" "distinct (map (\<lambda>x. processor_id (fst x)) xs)"
    and "\<forall>x \<in> set xs. unat (processor_id (fst x)) \<in> {1, 2, 3}"
  shows "\<exists>s'. aps_enter p hhdm xs s = Ret s' \<and> platform_up p s' \<and> b_kernel s' = b_kernel s \<and> b_idt s' = b_idt s \<and>
    gdts (b_tables s') ! 0 = gdts (b_tables s) ! 0 \<and>
    (\<forall>x \<in> set xs. segments_ok (gdts (b_tables s') ! unat (processor_id (fst x))))"
proof -
  have "\<exists>s'. aps_enter p hhdm xs s = Ret s' \<and> platform_up p s' \<and> b_kernel s' = b_kernel s \<and> b_idt s' = b_idt s \<and>
    (\<forall>j. j \<notin> (\<lambda>x. unat (processor_id (fst x))) ` set xs \<longrightarrow> gdts (b_tables s') ! j = gdts (b_tables s) ! j) \<and>
    (\<forall>x \<in> set xs. segments_ok (gdts (b_tables s') ! unat (processor_id (fst x))))"
    using assms
  proof (induction xs arbitrary: s)
    case (Cons x xs)
    obtain i d where x: "x = (i, d)" by (cases x)
    have "unat (processor_id i) < 4" using Cons.prems(4) x by auto
    then obtain a s1 where 1: "ap_entry p hhdm i d s = Ret (a, s1)" "b_idt s1 = b_idt s" "b_kernel s1 = b_kernel s"
      "cpu_tables_wf (b_tables s1)" "segments_ok (gdts (b_tables s1) ! unat (processor_id i))"
      "\<And>j. j \<noteq> unat (processor_id i) \<Longrightarrow> gdts (b_tables s1) ! j = gdts (b_tables s) ! j" "b_loads s1 = b_loads s"
      using ap_entry_up [OF Cons.prems(1,2), of i d] by metis
    have "unat (processor_id i) \<noteq> 0" using Cons.prems(4) x by auto
    then have up: "platform_up p s1" using Cons.prems(1) 1(2,4,7) 1(6) [of 0] by (simp add: platform_up_def)
    have other: "unat (processor_id i) \<notin> (\<lambda>x. unat (processor_id (fst x))) ` set xs"
      using Cons.prems(3) x by (auto simp: word_unat_eq_iff image_iff)
    obtain s' where "aps_enter p hhdm xs s1 = Ret s'" "platform_up p s'" "b_kernel s' = b_kernel s1" "b_idt s' = b_idt s1"
      "\<forall>j. j \<notin> (\<lambda>x. unat (processor_id (fst x))) ` set xs \<longrightarrow> gdts (b_tables s') ! j = gdts (b_tables s1) ! j"
      "\<forall>x \<in> set xs. segments_ok (gdts (b_tables s') ! unat (processor_id (fst x)))"
      using Cons.IH [OF up Cons.prems(2)] Cons.prems(3,4) by auto
    then show ?case using 1 other x by (intro exI [of _ s']) auto
  qed auto
  then show ?thesis using assms(4) by (fastforce simp: image_iff)
qed

lemma fifth_processor_panics: "4 \<le> unat (processor_id i) \<Longrightarrow> ap_entry p hhdm i d s = Panic"
  by (simp add: ap_entry_def Let_def init_cpu_out_of_range)

end
