(* ===== verification/Loader.thy ===== *)
theory Loader
  imports Userspace Samples
begin

text \<open>
  The result of \<open>spawn_user\<close> of \<open>userspace/mod.rs\<close> in memory: the page tables the loader builds from seven frames, the bytes
  of the program read back through them, and the ranges the validation of user pointers accepts in the new address space.
\<close>

subsection \<open>Frames and the entries that name them\<close>

definition nth_frame :: "u64 \<Rightarrow> nat \<Rightarrow> u64" where
  "nth_frame f i = f + of_nat (4096 * i)"

definition frame_ok :: "u64 \<Rightarrow> bool" where
  "frame_ok p \<longleftrightarrow> 4096 dvd unat p \<and> unat p < 2 ^ 52"

lemma frame_bits: "frame_ok p \<Longrightarrow> bit p n \<Longrightarrow> 12 \<le> n \<and> n < 52"
proof -
  assume p: "frame_ok p" and b: "bit p n"
  have "take_bit 12 p = 0"
    using p by (simp add: frame_ok_def take_bit_eq_mod flip: unat_eq_0) (simp add: unat_mod)
  then have "\<not> n < 12" using b by (metis bit_take_bit_iff bit_0_eq bot_apply bot_bool_def)
  moreover have "take_bit 52 p = p"
    using p by (simp add: frame_ok_def take_bit_eq_mod word_unat_eq_iff unat_mod)
  then have "n < 52" using b by (metis bit_take_bit_iff)
  ultimately show ?thesis by simp
qed

lemma PADDR_bit: "bit PADDR_MASK n \<longleftrightarrow> 12 \<le> n \<and> n < 52"
proof -
  have *: "PADDR_MASK = push_bit 12 (mask 40)" by (simp add: PADDR_MASK_def mask_eq_exp_minus_1)
  have "bit PADDR_MASK n \<longleftrightarrow> 12 \<le> n \<and> n < 64 \<and> n - 12 < 40"
    unfolding * bit_push_bit_iff bit_mask_iff by auto
  then show ?thesis by auto
qed

lemma entry_of_frame:
  assumes "frame_ok p"
  shows "(p OR 7) AND PADDR_MASK = p" "p AND PADDR_MASK = p" "bit (p OR 7) 0" "bit (p OR 7) 1" "bit (p OR 7) 2" "(p OR 7) OR 4 = p OR 7"
proof -
  have seven: "bit (7 :: u64) n \<longleftrightarrow> n < 3" for n
    using bit_mask_iff [of 3 n, where ?'a = "64 word"] by (auto simp: mask_eq_exp_minus_1 dest: bit_imp_le_length)
  show "(p OR 7) AND PADDR_MASK = p"
    by (rule bit_word_eqI) (use frame_bits [OF assms] in \<open>auto simp only: bit_and_iff bit_or_iff PADDR_bit seven\<close>)
  show "p AND PADDR_MASK = p"
    by (rule bit_word_eqI) (use frame_bits [OF assms] in \<open>auto simp: bit_and_iff PADDR_bit\<close>)
  show "bit (p OR 7) 0" "bit (p OR 7) 1" "bit (p OR 7) 2" by (simp_all add: bit_or_iff seven)
  show "(p OR 7) OR 4 = p OR 7" by (simp add: or.assoc)
qed

lemma nth_frame_Suc: "nth_frame f i + 4096 = nth_frame f (Suc i)"
  by (simp add: nth_frame_def)

lemma nth_frame_cell_eq:
  assumes "i < 16" "j < 16" "x < 4096" "y < 4096"
  shows "nth_frame f i + h + x = nth_frame f j + h + y \<longleftrightarrow> i = j \<and> x = y"
proof
  have u: "unat (of_nat (4096 * i) + x :: u64) = 4096 * i + unat x" if "i < 16" "x < 4096" for i and x :: u64
    using that by (simp add: unat_word_ariths unat_of_nat word_less_nat_alt)
  assume "nth_frame f i + h + x = nth_frame f j + h + y"
  then have "of_nat (4096 * i) + x = (of_nat (4096 * j) + y :: u64)" by (simp add: nth_frame_def algebra_simps)
  then have e: "4096 * i + unat x = 4096 * j + unat y" using u assms by metis
  have "unat x < 4096" "unat y < 4096" using assms by (simp_all add: word_less_nat_alt)
  then have "(4096 * i + unat x) div 4096 = i" "(4096 * j + unat y) div 4096 = j" by simp_all
  then have "i = j" using e by simp
  then show "i = j \<and> x = y" using e by (simp add: word_unat_eq_iff)
qed simp

lemmas nth_frame_cell_eqs = nth_frame_cell_eq
  nth_frame_cell_eq [where x = 0, simplified] nth_frame_cell_eq [where y = 0, simplified]
  nth_frame_cell_eq [where x = 0 and y = 0, simplified]

lemma nth_frame_zeroed:
  assumes "i < 16" "j < 16" "x < 4096"
  shows "nth_frame f i + h + x - (nth_frame f j + h) < 4096 \<longleftrightarrow> i = j"
proof
  assume "nth_frame f i + h + x - (nth_frame f j + h) < 4096"
  from nth_frame_cell_eq [OF assms this, of f h] show "i = j" by simp
qed (use assms in simp)

lemma nth_frame_zeroed_at:
  "i < 16 \<Longrightarrow> j < 16 \<Longrightarrow> x < 4096 \<Longrightarrow> nth_frame f i + (x - nth_frame f j) < 4096 \<longleftrightarrow> i = j"
  using nth_frame_zeroed [of i j x f 0] by (simp add: add_diff_eq)

lemmas nth_frame_zeroeds = nth_frame_zeroed nth_frame_zeroed [where x = 0, simplified] nth_frame_zeroed_at

subsection \<open>Bytes in cells\<close>

definition byte_at :: "machine \<Rightarrow> u64 \<Rightarrow> u8" where
  "byte_at m a = ucast (drop_bit (8 * unat (a AND 7)) (mem m (a AND NOT 7)))"

lemma load_byte_at: "load_byte m v = byte_at m (user_paddr m v + hhdm_offset m)"
  by (simp add: load_byte_def byte_at_def Let_def)

lemma and_7_lt: "unat ((a :: u64) AND 7) < 8"
proof -
  have "a AND 7 \<le> 7" by (rule word_and_le1)
  then show ?thesis by (simp add: word_le_nat_alt)
qed

lemma bit_byte_at: "n < LENGTH(8) \<Longrightarrow> bit (byte_at m a) n = bit (mem m (a AND NOT 7)) (8 * unat (a AND 7) + n)"
  unfolding byte_at_def by (simp add: bit_ucast_iff bit_drop_bit_eq)

lemma and_split: "(a :: u64) = (a AND w) OR (a AND NOT w)"
  by (rule bit_word_eqI) (auto simp: bit_or_iff bit_and_iff bit_not_iff)

lemma bit_patch:
  fixes b :: u8 and w :: u64
  assumes "q < 64"
  shows "bit ((w AND NOT (push_bit s 0xff)) OR push_bit s (ucast b)) q =
    (if s \<le> q \<and> q - s < 8 then bit b (q - s) else bit w q)"
proof -
  have ff: "bit (0xff :: u64) n \<longleftrightarrow> n < 8" for n
    using bit_mask_iff [of 8 n, where ?'a = "64 word"] by (auto simp: mask_eq_exp_minus_1 dest: bit_imp_le_length)
  have "bit b n \<Longrightarrow> n < 8" for n using bit_imp_le_length [of b n] by simp
  then show ?thesis using assms
    unfolding bit_or_iff bit_and_iff bit_not_iff bit_push_bit_iff ff bit_ucast_iff by auto
qed

lemma byte_at_store_at: "byte_at (store_at a b m) a' = (if a' = a then b else byte_at m a')"
proof (cases "a' AND NOT 7 = a AND NOT 7")
  case True
  let ?s = "8 * unat (a AND 7)" and ?s' = "8 * unat (a' AND 7)"
  have eq: "a' = a \<longleftrightarrow> ?s' = ?s"
  proof
    assume "?s' = ?s"
    then have "a' AND 7 = a AND 7" by (simp add: word_unat_eq_iff)
    then show "a' = a" using True and_split [of a' 7] and_split [of a 7] by simp
  qed simp
  have s: "?s' + 8 \<le> 64" "?s + 8 \<le> 64" using and_7_lt [of a] and_7_lt [of a'] by simp_all
  let ?V = "(mem m (a AND NOT 7) AND NOT (push_bit ?s 0xff)) OR push_bit ?s (ucast b)"
  have cell: "mem (store_at a b m) (a' AND NOT 7) = ?V"
    unfolding store_at_def Let_def True by simp
  have sub: "?s \<le> ?s' + n \<and> ?s' + n - ?s < 8 \<longleftrightarrow> ?s' = ?s" if "n < 8" for n
    using that by (auto; presburger)
  show ?thesis
  proof (rule bit_word_eqI)
    fix n assume n: "n < LENGTH(8)"
    have "bit (byte_at (store_at a b m) a') n = bit ?V (?s' + n)"
      unfolding bit_byte_at [OF n] cell ..
    also have "\<dots> = (if ?s' = ?s then bit b n else bit (mem m (a AND NOT 7)) (?s' + n))"
    proof -
      have "n < 8" "?s' + n < 64" using n s by simp_all
      then show ?thesis unfolding bit_patch [OF \<open>?s' + n < 64\<close>] sub [OF \<open>n < 8\<close>] by simp
    qed
    also have "\<dots> = bit (if a' = a then b else byte_at m a') n"
      unfolding eq bit_byte_at [OF n, symmetric] True [symmetric] by simp
    finally show "bit (byte_at (store_at a b m) a') n = bit (if a' = a then b else byte_at m a') n" .
  qed
next
  case False
  then show ?thesis by (auto simp: byte_at_def store_at_def Let_def)
qed

subsection \<open>The copy of a program into its frame\<close>

lemma copy_blob_snoc: "copy_blob d (bs @ [b]) m = store_at (d + of_nat (length bs)) b (copy_blob d bs m)"
  by (simp add: copy_blob_def enumerate_append_eq)

lemma copy_blob_byte:
  "length blob \<le> 4096 \<Longrightarrow> i < length blob \<Longrightarrow> byte_at (copy_blob d blob m) (d + of_nat i) = blob ! i"
proof (induction blob rule: rev_induct)
  case (snoc b bs)
  have "(of_nat i = (of_nat (length bs) :: u64)) \<longleftrightarrow> i = length bs"
    using snoc.prems by (auto simp: word_unat_eq_iff unat_of_nat)
  then show ?case using snoc by (auto simp: copy_blob_snoc byte_at_store_at nth_append)
qed simp

lemma store_at_cell: "c \<noteq> a AND NOT 7 \<Longrightarrow> mem (store_at a b m) c = mem m c"
  by (simp add: store_at_def Let_def)

lemma copy_blob_cell:
  "(\<And>i. i < length blob \<Longrightarrow> c \<noteq> (d + of_nat i) AND NOT 7) \<Longrightarrow> mem (copy_blob d blob m) c = mem m c"
proof (induction blob rule: rev_induct)
  case (snoc b bs)
  then show ?case by (simp add: copy_blob_snoc store_at_cell less_SucI)
qed (simp add: copy_blob_def)

lemma copy_blob_machine: "\<exists>f. copy_blob d blob m = m\<lparr>mem := f\<rparr>"
proof (induction blob rule: rev_induct)
  case Nil
  then show ?case by (rule exI [of _ "mem m"]) (simp add: copy_blob_def)
next
  case (snoc b bs)
  then show ?case by (auto simp: copy_blob_snoc store_at_def Let_def)
qed

lemma and_7: "unat ((a :: u64) AND 7) = unat a mod 8"
proof -
  have "a AND 7 = take_bit 3 a" by (simp add: take_bit_eq_mask mask_eq_exp_minus_1)
  also have "\<dots> = a mod 8" by (simp add: take_bit_eq_mod)
  finally show ?thesis by (simp add: unat_mod)
qed

lemma aligned_low:
  assumes "4096 dvd unat (d :: u64)"
  shows "(d + x) AND 7 = x AND 7"
proof -
  have "8 dvd unat d" by (rule dvd_trans [OF _ assms]) simp
  moreover have "unat (d + x) mod 8 = (unat d + unat x) mod 8"
    by (simp add: unat_word_ariths mod_mod_cancel)
  ultimately have "unat (d + x) mod 8 = unat x mod 8" by (metis dvd_imp_mod_0 mod_add_left_eq add_0)
  then show ?thesis unfolding word_unat_eq_iff and_7 .
qed

lemma and_sum: "(a :: u64) = (a AND w) + (a AND NOT w)"
  unfolding disjunctive_add [of "a AND w" "a AND NOT w", unfolded bit_and_iff bit_not_iff, simplified]
  by (rule and_split)

lemma low_cell:
  assumes "4096 dvd unat (d :: u64)"
  shows "(d + x) AND NOT 7 = d + (x AND NOT 7)"
proof -
  have "d + x = (x AND 7) + ((d + x) AND NOT 7)"
    using and_sum [of "d + x" 7] unfolding aligned_low [OF assms] .
  moreover have "d + x = (x AND 7) + (d + (x AND NOT 7))"
    using and_sum [of x 7] by (metis add.left_commute)
  ultimately show ?thesis by (metis add_left_cancel)
qed

lemma frame_aligned:
  assumes "4096 dvd unat f" "4096 dvd unat h"
  shows "4096 dvd unat (nth_frame f i + h)"
proof -
  have "4096 dvd (2 :: nat) ^ 64" by simp
  then show ?thesis using assms unfolding nth_frame_def by (simp add: unat_word_ariths unat_of_nat dvd_mod_iff dvd_mod)
qed

lemma copy_blob_frame:
  assumes "4096 dvd unat f" "4096 dvd unat h" "length blob \<le> 4096" "i < 16" "j < 16" "i \<noteq> j" "x < 4096"
  shows "mem (copy_blob (nth_frame f i + h) blob m) (nth_frame f j + h + x) = mem m (nth_frame f j + h + x)"
proof (rule copy_blob_cell)
  fix n assume "n < length blob"
  then have "of_nat n < (4096 :: u64)" using assms(3) by (simp add: word_less_nat_alt unat_of_nat)
  then have "of_nat n AND NOT 7 < (4096 :: u64)" using word_and_le2 [of "of_nat n" "NOT 7"] by (rule le_less_trans [rotated])
  then show "nth_frame f j + h + x \<noteq> (nth_frame f i + h + of_nat n) AND NOT 7"
    unfolding low_cell [OF frame_aligned [OF assms(1,2)]]
    using assms nth_frame_cell_eq [of j i x "of_nat n AND NOT 7" f h] by blast
qed

lemmas copy_blob_frames = copy_blob_frame copy_blob_frame [where x = 0, simplified]

subsection \<open>The tables the loader builds\<close>

definition frames_from :: "u64 \<Rightarrow> machine \<Rightarrow> bool" where
  "frames_from f m \<longleftrightarrow> unat f + 7 * 4096 \<le> unat (usable_end m) \<and> unat (usable_end m) \<le> 2 ^ 52 \<and> 4096 dvd unat f"

lemma frames_from_mem [simp]: "frames_from f (m\<lparr>mem := M\<rparr>) = frames_from f m" "frames_from f (m\<lparr>next_free_paddr := p\<rparr>) = frames_from f m"
  by (simp_all add: frames_from_def)

lemma unat_frame: "frames_from f m \<Longrightarrow> i \<le> 7 \<Longrightarrow> unat (nth_frame f i) = unat f + 4096 * i"
  by (simp add: frames_from_def nth_frame_def unat_word_ariths unat_of_nat)

lemma frames_from_frame_ok: "frames_from f m \<Longrightarrow> i < 7 \<Longrightarrow> frame_ok (nth_frame f i)"
  by (simp add: frame_ok_def unat_frame) (simp add: frames_from_def)

lemma allocate_nth:
  assumes "frames_from f m" "next_free_paddr m = nth_frame f i" "i < 7"
  shows "allocate_frame m = (Some (nth_frame f i), m\<lparr>next_free_paddr := nth_frame f (Suc i)\<rparr>)"
proof -
  have "nth_frame f (Suc i) \<le> usable_end m"
    using assms unat_frame [OF assms(1), of "Suc i"] by (simp add: word_le_nat_alt frames_from_def)
  then show ?thesis using assms(2) by (simp add: allocate_frame_def nth_frame_Suc)
qed

text \<open>A table is created: its frame is cleared and the entry names it.\<close>

lemma table_created:
  assumes "frames_from f m" "next_free_paddr m = nth_frame f i" "i < 7" "mem m (table + 8 * idx) = 0"
  shows "get_or_create_table_user table idx h m = (Some (nth_frame f i),
    m\<lparr>next_free_paddr := nth_frame f (Suc i),
      mem := (\<lambda>a. if a - (nth_frame f i + h) < 4096 then 0 else mem m a)(table + 8 * idx := nth_frame f i OR 7)\<rparr>)"
  using assms(4) unfolding get_or_create_table_user_def allocate_nth [OF assms(1-3)]
  by (simp add: read_entry_def entry_addr_def zero_page_def write_entry_def cong: if_cong)

text \<open>A table is found: nothing changes.\<close>

lemma table_found:
  assumes "frame_ok p" "mem m (table + 8 * idx) = p OR 7"
  shows "get_or_create_table_user table idx h m = (Some p, m)"
proof -
  note e = entry_of_frame [OF assms(1)]
  have "(p OR 7) AND 1 \<noteq> 0" using e(3) by (metis and_one_eq one_neq_zero odd_iff_mod_2_eq_one bit_0)
  then show ?thesis using assms(2) e(1,6) unfolding get_or_create_table_user_def
    by (simp add: read_entry_def entry_addr_def write_entry_def fun_upd_idem)
qed

text \<open>The low half of a new address space is empty.\<close>

lemma less_2048: "x < 2048 \<Longrightarrow> x < (4096 :: u64)"
  by (simp add: word_less_nat_alt)

definition table_at :: "(u64 \<Rightarrow> u64) \<Rightarrow> u64 \<Rightarrow> u64 \<Rightarrow> (u64 \<times> u64) list \<Rightarrow> bool" where
  "table_at M base bound entries \<longleftrightarrow>
     (\<forall>x < bound. M (base + x) = (case map_of entries x of Some p \<Rightarrow> p OR 7 | None \<Rightarrow> 0))"

lemma table_atD: "table_at M base bound entries \<Longrightarrow> x < bound \<Longrightarrow>
  M (base + x) = (case map_of entries x of Some p \<Rightarrow> p OR 7 | None \<Rightarrow> 0)"
  by (simp add: table_at_def)

lemma copy_entries_low:
  assumes "\<And>i. i \<in> set is \<Longrightarrow> 256 \<le> i \<and> i < 512"
  shows "\<exists>M. fold (\<lambda>i m. write_entry (f + h) (of_nat i) (read_entry m c (of_nat i)) m) is m = m\<lparr>mem := M\<rparr> \<and>
     (\<forall>x < 2048. M (f + h + x) = mem m (f + h + x))"
  using assms
proof (induction "is" arbitrary: m)
  case Nil
  show ?case by (rule exI [of _ "mem m"]) simp
next
  case (Cons i "is")
  have i: "256 \<le> i" "i < 512" using Cons.prems by simp_all
  have "unat (8 * of_nat i :: u64) = 8 * i" using i(2) by (simp add: unat_word_ariths unat_of_nat)
  then have ne: "x \<noteq> 8 * of_nat i" if "x < 2048" for x :: u64 using that i(1) by (auto simp: word_less_nat_alt)
  let ?m = "write_entry (f + h) (of_nat i) (read_entry m c (of_nat i)) m"
  obtain M where "fold (\<lambda>i m. write_entry (f + h) (of_nat i) (read_entry m c (of_nat i)) m) is ?m = ?m\<lparr>mem := M\<rparr>"
    "\<forall>x < 2048. M (f + h + x) = mem ?m (f + h + x)" using Cons.IH [of ?m] Cons.prems by auto
  then show ?case using ne by (intro exI [of _ M]) (simp add: write_entry_def entry_addr_def)
qed

lemma new_space:
  assumes "frames_from f m" "next_free_paddr m = nth_frame f 0" "hhdm_response m = Some h"
  obtains M where "new_address_space m = (Some (nth_frame f 0), m\<lparr>next_free_paddr := nth_frame f 1, mem := M\<rparr>)" "table_at M (nth_frame f 0 + h) 2048 []"
proof -
  let ?m = "zero_page (nth_frame f 0 + h) (m\<lparr>next_free_paddr := nth_frame f 1\<rparr>)"
  have h: "hhdm_offset m = h" "hhdm_offset (m\<lparr>next_free_paddr := p\<rparr>) = h" for p by (simp_all add: hhdm_offset_def assms(3))
  let ?c = "current_pml4_paddr (m\<lparr>next_free_paddr := nth_frame f 1\<rparr>) + h"
  have up: "i \<in> set [256..<512] \<Longrightarrow> 256 \<le> i \<and> i < 512" for i
    unfolding set_upt atLeastLessThan_iff .
  obtain M where M: "fold (\<lambda>i m. write_entry (nth_frame f 0 + h) (of_nat i) (read_entry m ?c (of_nat i)) m) [256..<512] ?m = ?m\<lparr>mem := M\<rparr>"
    "\<And>x. x < 2048 \<Longrightarrow> M (nth_frame f 0 + h + x) = mem ?m (nth_frame f 0 + h + x)"
    using copy_entries_low [of "[256..<512]" "nth_frame f 0" h ?c ?m, OF up] by blast
  show ?thesis
  proof (rule that)
    show "table_at M (nth_frame f 0 + h) 2048 []" using M(2) by (simp add: table_at_def zero_page_def less_2048)
    have "(Some (nth_frame f 0), ?m\<lparr>mem := M\<rparr>) = (Some (nth_frame f 0), m\<lparr>next_free_paddr := nth_frame f 1, mem := M\<rparr>)" by (simp add: zero_page_def)
    then show "new_address_space m = (Some (nth_frame f 0), m\<lparr>next_free_paddr := nth_frame f 1, mem := M\<rparr>)"
      using M(1) allocate_nth [OF assms(1,2)] unfolding new_address_space_def Let_def h
      by (simp del: upt_rec_numeral)
  qed
qed

lemma code_idx: "pml4_idx USER_CODE_VADDR = 0" "pdpt_idx USER_CODE_VADDR = 0" "pd_idx USER_CODE_VADDR = 2" "pt_idx USER_CODE_VADDR = 0"
  by (simp_all add: USER_CODE_VADDR_def pml4_idx_def pdpt_idx_def pd_idx_def pt_idx_def)

lemma stack_idx: "pml4_idx USER_STACK_VADDR = 0" "pdpt_idx USER_STACK_VADDR = 0" "pd_idx USER_STACK_VADDR = 3" "pt_idx USER_STACK_VADDR = 511"
  by (simp_all add: USER_STACK_VADDR_def pml4_idx_def pdpt_idx_def pd_idx_def pt_idx_def)

definition code_mapped :: "u64 \<Rightarrow> u64 \<Rightarrow> (u64 \<Rightarrow> u64) \<Rightarrow> bool" where
  "code_mapped f h M \<longleftrightarrow> table_at M (nth_frame f 0 + h) 2048 [(0, nth_frame f 3)] \<and>
     table_at M (nth_frame f 3 + h) 4096 [(0, nth_frame f 4)] \<and> table_at M (nth_frame f 5 + h) 4096 [(0, nth_frame f 1)]"

lemma map_code:
  assumes "frames_from f m" "next_free_paddr m = nth_frame f 3" "hhdm_response m = Some h" "table_at (mem m) (nth_frame f 0 + h) 2048 []"
  obtains M where "map_page_user_into (nth_frame f 0) USER_CODE_VADDR (nth_frame f 1) True m = (Some (), m\<lparr>next_free_paddr := nth_frame f 6, mem := M\<rparr>)"
    "code_mapped f h M" "table_at M (nth_frame f 4 + h) 4096 [(16, nth_frame f 5)]"
proof -
  let ?z = "\<lambda>i M. \<lambda>a. if a - (nth_frame f i + h) < 4096 then 0 else M a :: u64"
  define M1 where "M1 = (?z 3 (mem m))(nth_frame f 0 + h := nth_frame f 3 OR 7)"
  define M2 where "M2 = (?z 4 M1)(nth_frame f 3 + h := nth_frame f 4 OR 7)"
  define M3 where "M3 = (?z 5 M2)(nth_frame f 4 + h + 16 := nth_frame f 5 OR 7)"
  define M4 where "M4 = M3(nth_frame f 5 + h := nth_frame f 1 OR 7)"
  note s = nth_frame_cell_eqs nth_frame_zeroeds
  note low = table_atD [OF assms(4)]
  have r: "frames_from f (m\<lparr>next_free_paddr := p, mem := M\<rparr>)" for p M using assms(1) by simp
  have 1: "get_or_create_table_user (nth_frame f 0 + h) 0 h m = (Some (nth_frame f 3), m\<lparr>next_free_paddr := nth_frame f 4, mem := M1\<rparr>)"
    using table_created [OF assms(1,2), of "nth_frame f 0 + h" 0 h] low [of 0] by (simp add: M1_def)
  have 2: "get_or_create_table_user (nth_frame f 3 + h) 0 h (m\<lparr>next_free_paddr := nth_frame f 4, mem := M1\<rparr>) =
      (Some (nth_frame f 4), m\<lparr>next_free_paddr := nth_frame f 5, mem := M2\<rparr>)"
    using table_created [OF r [where p = "nth_frame f 4" and M = M1], of 4 "nth_frame f 3 + h" 0 h] by (simp add: M1_def M2_def s cong: if_cong)
  have 3: "get_or_create_table_user (nth_frame f 4 + h) 2 h (m\<lparr>next_free_paddr := nth_frame f 5, mem := M2\<rparr>) =
      (Some (nth_frame f 5), m\<lparr>next_free_paddr := nth_frame f 6, mem := M3\<rparr>)"
    using table_created [OF r [where p = "nth_frame f 5" and M = M2], of 5 "nth_frame f 4 + h" 2 h] by (simp add: M2_def M3_def s cong: if_cong)
  show ?thesis
  proof (rule that)
    show "map_page_user_into (nth_frame f 0) USER_CODE_VADDR (nth_frame f 1) True m = (Some (), m\<lparr>next_free_paddr := nth_frame f 6, mem := M4\<rparr>)"
      using entry_of_frame(2) [OF frames_from_frame_ok [OF assms(1)], of 1]
      unfolding map_page_user_into_def assms(3) code_idx
      by (simp add: 1 2 3 write_entry_def entry_addr_def M4_def)
    show "code_mapped f h M4"
      using low by (simp add: code_mapped_def table_at_def M4_def M3_def M2_def M1_def s less_2048)
    show "table_at M4 (nth_frame f 4 + h) 4096 [(16, nth_frame f 5)]" by (simp add: table_at_def M4_def M3_def M2_def s)
  qed
qed

lemma map_stack:
  assumes "frames_from f m" "next_free_paddr m = nth_frame f 6" "hhdm_response m = Some h" "code_mapped f h (mem m)"
    and "table_at (mem m) (nth_frame f 4 + h) 4096 [(16, nth_frame f 5)]"
  obtains M where "map_page_user_into (nth_frame f 0) USER_STACK_VADDR (nth_frame f 2) True m = (Some (), m\<lparr>next_free_paddr := nth_frame f 7, mem := M\<rparr>)"
    "code_mapped f h M" "table_at M (nth_frame f 4 + h) 4096 [(16, nth_frame f 5), (24, nth_frame f 6)]"
    "table_at M (nth_frame f 6 + h) 4096 [(4088, nth_frame f 2)]"
proof -
  let ?z = "\<lambda>a. if a - (nth_frame f 6 + h) < 4096 then 0 else mem m a"
  define M1 where "M1 = ?z(nth_frame f 4 + h + 24 := nth_frame f 6 OR 7)"
  define M2 where "M2 = M1(nth_frame f 6 + h + 4088 := nth_frame f 2 OR 7)"
  note s = nth_frame_cell_eqs nth_frame_zeroeds
  note c = assms(4) [unfolded code_mapped_def]
  note c0 = table_atD [OF c [THEN conjunct1]] and c3 = table_atD [OF c [THEN conjunct2, THEN conjunct1]]
    and c5 = table_atD [OF c [THEN conjunct2, THEN conjunct2]] and c4 = table_atD [OF assms(5)]
  have 1: "get_or_create_table_user (nth_frame f 0 + h) 0 h m = (Some (nth_frame f 3), m)"
    by (rule table_found [OF frames_from_frame_ok [OF assms(1)]]) (use c0 [of 0] in simp_all)
  have 2: "get_or_create_table_user (nth_frame f 3 + h) 0 h m = (Some (nth_frame f 4), m)"
    by (rule table_found [OF frames_from_frame_ok [OF assms(1)]]) (use c3 [of 0] in simp_all)
  have 3: "get_or_create_table_user (nth_frame f 4 + h) 3 h m = (Some (nth_frame f 6), m\<lparr>next_free_paddr := nth_frame f 7, mem := M1\<rparr>)"
    using table_created [OF assms(1,2), of "nth_frame f 4 + h" 3 h] c4 [of 24] by (simp add: M1_def)
  show ?thesis
  proof (rule that)
    show "map_page_user_into (nth_frame f 0) USER_STACK_VADDR (nth_frame f 2) True m = (Some (), m\<lparr>next_free_paddr := nth_frame f 7, mem := M2\<rparr>)"
      using entry_of_frame(2) [OF frames_from_frame_ok [OF assms(1)], of 2]
      unfolding map_page_user_into_def assms(3) stack_idx
      by (simp add: 1 2 3 write_entry_def entry_addr_def M2_def)
    show "code_mapped f h M2"
      using c0 c3 c5 by (simp add: code_mapped_def table_at_def M2_def M1_def s less_2048)
    show "table_at M2 (nth_frame f 4 + h) 4096 [(16, nth_frame f 5), (24, nth_frame f 6)]"
      using c4 by (simp add: table_at_def M2_def M1_def s)
    show "table_at M2 (nth_frame f 6 + h) 4096 [(4088, nth_frame f 2)]" by (simp add: table_at_def M2_def M1_def s)
  qed
qed

subsection \<open>The walk through the tables\<close>

lemma unat_idx:
  "unat (pml4_idx v) = unat v div 2 ^ 39 mod 512" "unat (pdpt_idx v) = unat v div 2 ^ 30 mod 512"
  "unat (pd_idx v) = unat v div 2 ^ 21 mod 512" "unat (pt_idx v) = unat v div 2 ^ 12 mod 512"
proof -
  have "unat (drop_bit n v AND 0x1ff) = unat v div 2 ^ n mod 512" if "n < 64" for n
  proof -
    have "drop_bit n v AND 0x1ff = take_bit 9 (drop_bit n v)" by (simp add: take_bit_eq_mask mask_eq_exp_minus_1)
    also have "\<dots> = drop_bit n v mod 512" by (simp add: take_bit_eq_mod)
    finally show ?thesis by (simp only: unat_mod unat_drop_bit_eq) (simp add: drop_bit_eq_div)
  qed
  then show "unat (pml4_idx v) = unat v div 2 ^ 39 mod 512" "unat (pdpt_idx v) = unat v div 2 ^ 30 mod 512"
    "unat (pd_idx v) = unat v div 2 ^ 21 mod 512" "unat (pt_idx v) = unat v div 2 ^ 12 mod 512"
    by (simp_all only: pml4_idx_def pdpt_idx_def pd_idx_def pt_idx_def)
qed

lemma entry_offset: "unat (idx :: u64) < 512 \<Longrightarrow> unat (8 * idx) = 8 * unat idx"
  by (simp add: unat_word_ariths)

definition user_space :: "u64 \<Rightarrow> machine \<Rightarrow> bool" where
  "user_space f m \<longleftrightarrow> frames_from f m \<and> current_pml4_paddr m = nth_frame f 0 \<and> code_mapped f (hhdm_offset m) (mem m) \<and>
     table_at (mem m) (nth_frame f 4 + hhdm_offset m) 4096 [(16, nth_frame f 5), (24, nth_frame f 6)] \<and>
     table_at (mem m) (nth_frame f 6 + hhdm_offset m) 4096 [(4088, nth_frame f 2)]"

lemma read_table:
  assumes "table_at (mem m) t bound es" "unat idx < 512" "8 * unat idx < unat bound"
  shows "read_entry m t idx = (case map_of es (8 * idx) of Some p \<Rightarrow> p OR 7 | None \<Rightarrow> 0)"
  using table_atD [OF assms(1), of "8 * idx"] assms(2,3)
  by (simp add: read_entry_def entry_addr_def word_less_nat_alt entry_offset)

lemma entry_ok_7: "entry_ok w (p OR 7)"
proof -
  have "(p OR 7) AND 1 \<noteq> 0" "(p OR 7) AND 2 \<noteq> 0" "(p OR 7) AND 4 \<noteq> 0"
    by (simp_all add: bit.conj_disj_distrib2 or_eq_0_iff)
  then show ?thesis unfolding entry_ok_def by simp
qed

lemma entry_ok_0: "\<not> entry_ok w 0"
  by (simp add: entry_ok_def)

lemma idx_eq: "unat (idx :: u64) < 512 \<Longrightarrow> n < 512 \<Longrightarrow> 8 * idx = 8 * of_nat n \<longleftrightarrow> unat idx = n"
  by (simp add: word_unat_eq_iff entry_offset unat_of_nat unat_word_ariths)

lemma user_space_entries:
  assumes s: "user_space f m" and v: "unat v < 2 ^ 47"
  defines "h \<equiv> hhdm_offset m"
  shows "read_entry m (nth_frame f 0 + h) (pml4_idx v) = (if unat (pml4_idx v) = 0 then nth_frame f 3 OR 7 else 0)"
    and "read_entry m (nth_frame f 3 + h) (pdpt_idx v) = (if unat (pdpt_idx v) = 0 then nth_frame f 4 OR 7 else 0)"
    and "read_entry m (nth_frame f 4 + h) (pd_idx v) = (if unat (pd_idx v) = 2 then nth_frame f 5 OR 7
      else if unat (pd_idx v) = 3 then nth_frame f 6 OR 7 else 0)"
    and "read_entry m (nth_frame f 5 + h) (pt_idx v) = (if unat (pt_idx v) = 0 then nth_frame f 1 OR 7 else 0)"
    and "read_entry m (nth_frame f 6 + h) (pt_idx v) = (if unat (pt_idx v) = 511 then nth_frame f 2 OR 7 else 0)"
proof -
  have lt: "unat (pml4_idx v) < 512" "unat (pdpt_idx v) < 512" "unat (pd_idx v) < 512" "unat (pt_idx v) < 512"
    unfolding unat_idx by simp_all
  have "unat (pml4_idx v) < 256" unfolding unat_idx using v by (simp add: less_mult_imp_div_less)
  note lt = lt this
  note t = s [unfolded user_space_def code_mapped_def, folded h_def]
  note e = idx_eq [of _ 0, simplified] idx_eq [of _ 2, simplified] idx_eq [of _ 3, simplified] idx_eq [of _ 511, simplified]
  show "read_entry m (nth_frame f 0 + h) (pml4_idx v) = (if unat (pml4_idx v) = 0 then nth_frame f 3 OR 7 else 0)"
    using read_table [of m "nth_frame f 0 + h" 2048 "[(0, nth_frame f 3)]" "pml4_idx v"] t lt by (simp add: e)
  show "read_entry m (nth_frame f 3 + h) (pdpt_idx v) = (if unat (pdpt_idx v) = 0 then nth_frame f 4 OR 7 else 0)"
    using read_table [of m "nth_frame f 3 + h" 4096 "[(0, nth_frame f 4)]" "pdpt_idx v"] t lt by (simp add: e)
  show "read_entry m (nth_frame f 4 + h) (pd_idx v) = (if unat (pd_idx v) = 2 then nth_frame f 5 OR 7
      else if unat (pd_idx v) = 3 then nth_frame f 6 OR 7 else 0)"
    using read_table [of m "nth_frame f 4 + h" 4096 "[(16, nth_frame f 5), (24, nth_frame f 6)]" "pd_idx v"] t lt by (simp add: e)
  show "read_entry m (nth_frame f 5 + h) (pt_idx v) = (if unat (pt_idx v) = 0 then nth_frame f 1 OR 7 else 0)"
    using read_table [of m "nth_frame f 5 + h" 4096 "[(0, nth_frame f 1)]" "pt_idx v"] t lt by (simp add: e)
  show "read_entry m (nth_frame f 6 + h) (pt_idx v) = (if unat (pt_idx v) = 511 then nth_frame f 2 OR 7 else 0)"
    using read_table [of m "nth_frame f 6 + h" 4096 "[(4088, nth_frame f 2)]" "pt_idx v"] t lt by (simp add: e)
qed

lemma page_number:
  assumes "(n :: nat) < 2 ^ 47"
  shows "n div 4096 = 0x400 \<longleftrightarrow> n div 2 ^ 39 mod 512 = 0 \<and> n div 2 ^ 30 mod 512 = 0 \<and> n div 2 ^ 21 mod 512 = 2 \<and> n div 2 ^ 12 mod 512 = 0"
    and "n div 4096 = 0x7ff \<longleftrightarrow> n div 2 ^ 39 mod 512 = 0 \<and> n div 2 ^ 30 mod 512 = 0 \<and> n div 2 ^ 21 mod 512 = 3 \<and> n div 2 ^ 12 mod 512 = 511"
proof -
  define q where "q = n div 4096"
  have d: "n div 2 ^ 39 = q div 512 div 512 div 512" "n div 2 ^ 30 = q div 512 div 512" "n div 2 ^ 21 = q div 512" "n div 2 ^ 12 = q"
    by (simp_all add: q_def div_mult2_eq [symmetric])
  have "q < 2 ^ 35" using assms by (simp add: q_def less_mult_imp_div_less)
  then have top: "q div 512 div 512 div 512 mod 512 = q div 512 div 512 div 512" by (simp add: less_mult_imp_div_less)
  have sum: "q = q mod 512 + 512 * (q div 512 mod 512 + 512 * (q div 512 div 512 mod 512 + 512 * (q div 512 div 512 div 512)))"
    by (simp only: mod_mult_div_eq)
  have "q = 0x400" if "q div 512 div 512 div 512 = 0" "q div 512 div 512 mod 512 = 0" "q div 512 mod 512 = 2" "q mod 512 = 0"
    using sum unfolding that by simp
  moreover have "q = 0x7ff" if "q div 512 div 512 div 512 = 0" "q div 512 div 512 mod 512 = 0" "q div 512 mod 512 = 3" "q mod 512 = 511"
    using sum unfolding that by simp
  ultimately show "n div 4096 = 0x400 \<longleftrightarrow> n div 2 ^ 39 mod 512 = 0 \<and> n div 2 ^ 30 mod 512 = 0 \<and> n div 2 ^ 21 mod 512 = 2 \<and> n div 2 ^ 12 mod 512 = 0"
    "n div 4096 = 0x7ff \<longleftrightarrow> n div 2 ^ 39 mod 512 = 0 \<and> n div 2 ^ 30 mod 512 = 0 \<and> n div 2 ^ 21 mod 512 = 3 \<and> n div 2 ^ 12 mod 512 = 511"
    unfolding d q_def [symmetric] top by force+
qed

lemma user_space_frames:
  assumes "user_space f m" "i < 7"
  shows "(nth_frame f i OR 7) AND PADDR_MASK = nth_frame f i"
  using assms by (auto intro!: entry_of_frame(1) frames_from_frame_ok simp: user_space_def)

lemma user_space_page_ok:
  assumes s: "user_space f m" and v: "unat v < 2 ^ 47"
  shows "page_ok m w v \<longleftrightarrow> unat v div 4096 = 0x400 \<or> unat v div 4096 = 0x7ff"
proof -
  have c: "current_pml4_paddr m = nth_frame f 0" using s by (simp add: user_space_def)
  show ?thesis unfolding page_ok_def Let_def c page_number [OF v] unat_idx [symmetric]
    by (simp add: user_space_entries [OF s v] user_space_frames [OF s] entry_ok_7 entry_ok_0)
qed

lemma user_space_paddr:
  assumes s: "user_space f m" and x: "x < 4096"
  shows "user_paddr m (USER_CODE_VADDR + of_nat x) = nth_frame f 1 + of_nat x"
proof -
  let ?v = "USER_CODE_VADDR + of_nat x :: u64"
  have c: "current_pml4_paddr m = nth_frame f 0" using s by (simp add: user_space_def)
  have u: "unat ?v = 0x400000 + x" using x by (simp add: USER_CODE_VADDR_def unat_word_ariths unat_of_nat)
  then have v: "unat ?v < 2 ^ 47" and d: "unat ?v div 4096 = 0x400" using x by simp_all
  have "?v AND 0xfff = of_nat x"
  proof -
    have "?v AND 0xfff = take_bit 12 ?v" by (simp add: take_bit_eq_mask mask_eq_exp_minus_1)
    also have "\<dots> = ?v mod 4096" by (simp add: take_bit_eq_mod)
    finally have "unat (?v AND 0xfff) = x" using x by (simp add: unat_mod u mod_add_left_eq [of 4194304 4096 x, symmetric])
    then show ?thesis by (metis of_nat_unat_u64)
  qed
  moreover have "unat (pml4_idx ?v) = 0" "unat (pdpt_idx ?v) = 0" "unat (pd_idx ?v) = 2" "unat (pt_idx ?v) = 0"
    using d unfolding page_number [OF v] unat_idx by simp_all
  ultimately show ?thesis unfolding user_paddr_def Let_def c
    by (simp add: user_space_entries [OF s v] user_space_frames [OF s])
qed

lemma two_pages:
  fixes l e len :: nat
  assumes "0 < len"
  shows "(\<forall>n. l \<le> n \<and> n < l + len \<longrightarrow> n div 4096 = 0x400 \<or> n div 4096 = 0x7ff) \<longleftrightarrow>
    0x400000 \<le> l \<and> l + len \<le> 0x401000 \<or> 0x7ff000 \<le> l \<and> l + len \<le> 0x800000"
proof -
  have a: "n div 4096 = 0x400 \<longleftrightarrow> 0x400000 \<le> n \<and> n < 0x401000" "n div 4096 = 0x7ff \<longleftrightarrow> 0x7ff000 \<le> n \<and> n < 0x800000" for n :: nat
    using div_nat_eqI [where m = n and n = 4096 and q = 1024] div_nat_eqI [where m = n and n = 4096 and q = 2047]
      div_times_less_eq_dividend [of n 4096] dividend_less_div_times [of 4096 n] by auto
  show ?thesis
  proof
    assume *: "\<forall>n. l \<le> n \<and> n < l + len \<longrightarrow> n div 4096 = 0x400 \<or> n div 4096 = 0x7ff"
    have gap: "\<not> (l \<le> 0x401000 \<and> 0x401000 < l + len)" using * [rule_format, of 4198400] by auto
    have "l div 4096 = 0x400 \<or> l div 4096 = 0x7ff" "(l + len - 1) div 4096 = 0x400 \<or> (l + len - 1) div 4096 = 0x7ff"
      using assms * [rule_format, of l] * [rule_format, of "l + len - 1"] by auto
    then show "0x400000 \<le> l \<and> l + len \<le> 0x401000 \<or> 0x7ff000 \<le> l \<and> l + len \<le> 0x800000"
      unfolding a using assms gap by linarith
  next
    assume "0x400000 \<le> l \<and> l + len \<le> 0x401000 \<or> 0x7ff000 \<le> l \<and> l + len \<le> 0x800000"
    then show "\<forall>n. l \<le> n \<and> n < l + len \<longrightarrow> n div 4096 = 0x400 \<or> n div 4096 = 0x7ff" unfolding a by auto
  qed
qed

lemma user_space_validate:
  assumes "user_space f m" "len \<noteq> 0"
  shows "validate_user_range m p len w = Some (0x400000 \<le> unat p \<and> unat p + unat len \<le> 0x401000 \<or>
    0x7ff000 \<le> unat p \<and> unat p + unat len \<le> 0x800000)"
proof (cases "unat p + unat len \<le> 2 ^ 47")
  case True
  let ?l = "unat p" and ?e = "unat p + unat len"
  have len: "0 < unat len" using assms(2) by (simp add: unat_gt_0)
  have "(\<forall>a. ?l \<le> unat a \<and> unat a < ?e \<longrightarrow> page_ok m w a) \<longleftrightarrow>
    (\<forall>n. ?l \<le> n \<and> n < ?e \<longrightarrow> n div 4096 = 0x400 \<or> n div 4096 = 0x7ff)" (is "?A \<longleftrightarrow> ?N")
  proof
    assume a: ?A
    show ?N
    proof (intro allI impI)
      fix n assume n: "?l \<le> n \<and> n < ?e"
      then have u: "unat (of_nat n :: u64) = n" using True by (intro unat_of_nat_u64) simp
      then show "n div 4096 = 0x400 \<or> n div 4096 = 0x7ff"
        using a n True user_space_page_ok [OF assms(1), of "of_nat n" w] by simp
    qed
  next
    assume n: ?N
    show ?A using n True user_space_page_ok [OF assms(1)] by fastforce
  qed
  also have "\<dots> \<longleftrightarrow> 0x400000 \<le> ?l \<and> ?e \<le> 0x401000 \<or> 0x7ff000 \<le> ?l \<and> ?e \<le> 0x800000"
    using len by (rule two_pages)
  finally show ?thesis using validate_user_range_range [OF assms(2) True] by simp
next
  case False
  then show ?thesis using validate_user_range_outside [OF assms(2)] by simp
qed

subsection \<open>A spawned program\<close>

text \<open>
  What the loader needs: seven free frames, a page-aligned direct map, and the thirteen words of the first frame on the
  kernel stack outside of those frames.
\<close>

definition stack_apart :: "u64 \<Rightarrow> u64 \<Rightarrow> bool" where
  "stack_apart base tos \<longleftrightarrow> (\<forall>j \<in> {1..13}. \<not> tos - 8 * of_nat j - base < 7 * 4096)"

definition loader_ready :: "task_id \<Rightarrow> kernel \<Rightarrow> bool" where
  "loader_ready i k \<longleftrightarrow> has_frames 7 (mach k) \<and> 4096 dvd unat (hhdm_offset (mach k)) \<and>
     stack_apart (next_free_paddr (mach k) + hhdm_offset (mach k)) (stack_top_of (k_layout k) i)"

lemma pushes_machine:
  "\<exists>M. snd (fold stack_push vs (sp, m)) = m\<lparr>mem := M\<rparr> \<and>
     (\<forall>c. (\<forall>j \<in> {1..length vs}. c \<noteq> sp - 8 * of_nat j) \<longrightarrow> M c = mem m c)"
proof (induction vs arbitrary: sp m)
  case Nil
  show ?case by (rule exI [of _ "mem m"]) simp
next
  case (Cons v vs)
  let ?m = "m\<lparr>mem := (mem m)(sp - 8 := v)\<rparr>"
  obtain M where M: "snd (fold stack_push vs (sp - 8, ?m)) = ?m\<lparr>mem := M\<rparr>"
    "\<And>c. (\<forall>j \<in> {1..length vs}. c \<noteq> sp - 8 - 8 * of_nat j) \<Longrightarrow> M c = mem ?m c"
    using Cons.IH [of "sp - 8" ?m] by blast
  show ?case
  proof (intro exI [of _ M] conjI allI impI)
    show "snd (fold stack_push (v # vs) (sp, m)) = m\<lparr>mem := M\<rparr>" using M(1) by (simp add: stack_push_def)
    fix c assume c: "\<forall>j \<in> {1..length (v # vs)}. c \<noteq> sp - 8 * of_nat j"
    have "c \<noteq> sp - 8 - 8 * of_nat j" if "j \<in> {1..length vs}" for j
      using c [rule_format, of "Suc j"] that by (simp add: algebra_simps)
    moreover have "c \<noteq> sp - 8" using c [rule_format, of 1] by simp
    ultimately show "M c = mem m c" using M(2) [of c] by simp
  qed
qed

lemma Task_new_user_machine:
  assumes "Task_new_user i e st p caps k = Ret (t, k')"
  shows "t_cr3 t = p" and "\<exists>M. mach k' = (mach k)\<lparr>mem := M\<rparr> \<and>
     (\<forall>c. (\<forall>j \<in> {1..13}. c \<noteq> stack_top_of (k_layout k) i - 8 * of_nat j) \<longrightarrow> M c = mem (mach k) c)"
proof -
  let ?vs = "[ucast USER_DATA, st, 0x202, ucast USER_CODE, e, iret_to_user (k_layout k), 0x202] @ replicate 6 0"
  let ?s = "fold stack_push ?vs (stack_top_of (k_layout k) i, mach k)"
  obtain sp m where f: "?s = (sp, m)" by (cases ?s)
  have m: "mach k' = snd ?s" and "t_cr3 t = p"
    using assms f unfolding Task_new_user_def Let_def by (simp_all only: kernel.simps split: if_splits) auto
  then show "t_cr3 t = p" by simp
  show "\<exists>M. mach k' = (mach k)\<lparr>mem := M\<rparr> \<and>
     (\<forall>c. (\<forall>j \<in> {1..13}. c \<noteq> stack_top_of (k_layout k) i - 8 * of_nat j) \<longrightarrow> M c = mem (mach k) c)"
    using pushes_machine [of ?vs "stack_top_of (k_layout k) i" "mach k"] unfolding m by (simp only: length_append length_replicate list.size) simp
qed

lemma Task_new_user_runs:
  assumes "i < MAX_TASKS"
  obtains t k' N where "Task_new_user i e st p caps k = Ret (t, k')" "t_cr3 t = p" "mach k' = (mach k)\<lparr>mem := N\<rparr>"
    "\<And>c. (\<forall>j \<in> {1..13}. c \<noteq> stack_top_of (k_layout k) i - 8 * of_nat j) \<Longrightarrow> N c = mem (mach k) c"
proof (cases "Task_new_user i e st p caps k")
  case (Ret x)
  obtain t k' where x: "x = (t, k')" by (cases x)
  show ?thesis using that [OF Ret [unfolded x]] Task_new_user_machine [OF Ret [unfolded x]] by blast
qed (use assms in simp)

lemma apart_cell:
  assumes "stack_apart (nth_frame f 0 + h) tos" "i < 7" "x < 4096" "j \<in> {1..13}"
  shows "nth_frame f i + h + x \<noteq> tos - 8 * of_nat j"
proof
  assume e: "nth_frame f i + h + x = tos - 8 * of_nat j"
  have "tos - 8 * of_nat j - (nth_frame f 0 + h) = of_nat (4096 * i) + x" unfolding e [symmetric] by (simp add: nth_frame_def)
  moreover have "unat (of_nat (4096 * i) + x) = 4096 * i + unat x"
    using assms(2,3) by (simp add: unat_word_ariths unat_of_nat word_less_nat_alt)
  then have "of_nat (4096 * i) + x < 7 * 4096" using assms(2,3) by (simp add: word_less_nat_alt)
  ultimately show False using assms(1) [unfolded stack_apart_def, rule_format, OF assms(4)] by simp
qed

lemma switch_current: "frame_ok p \<Longrightarrow> current_pml4_paddr (switch_address_space p m) = p"
  by (simp add: switch_address_space_def current_pml4_paddr_def entry_of_frame(2))

lemma switch_fields:
  "mem (switch_address_space p m) = mem m" "hhdm_offset (switch_address_space p m) = hhdm_offset m"
  "frames_from f (switch_address_space p m) = frames_from f m"
  by (simp_all add: switch_address_space_def hhdm_offset_def frames_from_def)

text \<open>The steps of the loader, with the machine after each.\<close>

lemma spawn_user_tables:
  assumes k: "loader_ready i k" and i: "i < MAX_TASKS"
  defines "f \<equiv> next_free_paddr (mach k)" and "h \<equiv> hhdm_offset (mach k)"
  obtains M where "spawn_user i blob caps k = Task_new_user i USER_CODE_VADDR USER_STACK_TOP (nth_frame f 0) caps
      (k\<lparr>mach := copy_blob (nth_frame f 1 + h) blob ((mach k)\<lparr>next_free_paddr := nth_frame f 7, mem := M\<rparr>)\<rparr>)"
    "code_mapped f h M" "table_at M (nth_frame f 4 + h) 4096 [(16, nth_frame f 5), (24, nth_frame f 6)]"
    "table_at M (nth_frame f 6 + h) 4096 [(4088, nth_frame f 2)]" "frames_from f (mach k)"
proof -
  let ?m = "mach k"
  have h: "hhdm_response ?m = Some h" and r: "frames_from f ?m"
    using k by (auto simp: loader_ready_def has_frames_def frames_inv_def frames_from_def f_def h_def hhdm_offset_def)
  have n: "next_free_paddr ?m = nth_frame f 0" by (simp add: f_def nth_frame_def)
  obtain M0 where 0: "new_address_space ?m = (Some (nth_frame f 0), ?m\<lparr>next_free_paddr := nth_frame f 1, mem := M0\<rparr>)"
    "table_at M0 (nth_frame f 0 + h) 2048 []" by (rule new_space [OF r n h])
  let ?n = "\<lambda>j M. ?m\<lparr>next_free_paddr := nth_frame f j, mem := M\<rparr>"
  have rr: "frames_from f (?n j M)" for j M using r by simp
  have 1: "allocate_frame (?n 1 M0) = (Some (nth_frame f 1), ?n 2 M0)" "allocate_frame (?n 2 M0) = (Some (nth_frame f 2), ?n 3 M0)"
    using allocate_nth [OF rr [of M0 1], of 1] allocate_nth [OF rr [of M0 2], of 2] by (simp_all add: numeral_2_eq_2 numeral_3_eq_3)
  obtain M1 where 2: "map_page_user_into (nth_frame f 0) USER_CODE_VADDR (nth_frame f 1) True (?n 3 M0) = (Some (), ?n 6 M1)"
    "code_mapped f h M1" "table_at M1 (nth_frame f 4 + h) 4096 [(16, nth_frame f 5)]"
    by (rule map_code [OF rr [of M0 3], of h]) (use 0(2) h in auto)
  obtain M2 where 3: "map_page_user_into (nth_frame f 0) USER_STACK_VADDR (nth_frame f 2) True (?n 6 M1) = (Some (), ?n 7 M2)"
    "code_mapped f h M2" "table_at M2 (nth_frame f 4 + h) 4096 [(16, nth_frame f 5), (24, nth_frame f 6)]"
    "table_at M2 (nth_frame f 6 + h) 4096 [(4088, nth_frame f 2)]"
    by (rule map_stack [OF rr [of M1 6], of h]) (use 2(2,3) h in auto)
  have "hhdm_offset (?n 7 M2) = h" by (simp add: hhdm_offset_def h)
  then have "spawn_user i blob caps k = Task_new_user i USER_CODE_VADDR USER_STACK_TOP (nth_frame f 0) caps
      (k\<lparr>mach := copy_blob (nth_frame f 1 + h) blob (?n 7 M2)\<rparr>)"
    unfolding spawn_user_def expect_def by (simp add: 0(1) 1 2(1) 3(1) del: One_nat_def)
  then show ?thesis using that 3(2-4) r by blast
qed

lemma user_space_after:
  assumes r: "frames_from f m" "4096 dvd unat h" "hhdm_offset m = h" and blob: "length blob \<le> 4096"
    and M: "code_mapped f h M" "table_at M (nth_frame f 4 + h) 4096 [(16, nth_frame f 5), (24, nth_frame f 6)]"
      "table_at M (nth_frame f 6 + h) 4096 [(4088, nth_frame f 2)]"
    and N: "\<And>c. (\<forall>j \<in> {1..13}. c \<noteq> tos - 8 * of_nat j) \<Longrightarrow> N c = mem (copy_blob (nth_frame f 1 + h) blob (m\<lparr>mem := M\<rparr>)) c"
    and apart: "stack_apart (nth_frame f 0 + h) tos"
  shows "user_space f (switch_address_space (nth_frame f 0) (m\<lparr>mem := N\<rparr>))"
    and "i < length blob \<Longrightarrow> byte_at (m\<lparr>mem := N\<rparr>) (nth_frame f 1 + h + of_nat i) = blob ! i"
proof -
  have f: "4096 dvd unat f" using r(1) by (simp add: frames_from_def)
  have cell: "N (nth_frame f j + h + x) = M (nth_frame f j + h + x)" if "j < 7" "j \<noteq> 1" "x < 4096" for j x
    using that N [of "nth_frame f j + h + x"] apart_cell [OF apart that(1,3)]
      copy_blob_frame [OF f r(2) blob, of 1 j x "m\<lparr>mem := M\<rparr>"] by simp
  have "table_at N (nth_frame f j + h) b es" if "table_at M (nth_frame f j + h) b es" "j < 7" "j \<noteq> 1" "b \<le> 4096" for j b es
    using that cell [OF that(2,3)] by (auto simp: table_at_def)
  then have "code_mapped f h N" "table_at N (nth_frame f 4 + h) 4096 [(16, nth_frame f 5), (24, nth_frame f 6)]"
    "table_at N (nth_frame f 6 + h) 4096 [(4088, nth_frame f 2)]" using M by (auto simp: code_mapped_def)
  moreover have "hhdm_offset (m\<lparr>mem := N\<rparr>) = h" using r(3) by (simp add: hhdm_offset_def)
  ultimately show "user_space f (switch_address_space (nth_frame f 0) (m\<lparr>mem := N\<rparr>))"
    unfolding user_space_def switch_fields using r(1) switch_current [OF frames_from_frame_ok [OF r(1)], of 0] by simp
  assume i: "i < length blob"
  then have x: "of_nat i AND NOT 7 < (4096 :: u64)"
  proof -
    have "of_nat i < (4096 :: u64)" using i blob by (simp add: word_less_nat_alt unat_of_nat)
    then show ?thesis using word_and_le2 [of "of_nat i" "NOT 7"] by (rule le_less_trans [rotated])
  qed
  have "N ((nth_frame f 1 + h + of_nat i) AND NOT 7) = mem (copy_blob (nth_frame f 1 + h) blob (m\<lparr>mem := M\<rparr>)) ((nth_frame f 1 + h + of_nat i) AND NOT 7)"
    unfolding low_cell [OF frame_aligned [OF f r(2)]] by (rule N) (use apart_cell [OF apart _ x] in auto)
  then have "byte_at (m\<lparr>mem := N\<rparr>) (nth_frame f 1 + h + of_nat i) = byte_at (copy_blob (nth_frame f 1 + h) blob (m\<lparr>mem := M\<rparr>)) (nth_frame f 1 + h + of_nat i)"
    unfolding byte_at_def by simp
  then show "byte_at (m\<lparr>mem := N\<rparr>) (nth_frame f 1 + h + of_nat i) = blob ! i"
    using copy_blob_byte [OF blob i] by simp
qed

lemma byte_at_switch: "byte_at (switch_address_space p m) a = byte_at m a"
  by (simp add: byte_at_def switch_fields)

lemma spawn_user_space:
  assumes "loader_ready i k" "i < MAX_TASKS" "length blob \<le> 4096"
  obtains t k' f where "spawn_user i blob caps k = Ret (t, k')" "user_space f (switch_address_space (t_cr3 t) (mach k'))"
    "\<And>n. n < length blob \<Longrightarrow> byte_at (mach k') (nth_frame f 1 + hhdm_offset (mach k') + of_nat n) = blob ! n"
proof -
  let ?f = "next_free_paddr (mach k)" and ?h = "hhdm_offset (mach k)"
  let ?m = "(mach k)\<lparr>next_free_paddr := nth_frame ?f 7\<rparr>" and ?tos = "stack_top_of (k_layout k) i"
  obtain M where sp: "spawn_user i blob caps k = Task_new_user i USER_CODE_VADDR USER_STACK_TOP (nth_frame ?f 0) caps
      (k\<lparr>mach := copy_blob (nth_frame ?f 1 + ?h) blob (?m\<lparr>mem := M\<rparr>)\<rparr>)"
    and M: "code_mapped ?f ?h M" "table_at M (nth_frame ?f 4 + ?h) 4096 [(16, nth_frame ?f 5), (24, nth_frame ?f 6)]"
      "table_at M (nth_frame ?f 6 + ?h) 4096 [(4088, nth_frame ?f 2)]" and r: "frames_from ?f (mach k)"
    by (rule spawn_user_tables [OF assms(1,2), of blob caps])
  let ?c = "copy_blob (nth_frame ?f 1 + ?h) blob (?m\<lparr>mem := M\<rparr>)"
  obtain F where F: "?c = ?m\<lparr>mem := F\<rparr>" using copy_blob_machine [of "nth_frame ?f 1 + ?h" blob "?m\<lparr>mem := M\<rparr>"] by auto
  obtain t k' N where t: "spawn_user i blob caps k = Ret (t, k')" "t_cr3 t = nth_frame ?f 0" "mach k' = ?c\<lparr>mem := N\<rparr>"
    and N: "\<And>c. (\<forall>j \<in> {1..13}. c \<noteq> ?tos - 8 * of_nat j) \<Longrightarrow> N c = mem ?c c"
    by (rule Task_new_user_runs [OF assms(2), of USER_CODE_VADDR USER_STACK_TOP "nth_frame ?f 0" caps "k\<lparr>mach := ?c\<rparr>"])
      (simp add: sp)
  have k': "mach k' = ?m\<lparr>mem := N\<rparr>" unfolding t(3) F by simp
  have h: "hhdm_offset ?m = ?h" "hhdm_offset (?m\<lparr>mem := N\<rparr>) = ?h" by (simp_all add: hhdm_offset_def)
  have ap: "stack_apart (nth_frame ?f 0 + ?h) ?tos" "4096 dvd unat ?h" and rm: "frames_from ?f ?m"
    using assms(1) r by (simp_all add: loader_ready_def nth_frame_def)
  note sa = user_space_after [OF rm ap(2) h(1) assms(3) M N ap(1)]
  show ?thesis by (rule that [OF t(1), of ?f]) (unfold t(2) k' h(2); use sa in blast)+
qed

text \<open>
  C39. A spawned program runs in an address space of its own.  With seven free frames, the loader returns a task whose address
  space holds the bytes of the program at the entry address, and in which the kernel accepts exactly the ranges inside the
  code page and inside the stack page.
\<close>

theorem spawned_program_isolated:
  assumes "loader_ready i k" "i < MAX_TASKS" "length blob \<le> 4096"
  shows "\<exists>t k'. spawn_user i blob caps k = Ret (t, k') \<and>
    (let m = switch_address_space (t_cr3 t) (mach k')
     in load_bytes m USER_CODE_VADDR (length blob) = blob \<and>
        (\<forall>p len w. validate_user_range m p len w = Some (len = 0 \<or>
           0x400000 \<le> unat p \<and> unat p + unat len \<le> 0x401000 \<or> 0x7ff000 \<le> unat p \<and> unat p + unat len \<le> 0x800000)))"
proof -
  obtain t k' f where t: "spawn_user i blob caps k = Ret (t, k')" and s: "user_space f (switch_address_space (t_cr3 t) (mach k'))"
    and b: "\<And>n. n < length blob \<Longrightarrow> byte_at (mach k') (nth_frame f 1 + hhdm_offset (mach k') + of_nat n) = blob ! n"
    by (rule spawn_user_space [OF assms, of caps]) (rule that)
  let ?m = "switch_address_space (t_cr3 t) (mach k')"
  have "load_byte ?m (USER_CODE_VADDR + of_nat n) = blob ! n" if "n < length blob" for n
    unfolding load_byte_at user_space_paddr [OF s less_le_trans [OF that assms(3)]] byte_at_switch switch_fields
    using b [OF that] by (simp add: ac_simps)
  then have "load_bytes ?m USER_CODE_VADDR (length blob) = blob"
    unfolding load_bytes_def by (intro nth_equalityI) simp_all
  moreover have "validate_user_range ?m p len w = Some (len = 0 \<or>
     0x400000 \<le> unat p \<and> unat p + unat len \<le> 0x401000 \<or> 0x7ff000 \<le> unat p \<and> unat p + unat len \<le> 0x800000)" for p len w
    using user_space_validate [OF s, of len p w] by (cases "len = 0") (simp_all add: validate_user_range_def)
  ultimately show ?thesis using t by (simp only: Let_def) blast
qed

lemma sample_loader_ready: "loader_ready 3 (initial_kernel sample_layout sample_machine)"
proof -
  have m: "mach (initial_kernel sample_layout sample_machine) = sample_machine" "k_layout (initial_kernel sample_layout sample_machine) = sample_layout"
    by (simp_all add: initial_kernel_def)
  have j: "{1..13} = {1, 2, 3, 4, 5, 6, 7, 8, 9, 10, 11, 12, 13 :: nat}"
    by (simp add: set_eq_iff) presburger
  show ?thesis unfolding loader_ready_def m stack_apart_def j
    by (simp add: has_frames_def frames_inv_def sample_machine_def sample_layout_def stack_top_of_def hhdm_offset_def STACK_SIZE_def)
qed

theorem spawned_program_isolated_witness:
  "loader_ready 3 (initial_kernel sample_layout sample_machine) \<and>
   (\<exists>t k'. spawn_user 3 [0x90, 0xeb] CapTable_new (initial_kernel sample_layout sample_machine) = Ret (t, k') \<and>
    (let m = switch_address_space (t_cr3 t) (mach k')
     in load_bytes m USER_CODE_VADDR 2 = [0x90, 0xeb] \<and> validate_user_range m 0x400ff8 8 True = Some True \<and>
        validate_user_range m 0x400ff8 9 False = Some False))"
proof -
  have *: "length [0x90, 0xeb :: u8] \<le> 4096" "3 < MAX_TASKS" by (simp_all add: MAX_TASKS_def)
  have two: "length [0x90, 0xeb :: u8] = 2" by simp
  obtain t k' where "spawn_user 3 [0x90, 0xeb] CapTable_new (initial_kernel sample_layout sample_machine) = Ret (t, k')"
    and m: "let m = switch_address_space (t_cr3 t) (mach k')
     in load_bytes m USER_CODE_VADDR (length [0x90, 0xeb :: u8]) = [0x90, 0xeb] \<and>
        (\<forall>p len w. validate_user_range m p len w = Some (len = 0 \<or>
           0x400000 \<le> unat p \<and> unat p + unat len \<le> 0x401000 \<or> 0x7ff000 \<le> unat p \<and> unat p + unat len \<le> 0x800000))"
    using spawned_program_isolated [OF sample_loader_ready *(2,1), of CapTable_new] by blast
  then show ?thesis using sample_loader_ready unfolding two by (simp add: Let_def)
qed

end
