(* ===== verification/Shell_Commands.thy ===== *)
theory Shell_Commands
  imports Shell_Client Demos Dist
begin

text \<open>
  The commands of the shell that act on capabilities, tasks and its own state, \<open>dispatch\<close> of \<open>shell/mod.rs\<close>.  A command
  returns what it reports; the wording is left out.
\<close>

subsection \<open>Capability commands\<close>

datatype cap_report =
    CapBadNumber | CapNone | CapEmpty | CapLacksGrant | CapGranted u64 u64 | CapRevoked u64 | CapSealed u64 | CapCheckFailed

text \<open>\<open>if let Some(ref mut cap) = slots[new_slot] { cap.origin = Some(donor.id) }\<close>\<close>

definition stamp_origin :: "nat \<Rightarrow> u64 \<Rightarrow> cap_table \<Rightarrow> cap_table" where
  "stamp_origin s donor caps =
     caps\<lparr>slots := (slots caps)[s := map_option (\<lambda>c. c\<lparr>cap_origin := Some donor\<rparr>) (slots caps ! s)]\<rparr>"

definition cmd_cap_grant :: "u64 \<Rightarrow> bytes \<Rightarrow> kernel \<Rightarrow> (cap_report \<times> kernel) run" where
  "cmd_cap_grant park tok2 k =
     (case parse_usize tok2 of
        None \<Rightarrow> Ret (CapBadNumber, k)
      | Some i \<Rightarrow>
          if i \<ge> MAX_CAPS then Ret (CapNone, k)
          else run_bind (get_shell_caps k) (\<lambda>caps.
            case caps ! i of
              None \<Rightarrow> Ret (CapNone, k)
            | Some donor \<Rightarrow>
                (case attenuate donor (RightsMask True True False) of
                   None \<Rightarrow> Ret (CapLacksGrant, k)
                 | Some derived \<Rightarrow>
                     run_bind (Task_new 66 park CapTable_new k) (\<lambda>(new_task, k).
                       case CapTable_insert derived (t_caps new_task) k of
                         (None, _, _) \<Rightarrow> Panic
                       | (Some new_slot, caps, k) \<Rightarrow>
                           let caps = stamp_origin new_slot (cap_id donor) caps;
                               new_id = (case slots caps ! new_slot of Some c \<Rightarrow> cap_id c | None \<Rightarrow> 0)
                           in Ret (CapGranted new_id (cap_id donor), set_slot 66 (Some (new_task\<lparr>t_caps := caps\<rparr>)) k)))))"

definition cmd_cap_revoke :: "bytes \<Rightarrow> kernel \<Rightarrow> (cap_report \<times> kernel) run" where
  "cmd_cap_revoke tok2 k =
     (case parse_usize tok2 of
        None \<Rightarrow> Ret (CapBadNumber, k)
      | Some slot_idx \<Rightarrow>
          if slot_idx \<ge> MAX_CAPS then Ret (CapEmpty, k)
          else (case get_task k 64 of
                  None \<Rightarrow> Panic
                | Some task \<Rightarrow>
                    (case CapTable_kernel_revoke slot_idx (t_caps task) k of
                       (revoked, caps, k) \<Rightarrow>
                         let k = update_task 64 (\<lambda>t. t\<lparr>t_caps := caps\<rparr>) k
                         in case revoked of
                              None \<Rightarrow> Ret (CapEmpty, k)
                            | Some cap \<Rightarrow>
                                run_bind (get_shell_caps k) (\<lambda>now.
                                  let (write_denied, k) =
                                        (if slot_idx = 0 then (case sys_serial_write 0 (ascii ''test'') k of (r, k) \<Rightarrow> (r = None, k))
                                         else (True, k))
                                  in Ret (if now ! slot_idx = None \<and> write_denied then CapRevoked (cap_id cap) else CapCheckFailed, k)))))"

definition cmd_cap_seal :: "bytes \<Rightarrow> kernel \<Rightarrow> (cap_report \<times> kernel) run" where
  "cmd_cap_seal tok2 k =
     (case parse_usize tok2 of
        None \<Rightarrow> Ret (CapBadNumber, k)
      | Some slot_idx \<Rightarrow>
          if slot_idx \<ge> MAX_CAPS then Ret (CapEmpty, k)
          else (case get_task k 64 of
                  None \<Rightarrow> Panic
                | Some task \<Rightarrow>
                    (case slots (t_caps task) ! slot_idx of
                       None \<Rightarrow> Ret (CapEmpty, k)
                     | Some cap \<Rightarrow>
                         let caps = (t_caps task)\<lparr>slots := (slots (t_caps task))[slot_idx := Some (cap\<lparr>cap_sealed := True\<rparr>)]\<rparr>
                         in case CapTable_remove slot_idx caps k of
                              (r, caps, k) \<Rightarrow>
                                Ret (if r = None then CapSealed (cap_id cap) else CapCheckFailed,
                                     update_task 64 (\<lambda>t. t\<lparr>t_caps := caps\<rparr>) k))))"

subsection \<open>Granting and revoking service capabilities\<close>

text \<open>The task is created when its slot is empty; a number past the table panics.\<close>

definition install_granted :: "u64 \<Rightarrow> task_id \<Rightarrow> capability \<Rightarrow> u64 \<Rightarrow> kernel \<Rightarrow> kernel run" where
  "install_granted park target derived donor k =
     (if \<not> target < length (tasks k) then Panic
      else run_bind
        (if tasks k ! target = None
         then run_bind (place_task target park CapTable_new k) (\<lambda>k. Ret (k\<lparr>tasks_spawned := tasks_spawned k + 1\<rparr>))
         else Ret k)
        (\<lambda>k. case tasks k ! target of
               None \<Rightarrow> Ret k
             | Some t \<Rightarrow>
                 (case CapTable_insert derived (t_caps t) k of
                    (None, _, _) \<Rightarrow> Panic
                  | (Some new_slot, caps, k) \<Rightarrow>
                      Ret (set_slot target (Some (t\<lparr>t_caps := stamp_origin new_slot donor caps\<rparr>)) k))))"

datatype grant_report = GrantBadNumber | GrantBadUsage | GrantOutOfRange | GrantNone | GrantDone | GrantRevoked u64 | GrantEmpty | GrantCheckFailed

text \<open>The scans for the first capability on a key-value slot or a log kind.\<close>

definition is_kv_entry :: "nat \<Rightarrow> capability option \<Rightarrow> bool" where
  "is_kv_entry slot s = (case s of Some c \<Rightarrow> (case cap_resource c of KVEntry i _ _ \<Rightarrow> i = slot | _ \<Rightarrow> False) | None \<Rightarrow> False)"

definition is_log_channel :: "u8 \<Rightarrow> capability option \<Rightarrow> bool" where
  "is_log_channel kind s = (case s of Some c \<Rightarrow> (case cap_resource c of LogChannel i _ _ \<Rightarrow> i = kind | _ \<Rightarrow> False) | None \<Rightarrow> False)"

definition cmd_kv_grant :: "u64 \<Rightarrow> bytes \<Rightarrow> bytes \<Rightarrow> kernel \<Rightarrow> (grant_report \<times> kernel) run" where
  "cmd_kv_grant park tok2 tok3 k =
     (case (parse_usize tok2, parse_usize tok3) of
        (Some slot, Some target) \<Rightarrow>
          run_bind (get_shell_caps k) (\<lambda>caps.
            case find (is_kv_entry slot) caps of
              Some (Some donor) \<Rightarrow>
                run_bind
                  (install_granted park target
                     \<lparr>cap_resource = KVEntry slot True False, cap_read = True, cap_write = False, cap_grant = False,
                      cap_sealed = False, cap_id = 0, cap_origin = Some (cap_id donor)\<rparr> (cap_id donor) k)
                  (\<lambda>k. Ret (GrantDone, k))
            | _ \<Rightarrow> Ret (GrantNone, k))
      | _ \<Rightarrow> Ret (GrantBadNumber, k))"

definition cmd_log_grant :: "u64 \<Rightarrow> bytes \<Rightarrow> bytes \<Rightarrow> kernel \<Rightarrow> (grant_report \<times> kernel) run" where
  "cmd_log_grant park tok2 tok3 k =
     (case parse_usize tok2 of
        None \<Rightarrow> Ret (GrantBadNumber, k)
      | Some kind_val \<Rightarrow>
          if kind_val \<ge> 16 then Ret (GrantOutOfRange, k)
          else (case split_word tok3 of
                  None \<Rightarrow> Ret (GrantBadUsage, k)
                | Some (target_tok, rights) \<Rightarrow>
                    (case parse_usize target_tok of
                       None \<Rightarrow> Ret (GrantBadNumber, k)
                     | Some target \<Rightarrow>
                         let kind = of_nat kind_val :: u8
                         in run_bind (get_shell_caps k) (\<lambda>caps.
                           case find (is_log_channel kind) caps of
                             Some (Some donor) \<Rightarrow>
                               let req_read = rights = ascii ''r'' \<or> rights = ascii ''rw'';
                                   req_write = rights = ascii ''w'' \<or> rights = ascii ''rw'';
                                   rd = (cap_read donor \<and> req_read); wr = (cap_write donor \<and> req_write)
                               in run_bind
                                    (install_granted park target
                                       \<lparr>cap_resource = LogChannel kind rd wr, cap_read = rd, cap_write = wr, cap_grant = False,
                                        cap_sealed = False, cap_id = 0, cap_origin = Some (cap_id donor)\<rparr> (cap_id donor) k)
                                    (\<lambda>k. Ret (GrantDone, k))
                           | _ \<Rightarrow> Ret (GrantNone, k)))))"

text \<open>Revocation of the first matching capability of the shell, common to \<open>kv revoke\<close> and \<open>log revoke\<close>.\<close>

definition revoke_first :: "(capability option \<Rightarrow> bool) \<Rightarrow> kernel \<Rightarrow> (grant_report \<times> kernel) run" where
  "revoke_first p k =
     run_bind (get_shell_caps k) (\<lambda>caps.
       case first_index p caps of
         None \<Rightarrow> Ret (GrantEmpty, k)
       | Some idx \<Rightarrow>
           (case get_task k 64 of
              None \<Rightarrow> Panic
            | Some task \<Rightarrow>
                (case CapTable_kernel_revoke idx (t_caps task) k of
                   (revoked, caps, k) \<Rightarrow>
                     Ret (case revoked of Some c \<Rightarrow> GrantRevoked (cap_id c) | None \<Rightarrow> GrantCheckFailed,
                          update_task 64 (\<lambda>t. t\<lparr>t_caps := caps\<rparr>) k))))"

definition cmd_kv_revoke :: "bytes \<Rightarrow> kernel \<Rightarrow> (grant_report \<times> kernel) run" where
  "cmd_kv_revoke tok2 k =
     (case parse_usize tok2 of None \<Rightarrow> Ret (GrantBadNumber, k) | Some slot \<Rightarrow> revoke_first (is_kv_entry slot) k)"

definition cmd_log_revoke :: "bytes \<Rightarrow> kernel \<Rightarrow> (grant_report \<times> kernel) run" where
  "cmd_log_revoke tok2 k =
     (case parse_usize tok2 of None \<Rightarrow> Ret (GrantBadNumber, k) | Some kind \<Rightarrow> revoke_first (is_log_channel (of_nat kind)) k)"

subsection \<open>What the capability commands do\<close>

lemma stamp_origin_wf [simp]: "cap_table_wf caps \<Longrightarrow> cap_table_wf (stamp_origin s d caps)"
  by (simp add: stamp_origin_def cap_table_wf_def)

lemma stamp_origin_at:
  "cap_table_wf caps \<Longrightarrow> cap_at (stamp_origin s d caps) =
     (cap_at caps)(s := map_option (\<lambda>c. c\<lparr>cap_origin := Some d\<rparr>) (cap_at caps s))"
  by (auto simp: stamp_origin_def cap_at_def cap_table_wf_def fun_eq_iff nth_list_update)

lemma get_shell_caps_Some:
  "get_shell_caps k = Ret caps \<longleftrightarrow> (\<exists>t. get_task k 64 = Some t \<and> caps = slots (t_caps t))"
  by (auto simp: get_shell_caps_def split: option.splits)

lemma shell_slot_view:
  assumes "kernel_wf k" "get_task k 64 = Some t" "i < MAX_CAPS"
  shows "slots (t_caps t) ! i = cap_view k (64, i)"
  using cap_view_get_task [OF assms(1), of 64 i] assms(2,3) by (simp add: cap_at_def)

lemma cap_view_tasks: "tasks k' = tasks k \<Longrightarrow> cap_view k' = cap_view k"
  unfolding cap_view_def [abs_def] by (simp only:)

lemma set_slot_caps_view:
  assumes "kernel_wf k" "i < MAX_TASKS" "task_wf i t"
  shows "kernel_wf (set_slot i (Some t) k)"
    "cap_view (set_slot i (Some t) k) = (\<lambda>p. if fst p = i then cap_at (t_caps t) (snd p) else cap_view k p)"
proof -
  show wf: "kernel_wf (set_slot i (Some t) k)" by (rule kernel_wf_set_slot [OF assms(1)]) (use assms(3) in simp)
  have len: "i < length (tasks k)" using assms(1,2) by (simp add: kernel_wf_def)
  have id: "t_id t = i" using assms(3) by (simp add: task_wf_def)
  show "cap_view (set_slot i (Some t) k) = (\<lambda>p. if fst p = i then cap_at (t_caps t) (snd p) else cap_view k p)"
  proof
    fix p :: "nat \<times> nat"
    show "cap_view (set_slot i (Some t) k) p = (if fst p = i then cap_at (t_caps t) (snd p) else cap_view k p)"
      using cap_view_get_task [OF wf, of "fst p" "snd p"] cap_view_get_task [OF assms(1), of "fst p" "snd p"] len id
      by (simp add: get_task_set_slot)
  qed
qed

text \<open>\<open>cap grant\<close>: task 66 is replaced by a fresh one that holds the attenuated copy and nothing else.\<close>

lemma cmd_cap_grant_Ok:
  assumes "kernel_wf k" "get_task k 64 = Some t" "parse_usize tok = Some i" "i < MAX_CAPS" "cap_view k (64, i) = Some c" "cap_grant c"
  shows "\<exists>k' d. cmd_cap_grant park tok k = Ret (CapGranted (cap_id d) (cap_id c), k') \<and> kernel_wf k' \<and>
    cap_view k' = (\<lambda>p. if fst p = 66 then (if snd p = 0 then Some d else None) else cap_view k p) \<and>
    cap_resource d = cap_resource c \<and> rights_of d = inf (rights_of c) (RightsMask True True False) \<and>
    cap_origin d = Some (cap_id c) \<and> cap_id d = next_cap_id_ctr k \<and> \<not> cap_sealed d \<and> audit k' = audit k"
proof -
  obtain d0 where d0: "attenuate c (RightsMask True True False) = Some d0"
    using assms(6) by (cases "attenuate c (RightsMask True True False)") auto
  obtain nt k1 where new: "Task_new 66 park CapTable_new k = Ret (nt, k1)"
    by (cases "Task_new 66 park CapTable_new k") (auto simp: MAX_TASKS_def)
  have wfn: "cap_table_wf CapTable_new" by simp
  note t' = Task_new_wf [OF new wfn] and k1 = Task_new_kernel [OF new]
  let ?d = "d0\<lparr>cap_id := next_cap_id_ctr k1\<rparr>" and ?e = "d0\<lparr>cap_id := next_cap_id_ctr k1, cap_origin := Some (cap_id c)\<rparr>"
  let ?k2 = "log_trace ''cap_insert'' (next_cap_id_ctr k1) 0 (k1\<lparr>next_cap_id_ctr := next_cap_id_ctr k1 + 1\<rparr>)"
  have ins: "CapTable_insert d0 (t_caps nt) k1 = (Some 0, single_table ?d, ?k2)"
    using t' by (simp add: insert_new single_table_def)
  let ?caps = "stamp_origin 0 (cap_id c) (single_table ?d)"
  have at: "cap_at ?caps s = (if s = 0 then Some ?e else None)" for s
    using stamp_origin_at [of "single_table ?d" 0 "cap_id c"] by simp
  then have sl: "slots ?caps ! 0 = Some ?e" using at [of 0] by (simp add: cap_at_def split: if_splits)
  let ?t = "nt\<lparr>t_caps := ?caps\<rparr>"
  have wf1: "kernel_wf k1" using assms(1) by (subst k1) (simp add: kernel_wf_def)
  then have wf2: "kernel_wf ?k2" by simp
  have tw: "task_wf 66 ?t" using t' by (simp add: task_wf_def)
  have v1: "cap_view k1 = cap_view k" by (rule cap_view_tasks) (subst k1, simp)
  have id1: "next_cap_id_ctr k1 = next_cap_id_ctr k" "audit k1 = audit k" by (subst k1, simp)+
  note sv = set_slot_caps_view [OF wf2 _ tw]
  have "cmd_cap_grant park tok k = Ret (CapGranted (cap_id ?e) (cap_id c), set_slot 66 (Some ?t) ?k2)"
    using assms(2-5) d0 new ins sl shell_slot_view [OF assms(1,2,4)]
    by (simp add: cmd_cap_grant_def get_shell_caps_def Let_def)
  moreover have "cap_view (set_slot 66 (Some ?t) ?k2) = (\<lambda>p. if fst p = 66 then (if snd p = 0 then Some ?e else None) else cap_view k p)"
    using sv(2) at v1 by (auto simp: MAX_TASKS_def fun_eq_iff)
  moreover have "cap_resource ?e = cap_resource c" "rights_of ?e = inf (rights_of c) (RightsMask True True False)" "\<not> cap_sealed ?e"
    using d0 by (auto simp: attenuate_def rights_of_def inf_rights_mask_def split: if_splits)
  moreover have "audit (set_slot 66 (Some ?t) ?k2) = audit k" using id1 by (simp add: log_trace_def)
  ultimately show ?thesis using sv(1) id1 by (intro exI [of _ "set_slot 66 (Some ?t) ?k2"] exI [of _ ?e]) (simp add: MAX_TASKS_def)
qed

text \<open>\<open>cap revoke\<close>: one slot of the shell is emptied, nothing else; what was derived from it stays, unlike what
  EVALUATION.md says of the command.\<close>

lemma shell_update_caps:
  assumes "kernel_wf k" "get_task k 64 = Some t" "CapTable_kernel_revoke i (t_caps t) k = (r, caps, k1)" "i < MAX_CAPS"
  shows "r = cap_view k (64, i)" "cap_view (update_task 64 (\<lambda>t. t\<lparr>t_caps := caps\<rparr>) k1) = (cap_view k)((64, i) := None)"
    "kernel_wf (update_task 64 (\<lambda>t. t\<lparr>t_caps := caps\<rparr>) k1)" "audit (update_task 64 (\<lambda>t. t\<lparr>t_caps := caps\<rparr>) k1) = audit k"
    "get_task (update_task 64 (\<lambda>t. t\<lparr>t_caps := caps\<rparr>) k1) 64 = Some (t\<lparr>t_caps := caps\<rparr>)" "current_task_id k1 = current_task_id k"
proof -
  have twf: "cap_table_wf (t_caps t)" using kernel_wf_task [OF assms(1,2)] by (simp add: task_wf_def)
  have same: "same_but_trace k k1" and r: "r = slots (t_caps t) ! i" and c: "caps = (t_caps t)\<lparr>slots := (slots (t_caps t))[i := None]\<rparr>"
    using assms(3,4) by (auto simp: CapTable_kernel_revoke_def split: option.splits)
  note f = same_but_trace_kernel [OF same]
  show "r = cap_view k (64, i)" using shell_slot_view [OF assms(1,2,4)] r by simp
  have at: "cap_at caps = (cap_at (t_caps t))(i := None)"
    using c twf by (auto simp: cap_at_def cap_table_wf_def fun_eq_iff nth_list_update)
  have cw: "cap_table_wf caps" using c twf by (simp add: cap_table_wf_def)
  have wf1: "kernel_wf k1" and g1: "get_task k1 64 = Some t" using f(6,7) assms(1,2) by simp_all
  note u = cap_view_update_caps [OF wf1 g1 at cw]
  show "cap_view (update_task 64 (\<lambda>t. t\<lparr>t_caps := caps\<rparr>) k1) = (cap_view k)((64, i) := None)"
    using u(1) cap_view_same_but_trace [OF same] by simp
  show "kernel_wf (update_task 64 (\<lambda>t. t\<lparr>t_caps := caps\<rparr>) k1)" by (rule u(2))
  show "audit (update_task 64 (\<lambda>t. t\<lparr>t_caps := caps\<rparr>) k1) = audit k" "current_task_id k1 = current_task_id k"
    using f by simp_all
  show "get_task (update_task 64 (\<lambda>t. t\<lparr>t_caps := caps\<rparr>) k1) 64 = Some (t\<lparr>t_caps := caps\<rparr>)"
    using g1 by (simp add: get_task_update_task)
qed

lemma cmd_cap_revoke_Ok:
  assumes "kernel_wf k" "current_task_id k = Some 64" "get_task k 64 = Some t" "parse_usize tok = Some i" "i < MAX_CAPS"
    and "cap_view k (64, i) = Some c"
  shows "\<exists>k'. cmd_cap_revoke tok k = Ret (CapRevoked (cap_id c), k') \<and> kernel_wf k' \<and>
    cap_view k' = (cap_view k)((64, i) := None) \<and> audit k' = audit k"
proof -
  obtain r caps k1 where rv: "CapTable_kernel_revoke i (t_caps t) k = (r, caps, k1)" using prod_cases3 by blast
  let ?k = "update_task 64 (\<lambda>t. t\<lparr>t_caps := caps\<rparr>) k1"
  note u = shell_update_caps [OF assms(1,3) rv assms(5)]
  have none: "slots caps ! i = None" using shell_slot_view [OF u(3) u(5) assms(5)] u(2) by simp
  have r: "r = Some c" using u(1) assms(6) by simp
  have cur: "current_task_id ?k = Some 64" using u(6) assms(2) by simp
  obtain tr where s: "sys_serial_write 0 (ascii ''test'') ?k = (None, ?k\<lparr>trace := tr\<rparr>)" if "i = 0"
  proof (cases "i = 0")
    case True
    obtain tr where "current_has_serial_cap 0 ?k = (False, ?k\<lparr>trace := tr\<rparr>)"
      using current_has_serial_cap_eq [OF u(3), of 0] cur u(2) True by auto
    then show ?thesis using that cur by (simp add: sys_serial_write_def)
  qed (use that in blast)
  let ?k' = "if i = 0 then ?k\<lparr>trace := tr\<rparr> else ?k"
  have "cmd_cap_revoke tok k = Ret (CapRevoked (cap_id c), ?k')"
    using assms(3-5) rv r u(5) none s by (simp add: cmd_cap_revoke_def Let_def get_shell_caps_def)
  moreover have "cap_view ?k' = (cap_view k)((64, i) := None)"
    using u(2) cap_view_tasks [of "?k\<lparr>trace := tr\<rparr>" ?k] by simp
  ultimately show ?thesis using u(3,4) by (intro exI [of _ ?k']) simp
qed

text \<open>\<open>cap seal\<close>: the capability is marked, and the holder can no longer remove it.\<close>

lemma cmd_cap_seal_Ok:
  assumes "kernel_wf k" "get_task k 64 = Some t" "parse_usize tok = Some i" "i < MAX_CAPS" "cap_view k (64, i) = Some c"
  shows "\<exists>k'. cmd_cap_seal tok k = Ret (CapSealed (cap_id c), k') \<and> kernel_wf k' \<and>
    cap_view k' = (cap_view k)((64, i) := Some (c\<lparr>cap_sealed := True\<rparr>)) \<and> audit k' = audit k"
proof -
  let ?caps = "(t_caps t)\<lparr>slots := (slots (t_caps t))[i := Some (c\<lparr>cap_sealed := True\<rparr>)]\<rparr>"
  have twf: "cap_table_wf (t_caps t)" using kernel_wf_task [OF assms(1,2)] by (simp add: task_wf_def)
  then have cw: "cap_table_wf ?caps" by (simp add: cap_table_wf_def)
  have at: "cap_at ?caps = (cap_at (t_caps t))(i := Some (c\<lparr>cap_sealed := True\<rparr>))"
    using twf assms(4) by (auto simp: cap_at_def cap_table_wf_def fun_eq_iff nth_list_update)
  then have "CapTable_remove i ?caps k = (None, ?caps, k)"
    by (intro CapTable_remove_sealed [of _ _ "c\<lparr>cap_sealed := True\<rparr>"]) simp_all
  then have "cmd_cap_seal tok k = Ret (CapSealed (cap_id c), update_task 64 (\<lambda>t. t\<lparr>t_caps := ?caps\<rparr>) k)"
    using assms(2-4) shell_slot_view [OF assms(1,2,4)] assms(5) by (simp add: cmd_cap_seal_def Let_def)
  then show ?thesis using cap_view_update_caps [OF assms(1,2) at cw] by simp
qed


subsection \<open>What the service grants do\<close>

text \<open>The new capability goes to the first free slot of the target, under the identity of the donor.\<close>

lemma install_existing:
  assumes "kernel_wf k" "get_task k target = Some t" "s0 < MAX_CAPS" "cap_view k (target, s0) = None"
  shows "\<exists>s k'. (case CapTable_insert derived (t_caps t) k of
      (None, _, _) \<Rightarrow> Panic
    | (Some new_slot, caps, k) \<Rightarrow> Ret (set_slot target (Some (t\<lparr>t_caps := stamp_origin new_slot donor caps\<rparr>)) k)) = Ret k' \<and>
    kernel_wf k' \<and> cap_view k (target, s) = None \<and>
    cap_view k' = (cap_view k)((target, s) := Some (derived\<lparr>cap_id := next_cap_id_ctr k, cap_origin := Some donor\<rparr>)) \<and> audit k' = audit k"
proof -
  have tw: "task_wf target t" and lt: "target < MAX_TASKS" using kernel_wf_task [OF assms(1,2)] by simp_all
  then have twf: "cap_table_wf (t_caps t)" by (simp add: task_wf_def)
  obtain r caps k1 where ins: "CapTable_insert derived (t_caps t) k = (r, caps, k1)" using prod_cases3 by blast
  have v: "cap_view k (target, j) = cap_at (t_caps t) j" for j using cap_view_get_task [OF assms(1)] assms(2) by simp
  obtain s where s: "r = Some s"
    using CapTable_insert_None [OF twf, of derived k caps k1] ins assms(3,4) v by (cases r) auto
  note ci = CapTable_insert_Some [OF twf ins [unfolded s]] CapTable_insert_wf [OF twf ins]
  note same = CapTable_insert_globals [OF ins] and f = same_but_trace_kernel [OF CapTable_insert_globals [OF ins]]
  let ?e = "derived\<lparr>cap_id := next_cap_id_ctr k, cap_origin := Some donor\<rparr>"
  let ?t = "t\<lparr>t_caps := stamp_origin s donor caps\<rparr>"
  have at: "cap_at (stamp_origin s donor caps) = (cap_at (t_caps t))(s := Some ?e)"
    using stamp_origin_at [OF ci(2), of s donor] ci(1) by (auto simp: fun_eq_iff)
  have wf1: "kernel_wf k1" using f(7) assms(1) by simp
  have tw': "task_wf target ?t" using tw ci(2) by (simp add: task_wf_def)
  have v1: "cap_view k1 = cap_view k" using cap_view_same_but_trace [OF same] by simp
  note sv = set_slot_caps_view [OF wf1 lt tw']
  have "cap_view (set_slot target (Some ?t) k1) = (cap_view k)((target, s) := Some ?e)"
    unfolding sv(2) v1 using at v by (auto simp: fun_eq_iff)
  then show ?thesis
    using ins s sv(1) ci(1) v f(2) by (intro exI [of _ s] exI [of _ "set_slot target (Some ?t) k1"]) simp
qed

lemma install_granted_Ok:
  assumes "kernel_wf k" "target < MAX_TASKS" "s0 < MAX_CAPS" "cap_view k (target, s0) = None"
  shows "\<exists>s k'. install_granted park target derived donor k = Ret k' \<and> kernel_wf k' \<and> cap_view k (target, s) = None \<and>
    cap_view k' = (cap_view k)((target, s) := Some (derived\<lparr>cap_id := next_cap_id_ctr k, cap_origin := Some donor\<rparr>)) \<and> audit k' = audit k"
proof -
  have len: "target < length (tasks k)" using assms(1,2) by (simp add: kernel_wf_def)
  have gt: "get_task k target = tasks k ! target" using kernel_wf_get_task [OF assms(1,2)] .
  show ?thesis
  proof (cases "tasks k ! target")
    case (Some t)
    then show ?thesis
      using install_existing [OF assms(1) _ assms(3,4), where t = t and derived = derived and donor = donor] gt len by (simp add: install_granted_def)
  next
    case None
    obtain k1 where p: "place_task target park CapTable_new k = Ret k1" "placed target CapTable_new k k1"
      by (rule place_task_placed [OF assms(1,2), of CapTable_new park]) simp_all
    let ?k = "k1\<lparr>tasks_spawned := tasks_spawned k1 + 1\<rparr>"
    have wf1: "kernel_wf ?k" and g1: "get_task ?k j = get_task k1 j" for j
      using placedD(1) [OF p(2)] by (simp_all add: kernel_wf_def get_task_def)
    obtain t where t: "get_task ?k target = Some t" using placedD(2) [OF p(2)] g1 by auto
    have v1: "cap_view ?k = cap_view k"
    proof
      fix x :: "nat \<times> nat"
      have "cap_view ?k = cap_view k1" by (rule cap_view_tasks) simp
      moreover have "cap_view k1 x = cap_view k x"
        using placedD(4,5) [OF p(2)] cap_view_get_task [OF assms(1), of target] gt None
        by (cases x, cases "fst x = target") (auto simp: cap_at_def CapTable_new_def)
      ultimately show "cap_view ?k x = cap_view k x" by simp
    qed
    have tk: "tasks ?k ! target = Some t" using t kernel_wf_get_task [OF wf1 assms(2)] by simp
    have n: "next_cap_id_ctr ?k = next_cap_id_ctr k" "audit ?k = audit k" using placedD(6,7) [OF p(2)] by simp_all
    show ?thesis
      using install_existing [OF wf1 t assms(3), where derived = derived and donor = donor] assms(4) v1 n p(1) None len tk
      by (simp add: install_granted_def)
  qed
qed

text \<open>
  The rights of the donor are not looked at by \<open>kv grant\<close>: the target can read the slot afterwards, even when the shell
  cannot, as with the write-only capability on slot 2 that the shell starts with.
\<close>

lemma kv_grant_ignores_rights:
  assumes "kernel_wf k" "get_task k 64 = Some t" "find (is_kv_entry slot) (slots (t_caps t)) = Some (Some donor)"
    and "parse_usize tok2 = Some slot" "parse_usize tok3 = Some target" "target < MAX_TASKS"
    and "s0 < MAX_CAPS" "cap_view k (target, s0) = None"
  shows "\<exists>k'. cmd_kv_grant park tok2 tok3 k = Ret (GrantDone, k') \<and> kernel_wf k' \<and> check_sender_cap k' target slot False"
proof -
  let ?d = "\<lparr>cap_resource = KVEntry slot True False, cap_read = True, cap_write = False, cap_grant = False,
                      cap_sealed = False, cap_id = 0, cap_origin = Some (cap_id donor)\<rparr>"
  obtain s k' where i: "install_granted park target ?d (cap_id donor) k = Ret k'" "kernel_wf k'"
    "cap_view k' = (cap_view k)((target, s) := Some (?d\<lparr>cap_id := next_cap_id_ctr k, cap_origin := Some (cap_id donor)\<rparr>))"
    using install_granted_Ok [OF assms(1,6-8), where park = park and derived = ?d and donor = "cap_id donor"] by blast
  have "check_sender_cap k' target slot False"
    unfolding check_sender_cap_def holds_cap_view [OF i(2)] i(3)
    by (rule exI [of _ s]) (simp add: kv_admits_def)
  then show ?thesis using i(1,2) assms(2-5) by (simp add: cmd_kv_grant_def get_shell_caps_def)
qed

subsection \<open>Concrete commands\<close>

lemma shell_kernel_root:
  obtains cs where "get_task (shell_kernel 84) 64 = Some (sample_task 64 Running (table_with cs))" "map cap_facts cs = root_resources"
proof -
  obtain cs k' where r: "root_caps (sample_kernel Ready) = (table_with cs, k')" "map cap_facts cs = root_resources"
    by (rule root_caps_eq [of "sample_kernel Ready"]) (rule that; assumption)
  have "get_task (shell_kernel 84) 64 = Some (sample_task 64 Running (table_with cs))"
    using shell_kernel_task(3) [of 84 64] r(1) by (simp add: MAX_TASKS_def)
  then show ?thesis using that r(2) by blast
qed

lemma shell_kernel_view:
  assumes "i < 16"
  shows "\<exists>c. cap_view (shell_kernel 84) (64, i) = Some c \<and> cap_facts c = root_resources ! i"
proof -
  obtain cs where cs: "get_task (shell_kernel 84) 64 = Some (sample_task 64 Running (table_with cs))" "map cap_facts cs = root_resources"
    by (rule shell_kernel_root)
  have wf: "kernel_wf (shell_kernel 84)" by (rule shell_kernel_task) (simp_all add: MAX_TASKS_def)
  show ?thesis
    using root_slots(2) [OF cs(2) assms] cap_view_get_task [OF wf, of 64 i] cs(1) assms
    by (auto simp: cap_at_def MAX_CAPS_def)
qed


subsection \<open>The echo service\<close>

definition ensure_echo_service :: "u64 \<Rightarrow> kernel \<Rightarrow> kernel run" where
  "ensure_echo_service entry k =
     (if \<not> 65 < length (tasks k) then Panic
      else if tasks k ! 65 = None then
        (case CapTable_insert (reply_cap 64 0) CapTable_new k of
           (None, _, _) \<Rightarrow> Panic
         | (Some _, caps, k) \<Rightarrow> place_task 65 entry caps k)
      else Ret k)"

text \<open>One turn of \<open>echo_service_main\<close> on what its receive gave it.\<close>

definition echo_turn :: "message progress \<times> kernel \<Rightarrow> service_outcome \<times> kernel" where
  "echo_turn r =
     (case r of
        (Parked, k) \<Rightarrow> (Awaiting, k)
      | (Done (Inl _), k) \<Rightarrow> (Yielded, yield_cpu k)
      | (Done (Inr msg), k) \<Rightarrow>
          (case sys_send_typed 0 (tag_to_u16 Raw) (msg_version msg) (take (msg_len msg) (msg_payload msg)) k of (p, k) \<Rightarrow> (Replied p, k)))"

definition echo_service_iter :: "kernel \<Rightarrow> service_outcome \<times> kernel" where
  "echo_service_iter k = echo_turn (sys_receive_typed k)"

definition cmd_service_restart :: "u64 \<Rightarrow> bytes \<Rightarrow> kernel \<Rightarrow> (bool \<times> kernel) run" where
  "cmd_service_restart entry tok2 k =
     (if from_utf8_or_empty tok2 \<noteq> ascii ''echo'' then Ret (False, k)
      else if \<not> 65 < length (tasks k) then Panic
      else let k = (if tasks k ! 65 \<noteq> None then (set_slot 65 None k)\<lparr>tasks_terminated := tasks_terminated k + 1\<rparr> else k)
           in run_bind (ensure_echo_service entry k) (\<lambda>k. Ret (True, k)))"

datatype ipc_report = IpcBadNumber | IpcUnreachable | IpcCalling client_call

definition cmd_ipc_send :: "u64 \<Rightarrow> bytes \<Rightarrow> bytes \<Rightarrow> kernel \<Rightarrow> (ipc_report \<times> kernel) run" where
  "cmd_ipc_send entry tok2 tok3 k =
     (case parse_usize tok2 of
        None \<Rightarrow> Ret (IpcBadNumber, k)
      | Some task_id \<Rightarrow>
          if task_id \<noteq> 65 then Ret (IpcUnreachable, k)
          else run_bind (ensure_echo_service entry k) (\<lambda>k.
            case after_send 1 tok3 None (sys_send_typed 1 (tag_to_u16 Raw) 1 tok3 k) of (c, k) \<Rightarrow> Ret (IpcCalling c, k)))"

definition cmd_ipc_typed :: "u64 \<Rightarrow> bytes \<Rightarrow> bytes \<Rightarrow> kernel \<Rightarrow> (ipc_report \<times> kernel) run" where
  "cmd_ipc_typed entry tok2 tok3 k =
     (case parse_usize tok2 of
        None \<Rightarrow> Ret (IpcBadNumber, k)
      | Some schema \<Rightarrow>
          if schema > 3 then Ret (IpcUnreachable, k)
          else run_bind (ensure_echo_service entry k) (\<lambda>k.
            case after_send 1 tok3 None (sys_send_typed 1 (of_nat schema) 2 tok3 k) of (c, k) \<Rightarrow> Ret (IpcCalling c, k)))"

lemma echo_service_placed:
  assumes "kernel_wf k" "get_task k 65 = None"
  shows "\<exists>k' c. ensure_echo_service entry k = Ret k' \<and> kernel_wf k' \<and>
    (\<exists>t. get_task k' 65 = Some t \<and> t_state t = Ready \<and> t_caps t = single_table c \<and> cap_resource c = IpcChannel 64) \<and>
    (\<forall>j. j \<noteq> 65 \<longrightarrow> get_task k' j = get_task k j)"
proof -
  have len: "65 < length (tasks k)" "tasks k ! 65 = None"
    using assms kernel_wf_get_task [OF assms(1), of 65] by (simp_all add: kernel_wf_def MAX_TASKS_def)
  let ?c = "(reply_cap 64 0)\<lparr>cap_id := next_cap_id_ctr k\<rparr>"
  let ?k = "log_trace ''cap_insert'' (next_cap_id_ctr k) 0 (k\<lparr>next_cap_id_ctr := next_cap_id_ctr k + 1\<rparr>)"
  have wf: "kernel_wf ?k" using assms(1) by simp
  obtain k' where p: "place_task 65 entry (single_table ?c) ?k = Ret k'" "placed 65 (single_table ?c) ?k k'"
    by (rule place_task_placed [OF wf, of 65 "single_table ?c" entry]) (simp_all add: MAX_TASKS_def)
  have "ensure_echo_service entry k = Ret k'"
    using len p(1) by (simp add: ensure_echo_service_def insert_new single_table_def)
  moreover have "cap_resource ?c = IpcChannel 64" by (simp add: reply_cap_def)
  ultimately show ?thesis using p(2) by (intro exI [of _ k'] exI [of _ ?c]) (auto simp: placed_def)
qed

text \<open>
  \<open>ipc send 65\<close> of a message to the waiting echo service: the service answers with the bytes it was sent, and the
  shell's call returns them.
\<close>

theorem echo_returns_message:
  assumes "client_ready 65 1 k" "parse_usize tok = Some 65" "length msg \<le> PAYLOAD_MAX" "authorised k 65 0 = Some 64"
  shows "\<exists>k1. cmd_ipc_send entry tok msg k = Ret (IpcCalling InReceive, k1) \<and>
    (\<forall>k2. resumes 65 64 k1 k2 \<longrightarrow>
      (\<exists>k3. echo_turn (receive_iter 65 k2) = (Replied (Done (Inr ())), k3) \<and>
        (\<forall>k4. resumes 64 65 k3 k4 \<longrightarrow> (\<exists>k5. client_resume Raw 1 None InReceive k4 = (Returned (Inr (padded msg)), k5)))))"
proof -
  let ?m = "make_message 64 Raw 1 msg"
  obtain k1 sh st where r: "client_request 65 entry Raw None msg k = Ret (InReceive, k1)" "kernel_wf k1"
    and sh: "get_task k 64 = Some sh" "queue_contents (t_msg_queue sh) = []" "get_task k1 64 = Some (sh\<lparr>t_state := BlockedOnReceive\<rparr>)"
    and st: "get_task k 65 = Some st" "queue_contents (t_msg_queue st) = []"
      "get_task k1 65 = Some (st\<lparr>t_ipc_buffer := Some ?m, t_state := Ready\<rparr>)"
    by (rule client_request_sends [OF assms(1,3), of entry Raw None]) (rule that; assumption)
  have "tasks k ! 65 = Some st" "65 < length (tasks k)" using get_task_in_range [OF st(1)] by simp_all
  then have e: "ensure_echo_service entry k = Ret k" "ensure_service 65 entry k = Ret k"
    by (simp_all add: ensure_echo_service_def ensure_service_def)
  have ch: "channel_to 65 (slots (t_caps sh)) = Some 1" using assms(1) sh(1) by (auto simp: client_ready_def)
  have cmd: "cmd_ipc_send entry tok msg k = Ret (IpcCalling InReceive, k1)"
    using r(1) e assms(2) sh(1) ch by (simp add: cmd_ipc_send_def client_request_def get_shell_caps_def)
  have "\<exists>k3. echo_turn (receive_iter 65 k2) = (Replied (Done (Inr ())), k3) \<and>
      (\<forall>k4. resumes 64 65 k3 k4 \<longrightarrow> (\<exists>k5. client_resume Raw 1 None InReceive k4 = (Returned (Inr (padded msg)), k5)))"
    if k2: "resumes 65 64 k1 k2" for k2
  proof -
    obtain st' sh' where st': "get_task k2 65 = Some st'" "t_ipc_buffer st' = Some ?m" "queue_contents (t_msg_queue st') = []"
        "t_caps st' = t_caps st"
      and sh': "get_task k2 64 = Some sh'" "t_msg_queue sh' = t_msg_queue sh" "t_state sh' = BlockedOnReceive"
      and wf2: "kernel_wf k2" "current_task_id k2 = Some 65"
      using k2 sh(3) st(2,3) same_task_buffer [of "st\<lparr>t_ipc_buffer := Some ?m, t_state := Ready\<rparr>" "get_task k2 65"]
        same_task_buffer [of "sh\<lparr>t_state := BlockedOnReceive\<rparr>" "get_task k2 64"]
      by (auto simp: resumes_def)
    let ?kh = "update_task 65 (\<lambda>t. t\<lparr>t_ipc_buffer := None\<rparr>) k2"
    note rec = receive_buffered [OF wf2(1) st'(1,3,2)]
    let ?r = "make_message 65 Raw 1 msg" and ?kt = "log_trace ''ipc_send'' (of_nat 0) (ucast (tag_to_u16 Raw)) ?kh"
    obtain p k3 where it: "send_iter 65 0 ?r ?kt = (p, k3)" by fastforce
    have a: "authorised ?kt 65 0 = Some 64"
      using assms(4) st(1) st'(1,4) by (simp add: authorised_def get_task_update_task)
    have g: "get_task ?kt 64 = Some sh'" using sh'(1) by (simp add: get_task_update_task)
    note d = send_iter_delivers [OF a g sh'(3) it]
    have body: "take (msg_len ?m) (msg_payload ?m) = msg" "msg_version ?m = 1"
      by (simp_all add: make_message_def)
    have turn: "echo_turn (receive_iter 65 k2) = (Replied (Done (Inr ())), k3)"
      using rec it d(1) body wf2(2) check_send_tag [OF assms(3), of Raw]
      by (simp add: echo_turn_def sys_send_typed_def send_begin_def)
    have q: "queue_contents (t_msg_queue (sh'\<lparr>t_ipc_buffer := Some ?r, t_state := Ready\<rparr>)) = []" using sh'(2) sh(2) by simp
    have "\<exists>k5. client_resume Raw 1 None InReceive k4 = (Returned (Inr (padded msg)), k5)" if "resumes 64 65 k3 k4" for k4
      using client_resume_returns [OF that _ q, of ?r Raw 1 None] d(2) [of 64]
      by (auto simp: accept_reply_def make_message_def padded_def)
    then show ?thesis using turn by blast
  qed
  then show ?thesis using cmd by blast
qed

subsection \<open>Command history\<close>

datatype history_action = HistoryList "bytes list" | HistoryBadNumber | HistoryOutOfRange | HistoryRun bytes history

definition cmd_history :: "bytes \<Rightarrow> history \<Rightarrow> history_action" where
  "cmd_history tok1 h =
     (if tok1 = [] then
        HistoryList (List.map_filter (\<lambda>i. map_option from_utf8_or_empty (History_get h (h_count h - i))) [0..<h_count h])
      else case parse_usize tok1 of
             None \<Rightarrow> HistoryBadNumber
           | Some n_idx \<Rightarrow>
               if n_idx \<ge> h_count h then HistoryOutOfRange
               else (case History_get h (h_count h - n_idx) of
                       Some cmd \<Rightarrow> HistoryRun cmd (History_push cmd h)
                     | None \<Rightarrow> HistoryOutOfRange))"

text \<open>
  A recalled command is dispatched again, and may itself be a \<open>history\<close> command.  The value is the command finally run,
  with the history it leaves; \<open>None\<close> is a recursion that does not end.
\<close>

partial_function (option) resolve :: "history \<times> bytes \<Rightarrow> (bytes \<times> history) option" where
  "resolve s =
     (case s of (h, line) \<Rightarrow>
        (case command_tokens line of
           None \<Rightarrow> Some (line, h)
         | Some (tok0, tok1, _, _) \<Rightarrow>
             if tok0 \<noteq> ascii ''history'' then Some (line, h)
             else (case cmd_history tok1 h of HistoryRun cmd h' \<Rightarrow> resolve (h', cmd) | _ \<Rightarrow> Some (line, h))))"

text \<open>One round of \<open>shell_main\<close> on a line that was read: blank input is skipped, the rest is recorded and run.\<close>

definition shell_round :: "bytes \<Rightarrow> history \<Rightarrow> (bytes \<times> history) option" where
  "shell_round line h = (if line = [] then Some ([], h) else resolve (History_push line h, line))"

lemma push_is_last:
  assumes "history_wf h" "line \<noteq> []" "length line \<le> 128"
  shows "History_get (History_push line h) 1 = Some line" "0 < h_count (History_push line h)"
    "History_push line (History_push line h) = History_push line h"
proof -
  let ?h = "History_push line h"
  have wf: "history_wf ?h" using history_push_recalls [OF assms(1)] by blast
  have r: "recalled ?h = (if recalled h \<noteq> [] \<and> hd (recalled h) = line then recalled h else take 16 (line # recalled h))"
    using history_push_recalls [OF assms(1), of line] assms(2,3) by auto
  then have ne: "recalled ?h \<noteq> []" "hd (recalled ?h) = line" by (auto split: if_splits)
  then show c: "0 < h_count ?h" by (auto simp: recalled_def)
  have "recalled ?h ! 0 = line" using ne by (simp add: hd_conv_nth)
  then show g: "History_get ?h 1 = Some line"
    using c by (simp add: recalled_def History_get_def Let_def)
  let ?j = "(h_head ?h + 15) mod 16"
  have l: "h_lens ?h ! ?j \<le> 128" "length (h_buffer ?h ! ?j) = 128" using wf by (auto simp: history_wf_def)
  have t: "take (h_lens ?h ! ?j) (h_buffer ?h ! ?j) = line"
    using g c by (simp add: History_get_def Let_def add.commute)
  then have "h_lens ?h ! ?j = length line" using l by (metis length_take min.absorb2)
  then show "History_push line ?h = ?h"
    using t c by (simp add: History_push_def [of line ?h] Let_def)
qed

lemma command_tokens_Nil: "command_tokens [] = None"
  by code_simp

text \<open>
  A \<open>history\<close> command that names its own entry, the last one, runs itself for ever: there is no bound on the recursion
  of \<open>dispatch\<close>, so the shell's stack overflows.
\<close>

theorem history_self_reference_diverges:
  assumes "history_wf h" "length line \<le> 128" "command_tokens line = Some (ascii ''history'', tok, t2, t3)"
    and "parse_usize tok = Some (h_count (History_push line h) - 1)"
  shows "shell_round line h = None"
proof -
  let ?h = "History_push line h"
  have ne: "line \<noteq> []" using assms(3) command_tokens_Nil by auto
  note p = push_is_last [OF assms(1) ne assms(2)]
  have tok: "tok \<noteq> []" using assms(4) by (auto simp: parse_usize_def)
  have run: "cmd_history tok ?h = HistoryRun line ?h"
    using p tok assms(4) by (simp add: cmd_history_def)
  have "s \<noteq> (?h, line)" if "resolve s = Some y" for s y
  proof (rule resolve.raw_induct [where P = "\<lambda>s _. s \<noteq> (?h, line)", OF _ that], rule notI)
    fix f and s :: "history \<times> bytes" and y
    assume ih: "\<And>s y. f s = Some y \<Longrightarrow> s \<noteq> (?h, line)" and s: "s = (?h, line)"
      and step: "(case s of (h, line) \<Rightarrow>
        (case command_tokens line of
           None \<Rightarrow> Some (line, h)
         | Some (tok0, tok1, _, _) \<Rightarrow>
             if tok0 \<noteq> ascii ''history'' then Some (line, h)
             else (case cmd_history tok1 h of HistoryRun cmd h' \<Rightarrow> f (h', cmd) | _ \<Rightarrow> Some (line, h)))) = Some y"
    have "f (?h, line) = Some y" using step s assms(3) run by simp
    with ih show False by blast
  qed
  then show ?thesis using ne by (cases "resolve (?h, line)") (auto simp: shell_round_def)
qed

text \<open>A recalled command that is not itself a \<open>history\<close> command is run, and recorded again.\<close>

theorem history_runs_recalled:
  assumes "history_wf h" "line \<noteq> []" "command_tokens line = Some (ascii ''history'', tok, t2, t3)" "parse_usize tok = Some n"
    and "n < h_count (History_push line h)" "History_get (History_push line h) (h_count (History_push line h) - n) = Some cmd"
    and "\<forall>t1 t2 t3. command_tokens cmd \<noteq> Some (ascii ''history'', t1, t2, t3)"
  shows "shell_round line h = Some (cmd, History_push cmd (History_push line h))"
proof -
  let ?h = "History_push line h"
  have tok: "tok \<noteq> []" using assms(4) by (auto simp: parse_usize_def)
  have "cmd_history tok ?h = HistoryRun cmd (History_push cmd ?h)" using assms(4-6) tok by (simp add: cmd_history_def)
  then have "resolve (?h, line) = resolve (History_push cmd ?h, cmd)"
    using assms(3) by (subst resolve.simps) simp
  also have "\<dots> = Some (cmd, History_push cmd ?h)"
    using assms(7) by (subst resolve.simps) (auto split: option.split)
  finally show ?thesis using assms(2) by (simp add: shell_round_def)
qed

subsection \<open>Watching a command\<close>

definition next_line :: "bytes \<Rightarrow> bytes \<times> bytes" where
  "next_line bs = (takeWhile (\<lambda>b. b \<noteq> 0x0A) bs, drop 1 (dropWhile (\<lambda>b. b \<noteq> 0x0A) bs))"

definition strip_cr :: "bytes \<Rightarrow> bytes" where
  "strip_cr l = (if l \<noteq> [] \<and> last l = 0x0D then butlast l else l)"

lemma next_line_shorter:
  assumes "bs \<noteq> []"
  shows "length (snd (next_line bs)) < length bs"
proof -
  have "length (dropWhile (\<lambda>b. b \<noteq> 0x0A) bs) \<le> length bs" by (rule length_dropWhile_le)
  moreover have "0 < length bs" using assms by simp
  ultimately show ?thesis unfolding next_line_def snd_conv length_drop by linarith
qed

text \<open>\<open>print_diffed_buffers\<close>: each line of the current output with a mark when it differs from the line of the previous
  output at the same place; lines that are not text are left out.\<close>

function watch_diff :: "bytes \<Rightarrow> bytes \<Rightarrow> (bool \<times> bytes) list" where
  "watch_diff cur prev =
     (if cur = [] then []
      else let (cur_line, cur') = next_line cur;
               (prev_line, prev') = (if prev = [] then (None, []) else (case next_line prev of (l, r) \<Rightarrow> (Some l, r)));
               clean_cur = strip_cr cur_line;
               is_different = (case prev_line of Some p \<Rightarrow> clean_cur \<noteq> strip_cr p | None \<Rightarrow> True)
           in (if valid_utf8 clean_cur then [(is_different, clean_cur)] else []) @ watch_diff cur' prev')"
  by auto

termination
proof (relation "measure (\<lambda>(c, p). length c)", goal_cases)
  case 1
  then show ?case by simp
next
  case (2 cur prev x cur_line cur')
  have "cur' = snd (next_line cur)" using 2(2,3) by (metis snd_conv)
  then show ?case using next_line_shorter [OF 2(1)] by simp
qed

declare watch_diff.simps [simp del]

text \<open>The lines of a buffer, without a last empty one.\<close>

function buffer_lines :: "bytes \<Rightarrow> bytes list" where
  "buffer_lines bs = (if bs = [] then [] else strip_cr (fst (next_line bs)) # buffer_lines (snd (next_line bs)))"
  by auto

termination
  by (relation "measure length") (auto dest: next_line_shorter)

declare buffer_lines.simps [simp del]

lemma buffer_lines_Nil [simp]: "buffer_lines [] = []"
  by (simp add: buffer_lines.simps)

fun marked :: "bytes list \<Rightarrow> bytes list \<Rightarrow> (bool \<times> bytes) list" where
  "marked [] ps = []"
| "marked (c # cs) [] = (True, c) # marked cs []"
| "marked (c # cs) (p # ps) = (c \<noteq> p, c) # marked cs ps"

text \<open>
  The display compares line by line: the marks are those of the lists of lines, so output that has not changed shows no
  mark.
\<close>

theorem watch_diff_marks:
  "watch_diff cur prev = filter (\<lambda>a. valid_utf8 (snd a)) (marked (buffer_lines cur) (buffer_lines prev)) \<and>
   (\<forall>(m, l) \<in> set (watch_diff cur cur). \<not> m)"
proof -
  have eq: "watch_diff cur prev = filter (\<lambda>a. valid_utf8 (snd a)) (marked (buffer_lines cur) (buffer_lines prev))" for prev
  proof (induction cur prev rule: watch_diff.induct)
    case (1 cur prev)
    show ?case
    proof (cases "cur = []")
      case True
      then show ?thesis by (simp add: watch_diff.simps)
    next
      case False
      have c: "buffer_lines cur = strip_cr (fst (next_line cur)) # buffer_lines (snd (next_line cur))"
        using False by (subst buffer_lines.simps) simp
      show ?thesis
      proof (cases "prev = []")
        case True
        then have "watch_diff (snd (next_line cur)) [] =
            filter (\<lambda>a. valid_utf8 (snd a)) (marked (buffer_lines (snd (next_line cur))) (buffer_lines []))"
          using 1 [OF False refl, of "fst (next_line cur)" "snd (next_line cur)" _ None "[]"] by simp
        then show ?thesis
          using False True c by (subst watch_diff.simps) (simp add: case_prod_beta Let_def)
      next
        case p: False
        have "buffer_lines prev = strip_cr (fst (next_line prev)) # buffer_lines (snd (next_line prev))"
          using p by (subst buffer_lines.simps) simp
        moreover have "watch_diff (snd (next_line cur)) (snd (next_line prev)) =
            filter (\<lambda>a. valid_utf8 (snd a)) (marked (buffer_lines (snd (next_line cur))) (buffer_lines (snd (next_line prev))))"
          using 1 [OF False refl, of "fst (next_line cur)" "snd (next_line cur)" _ "Some (fst (next_line prev))" "snd (next_line prev)"] p
          by (simp add: case_prod_beta)
        ultimately show ?thesis
          using False p c by (subst watch_diff.simps) (simp add: case_prod_beta Let_def)
      qed
    qed
  qed
  have "\<forall>(m, l) \<in> set (marked ls ls). \<not> m" for ls by (induction ls) auto
  then show ?thesis using eq [of prev] eq [of cur] by fastforce
qed

subsection \<open>Stress test\<close>

text \<open>Pair \<open>i\<close> of workers: tasks \<open>73 + 2 i\<close> and \<open>74 + 2 i\<close>, each with a channel to the other.\<close>

definition stress_pair :: "u64 \<Rightarrow> nat \<Rightarrow> kernel \<Rightarrow> kernel run" where
  "stress_pair entry i k =
     (let t_init = 73 + 2 * i; t_repl = 74 + 2 * i
      in case CapTable_insert (reply_cap t_repl 0) CapTable_new k of
           (None, _, _) \<Rightarrow> Panic
         | (Some _, caps_init, k) \<Rightarrow>
             (case CapTable_insert (reply_cap t_init 0) CapTable_new k of
                (None, _, _) \<Rightarrow> Panic
              | (Some _, caps_repl, k) \<Rightarrow>
                  run_bind (place_task t_init entry caps_init k) (place_task t_repl entry caps_repl)))"

primrec stress_load :: "u64 \<Rightarrow> nat \<Rightarrow> kernel \<Rightarrow> kernel run" where
  "stress_load entry 0 k = Ret k"
| "stress_load entry (Suc n) k = run_bind (stress_load entry n k) (stress_pair entry n)"

definition clear_task :: "task_id \<Rightarrow> kernel \<Rightarrow> kernel" where
  "clear_task i k = (if tasks k ! i \<noteq> None then (set_slot i None k)\<lparr>tasks_terminated := tasks_terminated k + 1\<rparr> else k)"

primrec stress_unload :: "nat \<Rightarrow> kernel \<Rightarrow> kernel" where
  "stress_unload 0 k = k"
| "stress_unload (Suc n) k = clear_task (74 + 2 * n) (clear_task (73 + 2 * n) (stress_unload n k))"

text \<open>The task table before and after the 300 ticks in which the workers run.\<close>

definition stress_count :: "bytes \<Rightarrow> nat option" where
  "stress_count tok2 = (case parse_usize tok2 of Some n \<Rightarrow> if 1 \<le> n \<and> n \<le> 8 then Some n else None | None \<Rightarrow> None)"

lemma clear_task_eq:
  assumes "kernel_wf k" "i < MAX_TASKS"
  shows "kernel_wf (clear_task i k)" "get_task (clear_task i k) j = (if j = i then None else get_task k j)"
proof -
  have len: "i < length (tasks k)" using assms by (simp add: kernel_wf_def)
  have wf: "kernel_wf (set_slot i None k)" by (rule kernel_wf_set_slot [OF assms(1)]) simp
  then show "kernel_wf (clear_task i k)" using assms(1) by (simp add: clear_task_def kernel_wf_def)
  show "get_task (clear_task i k) j = (if j = i then None else get_task k j)"
    using len kernel_wf_get_task [OF assms] by (auto simp: clear_task_def set_slot_def get_task_def nth_list_update)
qed

lemma stress_unload_eq:
  assumes "kernel_wf k" "n \<le> 8"
  shows "kernel_wf (stress_unload n k) \<and> (\<forall>j. get_task (stress_unload n k) j = (if 73 \<le> j \<and> j < 73 + 2 * n then None else get_task k j))"
  using assms(2)
proof (induction n)
  case 0
  then show ?case using assms(1) by auto
next
  case (Suc n)
  then have ih: "kernel_wf (stress_unload n k)"
    "\<And>j. get_task (stress_unload n k) j = (if 73 \<le> j \<and> j < 73 + 2 * n then None else get_task k j)" by auto
  have lt: "73 + 2 * n < MAX_TASKS" "74 + 2 * n < MAX_TASKS" using Suc.prems by (simp_all add: MAX_TASKS_def)
  note a = clear_task_eq [OF ih(1) lt(1)]
  note b = clear_task_eq [OF a(1) lt(2)]
  show ?case using b(1) b(2) a(2) ih(2) by auto
qed

lemma stress_pair_placed:
  assumes "kernel_wf k" "i < 8"
  obtains k2 k3 k4 ca cb where "stress_pair entry i k = Ret k4" "\<And>j. get_task k2 j = get_task k j"
    "placed (73 + 2 * i) (single_table ca) k2 k3" "cap_resource ca = IpcChannel (74 + 2 * i)"
    "placed (74 + 2 * i) (single_table cb) k3 k4" "cap_resource cb = IpcChannel (73 + 2 * i)"
proof -
  let ?a = "73 + 2 * i" and ?b = "74 + 2 * i"
  let ?k1 = "log_trace ''cap_insert'' (next_cap_id_ctr k) 0 (k\<lparr>next_cap_id_ctr := next_cap_id_ctr k + 1\<rparr>)"
  let ?k2 = "log_trace ''cap_insert'' (next_cap_id_ctr ?k1) 0 (?k1\<lparr>next_cap_id_ctr := next_cap_id_ctr ?k1 + 1\<rparr>)"
  let ?ca = "(reply_cap ?b 0)\<lparr>cap_id := next_cap_id_ctr k\<rparr>" and ?cb = "(reply_cap ?a 0)\<lparr>cap_id := next_cap_id_ctr ?k1\<rparr>"
  have wf: "kernel_wf ?k2" using assms(1) by simp
  have lt: "?a < MAX_TASKS" "?b < MAX_TASKS" using assms(2) by (simp_all add: MAX_TASKS_def)
  obtain k3 where p3: "place_task ?a entry (single_table ?ca) ?k2 = Ret k3" "placed ?a (single_table ?ca) ?k2 k3"
    by (rule place_task_placed [OF wf lt(1), of "single_table ?ca" entry]) simp_all
  obtain k4 where p4: "place_task ?b entry (single_table ?cb) k3 = Ret k4" "placed ?b (single_table ?cb) k3 k4"
    by (rule place_task_placed [OF placedD(1) [OF p3(2)] lt(2), of "single_table ?cb" entry]) simp_all
  have "stress_pair entry i k = Ret k4"
    using p3(1) p4(1) unfolding stress_pair_def Let_def insert_new single_table_def by simp
  moreover have "get_task ?k2 j = get_task k j" for j by (simp add: log_trace_def get_task_def)
  moreover have "cap_resource ?ca = IpcChannel ?b" "cap_resource ?cb = IpcChannel ?a" by (simp_all add: reply_cap_def)
  ultimately show ?thesis using that p3(2) p4(2) by blast
qed

lemma stress_pair_Ret:
  assumes "kernel_wf k" "i < 8"
  shows "\<exists>k'. stress_pair entry i k = Ret k' \<and> kernel_wf k' \<and>
    (\<forall>j. j \<notin> {73 + 2 * i, 74 + 2 * i} \<longrightarrow> get_task k' j = get_task k j) \<and>
    (\<exists>c. cap_view k' (73 + 2 * i, 0) = Some c \<and> cap_resource c = IpcChannel (74 + 2 * i)) \<and>
    (\<exists>c. cap_view k' (74 + 2 * i, 0) = Some c \<and> cap_resource c = IpcChannel (73 + 2 * i))"
proof -
  let ?a = "73 + 2 * i" and ?b = "74 + 2 * i"
  obtain k2 k3 k4 ca cb where p: "stress_pair entry i k = Ret k4" "\<And>j. get_task k2 j = get_task k j"
    "placed ?a (single_table ca) k2 k3" "cap_resource ca = IpcChannel ?b"
    "placed ?b (single_table cb) k3 k4" "cap_resource cb = IpcChannel ?a" by (rule stress_pair_placed [OF assms, of entry]) (rule that)
  have "get_task k4 j = get_task k j" if "j \<notin> {?a, ?b}" for j
    using placedD(3) [OF p(5), of j] placedD(3) [OF p(3), of j] p(2) that by simp
  moreover have "cap_view k4 (?a, 0) = Some ca" "cap_view k4 (?b, 0) = Some cb"
    using placedD(4) [OF p(5)] placedD(5) [OF p(5), of ?a 0] placedD(4) [OF p(3)] by simp_all
  ultimately show ?thesis using placedD(1) [OF p(5)] p(1,4,6) by (intro exI [of _ k4]) blast
qed

text \<open>
  With five pairs or more the test takes the slots of the services: loading it puts workers in place of the key-value
  service (and, with more pairs, of the log, filesystem, device and synchronisation services), and clearing up leaves
  those slots empty.
\<close>

theorem stress_takes_service_slots:
  assumes "kernel_wf k" "5 \<le> n" "n \<le> 8"
  shows "\<exists>k'. stress_load entry n k = Ret k' \<and> kernel_wf k' \<and>
    (\<exists>c. cap_view k' (82, 0) = Some c \<and> cap_resource c = IpcChannel 81) \<and>
    (\<forall>k2. kernel_wf k2 \<longrightarrow> get_task (stress_unload n k2) 82 = None)"
proof -
  have load: "\<exists>k'. stress_load entry n k = Ret k' \<and> kernel_wf k' \<and>
      (\<forall>j<n. \<exists>c. cap_view k' (74 + 2 * j, 0) = Some c \<and> cap_resource c = IpcChannel (73 + 2 * j))" if "n \<le> 8" for n
    using that
  proof (induction n)
    case 0
    then show ?case using assms(1) by simp
  next
    case (Suc n)
    then obtain k1 where k1: "stress_load entry n k = Ret k1" "kernel_wf k1"
      "\<forall>j<n. \<exists>c. cap_view k1 (74 + 2 * j, 0) = Some c \<and> cap_resource c = IpcChannel (73 + 2 * j)" by auto
    obtain k2 where k2: "stress_pair entry n k1 = Ret k2" "kernel_wf k2"
      "\<forall>j. j \<notin> {73 + 2 * n, 74 + 2 * n} \<longrightarrow> get_task k2 j = get_task k1 j"
      "\<exists>c. cap_view k2 (74 + 2 * n, 0) = Some c \<and> cap_resource c = IpcChannel (73 + 2 * n)"
      using stress_pair_Ret [OF k1(2), of n entry] Suc.prems by auto
    have "cap_view k2 (74 + 2 * j, 0) = cap_view k1 (74 + 2 * j, 0)" if "j < n" for j
    proof -
      have "74 + 2 * j \<notin> {73 + 2 * n, 74 + 2 * n}" using that by auto
      then show ?thesis using k2(3) by (simp add: cap_view_get_task [OF k2(2)] cap_view_get_task [OF k1(2)])
    qed
    then show ?case using k1 k2 by (auto simp: less_Suc_eq)
  qed
  obtain k' where k': "stress_load entry n k = Ret k'" "kernel_wf k'"
    "\<forall>j<n. \<exists>c. cap_view k' (74 + 2 * j, 0) = Some c \<and> cap_resource c = IpcChannel (73 + 2 * j)"
    using load [OF assms(3)] by blast
  have "\<exists>c. cap_view k' (82, 0) = Some c \<and> cap_resource c = IpcChannel 81" using k'(3) [rule_format, of 4] assms(2) by simp
  moreover have "get_task (stress_unload n k2) 82 = None" if "kernel_wf k2" for k2
    using stress_unload_eq [OF that assms(3)] assms(2) by simp
  ultimately show ?thesis using k'(1,2) by blast
qed

subsection \<open>Creating a synchronisation object\<close>

text \<open>What \<open>sync create\<close> does with the answer: a capability on the object for the shell itself.\<close>

definition sync_created :: "u8 \<Rightarrow> bytes \<Rightarrow> kernel \<Rightarrow> kernel run" where
  "sync_created obj reply k =
     (if reply ! 0 \<noteq> 0 then Ret k
      else case get_task k 64 of
             None \<Rightarrow> Panic
           | Some shell \<Rightarrow>
               (case put_cap (root_cap (SyncObj obj) True True True) (t_caps shell, k) of
                  (caps, k) \<Rightarrow> Ret (update_task 64 (\<lambda>t. t\<lparr>t_caps := caps\<rparr>) k)))"

theorem sync_create_opens_gate:
  assumes "kernel_wf k" "get_task k 64 = Some t" "s0 < MAX_CAPS" "cap_view k (64, s0) = None" "reply ! 0 = 0"
  shows "\<exists>k'. sync_created obj reply k = Ret k' \<and> kernel_wf k' \<and> sync_check_cap k' 64 obj"
proof -
  have twf: "cap_table_wf (t_caps t)" using kernel_wf_task [OF assms(1,2)] by (simp add: task_wf_def)
  let ?c = "root_cap (SyncObj obj) True True True"
  obtain r caps k1 where ins: "CapTable_insert ?c (t_caps t) k = (r, caps, k1)" using prod_cases3 by blast
  have v: "cap_view k (64, j) = cap_at (t_caps t) j" for j using cap_view_get_task [OF assms(1)] assms(2) by simp
  obtain s where s: "r = Some s" using CapTable_insert_None [OF twf, of ?c k caps k1] ins assms(3,4) v by (cases r) auto
  note ci = CapTable_insert_Some [OF twf ins [unfolded s]] CapTable_insert_wf [OF twf ins]
  note f = same_but_trace_kernel [OF CapTable_insert_globals [OF ins]]
  have wf1: "kernel_wf k1" "get_task k1 64 = Some t" using f(6,7) assms(1,2) by simp_all
  have at: "cap_at caps = (cap_at (t_caps t))(s := Some (?c\<lparr>cap_id := next_cap_id_ctr k\<rparr>))" using ci(1) by simp
  note u = cap_view_update_caps [OF wf1 at ci(2)]
  let ?k = "update_task 64 (\<lambda>t. t\<lparr>t_caps := caps\<rparr>) k1"
  have "sync_created obj reply k = Ret ?k" using assms(2,5) ins by (simp add: sync_created_def put_cap_def)
  moreover have "sync_check_cap ?k 64 obj"
    unfolding sync_check_cap_def holds_cap_view [OF u(2)] u(1)
    by (rule exI [of _ s]) (simp add: sync_admits_def root_cap_def)
  ultimately show ?thesis using u(2) by blast
qed

subsection \<open>Migration\<close>

definition migrate_caps :: "kernel \<Rightarrow> cap_table \<times> kernel" where
  "migrate_caps k = put_cap (root_cap (Service 1) True True False) (put_cap (root_cap Serial False True False) (CapTable_new, k))"

text \<open>\<open>None\<close> is a bad number, \<open>Some False\<close> the refusal of anything but \<open>migrate 1 1\<close>; the verdict of the demonstration is not looked at.\<close>

definition cmd_migrate :: "u64 \<Rightarrow> bytes \<Rightarrow> bytes \<Rightarrow> dist \<Rightarrow> kernel \<Rightarrow> (bool option \<times> (bool \<times> bool) option \<times> dist \<times> kernel) run" where
  "cmd_migrate park tok1 tok2 d k =
     (case (parse_usize tok1, parse_usize tok2) of
        (Some svc_num, Some node) \<Rightarrow>
          if svc_num \<noteq> 1 \<or> node \<noteq> 1 then Ret (Some False, None, d, k)
          else (case migrate_caps k of
                  (caps, k) \<Rightarrow>
                    run_bind (place_task 75 park caps k) (\<lambda>k.
                      run_bind (place_task 76 park CapTable_new k) (\<lambda>k.
                        case dist_demo 1 75 76 d k of (verdict, d, k) \<Rightarrow> Ret (Some True, verdict, d, k))))
      | _ \<Rightarrow> Ret (None, None, d, k))"

theorem first_migration_passes:
  assumes "kernel_wf k" "parse_usize tok1 = Some 1" "parse_usize tok2 = Some 1"
  shows "\<exists>d k'. cmd_migrate park tok1 tok2 dist_init k = Ret (Some True, Some (True, True), d, k') \<and>
    ServiceRegistry_resolve (registry d) 1 = Some (Local 76)"
proof -
  let ?h = "[root_cap Serial False True False, root_cap (Service 1) True True False]"
  obtain k1 where k1: "fold put_cap ?h (table_with [], k) = (table_with ([] @ stamp (next_cap_id_ctr k) ?h), k1)" "numbered k k1"
    using fold_put_cap [of "[]" ?h k] by (auto simp: MAX_CAPS_def)
  have m: "migrate_caps k = (table_with (stamp (next_cap_id_ctr k) ?h), k1)"
    using k1(1) by (simp add: migrate_caps_def CapTable_new_with)
  have wf1: "kernel_wf k1" using numbered_frame(4) [OF k1(2)] assms(1) by simp
  let ?t = "table_with (stamp (next_cap_id_ctr k) ?h)"
  obtain k2 where p2: "place_task 75 park ?t k1 = Ret k2" "placed 75 ?t k1 k2"
    by (rule place_task_placed [OF wf1, of 75 ?t park]) (simp_all add: MAX_TASKS_def MAX_CAPS_def)
  obtain k3 where p3: "place_task 76 park CapTable_new k2 = Ret k3" "placed 76 CapTable_new k2 k3"
    by (rule place_task_placed [OF placedD(1) [OF p2(2)], of 76 CapTable_new park]) (simp_all add: MAX_TASKS_def)
  obtain b r where "get_task k3 75 = Some b" "get_task k3 76 = Some r"
    using placedD(2,3) [OF p3(2)] placedD(2) [OF p2(2)] by fastforce
  from dist_demo_passes [OF this, of 1] obtain d k4 where
    "dist_demo 1 75 76 dist_init k3 = (Some (True, True), d, k4)" "ServiceRegistry_resolve (registry d) 1 = Some (Local 76)" by auto
  then show ?thesis using assms(2,3) m p2(1) p3(1) by (simp add: cmd_migrate_def)
qed

end
