(* ===== verification/Shell_Faults.thy ===== *)
theory Shell_Faults
  imports Shell_Commands
begin

text \<open>
  The commands of the shell that start tasks which fault or never yield, \<open>dispatch\<close> of \<open>shell/mod.rs\<close>: \<open>fault spawn\<close>,
  \<open>fault cascade\<close> and \<open>sched preempt-user\<close>.  What the other tasks do between a yield
  of the shell and its next turn is a parameter.
\<close>

subsection \<open>Faulting tasks\<close>

definition task_gone :: "kernel \<Rightarrow> nat \<Rightarrow> bool" where
  "task_gone k i = (case tasks k ! i of None \<Rightarrow> True | Some t \<Rightarrow> t_state t = Terminated)"

definition alive_count :: "kernel \<Rightarrow> nat" where
  "alive_count k = length (filter (\<lambda>s. case s of Some t \<Rightarrow> t_state t \<noteq> Terminated | None \<Rightarrow> False) (tasks k))"

text \<open>\<open>for _ in 0..n { yield_cpu() }\<close>\<close>

primrec yields :: "(nat \<Rightarrow> kernel \<Rightarrow> kernel) \<Rightarrow> nat \<Rightarrow> kernel \<Rightarrow> kernel" where
  "yields others 0 k = k"
| "yields others (Suc n) k = others n (yield_cpu (yields others n k))"

definition cmd_fault_spawn :: "u64 \<Rightarrow> (nat \<Rightarrow> kernel \<Rightarrow> kernel) \<Rightarrow> kernel \<Rightarrow> ((bool \<times> nat) \<times> kernel) run" where
  "cmd_fault_spawn entry others k =
     run_bind (place_task 71 entry CapTable_new k) (\<lambda>k.
       let k = yields others 5 k in Ret ((task_gone k 71, alive_count k), k))"

primrec place_fault_tasks :: "u64 \<Rightarrow> nat \<Rightarrow> kernel \<Rightarrow> kernel run" where
  "place_fault_tasks entry 0 k = Ret k"
| "place_fault_tasks entry (Suc n) k = run_bind (place_fault_tasks entry n k) (place_task (72 + n) entry CapTable_new)"

text \<open>The report of \<open>fault cascade\<close>: for each task whether it is gone.  The line that follows says that isolation held
  whatever was found.\<close>

datatype cascade_report = CascadeBadNumber | CascadeOutOfRange nat | CascadeRan "bool list"

definition cmd_fault_cascade :: "u64 \<Rightarrow> (nat \<Rightarrow> kernel \<Rightarrow> kernel) \<Rightarrow> bytes \<Rightarrow> kernel \<Rightarrow> (cascade_report \<times> kernel) run" where
  "cmd_fault_cascade entry others tok2 k =
     (case parse_usize tok2 of
        None \<Rightarrow> Ret (CascadeBadNumber, k)
      | Some n \<Rightarrow>
          if \<not> (1 \<le> n \<and> n \<le> 8) then Ret (CascadeOutOfRange n, k)
          else run_bind (place_fault_tasks entry n k) (\<lambda>k.
            let k = yields others 10 k in Ret (CascadeRan (map (\<lambda>i. task_gone k (72 + i)) [0..<n]), k)))"

text \<open>The turn of \<open>fault_task_entry\<close>: its read is a page fault, which comes with the scheduler lock free.\<close>

definition fault_turn :: "exception_frame \<Rightarrow> kernel \<Rightarrow> kernel" where
  "fault_turn f k = (case exception_dispatch False f 14 k of Some out \<Rightarrow> term_kernel out | None \<Rightarrow> k)"

subsection \<open>One fault\<close>

lemma cyc_dist_inj: "s < MAX_TASKS \<Longrightarrow> i < MAX_TASKS \<Longrightarrow> j < MAX_TASKS \<Longrightarrow> cyc_dist s i = cyc_dist s j \<Longrightarrow> i = j"
  using add_cyc_dist by metis

lemma cyc_dist_values:
  assumes "s < MAX_TASKS" "x < MAX_TASKS"
  shows "cyc_dist s x = (if x < s then x + MAX_TASKS - s else x - s)"
proof (cases "x < s")
  case True
  then have "x + MAX_TASKS - s < MAX_TASKS" using assms by linarith
  then show ?thesis using True by (simp add: cyc_dist_def)
next
  case False
  then have e: "x + MAX_TASKS - s = (x - s) + MAX_TASKS" by linarith
  have "cyc_dist s x = x - s" unfolding cyc_dist_def e mod_add_self2 by (rule mod_less) (use assms in linarith)
  then show ?thesis using False by simp
qed

lemma fault_turn_next:
  assumes wf: "kernel_wf k" and d: "current_task_id k = Some d" "d < MAX_TASKS" "slot_state k d \<noteq> None"
    and n: "n < MAX_TASKS" "term_state k d n = Some Ready"
    and near: "\<forall>j < MAX_TASKS. term_state k d j = Some Ready \<longrightarrow> cyc_dist ((d + 1) mod MAX_TASKS) n \<le> cyc_dist ((d + 1) mod MAX_TASKS) j"
  shows "kernel_wf (fault_turn f k)" "current_task_id (fault_turn f k) = Some n"
    "i < MAX_TASKS \<Longrightarrow> slot_state (fault_turn f k) i = (if i = n then Some Running else term_state k d i)"
    "cap_view (fault_turn f k) = cap_view k" "faults_caught (fault_turn f k) = faults_caught k + 1"
proof -
  let ?r = "fault_recorded f 14 k"
  have ft: "fault_turn f k = term_kernel (terminate_current_task ?r)"
    using d(1) by (simp add: fault_turn_def exception_dispatch_Some)
  have wfr: "kernel_wf ?r" by (rule kernel_wf_fault_recorded [OF wf])
  have dr: "current_task_id ?r = Some d" "tasks ?r ! d \<noteq> None"
    using d fault_recorded_slot [of f 14 k d] by (auto simp: fault_recorded_frame slot_state_def)
  note ts = terminate_states [OF wfr dr(1) d(2) dr(2), unfolded term_state_recorded, folded ft]
  have s: "(d + 1) mod MAX_TASKS < MAX_TASKS" by (simp add: MAX_TASKS_def)
  obtain m where m: "m < MAX_TASKS" "term_state k d m = Some Ready" "current_task_id (fault_turn f k) = Some m"
    "cyc_dist ((d + 1) mod MAX_TASKS) m \<le> cyc_dist ((d + 1) mod MAX_TASKS) n"
    "\<And>i. i < MAX_TASKS \<Longrightarrow> slot_state (fault_turn f k) i = (if i = m then Some Running else term_state k d i)"
    using ts n by blast
  have "m = n" using near [rule_format, OF m(1,2)] m(4) cyc_dist_inj [OF s m(1) n(1)] by simp
  then show "current_task_id (fault_turn f k) = Some n"
    "i < MAX_TASKS \<Longrightarrow> slot_state (fault_turn f k) i = (if i = n then Some Running else term_state k d i)" using m by simp_all
  show wf': "kernel_wf (fault_turn f k)" unfolding ft by (rule kernel_wf_sched_rel [OF wfr sched_rel_terminate])
  have "cap_view ?r p = cap_view k p" for p
    using cap_view_get_task [OF wf, of "fst p" "snd p"] cap_view_get_task [OF wfr, of "fst p" "snd p"]
    by (cases "get_task k (fst p)") (auto simp: fault_recorded_task)
  then show "cap_view (fault_turn f k) = cap_view k"
    using cap_view_sched_rel [OF wfr sched_rel_terminate] unfolding ft by auto
  show "faults_caught (fault_turn f k) = faults_caught k + 1" unfolding ft by (simp add: fault_recorded_frame)
qed

subsection \<open>A cascade of faults\<close>

text \<open>A table in which no other task is ready or running, and none waits to send to the slots the faulting tasks take.\<close>

definition quiet_slots :: "nat \<Rightarrow> nat \<Rightarrow> kernel \<Rightarrow> bool" where
  "quiet_slots b n k \<longleftrightarrow> kernel_wf k \<and> current_task_id k = Some 64 \<and> slot_state k 64 = Some Running \<and>
     (\<forall>i < MAX_TASKS. i \<noteq> 64 \<longrightarrow> i \<notin> {b..<b + n} \<longrightarrow> slot_state k i \<notin> {Some Ready, Some Running} \<and>
        (\<forall>d \<in> {b..<b + n}. slot_state k i \<noteq> Some (BlockedOnSend d)))"

text \<open>The states of the tasks when \<open>j\<close> of the \<open>n\<close> tasks from slot \<open>b\<close> on have faulted.\<close>

definition stage_state :: "nat \<Rightarrow> nat \<Rightarrow> nat \<Rightarrow> kernel \<Rightarrow> nat \<Rightarrow> task_state option" where
  "stage_state b n j k i =
     (if i = 64 then Some (if j = n then Running else Ready)
      else if i < b \<or> b + n \<le> i then slot_state k i
      else Some (if i < b + j then Terminated else if i = b + j then Running else Ready))"

definition faulted :: "nat \<Rightarrow> nat \<Rightarrow> nat \<Rightarrow> kernel \<Rightarrow> kernel \<Rightarrow> bool" where
  "faulted b n j k k' \<longleftrightarrow> kernel_wf k' \<and> current_task_id k' = Some (if j = n then 64 else b + j) \<and>
     (\<forall>i < MAX_TASKS. slot_state k' i = stage_state b n j k i) \<and> cap_view k' = cap_view k \<and> faults_caught k' = faults_caught k + of_nat j"

lemma near_table:
  assumes "64 < b" "b + n \<le> 128" "j < n" "i < MAX_TASKS" "i = 64 \<or> b + j < i \<and> i < b + n"
  shows "cyc_dist ((b + j + 1) mod MAX_TASKS) (if Suc j = n then 64 else b + Suc j) \<le> cyc_dist ((b + j + 1) mod MAX_TASKS) i"
proof -
  have m: "(b + j + 1) mod MAX_TASKS = b + j + 1" using assms by (simp add: MAX_TASKS_def)
  have c: "cyc_dist (b + j + 1) x = (if x < b + j + 1 then x + MAX_TASKS - (b + j + 1) else x - (b + j + 1))" if "x < MAX_TASKS" for x
    by (rule cyc_dist_values [OF _ that]) (use assms in \<open>simp add: MAX_TASKS_def\<close>)
  show ?thesis unfolding m using assms c [of i] c [of 64] c [of "b + Suc j"] by (auto simp: MAX_TASKS_def)
qed

lemma next_fault:
  assumes q: "quiet_slots b n k" and b: "64 < b" "b + n \<le> 128" and j: "j < n" and f: "faulted b n j k k'"
  shows "faulted b n (Suc j) k (fault_turn g k')"
proof -
  let ?d = "b + j" and ?n = "if Suc j = n then 64 else b + Suc j"
  have m: "MAX_TASKS = 132" by (simp add: MAX_TASKS_def)
  note f' = f [unfolded faulted_def]
  have d: "current_task_id k' = Some ?d" "?d < MAX_TASKS" "slot_state k' ?d = Some Running"
    using f' j b by (auto simp: stage_state_def m)
  have st: "term_state k' ?d i = (if i = 64 then Some Ready else if i < b \<or> b + n \<le> i then slot_state k i
      else Some (if i \<le> b + j then Terminated else Ready))" if "i < MAX_TASKS" for i
    using f' q j b that by (auto simp: term_state_def stage_state_def quiet_slots_def)
  have r: "term_state k' ?d i = Some Ready \<longleftrightarrow> i = 64 \<or> b + j < i \<and> i < b + n" if "i < MAX_TASKS" for i
    using st [OF that] q that by (auto simp: quiet_slots_def)
  have n: "?n < MAX_TASKS" "term_state k' ?d ?n = Some Ready" using r [of ?n] j b by (auto simp: m)
  have near: "\<forall>i < MAX_TASKS. term_state k' ?d i = Some Ready \<longrightarrow> cyc_dist ((?d + 1) mod MAX_TASKS) ?n \<le> cyc_dist ((?d + 1) mod MAX_TASKS) i"
    using near_table [OF b j] r by simp
  have wf: "kernel_wf k'" and sn: "slot_state k' ?d \<noteq> None" using f' d(3) by simp_all
  note ft = fault_turn_next [OF wf d(1,2) sn n near, where f = g]
  have "slot_state (fault_turn g k') i = stage_state b n (Suc j) k i" if i: "i < MAX_TASKS" for i
    unfolding ft(3) [OF i] st [OF i] stage_state_def using j b by auto
  moreover have "current_task_id (fault_turn g k') = Some (if Suc j = n then 64 else b + Suc j)" using ft(2) by simp
  moreover have "faults_caught (fault_turn g k') = faults_caught k + of_nat (Suc j)" using ft(5) f' by simp
  ultimately show ?thesis using ft(1,4) f' by (simp add: faulted_def)
qed

lemma all_fault:
  assumes q: "quiet_slots b n k" and b: "64 < b" "b + n \<le> 128" and f: "faulted b n 0 k k'" and l: "length gs \<le> n"
  shows "faulted b n (length gs) k (fold fault_turn gs k')"
  using l
proof (induction gs rule: rev_induct)
  case Nil
  then show ?case using f by simp
next
  case (snoc g gs)
  then show ?case using next_fault [OF q b, of "length gs"] by simp
qed

text \<open>The yield of the shell that starts it.\<close>

lemma yield_to_faults:
  assumes q: "quiet_slots b n k" and b: "64 < b" "b + n \<le> 128" "0 < n" and r: "\<And>i. i \<in> {b..<b + n} \<Longrightarrow> slot_state k i = Some Ready"
  shows "faulted b n 0 k (yield_cpu k)"
proof -
  have m: "MAX_TASKS = 132" by (simp add: MAX_TASKS_def)
  note q' = q [unfolded quiet_slots_def]
  have wf: "kernel_wf k" using q' by simp
  have ci: "current_index k = Some 64" using q' by (auto simp: current_index_def slot_state_def m)
  have ready: "slot_state k i = Some Ready \<longleftrightarrow> i \<in> {b..<b + n}" if "i < MAX_TASKS" for i
    using q' r [of i] that by (cases "i = 64") auto
  have "next_ready (tasks k) 65 \<noteq> None" using next_ready_None [of 65 "tasks k"] ready [of b] b by (auto simp: m is_ready_slot)
  then obtain x where x: "next_ready (tasks k) 65 = Some x" by auto
  note nr = next_ready_Some [OF x]
  have xr: "x < MAX_TASKS" "x \<in> {b..<b + n}" using nr(1,2) ready [of x] by (auto simp: m is_ready_slot)
  have "cyc_dist 65 x \<le> cyc_dist 65 b" using nr(3) [of b] ready [of b] b by (auto simp: m is_ready_slot)
  moreover have c: "cyc_dist 65 y = y - 65" if "65 \<le> y" "y < MAX_TASKS" for y
    using cyc_dist_values [of 65 y] that by (simp add: m)
  ultimately have "x = b" using c [of x] c [of b] xr b by (auto simp: m)
  then have yn: "yield_next k = Some b" using x ci by (simp add: yield_next_def m)
  have ne: "64 \<noteq> b" using b by simp
  note y = yield_cpu_switch [OF wf ci yn ne]
  have "slot_state (yield_cpu k) i = stage_state b n 0 k i" if i: "i < MAX_TASKS" for i
    unfolding y(2) [OF i] handed_state_def stage_state_def using q' r [of i] b by auto
  moreover have wf': "kernel_wf (yield_cpu k)" by (rule kernel_wf_sched_rel [OF wf sched_rel_yield])
  moreover have "cap_view (yield_cpu k) = cap_view k" by (rule cap_view_sched_rel [OF wf sched_rel_yield])
  moreover have "faults_caught (yield_cpu k) = faults_caught k"
    by (auto simp: yield_cpu_def Let_def hand_over_def switch_context_def modify_slot_def set_slot_def log_trace_def
        split: option.splits prod.splits)
  ultimately show ?thesis using y(1) b by (simp add: faulted_def)
qed

lemma place_fault_tasks_placed:
  assumes "kernel_wf k" "n \<le> 8"
  shows "\<exists>k'. place_fault_tasks entry n k = Ret k' \<and> kernel_wf k' \<and> current_task_id k' = current_task_id k \<and>
    (\<forall>i < MAX_TASKS. slot_state k' i = (if i \<in> {72..<72 + n} then Some Ready else slot_state k i)) \<and>
    (\<forall>p. cap_view k' p = (if fst p \<in> {72..<72 + n} then None else cap_view k p)) \<and> faults_caught k' = faults_caught k"
  using assms(2)
proof (induction n)
  case 0
  then show ?case using assms(1) by simp
next
  case (Suc n)
  then obtain k1 where k1: "place_fault_tasks entry n k = Ret k1" "kernel_wf k1" "current_task_id k1 = current_task_id k"
    "\<And>i. i < MAX_TASKS \<Longrightarrow> slot_state k1 i = (if i \<in> {72..<72 + n} then Some Ready else slot_state k i)"
    "\<And>p. cap_view k1 p = (if fst p \<in> {72..<72 + n} then None else cap_view k p)" "faults_caught k1 = faults_caught k" by auto
  obtain k2 where k2: "place_task (72 + n) entry CapTable_new k1 = Ret k2" "placed (72 + n) CapTable_new k1 k2"
    by (rule place_task_placed [OF k1(2)]) (use Suc.prems in \<open>auto simp: MAX_TASKS_def\<close>)
  note p = k2(2) [unfolded placed_def]
  have "slot_state k2 i = (if i \<in> {72..<72 + Suc n} then Some Ready else slot_state k i)" if i: "i < MAX_TASKS" for i
    using p k1(4) [OF i] slot_state_get_task [OF _ i, of k2] slot_state_get_task [OF k1(2) i] by (cases "i = 72 + n") auto
  moreover have "cap_view k2 q = (if fst q \<in> {72..<72 + Suc n} then None else cap_view k q)" for q
  proof -
    have "cap_view k2 q = (if fst q = 72 + n then cap_at CapTable_new (snd q) else cap_view k1 q)" using p by blast
    then show ?thesis using k1(5) [of q] by (auto simp: less_Suc_eq)
  qed
  ultimately show ?case using k1(1,3,6) k2(1) p by simp
qed

text \<open>The other nine yields find no task that could run.\<close>

lemma yield_alone:
  assumes "kernel_wf k" "current_task_id k = Some 64" "slot_state k 64 = Some Running"
    and "\<And>i. i < MAX_TASKS \<Longrightarrow> slot_state k i \<noteq> Some Ready"
  shows "yield_cpu k = k\<lparr>mach := mach (yield_cpu k)\<rparr>"
proof (rule yield_cpu_stay)
  show "current_index k = Some 64" using assms(2,3) by (auto simp: current_index_def slot_state_def MAX_TASKS_def)
  then have "yield_next k = None"
    using next_ready_None [of 65 "tasks k"] assms(4) by (auto simp: yield_next_def is_ready_slot MAX_TASKS_def)
  then show "yield_next k \<in> {None, Some 64}" by simp
qed

definition same_but_mach :: "kernel \<Rightarrow> kernel \<Rightarrow> bool" where
  "same_but_mach k k' \<longleftrightarrow> k' = k\<lparr>mach := mach k'\<rparr>"

lemma same_but_mach_facts:
  assumes "same_but_mach k k'"
  shows "tasks k' = tasks k" "kernel_wf k' = kernel_wf k" "current_task_id k' = current_task_id k" "slot_state k' i = slot_state k i"
    "cap_view k' = cap_view k" "faults_caught k' = faults_caught k"
proof -
  have k': "k' = k\<lparr>mach := mach k'\<rparr>" using assms by (simp add: same_but_mach_def)
  show "tasks k' = tasks k" "kernel_wf k' = kernel_wf k" "current_task_id k' = current_task_id k" "faults_caught k' = faults_caught k"
    by (subst k', simp)+
  then show "slot_state k' i = slot_state k i" "cap_view k' = cap_view k" by (simp_all add: slot_state_def cap_view_def fun_eq_iff)
qed

text \<open>What the other tasks do while the shell yields: at the first yield each faulting task has its turn, and then nobody runs.\<close>

definition only_faults :: "exception_frame list \<Rightarrow> nat \<Rightarrow> kernel \<Rightarrow> kernel" where
  "only_faults gs y = (if y = 0 then fold fault_turn gs else id)"

lemma yields_all_fault:
  assumes q: "quiet_slots b n k" and b: "64 < b" "b + n \<le> 128" "0 < n" and r: "\<And>i. i \<in> {b..<b + n} \<Longrightarrow> slot_state k i = Some Ready"
    and l: "length gs = n"
  shows "faulted b n n k (yields (only_faults gs) (Suc y) k)"
proof (induction y)
  case 0
  show ?case using all_fault [OF q b(1,2) yield_to_faults [OF q b r], of gs] l by (simp add: only_faults_def)
next
  case (Suc y)
  let ?k = "yields (only_faults gs) (Suc y) k"
  have f: "faulted b n n k ?k" by (rule Suc)
  note f' = f [unfolded faulted_def]
  have nr: "slot_state ?k i \<noteq> Some Ready" if "i < MAX_TASKS" for i
    using f' q that by (auto simp: stage_state_def quiet_slots_def)
  have "slot_state ?k 64 = Some Running" using f' by (simp add: stage_state_def MAX_TASKS_def)
  then have "same_but_mach ?k (yield_cpu ?k)" using yield_alone [of ?k] f' nr by (simp add: same_but_mach_def)
  from same_but_mach_facts [OF this] f' have "faulted b n n k (yield_cpu ?k)" unfolding faulted_def by simp
  moreover have "yields (only_faults gs) (Suc (Suc y)) k = yield_cpu ?k"
    unfolding yields.simps(2) [of _ "Suc y"] by (simp only: only_faults_def nat.distinct if_False id_apply)
  ultimately show ?case by simp
qed

lemma quiet_placed:
  assumes q: "quiet_slots 72 n k" and n: "n \<le> 8"
    and p: "kernel_wf k'" "current_task_id k' = current_task_id k"
      "\<And>i. i < MAX_TASKS \<Longrightarrow> slot_state k' i = (if i \<in> {72..<72 + n} then Some Ready else slot_state k i)"
  shows "quiet_slots 72 n k'"
  using q p by (auto simp: quiet_slots_def MAX_TASKS_def)


definition lone_shell :: kernel where
  "lone_shell = (set_slot 64 (Some (sample_task 64 Running (table_with []))) (initial_kernel sample_layout sample_machine))
     \<lparr>current_task_id := Some 64\<rparr>"

lemma lone_shell_quiet: "quiet_slots b n lone_shell"
proof -
  have "kernel_wf (set_slot 64 (Some (sample_task 64 Running (table_with []))) (initial_kernel sample_layout sample_machine))"
    by (intro kernel_wf_set_slot) (auto intro!: sample_task_wf table_with_wf)
  then have wf: "kernel_wf lone_shell" by (simp add: lone_shell_def kernel_wf_def)
  have "slot_state lone_shell i = (if i = 64 then Some Running else None)" if "i < MAX_TASKS" for i
    using that by (simp add: lone_shell_def slot_state_def set_slot_def initial_kernel_def nth_list_update MAX_TASKS_def sample_task_def)
  then show ?thesis using wf by (simp add: quiet_slots_def MAX_TASKS_def) (simp add: lone_shell_def)
qed


text \<open>\<open>fault spawn\<close> is the case of one task, in slot 71.\<close>

theorem fault_spawn_contained:
  assumes q: "quiet_slots 71 1 k"
  shows "\<exists>c k'. cmd_fault_spawn entry (only_faults [g]) k = Ret ((True, c), k') \<and> kernel_wf k' \<and> current_task_id k' = Some 64 \<and>
    faults_caught k' = faults_caught k + 1 \<and> c = card {i. i < MAX_TASKS \<and> i \<noteq> 71 \<and> slot_state k i \<notin> {None, Some Terminated}} \<and>
    (\<forall>i < MAX_TASKS. slot_state k' i = (if i = 71 then Some Terminated else slot_state k i))"
proof -
  have m: "71 < MAX_TASKS" by (simp add: MAX_TASKS_def)
  obtain k1 where k1: "place_task 71 entry CapTable_new k = Ret k1" "placed 71 CapTable_new k k1"
    by (rule place_task_placed [of k 71 CapTable_new entry]) (use q m in \<open>auto simp: quiet_slots_def\<close>)
  note p = k1(2) [unfolded placed_def]
  have wf: "kernel_wf k" "kernel_wf k1" using q p by (simp_all add: quiet_slots_def)
  have s1: "slot_state k1 i = (if i = 71 then Some Ready else slot_state k i)" if i: "i < MAX_TASKS" for i
    using p slot_state_get_task [OF wf(1) i] slot_state_get_task [OF wf(2) i] by (cases "i = 71") auto
  have q1: "quiet_slots 71 1 k1" using q p s1 wf by (auto simp: quiet_slots_def MAX_TASKS_def)
  let ?k = "yields (only_faults [g]) 5 k1"
  have "faulted 71 1 1 k1 ?k"
    using yields_all_fault [OF q1, of "[g]" 4] s1 [OF m] by (simp add: numeral_eq_Suc)
  note f = this [unfolded faulted_def]
  have st: "slot_state ?k i = (if i = 71 then Some Terminated else slot_state k i)" if "i < MAX_TASKS" for i
    using f s1 [OF that] that q by (auto simp: stage_state_def quiet_slots_def)
  have len: "length (tasks ?k) = MAX_TASKS" using f by (simp add: kernel_wf_def)
  have "alive_count ?k = card {i. i < MAX_TASKS \<and> slot_state ?k i \<notin> {None, Some Terminated}}"
    unfolding alive_count_def length_filter_conv_card len
    by (rule arg_cong [where f = card]) (auto simp: slot_state_def split: option.splits)
  also have "{i. i < MAX_TASKS \<and> slot_state ?k i \<notin> {None, Some Terminated}} =
      {i. i < MAX_TASKS \<and> i \<noteq> 71 \<and> slot_state k i \<notin> {None, Some Terminated}}"
    by (rule Collect_cong) (use st in \<open>auto split: if_splits\<close>)
  finally have c: "alive_count ?k = card {i. i < MAX_TASKS \<and> i \<noteq> 71 \<and> slot_state k i \<notin> {None, Some Terminated}}" .
  have "task_gone ?k 71" using st [OF m] by (auto simp: task_gone_def slot_state_def split: option.splits)
  then have "cmd_fault_spawn entry (only_faults [g]) k = Ret ((True, alive_count ?k), ?k)"
    using k1(1) by (simp add: cmd_fault_spawn_def Let_def)
  then show ?thesis using f st c p by (intro exI [of _ "alive_count ?k"] exI [of _ ?k]) simp
qed

subsection \<open>A user task that never yields\<close>

text \<open>
  \<open>while ticks - start < 50 { yield_cpu() }\<close>; the value \<open>None\<close> is a loop that does not end.
\<close>

partial_function (option) yield_ticks :: "(nat \<Rightarrow> kernel \<Rightarrow> kernel) \<Rightarrow> u64 \<Rightarrow> nat \<Rightarrow> kernel \<Rightarrow> kernel option" where
  "yield_ticks others start y k =
     (if ticks (preempt k) - start < 50 then yield_ticks others start (Suc y) (others y (yield_cpu k)) else Some k)"

definition cmd_preempt_user :: "(nat \<Rightarrow> kernel \<Rightarrow> kernel) \<Rightarrow> kernel \<Rightarrow> (u64 \<times> kernel) option run" where
  "cmd_preempt_user others k =
     (let originally_armed = armed (preempt k);
          start_preempts = preemptions (preempt k);
          start_ticks = ticks (preempt k)
      in run_bind (spawn_preempt_user_task 72 CapTable_new k) (\<lambda>(t, k).
           let k = set_armed True (set_slot 72 (Some t) k)
           in Ret (case yield_ticks others start_ticks 0 k of
                     None \<Rightarrow> None
                   | Some k \<Rightarrow>
                       let k = set_armed originally_armed k;
                           k = (set_slot 72 None k)\<lparr>tasks_terminated := tasks_terminated k + 1\<rparr>
                       in Some (preemptions (preempt k) - start_preempts, k))))"

subsection \<open>Frames are never given back\<close>

text \<open>From \<open>m\<close> to \<open>m'\<close> at least \<open>j\<close> frames have been taken.\<close>

definition takes :: "nat \<Rightarrow> machine \<Rightarrow> machine \<Rightarrow> bool" where
  "takes j m m' \<longleftrightarrow> (frames_inv m \<longrightarrow> frames_inv m' \<and> usable_end m' = usable_end m \<and>
     unat (next_free_paddr m) + j * 4096 \<le> unat (next_free_paddr m'))"

lemma takes_trans: "takes i a b \<Longrightarrow> takes j b c \<Longrightarrow> takes (i + j) a c"
  by (auto simp: takes_def)

lemma takes_less: "takes j a b \<Longrightarrow> takes 0 a b"
  by (auto simp: takes_def)

lemma takes_same:
  "next_free_paddr m' = next_free_paddr m \<Longrightarrow> usable_end m' = usable_end m \<Longrightarrow> takes 0 m m'"
  by (simp add: takes_def frames_inv_def)

lemma allocate_takes: "allocate_frame m = (Some p, m') \<Longrightarrow> takes 1 m m'"
  using allocate_frame_Some [of m p m'] by (auto simp: takes_def)

lemma allocate_none_takes: "allocate_frame m = (r, m') \<Longrightarrow> takes 0 m m'"
  using allocate_takes [of m _ m'] by (cases r) (auto simp: allocate_frame_def takes_def split: if_splits dest: takes_less)

lemma entry_fields [simp]:
  "next_free_paddr (write_entry t i v m) = next_free_paddr m" "usable_end (write_entry t i v m) = usable_end m"
  "next_free_paddr (zero_page b m) = next_free_paddr m" "usable_end (zero_page b m) = usable_end m"
  by (simp_all add: write_entry_def zero_page_def)

lemma takes_fields [simp]: "takes j a (write_entry t i v m) = takes j a m" "takes j a (zero_page b m) = takes j a m"
  by (simp_all add: takes_def frames_inv_def)

lemma table_takes: "get_or_create_table_user t i h m = (r, m') \<Longrightarrow> takes 0 m m'"
  unfolding get_or_create_table_user_def Let_def
  by (auto split: if_splits prod.splits option.splits dest: allocate_none_takes intro: takes_same)

lemma map_takes: "map_page_user_into pml4 v p w m = (r, m') \<Longrightarrow> takes 0 m m'"
  unfolding map_page_user_into_def Let_def
  by (auto split: prod.splits option.splits dest!: table_takes intro: takes_same takes_trans [of 0 _ _ 0, simplified])

lemma new_space_takes: "new_address_space m = (Some p, m') \<Longrightarrow> takes 1 m m'"
proof -
  have f: "takes j a (fold (\<lambda>i m. write_entry t (g i) (r i m) m) xs m) = takes j a m" for j a t g r m and xs :: "nat list"
    by (induction xs arbitrary: m) simp_all
  assume n: "new_address_space m = (Some p, m')"
  obtain r m1 where a: "allocate_frame m = (r, m1)" by (cases "allocate_frame m")
  have "r \<noteq> None"
  proof
    assume "r = None"
    then show False using n a by (simp add: new_address_space_def)
  qed
  then obtain q where r: "r = Some q" by auto
  then have t: "takes 1 m m1" using a allocate_takes [of m q m1] by simp
  let ?c = "current_pml4_paddr m1 + hhdm_offset m" and ?t = "q + hhdm_offset m"
  have "m' = fold (\<lambda>i m. write_entry ?t (of_nat i) (read_entry m ?c (of_nat i)) m) [256..<512] (zero_page ?t m1)"
    using n unfolding new_address_space_def Let_def a r by (simp only: prod.case option.case prod.inject)
  then show "takes 1 m m'" using t by (simp only: f takes_fields)
qed

lemma store_takes: "takes j a (store_at x b m) = takes j a m"
  unfolding takes_def frames_inv_def store_at_def Let_def by simp

lemma copy_takes [simp]: "takes j a (copy_blob d blob m) = takes j a m"
proof -
  have "takes j a (fold (\<lambda>(i, b) m. store_at (d + of_nat i) b m) xs m) = takes j a m" for xs
  proof (induction xs arbitrary: m)
    case (Cons x xs)
    then show ?case by (cases x) (simp only: fold_simps prod.case o_def store_takes)
  qed simp
  then show ?thesis unfolding copy_blob_def .
qed

lemma push_takes: "takes j a (snd (stack_push v s)) = takes j a (snd s)"
  by (cases s) (simp add: takes_def frames_inv_def stack_push_def)

lemma pushes_take: "takes j a (snd (fold stack_push vs s)) = takes j a (snd s)"
  by (induction vs arbitrary: s) (simp_all only: fold_simps push_takes)

lemma Task_new_user_takes:
  assumes "Task_new_user i e st p caps k = Ret (t, k')" "takes j a (mach k)"
  shows "takes j a (mach k')"
proof -
  let ?vs = "[ucast USER_DATA, st, 0x202, ucast USER_CODE, e, iret_to_user (k_layout k), 0x202] @ replicate 6 0"
  obtain sp m where f: "fold stack_push ?vs (stack_top_of (k_layout k) i, mach k) = (sp, m)"
    by (cases "fold stack_push ?vs (stack_top_of (k_layout k) i, mach k)")
  have "mach k' = m"
    using assms(1) f unfolding Task_new_user_def Let_def by (simp only: kernel.simps split: if_splits) auto
  then show ?thesis using pushes_take [of j a ?vs "(stack_top_of (k_layout k) i, mach k)"] f assms(2) by simp
qed

text \<open>A spawn that succeeds takes three frames at least.\<close>

lemma spawn_user_takes:
  assumes "spawn_user i blob caps k = Ret (t, k')"
  shows "takes 3 (mach k) (mach k')"
proof -
  have ex: "expect x = Ret (v, m) \<longleftrightarrow> x = (Some v, m)" for x :: "'x option \<times> machine" and v m
    by (cases x; cases "fst x") (auto simp: expect_def)
  obtain pml4 m1 c m2 s m3 m4 m5 where r:
    "new_address_space (mach k) = (Some pml4, m1)" "allocate_frame m1 = (Some c, m2)" "allocate_frame m2 = (Some s, m3)"
    "map_page_user_into pml4 USER_CODE_VADDR c True m3 = (Some (), m4)" "map_page_user_into pml4 USER_STACK_VADDR s True m4 = (Some (), m5)"
    and t: "Task_new_user i USER_CODE_VADDR USER_STACK_TOP pml4 caps (k\<lparr>mach := copy_blob (c + hhdm_offset m5) blob m5\<rparr>) = Ret (t, k')"
    using assms unfolding spawn_user_def Let_def by (auto simp: run_bind_Ret_iff ex split: prod.splits)
  have "takes (1 + (1 + (1 + (0 + 0)))) (mach k) m5"
    by (rule takes_trans [OF new_space_takes [OF r(1)] takes_trans [OF allocate_takes [OF r(2)] takes_trans [OF allocate_takes [OF r(3)]
          takes_trans [OF map_takes [OF r(4)] map_takes [OF r(5)]]]]])
  then have "takes 3 (mach k) m5" by (simp only: takes_def) simp
  then show ?thesis using Task_new_user_takes [OF t, of 3 "mach k"] by simp
qed

lemma yield_takes: "takes j a (mach (yield_cpu k)) = takes j a (mach k)"
proof -
  have sw: "takes j a (cli m) = takes j a m" "takes j a (sti m) = takes j a m" "takes j a (enter_task x y m) = takes j a m"
    "takes j a (snd (switch_save r m)) = takes j a m" "takes j a (switch_load sp m) = takes j a m" for x y r sp m
    by (simp_all add: takes_def frames_inv_def cli_def sti_def enter_task_def set_kernel_stack_def switch_address_space_def Let_def
        switch_save_def switch_load_def push_val_def pop_val_def)
  have sv: "switch_save r m = (sp, m') \<Longrightarrow> takes j a m' = takes j a m" for r m sp m' using sw(4) [of r m] by simp
  have md: "mach (modify_slot i f q) = mach q" for i f q by (simp add: modify_slot_def set_slot_def split: option.split)
  have lt: "mach (log_trace s x y q) = mach q" for s x y and q :: kernel by (simp add: log_trace_def)
  show ?thesis
    by (auto simp: yield_cpu_def Let_def hand_over_def switch_context_def sw md lt dest!: sv split: option.splits prod.splits)
qed

definition keeps_frames :: "(nat \<Rightarrow> kernel \<Rightarrow> kernel) \<Rightarrow> bool" where
  "keeps_frames others \<longleftrightarrow> (\<forall>y k. takes 0 (mach k) (mach (others y k)))"

lemma yield_ticks_takes:
  assumes "keeps_frames others" "yield_ticks others start y k = Some k'"
  shows "takes 0 (mach k) (mach k')"
proof -
  have "keeps_frames others \<longrightarrow> takes 0 (mach k) (mach k')"
  proof (rule yield_ticks.raw_induct [where P = "\<lambda>others start y k k'. keeps_frames others \<longrightarrow> takes 0 (mach k) (mach k')", OF _ assms(2)], rule impI)
    fix f others start y k k'
    assume ih: "\<And>others start y k k'. f others start y k = Some k' \<Longrightarrow> keeps_frames others \<longrightarrow> takes 0 (mach k) (mach k')"
      and step: "(if ticks (preempt k) - start < 50 then f others start (Suc y) (others y (yield_cpu k)) else Some k) = Some k'"
      and kf: "keeps_frames others"
    have r: "takes 0 (mach k) (mach k)" by (rule takes_same) simp_all
    show "takes 0 (mach k) (mach k')"
    proof (cases "ticks (preempt k) - start < 50")
      case True
      have "takes 0 (mach (others y (yield_cpu k))) (mach k')" using ih [of others start "Suc y"] step True kf by simp
      moreover have "takes 0 (mach (yield_cpu k)) (mach (others y (yield_cpu k)))" using kf by (simp add: keeps_frames_def)
      moreover have "takes 0 (mach k) (mach (yield_cpu k))" using r by (simp add: yield_takes)
      ultimately show ?thesis by (metis takes_trans add_0)
    qed (use step r in simp)
  qed
  then show ?thesis using assms(1) by simp
qed

lemma cmd_preempt_user_takes:
  assumes "keeps_frames others" "cmd_preempt_user others k = Ret (Some (d, k'))"
  shows "takes 3 (mach k) (mach k')"
proof -
  obtain t k1 where s: "spawn_preempt_user_task 72 CapTable_new k = Ret (t, k1)"
    using assms(2) by (auto simp: cmd_preempt_user_def run_bind_Ret_iff Let_def)
  then have 1: "takes 3 (mach k) (mach k1)" by (simp add: spawn_preempt_user_task_def spawn_user_takes)
  obtain k2 where y: "yield_ticks others (ticks (preempt k)) 0 (set_armed True (set_slot 72 (Some t) k1)) = Some k2"
    and k': "mach k' = mach k2"
    using assms(2) s by (auto simp: cmd_preempt_user_def Let_def set_armed_def set_slot_def split: option.splits)
  have "takes 0 (mach k1) (mach k2)" using yield_ticks_takes [OF assms(1) y] by (simp add: set_armed_def set_slot_def)
  then show ?thesis using takes_trans [OF 1, of 0 "mach k2"] k' by simp
qed

primrec preempt_user_runs :: "(nat \<Rightarrow> kernel \<Rightarrow> kernel) \<Rightarrow> nat \<Rightarrow> kernel \<Rightarrow> kernel option run" where
  "preempt_user_runs others 0 k = Ret (Some k)"
| "preempt_user_runs others (Suc n) k =
     run_bind (preempt_user_runs others n k) (\<lambda>r.
       case r of
         None \<Rightarrow> Ret None
       | Some k \<Rightarrow> run_bind (cmd_preempt_user others k) (\<lambda>r. Ret (map_option snd r)))"

text \<open>
  The command \<open>sched preempt-user\<close> uses memory up for good.  However many frames there are, it can complete only so many
  times: when \<open>n\<close> runs would need three frames each and fewer are left, the runs do not complete, because a spawn that finds
  no frame panics.
\<close>

theorem preempt_user_exhausts_frames:
  assumes "frames_inv (mach k)" "keeps_frames others"
    and "unat (usable_end (mach k)) < unat (next_free_paddr (mach k)) + n * 3 * 4096"
  shows "preempt_user_runs others n k \<noteq> Ret (Some k')"
proof
  have *: "takes (n * 3) (mach k) (mach k')" if "preempt_user_runs others n k = Ret (Some k')" for n k'
    using that
  proof (induction n arbitrary: k')
    case 0
    then show ?case by (auto intro: takes_same)
  next
    case (Suc n)
    then obtain k1 d where "preempt_user_runs others n k = Ret (Some k1)" "cmd_preempt_user others k1 = Ret (Some (d, k'))"
      by (auto simp: run_bind_Ret_iff split: option.splits)
    then have "takes (n * 3 + 3) (mach k) (mach k')" using takes_trans [OF Suc.IH cmd_preempt_user_takes [OF assms(2)]] by blast
    then show ?case by (simp add: add.commute)
  qed
  assume "preempt_user_runs others n k = Ret (Some k')"
  from * [OF this] assms(1) have "frames_inv (mach k')" "usable_end (mach k') = usable_end (mach k)"
    "unat (next_free_paddr (mach k)) + n * 3 * 4096 \<le> unat (next_free_paddr (mach k'))" by (simp_all add: takes_def)
  then show False using assms(3) by (simp add: frames_inv_def word_le_nat_alt)
qed

end
