(* ===== verification/Shell_Monitor.thy ===== *)
theory Shell_Monitor
  imports Shell_Faults Boot Arch_Sim
begin

text \<open>
  The commands of the shell that observe the kernel, \<open>dispatch\<close> of \<open>shell/mod.rs\<close>: \<open>trace\<close> with
  \<open>print_trace_summary\<close>, \<open>watch\<close>, \<open>smp ping\<close>, \<open>arch cache-sim\<close> and \<open>arch pipeline-sim\<close>.
  The command that \<open>trace\<close> and \<open>watch\<close> run is a parameter, as is what interrupts, other tasks and other processors do
  while the shell waits.
\<close>

subsection \<open>Tracing a command\<close>

text \<open>The lines of the summary.  Operations of services are printed by name, with the number for an unknown one dropped.\<close>

datatype trace_line =
    SwitchLine string u64 u64
  | SendLine bool u64 u64
  | ReceiveLine bool u64
  | FaultLine u64 u64
  | CapInsertLine u64 u64
  | CapLookupLine u64 u64
  | CapRevokeLine u64 u64
  | OpLine string string u64
  | OtherLine string u64 u64

definition op_name :: "string list \<Rightarrow> u64 \<Rightarrow> string" where
  "op_name names p = (if unat p < length names then names ! unat p else ''unknown'')"

definition describe :: "trace_event \<Rightarrow> trace_line" where
  "describe ev =
     (let msg = te_msg ev; p1 = te_param1 ev; p2 = te_param2 ev in
      if msg = ''sched_switch_yield'' \<or> msg = ''sched_switch_preempt'' \<or> msg = ''sched_switch_term'' then
        SwitchLine (if msg = ''sched_switch_yield'' then ''yield'' else if msg = ''sched_switch_preempt'' then ''preempt'' else ''term'') p1 p2
      else if msg = ''ipc_send'' \<or> msg = ''ipc_send_async'' then SendLine (msg = ''ipc_send_async'') p1 p2
      else if msg = ''ipc_receive'' \<or> msg = ''ipc_receive_async'' then ReceiveLine (msg = ''ipc_receive_async'') p1
      else if msg = ''cpu_exception'' then FaultLine p1 p2
      else if msg = ''cap_insert'' then CapInsertLine p1 p2
      else if msg = ''cap_lookup'' then CapLookupLine p1 p2
      else if msg = ''cap_revoke'' then CapRevokeLine p1 p2
      else if msg = ''fs_op'' then OpLine ''fs'' (op_name [''mkdir'', ''write'', ''read'', ''ls'', ''delete'', ''stat''] p1) p2
      else if msg = ''dev_op'' then OpLine ''dev'' (op_name [''read'', ''write''] p1) p2
      else if msg = ''sync_op'' then OpLine ''sync'' (op_name [''create'', ''acquire'', ''release''] p1) p2
      else OtherLine msg p1 p2)"

record trace_summary =
  events_captured :: u64
  event_lines :: "(u64 \<times> trace_line) list"
  overflow_warning :: bool

definition print_trace_summary :: "trace_state \<Rightarrow> trace_summary" where
  "print_trace_summary ts =
     \<lparr>events_captured = next_idx ts, event_lines = map (\<lambda>ev. (te_tick ev, describe ev)) (trace_window ts),
      overflow_warning = (unat (next_idx ts) > TRACE_BUFFER_SIZE)\<rparr>"

text \<open>\<open>trace\<close>: the rest of the line from its sixth byte is run with the ring emptied and recording.  The value \<open>None\<close> is the
  refusal of an empty command.\<close>

definition start_tracing :: "kernel \<Rightarrow> kernel" where
  "start_tracing k = k\<lparr>trace := (trace k)\<lparr>next_idx := 0, trace_overflow := False, tracing_active := True\<rparr>\<rparr>"

definition cmd_trace :: "(bytes \<Rightarrow> kernel \<Rightarrow> 'r \<times> kernel) \<Rightarrow> bytes \<Rightarrow> kernel \<Rightarrow> ('r \<times> trace_summary) option \<times> kernel" where
  "cmd_trace dispatch line k =
     (let sub_line = dropWhile is_space (drop 5 line) in
      if sub_line = [] then (None, k)
      else
        let (res, k) = dispatch sub_line (start_tracing k);
            k = k\<lparr>trace := (trace k)\<lparr>tracing_active := False\<rparr>\<rparr>
        in (Some (res, print_trace_summary (trace k)), k))"

text \<open>What \<open>trace\<close> prints.  If the command traced records the events \<open>es\<close>, in whatever order the tasks that run in between record
  them, the summary counts all of them, lists the last 128 in the order in which they happened and warns exactly when some
  are missing; nothing recorded earlier shows, and recording is off again.\<close>

definition records :: "trace_event list \<Rightarrow> (kernel \<Rightarrow> 'r \<times> kernel) \<Rightarrow> kernel \<Rightarrow> bool" where
  "records es f k \<longleftrightarrow> trace (snd (f k)) = fold trace_push es (trace k)"

lemma next_idx_pushes: "next_idx (fold trace_push es ts) = next_idx ts + of_nat (length es)"
  by (induction es arbitrary: ts) (simp_all add: trace_push_def)

theorem trace_prints_the_last_events:
  assumes "length (trace_buffer (trace k)) = TRACE_BUFFER_SIZE" and "tail_ok cmd" and "length es < 2 ^ 64"
    and "records es (dispatch cmd) (start_tracing k)"
  shows "\<exists>k'. cmd_trace dispatch (ascii ''trace '' @ cmd) k =
      (Some (fst (dispatch cmd (start_tracing k)),
         \<lparr>events_captured = of_nat (length es), event_lines = map (\<lambda>ev. (te_tick ev, describe ev)) (last_n 128 es),
          overflow_warning = (length es > 128)\<rparr>), k') \<and> \<not> tracing_active (trace k')"
proof -
  let ?t0 = "(trace k)\<lparr>next_idx := 0, trace_overflow := False, tracing_active := True\<rparr>"
  let ?k0 = "start_tracing k"
  have sub: "dropWhile is_space (drop 5 (ascii ''trace '' @ cmd)) = cmd" "cmd \<noteq> []"
    using dropWhile_tail [OF assms(2)] assms(2) by (simp_all add: ascii_def is_space_def tail_ok_def)
  have t: "trace (snd (dispatch cmd ?k0)) = fold trace_push es ?t0"
    using assms(4) by (simp add: records_def start_tracing_def)
  have w: "trace_window ?t0 = []" by (simp add: trace_window_def)
  have "trace_window (fold trace_push es ?t0) = last_n TRACE_BUFFER_SIZE es"
    using trace_ring.pushes_contents [of ?t0 es] assms(1,3) w by (simp add: trace_inv_def trace_room_def)
  moreover have "trace_window (ts\<lparr>tracing_active := b\<rparr>) = trace_window ts" for ts b by (simp add: trace_window_def)
  moreover have "unat (of_nat (length es) :: u64) = length es" using assms(3) by (simp add: unat_of_nat take_bit_nat_eq_self)
  ultimately show ?thesis
    using sub t by (simp add: cmd_trace_def print_trace_summary_def next_idx_pushes split_def Let_def TRACE_BUFFER_SIZE_def)
qed

theorem trace_prints_the_last_events_witness:
  "\<exists>k' s. cmd_trace (\<lambda>_ k. ((), log_trace ''fs_op'' 1 0 k)) (ascii ''trace fs'') (sample_kernel Ready) = (Some ((), s), k')
     \<and> events_captured s = 1 \<and> map snd (event_lines s) = [OpLine ''fs'' ''write'' 0] \<and> \<not> overflow_warning s"
proof -
  let ?k = "sample_kernel Ready"
  let ?e = "\<lparr>te_tick = ticks (preempt ?k), te_msg = ''fs_op'', te_param1 = 1, te_param2 = 0\<rparr>"
  have "length (trace_buffer (trace ?k)) = TRACE_BUFFER_SIZE" by (simp add: sample_kernel_def initial_kernel_def trace_init_def set_slot_def)
  moreover have "tail_ok (ascii ''fs'')" by (simp add: tail_ok_def ascii_def is_space_def)
  moreover have "records [?e] (\<lambda>k. ((), log_trace ''fs_op'' 1 0 k)) (start_tracing ?k)"
    by (simp add: records_def start_tracing_def log_trace_def)
  ultimately obtain k' where "cmd_trace (\<lambda>_ k. ((), log_trace ''fs_op'' 1 0 k)) (ascii ''trace '' @ ascii ''fs'') ?k =
      (Some ((), \<lparr>events_captured = of_nat (length [?e]), event_lines = map (\<lambda>ev. (te_tick ev, describe ev)) (last_n 128 [?e]),
          overflow_warning = (length [?e] > 128)\<rparr>), k')"
    using trace_prints_the_last_events [of ?k "ascii ''fs''" "[?e]" "\<lambda>_ k. ((), log_trace ''fs_op'' 1 0 k)"] by auto
  moreover have "describe ?e = OpLine ''fs'' ''write'' 0" by (simp add: describe_def op_name_def)
  ultimately show ?thesis by (simp add: ascii_def last_n_def)
qed

text \<open>The command to trace is taken from the sixth byte of the line as it was typed, so a line that begins with a space runs something else.\<close>

theorem trace_misreads_leading_space:
  "\<exists>s. fst (cmd_trace (\<lambda>c k. (c, k)) (ascii '' trace fs'') k) = Some (ascii ''e fs'', s)"
  by (simp add: cmd_trace_def ascii_def is_space_def Let_def)

subsection \<open>Watching a command\<close>

text \<open>The command to watch and its interval: with three words the second is the command; with four it is the part of the line
  from the second word to the end of the third.  A token that is not there would be an \<open>unwrap\<close> of nothing, which
  the number of tokens excludes.\<close>

definition watch_args :: "bytes \<Rightarrow> (bytes \<times> bytes) option" where
  "watch_args line =
     (let tokens = snd (tokenize line [None, None, None, None]);
          cnt = fst (tokenize line [None, None, None, None]);
          rest = dropWhile is_space (dropWhile (\<lambda>b. \<not> is_space b) (dropWhile is_space line));
          after = dropWhile (\<lambda>b. \<not> is_space b) (dropWhile is_space (dropWhile (\<lambda>b. \<not> is_space b) rest))
      in if cnt = 4 then Some (take (length rest - length after) rest, the (tokens ! 3))
         else if cnt = 3 then Some (the (tokens ! 1), the (tokens ! 2))
         else None)"

text \<open>The loop that waits for the next round.  \<open>env\<close> is what interrupts do between the two readings of the tick counter in an
  iteration, \<open>others\<close> what happens from a yield of the shell to its next turn, and \<open>keys\<close> says at which iterations a byte is there
  to read.  The result says whether a key ended the command; \<open>None\<close> is a loop that does not end.\<close>

partial_function (option) watch_wait ::
  "(nat \<Rightarrow> kernel \<Rightarrow> kernel) \<Rightarrow> (nat \<Rightarrow> kernel \<Rightarrow> kernel) \<Rightarrow> (nat \<Rightarrow> bool) \<Rightarrow> u64 \<Rightarrow> u64 \<Rightarrow> u64 \<Rightarrow> nat \<Rightarrow> kernel \<Rightarrow> (bool \<times> nat \<times> kernel) option" where
  "watch_wait env others keys interval wait_start last_wait_tick n k =
     (if ticks (preempt k) - wait_start < interval then
        (if ticks (preempt (env n k)) \<noteq> last_wait_tick \<and> keys n then Some (True, Suc n, env n k)
         else watch_wait env others keys interval wait_start (ticks (preempt (env n k))) (Suc n) (others n (yield_cpu (env n k))))
      else Some (False, n, k))"

text \<open>The rounds: run the command with its output caught, show it with the lines that changed marked, wait.\<close>

partial_function (option) watch_loop ::
  "(kernel \<Rightarrow> bytes \<times> kernel) \<Rightarrow> (nat \<Rightarrow> kernel \<Rightarrow> kernel) \<Rightarrow> (nat \<Rightarrow> kernel \<Rightarrow> kernel) \<Rightarrow> (nat \<Rightarrow> bool) \<Rightarrow> u64 \<Rightarrow>
     bytes \<Rightarrow> nat \<Rightarrow> kernel \<Rightarrow> ((bool \<times> bytes) list list \<times> kernel) option" where
  "watch_loop run env others keys interval prev n k =
     Option.bind (watch_wait env others keys interval (ticks (preempt (snd (run k)))) (ticks (preempt (snd (run k)))) n (snd (run k)))
       (\<lambda>(quit, n, k').
          if quit then Some ([watch_diff (take 1024 (fst (run k))) prev], k')
          else Option.bind (watch_loop run env others keys interval (take 1024 (fst (run k))) n k')
                 (\<lambda>(shown, k'). Some (watch_diff (take 1024 (fst (run k))) prev # shown, k')))"

datatype watch_result = WatchUsage | WatchBadNumber | WatchLeft "(bool \<times> bytes) list list" kernel

definition cmd_watch ::
  "(bytes \<Rightarrow> kernel \<Rightarrow> bytes \<times> kernel) \<Rightarrow> (nat \<Rightarrow> kernel \<Rightarrow> kernel) \<Rightarrow> (nat \<Rightarrow> kernel \<Rightarrow> kernel) \<Rightarrow> (nat \<Rightarrow> bool) \<Rightarrow> bytes \<Rightarrow> kernel \<Rightarrow> watch_result option" where
  "cmd_watch dispatch env others keys line k =
     (case watch_args line of
        None \<Rightarrow> Some WatchUsage
      | Some (sub_cmd, interval_tok) \<Rightarrow>
          (case parse_usize interval_tok of
             None \<Rightarrow> Some WatchBadNumber
           | Some interval \<Rightarrow>
               map_option (\<lambda>(shown, k). WatchLeft shown k) (watch_loop (dispatch sub_cmd) env others keys (of_nat interval) [] 0 k)))"


subsection \<open>Leaving a watched command\<close>

definition between_quiet :: "(nat \<Rightarrow> kernel \<Rightarrow> kernel) \<Rightarrow> bool" where
  "between_quiet env \<longleftrightarrow> (\<forall>n k. ticks (preempt (env n k)) = ticks (preempt k))"

definition too_short :: "u64 \<Rightarrow> (nat \<Rightarrow> kernel \<Rightarrow> kernel) \<Rightarrow> bool" where
  "too_short interval env \<longleftrightarrow> interval = 0 \<or> interval = 1 \<and> between_quiet env"

lemma too_short_quiet: "too_short interval env \<Longrightarrow> ticks (preempt k) - start < interval \<Longrightarrow> ticks (preempt (env n k)) = start"
  by (auto simp: too_short_def between_quiet_def word_less_1)

lemma watch_wait_short:
  assumes "watch_wait env others keys interval start start n k = Some r" "too_short interval env"
  shows "\<not> fst r"
proof -
  have "too_short interval env \<and> start = start \<longrightarrow> \<not> fst r"
  proof (rule watch_wait.raw_induct [where P = "\<lambda>env _ _ interval start lst _ _ r. too_short interval env \<and> lst = start \<longrightarrow> \<not> fst r",
        OF _ assms(1)], intro impI, elim conjE)
    fix f env others keys n k and interval start lst :: u64 and r :: "bool \<times> nat \<times> kernel"
    assume ih: "\<And>env others keys interval start lst n k r. f env others keys interval start lst n k = Some r \<Longrightarrow>
        too_short interval env \<and> lst = start \<longrightarrow> \<not> fst r"
      and step: "(if ticks (preempt k) - start < interval then
          if ticks (preempt (env n k)) \<noteq> lst \<and> keys n then Some (True, Suc n, env n k)
          else f env others keys interval start (ticks (preempt (env n k))) (Suc n) (others n (yield_cpu (env n k)))
        else Some (False, n, k)) = Some r"
      and c: "too_short interval env" "lst = start"
    show "\<not> fst r"
      using step c ih [of env others keys interval start start "Suc n" "others n (yield_cpu (env n k))" r] too_short_quiet [OF c(1)]
      by (auto split: if_splits)
  qed
  then show ?thesis using assms(2) by simp
qed

lemma watch_loop_stuck:
  assumes "too_short interval env"
  shows "watch_loop run env others keys interval prev n k = None"
proof (rule ccontr)
  assume "watch_loop run env others keys interval prev n k \<noteq> None"
  then obtain r where r: "watch_loop run env others keys interval prev n k = Some r" by blast
  have "\<not> too_short interval env"
  proof (rule watch_loop.raw_induct [where P = "\<lambda>_ env _ _ interval _ _ _ _. \<not> too_short interval env", OF _ r], rule notI)
    fix f env others keys n k and run :: "kernel \<Rightarrow> bytes \<times> kernel" and interval :: u64 and prev :: bytes
      and r :: "(bool \<times> bytes) list list \<times> kernel"
    let ?s = "ticks (preempt (snd (run k)))"
    assume ih: "\<And>run env others keys interval prev n k r. f run env others keys interval prev n k = Some r \<Longrightarrow> \<not> too_short interval env"
      and step: "Option.bind (watch_wait env others keys interval ?s ?s n (snd (run k)))
         (\<lambda>(quit, n, k'). if quit then Some ([watch_diff (take 1024 (fst (run k))) prev], k')
            else Option.bind (f run env others keys interval (take 1024 (fst (run k))) n k')
                   (\<lambda>(shown, k'). Some (watch_diff (take 1024 (fst (run k))) prev # shown, k'))) = Some r"
      and c: "too_short interval env"
    then obtain q n' k' where w: "watch_wait env others keys interval ?s ?s n (snd (run k)) = Some (q, n', k')"
      by (auto simp: bind_eq_Some_conv)
    have "\<not> q" using watch_wait_short [OF w c] by simp
    then show False using step w ih c by (auto simp: bind_eq_Some_conv)
  qed
  then show False using assms by simp
qed

text \<open>An iteration of the waiting loop without a key, and several.\<close>

definition watch_pass :: "(nat \<Rightarrow> kernel \<Rightarrow> kernel) \<Rightarrow> (nat \<Rightarrow> kernel \<Rightarrow> kernel) \<Rightarrow> nat \<Rightarrow> kernel \<Rightarrow> kernel" where
  "watch_pass env others n k = others n (yield_cpu (env n k))"

primrec watch_passes :: "(nat \<Rightarrow> kernel \<Rightarrow> kernel) \<Rightarrow> (nat \<Rightarrow> kernel \<Rightarrow> kernel) \<Rightarrow> nat \<Rightarrow> nat \<Rightarrow> kernel \<Rightarrow> kernel" where
  "watch_passes env others 0 n k = k"
| "watch_passes env others (Suc m) n k = watch_passes env others m (Suc n) (watch_pass env others n k)"

text \<open>The clock of the loop: between two readings the counter moves by at most one tick, and in time it moves.\<close>

definition clock_runs :: "(nat \<Rightarrow> kernel \<Rightarrow> kernel) \<Rightarrow> (nat \<Rightarrow> kernel \<Rightarrow> kernel) \<Rightarrow> bool" where
  "clock_runs env others \<longleftrightarrow>
     (\<forall>n k. ticks (preempt (env n k)) - ticks (preempt k) \<le> 1 \<and> ticks (preempt (others n (yield_cpu k))) - ticks (preempt k) \<le> 1) \<and>
     (\<forall>n k. \<exists>m. ticks (preempt (watch_passes env others m n k)) \<noteq> ticks (preempt k))"

lemma one_tick: "(a :: u64) - b \<le> 1 \<Longrightarrow> a \<noteq> b \<Longrightarrow> a = b + 1"
proof -
  assume "a - b \<le> 1" "a \<noteq> b"
  then have "a - b = 1" by (metis eq_iff_diff_eq_0 order_le_less word_less_1)
  then show ?thesis by (metis add.commute diff_add_cancel)
qed

lemma watch_wait_key:
  assumes "clock_runs env others" "\<forall>i. keys i" "2 \<le> interval" "ticks (preempt k) = start"
    and "ticks (preempt (watch_passes env others m n k)) \<noteq> start"
  shows "\<exists>n' k'. watch_wait env others keys interval start start n k = Some (True, n', k')"
  using assms(4,5)
proof (induction m arbitrary: n k)
  case 0
  then show ?case by simp
next
  case (Suc m)
  let ?e = "env n k" and ?k = "watch_pass env others n k"
  have 2: "0 < interval" "1 < interval" using assms(3) by unat_arith+
  have unf: "watch_wait env others keys interval start start n k =
      (if ticks (preempt ?e) \<noteq> start then Some (True, Suc n, ?e)
       else watch_wait env others keys interval start start (Suc n) ?k)"
    using Suc.prems(1) assms(2) 2 by (subst watch_wait.simps) (auto simp: watch_pass_def)
  consider "ticks (preempt ?e) \<noteq> start" | "ticks (preempt ?e) = start" "ticks (preempt ?k) = start"
    | "ticks (preempt ?e) = start" "ticks (preempt ?k) \<noteq> start" by blast
  then show ?case
  proof cases
    case 1
    then show ?thesis using unf by simp
  next
    case 2
    then show ?thesis using unf Suc.IH [of ?k "Suc n"] Suc.prems by auto
  next
    case 3
    have k: "ticks (preempt ?k) = start + 1"
      using assms(1) 3 one_tick [of "ticks (preempt ?k)" start] by (metis clock_runs_def watch_pass_def)
    have "ticks (preempt (env (Suc n) ?k)) - (start + 1) \<le> 1" using assms(1) k by (metis clock_runs_def)
    moreover have "\<not> (start - (start + 1) \<le> 1)" by (simp add: word_order.extremum_unique)
    ultimately have "ticks (preempt (env (Suc n) ?k)) \<noteq> start" by metis
    then have "watch_wait env others keys interval start start (Suc n) ?k = Some (True, Suc (Suc n), env (Suc n) ?k)"
      using k 2 assms(2) by (subst watch_wait.simps) simp
    then show ?thesis using unf 3(1) by simp
  qed
qed

text \<open>Leaving a watched command.  With an interval of two ticks or more, a key that is waiting ends the command after its
  first round, whatever the command and the other tasks do, as long as the clock runs.  With an interval of
  nothing it never ends, and with an interval of one tick neither, unless a tick falls between the two
  readings of the counter in one iteration: the keyboard is looked at only when the counter has moved, and by then the wait is over.\<close>


theorem watch_leaves_on_key:
  assumes "watch_args line = Some (cmd, tok)" "parse_usize tok = Some interval"
    and "2 \<le> interval" "clock_runs env others" "\<forall>i. keys i"
  shows "\<exists>k'. cmd_watch dispatch env others keys line k = Some (WatchLeft [watch_diff (take 1024 (fst (dispatch cmd k))) []] k')"
proof -
  have "interval < 2 ^ 64" using assms(2) parse_usize_is_decimal [of tok] by (auto simp: usize_MAX_def split: if_splits)
  then have i: "2 \<le> (of_nat interval :: u64)" using assms(3) by (simp add: word_le_nat_alt unat_of_nat take_bit_nat_eq_self)
  let ?k = "snd (dispatch cmd k)"
  obtain m where "ticks (preempt (watch_passes env others m 0 ?k)) \<noteq> ticks (preempt ?k)"
    using assms(4) unfolding clock_runs_def by blast
  from watch_wait_key [OF assms(4,5) i refl this] show ?thesis
    using assms(1,2) by (auto simp: cmd_watch_def watch_loop.simps)
qed

theorem watch_short_interval_stuck:
  assumes "watch_args line = Some (cmd, tok)" "parse_usize tok = Some interval"
    and "interval = 0 \<or> interval = 1 \<and> between_quiet env"
  shows "cmd_watch dispatch env others keys line k = None"
proof -
  have "too_short (of_nat interval) env" using assms(3) by (auto simp: too_short_def)
  from watch_loop_stuck [OF this] show ?thesis using assms(1,2) by (simp add: cmd_watch_def)
qed

definition one_more_tick :: "nat \<Rightarrow> kernel \<Rightarrow> kernel" where
  "one_more_tick n k = k\<lparr>preempt := (preempt k)\<lparr>ticks := ticks (preempt k) + 1\<rparr>\<rparr>"

lemma clock_runs_sample: "clock_runs (\<lambda>_ k. k) one_more_tick"
proof -
  have "ticks (preempt (watch_passes (\<lambda>_ k. k) one_more_tick 1 n k)) \<noteq> ticks (preempt k)" for n k
    by (simp add: one_more_tick_def watch_pass_def preempt_yield)
  then have "\<exists>m. ticks (preempt (watch_passes (\<lambda>_ k. k) one_more_tick m n k)) \<noteq> ticks (preempt k)" for n k by blast
  then show ?thesis by (simp add: clock_runs_def one_more_tick_def preempt_yield)
qed

lemma watch_args_sample: "watch_args (ascii ''watch fs ls 5'') = Some (ascii ''fs ls'', ascii ''5'')"
  "watch_args (ascii ''watch perf 0'') = Some (ascii ''perf'', ascii ''0'')"
  by code_simp+

theorem watch_leaves_on_key_witness:
  "\<exists>k'. cmd_watch (\<lambda>c k. (c, k)) (\<lambda>_ k. k) one_more_tick (\<lambda>_. True) (ascii ''watch fs ls 5'') (sample_kernel Ready) =
     Some (WatchLeft [[(True, ascii ''fs ls'')]] k')"
proof -
  have "parse_usize (ascii ''5'') = Some 5" by (simp add: parse_usize_is_decimal digits_val_def ascii_def)
  moreover have "watch_diff (take 1024 (ascii ''fs ls'')) [] = [(True, ascii ''fs ls'')]" by code_simp
  ultimately show ?thesis
    using watch_leaves_on_key [OF watch_args_sample(1) _ _ clock_runs_sample, of 5 "\<lambda>_. True" "\<lambda>c k. (c, k)" "sample_kernel Ready"] by auto
qed

theorem watch_short_interval_stuck_witness:
  "cmd_watch (\<lambda>c k. (c, k)) (\<lambda>_ k. k) one_more_tick (\<lambda>_. True) (ascii ''watch perf 0'') (sample_kernel Ready) = None"
proof -
  have "parse_usize (ascii ''0'') = Some 0" by (simp add: parse_usize_is_decimal digits_val_def ascii_def)
  then show ?thesis
    using watch_short_interval_stuck [OF watch_args_sample(2), of 0] by blast
qed

subsection \<open>Other processors\<close>

datatype ping_report = NoMpResponse | NoAp | PingAcked mp_info u64 | PingTimeout mp_info

text \<open>The loop that waits for the acknowledgement; \<open>env\<close> is what the other processors do to the shared counter before each reading.\<close>

definition PING_BOUND :: nat where
  "PING_BOUND = 10000000"

primrec ping_wait :: "(nat \<Rightarrow> lapic_dev \<Rightarrow> lapic_dev) \<Rightarrow> u64 \<Rightarrow> nat \<Rightarrow> nat \<Rightarrow> lapic_dev \<Rightarrow> bool \<times> lapic_dev" where
  "ping_wait env prev_ack 0 n d = (False, d)"
| "ping_wait env prev_ack (Suc left) n d =
     (if IPI_ACK_COUNT (env n d) > prev_ack then (True, env n d) else ping_wait env prev_ack left (Suc n) (env n d))"

text \<open>\<open>smp ping\<close>, with the answer of the boot loader: the identifier of the boot processor and the list of processors.  The value \<open>None\<close>
  is a send that never gets the controller.\<close>

definition cmd_smp_ping ::
  "u64 \<Rightarrow> u32 list \<Rightarrow> (nat \<Rightarrow> lapic_dev \<Rightarrow> lapic_dev) \<Rightarrow> (u32 \<times> mp_info list) option \<Rightarrow> lapic_dev \<Rightarrow> (ping_report \<times> lapic_dev) option run" where
  "cmd_smp_ping hhdm status env response d =
     (case response of
        None \<Rightarrow> Ret (Some (NoMpResponse, d))
      | Some (bsp_lapic_id, cpus) \<Rightarrow>
          (case find (\<lambda>cpu. mp_lapic_id cpu \<noteq> bsp_lapic_id) cpus of
             None \<Rightarrow> Ret (Some (NoAp, d))
           | Some ap \<Rightarrow>
               let prev_ack = IPI_ACK_COUNT d in
               run_bind (send_ipi hhdm status (mp_lapic_id ap) 0x40 d) (\<lambda>r.
                 case r of
                   None \<Rightarrow> Ret None
                 | Some d \<Rightarrow>
                     (case ping_wait env prev_ack PING_BOUND 0 d of
                        (acked, d) \<Rightarrow>
                          let d = env PING_BOUND d in
                          Ret (Some (if acked then PingAcked ap (IPI_ACK_COUNT d) else PingTimeout ap, d))))))"

text \<open>The processor that is asked answers by its handler at the reading \<open>i\<close>, and no other interrupt of the kind is served.\<close>

definition answers_at :: "nat \<Rightarrow> nat \<Rightarrow> lapic_dev \<Rightarrow> lapic_dev" where
  "answers_at i n d = (if n = i then handle_ipi d else d)"

lemma ping_wait_answered:
  assumes "IPI_ACK_COUNT d = prev" "unat prev + 1 < 2 ^ 64" "n \<le> i"
  shows "ping_wait (answers_at i) prev m n d = (if i < n + m then (True, handle_ipi d) else (False, d))"
  using assms(3)
proof (induction m arbitrary: n)
  case (Suc m)
  have "prev < prev + 1" using assms(2) by (simp add: word_less_nat_alt word_succ_unat)
  then show ?case using Suc assms(1) by (auto simp: answers_at_def handle_ipi_def)
qed simp

text \<open>Pinging another processor.  The first processor of the list that is not the boot processor is sent exactly one interrupt with
  vector 0x40, and the boot processor none.  If its handler runs before the ten millionth reading of the counter, the command
  reports the acknowledgement; if it does not, the command ends all the same and reports that none came.\<close>

theorem smp_ping_reports_answer:
  assumes "lapic_base hhdm = Ret l" "\<exists>r \<in> set status. \<not> bit r 12" "unat (IPI_ACK_COUNT d) + 1 < 2 ^ 64"
    and "find (\<lambda>cpu. mp_lapic_id cpu \<noteq> bsp) cpus = Some ap"
  shows "\<exists>d'. cmd_smp_ping hhdm status (answers_at i) (Some (bsp, cpus)) d =
      Ret (Some (if i < PING_BOUND then PingAcked ap (IPI_ACK_COUNT d + 1) else PingTimeout ap, d')) \<and>
    ipis_sent l d' = ipis_sent l d @ [(mp_lapic_id ap AND 0xff, 0x40)] \<and> mp_lapic_id ap \<noteq> bsp"
proof -
  have "unat hhdm + 0xFEE00000 < 2 ^ 64" using assms(1) by (auto simp: lapic_base_def split: if_splits)
  from send_ipi_sends_once [OF this assms(2), of "mp_lapic_id ap" "0x40" d] obtain d1 where
    d1: "send_ipi hhdm status (mp_lapic_id ap) 0x40 d = Ret (Some d1)" "ipis_sent l d1 = ipis_sent l d @ [(mp_lapic_id ap AND 0xff, 0x40)]"
    using assms(1) by auto
  have c: "IPI_ACK_COUNT d1 = IPI_ACK_COUNT d"
    using d1(1) by (auto simp: send_ipi_def run_bind_Ret_iff Lapic_write_def Let_def split: if_splits)
  have s: "ipis_sent l (answers_at i n x) = ipis_sent l x" "ipis_sent l (handle_ipi x) = ipis_sent l x" for n x
    by (simp_all add: answers_at_def handle_ipi_def ipis_sent_def)
  have "mp_lapic_id ap \<noteq> bsp" using assms(4) by (auto simp: find_Some_iff)
  then show ?thesis
    using ping_wait_answered [OF c assms(3), of 0 i PING_BOUND] assms(4) d1 c s
    by (simp add: cmd_smp_ping_def Let_def) (auto simp: answers_at_def handle_ipi_def)
qed

theorem smp_ping_reports_answer_witness:
  "\<exists>d'. cmd_smp_ping 0xffff800000000000 [0x1000, 0] (answers_at 7)
       (Some (0, [\<lparr>processor_id = 0, mp_lapic_id = 0\<rparr>, \<lparr>processor_id = 1, mp_lapic_id = 2\<rparr>]))
       \<lparr>lapic_regs = (\<lambda>_. 0), lapic_writes = [], IPI_ACK_COUNT = 4\<rparr> =
     Ret (Some (PingAcked \<lparr>processor_id = 1, mp_lapic_id = 2\<rparr> 5, d'))"
proof -
  have "lapic_base 0xffff800000000000 = Ret \<lparr>lbase = 0xFFFF8000FEE00000\<rparr>" by (simp add: lapic_base_def)
  from smp_ping_reports_answer [OF this, of "[0x1000, 0]" "\<lparr>lapic_regs = (\<lambda>_. 0), lapic_writes = [], IPI_ACK_COUNT = 4\<rparr>" 0
      "[\<lparr>processor_id = 0, mp_lapic_id = 0\<rparr>, \<lparr>processor_id = 1, mp_lapic_id = 2\<rparr>]" "\<lparr>processor_id = 1, mp_lapic_id = 2\<rparr>" 7]
  show ?thesis by (auto simp: PING_BOUND_def)
qed

subsection \<open>The architecture simulators\<close>

text \<open>\<open>arch cache-sim\<close>.  The third argument is the rest of the line, which is split again.  There are 128 accesses, so the product in the
  rate does not overflow.\<close>

datatype cache_sim_report = CacheUsage | CacheBadNumber | CacheTooManyLines | CacheRan cache_stats nat

definition cmd_cache_sim :: "bytes \<Rightarrow> bytes \<Rightarrow> trace_state \<Rightarrow> cache_sim_report run" where
  "cmd_cache_sim tok2 tok3 ts =
     (let assoc_tok = takeWhile (\<lambda>b. \<not> is_space b) tok3;
          lines_tok = dropWhile is_space (dropWhile (\<lambda>b. \<not> is_space b) tok3)
      in if tok2 = [] \<or> tok3 = [] \<or> lines_tok = [] then Ret CacheUsage
         else case (parse_usize assoc_tok, parse_usize lines_tok) of
           (Some ways, Some lines) \<Rightarrow>
             if lines > 1024 then Ret CacheTooManyLines
             else run_bind (get_sim_addresses tok2 ts) (\<lambda>addrs.
                  run_bind (simulate_cache \<lparr>assoc = ways, num_lines = lines, line_bytes = 64\<rparr> addrs) (\<lambda>stats.
                    Ret (CacheRan stats (if accesses stats > 0 then hits stats * 100 div accesses stats else 0))))
         | _ \<Rightarrow> Ret CacheBadNumber)"

definition cmd_pipeline_sim :: "bytes \<Rightarrow> trace_state \<Rightarrow> (pipe_stats \<times> nat \<times> nat) option" where
  "cmd_pipeline_sim tok2 ts =
     (if tok2 = [] then None
      else
        let stats = simulate_pipeline (get_sim_instrs tok2 ts);
            cpi_hundreds = (if instrs stats > 0 then cycles stats * 100 div instrs stats else 100)
        in Some (stats, cpi_hundreds div 100, cpi_hundreds mod 100))"

text \<open>A set with room for every line that maps to it never evicts one, and misses each line once.\<close>

lemma lru_no_evict:
  assumes "finite R" "card R \<le> ways" "set refs \<subseteq> R" "\<forall>i. distinct (sets i) \<and> set (sets i) \<subseteq> {t. (i, t) \<in> R}"
  shows "count_list (lru_run ways refs sets) Evict = 0 \<and>
    count_list (lru_run ways refs sets) Fill \<le> card (R - {(i, t). t \<in> set (sets i)})"
  using assms(3,4)
proof (induction refs arbitrary: sets)
  case (Cons r refs)
  obtain i t where r: "r = (i, t)" by (cases r)
  let ?l = "sets i" and ?S = "{(i, t). t \<in> set (sets i)}"
  have small: "card T \<le> ways" if "T \<subseteq> {t. (i, t) \<in> R}" for T
  proof -
    have "card T = card ((\<lambda>t. (i, t)) ` T)" by (simp add: card_image inj_on_def)
    also have "\<dots> \<le> card R" using that assms(1) by (intro card_mono) auto
    finally show ?thesis using assms(2) by simp
  qed
  have t: "(i, t) \<in> R" "distinct ?l" "set ?l \<subseteq> {t. (i, t) \<in> R}" using Cons.prems r by auto
  have len: "length (t # removeAll t ?l) \<le> ways"
    using small [of "set (t # removeAll t ?l)"] t distinct_card [of "t # removeAll t ?l"] by (auto simp: distinct_removeAll)
  let ?s = "sets(i := t # removeAll t ?l)"
  have nx: "lru_run ways ((i, t) # refs) sets = (if t \<in> set ?l then Hit else Fill) # lru_run ways refs ?s"
    using len by (cases "t \<in> set ?l") (auto simp: removeAll_id)
  have ih: "count_list (lru_run ways refs ?s) Evict = 0 \<and>
      count_list (lru_run ways refs ?s) Fill \<le> card (R - {(j, u). u \<in> set (?s j)})"
    using Cons.prems t by (intro Cons.IH) (auto simp: distinct_removeAll)
  have eq: "R - {(j, u). u \<in> set (?s j)} = (R - ?S) - {(i, t)}" by (auto split: if_splits)
  show ?case
  proof (cases "t \<in> set ?l")
    case True
    then have "(R - ?S) - {(i, t)} = R - ?S" by auto
    then show ?thesis using ih nx r True eq by simp
  next
    case False
    then have "Suc (card ((R - ?S) - {(i, t)})) = card (R - ?S)" using t assms(1) by (intro card_Suc_Diff1) auto
    then show ?thesis using ih nx r False eq by simp
  qed
qed simp

text \<open>The references of a simulated run stay within twelve lines.\<close>

lemma sim_refs_bound:
  assumes "get_sim_addresses name ts = Ret addrs"
  obtains R where "finite R" "card R \<le> 12" "set (map (cache_ref b n) addrs) \<subseteq> R"
proof -
  let ?R = "cache_ref b n ` (\<lambda>l. of_nat (64 * l)) ` {..<12 :: nat}"
  have "card ?R \<le> card {..<12 :: nat}" by (rule order_trans [OF card_image_le card_image_le]) simp_all
  moreover have "set (map (cache_ref b n) addrs) \<subseteq> ?R" using sim_addresses_working_set [OF assms] by fastforce
  ultimately show ?thesis using that [of ?R] by simp
qed

text \<open>The cache simulator at the shell.  For every trace name, and every cache of at most 1024 lines with at least one way, the
  command reports 128 accesses, each a hit or a miss, and the rate of the hits.  A cache of twelve ways or more holds the whole
  working set that the names are mapped to: it evicts nothing, misses at most twelve times and reports ninety percent or more.\<close>

theorem cache_sim_command_reports:
  assumes "tok2 \<noteq> []" "word_ok a" "word_ok b" "parse_usize a = Some ways" "parse_usize b = Some lines"
    and "0 < ways" "ways \<le> lines" "lines \<le> 1024" "get_sim_addresses tok2 ts = Ret addrs"
  shows "\<exists>s rate. cmd_cache_sim tok2 (a @ 0x20 # b) ts = Ret (CacheRan s rate) \<and> accesses s = 128 \<and> hits s + misses s = 128 \<and>
     evictions s \<le> misses s \<and> rate \<le> 100 \<and> (12 \<le> ways \<longrightarrow> evictions s = 0 \<and> misses s \<le> 12 \<and> 90 \<le> rate)"
proof -
  let ?cfg = "\<lparr>assoc = ways, num_lines = lines, line_bytes = 64\<rparr>" and ?n = "lines div ways"
  let ?rs = "lru_outcomes ways ?n 64 addrs"
  have len: "length addrs = 128" using sim_addresses_working_set [OF assms(9)] by simp
  have sim: "simulate_cache ?cfg addrs = Ret \<lparr>accesses = 128, hits = count_list ?rs Hit,
      misses = count_list ?rs Fill + count_list ?rs Evict, evictions = count_list ?rs Evict\<rparr>"
    using simulate_cache_lru [of ?cfg addrs] assms len by (simp add: Let_def usize_MAX_def)
  have total: "count_list rs Hit + (count_list rs Fill + count_list rs Evict) = length rs" for rs
    by (induction rs) (auto intro: cache_outcome.exhaust)
  have sum: "count_list ?rs Hit + (count_list ?rs Fill + count_list ?rs Evict) = 128"
    using total [of ?rs] len by (simp add: lru_outcomes_def)
  obtain R where R: "finite R" "card R \<le> 12" "set (map (cache_ref 64 ?n) addrs) \<subseteq> R" by (rule sim_refs_bound [OF assms(9)])
  have big: "count_list ?rs Evict = 0 \<and> count_list ?rs Fill \<le> 12" if "12 \<le> ways"
  proof -
    have "card (R - {(i, t). t \<in> set []}) \<le> card R" using R(1) by (intro card_mono) auto
    then show ?thesis using lru_no_evict [OF R(1) order_trans [OF R(2) that] R(3), of "\<lambda>_. []"] R(2) by (simp add: lru_outcomes_def)
  qed
  have b: "b \<noteq> []" "dropWhile is_space (0x20 # b) = b"
    using assms(3) dropWhile_tail [OF word_tail_ok [OF assms(3)]] by (auto simp: word_ok_def is_space_def)
  have "cmd_cache_sim tok2 (a @ 0x20 # b) ts = Ret (CacheRan \<lparr>accesses = 128, hits = count_list ?rs Hit,
      misses = count_list ?rs Fill + count_list ?rs Evict, evictions = count_list ?rs Evict\<rparr> (count_list ?rs Hit * 100 div 128))"
    using assms sim b by (simp add: cmd_cache_sim_def takeWhile_word dropWhile_word)
  moreover have "count_list ?rs Hit * 100 div 128 \<le> 100" using sum by simp
  moreover have "90 \<le> count_list ?rs Hit * 100 div 128" if "12 \<le> ways"
  proof -
    have "116 \<le> count_list ?rs Hit" using sum big [OF that] by simp
    then show ?thesis by (simp add: less_eq_div_iff_mult_less_eq)
  qed
  ultimately show ?thesis using sum big by fastforce
qed

lemma raw_pairs_less: "prog \<noteq> [] \<Longrightarrow> raw_pairs prog < length prog"
  by (induction prog rule: raw_pairs.induct) auto

text \<open>The pipeline simulator at the shell: 128 instructions, and a count of cycles for each between 1.03 and 2.02.\<close>

theorem pipeline_command_reports:
  assumes "tok2 \<noteq> []"
  shows "\<exists>s cpi_int cpi_frac. cmd_pipeline_sim tok2 ts = Some (s, cpi_int, cpi_frac) \<and> instrs s = 128 \<and>
    stalls s = raw_pairs (get_sim_instrs tok2 ts) \<and> cycles s = 132 + stalls s \<and>
    103 \<le> 100 * cpi_int + cpi_frac \<and> 100 * cpi_int + cpi_frac \<le> 202 \<and> cpi_frac < 100"
proof -
  let ?p = "get_sim_instrs tok2 ts"
  have len: "length ?p = 128" by (simp add: get_sim_instrs_def Let_def del: upt_rec_numeral)
  then have ne: "?p \<noteq> []" by auto
  have "raw_pairs ?p < 128" using raw_pairs_less [OF ne] len by simp
  then have "103 \<le> (132 + raw_pairs ?p) * 100 div 128" "(132 + raw_pairs ?p) * 100 div 128 \<le> 202" by simp_all
  then show ?thesis
    using pipeline_stalls_once_per_hazard [OF ne] len assms by (simp add: cmd_pipeline_sim_def Let_def)
qed

end
