(* ===== verification/Shell_Experiments.thy ===== *)
theory Shell_Experiments
  imports Shell_Faults Snapshot
begin

text \<open>
  The commands of the shell that experiment on its own kernel, \<open>dispatch\<close> of \<open>shell/mod.rs\<close>: \<open>sched preempt-race\<close>, \<open>checkpoint\<close> and
  \<open>restore\<close>.  What interrupts and other tasks do while the shell spins is a parameter.
\<close>

subsection \<open>The race, at the shell\<close>

definition race_cap :: capability where
  "race_cap = \<lparr>cap_resource = IpcChannel 70, cap_read = True, cap_write = True, cap_grant = False, cap_sealed = False,
     cap_id = 0, cap_origin = None\<rparr>"

text \<open>The task whose capability is checked and used; the identity it got is read back from slot 0.\<close>

definition race_victim :: "u64 \<Rightarrow> kernel \<Rightarrow> (u64 \<times> kernel) run" where
  "race_victim park k =
     run_bind (Task_new 69 park CapTable_new k) (\<lambda>(t, k).
       case CapTable_insert race_cap (t_caps t) k of
         (None, _, _) \<Rightarrow> Panic
       | (Some _, caps, k) \<Rightarrow>
           (case slots caps ! 0 of
              None \<Rightarrow> Panic
            | Some c \<Rightarrow> Ret (cap_id c, set_slot 69 (Some (t\<lparr>t_caps := caps\<rparr>)) k)))"

text \<open>The loop that spins until a tick lands in the window, or for a hundred ticks; \<open>env\<close> is what interrupts do at each iteration.
  Without a tick it does not end, which is the value \<open>None\<close>.\<close>

partial_function (option) race_spin :: "(nat \<Rightarrow> kernel \<Rightarrow> kernel) \<Rightarrow> u64 \<Rightarrow> nat \<Rightarrow> kernel \<Rightarrow> kernel option" where
  "race_spin env start n k =
     (if window_ticks (preempt k) < 1 then
        (if ticks (preempt k) - start \<ge> 100 then Some k else race_spin env start (Suc n) (env n k))
      else Some k)"

definition race_cap_at_use :: "kernel \<Rightarrow> capability option" where
  "race_cap_at_use k = (case tasks k ! 69 of None \<Rightarrow> None | Some t \<Rightarrow> slots (t_caps t) ! 0)"

text \<open>The command: the identity printed, and whether each stage shows what it should.\<close>

definition cmd_preempt_race ::
  "u64 \<Rightarrow> (nat \<Rightarrow> kernel \<Rightarrow> kernel) \<Rightarrow> (nat \<Rightarrow> kernel \<Rightarrow> kernel) \<Rightarrow> kernel \<Rightarrow> ((u64 \<times> bool \<times> bool) \<times> kernel) option run" where
  "cmd_preempt_race park env env2 k =
     run_bind (race_victim park k) (\<lambda>(cid, k).
       let k = enter_ipc_window (reset_window_ticks (arm_adversary 69 0 (set_armed True k))) in
       case race_spin env (ticks (preempt k)) 0 k of
         None \<Rightarrow> Ret None
       | Some k \<Rightarrow>
           let k = exit_ipc_window k;
               vulnerable = (race_cap_at_use k = None \<and> adversary_fired_in_window k)
           in run_bind (race_victim park k) (\<lambda>(_, k).
                let k = enter_ipc_window (enter_critical (reset_window_ticks (arm_adversary 69 0 k))) in
                case race_spin env2 (ticks (preempt k)) 0 k of
                  None \<Rightarrow> Ret None
                | Some k \<Rightarrow>
                    let k = exit_critical (exit_ipc_window k);
                        guarded = (race_cap_at_use k \<noteq> None \<and> \<not> adversary_fired_in_window k)
                    in Ret (Some ((cid, vulnerable, guarded), set_armed False (disarm_adversary k)))))"

lemma race_victim_placed:
  assumes "kernel_wf k"
  obtains k' where "race_victim park k = Ret (next_cap_id_ctr k, k')" "kernel_wf k'" "preempt k' = preempt k"
    "table_of 69 k' = Some (single_table (race_cap\<lparr>cap_id := next_cap_id_ctr k\<rparr>))"
proof -
  obtain t k1 where new: "Task_new 69 park CapTable_new k = Ret (t, k1)"
    by (cases "Task_new 69 park CapTable_new k") (auto simp: MAX_TASKS_def)
  have t: "t_id t = 69" "t_caps t = CapTable_new" "task_wf 69 t"
    using Task_new_fields [OF new] Task_new_wf [OF new] by auto
  have k1: "k1 = k\<lparr>tasks_spawned := tasks_spawned k + 1, mach := mach k1\<rparr>" by (rule Task_new_kernel [OF new])
  let ?c = "race_cap\<lparr>cap_id := next_cap_id_ctr k\<rparr>"
  let ?k2 = "log_trace ''cap_insert'' (next_cap_id_ctr k) 0 (k1\<lparr>next_cap_id_ctr := next_cap_id_ctr k1 + 1\<rparr>)"
  let ?k3 = "set_slot 69 (Some (t\<lparr>t_caps := single_table ?c\<rparr>)) ?k2"
  have n: "next_cap_id_ctr k1 = next_cap_id_ctr k" "preempt k1 = preempt k" by (subst k1, simp)+
  have wf1: "kernel_wf k1" using assms by (subst k1) (simp add: kernel_wf_def)
  have wf2: "kernel_wf ?k2" using wf1 by (simp add: log_trace_def kernel_wf_def)
  have wf3: "kernel_wf ?k3" using wf2 t by (intro kernel_wf_set_slot) (auto simp: task_wf_def)
  have len: "69 < length (tasks ?k2)" using wf2 by (simp add: kernel_wf_def MAX_TASKS_def)
  have "slots (single_table ?c) ! 0 = Some ?c" by (simp add: single_table_def CapTable_new_def MAX_CAPS_def)
  then have "race_victim park k = Ret (next_cap_id_ctr k, ?k3)"
    using new t n by (simp add: race_victim_def insert_new single_table_def)
  moreover have "table_of 69 ?k3 = Some (single_table ?c)" using len t by (simp add: table_of_def get_task_set_slot)
  moreover have "preempt ?k3 = preempt k" using n by (simp add: set_slot_def log_trace_def)
  ultimately show ?thesis using that wf3 by blast
qed

lemma race_cap_at_use_table:
  assumes "kernel_wf k" "table_of 69 k = Some caps"
  shows "race_cap_at_use k = cap_at caps 0"
proof -
  obtain t where "get_task k 69 = Some t" "t_caps t = caps" using assms(2) by (auto simp: table_of_def)
  then show ?thesis using assms(1) by (auto simp: race_cap_at_use_def get_task_def cap_at_def kernel_wf_def MAX_TASKS_def MAX_CAPS_def split: option.splits if_splits)
qed

lemma race_spin_lands:
  assumes "window_ticks (preempt k) = 0" "ticks (preempt k) = start" "window_ticks (preempt (others (timer_isr False k))) \<noteq> 0"
    and "arrives i" "n \<le> i"
  shows "race_spin (tick_env arrives others) start n k = Some (others (timer_isr False k))"
  using assms(5)
proof (induction "i - n" arbitrary: n)
  case 0
  then show ?case using assms(1-4) by (subst race_spin.simps, subst race_spin.simps) (simp add: tick_env_def word_less_1)
next
  case (Suc m)
  show ?case
  proof (cases "arrives n")
    case True
    then show ?thesis using assms(1-3) by (subst race_spin.simps, subst race_spin.simps) (simp add: tick_env_def word_less_1)
  next
    case False
    have "race_spin (tick_env arrives others) start (Suc n) k = Some (others (timer_isr False k))" using Suc by simp
    then show ?thesis using False assms(1,2) by (subst race_spin.simps) (simp add: tick_env_def)
  qed
qed

text \<open>One stage with the window open, from any kernel ready for it, and one inside the critical region.\<close>

definition stage_ready :: "capability \<Rightarrow> kernel \<Rightarrow> bool" where
  "stage_ready c k \<longleftrightarrow> kernel_wf k \<and> table_of 69 k = Some (single_table c) \<and> armed (preempt k) \<and> preempt_count (preempt k) = 0"

lemma open_stage:
  assumes "stage_ready c k" "leaves_task 69 others" "arrives i"
  obtains k' where "race_spin (tick_env arrives others) (ticks (preempt k)) 0 (enter_ipc_window (reset_window_ticks (arm_adversary 69 0 k))) = Some k'"
    "kernel_wf k'" "armed (preempt k')" "preempt_count (preempt k') = 0" "race_cap_at_use k' = None" "revoke_fired_in_window (preempt k')"
proof -
  let ?k = "enter_ipc_window (reset_window_ticks (arm_adversary 69 0 k))"
  have f: "armed (preempt ?k)" "preempt_count (preempt ?k) = 0" "in_ipc_window (preempt ?k)" "pending_revoke (preempt ?k) = 0"
    "pending_revoke_task (preempt ?k) = 69" "window_ticks (preempt ?k) = 0" "ticks (preempt ?k) = ticks (preempt k)"
    using assms(1) by (simp_all add: stage_ready_def window_defs)
  have wf: "kernel_wf ?k" and vc: "table_of 69 ?k \<noteq> None" using assms(1) by (simp_all add: stage_ready_def window_defs)
  obtain caps where t: "table_of 69 (timer_isr False ?k) = Some caps" "cap_at caps 0 = None"
    "window_ticks (preempt (timer_isr False ?k)) = 1" "revoke_fired_in_window (preempt (timer_isr False ?k))"
    "armed (preempt (timer_isr False ?k))" "preempt_count (preempt (timer_isr False ?k)) = 0"
    by (rule open_tick [OF wf f(1-6) vc])
  note l = leaves_taskD [OF assms(2) kernel_wf_timer_isr [OF wf, of False]]
  have "race_spin (tick_env arrives others) (ticks (preempt k)) 0 ?k = Some (others (timer_isr False ?k))"
    using l(3) t(3) f(6,7) assms(3) by (intro race_spin_lands) (simp_all add: same_flags_def)
  then show ?thesis
    using that l t race_cap_at_use_table [OF l(1)] by (simp add: same_flags_def)
qed

lemma guarded_stage:
  assumes "stage_ready c k" "leaves_task 69 others" "arrives i"
  obtains k' where "race_spin (tick_env arrives others) (ticks (preempt k)) 0
      (enter_ipc_window (enter_critical (reset_window_ticks (arm_adversary 69 0 k)))) = Some k'"
    "kernel_wf k'" "table_of 69 k' = Some (single_table c)" "\<not> revoke_fired_in_window (preempt k')" "preempt_count (preempt k') = 1"
proof -
  let ?k = "enter_ipc_window (enter_critical (reset_window_ticks (arm_adversary 69 0 k)))"
  have f: "armed (preempt ?k)" "preempt_count (preempt ?k) \<noteq> 0" "in_ipc_window (preempt ?k)" "window_ticks (preempt ?k) = 0"
    "\<not> revoke_fired_in_window (preempt ?k)" "ticks (preempt ?k) = ticks (preempt k)" "preempt_count (preempt ?k) = 1"
    using assms(1) by (simp_all add: stage_ready_def window_defs)
  have wf: "kernel_wf ?k" and vc: "table_of 69 ?k = Some (single_table c)" using assms(1) by (simp_all add: stage_ready_def window_defs)
  note t = guarded_tick [OF f(1-4)]
  have wf': "kernel_wf (timer_isr False ?k)" using t(4) wf by simp
  note l = leaves_taskD [OF assms(2) wf']
  have "preempt_count (preempt (timer_isr False ?k)) = 1"
    using timer_isr_deferred [of ?k False] f(1,2,7) by (simp add: in_critical_def)
  moreover have "race_spin (tick_env arrives others) (ticks (preempt k)) 0 ?k = Some (others (timer_isr False ?k))"
    using l(3) t(2) f(4,6) assms(3) by (intro race_spin_lands) (simp_all add: same_flags_def)
  ultimately show ?thesis
    using that l t(1,3) vc f(5) by (simp add: same_flags_def)
qed

text \<open>The race, at the shell.  If ticks arrive at all, both loops end, the first stage finds the checked capability gone and the second finds
  it intact; the identity printed is the one the first task got, and afterwards preemption is off and no critical region is open.\<close>

theorem preempt_race_verdicts:
  assumes "kernel_wf k" "preempt_count (preempt k) = 0" and "leaves_task 69 others" "leaves_task 69 others2"
    and "arrives i" "arrives2 j"
  shows "\<exists>k'. cmd_preempt_race park (tick_env arrives others) (tick_env arrives2 others2) k =
      Ret (Some ((next_cap_id_ctr k, True, True), k')) \<and> kernel_wf k' \<and> \<not> armed (preempt k') \<and> preempt_count (preempt k') = 0"
proof -
  obtain k1 where 1: "race_victim park k = Ret (next_cap_id_ctr k, k1)" "kernel_wf k1" "preempt k1 = preempt k"
    "table_of 69 k1 = Some (single_table (race_cap\<lparr>cap_id := next_cap_id_ctr k\<rparr>))" by (rule race_victim_placed [OF assms(1)])
  have "stage_ready (race_cap\<lparr>cap_id := next_cap_id_ctr k\<rparr>) (set_armed True k1)"
    using 1 assms(2) by (simp add: stage_ready_def set_armed_def)
  from open_stage [where arrives = arrives, OF this assms(3,5)] obtain k2 where
    2: "race_spin (tick_env arrives others) (ticks (preempt k1)) 0 (enter_ipc_window (reset_window_ticks (arm_adversary 69 0 (set_armed True k1)))) = Some k2"
    "kernel_wf k2" "armed (preempt k2)" "preempt_count (preempt k2) = 0" "race_cap_at_use k2 = None" "revoke_fired_in_window (preempt k2)"
    by (auto simp: set_armed_def)
  let ?k2 = "exit_ipc_window k2"
  have wf2: "kernel_wf ?k2" using 2(2) by (simp add: exit_ipc_window_def)
  obtain k3 where 3: "race_victim park ?k2 = Ret (next_cap_id_ctr ?k2, k3)" "kernel_wf k3" "preempt k3 = preempt ?k2"
    "table_of 69 k3 = Some (single_table (race_cap\<lparr>cap_id := next_cap_id_ctr ?k2\<rparr>))" by (rule race_victim_placed [OF wf2])
  have "stage_ready (race_cap\<lparr>cap_id := next_cap_id_ctr ?k2\<rparr>) k3" using 3 2(3,4) by (simp add: stage_ready_def window_defs)
  from guarded_stage [where arrives = arrives2, OF this assms(4,6)] obtain k4 where
    4: "race_spin (tick_env arrives2 others2) (ticks (preempt k3)) 0
       (enter_ipc_window (enter_critical (reset_window_ticks (arm_adversary 69 0 k3)))) = Some k4"
    "kernel_wf k4" "table_of 69 k4 = Some (single_table (race_cap\<lparr>cap_id := next_cap_id_ctr ?k2\<rparr>))"
    "\<not> revoke_fired_in_window (preempt k4)" "preempt_count (preempt k4) = 1" by blast
  have use: "race_cap_at_use (x\<lparr>preempt := p\<rparr>) = race_cap_at_use x" for x p by (simp add: race_cap_at_use_def)
  have "race_cap_at_use k4 \<noteq> None" using race_cap_at_use_table [OF 4(2,3)] by simp
  then show ?thesis
    using 1(1) 2 3(1) 4 use by (simp add: cmd_preempt_race_def window_defs set_armed_def disarm_adversary_def)
qed

theorem preempt_race_verdicts_witness:
  "\<exists>c k'. cmd_preempt_race 0x1000 (tick_env (\<lambda>i. i = 3) id) (tick_env (\<lambda>_. True) id) (sample_kernel Ready) =
     Ret (Some ((c, True, True), k'))"
proof -
  have "leaves_task 69 id" by (simp add: leaves_task_def same_flags_def)
  moreover have "preempt_count (preempt (sample_kernel Ready)) = 0"
    by (simp add: sample_kernel_def initial_kernel_def set_slot_def preempt_init_def)
  ultimately show ?thesis
    using preempt_race_verdicts [OF kernel_wf_sample, of Ready id id "\<lambda>i. i = 3" 3 "\<lambda>_. True" 0 "0x1000"] by auto
qed

subsection \<open>Checkpoints at the shell\<close>

text \<open>\<open>checkpoint\<close>: the number of tasks counted before the capture, and the checksum printed.\<close>

definition cmd_checkpoint :: "system_snapshot \<Rightarrow> kernel \<Rightarrow> ((nat \<times> u64) \<times> system_snapshot \<times> kernel) run" where
  "cmd_checkpoint snap k =
     (let cnt = length (filter (\<lambda>t. t \<noteq> None) (tasks k)) in
      run_bind (capture snap k) (\<lambda>(snap, k).
        let sum = (case info snap of Some h \<Rightarrow> h | None \<Rightarrow> 0) in Ret ((cnt, sum), snap, k)))"

datatype restore_report = RestoreBadNumber | NoSuchSnapshot nat | Restored nat | NoValidSnapshot

definition cmd_restore :: "bytes \<Rightarrow> system_snapshot \<Rightarrow> kernel \<Rightarrow> (restore_report \<times> kernel) run" where
  "cmd_restore tok1 snap k =
     (case parse_usize tok1 of
        None \<Rightarrow> Ret (RestoreBadNumber, k)
      | Some i \<Rightarrow>
          if i \<noteq> 0 then Ret (NoSuchSnapshot i, k)
          else run_bind (restore snap k) (\<lambda>(r, k). Ret (case r of Some n \<Rightarrow> Restored n | None \<Rightarrow> NoValidSnapshot, k)))"

lemma tasks_present:
  assumes "kernel_wf k"
  shows "length (filter (\<lambda>t. t \<noteq> None) (tasks k)) = length (filter (\<lambda>i. get_task k i \<noteq> None) [0..<MAX_TASKS])"
proof -
  have "tasks k = map (get_task k) [0..<MAX_TASKS]"
    using assms kernel_wf_get_task [OF assms] by (intro nth_equalityI) (simp_all add: kernel_wf_def)
  then have "filter (\<lambda>t. t \<noteq> None) (tasks k) = map (get_task k) (filter (\<lambda>i. get_task k i \<noteq> None) [0..<MAX_TASKS])"
    by (simp only: filter_map comp_def)
  then show ?thesis by simp
qed

text \<open>A checkpoint and a restore at the shell, with anything in between.  The restore reports no more tasks than the checkpoint did, and as
  many exactly when no task counted then is missing now.  Every capability of a task of both times is back where it was,
  also one that was revoked in between, and what was granted in between is gone.\<close>

theorem restore_command_undoes:
  assumes "kernel_wf k" "cmd_checkpoint s k = Ret ((n, h), snap, k1)" "kernel_wf k2" "parse_usize tok = Some 0"
  shows "\<exists>m k3. cmd_restore tok snap k2 = Ret (Restored m, k3) \<and> kernel_wf k3 \<and> m \<le> n \<and>
     (m = n \<longleftrightarrow> (\<forall>i. get_task k i \<noteq> None \<longrightarrow> get_task k2 i \<noteq> None)) \<and>
     (\<forall>i slot. cap_view k3 (i, slot) =
        (if get_task k i \<noteq> None \<and> get_task k2 i \<noteq> None then cap_view k (i, slot) else cap_view k2 (i, slot)))"
proof -
  have cap: "capture s k = Ret (snap, k1)" and n: "n = length (filter (\<lambda>i. get_task k i \<noteq> None) [0..<MAX_TASKS])"
    using assms(2) tasks_present [OF assms(1)] by (auto simp: cmd_checkpoint_def run_bind_Ret_iff Let_def)
  from captured_restore [OF assms(1) cap assms(3)] obtain m k3 where
    r: "restore snap k2 = Ret (Some m, k3)" "kernel_wf k3"
      "m = length (filter (\<lambda>i. get_task k i \<noteq> None \<and> get_task k2 i \<noteq> None) [0..<MAX_TASKS])"
      "\<forall>i < MAX_TASKS. get_task k3 i =
        (case get_task k i of Some t \<Rightarrow> map_option (roll_back (checkpoint t)) (get_task k2 i) | None \<Rightarrow> get_task k2 i)"
    by blast
  have out: "get_task q i = None" if "\<not> i < MAX_TASKS" "kernel_wf q" for q i
    using that by (auto simp: get_task_def kernel_wf_def)
  let ?both = "{i. i < MAX_TASKS \<and> get_task k i \<noteq> None \<and> get_task k2 i \<noteq> None}" and ?all = "{i. i < MAX_TASKS \<and> get_task k i \<noteq> None}"
  have len: "length (filter P [0..<MAX_TASKS]) = card {i. i < MAX_TASKS \<and> P i}" for P
    by (simp add: length_filter_conv_card cong: conj_cong)
  have sub: "?both \<subseteq> ?all" "finite ?all" by auto
  have m: "m = card ?both" "n = card ?all" unfolding r(3) n len by simp_all
  have "m = n \<longleftrightarrow> (\<forall>i. get_task k i \<noteq> None \<longrightarrow> get_task k2 i \<noteq> None)"
  proof
    assume "m = n"
    then have "?both = ?all" using card_subset_eq [OF sub(2,1)] m by simp
    then have "i \<in> ?both" if "i \<in> ?all" for i using that by (simp only:)
    moreover have "i \<in> ?all" if "get_task k i \<noteq> None" for i using out [OF _ assms(1), of i] that by auto
    ultimately show "\<forall>i. get_task k i \<noteq> None \<longrightarrow> get_task k2 i \<noteq> None" by simp
  next
    assume "\<forall>i. get_task k i \<noteq> None \<longrightarrow> get_task k2 i \<noteq> None"
    then have "?both = ?all" by blast
    then show "m = n" using m by simp
  qed
  moreover have "m \<le> n" unfolding m by (rule card_mono [OF sub(2,1)])
  moreover have "cap_view k3 (i, slot) =
      (if get_task k i \<noteq> None \<and> get_task k2 i \<noteq> None then cap_view k (i, slot) else cap_view k2 (i, slot))" for i slot
    using r(4) out [OF _ assms(1), of i] out [OF _ assms(3), of i] out [OF _ r(2), of i]
    by (cases "i < MAX_TASKS"; cases "get_task k i"; cases "get_task k2 i")
      (auto simp: cap_view_get_task [OF r(2)] cap_view_get_task [OF assms(1)] cap_view_get_task [OF assms(3)] roll_back_def checkpoint_def)
  ultimately show ?thesis using r(1,2) assms(4) by (simp add: cmd_restore_def)
qed

theorem restore_command_undoes_witness:
  "\<exists>n h snap k1 k3. cmd_checkpoint SystemSnapshot_new (sample_kernel Ready) = Ret ((n, h), snap, k1) \<and>
     cmd_restore (ascii ''0'') snap (update_task 1 (\<lambda>t. t\<lparr>t_caps := CapTable_new\<rparr>) (sample_kernel Ready)) = Ret (Restored n, k3) \<and>
     cap_view k3 (1, 0) = Some (channel_cap 2 7 None)"
proof -
  let ?k = "sample_kernel Ready" and ?k2 = "update_task 1 (\<lambda>t. t\<lparr>t_caps := CapTable_new\<rparr>) (sample_kernel Ready)"
  obtain snap k1 where c: "capture SystemSnapshot_new ?k = Ret (snap, k1)" using capture_sample by blast
  obtain n h where ck: "cmd_checkpoint SystemSnapshot_new ?k = Ret ((n, h), snap, k1)" using c by (simp add: cmd_checkpoint_def Let_def)
  have p: "parse_usize (ascii ''0'') = Some 0" by (simp add: parse_usize_is_decimal digits_val_def ascii_def)
  have wf2: "kernel_wf ?k2" by (intro kernel_wf_update_task kernel_wf_sample) (simp add: task_wf_def)
  have g: "get_task ?k2 i = None \<longleftrightarrow> get_task ?k i = None" for i
    using kernel_wf_sample [of Ready] by (simp add: get_task_update_task)
  from restore_command_undoes [OF kernel_wf_sample ck wf2 p] obtain m k3 where
    "cmd_restore (ascii ''0'') snap ?k2 = Ret (Restored m, k3)" "m = n \<longleftrightarrow> (\<forall>i. get_task ?k i \<noteq> None \<longrightarrow> get_task ?k2 i \<noteq> None)"
    "\<forall>i slot. cap_view k3 (i, slot) =
        (if get_task ?k i \<noteq> None \<and> get_task ?k2 i \<noteq> None then cap_view ?k (i, slot) else cap_view ?k2 (i, slot))" by blast
  moreover have "get_task ?k 1 \<noteq> None" "cap_view ?k (1, 0) = Some (channel_cap 2 7 None)"
    by (simp_all add: cap_view_get_task [OF kernel_wf_sample] cap_at_table_with)
  ultimately show ?thesis using ck g by auto
qed

end
