(* ===== verification/Shell_Stress.thy ===== *)
theory Shell_Stress
  imports Shell_Commands
begin

text \<open>
  The workers of the stress test, \<open>stress_worker_entry\<close> of \<open>shell/mod.rs\<close>: two tasks that hand one message back and forth.  A step is
  what a worker does from the moment it gets the processor to its next return from, or wait in, a call of the kernel, so that
  the workers, and whatever else runs in between, interleave in every way the scheduler and the timer allow.
\<close>

subsection \<open>The workers\<close>

datatype worker_pc = AtSend | InSend | AtReceive | InReceive

record stress_state =
  ss_kernel :: kernel
  ss_pc :: "task_id \<Rightarrow> worker_pc"
  ss_deliveries :: u64

definition stress_ping :: "task_id \<Rightarrow> message" where
  "stress_ping me = make_message me Raw 1 (ascii ''ping'')"

text \<open>The worker gets the processor.\<close>

definition scheduled :: "task_id \<Rightarrow> kernel \<Rightarrow> kernel" where
  "scheduled me k =
     (update_task me (\<lambda>t. t\<lparr>t_state := Running\<rparr>)
       (case current_task_id k of
          Some c \<Rightarrow> update_task c (\<lambda>t. if t_state t = Running then t\<lparr>t_state := Ready\<rparr> else t) k
        | None \<Rightarrow> k))\<lparr>current_task_id := Some me\<rparr>"

text \<open>What follows a send, whose result is ignored, and a receive.\<close>

definition worker_sent :: "task_id \<Rightarrow> unit progress \<times> kernel \<Rightarrow> stress_state \<Rightarrow> stress_state" where
  "worker_sent me r s =
     s\<lparr>ss_kernel := snd r, ss_pc := (ss_pc s)(me := case fst r of Done _ \<Rightarrow> AtReceive | Parked \<Rightarrow> InSend)\<rparr>"

definition worker_received :: "task_id \<Rightarrow> message progress \<times> kernel \<Rightarrow> stress_state \<Rightarrow> stress_state" where
  "worker_received me r s =
     (case fst r of
        Done (Inr _) \<Rightarrow> s\<lparr>ss_kernel := snd r, ss_pc := (ss_pc s)(me := AtSend), ss_deliveries := ss_deliveries s + 1\<rparr>
      | Done (Inl _) \<Rightarrow> s\<lparr>ss_kernel := snd r, ss_pc := (ss_pc s)(me := AtReceive)\<rparr>
      | Parked \<Rightarrow> s\<lparr>ss_kernel := snd r, ss_pc := (ss_pc s)(me := InReceive)\<rparr>)"

definition worker_step :: "task_id \<Rightarrow> stress_state \<Rightarrow> stress_state" where
  "worker_step me s =
     (let k = scheduled me (ss_kernel s) in
      case ss_pc s me of
        AtSend \<Rightarrow> worker_sent me (sys_send_typed 0 (tag_to_u16 Raw) 1 (ascii ''ping'') k) s
      | InSend \<Rightarrow>
          (case send_resume me k of
             Done r \<Rightarrow> worker_sent me (Done r, k) s
           | Parked \<Rightarrow> worker_sent me (send_iter me 0 (stress_ping me) k) s)
      | AtReceive \<Rightarrow> worker_received me (sys_receive_typed k) s
      | InReceive \<Rightarrow> worker_received me (receive_iter me k) s)"

text \<open>Where the workers start: the one with the odd number sends first.\<close>

definition stress_begin :: "kernel \<Rightarrow> stress_state" where
  "stress_begin k = \<lparr>ss_kernel = k, ss_pc = (\<lambda>i. if i mod 2 = 1 then AtSend else AtReceive), ss_deliveries = 0\<rparr>"

subsection \<open>A worker in the task table\<close>

definition stress_worker :: "kernel \<Rightarrow> task_id \<Rightarrow> task_id \<Rightarrow> task_state set \<Rightarrow> message option \<Rightarrow> bool" where
  "stress_worker k i p S buf \<longleftrightarrow> (\<exists>t c. get_task k i = Some t \<and> t_state t \<in> S \<and> t_ipc_buffer t = buf \<and>
     queue_contents (t_msg_queue t) = [] \<and> cap_at (t_caps t) 0 = Some c \<and> cap_resource c = IpcChannel p)"

definition awake :: "task_state set" where
  "awake = {Ready, Running}"

text \<open>No task outside the pair waits to send to one of it.\<close>

definition undisturbed :: "task_id \<Rightarrow> task_id \<Rightarrow> kernel \<Rightarrow> bool" where
  "undisturbed a b k \<longleftrightarrow> (\<forall>j t. get_task k j = Some t \<longrightarrow> j \<noteq> a \<longrightarrow> j \<noteq> b \<longrightarrow> t_state t \<noteq> BlockedOnSend a \<and> t_state t \<noteq> BlockedOnSend b)"

lemma undisturbed_sym: "undisturbed a b k = undisturbed b a k"
  by (auto simp: undisturbed_def)

lemma undisturbed_frame: "undisturbed a b k \<Longrightarrow> (\<And>j. j \<noteq> a \<Longrightarrow> j \<noteq> b \<Longrightarrow> get_task k' j = get_task k j) \<Longrightarrow> undisturbed a b k'"
  unfolding undisturbed_def by metis

lemma worker_authorised: "stress_worker k i p S buf \<Longrightarrow> authorised k i 0 = Some p"
  by (auto simp: stress_worker_def authorised_def)

lemma worker_mono: "stress_worker k i p S buf \<Longrightarrow> S \<subseteq> S' \<Longrightarrow> stress_worker k i p S' buf"
  by (auto simp: stress_worker_def)

lemma worker_frame: "get_task k' i = get_task k i \<Longrightarrow> stress_worker k' i p S buf = stress_worker k i p S buf"
  by (simp add: stress_worker_def)

lemma worker_change:
  assumes "stress_worker k i p S buf" "get_task k' i = map_option f (get_task k i)"
    and "\<And>t. t_caps (f t) = t_caps t" "\<And>t. t_msg_queue (f t) = t_msg_queue t"
    and "\<And>t. t_state t \<in> S \<Longrightarrow> t_ipc_buffer t = buf \<Longrightarrow> t_state (f t) \<in> S' \<and> t_ipc_buffer (f t) = buf'"
  shows "stress_worker k' i p S' buf'"
  using assms by (auto simp: stress_worker_def)

subsection \<open>The calls of the workers\<close>

lemma find_sender_undisturbed:
  assumes "kernel_wf k" "undisturbed a b k" "stress_worker k a b S buf" "stress_worker k b a T buf'" "BlockedOnSend a \<notin> S"
  shows "T = {BlockedOnSend a} \<Longrightarrow> find_sender k a = Some b" and "BlockedOnSend a \<notin> T \<Longrightarrow> find_sender k a = None"
proof -
  obtain t u where t: "get_task k a = Some t" "t_state t \<in> S" and u: "get_task k b = Some u" "t_state u \<in> T"
    using assms(3,4) by (auto simp: stress_worker_def)
  have lt: "b < MAX_TASKS" using kernel_wf_task [OF assms(1) u(1)] by simp
  have blocked: "j = b" if j: "slot_state k j = Some (BlockedOnSend a)" "j < MAX_TASKS" for j
  proof (rule ccontr)
    assume nb: "j \<noteq> b"
    obtain z where z: "get_task k j = Some z" "t_state z = BlockedOnSend a"
      using j slot_state_get_task [OF assms(1) j(2)] by auto
    then have "j \<noteq> a" using t assms(5) by auto
    then show False using assms(2) z nb unfolding undisturbed_def by blast
  qed
  have sb: "slot_state k b = Some (t_state u)" using slot_state_get_task [OF assms(1) lt] u(1) by simp
  show "find_sender k a = Some b" if "T = {BlockedOnSend a}"
  proof (rule find_sender_least [OF assms(1) lt])
    show "slot_state k b = Some (BlockedOnSend a)" using sb u(2) that by simp
    show "slot_state k j \<noteq> Some (BlockedOnSend a)" if "j < b" for j using blocked [of j] that lt by auto
  qed
  show "find_sender k a = None" if "BlockedOnSend a \<notin> T"
    unfolding find_sender_None [OF assms(1)] using blocked sb u(2) that by (metis option.inject)
qed

lemma receive_own:
  assumes "kernel_wf k" "stress_worker k a b S (Some m)" "receive_iter a k = (r, k')"
  shows "r = Done (Inr m)" "stress_worker k' a b S None" "j \<noteq> a \<Longrightarrow> get_task k' j = get_task k j"
proof -
  obtain t where t: "get_task k a = Some t" "queue_contents (t_msg_queue t) = []" "t_ipc_buffer t = Some m"
    using assms(2) by (auto simp: stress_worker_def)
  have "t_id t = a" using kernel_wf_task [OF assms(1) t(1)] by (simp add: task_wf_def)
  then have upd: "get_task (update_task a (\<lambda>_. t\<lparr>t_ipc_buffer := None\<rparr>) k) j = (if j = a then Some (t\<lparr>t_ipc_buffer := None\<rparr>) else get_task k j)" for j
    using get_task_in_range [OF t(1)] t(1) by (simp add: update_task_def get_task_set_slot)
  have k': "r = Done (Inr m)" "k' = update_task a (\<lambda>_. t\<lparr>t_ipc_buffer := None\<rparr>) k"
    using assms(3) take_message_buffer [OF assms(1) t] by (auto simp: receive_iter_def)
  show "r = Done (Inr m)" by (rule k'(1))
  show "stress_worker k' a b S None" using assms(2) t(1) upd by (auto simp: stress_worker_def k'(2))
  show "j \<noteq> a \<Longrightarrow> get_task k' j = get_task k j" by (simp add: k'(2) upd)
qed

lemma receive_from_sender:
  assumes "kernel_wf k" "undisturbed a b k" "stress_worker k a b awake None" "stress_worker k b a {BlockedOnSend a} (Some m)" "a \<noteq> b"
    and "receive_iter a k = (r, k')"
  shows "r = Done (Inr m)" "stress_worker k' a b awake None" "stress_worker k' b a awake None" "j \<noteq> a \<Longrightarrow> j \<noteq> b \<Longrightarrow> get_task k' j = get_task k j"
proof -
  obtain t u where t: "get_task k a = Some t" "queue_contents (t_msg_queue t) = []" "t_ipc_buffer t = None"
    and u: "get_task k b = Some u" "t_ipc_buffer u = Some m" using assms(3,4) by (auto simp: stress_worker_def)
  have f: "find_sender k a = Some b" by (rule find_sender_undisturbed(1) [OF assms(1-4)]) (simp_all add: awake_def)
  obtain x k1 where x: "take_from_sender a b k = (x, k1)" by fastforce
  note tf = take_from_sender_spec [OF u assms(5) [symmetric] x]
  have k': "r = Done (Inr m)" "k' = k1"
    using assms(6) take_message_sender [OF assms(1) t] f x tf(1) by (auto simp: receive_iter_def)
  show "r = Done (Inr m)" by (rule k'(1))
  show "stress_worker k' a b awake None" using worker_change [OF assms(3), of k' "\<lambda>t. t\<lparr>t_state := Running\<rparr>" awake None] tf(2) [of a] k'(2) by (simp add: awake_def)
  show "stress_worker k' b a awake None"
    using worker_change [OF assms(4), of k' "\<lambda>t. t\<lparr>t_ipc_buffer := None, t_state := Ready\<rparr>" awake None] tf(2) [of b] k'(2) u(1) assms(5) by (simp add: awake_def)
  show "j \<noteq> a \<Longrightarrow> j \<noteq> b \<Longrightarrow> get_task k' j = get_task k j" using tf(2) [of j] k'(2) by simp
qed

lemma receive_waits:
  assumes "kernel_wf k" "undisturbed a b k" "stress_worker k a b awake None" "stress_worker k b a T buf" "BlockedOnSend a \<notin> T"
    and "receive_iter a k = (r, k')"
  shows "r = Parked" "stress_worker k' a b {BlockedOnReceive} None" "j \<noteq> a \<Longrightarrow> get_task k' j = get_task k j"
proof -
  obtain t where t: "get_task k a = Some t" "queue_contents (t_msg_queue t) = []" "t_ipc_buffer t = None"
    using assms(3) by (auto simp: stress_worker_def)
  have "find_sender k a = None" by (rule find_sender_undisturbed(2) [OF assms(1-4) _ assms(5)]) (simp add: awake_def)
  then have k': "r = Parked" "k' = update_task a (\<lambda>t. t\<lparr>t_state := BlockedOnReceive\<rparr>) k"
    using assms(6) take_message_sender [OF assms(1) t] by (auto simp: receive_iter_def)
  show "r = Parked" by (rule k'(1))
  show "stress_worker k' a b {BlockedOnReceive} None"
    using worker_change [OF assms(3), of k' "\<lambda>t. t\<lparr>t_state := BlockedOnReceive\<rparr>" "{BlockedOnReceive}" None] k'(2) by (simp add: get_task_update_task)
  show "j \<noteq> a \<Longrightarrow> get_task k' j = get_task k j" by (simp add: k'(2) get_task_update_task)
qed

lemma send_to_waiting:
  assumes "stress_worker k a b awake None" "stress_worker k b a {BlockedOnReceive} None" "a \<noteq> b" "send_iter a 0 m k = (r, k')"
  shows "r = Done (Inr ())" "stress_worker k' b a awake (Some m)" "j \<noteq> b \<Longrightarrow> get_task k' j = get_task k j"
proof -
  obtain u where u: "get_task k b = Some u" "t_state u = BlockedOnReceive" using assms(2) by (auto simp: stress_worker_def)
  note d = send_iter_delivers [OF worker_authorised [OF assms(1)] u assms(4)]
  show "r = Done (Inr ())" by (rule d(1))
  show "stress_worker k' b a awake (Some m)"
    using worker_change [OF assms(2), of k' "\<lambda>t. t\<lparr>t_ipc_buffer := Some m, t_state := Ready\<rparr>" awake "Some m"] d(2) [of b] u by (simp add: awake_def)
  show "j \<noteq> b \<Longrightarrow> get_task k' j = get_task k j" using d(2) by simp
qed

lemma send_to_awake:
  assumes "stress_worker k a b awake None" "stress_worker k b a awake None" "a \<noteq> b" "send_iter a 0 m k = (r, k')"
  shows "r = Parked" "stress_worker k' a b {BlockedOnSend b} (Some m)" "j \<noteq> a \<Longrightarrow> get_task k' j = get_task k j"
proof -
  obtain u where u: "get_task k b = Some u" "t_state u \<notin> {BlockedOnReceive, Terminated}" using assms(2) by (auto simp: stress_worker_def awake_def)
  note d = send_iter_parks [OF worker_authorised [OF assms(1)] u assms(4)]
  show "r = Parked" by (rule d(1))
  show "stress_worker k' a b {BlockedOnSend b} (Some m)"
    using worker_change [OF assms(1), of k' "\<lambda>t. t\<lparr>t_state := BlockedOnSend b, t_ipc_buffer := Some m\<rparr>" "{BlockedOnSend b}" "Some m"] d(2) [of a] by simp
  show "j \<noteq> a \<Longrightarrow> get_task k' j = get_task k j" using d(2) by simp
qed

subsection \<open>One message in flight\<close>

text \<open>A worker without the message: about to receive, about to return from its send, or waiting.\<close>

definition without :: "stress_state \<Rightarrow> task_id \<Rightarrow> task_id \<Rightarrow> bool" where
  "without s y x \<longleftrightarrow> ss_pc s y \<in> {AtReceive, InSend} \<and> stress_worker (ss_kernel s) y x awake None \<or>
     ss_pc s y = InReceive \<and> stress_worker (ss_kernel s) y x {BlockedOnReceive} None"

text \<open>Where the one message is: with \<open>x\<close>, which is about to send it; in the buffer of \<open>x\<close>, which waits for the other to receive; or in the buffer
  of \<open>x\<close>, to which it was delivered.\<close>

definition holds :: "stress_state \<Rightarrow> task_id \<Rightarrow> task_id \<Rightarrow> bool" where
  "holds s x y \<longleftrightarrow> ss_pc s x = AtSend \<and> stress_worker (ss_kernel s) x y awake None \<and> without s y x"

definition offers :: "stress_state \<Rightarrow> task_id \<Rightarrow> task_id \<Rightarrow> bool" where
  "offers s x y \<longleftrightarrow> ss_pc s x = InSend \<and> stress_worker (ss_kernel s) x y {BlockedOnSend y} (Some (stress_ping x)) \<and>
     ss_pc s y \<in> {AtReceive, InSend} \<and> stress_worker (ss_kernel s) y x awake None"

definition has_got :: "stress_state \<Rightarrow> task_id \<Rightarrow> task_id \<Rightarrow> bool" where
  "has_got s x y \<longleftrightarrow> ss_pc s x = InReceive \<and> stress_worker (ss_kernel s) x y awake (Some (stress_ping y)) \<and> without s y x"

text \<open>The number of steps there can be until the next delivery.\<close>

definition rest_of :: "worker_pc \<Rightarrow> nat" where
  "rest_of p = (case p of InSend \<Rightarrow> 2 | AtReceive \<Rightarrow> 1 | _ \<Rightarrow> 0)"

definition runnable :: "task_id \<Rightarrow> stress_state \<Rightarrow> bool" where
  "runnable w s \<longleftrightarrow> (\<exists>t. get_task (ss_kernel s) w = Some t \<and> t_state t \<in> awake)"

text \<open>Scheduling a worker that can run.\<close>

lemma scheduled_get:
  "get_task (scheduled w k) j = map_option (\<lambda>t. if j = w then t\<lparr>t_state := Running\<rparr>
     else if current_task_id k = Some j \<and> t_state t = Running then t\<lparr>t_state := Ready\<rparr> else t) (get_task k j)"
  by (cases "current_task_id k"; cases "get_task k j") (auto simp: scheduled_def get_task_update_task)

lemma scheduled_wf:
  assumes "kernel_wf k"
  shows "kernel_wf (scheduled w k)"
proof -
  have 1: "kernel_wf (case current_task_id k of
          Some c \<Rightarrow> update_task c (\<lambda>t. if t_state t = Running then t\<lparr>t_state := Ready\<rparr> else t) k
        | None \<Rightarrow> k)" (is "kernel_wf ?k")
    using assms by (auto split: option.split intro!: kernel_wf_update_task simp: task_wf_def)
  have "kernel_wf (update_task w (\<lambda>t. t\<lparr>t_state := Running\<rparr>) ?k)" by (rule kernel_wf_update_task [OF 1]) (simp add: task_wf_def)
  then show ?thesis by (simp add: scheduled_def kernel_wf_def)
qed

lemma scheduled_worker:
  "stress_worker k w p awake buf \<Longrightarrow> stress_worker (scheduled w k) w p awake buf"
  "j \<noteq> w \<Longrightarrow> stress_worker k j p awake buf \<Longrightarrow> stress_worker (scheduled w k) j p awake buf"
  "j \<noteq> w \<Longrightarrow> stress_worker k j p {BlockedOnReceive} buf \<Longrightarrow> stress_worker (scheduled w k) j p {BlockedOnReceive} buf"
  "j \<noteq> w \<Longrightarrow> stress_worker k j p {BlockedOnSend x} buf \<Longrightarrow> stress_worker (scheduled w k) j p {BlockedOnSend x} buf"
  by (rule worker_change, assumption, rule scheduled_get, auto simp: awake_def)+

lemma scheduled_undisturbed: "undisturbed a b k \<Longrightarrow> undisturbed a b (scheduled w k)"
  unfolding undisturbed_def scheduled_get by (auto split: if_splits)

lemma scheduled_current [simp]: "current_task_id (scheduled w k) = Some w"
  by (simp add: scheduled_def)

text \<open>The two calls as they begin.\<close>

lemma sys_receive_scheduled:
  "current_task_id k = Some w \<Longrightarrow> \<exists>k0. sys_receive_typed k = receive_iter w k0 \<and> (\<forall>j. get_task k0 j = get_task k j) \<and> (kernel_wf k \<longrightarrow> kernel_wf k0)"
  by (intro exI [of _ "log_trace ''ipc_receive'' (of_nat w) 0 k"]) (simp add: sys_receive_typed_def receive_begin_def)

lemma sys_send_scheduled:
  "current_task_id k = Some w \<Longrightarrow> \<exists>k0. sys_send_typed 0 (tag_to_u16 Raw) 1 (ascii ''ping'') k = send_iter w 0 (stress_ping w) k0 \<and>
     (\<forall>j. get_task k0 j = get_task k j) \<and> (kernel_wf k \<longrightarrow> kernel_wf k0)"
proof -
  assume "current_task_id k = Some w"
  moreover have "check_send (tag_to_u16 Raw) 1 (ascii ''ping'') = Inr Raw" by (simp add: check_send_def ascii_def PAYLOAD_MAX_def IpcTag_from_u16_def)
  ultimately show ?thesis
    by (intro exI [of _ "log_trace ''ipc_send'' (of_nat 0) (ucast (tag_to_u16 Raw)) k"])
      (simp add: sys_send_typed_def send_begin_def stress_ping_def del: tag_to_u16.simps)
qed

text \<open>A state in which everything but the positions and tasks of the pair is as it should be.\<close>

definition calm :: "task_id \<Rightarrow> task_id \<Rightarrow> stress_state \<Rightarrow> bool" where
  "calm x y s \<longleftrightarrow> kernel_wf (ss_kernel s) \<and> undisturbed x y (ss_kernel s)"

lemma calm_sym: "calm x y s = calm y x s"
  by (simp add: calm_def undisturbed_sym)

lemma calm_scheduled: "calm x y s \<Longrightarrow> kernel_wf (scheduled w (ss_kernel s)) \<and> undisturbed x y (scheduled w (ss_kernel s))"
  by (simp add: calm_def scheduled_wf scheduled_undisturbed)

lemma step_receive:
  assumes "calm y x s" "ss_pc s y \<in> {AtReceive, InReceive}"
  obtains k0 where "worker_step y s = worker_received y (receive_iter y k0) s" "kernel_wf k0" "undisturbed y x k0"
    "\<And>j. get_task k0 j = get_task (scheduled y (ss_kernel s)) j"
proof -
  let ?k = "scheduled y (ss_kernel s)"
  note c = calm_scheduled [OF assms(1), of y]
  obtain k0 where k0: "sys_receive_typed ?k = receive_iter y k0" "\<forall>j. get_task k0 j = get_task ?k j" "kernel_wf ?k \<longrightarrow> kernel_wf k0"
    using sys_receive_scheduled [of ?k y] by auto
  show ?thesis
  proof (cases "ss_pc s y = AtReceive")
    case True
    then show ?thesis using that [of k0] k0 c undisturbed_frame [of y x ?k k0] by (simp add: worker_step_def)
  next
    case False
    then show ?thesis using that [of ?k] c assms(2) by (simp add: worker_step_def)
  qed
qed

lemma step_send:
  assumes "calm x y s" "ss_pc s x = AtSend"
  obtains k0 where "worker_step x s = worker_sent x (send_iter x 0 (stress_ping x) k0) s" "kernel_wf k0" "undisturbed x y k0"
    "\<And>j. get_task k0 j = get_task (scheduled x (ss_kernel s)) j"
proof -
  let ?k = "scheduled x (ss_kernel s)"
  note c = calm_scheduled [OF assms(1), of x]
  obtain k0 where k0: "sys_send_typed 0 (tag_to_u16 Raw) 1 (ascii ''ping'') ?k = send_iter x 0 (stress_ping x) k0"
    "\<forall>j. get_task k0 j = get_task ?k j" "kernel_wf ?k \<longrightarrow> kernel_wf k0"
    using sys_send_scheduled [of ?k x] by auto
  then show ?thesis using that [of k0] c undisturbed_frame [of x y ?k k0] assms(2) by (simp add: worker_step_def del: tag_to_u16.simps)
qed

text \<open>A worker without the message that can run gets nearer to waiting, and the message stays where it is.\<close>

lemma step_without:
  assumes "calm y x s" "x \<noteq> y" "without s y x" "runnable y s" "stress_worker (ss_kernel s) x y S buf" "S = awake \<or> S = {BlockedOnSend y} \<and> ss_pc s y = InSend"
  shows "calm y x (worker_step y s) \<and> without (worker_step y s) y x \<and> stress_worker (ss_kernel (worker_step y s)) x y S buf \<and>
     rest_of (ss_pc (worker_step y s) y) < rest_of (ss_pc s y) \<and> ss_pc (worker_step y s) x = ss_pc s x \<and>
     ss_deliveries (worker_step y s) = ss_deliveries s \<and> ss_pc (worker_step y s) y \<in> {AtReceive, InReceive} \<and>
     (ss_pc s y = InSend \<longrightarrow> ss_pc (worker_step y s) y = AtReceive \<and> stress_worker (ss_kernel (worker_step y s)) y x awake None)"
proof -
  let ?k = "scheduled y (ss_kernel s)"
  have y: "ss_pc s y \<in> {AtReceive, InSend}" "stress_worker (ss_kernel s) y x awake None"
    using assms(3,4) by (auto simp: without_def stress_worker_def runnable_def awake_def)
  note c = calm_scheduled [OF assms(1), of y]
  have x: "stress_worker ?k x y S buf" using assms(2,5,6) scheduled_worker(2,4) by blast
  have y': "stress_worker ?k y x awake None" by (rule scheduled_worker(1) [OF y(2)])
  show ?thesis
  proof (cases "ss_pc s y = InSend")
    case True
    have "send_resume y ?k = Done (Inr ())" using y' by (auto simp: send_resume_def stress_worker_def)
    then have "worker_step y s = s\<lparr>ss_kernel := ?k, ss_pc := (ss_pc s)(y := AtReceive)\<rparr>"
      using True by (simp add: worker_step_def worker_sent_def)
    then show ?thesis using c x y' True assms(2) by (simp add: calm_def without_def rest_of_def)
  next
    case False
    then have pc: "ss_pc s y = AtReceive" and S: "S = awake" using y(1) assms(6) by auto
    obtain k0 where k0: "worker_step y s = worker_received y (receive_iter y k0) s" "kernel_wf k0" "undisturbed y x k0"
      "\<And>j. get_task k0 j = get_task ?k j"
      by (rule step_receive [OF assms(1)]) (use pc in simp, blast)
    obtain r k' where r: "receive_iter y k0 = (r, k')" by fastforce
    have w0: "stress_worker k0 y x awake None" "stress_worker k0 x y awake buf" using x y' S worker_frame [OF k0(4)] by simp_all
    note w = receive_waits [OF k0(2,3) w0 _ r]
    have ns: "BlockedOnSend y \<notin> awake" by (simp add: awake_def)
    have "get_task k' j = get_task k0 j" if "j \<noteq> y" for j using w(3) [OF ns that] .
    then have "stress_worker k' x y awake buf" "undisturbed y x k'"
      using w0(2) assms(2) worker_frame [of k' x k0] undisturbed_frame [OF k0(3), of k'] by simp_all
    moreover have "kernel_wf k'" using kernel_wf_receive_iter [OF k0(2), of y] r by simp
    ultimately show ?thesis
      using w(1,2) [OF ns] k0(1) r pc S assms(2) by (simp add: worker_received_def calm_def without_def rest_of_def)
  qed
qed

text \<open>The steps that move the message.\<close>

lemma step_holds:
  assumes "calm x y s" "x \<noteq> y" "holds s x y"
  shows "calm x y (worker_step x s) \<and> ss_deliveries (worker_step x s) = ss_deliveries s \<and>
    (offers (worker_step x s) x y \<and> ss_pc (worker_step x s) y = ss_pc s y \<or>
     has_got (worker_step x s) y x \<and> ss_pc s y = InReceive \<and> ss_pc (worker_step x s) x = AtReceive)"
proof -
  let ?k = "scheduled x (ss_kernel s)"
  have x: "ss_pc s x = AtSend" "stress_worker (ss_kernel s) x y awake None" "without s y x" using assms(3) by (simp_all add: holds_def)
  obtain k0 where k0: "worker_step x s = worker_sent x (send_iter x 0 (stress_ping x) k0) s" "kernel_wf k0" "undisturbed x y k0"
    "\<And>j. get_task k0 j = get_task ?k j" by (rule step_send [OF assms(1) x(1)]) blast
  obtain r k' where r: "send_iter x 0 (stress_ping x) k0 = (r, k')" by fastforce
  have wf': "kernel_wf k'" using kernel_wf_send_iter [OF k0(2), of x 0 "stress_ping x"] r by simp
  have x0: "stress_worker k0 x y awake None" using scheduled_worker(1) [OF x(2)] worker_frame [OF k0(4)] by simp
  consider "ss_pc s y \<in> {AtReceive, InSend}" "stress_worker (ss_kernel s) y x awake None"
    | "ss_pc s y = InReceive" "stress_worker (ss_kernel s) y x {BlockedOnReceive} None" using x(3) by (auto simp: without_def)
  then show ?thesis
  proof cases
    case 1
    have y0: "stress_worker k0 y x awake None" using scheduled_worker(2) [OF assms(2) [symmetric] 1(2)] worker_frame [OF k0(4)] by simp
    note p = send_to_awake [OF x0 y0 assms(2) r]
    have "stress_worker k' y x awake None" "undisturbed x y k'"
      using y0 p(3) assms(2) worker_frame [of k' y k0] undisturbed_frame [OF k0(3), of k'] by simp_all
    then show ?thesis
      using k0(1) r p(1,2) wf' 1(1) assms(2) by (auto simp: worker_sent_def calm_def offers_def)
  next
    case 2
    have y0: "stress_worker k0 y x {BlockedOnReceive} None" using scheduled_worker(3) [OF assms(2) [symmetric] 2(2)] worker_frame [OF k0(4)] by simp
    note p = send_to_waiting [OF x0 y0 assms(2) r]
    have "stress_worker k' x y awake None" "undisturbed x y k'"
      using x0 p(3) assms(2) worker_frame [of k' x k0] undisturbed_frame [OF k0(3), of k'] by simp_all
    then show ?thesis
      using k0(1) r p(1,2) wf' 2(1) assms(2) by (auto simp: worker_sent_def calm_def has_got_def without_def)
  qed
qed

lemma step_offers:
  assumes "calm x y s" "x \<noteq> y" "offers s x y" "ss_pc s y = AtReceive"
  shows "calm x y (worker_step y s) \<and> ss_deliveries (worker_step y s) = ss_deliveries s + 1 \<and> holds (worker_step y s) y x"
proof -
  let ?k = "scheduled y (ss_kernel s)"
  have w: "ss_pc s x = InSend" "stress_worker (ss_kernel s) x y {BlockedOnSend y} (Some (stress_ping x))" "stress_worker (ss_kernel s) y x awake None"
    using assms(3) by (simp_all add: offers_def)
  have c: "calm y x s" using assms(1) by (simp add: calm_sym)
  obtain k0 where k0: "worker_step y s = worker_received y (receive_iter y k0) s" "kernel_wf k0" "undisturbed y x k0"
    "\<And>j. get_task k0 j = get_task ?k j" by (rule step_receive [OF c]) (use assms(4) in simp, blast)
  have w0: "stress_worker k0 y x awake None" "stress_worker k0 x y {BlockedOnSend y} (Some (stress_ping x))"
    using scheduled_worker(1) [OF w(3)] scheduled_worker(4) [OF assms(2) w(2)] worker_frame [OF k0(4)] by simp_all
  obtain r k' where r: "receive_iter y k0 = (r, k')" by fastforce
  note p = receive_from_sender [OF k0(2,3) w0 assms(2) [symmetric] r]
  have "kernel_wf k'" using kernel_wf_receive_iter [OF k0(2), of y] r by simp
  moreover have "undisturbed x y k'" using undisturbed_frame [OF k0(3), of k'] p(4) by (simp add: undisturbed_sym)
  ultimately show ?thesis
    using k0(1) r p(1-3) w(1) assms(2) by (simp add: worker_received_def calm_def holds_def without_def)
qed

lemma step_has_got:
  assumes "calm x y s" "x \<noteq> y" "has_got s x y"
  shows "calm x y (worker_step x s) \<and> ss_deliveries (worker_step x s) = ss_deliveries s + 1 \<and> holds (worker_step x s) x y \<and>
    ss_pc (worker_step x s) y = ss_pc s y"
proof -
  let ?k = "scheduled x (ss_kernel s)"
  have w: "ss_pc s x = InReceive" "stress_worker (ss_kernel s) x y awake (Some (stress_ping y))" "without s y x"
    using assms(3) by (simp_all add: has_got_def)
  obtain k0 where k0: "worker_step x s = worker_received x (receive_iter x k0) s" "kernel_wf k0" "undisturbed x y k0"
    "\<And>j. get_task k0 j = get_task ?k j" by (rule step_receive [OF assms(1)]) (use w(1) in simp, blast)
  have w0: "stress_worker k0 x y awake (Some (stress_ping y))" using scheduled_worker(1) [OF w(2)] worker_frame [OF k0(4)] by simp
  obtain r k' where r: "receive_iter x k0 = (r, k')" by fastforce
  note p = receive_own [OF k0(2) w0 r]
  have eq: "get_task k' y = get_task k0 y" using p(3) assms(2) by simp
  have "kernel_wf k'" using kernel_wf_receive_iter [OF k0(2), of x] r by simp
  moreover have "undisturbed x y k'" using undisturbed_frame [OF k0(3), of k'] p(3) by simp
  moreover have "stress_worker k' y x S None" if "stress_worker (ss_kernel s) y x S None" "S = awake \<or> S = {BlockedOnReceive}" for S
    using that scheduled_worker(2,3) [OF assms(2) [symmetric]] worker_frame [OF eq] worker_frame [OF k0(4)] by blast
  ultimately show ?thesis
    using k0(1) r p(1,2) w(3) assms(2) by (auto simp: worker_received_def calm_def holds_def without_def)
qed

lemma blocked_not_runnable: "stress_worker (ss_kernel s) w p {BlockedOnSend q} buf \<Longrightarrow> \<not> runnable w s"
  by (auto simp: stress_worker_def runnable_def awake_def)

text \<open>A step of either worker keeps one message in flight; it delivers it, or brings the next delivery nearer.\<close>

definition pair_stage :: "task_id \<Rightarrow> task_id \<Rightarrow> stress_state \<Rightarrow> nat \<Rightarrow> bool" where
  "pair_stage x y s n \<longleftrightarrow> holds s x y \<and> n = 3 + rest_of (ss_pc s y) \<or> offers s x y \<and> n = rest_of (ss_pc s y) \<or>
     has_got s x y \<and> n = 1 + rest_of (ss_pc s y)"

definition moves_on :: "stress_state \<Rightarrow> nat \<Rightarrow> stress_state \<Rightarrow> nat \<Rightarrow> bool" where
  "moves_on s n s' n' \<longleftrightarrow> ss_deliveries s' = ss_deliveries s \<and> n' < n \<or> ss_deliveries s' = ss_deliveries s + 1 \<and> 0 < n \<and> n' \<le> 5"

lemma rest_of_le: "rest_of p \<le> 2"
  by (simp add: rest_of_def split: worker_pc.split)

lemma stage_step:
  assumes "calm x y s" "x \<noteq> y" "pair_stage x y s n" "runnable w s" "w \<in> {x, y}"
  shows "\<exists>n'. calm x y (worker_step w s) \<and> (pair_stage x y (worker_step w s) n' \<or> pair_stage y x (worker_step w s) n') \<and> moves_on s n (worker_step w s) n'"
proof -
  have c: "calm y x s" using assms(1) by (simp add: calm_sym)
  consider (h) "holds s x y" "n = 3 + rest_of (ss_pc s y)" | (o) "offers s x y" "n = rest_of (ss_pc s y)"
    | (g) "has_got s x y" "n = 1 + rest_of (ss_pc s y)" using assms(3) by (auto simp: pair_stage_def)
  then show ?thesis
  proof cases
    case h
    show ?thesis
    proof (cases "w = x")
      case True
      show ?thesis using step_holds [OF assms(1,2) h(1)] h(2) True
        by (auto simp: pair_stage_def moves_on_def rest_of_def calm_sym)
    next
      case False
      then have w: "w = y" using assms(5) by simp
      have "without s y x" "stress_worker (ss_kernel s) x y awake None" using h(1) by (simp_all add: holds_def)
      from step_without [OF c assms(2) this(1) _ this(2)] assms(4) w
      show ?thesis using h by (auto simp: pair_stage_def moves_on_def holds_def calm_sym)
    qed
  next
    case o
    have x: "stress_worker (ss_kernel s) x y {BlockedOnSend y} (Some (stress_ping x))" using o(1) by (simp add: offers_def)
    then have w: "w = y" using assms(4,5) blocked_not_runnable by blast
    show ?thesis
    proof (cases "ss_pc s y = AtReceive")
      case True
      then show ?thesis using step_offers [OF assms(1,2) o(1)] o(2) w rest_of_le [of "ss_pc (worker_step y s) x"]
        by (auto simp: pair_stage_def moves_on_def rest_of_def calm_sym split: worker_pc.split)
    next
      case False
      then have "ss_pc s y = InSend" "without s y x" using o(1) by (auto simp: offers_def without_def)
      from step_without [OF c assms(2) this(2) _ x] this(1) assms(4) w
      show ?thesis using o by (auto simp: pair_stage_def moves_on_def offers_def calm_sym)
    qed
  next
    case g
    show ?thesis
    proof (cases "w = x")
      case True
      show ?thesis using step_has_got [OF assms(1,2) g(1)] g(2) True rest_of_le [of "ss_pc s y"]
        by (auto simp: pair_stage_def moves_on_def)
    next
      case False
      then have w: "w = y" using assms(5) by simp
      have "without s y x" "stress_worker (ss_kernel s) x y awake (Some (stress_ping y))" using g(1) by (simp_all add: has_got_def)
      from step_without [OF c assms(2) this(1) _ this(2)] assms(4) w
      show ?thesis using g by (auto simp: pair_stage_def moves_on_def has_got_def calm_sym)
    qed
  qed
qed

subsection \<open>Runs\<close>

text \<open>What other tasks and the scheduler may do in between: anything that leaves what the two workers own alone, does not wake or block
  them, and does not make a third task wait for one of them.\<close>

definition same_worker :: "task \<Rightarrow> task \<Rightarrow> bool" where
  "same_worker t t' \<longleftrightarrow> t_caps t' = t_caps t \<and> t_ipc_buffer t' = t_ipc_buffer t \<and> t_msg_queue t' = t_msg_queue t \<and>
     (t_state t' = t_state t \<or> t_state t \<in> awake \<and> t_state t' \<in> awake)"

definition elsewhere :: "task_id \<Rightarrow> task_id \<Rightarrow> kernel \<Rightarrow> kernel \<Rightarrow> bool" where
  "elsewhere a b k k' \<longleftrightarrow> kernel_wf k' \<and> undisturbed a b k' \<and>
     rel_option same_worker (get_task k a) (get_task k' a) \<and> rel_option same_worker (get_task k b) (get_task k' b)"

inductive stress_run :: "task_id \<Rightarrow> task_id \<Rightarrow> stress_state \<Rightarrow> nat \<Rightarrow> stress_state \<Rightarrow> bool" for a b s where
  run_start: "stress_run a b s 0 s"
| run_step: "stress_run a b s n s' \<Longrightarrow> w \<in> {a, b} \<Longrightarrow> runnable w s' \<Longrightarrow> stress_run a b s (Suc n) (worker_step w s')"
| run_other: "stress_run a b s n s' \<Longrightarrow> elsewhere a b (ss_kernel s') k' \<Longrightarrow> stress_run a b s n (s'\<lparr>ss_kernel := k'\<rparr>)"

lemma worker_elsewhere:
  assumes "rel_option same_worker (get_task k i) (get_task k' i)" "stress_worker k i p S buf" "S = awake \<or> S \<inter> awake = {}"
  shows "stress_worker k' i p S buf"
proof -
  obtain t c where t: "get_task k i = Some t" "t_state t \<in> S" "t_ipc_buffer t = buf" "queue_contents (t_msg_queue t) = []"
    "cap_at (t_caps t) 0 = Some c" "cap_resource c = IpcChannel p" using assms(2) by (auto simp: stress_worker_def)
  obtain t' where "get_task k' i = Some t'" "same_worker t t'" using assms(1) t(1) by (auto simp: option_rel_Some1)
  then show ?thesis using t assms(3) by (auto simp: stress_worker_def same_worker_def)
qed

lemma stage_elsewhere:
  assumes "pair_stage x y s n" "rel_option same_worker (get_task (ss_kernel s) x) (get_task k' x)"
    "rel_option same_worker (get_task (ss_kernel s) y) (get_task k' y)"
  shows "pair_stage x y (s\<lparr>ss_kernel := k'\<rparr>) n"
proof -
  have a: "awake = awake \<or> awake \<inter> awake = {}" "{BlockedOnReceive} = awake \<or> {BlockedOnReceive} \<inter> awake = {}"
    "{BlockedOnSend q} = awake \<or> {BlockedOnSend q} \<inter> awake = {}" for q by (auto simp: awake_def)
  note wx = worker_elsewhere [OF assms(2) _ a(1)] worker_elsewhere [OF assms(2) _ a(2)] worker_elsewhere [OF assms(2) _ a(3)]
    and wy = worker_elsewhere [OF assms(3) _ a(1)] worker_elsewhere [OF assms(3) _ a(2)]
  have "without (s\<lparr>ss_kernel := k'\<rparr>) y x" if "without s y x" using that wy by (auto simp: without_def)
  then show ?thesis using assms(1) wx wy by (auto simp: pair_stage_def holds_def offers_def has_got_def)
qed

definition pair_ok :: "task_id \<Rightarrow> task_id \<Rightarrow> stress_state \<Rightarrow> nat \<Rightarrow> bool" where
  "pair_ok a b s n \<longleftrightarrow> calm a b s \<and> (pair_stage a b s n \<or> pair_stage b a s n)"

lemma pair_ok_run:
  assumes "stress_run a b s n s'" "pair_ok a b s l" "a \<noteq> b"
  shows "\<exists>m l'. ss_deliveries s' = ss_deliveries s + of_nat m \<and> pair_ok a b s' l' \<and> n + l' \<le> l + 5 * m \<and> m \<le> n"
  using assms(1)
proof (induction rule: stress_run.induct)
  case run_start
  then show ?case using assms(2) by (intro exI [of _ 0] exI [of _ l]) simp
next
  case (run_step n s' w)
  then obtain m l' where ih: "ss_deliveries s' = ss_deliveries s + of_nat m" "pair_ok a b s' l'" "n + l' \<le> l + 5 * m" "m \<le> n" by blast
  have "\<exists>l''. pair_ok a b (worker_step w s') l'' \<and> moves_on s' l' (worker_step w s') l''"
    using ih(2) stage_step [of a b s' l' w] stage_step [of b a s' l' w] run_step(2,3) assms(3)
    by (auto simp: pair_ok_def calm_sym [of b a])
  then obtain l'' where l'': "pair_ok a b (worker_step w s') l''" "moves_on s' l' (worker_step w s') l''" by blast
  from l''(2) show ?case unfolding moves_on_def
  proof (elim disjE conjE)
    assume "ss_deliveries (worker_step w s') = ss_deliveries s'" "l'' < l'"
    then show ?thesis using ih l''(1) by (intro exI [of _ m] exI [of _ l'']) simp
  next
    assume "ss_deliveries (worker_step w s') = ss_deliveries s' + 1" "0 < l'" "l'' \<le> 5"
    then show ?thesis using ih l''(1) by (intro exI [of _ "Suc m"] exI [of _ l'']) (simp add: add.assoc)
  qed
next
  case (run_other n s' k')
  then obtain m l' where ih: "ss_deliveries s' = ss_deliveries s + of_nat m" "pair_ok a b s' l'" "n + l' \<le> l + 5 * m" "m \<le> n" by blast
  have "pair_ok a b (s'\<lparr>ss_kernel := k'\<rparr>) l'"
    using ih(2) run_other(2) stage_elsewhere [of a b s' l' k'] stage_elsewhere [of b a s' l' k']
    by (auto simp: pair_ok_def calm_def elsewhere_def)
  then show ?case using ih by (intro exI [of _ m] exI [of _ l']) simp
qed

text \<open>The messages of the pair: one in the hands of a worker that is about to send it, and those in the buffers.\<close>

definition in_flight :: "task_id \<Rightarrow> task_id \<Rightarrow> stress_state \<Rightarrow> nat" where
  "in_flight a b s =
     length (filter (\<lambda>w. ss_pc s w = AtSend) [a, b]) +
     length (filter (\<lambda>w. case get_task (ss_kernel s) w of Some t \<Rightarrow> t_ipc_buffer t \<noteq> None | None \<Rightarrow> False) [a, b])"

lemma stage_facts:
  assumes "pair_stage x y s n"
  shows "in_flight x y s = 1" "in_flight y x s = 1" "runnable x s \<or> runnable y s"
  using assms by (auto simp: pair_stage_def holds_def offers_def has_got_def without_def in_flight_def stress_worker_def runnable_def awake_def)

text \<open>The pair as the command loads it.\<close>

lemma loaded_pair:
  assumes "kernel_wf k" "i < 8" "undisturbed (73 + 2 * i) (74 + 2 * i) k" "stress_pair entry i k = Ret k'"
  shows "pair_ok (73 + 2 * i) (74 + 2 * i) (stress_begin k') 4"
proof -
  let ?a = "73 + 2 * i" and ?b = "74 + 2 * i"
  obtain k2 k3 k4 ca cb where p: "stress_pair entry i k = Ret k4" "\<And>j. get_task k2 j = get_task k j"
    "placed ?a (single_table ca) k2 k3" "cap_resource ca = IpcChannel ?b"
    "placed ?b (single_table cb) k3 k4" "cap_resource cb = IpcChannel ?a"
    by (rule stress_pair_placed [OF assms(1,2), of entry]) (rule that)
  have k': "k' = k4" using p(1) assms(4) by simp
  have "get_task k4 ?a = get_task k3 ?a" using placedD(3) [OF p(5), of ?a] by simp
  then have "stress_worker k4 ?a ?b awake None" using p(3,4) by (auto simp: placed_def stress_worker_def awake_def)
  moreover have "stress_worker k4 ?b ?a awake None" using p(5,6) by (auto simp: placed_def stress_worker_def awake_def)
  moreover have "undisturbed ?a ?b k4"
    using placedD(3) [OF p(5)] placedD(3) [OF p(3)] p(2) by (intro undisturbed_frame [OF assms(3)]) simp
  ultimately show ?thesis
    using placedD(1) [OF p(5)] by (simp add: pair_ok_def calm_def pair_stage_def holds_def without_def stress_begin_def k' rest_of_def)
qed


text \<open>The workers can always make a step more, so runs of every length exist.\<close>

lemma stress_run_exists:
  assumes "pair_ok a b s l" "a \<noteq> b"
  shows "\<exists>s'. stress_run a b s n s'"
proof (induction n)
  case 0
  show ?case using run_start by blast
next
  case (Suc n)
  then obtain s' where s': "stress_run a b s n s'" by blast
  obtain l' where "pair_ok a b s' l'" using pair_ok_run [OF s' assms] by blast
  then have "runnable a s' \<or> runnable b s'"
    using stage_facts(3) [of a b s' l'] stage_facts(3) [of b a s' l'] by (auto simp: pair_ok_def)
  then show ?case using run_step [OF s'] by blast
qed


end
