(* ===== verification/Sync_Demo.thy ===== *)
theory Sync_Demo
  imports Sync_Service Demos
begin

text \<open>
  The synchronisation demonstration of \<open>shell/mod.rs\<close>: tasks that increment a shared counter by loading it, spinning and
  storing it back, once under a mutex of the synchronisation service and once without.  A step of a worker is one call of
  the service or one access to the counter; the steps of the workers interleave in any order.
\<close>

subsection \<open>The workers\<close>

text \<open>The argument is the number of rounds still to begin; a loaded worker also has the value it read.\<close>

datatype worker = Idle nat | Queued nat | Holding nat | Loaded nat nat | Stored nat

record sync_demo =
  d_obj :: sync_object
  d_counter :: nat
  d_worker :: "nat \<Rightarrow> worker"

text \<open>
  \<open>sync_demo_guarded_task\<close>: the answer of the service is not looked at, so any answer lets the worker go on; only when
  none is sent it waits.
\<close>

definition worker_acquire :: "nat \<Rightarrow> nat \<Rightarrow> sync_demo \<Rightarrow> sync_demo" where
  "worker_acquire i n s =
     (case sync_acquire i (d_obj s) of
        (r, b) \<Rightarrow> s\<lparr>d_obj := b, d_worker := (d_worker s)(i := if r = None then Queued n else Holding n)\<rparr>)"

definition worker_load :: "nat \<Rightarrow> nat \<Rightarrow> sync_demo \<Rightarrow> sync_demo" where
  "worker_load i n s = s\<lparr>d_worker := (d_worker s)(i := Loaded n (d_counter s))\<rparr>"

definition worker_store :: "nat \<Rightarrow> worker \<Rightarrow> nat \<Rightarrow> sync_demo \<Rightarrow> sync_demo" where
  "worker_store i after val s = s\<lparr>d_counter := val + 1, d_worker := (d_worker s)(i := after)\<rparr>"

text \<open>A waiter that is handed the permit gets its answer and goes on.\<close>

definition worker_woken :: "worker \<Rightarrow> worker" where
  "worker_woken w = (case w of Queued n \<Rightarrow> Holding n | _ \<Rightarrow> w)"

definition worker_release :: "nat \<Rightarrow> nat \<Rightarrow> sync_demo \<Rightarrow> sync_demo run" where
  "worker_release i n s =
     run_bind (sync_release (d_obj s)) (\<lambda>(w, b).
       let ws = (d_worker s)(i := Idle n)
       in Ret (s\<lparr>d_obj := b, d_worker := (case w of Some t \<Rightarrow> ws(t := worker_woken (ws t)) | None \<Rightarrow> ws)\<rparr>))"

inductive guarded_step :: "nat set \<Rightarrow> sync_demo \<Rightarrow> sync_demo \<Rightarrow> bool" for ws where
  acquire: "i \<in> ws \<Longrightarrow> d_worker s i = Idle (Suc n) \<Longrightarrow> guarded_step ws s (worker_acquire i n s)"
| load: "i \<in> ws \<Longrightarrow> d_worker s i = Holding n \<Longrightarrow> guarded_step ws s (worker_load i n s)"
| store: "i \<in> ws \<Longrightarrow> d_worker s i = Loaded n v \<Longrightarrow> guarded_step ws s (worker_store i (Stored n) v s)"
| release: "i \<in> ws \<Longrightarrow> d_worker s i = Stored n \<Longrightarrow> worker_release i n s = Ret s' \<Longrightarrow> guarded_step ws s s'"

inductive unguarded_step :: "nat set \<Rightarrow> sync_demo \<Rightarrow> sync_demo \<Rightarrow> bool" for ws where
  load: "i \<in> ws \<Longrightarrow> d_worker s i = Idle (Suc n) \<Longrightarrow> unguarded_step ws s (worker_load i n s)"
| store: "i \<in> ws \<Longrightarrow> d_worker s i = Loaded n v \<Longrightarrow> unguarded_step ws s (worker_store i (Idle n) v s)"

text \<open>The start: a fresh mutex, the counter at zero, every worker with the same number of rounds to do.\<close>

definition demo_start :: "nat \<Rightarrow> sync_demo" where
  "demo_start rounds = \<lparr>d_obj = snd (sync_create True 1 SyncObject_new), d_counter = 0, d_worker = (\<lambda>_. Idle rounds)\<rparr>"

definition finished :: "nat set \<Rightarrow> sync_demo \<Rightarrow> bool" where
  "finished ws s \<longleftrightarrow> (\<forall>i \<in> ws. d_worker s i = Idle 0)"

subsection \<open>The invariant\<close>

definition critical :: "worker \<Rightarrow> bool" where
  "critical w = (case w of Holding _ \<Rightarrow> True | Loaded _ _ \<Rightarrow> True | Stored _ \<Rightarrow> True | _ \<Rightarrow> False)"

definition queued :: "worker \<Rightarrow> bool" where
  "queued w = (case w of Queued _ \<Rightarrow> True | _ \<Rightarrow> False)"

text \<open>Increments still to be made.\<close>

definition left :: "worker \<Rightarrow> nat" where
  "left w = (case w of Idle n \<Rightarrow> n | Queued n \<Rightarrow> Suc n | Holding n \<Rightarrow> Suc n | Loaded n _ \<Rightarrow> Suc n | Stored n \<Rightarrow> n)"

text \<open>Steps still to be made, an upper bound.\<close>

definition work :: "worker \<Rightarrow> nat" where
  "work w = (case w of Idle n \<Rightarrow> 5 * n | Queued n \<Rightarrow> 5 * n + 4 | Holding n \<Rightarrow> 5 * n + 3 | Loaded n _ \<Rightarrow> 5 * n + 2 | Stored n \<Rightarrow> 5 * n + 1)"

definition demo_inv :: "nat set \<Rightarrow> nat \<Rightarrow> sync_demo \<Rightarrow> bool" where
  "demo_inv ws N s \<longleftrightarrow>
     object_inv (d_obj s) \<and> so_is_mutex (d_obj s) \<and>
     (if so_count (d_obj s) = 1 then (\<forall>i \<in> ws. \<not> critical (d_worker s i))
      else so_count (d_obj s) = 0 \<and> (\<exists>i \<in> ws. critical (d_worker s i) \<and> (\<forall>j \<in> ws. critical (d_worker s j) \<longrightarrow> j = i))) \<and>
     distinct (waiting (d_obj s)) \<and> set (waiting (d_obj s)) = {i \<in> ws. queued (d_worker s i)} \<and>
     (\<forall>i \<in> ws. \<forall>n v. d_worker s i = Loaded n v \<longrightarrow> v = d_counter s) \<and>
     d_counter s + (\<Sum>i \<in> ws. left (d_worker s i)) = N"

lemma worker_simps [simp]:
  "critical (Idle n) = False" "critical (Queued n) = False" "critical (Holding n)" "critical (Loaded n v)" "critical (Stored n)"
  "queued (Idle n) = False" "queued (Queued n)" "queued (Holding n) = False" "queued (Loaded n v) = False" "queued (Stored n) = False"
  "left (Idle n) = n" "left (Queued n) = Suc n" "left (Holding n) = Suc n" "left (Loaded n v) = Suc n" "left (Stored n) = n"
  by (simp_all add: critical_def queued_def left_def)

lemma sum_upd:
  fixes f :: "worker \<Rightarrow> nat"
  assumes "finite ws" "i \<in> ws"
  shows "(\<Sum>j \<in> ws. f ((g(i := w)) j)) + f (g i) = (\<Sum>j \<in> ws. f (g j)) + f w"
proof -
  have "(\<Sum>j \<in> ws. f ((g(i := w)) j)) = f w + (\<Sum>j \<in> ws - {i}. f (g j))"
    using assms by (simp add: sum.remove [of ws i])
  moreover have "(\<Sum>j \<in> ws. f (g j)) = f (g i) + (\<Sum>j \<in> ws - {i}. f (g j))"
    using assms by (simp add: sum.remove [of ws i])
  ultimately show ?thesis by simp
qed

lemma demo_inv_start:
  assumes "finite ws"
  shows "demo_inv ws (card ws * rounds) (demo_start rounds)"
proof -
  obtain r b where c: "sync_create True 1 SyncObject_new = (r, b)" by fastforce
  have o: "object_inv SyncObject_new"
    using waiters.inv_empty waiters.contents_empty by (simp add: object_inv_def SyncObject_new_def i32_MAX_def)
  have "\<not> so_used SyncObject_new" by (simp add: SyncObject_new_def)
  then show ?thesis
    using sync_create_inv [OF o _ _ c] c by (simp add: demo_inv_def demo_start_def i32_MAX_def)
qed

lemma demo_inv_acquire:
  assumes inv: "demo_inv ws N s" and ws: "finite ws" "card ws \<le> SYNC_MAX_WAIT" and i: "i \<in> ws" "d_worker s i = Idle (Suc n)"
  shows "demo_inv ws N (worker_acquire i n s)"
proof -
  obtain r b where a: "sync_acquire i (d_obj s) = (r, b)" by fastforce
  have o: "object_inv (d_obj s)" using inv by (simp add: demo_inv_def)
  note sp = sync_acquire_spec [OF o a]
  have w: "distinct (waiting (d_obj s))" "set (waiting (d_obj s)) = {j \<in> ws. queued (d_worker s j)}"
    using inv by (simp_all add: demo_inv_def)
  have "length (waiting (d_obj s)) < card ws"
  proof -
    have "i \<notin> set (waiting (d_obj s))" "set (waiting (d_obj s)) \<subseteq> ws" unfolding w(2) using i(2) by auto
    then have "set (waiting (d_obj s)) \<subset> ws" using i(1) by blast
    then have "card (set (waiting (d_obj s))) < card ws" by (rule psubset_card_mono [OF ws(1)])
    then show ?thesis using distinct_card [OF w(1)] by simp
  qed
  then have room: "length (waiting (d_obj s)) \<noteq> SYNC_MAX_WAIT" using ws(2) by simp
  have c01: "so_count (d_obj s) = 0 \<or> so_count (d_obj s) = 1" using inv by (auto simp: demo_inv_def split: if_splits)
  let ?w = "if r = None then Queued n else Holding n"
  have sum: "(\<Sum>j \<in> ws. left (((d_worker s)(i := ?w)) j)) = (\<Sum>j \<in> ws. left (d_worker s j))"
    using sum_upd [OF ws(1) i(1), of left "d_worker s" ?w] i(2) by (auto split: if_splits)
  consider "r = Some 0" "waiting b = []" "so_count b = 0" "so_count (d_obj s) = 1" "waiting (d_obj s) = []"
    | "r = None" "waiting b = waiting (d_obj s) @ [i]" "so_count b = 0" "so_count (d_obj s) = 0"
    using sp(4) room c01 by auto
  then show ?thesis
  proof cases
    case 1
    have s': "worker_acquire i n s = s\<lparr>d_obj := b, d_worker := (d_worker s)(i := Holding n)\<rparr>"
      using a 1 by (simp add: worker_acquire_def)
    have "\<not> queued (d_worker s j)" if "j \<in> ws" for j using w(2) 1(5) that by auto
    then show ?thesis
      using inv sp(1,2) 1 i sum unfolding s' demo_inv_def by (auto simp: fun_upd_def split: if_splits)
  next
    case 2
    let ?g = "(d_worker s)(i := Queued n)"
    have s': "worker_acquire i n s = s\<lparr>d_obj := b, d_worker := ?g\<rparr>"
      using a 2 by (simp add: worker_acquire_def)
    have "i \<notin> set (waiting (d_obj s))" using w(2) i by simp
    moreover have "insert i (set (waiting (d_obj s))) = {j \<in> ws. queued (((d_worker s)(i := Queued n)) j)}"
      using w(2) i(1) by auto
    moreover have "\<exists>h \<in> ws. critical (?g h) \<and> (\<forall>j \<in> ws. critical (?g j) \<longrightarrow> j = h)"
    proof -
      obtain h where h: "h \<in> ws" "critical (d_worker s h)" "\<And>j. j \<in> ws \<Longrightarrow> critical (d_worker s j) \<Longrightarrow> j = h"
        using inv 2(4) by (auto simp: demo_inv_def)
      have g: "critical (?g j) \<longleftrightarrow> critical (d_worker s j)" for j using i(2) by simp
      show ?thesis unfolding g using h by blast
    qed
    moreover have "v = d_counter s" if "j \<in> ws" "?g j = Loaded m v" for j m v
      using inv that by (cases "j = i") (auto simp: demo_inv_def)
    moreover have "d_counter s + (\<Sum>j \<in> ws. left (?g j)) = N" using inv sum 2(1) by (simp add: demo_inv_def)
    ultimately show ?thesis
      using sp(1,2) 2 w(1) inv unfolding s' by (simp add: demo_inv_def del: fun_upd_apply)
  qed
qed

text \<open>Inside the critical section the invariant pins the one worker that is there.\<close>

lemma demo_inv_critical:
  assumes "demo_inv ws N s" "i \<in> ws" "critical (d_worker s i)"
  shows "so_count (d_obj s) = 0" "\<And>j. j \<in> ws \<Longrightarrow> critical (d_worker s j) \<Longrightarrow> j = i"
  using assms by (auto simp: demo_inv_def split: if_splits)

text \<open>A step of the worker in the critical section that leaves the object alone.\<close>

lemma demo_inv_inside:
  assumes inv: "demo_inv ws N s" and ws: "finite ws" and i: "i \<in> ws" "critical (d_worker s i)"
    and w: "critical w" "\<And>n v. w = Loaded n v \<Longrightarrow> v = c" and c: "c + left w = d_counter s + left (d_worker s i)"
  shows "demo_inv ws N (s\<lparr>d_counter := c, d_worker := (d_worker s)(i := w)\<rparr>)"
proof -
  note only = demo_inv_critical [OF inv i]
  have q: "\<not> queued (d_worker s i)" "\<not> queued w"
    using i(2) w(1) by (auto simp: critical_def queued_def split: worker.splits)
  then have eq: "{j \<in> ws. queued (((d_worker s)(i := w)) j)} = {j \<in> ws. queued (d_worker s j)}" by auto
  have sum: "(\<Sum>j \<in> ws. left (((d_worker s)(i := w)) j)) + left (d_worker s i) = (\<Sum>j \<in> ws. left (d_worker s j)) + left w"
    by (rule sum_upd [OF ws i(1)])
  have ld: "v = c" if "j \<in> ws" "((d_worker s)(i := w)) j = Loaded n v" for j n v
  proof (cases "j = i")
    case True
    then show ?thesis using that(2) w(2) by simp
  next
    case False
    then have "critical (d_worker s j)" using that(2) by simp
    then have "j = i" by (rule only(2) [OF that(1)])
    then show ?thesis using False by contradiction
  qed
  have uniq: "j = i" if "j \<in> ws" "critical (((d_worker s)(i := w)) j)" for j
  proof (rule ccontr)
    assume "j \<noteq> i"
    then have "critical (d_worker s j)" using that(2) by simp
    then have "j = i" by (rule only(2) [OF that(1)])
    with \<open>j \<noteq> i\<close> show False ..
  qed
  have "c + (\<Sum>j \<in> ws. left (((d_worker s)(i := w)) j)) = N"
    using inv sum c by (simp add: demo_inv_def)
  moreover have "\<exists>h \<in> ws. critical (((d_worker s)(i := w)) h) \<and> (\<forall>j \<in> ws. critical (((d_worker s)(i := w)) j) \<longrightarrow> j = h)"
    by (rule bexI [of _ i], intro conjI ballI impI, simp add: w(1), rule uniq) (use i(1) in simp_all)
  moreover have "object_inv (d_obj s)" "so_is_mutex (d_obj s)" "distinct (waiting (d_obj s))"
    "set (waiting (d_obj s)) = {j \<in> ws. queued (((d_worker s)(i := w)) j)}"
    using inv unfolding eq by (simp_all add: demo_inv_def)
  ultimately show ?thesis using only(1) ld by (simp add: demo_inv_def del: fun_upd_apply)
qed

lemma demo_inv_release:
  assumes inv: "demo_inv ws N s" and ws: "finite ws" and i: "i \<in> ws" "d_worker s i = Stored n" and r: "worker_release i n s = Ret s'"
  shows "demo_inv ws N s'"
proof -
  have o: "object_inv (d_obj s)" "so_is_mutex (d_obj s)" using inv by (simp_all add: demo_inv_def)
  obtain t b where rel: "sync_release (d_obj s) = Ret (t, b)"
    using r by (cases "sync_release (d_obj s)") (auto simp: worker_release_def)
  note sp = sync_release_spec [OF o(1) rel]
  have ci: "critical (d_worker s i)" using i(2) by simp
  note only = demo_inv_critical [OF inv i(1) ci]
  have w: "distinct (waiting (d_obj s))" "set (waiting (d_obj s)) = {j \<in> ws. queued (d_worker s j)}"
    using inv by (simp_all add: demo_inv_def)
  have lone: "\<not> critical (d_worker s j)" if "j \<in> ws" "j \<noteq> i" for j using only(2) that by blast
  have loaded: "d_worker s j \<noteq> Loaded m v" if "j \<in> ws" for j m v
    using lone [OF that] i(2) by (cases "j = i") auto
  have tot: "d_counter s + (\<Sum>j \<in> ws. left (d_worker s j)) = N" using inv by (simp add: demo_inv_def)
  let ?g = "(d_worker s)(i := Idle n)"
  have sum1: "(\<Sum>j \<in> ws. left (?g j)) = (\<Sum>j \<in> ws. left (d_worker s j))"
    using sum_upd [OF ws i(1), of left "d_worker s" "Idle n"] i(2) by simp
  show ?thesis
  proof (cases t)
    case None
    have s': "s' = s\<lparr>d_obj := b, d_worker := ?g\<rparr>" using r rel None by (simp add: worker_release_def)
    have b: "object_inv b" "so_is_mutex b" "so_count b = 1" "waiting b = []" "waiting (d_obj s) = []"
      using sp None o(2) by simp_all
    have nq: "\<not> queued (d_worker s j)" if "j \<in> ws" for j using w(2) b(5) that by auto
    have c: "\<not> critical (?g j)" "\<not> queued (?g j)" "?g j \<noteq> Loaded m v" if "j \<in> ws" for j m v
      using lone [OF that] nq [OF that] loaded [OF that] by (cases "j = i"; simp)+
    then have "{j \<in> ws. queued (?g j)} = {}" by blast
    then show ?thesis using b c sum1 tot unfolding s' by (simp add: demo_inv_def del: fun_upd_apply)
  next
    case (Some u)
    have b: "object_inv b" "so_is_mutex b" "so_count b = 0" "waiting (d_obj s) = u # waiting b"
      using sp Some o(2) only(1) by simp_all
    have u: "u \<in> ws" "queued (d_worker s u)" "u \<notin> set (waiting b)" "distinct (waiting b)" using w b(4) by auto
    obtain m where m: "d_worker s u = Queued m" using u(2) by (auto simp: queued_def split: worker.splits)
    have ui: "u \<noteq> i" using m i(2) by auto
    let ?h = "?g(u := Holding m)"
    have s': "s' = s\<lparr>d_obj := b, d_worker := ?h\<rparr>"
      using r rel Some m ui by (simp add: worker_release_def worker_woken_def)
    have sum2: "(\<Sum>j \<in> ws. left (?h j)) = (\<Sum>j \<in> ws. left (?g j))"
      using sum_upd [OF ws u(1), of left ?g "Holding m"] m ui by simp
    have c: "critical (?h j) \<longleftrightarrow> j = u" "?h j \<noteq> Loaded x v" if "j \<in> ws" for j x v
      using lone [OF that] loaded [OF that] by (cases "j = u"; cases "j = i"; simp)+
    have q: "queued (?h j) \<longleftrightarrow> j \<noteq> u \<and> queued (d_worker s j)" if "j \<in> ws" for j
      using i(2) by (cases "j = u"; cases "j = i"; simp)
    have "set (waiting b) = {j \<in> ws. queued (d_worker s j)} - {u}" using w b(4) u(3) by auto
    also have "\<dots> = {j \<in> ws. queued (?h j)}" using q by blast
    finally have "set (waiting b) = {j \<in> ws. queued (?h j)}" .
    moreover have "\<exists>h \<in> ws. critical (?h h) \<and> (\<forall>j \<in> ws. critical (?h j) \<longrightarrow> j = h)" using c(1) u(1) by blast
    ultimately show ?thesis
      using b u(4) c(2) sum1 sum2 tot unfolding s' by (simp add: demo_inv_def del: fun_upd_apply)
  qed
qed

lemma demo_inv_step:
  assumes "guarded_step ws s s'" "demo_inv ws N s" "finite ws" "card ws \<le> SYNC_MAX_WAIT"
  shows "demo_inv ws N s'"
  using assms(1)
proof cases
  case (acquire i n)
  then show ?thesis using demo_inv_acquire [OF assms(2-4)] by simp
next
  case (load i n)
  have "demo_inv ws N (s\<lparr>d_counter := d_counter s, d_worker := (d_worker s)(i := Loaded n (d_counter s))\<rparr>)"
    by (rule demo_inv_inside [OF assms(2,3) load(2)]) (use load(3) in simp_all)
  then show ?thesis using load(1) by (simp add: worker_load_def)
next
  case (store i n v)
  have "v = d_counter s" using assms(2) store(2,3) by (auto simp: demo_inv_def)
  then have "demo_inv ws N (s\<lparr>d_counter := v + 1, d_worker := (d_worker s)(i := Stored n)\<rparr>)"
    by (intro demo_inv_inside [OF assms(2,3) store(2)]) (use store(3) in simp_all)
  then show ?thesis using store(1) by (simp add: worker_store_def)
next
  case (release i n)
  then show ?thesis using demo_inv_release [OF assms(2,3)] by blast
qed

subsection \<open>Progress\<close>

lemma guarded_progress:
  assumes "demo_inv ws N s" "finite ws" "\<not> finished ws s"
  shows "\<exists>s'. guarded_step ws s s'"
proof (cases "\<exists>i \<in> ws. critical (d_worker s i)")
  case True
  then obtain i where i: "i \<in> ws" "critical (d_worker s i)" by blast
  have "object_inv (d_obj s)" "so_is_mutex (d_obj s)" using assms(1) by (simp_all add: demo_inv_def)
  then obtain t b where "sync_release (d_obj s) = Ret (t, b)"
    using sync_release_panics by (cases "sync_release (d_obj s)") auto
  then have r: "\<exists>s'. worker_release i n s = Ret s'" for n by (simp add: worker_release_def Let_def)
  consider n where "d_worker s i = Holding n" | n v where "d_worker s i = Loaded n v" | n where "d_worker s i = Stored n"
    using i(2) by (cases "d_worker s i") auto
  then show ?thesis
  proof cases
    case 1
    then show ?thesis using guarded_step.load [OF i(1)] by blast
  next
    case 2
    then show ?thesis using guarded_step.store [OF i(1)] by blast
  next
    case (3 n)
    then show ?thesis using guarded_step.release [OF i(1)] r [of n] by blast
  qed
next
  case False
  then have c: "so_count (d_obj s) = 1" using assms(1) by (auto simp: demo_inv_def split: if_splits)
  then have "waiting (d_obj s) = []" using assms(1) by (simp add: demo_inv_def object_inv_def)
  then have nq: "\<not> queued (d_worker s i)" if "i \<in> ws" for i using assms(1) that by (auto simp: demo_inv_def)
  obtain i where i: "i \<in> ws" "d_worker s i \<noteq> Idle 0" using assms(3) by (auto simp: finished_def)
  have nc: "\<not> critical (d_worker s i)" "\<not> queued (d_worker s i)" using False nq i(1) by auto
  have "\<exists>n. d_worker s i = Idle (Suc n)"
  proof (cases "d_worker s i")
    case (Idle m)
    then show ?thesis using i(2) by (cases m) simp_all
  qed (use nc in simp_all)
  then show ?thesis using guarded_step.acquire [OF i(1)] by blast
qed

lemma work_upd: "finite ws \<Longrightarrow> i \<in> ws \<Longrightarrow> work w < work (g i) \<Longrightarrow> (\<Sum>j \<in> ws. work ((g(i := w)) j)) < (\<Sum>j \<in> ws. work (g j))"
  using sum_upd [of ws i work g w] by linarith

text \<open>Every step uses up work, so no run is infinite.\<close>

lemma guarded_decreases:
  assumes "guarded_step ws s s'" "finite ws" "demo_inv ws N s"
  shows "(\<Sum>j \<in> ws. work (d_worker s' j)) < (\<Sum>j \<in> ws. work (d_worker s j))"
  using assms(1)
proof cases
  case (acquire i n)
  then show ?thesis
    using work_upd [OF assms(2) acquire(2), of _ "d_worker s"] by (simp add: worker_acquire_def work_def split: prod.split)
next
  case (load i n)
  then show ?thesis using work_upd [OF assms(2) load(2), of _ "d_worker s"] by (simp add: worker_load_def work_def)
next
  case (store i n v)
  then show ?thesis using work_upd [OF assms(2) store(2), of _ "d_worker s"] by (simp add: worker_store_def work_def)
next
  case (release i n)
  obtain t b where rel: "sync_release (d_obj s) = Ret (t, b)"
    using release(3) by (cases "sync_release (d_obj s)") (auto simp: worker_release_def)
  let ?g = "(d_worker s)(i := Idle n)"
  have 1: "(\<Sum>j \<in> ws. work (?g j)) < (\<Sum>j \<in> ws. work (d_worker s j))"
    by (rule work_upd [OF assms(2) release(1)]) (use release(2) in \<open>simp add: work_def\<close>)
  have 2: "(\<Sum>j \<in> ws. work ((?g(u := worker_woken (?g u))) j)) \<le> (\<Sum>j \<in> ws. work (?g j))" for u
    by (rule sum_mono) (simp add: worker_woken_def work_def split: worker.split)
  show ?thesis using release(3) rel 1 2 [THEN le_less_trans, OF 1] by (auto simp: worker_release_def Let_def split: option.splits)
qed

text \<open>C40. The guarded counter is exact.  However the workers are interleaved, the run cannot get stuck before every worker has
  done its rounds, it cannot go on for ever, and when it ends the counter is the number of rounds of all workers
  together: two hundred for the two workers of the demonstration.\<close>

theorem guarded_demo_exact:
  assumes "finite ws" "card ws \<le> SYNC_MAX_WAIT" "(guarded_step ws)\<^sup>*\<^sup>* (demo_start rounds) s"
  shows "(finished ws s \<longrightarrow> d_counter s = card ws * rounds) \<and> (\<not> finished ws s \<longrightarrow> (\<exists>s'. guarded_step ws s s')) \<and>
    (\<forall>s'. guarded_step ws s s' \<longrightarrow> (\<Sum>j \<in> ws. work (d_worker s' j)) < (\<Sum>j \<in> ws. work (d_worker s j)))"
proof -
  have inv: "demo_inv ws (card ws * rounds) s"
    using assms(3) by (induction rule: rtranclp_induct) (use demo_inv_start [OF assms(1)] demo_inv_step [OF _ _ assms(1,2)] in blast)+
  have "d_counter s = card ws * rounds" if "finished ws s"
  proof -
    have "(\<Sum>j \<in> ws. left (d_worker s j)) = 0" using that by (simp add: finished_def)
    then show ?thesis using inv by (simp add: demo_inv_def)
  qed
  then show ?thesis using guarded_progress [OF inv assms(1)] guarded_decreases [OF _ assms(1) inv] by blast
qed

subsection \<open>Without the mutex\<close>

text \<open>Two unguarded workers in lockstep: both load, then both store, so one increment of every two is lost.\<close>

lemma lockstep_round:
  assumes "a \<noteq> b" "d_worker s a = Idle (Suc n)" "d_worker s b = Idle (Suc n)"
  shows "\<exists>s'. (unguarded_step {a, b})\<^sup>*\<^sup>* s s' \<and> d_counter s' = d_counter s + 1 \<and> d_worker s' a = Idle n \<and> d_worker s' b = Idle n"
proof -
  let ?s1 = "worker_load a n s"
  let ?s2 = "worker_load b n ?s1"
  let ?s3 = "worker_store a (Idle n) (d_counter s) ?s2"
  let ?s4 = "worker_store b (Idle n) (d_counter s) ?s3"
  have "unguarded_step {a, b} s ?s1" by (rule unguarded_step.load) (use assms in simp_all)
  moreover have "unguarded_step {a, b} ?s1 ?s2" by (rule unguarded_step.load) (use assms in \<open>simp_all add: worker_load_def\<close>)
  moreover have "unguarded_step {a, b} ?s2 ?s3" by (rule unguarded_step.store) (use assms in \<open>simp_all add: worker_load_def\<close>)
  moreover have "unguarded_step {a, b} ?s3 ?s4"
    by (rule unguarded_step.store) (use assms in \<open>simp_all add: worker_load_def worker_store_def\<close>)
  ultimately have "(unguarded_step {a, b})\<^sup>*\<^sup>* s ?s4" by (meson converse_rtranclp_into_rtranclp rtranclp.rtrancl_refl)
  moreover have "d_counter ?s4 = d_counter s + 1" "d_worker ?s4 a = Idle n" "d_worker ?s4 b = Idle n"
    using assms(1) by (simp_all add: worker_store_def)
  ultimately show ?thesis by blast
qed

theorem unguarded_demo_loses:
  assumes "a \<noteq> b"
  shows "\<exists>s. (unguarded_step {a, b})\<^sup>*\<^sup>* (demo_start rounds) s \<and> finished {a, b} s \<and> d_counter s = rounds"
proof -
  have run: "\<exists>s'. (unguarded_step {a, b})\<^sup>*\<^sup>* s s' \<and> finished {a, b} s' \<and> d_counter s' = d_counter s + n"
    if "d_worker s a = Idle n" "d_worker s b = Idle n" for n s
    using that
  proof (induction n arbitrary: s)
    case 0
    then show ?case by (auto simp: finished_def)
  next
    case (Suc n)
    obtain s1 where s1: "(unguarded_step {a, b})\<^sup>*\<^sup>* s s1" "d_counter s1 = d_counter s + 1" "d_worker s1 a = Idle n" "d_worker s1 b = Idle n"
      using lockstep_round [OF assms Suc.prems] by blast
    from Suc.IH [OF s1(3,4)] obtain s2 where "(unguarded_step {a, b})\<^sup>*\<^sup>* s1 s2" "finished {a, b} s2" "d_counter s2 = d_counter s1 + n"
      by blast
    then show ?case using s1(1,2) by (intro exI [of _ s2]) auto
  qed
  then show ?thesis using run [of "demo_start rounds" rounds] by (simp add: demo_start_def)
qed

text \<open>The first worker has acquired: the run is not over, so it goes on.\<close>

theorem guarded_demo_exact_witness:
  "\<exists>s s'. (guarded_step {78, 79})\<^sup>*\<^sup>* (demo_start 100) s \<and> d_worker s 78 = Holding 99 \<and> guarded_step {78, 79} s s'"
proof -
  let ?s = "worker_acquire 78 99 (demo_start 100)"
  have "guarded_step {78, 79} (demo_start 100) ?s" by (rule guarded_step.acquire) (simp_all add: demo_start_def)
  then have r: "(guarded_step {78, 79})\<^sup>*\<^sup>* (demo_start 100) ?s" by blast
  have h: "d_worker ?s 78 = Holding 99"
    by (simp add: worker_acquire_def demo_start_def sync_acquire_def sync_create_def SyncObject_new_def)
  then have "\<not> finished {78, 79} ?s" by (simp add: finished_def)
  then show ?thesis using guarded_demo_exact [OF _ _ r] r h by (auto simp: SYNC_MAX_WAIT_def)
qed

subsection \<open>The workers and the service\<close>

text \<open>
  The steps of the workers are what the service does with their messages, \<open>[1, 7, 0, 0]\<close> and \<open>[2, 7, 0, 0]\<close>, when its object 7 is
  the object of the demonstration: it is updated alike, and the worker is answered exactly when it goes on.
\<close>

definition worker_msg :: "nat \<Rightarrow> u8 \<Rightarrow> message" where
  "worker_msg i opc = make_message i SyncOp 1 [opc, 7, 0, 0]"

lemma worker_msg [simp]:
  "msg_tag (worker_msg i opc) = SyncOp" "msg_sender (worker_msg i opc) = i" "msg_len (worker_msg i opc) = 4"
  "msg_payload (worker_msg i opc) ! 0 = opc" "msg_payload (worker_msg i opc) ! Suc 0 = 7"
  by (simp_all add: worker_msg_def make_message_def PAYLOAD_MAX_def copy_into_def)

lemma acquire_served:
  assumes "sync_check_cap k i 7" "length (sy_objects st) = 8" "sy_objects st ! 7 = d_obj s" "so_used (d_obj s)"
  shows "\<exists>r st' k'. sync_handle (worker_msg i 1) st k = Ret (r, st', k') \<and>
    sy_objects st' ! 7 = d_obj (worker_acquire i n s) \<and> (r = None \<longleftrightarrow> d_worker (worker_acquire i n s) i = Queued n)"
  using assms by (auto simp: sync_handle_def Let_def put_object_def worker_acquire_def split: prod.splits)

lemma release_served:
  assumes "sync_check_cap k i 7" "length (sy_objects st) = 8" "sy_objects st ! 7 = d_obj s" "so_used (d_obj s)"
    and "sync_handle (worker_msg i 2) st k = Ret (r, st', k')"
  shows "\<exists>s'. worker_release i n s = Ret s' \<and> sy_objects st' ! 7 = d_obj s' \<and> r = Some 0"
proof -
  obtain w b where rel: "sync_release (d_obj s) = Ret (w, b)"
    using assms by (cases "sync_release (d_obj s)") (auto simp: sync_handle_def Let_def)
  then have "sy_objects st' ! 7 = b" "r = Some 0"
    using assms by (auto simp: sync_handle_def Let_def put_object_def run_bind_Ret_iff split: option.splits)
  then show ?thesis using rel by (simp add: worker_release_def Let_def)
qed

subsection \<open>Loading the workers\<close>

definition sync_demo_cap :: "resource \<Rightarrow> capability" where
  "sync_demo_cap r = \<lparr>cap_resource = r, cap_read = True, cap_write = True, cap_grant = False, cap_sealed = False, cap_id = 0,
     cap_origin = None\<rparr>"

definition sync_demo_caps :: "kernel \<Rightarrow> cap_table \<times> kernel" where
  "sync_demo_caps k =
     (let (_, caps, k) = CapTable_insert (sync_demo_cap (SyncObj 7)) CapTable_new k;
          (_, caps, k) = CapTable_insert (sync_demo_cap (IpcChannel 86)) caps k
      in (caps, k))"

definition sync_demo_load :: "u64 \<Rightarrow> cap_table \<Rightarrow> kernel \<Rightarrow> kernel run" where
  "sync_demo_load entry caps k = run_bind (place_task 78 entry caps k) (place_task 79 entry caps)"

definition sync_demo_active :: "kernel \<Rightarrow> bool" where
  "sync_demo_active k = (\<exists>i \<in> {78, 79}. case tasks k ! i of Some t \<Rightarrow> t_state t \<noteq> Terminated | None \<Rightarrow> False)"

lemma CapTable_insert_next:
  assumes "cap_table_wf t" "n < MAX_CAPS" "\<forall>j < n. cap_at t j \<noteq> None" "cap_at t n = None"
  shows "\<exists>t' k'. CapTable_insert c t k = (Some n, t', k') \<and> cap_table_wf t' \<and>
    cap_at t' = (cap_at t)(n := Some (c\<lparr>cap_id := next_cap_id_ctr k\<rparr>)) \<and> same_but_trace (k\<lparr>next_cap_id_ctr := next_cap_id_ctr k + 1\<rparr>) k'"
proof -
  obtain r t' k' where i: "CapTable_insert c t k = (r, t', k')" by (cases "CapTable_insert c t k")
  show ?thesis
  proof (cases r)
    case None
    then show ?thesis using CapTable_insert_None [OF assms(1)] i assms(2,4) by blast
  next
    case (Some m)
    have e: "m < MAX_CAPS \<and> cap_at t m = None \<and> (\<forall>j<m. cap_at t j \<noteq> None) \<and> cap_at t' = (cap_at t)(m := Some (c\<lparr>cap_id := next_cap_id_ctr k\<rparr>))"
      using CapTable_insert_Some [OF assms(1)] i Some by blast
    then have "m = n" using assms(3,4) by (metis nat_neq_iff)
    then show ?thesis using e i Some CapTable_insert_wf [OF assms(1) i] CapTable_insert_globals [OF i] by blast
  qed
qed

lemma sync_demo_caps_slots:
  obtains caps k' where "sync_demo_caps k = (caps, k')" "cap_table_wf caps" "\<exists>c. cap_at caps 0 = Some c \<and> cap_resource c = SyncObj 7"
    "\<exists>c. cap_at caps 1 = Some c \<and> cap_resource c = IpcChannel 86 \<and> cap_write c" "tasks k' = tasks k" "audit k' = audit k"
proof -
  have new: "cap_table_wf CapTable_new" "cap_at CapTable_new j = None" for j by (rule cap_table_wf_new) (simp add: cap_at_def CapTable_new_def)
  obtain t1 k1 where 1: "CapTable_insert (sync_demo_cap (SyncObj 7)) CapTable_new k = (Some 0, t1, k1)" "cap_table_wf t1"
    "cap_at t1 = (cap_at CapTable_new)(0 := Some ((sync_demo_cap (SyncObj 7))\<lparr>cap_id := next_cap_id_ctr k\<rparr>))"
    "same_but_trace (k\<lparr>next_cap_id_ctr := next_cap_id_ctr k + 1\<rparr>) k1"
    using CapTable_insert_next [OF new(1), of 0] new(2) by (metis MAX_CAPS_def not_less_zero zero_less_numeral)
  have "\<forall>j < 1. cap_at t1 j \<noteq> None" "cap_at t1 1 = None" "1 < MAX_CAPS" using 1(3) new(2) by (simp_all add: MAX_CAPS_def)
  then obtain t2 k2 where 2: "CapTable_insert (sync_demo_cap (IpcChannel 86)) t1 k1 = (Some 1, t2, k2)" "cap_table_wf t2"
    "cap_at t2 = (cap_at t1)(1 := Some ((sync_demo_cap (IpcChannel 86))\<lparr>cap_id := next_cap_id_ctr k1\<rparr>))"
    "same_but_trace (k1\<lparr>next_cap_id_ctr := next_cap_id_ctr k1 + 1\<rparr>) k2"
    using CapTable_insert_next [OF 1(2), of 1] by metis
  have "sync_demo_caps k = (t2, k2)" by (simp add: sync_demo_caps_def 1(1) 2(1) del: One_nat_def)
  moreover have "tasks k2 = tasks k" "audit k2 = audit k"
    using same_but_trace_kernel(1,2) [OF 2(4)] same_but_trace_kernel(1,2) [OF 1(4)] by simp_all
  moreover have "\<exists>c. cap_at t2 0 = Some c \<and> cap_resource c = SyncObj 7" using 1(3) 2(3) by (simp add: sync_demo_cap_def)
  moreover have "\<exists>c. cap_at t2 1 = Some c \<and> cap_resource c = IpcChannel 86 \<and> cap_write c" using 2(3) by (simp add: sync_demo_cap_def)
  ultimately show ?thesis using that 2(2) by blast
qed

theorem sync_demo_workers_loaded:
  assumes "kernel_wf k"
  shows "\<exists>caps k1 k2. sync_demo_caps k = (caps, k1) \<and> sync_demo_load entry caps k1 = Ret k2 \<and> kernel_wf k2 \<and> sync_demo_active k2 \<and>
    (\<forall>i \<in> {78, 79}. sync_check_cap k2 i 7 \<and> (\<exists>c. cap_view k2 (i, 1) = Some c \<and> cap_resource c = IpcChannel 86 \<and> cap_write c))"
proof -
  obtain caps k1 where c: "sync_demo_caps k = (caps, k1)" "cap_table_wf caps" "\<exists>c. cap_at caps 0 = Some c \<and> cap_resource c = SyncObj 7"
    "\<exists>c. cap_at caps 1 = Some c \<and> cap_resource c = IpcChannel 86 \<and> cap_write c" "tasks k1 = tasks k" "audit k1 = audit k"
    by (rule sync_demo_caps_slots) (rule that; assumption)
  have wf: "kernel_wf k1" using assms c(5,6) by (simp add: kernel_wf_def)
  have lt: "78 < MAX_TASKS" "79 < MAX_TASKS" by (simp_all add: MAX_TASKS_def)
  obtain k2 where 2: "place_task 78 entry caps k1 = Ret k2" "placed 78 caps k1 k2" by (rule place_task_placed [OF wf lt(1) c(2)])
  obtain k3 where 3: "place_task 79 entry caps k2 = Ret k3" "placed 79 caps k2 k3" by (rule place_task_placed [OF placedD(1) [OF 2(2)] lt(2) c(2)])
  have v: "cap_view k3 (i, s) = cap_at caps s" if "i \<in> {78, 79}" for i s
    using that placedD(4) [OF 2(2)] placedD(4,5) [OF 3(2)] by auto
  obtain t where t: "get_task k3 79 = Some t" "t_state t = Ready" using 3(2) by (auto simp: placed_def)
  have "sync_check_cap k3 i 7" if "i \<in> {78, 79}" for i
  proof -
    note v0 = v [OF that, of 0]
    obtain c where "cap_view k3 (i, 0) = Some c" "cap_resource c = SyncObj 7" using c(3) v0 by auto
    then show ?thesis
      unfolding sync_check_cap_def holds_cap_view [OF placedD(1) [OF 3(2)]] by (intro exI conjI) (assumption, simp add: sync_admits_def)
  qed
  moreover have "sync_demo_active k3"
    using t placedD(1) [OF 3(2)] by (auto simp: sync_demo_active_def get_task_def split: option.splits if_splits)
  ultimately show ?thesis
    using c(1,4) 2(1) 3(1) placedD(1) [OF 3(2)] v by (intro exI [of _ caps] exI [of _ k1] exI [of _ k3]) (simp add: sync_demo_load_def)
qed

end
