(* ===== verification/Spinlock.thy ===== *)
theory Spinlock
  imports Prelude
begin

text \<open>
  The spinlock of \<open>drivers/serial.rs\<close>. Its flag is an atomic boolean; the cores that use it are a
  step relation, one step per atomic operation, in any order.
\<close>

record spinlock =
  flag :: bool

definition Spinlock_new :: spinlock where
  "Spinlock_new = \<lparr>flag = False\<rparr>"

text \<open>\<open>self.lock.swap(true, Acquire)\<close>: the old value, and the lock with the flag raised.\<close>

definition swap_true :: "spinlock \<Rightarrow> bool \<times> spinlock" where
  "swap_true l = (flag l, l\<lparr>flag := True\<rparr>)"

text \<open>
  One iteration of the loop of \<open>lock\<close>, and \<open>try_lock\<close>: whether the caller now has a guard.
\<close>

definition lock_iter :: "spinlock \<Rightarrow> bool \<times> spinlock" where
  "lock_iter l = (case swap_true l of (old, l) \<Rightarrow> (\<not> old, l))"

definition try_lock :: "spinlock \<Rightarrow> bool \<times> spinlock" where
  "try_lock l = (case swap_true l of (old, l) \<Rightarrow> if old then (False, l) else (True, l))"

definition SpinlockGuard_drop :: "spinlock \<Rightarrow> spinlock" where
  "SpinlockGuard_drop l = l\<lparr>flag := False\<rparr>"

subsection \<open>Cores contending for the lock\<close>

datatype core_pc = Outside | Spinning | Inside

record contention =
  the_lock :: spinlock
  core :: "nat \<Rightarrow> core_pc"

definition contention_init :: contention where
  "contention_init = \<lparr>the_lock = Spinlock_new, core = (\<lambda>_. Outside)\<rparr>"

inductive spin_step :: "contention \<Rightarrow> contention \<Rightarrow> bool" where
  call_lock: "core s i = Outside \<Longrightarrow> spin_step s (s\<lparr>core := (core s)(i := Spinning)\<rparr>)"
| spin: "core s i = Spinning \<Longrightarrow> lock_iter (the_lock s) = (got, l) \<Longrightarrow>
    spin_step s \<lparr>the_lock = l, core = (core s)(i := if got then Inside else Spinning)\<rparr>"
| try_once: "core s i = Outside \<Longrightarrow> try_lock (the_lock s) = (got, l) \<Longrightarrow>
    spin_step s \<lparr>the_lock = l, core = (core s)(i := if got then Inside else Outside)\<rparr>"
| drop_guard: "core s i = Inside \<Longrightarrow>
    spin_step s \<lparr>the_lock = SpinlockGuard_drop (the_lock s), core = (core s)(i := Outside)\<rparr>"

inductive spin_reachable :: "contention \<Rightarrow> bool" where
  spin_start: "spin_reachable contention_init"
| spin_next: "spin_reachable s \<Longrightarrow> spin_step s t \<Longrightarrow> spin_reachable t"

lemmas spinlock_defs = lock_iter_def try_lock_def SpinlockGuard_drop_def swap_true_def Spinlock_new_def

text \<open>The flag is up exactly while one core is inside.\<close>

definition spin_inv :: "contention \<Rightarrow> bool" where
  "spin_inv s \<longleftrightarrow> (if flag (the_lock s) then (\<exists>!i. core s i = Inside) else (\<forall>i. core s i \<noteq> Inside))"

lemma spin_inv_step: "spin_step s t \<Longrightarrow> spin_inv s \<Longrightarrow> spin_inv t"
proof (induction rule: spin_step.induct)
  case (call_lock s i)
  then show ?case by (auto simp: spin_inv_def split: if_splits) (metis core_pc.distinct(3))
next
  case (spin s i got l)
  then show ?case
    by (cases "flag (the_lock s)") (auto simp: spin_inv_def spinlock_defs, metis core_pc.distinct(5))
next
  case (try_once s i got l)
  then show ?case
    by (cases "flag (the_lock s)") (auto simp: spin_inv_def spinlock_defs, metis core_pc.distinct(3))
next
  case (drop_guard s i)
  then show ?case by (auto simp: spin_inv_def spinlock_defs split: if_splits)
qed

lemma spin_inv_reachable: "spin_reachable s \<Longrightarrow> spin_inv s"
proof (induction rule: spin_reachable.induct)
  case spin_start
  then show ?case by (simp add: spin_inv_def contention_init_def spinlock_defs)
next
  case (spin_next s t)
  then show ?case by (blast intro: spin_inv_step)
qed

text \<open>
  C24. The spinlock gives mutual exclusion. In every interleaving of any number of cores calling
  \<open>lock\<close>, \<open>try_lock\<close> and dropping their guards, at most one core is inside; while one is, neither
  \<open>try_lock\<close> nor a spinning core gets in, and when none is, the next attempt succeeds.
\<close>

theorem spinlock_mutual_exclusion:
  assumes "spin_reachable s"
  shows "(\<forall>i j. core s i = Inside \<longrightarrow> core s j = Inside \<longrightarrow> i = j) \<and>
    (fst (try_lock (the_lock s)) \<longleftrightarrow> (\<forall>i. core s i \<noteq> Inside)) \<and>
    (fst (lock_iter (the_lock s)) \<longleftrightarrow> (\<forall>i. core s i \<noteq> Inside))"
  using spin_inv_reachable [OF assms] by (auto simp: spin_inv_def spinlock_defs split: if_splits)

lemma contended_reachable:
  "spin_reachable \<lparr>the_lock = \<lparr>flag = True\<rparr>, core = (\<lambda>_. Outside)(1 := Inside, 2 := Spinning)\<rparr>"
proof -
  have "spin_reachable \<lparr>the_lock = \<lparr>flag = True\<rparr>, core = (\<lambda>_. Outside)(1 := Inside)\<rparr>"
    using spin_next [OF spin_start try_once [of contention_init 1 True "\<lparr>flag = True\<rparr>"]]
    by (simp add: contention_init_def spinlock_defs)
  from spin_next [OF this call_lock [of _ 2]] show ?thesis by simp
qed

theorem spinlock_mutual_exclusion_witness:
  "\<not> fst (lock_iter \<lparr>flag = True\<rparr>) \<and> \<not> fst (try_lock \<lparr>flag = True\<rparr>)"
proof -
  let ?s = "\<lparr>the_lock = \<lparr>flag = True\<rparr>, core = (\<lambda>_. Outside)(1 := Inside, 2 := Spinning)\<rparr>"
  have "\<not> (\<forall>i. core ?s i \<noteq> Inside)" by (auto intro!: exI [of _ 1])
  moreover have "the_lock ?s = \<lparr>flag = True\<rparr>" by simp
  ultimately show ?thesis using spinlock_mutual_exclusion [OF contended_reachable] by metis
qed

end
