(* ===== verification/Spec2Isabelle.thy ===== *)
theory Spec2Isabelle
  imports Dist Arch_Sim Boot Loader Shell_Monitor Shell_Experiments Shell_Stress Sync_Demo Spinlock Keyboard
begin

text \<open>
  RunixOS is a capability-based microkernel for x86-64 written in Rust. This development models
  the kernel under \<open>src/kernel\<close> and proves the properties its design rests on. Paths below are
  relative to \<open>src/kernel\<close>.

  \<^bold>\<open>The program.\<close> \<open>boot/main.rs\<close> programs the processor tables, the interrupt controllers and the
  timer (\<open>arch\<close>, \<open>interrupts/mod.rs\<close>), starts the other processors and launches either the shell or a
  set of demonstration tasks. A table of 132 tasks (\<open>process/mod.rs\<close>) is scheduled round robin, by
  voluntary yields and by the timer (\<open>scheduler/mod.rs\<close>, \<open>preempt/mod.rs\<close>). A task's
  authority is its table of 32 capabilities (\<open>process/capability.rs\<close>); system calls
  (\<open>syscall/mod.rs\<close>) grant attenuated copies and revoke a capability with everything derived from
  it, and each change is recorded in an audit ring (\<open>process/audit.rs\<close>). Tasks communicate by
  rendezvous or through bounded queues (\<open>process/ipc.rs\<close>). Five services run as kernel tasks on top
  of this: key-value store, log, filesystem, devices and synchronisation (\<open>shell/mod.rs\<close>); the shell
  is their client and has commands for experiments on the kernel. The state
  of all tasks can be captured and restored (\<open>process/snapshot.rs\<close>), and services can be migrated to
  a simulated node and recovered from it (\<open>process/dist.rs\<close>). Below are the frame allocator and the
  page tables (\<open>memory/mod.rs\<close>), the loader and the built-in user programs (\<open>userspace/mod.rs\<close>) and
  the drivers (\<open>drivers/serial.rs\<close>, \<open>drivers/keyboard.rs\<close>).

  \<^bold>\<open>Conventions.\<close> Pure functions are HOL functions. Code that changes state takes and returns it:
  the record \<open>globals\<close> holds the static counters and the trace ring, and \<open>kernel\<close> extends it by the
  task table, the audit log, the machine and the console output; the state of a service, the
  snapshot area, the distribution layer, the boot state and the state of a demonstration are passed
  beside it. \<open>Result<T, ()>\<close> and \<open>Option<T>\<close> are
  options, IPC results are sums with \<open>ipc_error\<close> on the left, and an outcome of type \<open>run\<close> is \<open>Panic\<close>
  or a value. Machine integers are words where wrap-around or bit operations occur; indices and
  lengths are natural numbers, with the bound or the panic written out where the code depends on
  it. The positions and totals of the audit and log rings, which only grow, are natural numbers
  too: the 64-bit counters of the code would have to count \<open>2 ^ 64\<close> events before the checked
  addition fails. Arithmetic is checked, as in the debug profile the repository builds and tests with.
  A call that blocks is cut at its yield: \<open>Parked\<close> and \<open>Waits\<close> are the points where the processor is given
  up, and \<open>send_resume\<close>, \<open>receive_iter\<close> and \<open>syscall_resume\<close> are what follows when it comes back. What
  interrupts, other tasks and other processors do while the modelled code waits is a parameter
  or an arbitrary step of a relation, constrained only by what the statement says. A register file is
  what the code at hand saves: \<open>cpu_regs\<close> has the callee-saved registers, the flags, the stack and the
  instruction pointer, for the context switch; the stubs of \<open>Traps\<close> have all general registers.

  \<^bold>\<open>Theories and sources.\<close>
  \<^item> \<open>Prelude\<close>, \<open>Ring_Buffers\<close>, \<open>Directory\<close>: types, array idioms, and the contracts \<open>bounded_fifo\<close>,
    \<open>overwriting_log\<close> and \<open>directory\<close>, each interpreted on the structures that implement it: message
    queue, keyboard buffer and waiter queue; audit and trace rings; routing table and key-value
    store.
  \<^item> \<open>Globals\<close>, \<open>Capability\<close>, \<open>Audit_Log\<close>, \<open>Messages\<close>: \<open>log_trace\<close> and the atomics,
    \<open>process/capability.rs\<close>, \<open>process/audit.rs\<close>, and the data of \<open>process/ipc.rs\<close>.
  \<^item> \<open>Memory\<close>, \<open>Process\<close>, \<open>Userspace\<close>, \<open>Loader\<close>: \<open>memory/mod.rs\<close>, \<open>process/mod.rs\<close> with the task table of
    \<open>scheduler/mod.rs\<close>, the loader of \<open>userspace/mod.rs\<close>, and what it leaves in memory.
  \<^item> \<open>User_Programs\<close>: the assembly programs of \<open>userspace/mod.rs\<close>, instruction by instruction.
  \<^item> \<open>Scheduler\<close>, \<open>Preempt\<close>: \<open>yield_cpu\<close>, \<open>preempt_reschedule\<close>, \<open>terminate_current_task\<close>, the preemption
    policy and \<open>timer_isr\<close>.
  \<^item> \<open>Traps\<close>, \<open>Descriptors\<close>: the entry stubs and \<open>exception_dispatch\<close> of \<open>interrupts/mod.rs\<close>; the
    segment and interrupt tables, the interrupt controllers and the timer of \<open>arch/x86_64\<close> and
    \<open>interrupts/mod.rs\<close>, and, stated apart from the code, how the hardware reads them (\<open>deliver\<close>,
    \<open>pics_see\<close>, \<open>pit_see\<close>).
  \<^item> \<open>IPC\<close>, \<open>Revocation\<close>, \<open>Syscall\<close>: the send and receive calls of \<open>process/ipc.rs\<close>, and
    \<open>syscall/mod.rs\<close> from \<open>parse_request\<close> to every handler.
  \<^item> \<open>Snapshot\<close>, \<open>Dist\<close>: \<open>process/snapshot.rs\<close> and \<open>process/dist.rs\<close>, their demonstrations included.
  \<^item> \<open>Demos\<close>, \<open>Boot\<close>: the demonstration tasks and the boot sequence of \<open>boot/main.rs\<close>.
  \<^item> \<open>Arch_Sim\<close>: the pipeline and cache simulators of \<open>arch_sim/mod.rs\<close>.
  \<^item> \<open>Spinlock\<close>, \<open>Serial\<close>, \<open>Keyboard\<close>, \<open>Shell_Input\<close>: the drivers, and line input, history, tokens and
    numbers of \<open>shell/mod.rs\<close>.
  \<^item> \<open>Service_Base\<close> and \<open>KV_Service\<close>, \<open>Log_Service\<close>, \<open>FS_Service\<close>, \<open>Device_Service\<close>, \<open>Sync_Service\<close>: the
    services of \<open>shell/mod.rs\<close>. The contract \<open>cap_gate\<close> says what a capability check is worth under
    grant and revocation; \<open>service\<close> says that a turn of a service answers. Both are interpreted on
    each service (the synchronisation service has its own loop and its own invariant).
    \<open>input_source\<close> is the contract of the two devices that can be read.
  \<^item> \<open>Shell_Client\<close>, \<open>Shell_Commands\<close>, \<open>Shell_Faults\<close>, \<open>Shell_Monitor\<close>, \<open>Shell_Experiments\<close>, \<open>Shell_Stress\<close>,
    \<open>Sync_Demo\<close>: the shell as a client of the services from the typed line to the report, and its commands:
    capabilities, the echo service, history and migration; faulting and busy tasks; \<open>trace\<close>, \<open>watch\<close>, \<open>smp ping\<close> and
    the simulators; the race experiment, \<open>checkpoint\<close> and \<open>restore\<close>; the stress workers; the workers of the
    synchronisation demonstration.
  \<^item> \<open>Samples\<close>: a concrete system on which the hypotheses of the properties are met.

  \<^bold>\<open>What is shown.\<close>
  \<^item> Authority: revocation removes exactly the lineage of a capability, grants attenuate, and no
    sequence of grants and revocations makes authority grow (\<open>Revocation\<close>); console output, message
    delivery, key-value and filesystem access happen only under a capability (\<open>Syscall\<close>, \<open>IPC\<close>,
    \<open>KV_Service\<close>, \<open>FS_Service\<close>); check and use of a channel are atomic against the timer (\<open>IPC\<close>), and the
    race experiment tells a guarded check from an unguarded one (\<open>Demos\<close>).
  \<^item> Scheduling: one task runs, a ready task is reached within one round, termination releases the
    waiting senders, ticks respect critical regions, a suspended context resumes (\<open>Scheduler\<close>,
    \<open>Preempt\<close>, \<open>Process\<close>).
  \<^item> Traps: interrupts are transparent, system calls exchange registers, a fault ends its task only and
    the nearest ready task runs on, each processor exception arrives at the entry point of the intended handler (\<open>Traps\<close>,
    \<open>Descriptors\<close>), and so do the tasks that the shell makes fault (\<open>Shell_Faults\<close>).
  \<^item> Memory: the range check decides exactly the mapped user ranges and ends, frames are handed out
    once (\<open>Memory\<close>), spawning is all or nothing (\<open>Syscall\<close>), and a spawned program finds its bytes and
    can pass nothing but its two pages (\<open>Loader\<close>).
  \<^item> Boot: both modes reach their first task with exactly the intended authority (\<open>Boot\<close>).
  \<^item> Communication: a rendezvous completes, queues are first-in first-out (\<open>IPC\<close>, \<open>Messages\<close>), and the
    stress workers lose no message and never stall (\<open>Shell_Stress\<close>).
  \<^item> Services: each refines its abstract behaviour (a map of paths, a map of slots, an ordered log,
    a fair semaphore, devices read in order), a release wakes its waiter, and the guarded counter is exact
    (\<open>Sync_Service\<close>, \<open>Sync_Demo\<close>).
  \<^item> Shell: filesystem commands do what the abstract filesystem says of the part of the path and text that
    is sent, the first 30 and 94 bytes (\<open>Shell_Client\<close>); the capability commands (\<open>Shell_Commands\<close>).
  \<^item> Persistence and distribution: restore undoes everything since the capture, forged rights are
    refused, migration is transparent, failover recovers.
  \<^item> Simulators: the cache simulator is a least-recently-used cache (\<open>Arch_Sim\<close>).
  \<^item> The kernel as a whole, in this theory: the invariant \<open>kernel_wf\<close> holds after any interleaving of
    system calls, ticks, yields, terminations, faults, service starts and replies.

  \<^bold>\<open>Loops and bounds.\<close> Loops of the code that need not end are partial functions whose value \<open>None\<close> is
  divergence. The loop of the range check is shown to return on every input; \<open>watch_loop\<close>, \<open>race_spin\<close>,
  \<open>yield_ticks\<close> and the resolution of history references return when ticks or keys arrive or when no entry refers
  to itself, and it is shown where they do not. The revocation loop terminates because
  every pass but the last enlarges the set of revoked identities, which has a fixed capacity; the pipeline, the
  pump of the node and the waits with a counter (\<open>SPIN_BOUND\<close>, \<open>PING_BOUND\<close>) have a termination proof; the
  other loops are structural recursions over an array, an input sequence or a queue. The only fuel is the number of
  instructions \<open>user_run\<close> executes of a user program; the statements give the number that reaches the next
  system call that waits (37 for the init program), so the result is a reached state and not a bound. Statements that
  allocate say how many frames must be left: 7 for one address space, 9 with the tables a spawn may need, 36 for the boot with
  demonstrations.

  \<^bold>\<open>Not modelled.\<close>
  \<^item> The text of console messages, help and listings (\<open>sched info\<close>, \<open>service list\<close>, \<open>dev list\<close>, \<open>perf\<close>, \<open>smp info\<close>,
    \<open>log tail\<close>), the benchmarks, which measure time, and \<open>sched timeslice\<close>, which repeats the preemption
    demonstration of boot. A failed asynchronous reply of the synchronisation service prints a line and does nothing else.
  \<^item> The redirection of \<open>_print\<close> to a buffer, which only \<open>watch\<close> sets while it runs a command, is modelled in \<open>Serial\<close>; the
    serial system call (\<open>print_user\<close>) is modelled without it and appends to the console.
  \<^item> In \<open>Sync_Demo\<close> a call of the service, with its turn and its answer, is one step of a worker, and the object the
    demonstration creates is taken to be free; errors of the two calls, which the code ignores, are left out there.
    The turn of the service itself is modelled in \<open>Sync_Service\<close>.
  \<^item> Translation caches, the encoding of instructions (the bytes of each are a parameter), device timing. The
    bootloader's answers and the linker's addresses are parameters of the model.
\<close>

section \<open>The kernel as a whole\<close>

text \<open>
  One step of the kernel: a system call of a user task, the rest of a blocking call after its yield
  returned, an IPC call of a kernel task, a timer tick with the scheduler lock free or held, a
  yield, the termination of the current task, a fault of it, the start of a service, and the installation of a
  service's reply channel. The steps come in any order and with any arguments.
\<close>

inductive kernel_step :: "kernel \<Rightarrow> kernel \<Rightarrow> bool" where
  step_syscall: "syscall_dispatch f k = Ret (r, k') \<Longrightarrow> kernel_step k k'"
| step_resume: "syscall_resume w f k = (r, k') \<Longrightarrow> kernel_step k k'"
| step_send: "sys_send_typed idx tag ver p k = (x, k') \<Longrightarrow> kernel_step k k'"
| step_send_async: "sys_send_async idx tag ver p k = (y, k') \<Longrightarrow> kernel_step k k'"
| step_receive: "sys_receive_typed k = (z, k') \<Longrightarrow> kernel_step k k'"
| step_receive_async: "sys_receive_async k = (u, k') \<Longrightarrow> kernel_step k k'"
| step_tick: "kernel_step k (timer_isr lock_held k)"
| step_yield: "kernel_step k (yield_cpu k)"
| step_terminate: "kernel_step k (term_kernel (terminate_current_task k))"
| step_fault: "exception_dispatch lock_held frame vector k = Some out \<Longrightarrow> kernel_step k (term_kernel out)"
| step_service: "svc < MAX_TASKS \<Longrightarrow> ensure_service svc entry k = Ret k' \<Longrightarrow> kernel_step k k'"
| step_reply: "install_reply svc base target k = Ret k' \<Longrightarrow> kernel_step k k'"

inductive kernel_reachable :: "layout \<Rightarrow> machine \<Rightarrow> kernel \<Rightarrow> bool" for l m where
  boot: "kernel_reachable l m (initial_kernel l m)"
| step: "kernel_reachable l m k \<Longrightarrow> kernel_step k k' \<Longrightarrow> kernel_reachable l m k'"

lemma kernel_wf_ensure_service:
  assumes "kernel_wf k" "svc < MAX_TASKS" "ensure_service svc entry k = Ret k'"
  shows "kernel_wf k'"
  using ensure_service_starts_once [OF assms(1,2), of entry] assms(3) by auto

lemma kernel_wf_install_reply:
  assumes "kernel_wf k" "install_reply svc base target k = Ret k'"
  shows "kernel_wf k'"
proof -
  have "k' = update_task svc (\<lambda>t. t\<lparr>t_caps := (t_caps t)\<lparr>slots :=
      (slots (t_caps t))[1 := Some (reply_cap target (base + target))]\<rparr>\<rparr>) k"
    using assms(2) by (auto simp: install_reply_def split: option.splits if_splits)
  moreover have "kernel_wf \<dots>"
    by (rule kernel_wf_update_task [OF assms(1)]) (simp add: task_wf_def cap_table_wf_def)
  ultimately show ?thesis by simp
qed

lemma kernel_wf_step: "kernel_step k k' \<Longrightarrow> kernel_wf k \<Longrightarrow> kernel_wf k'"
proof (induction rule: kernel_step.induct)
  case (step_syscall f k r k')
  then show ?case using kernel_wf_syscall_dispatch by blast
next
  case (step_resume w f k r k')
  then show ?case using kernel_wf_syscall_resume [of k w f] by simp
next
  case (step_send idx tag ver p k x k')
  then show ?case using kernel_wf_sys_send [of k idx tag ver p] by simp
next
  case (step_send_async idx tag ver p k y k')
  then show ?case using kernel_wf_sys_send_async [of k idx tag ver p] by simp
next
  case (step_receive k z k')
  then show ?case using kernel_wf_sys_receive [of k] by simp
next
  case (step_receive_async k u k')
  then show ?case using kernel_wf_sys_receive_async [of k] by simp
next
  case (step_tick k lock_held)
  then show ?case by (rule kernel_wf_timer_isr)
next
  case (step_yield k)
  then show ?case by (rule kernel_wf_sched_rel [OF _ sched_rel_yield])
next
  case (step_terminate k)
  then show ?case by (rule kernel_wf_sched_rel [OF _ sched_rel_terminate])
next
  case (step_fault lock_held frame vector k out)
  then show ?case using kernel_wf_exception_dispatch by blast
next
  case (step_service svc entry k k')
  then show ?case using kernel_wf_ensure_service by blast
next
  case (step_reply svc base target k k')
  then show ?case using kernel_wf_install_reply by blast
qed

text \<open>
  C7. The kernel stays well formed. In every state the kernel can reach from boot, by system calls,
  resumed calls, kernel IPC, ticks, yields, terminations, faults and service starts in any order, the task
  table has its full length, the task in a slot carries that slot's identifier, every capability
  table has exactly thirty-two slots, no message queue holds more than eight messages, and the
  audit log's counters agree with its contents.
\<close>

theorem kernel_stays_well_formed:
  assumes "kernel_reachable l m k"
  shows "length (tasks k) = MAX_TASKS \<and> audit_inv (audit k) \<and>
    (\<forall>i t. get_task k i = Some t \<longrightarrow> t_id t = i \<and> length (slots (t_caps t)) = MAX_CAPS \<and>
       length (queue_contents (t_msg_queue t)) \<le> MSG_QUEUE_CAPACITY)"
proof -
  have wf: "kernel_wf k"
    using assms by (induction rule: kernel_reachable.induct) (simp_all add: kernel_wf_step)
  have "t_id t = i \<and> length (slots (t_caps t)) = MAX_CAPS \<and> length (queue_contents (t_msg_queue t)) \<le> MSG_QUEUE_CAPACITY"
    if "get_task k i = Some t" for i t
    using kernel_wf_task [OF wf that] mq.within_capacity [of "t_msg_queue t"] by (simp add: task_wf_def cap_table_wf_def)
  then show ?thesis using wf by (simp add: kernel_wf_def)
qed

theorem kernel_stays_well_formed_witness:
  "\<exists>k. kernel_reachable sample_layout sample_machine k \<and> get_task k 82 \<noteq> None \<and> length (tasks k) = MAX_TASKS"
proof -
  let ?k = "initial_kernel sample_layout sample_machine"
  obtain k where k: "ensure_service 82 0x5000 ?k = Ret k" "get_task k 82 \<noteq> None"
    using ensure_service_starts_once [OF kernel_wf_initial, of 82 "0x5000" sample_layout sample_machine] by (auto simp: MAX_TASKS_def)
  have "kernel_step ?k k" by (rule kernel_step.step_service [OF _ k(1)]) (simp add: MAX_TASKS_def)
  then have r: "kernel_reachable sample_layout sample_machine k"
    by (rule kernel_reachable.step [OF kernel_reachable.boot])
  then show ?thesis using k(2) kernel_stays_well_formed [OF r] by blast
qed

end
